(* ===== verification/Prelude.thy ===== *)
theory Prelude
  imports Main "HOL-Library.Word" "HOL-Library.Monad_Syntax"
begin

unbundle bit_operations_syntax

text \<open>
  Shared vocabulary of the development: the machine integers and byte buffers of
  the Rust sources, panics, the operations of the Rust standard library the
  sources use on them, the interface of the \<open>byteorder\<close> crate, and the view of a
  byte buffer as a sequence of bits that carries the proofs of the packed
  structures.

  Conventions.
  \<^item> \<open>u8\<close>, \<open>u32\<close>, \<open>u64\<close> are words; their \<open>+\<close>, \<open>-\<close>, \<open>*\<close> wrap, as in a
    release build, and a shift takes its amount modulo the width, as the release
    build does.
  \<^item> \<open>usize\<close> is \<open>nat\<close>: it holds lengths of, and indices into, buffers in memory. A
    \<open>usize\<close> subtraction that would go below zero is a panic.
  \<^item> A computation that may panic has type \<open>'a option\<close>, where \<open>None\<close> is the panic; a
    Rust \<open>Option\<close> inside such a computation is an option of its own. A Rust
    \<open>Result<T, E>\<close> is \<open>'e + 't\<close>, with \<open>Inl\<close> the error.
\<close>

section \<open>Types\<close>

type_synonym u8 = "8 word"
type_synonym u32 = "32 word"
type_synonym u64 = "64 word"
type_synonym usize = nat
type_synonym bytes = "u8 list"

text \<open>\<open>panics\<close> marks the result of code that may panic: \<open>None\<close> is the panic.\<close>
type_synonym 'a panics = "'a option"

named_theorems bit_list_simps \<open>lengths and elements of the bit sequence of a buffer\<close>
named_theorems rust_defs \<open>the Rust standard operations, unfolded\<close>

text \<open>An \<open>io::Error\<close> is its kind; its message is not modelled.\<close>
datatype io_error = NotFound | AlreadyExists | InvalidInput | InvalidData | UnexpectedEof | Other

text \<open>\<open>std::cmp::Ordering\<close>.\<close>
datatype Ordering = Less | Equal | Greater

section \<open>Panics, indexing and slicing\<close>

definition rust_assert :: "bool \<Rightarrow> unit panics" where
  "rust_assert b = (if b then Some () else None)"

definition index_at :: "'a list \<Rightarrow> usize \<Rightarrow> 'a panics" where
  "index_at xs i = (if i < length xs then Some (xs ! i) else None)"

definition slice_from :: "'a list \<Rightarrow> usize \<Rightarrow> 'a list panics" where
  "slice_from xs i = (if i \<le> length xs then Some (drop i xs) else None)"

definition slice :: "'a list \<Rightarrow> usize \<Rightarrow> usize \<Rightarrow> 'a list panics" where
  "slice xs i j = (if i \<le> j \<and> j \<le> length xs then Some (take (j - i) (drop i xs)) else None)"

definition usub :: "usize \<Rightarrow> usize \<Rightarrow> usize panics" where
  "usub a b = (if b \<le> a then Some (a - b) else None)"

text \<open>\<open>Result::unwrap\<close> panics on an error.\<close>

definition unwrap :: "'e + 'a \<Rightarrow> 'a panics" where
  "unwrap r = (case r of Inl _ \<Rightarrow> None | Inr x \<Rightarrow> Some x)"

text \<open>\<open>iter().position(|b| p b)\<close>: the index of the first element that satisfies \<open>p\<close>.\<close>

fun position :: "('a \<Rightarrow> bool) \<Rightarrow> 'a list \<Rightarrow> usize option" where
  "position p [] = None"
| "position p (x # xs) = (if p x then Some 0 else map_option Suc (position p xs))"

lemma rust_assert_eq [simp]: "rust_assert b = Some u \<longleftrightarrow> b"
  by (simp add: rust_assert_def)

lemma rust_assert_True [simp]: "rust_assert True = Some ()"
  by (simp add: rust_assert_def)

lemma rust_assert_False [simp]: "rust_assert False = None"
  by (simp add: rust_assert_def)

lemma index_at_lt [simp]: "i < length xs \<Longrightarrow> index_at xs i = Some (xs ! i)"
  by (simp add: index_at_def)

lemma index_at_ge [simp]: "length xs \<le> i \<Longrightarrow> index_at xs i = None"
  by (simp add: index_at_def)

lemma slice_from_le [simp]: "i \<le> length xs \<Longrightarrow> slice_from xs i = Some (drop i xs)"
  by (simp add: slice_from_def)

lemma usub_le [simp]: "b \<le> a \<Longrightarrow> usub a b = Some (a - b)"
  by (simp add: usub_def)

lemma those_map_Some: "(\<And>x. x \<in> set xs \<Longrightarrow> f x = Some (g x)) \<Longrightarrow> those (map f xs) = Some (map g xs)"
  by (induction xs) simp_all

lemma position_append_found:
  assumes "\<forall>x\<in>set xs. \<not> p x" and "p y"
  shows "position p (xs @ y # ys) = Some (length xs)"
  using assms by (induction xs) auto

lemma position_Some_iff:
  "position p xs = Some i \<longleftrightarrow> i < length xs \<and> p (xs ! i) \<and> (\<forall>j<i. \<not> p (xs ! j))"
proof (induction xs arbitrary: i)
  case Nil
  then show ?case by simp
next
  case (Cons x xs)
  show ?case
  proof (cases i)
    case 0
    then show ?thesis by auto
  next
    case (Suc k)
    then show ?thesis
      using Cons.IH[of k] by (auto simp: less_Suc_eq_0_disj)
  qed
qed

section \<open>Iterators\<close>

text \<open>
  A Rust iterator is its state and its \<open>next\<close>. \<open>iter_collect\<close> calls \<open>next\<close> until it returns
  \<open>None\<close>; an iterator that never ends, like a panic, is \<open>None\<close>, so a statement that a
  collection is \<open>Some\<close> says that it ends. \<open>iter_take n\<close> calls \<open>next\<close> at most \<open>n\<close> times.
\<close>

partial_function (option) iter_collect ::
  "('s \<Rightarrow> ('a option \<times> 's) panics) \<Rightarrow> 's \<Rightarrow> 'a list panics" where
  "iter_collect next s =
    do { (x, s') \<leftarrow> next s;
         case x of None \<Rightarrow> Some []
         | Some x \<Rightarrow> do { xs \<leftarrow> iter_collect next s'; Some (x # xs) } }"

declare iter_collect.simps [code]

fun iter_take :: "usize \<Rightarrow> ('s \<Rightarrow> ('a option \<times> 's) panics) \<Rightarrow> 's \<Rightarrow> 'a list panics" where
  "iter_take 0 next s = Some []"
| "iter_take (Suc n) next s =
    do { (x, s') \<leftarrow> next s;
         case x of None \<Rightarrow> Some []
         | Some x \<Rightarrow> do { xs \<leftarrow> iter_take n next s'; Some (x # xs) } }"

lemma iter_collect_None [simp]: "next s = Some (None, s') \<Longrightarrow> iter_collect next s = Some []"
  by (simp add: iter_collect.simps)

lemma iter_collect_Some [simp]:
  "next s = Some (Some x, s') \<Longrightarrow>
    iter_collect next s = map_option ((#) x) (iter_collect next s')"
  by (subst iter_collect.simps) (simp add: map_conv_bind_option o_def)

section \<open>Integer operations of the standard library\<close>

definition shl :: "'a::len word \<Rightarrow> nat \<Rightarrow> 'a word" where
  "shl x n = push_bit (n mod LENGTH('a)) x"

definition shr :: "'a::len word \<Rightarrow> nat \<Rightarrow> 'a word" where
  "shr x n = drop_bit (n mod LENGTH('a)) x"

text \<open>\<open>bit_len n\<close> is the number of binary digits of \<open>n\<close>, so that \<open>leading_zeros\<close>
  of a \<open>u64\<close> is \<open>64\<close> minus it.\<close>

fun bit_len :: "nat \<Rightarrow> nat" where
  "bit_len n = (if n = 0 then 0 else Suc (bit_len (n div 2)))"

declare bit_len.simps [simp del]

definition leading_zeros :: "u64 \<Rightarrow> nat" where
  "leading_zeros w = 64 - bit_len (unat w)"

definition count_ones :: "u64 \<Rightarrow> nat" where
  "count_ones w = length (filter (bit w) [0..<64])"

lemma bit_len_le_iff: "bit_len n \<le> k \<longleftrightarrow> n < 2 ^ k"
proof (induction n arbitrary: k rule: bit_len.induct)
  case (1 n)
  show ?case
  proof (cases "n = 0")
    case True
    then show ?thesis by (simp add: bit_len.simps)
  next
    case False
    show ?thesis
    proof (cases k)
      case 0
      with False show ?thesis by (simp add: bit_len.simps [of n])
    next
      case (Suc j)
      have "bit_len n \<le> k \<longleftrightarrow> bit_len (n div 2) \<le> j"
        using False Suc by (simp add: bit_len.simps [of n])
      also have "\<dots> \<longleftrightarrow> n div 2 < 2 ^ j"
        using False by (rule "1.IH")
      also have "\<dots> \<longleftrightarrow> n < 2 ^ k"
        using Suc by auto
      finally show ?thesis .
    qed
  qed
qed

lemma bit_len_0 [simp]: "bit_len 0 = 0"
  by (simp add: bit_len.simps)

lemma bit_len_u64: "bit_len (unat (w :: u64)) \<le> 64"
  using unsigned_less [of w, where 'a = nat] by (simp add: bit_len_le_iff)

lemma leading_zeros_ge_iff:
  "k \<le> 64 \<Longrightarrow> 64 - k \<le> leading_zeros w \<longleftrightarrow> unat w < 2 ^ k"
  using bit_len_u64 [of w] by (auto simp: leading_zeros_def simp flip: bit_len_le_iff)

lemma nat_or_push:
  fixes a b :: nat
  assumes "a < 2 ^ s"
  shows "a OR push_bit s b = a + 2 ^ s * b"
proof -
  have "take_bit s a = a" using assms by (simp add: take_bit_nat_eq_self)
  then have "\<not> bit a n" if "s \<le> n" for n
    using that by (metis bit_take_bit_iff not_le)
  then have "a AND push_bit s b = 0"
    by (intro bit_eqI) (auto simp: bit_simps)
  then show ?thesis by (simp add: disjunctive_add_eq_or push_bit_eq_mult mult.commute)
qed

lemma unat_or_push:
  fixes a b :: "'a::len word"
  assumes "unat a < 2 ^ s" and "2 ^ s * unat b < 2 ^ LENGTH('a)"
  shows "unat (a OR push_bit s b) = unat a + 2 ^ s * unat b"
proof -
  have "unat (push_bit s b) = take_bit LENGTH('a) (push_bit s (unat b))"
    by (rule unsigned_push_bit_eq)
  also have "\<dots> = push_bit s (unat b)"
    using assms(2) by (simp add: push_bit_eq_mult mult.commute take_bit_nat_eq_self)
  finally have "unat (push_bit s b) = push_bit s (unat b)" .
  then show ?thesis
    using nat_or_push [OF assms(1), of "unat b"] by (simp add: unsigned_or_eq)
qed

lemma unat_ucast_u8_u64 [simp]: "unat (ucast (b :: u8) :: u64) = unat b"
  using unsigned_less [of b, where 'a = nat] by (simp add: unsigned_ucast_eq take_bit_nat_eq_self)

lemma word_of_nat_eqI: "unat (w :: 'a::len word) = n \<Longrightarrow> w = of_nat n"
  by (metis of_nat_unat ucast_id)

lemma unat_of_nat_u64: "n < 2 ^ 64 \<Longrightarrow> unat (of_nat n :: u64) = n"
  by (simp add: unsigned_of_nat take_bit_nat_eq_self)

lemma drop_bit_exp:
  "k \<le> m \<Longrightarrow> m < LENGTH('a) \<Longrightarrow> drop_bit k (2 ^ m :: 'a::len word) = 2 ^ (m - k)"
  by (intro bit_word_eqI) (auto simp: bit_simps)

lemma bit_imp_less:
  fixes v :: "'a::len word"
  assumes "unat v < 2 ^ w" and "bit v k"
  shows "k < w"
proof -
  have "take_bit w (unat v) = unat v" using assms(1) by (simp add: take_bit_nat_eq_self)
  moreover have "bit (unat v) k" using assms(2) by (simp add: bit_unsigned_iff)
  ultimately show ?thesis by (metis bit_take_bit_iff)
qed

lemma and_nat_63: "(n :: nat) AND 63 = n mod 64"
  using take_bit_eq_mask [of 6 n] by (simp add: take_bit_eq_mod mask_eq_exp_minus_1)

lemma unat_pred:
  fixes w :: "'a::len word"
  assumes "unat w = Suc n"
  shows "unat (w - 1) = n" "w - 1 < w"
proof -
  from assms have "w \<noteq> 0" by auto
  then have "unat (w - 1) = unat w - 1" by (rule unat_minus_one)
  with assms show "unat (w - 1) = n" "w - 1 < w" by (simp_all add: word_less_nat_alt)
qed

lemma unat_and_63: "unat ((w :: u64) AND 63) = unat w mod 64"
proof -
  have "w AND 63 = take_bit 6 w" by (simp add: take_bit_eq_mask mask_eq_exp_minus_1)
  then show ?thesis by (simp add: take_bit_eq_mod unat_mod)
qed

lemma and_63_eq_0: "(w :: u64) AND 63 = 0 \<longleftrightarrow> unat w mod 64 = 0"
  unfolding unat_and_63 [symmetric] unsigned_eq_0_iff ..

text \<open>The number of 64-bit words that hold \<open>n\<close> bits.\<close>

lemma words_ceil: "(n + 63) div 64 = n div 64 + (if n mod 64 = 0 then 0 else 1)" for n :: nat
proof -
  define q r where "q = n div 64" and "r = n mod 64"
  then have n: "n = 64 * q + r" "r < 64" by simp_all
  then have "(n + 63) div 64 = q + (r + 63) div 64"
    by (metis add.assoc add.commute div_mult_self2 zero_neq_numeral)
  moreover have "(r + 63) div 64 = (if r = 0 then 0 else 1)"
    using n(2) by (cases "r = 0") (auto simp: div_nat_eqI)
  ultimately show ?thesis by (simp add: q_def r_def)
qed

section \<open>Bit sequences\<close>

text \<open>
  \<open>val_bits n x\<close> is the \<open>n\<close> low bits of \<open>x\<close>, most significant first: the order in
  which the packed structures lay bits out.
\<close>

definition val_bits :: "nat \<Rightarrow> 'a::len word \<Rightarrow> bool list" where
  "val_bits n x = map (bit x) (rev [0..<n])"

abbreviation byte_bits :: "u8 \<Rightarrow> bool list" where
  "byte_bits \<equiv> val_bits 8"

abbreviation word_bits :: "u64 \<Rightarrow> bool list" where
  "word_bits \<equiv> val_bits 64"

definition buf_bits :: "bytes \<Rightarrow> bool list" where
  "buf_bits bs = concat (map byte_bits bs)"

lemma length_val_bits [simp, bit_list_simps]: "length (val_bits n x) = n"
  by (simp add: val_bits_def)

lemma nth_val_bits [simp, bit_list_simps]: "i < n \<Longrightarrow> val_bits n x ! i = bit x (n - 1 - i)"
  by (simp add: val_bits_def rev_nth)

lemma val_bits_zero [simp]: "val_bits n 0 = replicate n False"
  by (intro nth_equalityI) simp_all

lemma buf_bits_Nil [simp]: "buf_bits [] = []"
  by (simp add: buf_bits_def)

lemma buf_bits_Cons [simp]: "buf_bits (b # bs) = byte_bits b @ buf_bits bs"
  by (simp add: buf_bits_def)

lemma buf_bits_append [simp]: "buf_bits (xs @ ys) = buf_bits xs @ buf_bits ys"
  by (simp add: buf_bits_def)

lemma length_buf_bits [simp, bit_list_simps]: "length (buf_bits bs) = 8 * length bs"
  by (induction bs) simp_all

lemma buf_bits_drop: "buf_bits (drop k bs) = drop (8 * k) (buf_bits bs)"
proof (induction bs arbitrary: k)
  case Nil
  then show ?case by simp
next
  case (Cons b bs)
  then show ?case by (cases k) simp_all
qed

lemma buf_bits_take: "buf_bits (take k bs) = take (8 * k) (buf_bits bs)"
proof (induction bs arbitrary: k)
  case Nil
  then show ?case by simp
next
  case (Cons b bs)
  then show ?case by (cases k) simp_all
qed

lemma nth_buf_bits:
  assumes "i < 8 * length bs"
  shows "buf_bits bs ! i = bit (bs ! (i div 8)) (7 - i mod 8)"
  using assms
proof (induction bs arbitrary: i)
  case Nil
  then show ?case by simp
next
  case (Cons b bs)
  show ?case
  proof (cases "i < 8")
    case True
    then show ?thesis by (simp add: nth_append)
  next
    case False
    then obtain j where j: "i = 8 + j" using le_Suc_ex not_less by blast
    with Cons.prems have "j < 8 * length bs" by simp
    with Cons.IH [of j] j show ?thesis by (simp add: nth_append div_add_self1)
  qed
qed

lemma word_bits_inj: "word_bits x = word_bits y \<longleftrightarrow> x = y"
proof
  assume eq: "word_bits x = word_bits y"
  show "x = y"
  proof (rule bit_word_eqI)
    fix k :: nat assume "k < LENGTH(64)"
    then have k: "63 - k < 64" "63 - (63 - k) = k" by auto
    have "word_bits x ! (63 - k) = word_bits y ! (63 - k)" using eq by simp
    with k show "bit x k = bit y k" by simp
  qed
qed simp

section \<open>Big-endian bytes\<close>

definition to_be_bytes :: "u64 \<Rightarrow> bytes" where
  "to_be_bytes w = map (\<lambda>k. ucast (drop_bit (8 * k) w)) (rev [0..<8])"

definition to_be_bytes32 :: "u32 \<Rightarrow> bytes" where
  "to_be_bytes32 w = map (\<lambda>k. ucast (drop_bit (8 * k) w)) (rev [0..<4])"

definition from_be_bytes :: "bytes \<Rightarrow> 'a::len word" where
  "from_be_bytes bs = foldl (\<lambda>acc b. push_bit 8 acc OR ucast b) 0 bs"

lemma length_to_be_bytes [simp]: "length (to_be_bytes w) = 8"
  by (simp add: to_be_bytes_def)

lemma length_to_be_bytes32 [simp]: "length (to_be_bytes32 w) = 4"
  by (simp add: to_be_bytes32_def)

lemma from_be_bytes_snoc:
  "from_be_bytes (bs @ [b]) = push_bit 8 (from_be_bytes bs) OR ucast b"
  by (simp add: from_be_bytes_def)

lemma from_be_bytes_Nil [simp]: "from_be_bytes [] = 0"
  by (simp add: from_be_bytes_def)

lemma bit_from_be_bytes:
  assumes "k < LENGTH('a)"
  shows "bit (from_be_bytes bs :: 'a::len word) k \<longleftrightarrow>
    k < 8 * length bs \<and> buf_bits bs ! (8 * length bs - 1 - k)"
  using assms
proof (induction bs arbitrary: k rule: rev_induct)
  case Nil
  then show ?case by simp
next
  case (snoc b bs)
  show ?case
  proof (cases "k < 8")
    case True
    with snoc.prems show ?thesis
      by (auto simp: from_be_bytes_snoc bit_simps nth_append)
  next
    case False
    then obtain j where j: "k = 8 + j" using le_Suc_ex not_less by blast
    with snoc.prems have "j < LENGTH('a)" by simp
    from snoc.IH [OF this] j snoc.prems show ?thesis
      by (auto simp: from_be_bytes_snoc bit_simps nth_append bit_imp_le_length
          dest: bit_imp_le_length)
  qed
qed

lemma be_index_eq:
  fixes i m :: nat
  assumes "i < 8 * m"
  shows "8 * (m - 1 - i div 8) + (7 - i mod 8) = 8 * m - 1 - i"
proof -
  define q r where "q = i div 8" and "r = i mod 8"
  have "i = 8 * q + r" "r < 8" by (simp_all add: q_def r_def)
  moreover from this assms have "q < m" by linarith
  ultimately show ?thesis by (simp flip: q_def r_def)
qed

lemma nth_to_be_bytes: "j < 8 \<Longrightarrow> to_be_bytes w ! j = ucast (drop_bit (8 * (7 - j)) w)"
  by (simp add: to_be_bytes_def rev_nth)

lemma nth_to_be_bytes32: "j < 4 \<Longrightarrow> to_be_bytes32 w ! j = ucast (drop_bit (8 * (3 - j)) w)"
  by (simp add: to_be_bytes32_def rev_nth)

lemma buf_bits_to_be_bytes [simp]: "buf_bits (to_be_bytes w) = word_bits w"
proof (intro nth_equalityI)
  fix i assume "i < length (buf_bits (to_be_bytes w))"
  then have i: "i < 64" "i div 8 < 8" by auto
  with be_index_eq [of i 8] show "buf_bits (to_be_bytes w) ! i = word_bits w ! i"
    by (simp add: nth_buf_bits nth_to_be_bytes bit_simps less_imp_diff_less)
qed simp

lemma word_bits_from_be_bytes:
  "length bs = 8 \<Longrightarrow> word_bits (from_be_bytes bs) = buf_bits bs"
  by (intro nth_equalityI) (auto simp: bit_from_be_bytes)

lemma from_to_be_bytes [simp]: "from_be_bytes (to_be_bytes w) = w"
  by (simp add: word_bits_from_be_bytes flip: word_bits_inj)

lemma from_to_be_bytes32 [simp]: "from_be_bytes (to_be_bytes32 w) = w"
proof (rule bit_word_eqI)
  fix n assume "n < LENGTH(32)"
  then have n: "n < 32" "31 - n < 32" by auto
  then have d: "(31 - n) div 8 < 4" by auto
  have e: "8 * (3 - (31 - n) div 8) + (7 - (31 - n) mod 8) = n"
    using be_index_eq [of "31 - n" 4] n by simp
  show "bit (from_be_bytes (to_be_bytes32 w) :: u32) n = bit w n"
    using n d by (simp add: bit_from_be_bytes nth_buf_bits nth_to_be_bytes32 bit_simps e
        less_imp_diff_less)
qed

lemma from_be_bytes_inverse: "length bs = 8 \<Longrightarrow> to_be_bytes (from_be_bytes bs) = bs"
proof -
  assume len: "length bs = 8"
  have "length xs = length ys \<Longrightarrow> buf_bits xs = buf_bits ys \<Longrightarrow> xs = ys" for xs ys :: bytes
  proof (induction xs ys rule: list_induct2)
    case (Cons x xs y ys)
    have "x = y"
    proof (rule bit_word_eqI)
      fix k :: nat assume "k < LENGTH(8)"
      then have "7 - k < 8" "7 - (7 - k) = k" by auto
      with Cons.prems have "byte_bits x ! (7 - k) = byte_bits y ! (7 - k)" by simp
      with \<open>7 - k < 8\<close> \<open>7 - (7 - k) = k\<close> show "bit x k = bit y k" by simp
    qed
    with Cons show ?case by simp
  qed simp
  with len show ?thesis by (simp add: word_bits_from_be_bytes)
qed

section \<open>The byteorder crate\<close>

text \<open>
  \<open>BigEndian::read_u64\<close>, \<open>read_u32\<close> and \<open>write_u32\<close> belong to the crate
  \<open>byteorder\<close>, which is not part of the repository: the model takes them as a
  parameter. The locale states the documented contract, that a read decodes the
  leading bytes in big-endian order, that a write replaces the leading bytes and
  keeps the others, and that both panic on a slice that is too short.
\<close>

record byteorder =
  be_read_u64 :: "bytes \<Rightarrow> u64 panics"
  be_read_u32 :: "bytes \<Rightarrow> u32 panics"
  be_write_u32 :: "bytes \<Rightarrow> u32 \<Rightarrow> bytes panics"

locale big_endian =
  fixes bo :: byteorder
  assumes read_u64: "be_read_u64 bo buf =
      (if length buf < 8 then None else Some (from_be_bytes (take 8 buf)))"
    and read_u32: "be_read_u32 bo buf =
      (if length buf < 4 then None else Some (from_be_bytes (take 4 buf)))"
    and write_u32: "be_write_u32 bo buf n =
      (if length buf < 4 then None else Some (to_be_bytes32 n @ drop 4 buf))"
begin

lemma read_u64_append [simp]: "length xs = 8 \<Longrightarrow> be_read_u64 bo (xs @ ys) = Some (from_be_bytes xs)"
  by (simp add: read_u64)

lemma read_u64_exact [simp]: "length xs = 8 \<Longrightarrow> be_read_u64 bo xs = Some (from_be_bytes xs)"
  by (simp add: read_u64)

lemma read_u64_bits:
  assumes "8 * j + 8 \<le> length buf"
  shows "\<exists>w. be_read_u64 bo (drop (8 * j) buf) = Some w \<and>
    word_bits w = take 64 (drop (64 * j) (buf_bits buf))"
  using assms by (simp add: read_u64 word_bits_from_be_bytes buf_bits_take buf_bits_drop)

end

text \<open>The contract has a model: the standard library's own conversions.\<close>

definition byteorder_std :: byteorder where
  "byteorder_std =
    \<lparr>be_read_u64 = (\<lambda>buf. if length buf < 8 then None else Some (from_be_bytes (take 8 buf))),
     be_read_u32 = (\<lambda>buf. if length buf < 4 then None else Some (from_be_bytes (take 4 buf))),
     be_write_u32 = (\<lambda>buf n. if length buf < 4 then None
                             else Some (to_be_bytes32 n @ drop 4 buf))\<rparr>"

interpretation std: big_endian byteorder_std
  by unfold_locales (simp_all add: byteorder_std_def)

end
