(* ===== verification/Vbyte.thy ===== *)
theory Vbyte
  imports Prelude
begin

text \<open>
  The variable-byte encoding of \<open>u64\<close> (\<open>src/structure/vbyte.rs\<close>): seven bits a
  byte, least significant group first, the top bit set on the last byte.
  The encoder writes into a buffer with unchecked stores; a store outside the
  buffer is undefined behaviour and is the value \<open>None\<close> of the model, so that the
  safety of the two callers is a theorem.
\<close>

section \<open>Model\<close>

definition MAX_ENCODING_LEN :: usize where
  "MAX_ENCODING_LEN = 10"

definition encoding_len :: "u64 \<Rightarrow> usize" where
  "encoding_len num = (if num = 0 then 1 else ((64 + 6) - leading_zeros num) div 7)"

datatype DecodeError = EncodedValueTooLarge | UnexpectedEndOfBuffer | UnexpectedEncodingLen

definition is_last_encoded_byte :: "u8 \<Rightarrow> bool" where
  "is_last_encoded_byte byte \<longleftrightarrow> byte \<ge> 0x80"

definition clear_msb :: "u8 \<Rightarrow> u8" where
  "clear_msb byte = byte AND 0x7f"

definition set_msb :: "u8 \<Rightarrow> u8" where
  "set_msb byte = byte OR 0x80"

definition max_byte_too_large :: "nat \<Rightarrow> u8 \<Rightarrow> bool" where
  "max_byte_too_large shift byte \<longleftrightarrow> shift = 63 \<and> byte > 0x81"

text \<open>The loop of \<open>decode\<close>, with its variables \<open>num\<close>, \<open>shift\<close> and the index \<open>i\<close>.\<close>

fun decode_loop :: "u64 \<Rightarrow> nat \<Rightarrow> usize \<Rightarrow> bytes \<Rightarrow> DecodeError + (u64 \<times> usize)" where
  "decode_loop num shift i [] = Inl UnexpectedEndOfBuffer"
| "decode_loop num shift i (b # bs) =
    (if is_last_encoded_byte b then
       (if max_byte_too_large shift b then Inl EncodedValueTooLarge
        else Inr (num OR shl (ucast (clear_msb b)) shift, i + 1))
     else
       (let num' = num OR shl (ucast b) shift; shift' = shift + 7 in
        if shift' > 64 then Inl UnexpectedEncodingLen
        else decode_loop num' shift' (i + 1) bs))"

definition decode :: "bytes \<Rightarrow> DecodeError + (u64 \<times> usize)" where
  "decode buf = decode_loop 0 0 0 buf"

definition more_than_7bits_remain :: "u64 \<Rightarrow> bool" where
  "more_than_7bits_remain num \<longleftrightarrow> num \<ge> 0x80"

text \<open>\<open>*buf.get_unchecked_mut(i) = b\<close>; \<open>None\<close> is undefined behaviour.\<close>

definition store_unchecked :: "bytes \<Rightarrow> usize \<Rightarrow> u8 \<Rightarrow> bytes option" where
  "store_unchecked buf i b = (if i < length buf then Some (buf[i := b]) else None)"

function encode_unchecked_loop :: "bytes \<Rightarrow> u64 \<Rightarrow> usize \<Rightarrow> (bytes \<times> usize) option" where
  "encode_unchecked_loop buf num i =
    (if more_than_7bits_remain num then
       do { buf' \<leftarrow> store_unchecked buf i (clear_msb (ucast num));
            encode_unchecked_loop buf' (shr num 7) (i + 1) }
     else
       do { buf' \<leftarrow> store_unchecked buf i (set_msb (ucast num));
            Some (buf', i + 1) })"
  by pat_completeness auto
termination
proof (relation "measure (\<lambda>(buf, num, i). unat num)")
  fix buf i buf' and num :: u64
  assume "more_than_7bits_remain num"
  then have "128 \<le> unat num"
    by (simp add: more_than_7bits_remain_def word_le_nat_alt)
  then show "((buf', shr num 7, i + 1), buf, num, i) \<in> measure (\<lambda>(buf, num, i). unat num)"
    by (simp add: shr_def unsigned_drop_bit_eq drop_bit_eq_div unat_div)
qed simp

declare encode_unchecked_loop.simps [simp del]

definition encode_unchecked :: "bytes \<Rightarrow> u64 \<Rightarrow> (bytes \<times> usize) option" where
  "encode_unchecked buf num = encode_unchecked_loop buf num 0"

text \<open>\<open>encode_slice\<close> returns the buffer it may have changed and the Rust \<open>Option\<close>.\<close>

definition encode_slice :: "bytes \<Rightarrow> u64 \<Rightarrow> (bytes \<times> usize option) option" where
  "encode_slice buf num =
    (if encoding_len num > length buf then Some (buf, None)
     else do { (buf', n) \<leftarrow> encode_unchecked buf num; Some (buf', Some n) })"

definition encode_vec :: "u64 \<Rightarrow> bytes option" where
  "encode_vec num =
    do { (vec, _) \<leftarrow> encode_unchecked (replicate (encoding_len num) 0) num; Some vec }"

definition write_async :: "bytes \<Rightarrow> u64 \<Rightarrow> (bytes \<times> usize) option" where
  "write_async dest num = do { vec \<leftarrow> encode_vec num; Some (dest @ vec, length vec) }"

section \<open>The encoding as a list of base-128 digits\<close>

fun vbytes :: "nat \<Rightarrow> bytes" where
  "vbytes n = (if n < 128 then [of_nat (n + 128)] else of_nat (n mod 128) # vbytes (n div 128))"

declare vbytes.simps [simp del]

text \<open>The number that a run of bytes stands for, whatever its length.\<close>

fun vbytes_value :: "bytes \<Rightarrow> nat" where
  "vbytes_value [] = 0"
| "vbytes_value (b # bs) = unat b mod 128 + 128 * vbytes_value bs"

lemma vbytes_small: "n < 128 \<Longrightarrow> vbytes n = [of_nat (n + 128)]"
  by (simp add: vbytes.simps)

lemma vbytes_large: "128 \<le> n \<Longrightarrow> vbytes n = of_nat (n mod 128) # vbytes (n div 128)"
  by (subst vbytes.simps) simp

lemma vbytes_ne [simp]: "vbytes n \<noteq> []"
  by (subst vbytes.simps) simp

lemma length_vbytes_le_iff: "length (vbytes n) \<le> k \<longleftrightarrow> 0 < k \<and> n < 2 ^ (7 * k)"
proof (induction n arbitrary: k rule: vbytes.induct)
  case (1 n)
  show ?case
  proof (cases "n < 128")
    case True
    have "(128::nat) \<le> 2 ^ (7 * k)" if "0 < k"
      using that power_increasing [of 7 "7 * k" "2::nat"] by simp
    with True show ?thesis by (auto simp: vbytes_small)
  next
    case False
    then have n: "128 \<le> n" by simp
    show ?thesis
    proof (cases k)
      case 0
      then show ?thesis by simp
    next
      case (Suc j)
      have "length (vbytes n) \<le> k \<longleftrightarrow> 0 < j \<and> n div 128 < 2 ^ (7 * j)"
        using 1 False n Suc by (simp add: vbytes_large)
      also have "\<dots> \<longleftrightarrow> n div 128 < 2 ^ (7 * j)"
        using n by (cases j) auto
      also have "\<dots> \<longleftrightarrow> n < 2 ^ (7 * k)"
        using Suc by (simp add: power_add div_less_iff_less_mult mult.commute)
      finally show ?thesis using Suc by simp
    qed
  qed
qed

lemma length_vbytes_u64: "length (vbytes (unat (num :: u64))) = encoding_len num"
proof (cases "num = 0")
  case True
  then show ?thesis by (simp add: vbytes_small encoding_len_def)
next
  case False
  then have pos: "0 < unat num" by (simp add: unat_gt_0)
  define L where "L = bit_len (unat num)"
  have L: "0 < L" "L \<le> 64"
    using pos bit_len_u64 [of num] bit_len_le_iff [of "unat num" 0] by (auto simp: L_def not_le)
  have "length (vbytes (unat num)) \<le> k \<longleftrightarrow> (L + 6) div 7 \<le> k" for k
    using L by (auto simp: length_vbytes_le_iff L_def simp flip: bit_len_le_iff)
  then have "length (vbytes (unat num)) = (L + 6) div 7"
    by (meson le_antisym order_refl)
  moreover have "(64 + 6) - leading_zeros num = L + 6"
    using L by (simp add: leading_zeros_def L_def)
  ultimately show ?thesis using False by (simp add: encoding_len_def)
qed

lemma encoding_len_pos: "0 < encoding_len num"
  by (metis length_vbytes_u64 length_greater_0_conv vbytes_ne)

lemma encoding_len_max: "encoding_len num \<le> MAX_ENCODING_LEN"
  using unsigned_less [of num, where 'a = nat]
  by (simp add: MAX_ENCODING_LEN_def length_vbytes_le_iff flip: length_vbytes_u64)

section \<open>The encoder\<close>

lemma unat_shr7: "unat (shr (num :: u64) 7) = unat num div 128"
  by (simp add: shr_def drop_bit_eq_div unat_div)

lemma unat_clear_msb: "unat (clear_msb b) = unat b mod 128"
proof -
  have "clear_msb b = take_bit 7 b"
    by (simp add: clear_msb_def take_bit_eq_mask mask_eq_exp_minus_1)
  then show ?thesis by (simp add: take_bit_eq_mod unat_mod)
qed

lemma unat_set_msb: "unat b < 128 \<Longrightarrow> unat (set_msb b) = unat b + 128"
  using unat_or_push [of b 7 1] by (simp add: set_msb_def push_bit_eq_mult)

lemma unat_ucast_u8: "unat (ucast (num :: u64) :: u8) = unat num mod 256"
  by (simp add: unsigned_ucast_eq take_bit_eq_mod)

lemma clear_msb_u64: "clear_msb (ucast (num :: u64)) = of_nat (unat num mod 128)"
  by (rule word_unat_eq_iff [THEN iffD2])
    (simp add: unat_clear_msb unat_ucast_u8 unsigned_of_nat take_bit_eq_mod mod_mod_cancel)

lemma set_msb_u64: "unat num < 128 \<Longrightarrow> set_msb (ucast (num :: u64)) = of_nat (unat num + 128)"
  by (rule word_unat_eq_iff [THEN iffD2])
    (simp add: unat_set_msb unat_ucast_u8 unsigned_of_nat take_bit_eq_mod del: of_nat_add)

lemma encode_unchecked_loop_eq:
  assumes "i + length (vbytes (unat num)) \<le> length buf"
  shows "encode_unchecked_loop buf num i =
    Some (take i buf @ vbytes (unat num) @ drop (i + length (vbytes (unat num))) buf,
          i + length (vbytes (unat num)))"
  using assms
proof (induction buf num i rule: encode_unchecked_loop.induct)
  case (1 buf num i)
  show ?case
  proof (cases "more_than_7bits_remain num")
    case True
    then have big: "128 \<le> unat num"
      by (simp add: more_than_7bits_remain_def word_le_nat_alt)
    let ?b = "of_nat (unat num mod 128) :: u8"
    let ?rest = "vbytes (unat num div 128)"
    have vb: "vbytes (unat num) = ?b # ?rest" using big by (rule vbytes_large)
    have i: "i < length buf" using "1.prems" vb by simp
    then have st: "store_unchecked buf i (clear_msb (ucast num)) = Some (buf[i := ?b])"
      by (simp add: store_unchecked_def clear_msb_u64)
    have "encode_unchecked_loop (buf[i := ?b]) (shr num 7) (i + 1) =
      Some (take (i + 1) (buf[i := ?b]) @ ?rest @ drop (i + 1 + length ?rest) (buf[i := ?b]),
        i + 1 + length ?rest)"
      using "1.IH" [OF True st] "1.prems" vb by (simp add: unat_shr7)
    with True st vb i show ?thesis
      by (simp add: encode_unchecked_loop.simps [of buf num i] take_Suc_conv_app_nth)
  next
    case False
    then have small: "unat num < 128"
      by (simp add: more_than_7bits_remain_def word_le_nat_alt)
    then have vb: "vbytes (unat num) = [of_nat (unat num + 128)]" by (rule vbytes_small)
    have i: "i < length buf" using "1.prems" vb by simp
    with False vb small show ?thesis
      by (simp add: encode_unchecked_loop.simps [of buf num i] store_unchecked_def set_msb_u64
          upd_conv_take_nth_drop del: of_nat_add)
  qed
qed

lemma encode_unchecked_eq:
  assumes "encoding_len num \<le> length buf"
  shows "encode_unchecked buf num =
    Some (vbytes (unat num) @ drop (encoding_len num) buf, encoding_len num)"
  using encode_unchecked_loop_eq [of 0 num buf] assms
  by (simp add: encode_unchecked_def length_vbytes_u64)

lemma encode_vec_eq: "encode_vec num = Some (vbytes (unat num))"
  by (simp add: encode_vec_def encode_unchecked_eq)

lemma write_async_eq [simp]:
  "write_async dest num = Some (dest @ vbytes (unat num), encoding_len num)"
  by (simp add: write_async_def encode_vec_eq length_vbytes_u64)

section \<open>The decoder\<close>

lemma last_byte_iff: "is_last_encoded_byte b \<longleftrightarrow> 128 \<le> unat b"
  by (simp add: is_last_encoded_byte_def word_le_nat_alt)

lemma last_byte_split: "is_last_encoded_byte b \<Longrightarrow> unat b = 128 + unat b mod 128"
proof -
  assume "is_last_encoded_byte b"
  then have "128 \<le> unat b" "unat b - 128 < 128"
    using unsigned_less [of b, where 'a = nat] by (simp_all add: last_byte_iff)
  then show ?thesis by (metis le_add_diff_inverse mod_add_self1 mod_less)
qed

text \<open>What the loop has computed after \<open>i\<close> bytes, \<open>shift\<close> being \<open>7 * i\<close>.\<close>

lemma digit_bounds:
  fixes n r :: nat
  assumes "n < 2 ^ (7 * i)" and "r < 128"
  shows "n + 2 ^ (7 * i) * r < 2 ^ (7 * (i + 1))"
proof -
  have "n + 2 ^ (7 * i) * r < 2 ^ (7 * i) * (r + 1)" using assms(1) by simp
  also have "\<dots> \<le> 2 ^ (7 * i) * 128" using assms(2) by (intro mult_le_mono2) simp
  finally show ?thesis by (simp add: power_add)
qed

lemma pow63_bound:
  fixes i :: nat
  shows "i < 9 \<Longrightarrow> (2::nat) ^ (7 * (i + 1)) \<le> 2 ^ 63"
  by (intro power_increasing) simp_all

lemma decode_step:
  fixes num :: u64 and b :: u8
  assumes "i \<le> 9" and "unat num < 2 ^ (7 * i)" and "unat num + 2 ^ (7 * i) * unat b < 2 ^ 64"
  shows "unat (num OR shl (ucast b) (7 * i)) = unat num + 2 ^ (7 * i) * unat b"
  using assms unat_or_push [of num "7 * i" "ucast b"] by (simp add: shl_def)

lemma decode_last:
  assumes "i \<le> 9" and num: "unat num < 2 ^ (7 * i)" and last: "is_last_encoded_byte b"
  shows "decode_loop num (7 * i) i (b # bs) =
    (if 2 ^ 64 \<le> unat num + 2 ^ (7 * i) * (unat b mod 128) then Inl EncodedValueTooLarge
     else Inr (of_nat (unat num + 2 ^ (7 * i) * (unat b mod 128)), i + 1))"
proof -
  let ?v = "unat num + 2 ^ (7 * i) * (unat b mod 128)"
  have large: "max_byte_too_large (7 * i) b \<longleftrightarrow> 2 ^ 64 \<le> ?v"
  proof (cases "i = 9")
    case True
    have "b > 0x81 \<longleftrightarrow> 2 \<le> unat b mod 128"
      using last_byte_split [OF last] by (auto simp: word_less_nat_alt)
    with True num show ?thesis by (auto simp: max_byte_too_large_def)
  next
    case False
    with assms(1) have i: "i < 9" by simp
    have "?v < 2 ^ (7 * (i + 1))" using num by (rule digit_bounds) simp
    with pow63_bound [OF i] have "?v < 2 ^ 64" by simp
    with False show ?thesis by (simp add: max_byte_too_large_def)
  qed
  have "unat (num OR shl (ucast (clear_msb b)) (7 * i)) = ?v" if "?v < 2 ^ 64"
    using that decode_step [OF assms(1,2), of "clear_msb b"] by (simp add: unat_clear_msb)
  then have "num OR shl (ucast (clear_msb b)) (7 * i) = of_nat ?v" if "?v < 2 ^ 64"
    using that by (intro word_of_nat_eqI) simp
  with large last show ?thesis by (simp add: not_le)
qed

lemma decode_loop_spec:
  assumes "i \<le> 9" and "unat num < 2 ^ (7 * i)"
  shows "decode_loop num (7 * i) i bs =
    (case position is_last_encoded_byte bs of
       None \<Rightarrow> Inl (if 10 \<le> i + length bs then UnexpectedEncodingLen else UnexpectedEndOfBuffer)
     | Some k \<Rightarrow>
         (let v = unat num + 2 ^ (7 * i) * vbytes_value (take (k + 1) bs) in
          if 10 \<le> i + k then Inl UnexpectedEncodingLen
          else if 2 ^ 64 \<le> v then Inl EncodedValueTooLarge
          else Inr (of_nat v, i + k + 1)))"
  using assms
proof (induction bs arbitrary: i num)
  case Nil
  then show ?case by simp
next
  case (Cons b bs)
  show ?case
  proof (cases "is_last_encoded_byte b")
    case True
    with Cons.prems show ?thesis by (simp add: decode_last Let_def del: decode_loop.simps)
  next
    case False
    then have b: "unat b < 128" by (simp add: last_byte_iff)
    show ?thesis
    proof (cases "i = 9")
      case True
      with False show ?thesis by (simp split: option.split)
    next
      case i9: False
      with Cons.prems(1) have i: "i < 9" by simp
      let ?num = "num OR shl (ucast b) (7 * i)"
      have d: "unat num + 2 ^ (7 * i) * unat b < 2 ^ (7 * (i + 1))"
        using Cons.prems(2) b by (rule digit_bounds)
      with pow63_bound [OF i] have "unat num + 2 ^ (7 * i) * unat b < 2 ^ 64" by simp
      with Cons.prems have num: "unat ?num = unat num + 2 ^ (7 * i) * unat b"
        by (intro decode_step) simp_all
      have "decode_loop num (7 * i) i (b # bs) = decode_loop ?num (7 * (i + 1)) (i + 1) bs"
        using False i by (simp add: add.commute)
      also note Cons.IH [of "i + 1" ?num]
      finally show ?thesis
        using False b i d num
        by (simp add: Let_def power_add algebra_simps split: option.split)
    qed
  qed
qed

lemma decode_eq:
  "decode buf =
    (case position is_last_encoded_byte buf of
       None \<Rightarrow> Inl (if 10 \<le> length buf then UnexpectedEncodingLen else UnexpectedEndOfBuffer)
     | Some k \<Rightarrow>
         (let v = vbytes_value (take (k + 1) buf) in
          if 10 \<le> k then Inl UnexpectedEncodingLen
          else if 2 ^ 64 \<le> v then Inl EncodedValueTooLarge
          else Inr (of_nat v, k + 1)))"
  using decode_loop_spec [of 0 0 buf]
  by (cases "position is_last_encoded_byte buf") (simp_all add: decode_def Let_def)

lemma vbytes_split:
  "\<exists>pre b. vbytes n = pre @ [b] \<and> (\<forall>x\<in>set pre. \<not> is_last_encoded_byte x) \<and> is_last_encoded_byte b"
proof (induction n rule: vbytes.induct)
  case (1 n)
  show ?case
  proof (cases "n < 128")
    case True
    then show ?thesis
      by (intro exI [of _ "[]"]) (simp add: vbytes_small last_byte_iff unsigned_of_nat
          take_bit_eq_mod del: of_nat_add)
  next
    case False
    with 1 obtain pre b where ih: "vbytes (n div 128) = pre @ [b]"
      "\<forall>x\<in>set pre. \<not> is_last_encoded_byte x" "is_last_encoded_byte b" by blast
    have "n mod 128 mod 256 = n mod 128"
      by (rule mod_less) (use mod_less_divisor [of 128 n] in linarith)
    with False ih show ?thesis
      by (intro exI [of _ "of_nat (n mod 128) # pre"] exI [of _ b])
        (auto simp: vbytes_large last_byte_iff unsigned_of_nat take_bit_eq_mod not_le)
  qed
qed

lemma vbytes_value_vbytes: "vbytes_value (vbytes n) = n"
proof (induction n rule: vbytes.induct)
  case (1 n)
  show ?case
  proof (cases "n < 128")
    case True
    then show ?thesis
      by (simp add: vbytes_small unsigned_of_nat take_bit_eq_mod del: of_nat_add)
  next
    case False
    have "n mod 128 mod 256 = n mod 128"
      by (rule mod_less) (use mod_less_divisor [of 128 n] in linarith)
    with 1 False show ?thesis
      by (simp add: vbytes_large unsigned_of_nat take_bit_eq_mod)
  qed
qed

lemma decode_vbytes:
  "decode (vbytes (unat (num :: u64)) @ rest) = Inr (num, encoding_len num)"
proof -
  obtain pre b where vb: "vbytes (unat num) = pre @ [b]"
    "\<forall>x\<in>set pre. \<not> is_last_encoded_byte x" "is_last_encoded_byte b"
    using vbytes_split by blast
  have len: "length pre + 1 = encoding_len num"
    using length_vbytes_u64 [of num] vb(1) by simp
  then have lt: "length pre < 10"
    using encoding_len_max [of num] by (simp add: MAX_ENCODING_LEN_def)
  have "vbytes_value (pre @ [b]) = unat num"
    using vbytes_value_vbytes [of "unat num"] vb(1) by simp
  then have "decode (pre @ b # rest) = Inr (num, length pre + 1)"
    using vb(2,3) lt unsigned_less [of num, where 'a = nat]
    by (simp add: decode_eq position_append_found not_le)
  with vb(1) len show ?thesis by simp
qed

section \<open>Properties\<close>

text \<open>
  C26. Encoding is total and exact: \<open>encode_vec\<close> never stores outside its buffer,
  the vector it returns has the length \<open>encoding_len\<close>, between 1 and
  \<open>MAX_ENCODING_LEN\<close>, and \<open>decode\<close> reads the number and that length back from it
  whatever bytes follow.
\<close>

theorem encode_vec_decode:
  "\<exists>vec. encode_vec num = Some vec \<and> length vec = encoding_len num \<and>
    1 \<le> encoding_len num \<and> encoding_len num \<le> MAX_ENCODING_LEN \<and>
    decode (vec @ rest) = Inr (num, length vec)"
  using encoding_len_pos [of num] encoding_len_max [of num]
  by (simp add: encode_vec_eq decode_vbytes length_vbytes_u64 Suc_le_eq)

text \<open>
  C27. \<open>encode_slice\<close> never stores outside the slice: it returns \<open>None\<close> and leaves
  the slice alone exactly when the encoding does not fit, and otherwise it
  overwrites the first \<open>encoding_len\<close> bytes with the encoding, keeps the others,
  and returns the length.
\<close>

theorem encode_slice_safe:
  "encode_slice buf num =
    (if length buf < encoding_len num then Some (buf, None)
     else Some (the (encode_vec num) @ drop (encoding_len num) buf, Some (encoding_len num)))"
  by (simp add: encode_slice_def encode_unchecked_eq encode_vec_eq)

text \<open>
  C28. What \<open>decode\<close> accepts and refuses, on every branch: with the first byte whose
  top bit is set at index \<open>k\<close>, the result is the number the bytes stand for, with
  no bit of it lost, and the length \<open>k + 1\<close>; the value is refused when it does not
  fit 64 bits, an encoding of more than ten bytes is refused, and so is a buffer
  that ends first.
\<close>

theorem decode_spec:
  "decode buf =
    (case position is_last_encoded_byte buf of
       None \<Rightarrow> Inl (if MAX_ENCODING_LEN \<le> length buf then UnexpectedEncodingLen
                   else UnexpectedEndOfBuffer)
     | Some k \<Rightarrow>
         (if MAX_ENCODING_LEN \<le> k then Inl UnexpectedEncodingLen
          else if 2 ^ 64 \<le> vbytes_value (take (k + 1) buf) then Inl EncodedValueTooLarge
          else Inr (of_nat (vbytes_value (take (k + 1) buf)), k + 1)))"
  by (cases "position is_last_encoded_byte buf")
    (simp_all add: decode_eq MAX_ENCODING_LEN_def Let_def)

end
