(* ===== verification/Util.thy ===== *)
theory Util
  imports Prelude Complex_Main "HOL-Library.Multiset"
begin

text \<open>
  The shared helpers of \<open>src/structure/util.rs\<close>: the common prefix of two strings,
  the writers that the file builders use, the merge of sorted iterators and
  streams, and the bit width of a size.

  A writer is the byte sequence written so far: the in-memory writer of
  \<open>src/storage/memory.rs\<close> appends and does not fail.
\<close>

section \<open>Model\<close>

text \<open>The loop of \<open>find_common_prefix\<close>, from the value \<open>common\<close> of its counter.\<close>

function common_prefix_from :: "bytes \<Rightarrow> bytes \<Rightarrow> usize \<Rightarrow> usize" where
  "common_prefix_from b1 b2 common =
    (if common < length b1 \<and> common < length b2 then
       (if b1 ! common = b2 ! common then common_prefix_from b1 b2 (common + 1) else common)
     else common)"
  by pat_completeness auto
termination
  by (relation "measure (\<lambda>(b1, b2, common). length b1 - common)") auto

declare common_prefix_from.simps [simp del]

definition find_common_prefix :: "bytes \<Rightarrow> bytes \<Rightarrow> usize" where
  "find_common_prefix b1 b2 = common_prefix_from b1 b2 0"

definition write_nul_terminated_bytes :: "bytes \<Rightarrow> bytes \<Rightarrow> bytes \<times> usize" where
  "write_nul_terminated_bytes w bs = (w @ bs @ [0], length bs + 1)"

definition write_padding :: "bytes \<Rightarrow> usize \<Rightarrow> u8 \<Rightarrow> bytes panics" where
  "write_padding w current_pos width =
    (if unat width = 0 then None
     else Some (w @ replicate ((unat width - current_pos mod unat width) mod unat width) 0))"

definition write_u64 :: "bytes \<Rightarrow> u64 \<Rightarrow> bytes" where
  "write_u64 w num = w @ to_be_bytes num"

text \<open>
  \<open>SortedIterator\<close> holds the peekable iterators, each as the items it has left.
  \<open>next\<close> peeks at all of them, lets \<open>pick_fn\<close> choose one and advances that one;
  an index out of range panics.
\<close>

definition peek :: "'a list \<Rightarrow> 'a option" where
  "peek xs = (case xs of [] \<Rightarrow> None | x # _ \<Rightarrow> Some x)"

definition SortedIterator_next ::
  "('a option list \<Rightarrow> usize option panics) \<Rightarrow> 'a list list \<Rightarrow> ('a option \<times> 'a list list) panics" where
  "SortedIterator_next pick_fn iters =
    do { p \<leftarrow> pick_fn (map peek iters);
         case p of
           None \<Rightarrow> Some (None, iters)
         | Some ix \<Rightarrow>
             do { it \<leftarrow> index_at iters ix; Some (peek it, iters[ix := tl it]) } }"

text \<open>
  \<open>SortedStream\<close> is the same over streams, each with whether it is ready: as long as
  one of them is not, the poll is pending and consumes nothing.
\<close>

datatype 'a poll = Ready 'a | Pending

definition SortedStream_poll_next ::
  "('a option list \<Rightarrow> usize option panics) \<Rightarrow> (bool \<times> 'a list) list \<Rightarrow>
   ('a option poll \<times> (bool \<times> 'a list) list) panics" where
  "SortedStream_poll_next pick_fn streams =
    (if \<not> list_all fst streams then Some (Pending, streams)
     else do { p \<leftarrow> pick_fn (map (peek \<circ> snd) streams);
               case p of
                 None \<Rightarrow> Some (Ready None, streams)
               | Some ix \<Rightarrow>
                   do { (r, st) \<leftarrow> index_at streams ix;
                        Some (Ready (peek st), streams[ix := (r, tl st)]) } })"

lemma peek_None_iff [simp]: "peek xs = None \<longleftrightarrow> xs = []"
  by (simp add: peek_def split: list.split)

lemma peek_Cons [simp]: "peek (x # xs) = Some x"
  by (simp add: peek_def)

lemma sum_list_length_update:
  assumes "i < length xss" and "xss ! i = x # xs"
  shows "Suc (sum_list (map length (xss[i := xs]))) = sum_list (map length xss)"
  using assms
proof (induction xss arbitrary: i)
  case (Cons ys xss)
  then show ?case by (cases i) auto
qed simp

lemma SortedIterator_next_SomeD:
  assumes "SortedIterator_next pick_fn iters = Some (Some x, iters')"
  obtains ix xs where "pick_fn (map peek iters) = Some (Some ix)" "ix < length iters"
    "iters ! ix = x # xs" "iters' = iters[ix := xs]"
  using assms by (auto simp: SortedIterator_next_def index_at_def peek_def
      split: option.splits if_splits list.splits bind_splits)

text \<open>Draining the iterator: \<open>next\<close> until it returns \<open>None\<close>. The items left over all
  iterators fall with every item returned.\<close>

function SortedIterator_collect ::
  "('a option list \<Rightarrow> usize option panics) \<Rightarrow> 'a list list \<Rightarrow> 'a list panics" where
  "SortedIterator_collect pick_fn iters =
    (case SortedIterator_next pick_fn iters of
       None \<Rightarrow> None
     | Some (None, _) \<Rightarrow> Some []
     | Some (Some x, iters') \<Rightarrow> map_option ((#) x) (SortedIterator_collect pick_fn iters'))"
  by pat_completeness auto
termination
proof (relation "measure (\<lambda>(pick_fn, iters). sum_list (map length iters))", goal_cases)
  case (2 pick_fn iters st res iters' x)
  then obtain ix xs where "ix < length iters" "iters ! ix = x # xs" "iters' = iters[ix := xs]"
    by (metis SortedIterator_next_SomeD)
  then show ?case
    using sum_list_length_update [of ix iters x xs] by simp
qed simp

declare SortedIterator_collect.simps [simp del]

definition sorted_iterator ::
  "'a list list \<Rightarrow> ('a option list \<Rightarrow> usize option panics) \<Rightarrow> 'a list panics" where
  "sorted_iterator iters pick_fn = SortedIterator_collect pick_fn iters"

text \<open>
  The choice function all callers pass: \<open>enumerate().filter(is_some).min_by(cmp)\<close>.
  The comparison may panic, and the choice then panics too.
  \<open>Iterator::min_by\<close> keeps the first of several minima.
\<close>

fun min_by_from :: "('a \<Rightarrow> 'a \<Rightarrow> Ordering panics) \<Rightarrow> 'a \<Rightarrow> 'a list \<Rightarrow> 'a panics" where
  "min_by_from cmp a [] = Some a"
| "min_by_from cmp a (b # bs) =
    do { c \<leftarrow> cmp a b; min_by_from cmp (if c = Greater then b else a) bs }"

definition min_by :: "('a \<Rightarrow> 'a \<Rightarrow> Ordering panics) \<Rightarrow> 'a list \<Rightarrow> 'a option panics" where
  "min_by cmp xs = (case xs of [] \<Rightarrow> Some None | x # xs \<Rightarrow> map_option Some (min_by_from cmp x xs))"

definition pick_min :: "('a \<Rightarrow> 'a \<Rightarrow> Ordering panics) \<Rightarrow> 'a option list \<Rightarrow> usize option panics" where
  "pick_min cmp vals =
    map_option (map_option fst) (min_by (\<lambda>x y. cmp (the (snd x)) (the (snd y)))
      (filter (\<lambda>(_, v). v \<noteq> None) (zip [0..<length vals] vals)))"

text \<open>
  \<open>(size + 1) as f32\<close> rounds to the nearest value with a 24-bit significand, ties to
  even. The precision of \<open>f32::log2\<close> is left open by the standard library, so it is
  a parameter. The cast to \<open>u8\<close> saturates.
\<close>

definition u64_as_f32 :: "nat \<Rightarrow> nat" where
  "u64_as_f32 n =
    (if bit_len n \<le> 24 then n
     else let s = bit_len n - 24; q = n div 2 ^ s; r = n mod 2 ^ s; half = 2 ^ (s - 1)
          in (if half < r \<or> (r = half \<and> odd q) then q + 1 else q) * 2 ^ s)"

definition f32_as_u8 :: "rat \<Rightarrow> u8" where
  "f32_as_u8 x = (if x < 0 then 0 else if 255 \<le> x then 255 else of_int \<lfloor>x\<rfloor>)"

definition calculate_width :: "(nat \<Rightarrow> rat) \<Rightarrow> u64 \<Rightarrow> u8" where
  "calculate_width log2 sz = f32_as_u8 (of_int \<lceil>log2 (u64_as_f32 (unat (sz + 1)))\<rceil>)"

section \<open>Common prefixes and padding\<close>

lemma common_prefix_from_spec:
  assumes "c \<le> length b1" "c \<le> length b2" "take c b1 = take c b2"
  shows "c \<le> common_prefix_from b1 b2 c \<and>
    common_prefix_from b1 b2 c \<le> length b1 \<and> common_prefix_from b1 b2 c \<le> length b2 \<and>
    take (common_prefix_from b1 b2 c) b1 = take (common_prefix_from b1 b2 c) b2 \<and>
    (common_prefix_from b1 b2 c < length b1 \<longrightarrow> common_prefix_from b1 b2 c < length b2 \<longrightarrow>
      b1 ! common_prefix_from b1 b2 c \<noteq> b2 ! common_prefix_from b1 b2 c)"
  using assms
proof (induction b1 b2 c rule: common_prefix_from.induct)
  case (1 b1 b2 c)
  show ?case
  proof (cases "c < length b1 \<and> c < length b2 \<and> b1 ! c = b2 ! c")
    case True
    then have "take (c + 1) b1 = take (c + 1) b2"
      using "1.prems"(3) by (simp add: take_Suc_conv_app_nth)
    with 1 True show ?thesis
      by (auto simp: common_prefix_from.simps [of b1 b2 c])
  next
    case False
    with "1.prems" show ?thesis
      by (auto simp: common_prefix_from.simps [of b1 b2 c])
  qed
qed

lemma find_common_prefix_le:
  "find_common_prefix b1 b2 \<le> length b1" "find_common_prefix b1 b2 \<le> length b2"
  using common_prefix_from_spec [of 0 b1 b2] by (simp_all add: find_common_prefix_def)

lemma find_common_prefix_ge:
  assumes "take n b1 = take n b2" "n \<le> length b1" "n \<le> length b2"
  shows "n \<le> find_common_prefix b1 b2"
proof (rule ccontr)
  let ?c = "find_common_prefix b1 b2"
  have spec: "?c < length b1 \<longrightarrow> ?c < length b2 \<longrightarrow> b1 ! ?c \<noteq> b2 ! ?c"
    using common_prefix_from_spec [of 0 b1 b2] by (simp add: find_common_prefix_def)
  assume "\<not> n \<le> ?c"
  then have "?c < n" by simp
  with assms have "b1 ! ?c = b2 ! ?c" by (metis nth_take)
  with spec assms \<open>?c < n\<close> show False by simp
qed

lemma take_find_common_prefix:
  "take (find_common_prefix b1 b2) b1 = take (find_common_prefix b1 b2) b2"
  using common_prefix_from_spec [of 0 b1 b2] by (simp add: find_common_prefix_def)

lemma write_padding_aligned:
  assumes "0 < unat width"
  shows "\<exists>pad. write_padding w (length w) width = Some (w @ replicate pad 0) \<and>
    pad < unat width \<and> unat width dvd length w + pad"
proof -
  let ?n = "unat width"
  define r where "r = length w mod ?n"
  have r: "r < ?n" using assms by (simp add: r_def)
  have lw: "length w = ?n * (length w div ?n) + r" by (simp add: r_def)
  have "?n dvd length w + (?n - r) mod ?n"
  proof (cases "r = 0")
    case True
    then show ?thesis using lw by (metis add.right_neutral diff_zero dvd_triv_left mod_self)
  next
    case False
    then have "(?n - r) mod ?n = ?n - r" using r by simp
    then have "length w + (?n - r) mod ?n = ?n * (length w div ?n + 1)"
      using lw r by simp
    then show ?thesis by (metis dvd_triv_left)
  qed
  with assms r show ?thesis by (simp add: write_padding_def r_def)
qed

section \<open>Merging sorted iterators\<close>

text \<open>
  A comparison function that orders the elements of a set by a key and does not panic
  on them.
\<close>

definition compares_by ::
  "'a set \<Rightarrow> ('a \<Rightarrow> 'k::linorder) \<Rightarrow> ('a \<Rightarrow> 'a \<Rightarrow> Ordering panics) \<Rightarrow> bool" where
  "compares_by A key cmp \<longleftrightarrow>
    (\<forall>x\<in>A. \<forall>y\<in>A. \<exists>c. cmp x y = Some c \<and> (c = Greater \<longleftrightarrow> key y < key x))"

lemma min_by_from_least:
  assumes "compares_by A key cmp" and "set (x # xs) \<subseteq> A"
  shows "\<exists>m. min_by_from cmp x xs = Some m \<and> m \<in> set (x # xs) \<and>
    (\<forall>y\<in>set (x # xs). key m \<le> key y)"
  using assms(2)
proof (induction xs arbitrary: x)
  case Nil
  then show ?case by simp
next
  case (Cons y ys)
  then have "x \<in> A" "y \<in> A" by simp_all
  with assms(1) obtain c where c: "cmp x y = Some c" "c = Greater \<longleftrightarrow> key y < key x"
    unfolding compares_by_def by blast
  let ?z = "if c = Greater then y else x"
  from Cons.prems have "set (?z # ys) \<subseteq> A" by auto
  from Cons.IH [OF this] obtain m where
    "min_by_from cmp ?z ys = Some m" "m \<in> set (?z # ys)" "\<forall>w\<in>set (?z # ys). key m \<le> key w" by blast
  with c show ?case
    by (auto simp: not_less split: if_splits intro: order_trans less_imp_le)
qed

text \<open>The choice: nothing when all are exhausted, otherwise the index of a least head.\<close>

lemma pick_min_cases:
  assumes cmp: "compares_by A key cmp" and A: "\<And>v. Some v \<in> set vals \<Longrightarrow> v \<in> A"
  obtains (none) "pick_min cmp vals = Some None" "\<forall>v\<in>set vals. v = None"
  | (some) ix v where "pick_min cmp vals = Some (Some ix)" "ix < length vals" "vals ! ix = Some v"
    "\<forall>w. Some w \<in> set vals \<longrightarrow> key v \<le> key w"
proof -
  define l where "l = filter (\<lambda>(_, v). v \<noteq> None) (zip [0..<length vals] vals)"
  let ?cmp = "\<lambda>x y. cmp (the (snd x)) (the (snd y))" and ?key = "\<lambda>x. key (the (snd x))"
  have pick: "pick_min cmp vals = map_option (map_option fst) (min_by ?cmp l)"
    by (simp add: pick_min_def l_def)
  have mem: "(j, v) \<in> set l \<longleftrightarrow> j < length vals \<and> vals ! j = v \<and> v \<noteq> None" for j v
    by (auto simp: l_def in_set_zip intro!: exI [of _ j])
  have el: "\<exists>v. snd x = Some v \<and> Some v \<in> set vals" if "x \<in> set l" for x
    using that mem [of "fst x" "snd x"] nth_mem [of "fst x" vals] by auto
  have cb: "compares_by (set l) ?key ?cmp"
    unfolding compares_by_def
  proof (intro ballI)
    fix x y assume "x \<in> set l" "y \<in> set l"
    from el [OF this(1)] el [OF this(2)] obtain v w where
      "snd x = Some v" "snd y = Some w" "Some v \<in> set vals" "Some w \<in> set vals" by blast
    then show "\<exists>c. ?cmp x y = Some c \<and> (c = Greater \<longleftrightarrow> ?key y < ?key x)"
      using cmp A by (simp add: compares_by_def)
  qed
  show ?thesis
  proof (cases l)
    case Nil
    then have "\<not> (j < length vals \<and> vals ! j \<noteq> None)" for j using mem [of j "vals ! j"] by simp
    then have "\<forall>v\<in>set vals. v = None" by (metis in_set_conv_nth)
    then show ?thesis using Nil by (intro none) (simp_all add: pick min_by_def)
  next
    case (Cons x xs)
    from min_by_from_least [OF cb, of x xs] Cons obtain m where
      m: "min_by_from ?cmp x xs = Some m" "m \<in> set l" "\<forall>y\<in>set l. ?key m \<le> ?key y" by auto
    obtain ix v where ix: "m = (ix, Some v)" "ix < length vals" "vals ! ix = Some v"
      using m(2) mem [of "fst m" "snd m"] by (metis option.exhaust prod.collapse)
    have "key v \<le> key w" if "Some w \<in> set vals" for w
    proof -
      from that obtain j where "j < length vals" "vals ! j = Some w" by (metis in_set_conv_nth)
      then have "(j, Some w) \<in> set l" by (simp add: mem)
      with m(3) ix(1) show ?thesis by force
    qed
    with ix m(1) Cons show ?thesis
      by (intro some [of ix v]) (simp_all add: pick min_by_def)
  qed
qed

lemma mset_concat_update:
  assumes "i < length xss" and "xss ! i = x # xs"
  shows "mset (concat xss) = add_mset x (mset (concat (xss[i := xs])))"
  using assms
proof (induction xss arbitrary: i)
  case (Cons ys xss)
  then show ?case by (cases i) auto
qed simp

lemma SortedIterator_collect_merges:
  assumes "compares_by A key cmp" and "\<forall>xs\<in>set iters. set xs \<subseteq> A \<and> sorted (map key xs)"
  shows "\<exists>out. SortedIterator_collect (pick_min cmp) iters = Some out \<and>
    sorted (map key out) \<and> mset out = mset (concat iters)"
  using assms(2)
proof (induction "sum_list (map length iters)" arbitrary: iters rule: less_induct)
  case less
  have A: "v \<in> A" if "Some v \<in> set (map peek iters)" for v
    using that less.prems by (fastforce simp: peek_def split: list.splits)
  show ?case
  proof (cases rule: pick_min_cases [OF assms(1), of "map peek iters", case_names inA none some])
    case (inA v)
    then show ?case using A by blast
  next
    case none
    then have "concat iters = []" by simp
    with none(1) show ?thesis
      by (subst SortedIterator_collect.simps) (simp add: SortedIterator_next_def)
  next
    case (some ix v)
    then obtain xs where xs: "ix < length iters" "iters ! ix = v # xs"
      by (auto simp: peek_def split: list.splits)
    let ?iters = "iters[ix := xs]"
    have srt: "set (v # xs) \<subseteq> A" "sorted (map key (v # xs))" using less.prems xs nth_mem by metis+
    have "\<forall>ys\<in>set ?iters. set ys \<subseteq> A \<and> sorted (map key ys)"
      using less.prems srt by (auto dest!: set_update_subset_insert [THEN subsetD])
    with less.hyps [of ?iters] sum_list_length_update [OF xs] obtain out where
      out: "SortedIterator_collect (pick_min cmp) ?iters = Some out"
        "sorted (map key out)" "mset out = mset (concat ?iters)" by auto
    have step: "SortedIterator_next (pick_min cmp) iters = Some (Some v, ?iters)"
      using some(1) xs by (simp add: SortedIterator_next_def peek_def)
    have "key v \<le> key y" if "y \<in> set out" for y
    proof -
      from that have "y \<in> set (concat ?iters)" using out(3) by (metis set_mset_mset)
      then obtain ys where ys: "ys \<in> set iters" "y \<in> set ys"
        using xs by (auto dest!: set_update_subset_insert [THEN subsetD] intro: nth_mem)
          (metis list.set_intros(2) nth_mem)
      from ys(2) obtain z zs where z: "ys = z # zs" by (metis list.set_cases)
      have "Some z \<in> set (map peek iters)"
        using ys(1) z by force
      then have "key v \<le> key z" using some(4) by blast
      moreover have "key z \<le> key y" using less.prems ys z by auto
      ultimately show ?thesis by simp
    qed
    with out step show ?thesis
      by (subst SortedIterator_collect.simps) (simp add: mset_concat_update [OF xs])
  qed
qed

section \<open>Widths\<close>

text \<open>
  What the code relies on of \<open>f32::log2\<close>: up to \<open>2 ^ 21\<close> the result is on the right side of
  every whole number. The next argument after \<open>2 ^ 21\<close> has a logarithm closer to 21 than
  half the distance to the next \<open>f32\<close> value.
\<close>

definition log2_ok :: "(nat \<Rightarrow> rat) \<Rightarrow> bool" where
  "log2_ok log2 \<longleftrightarrow> (\<forall>n k. 0 < n \<longrightarrow> n \<le> 2 ^ 21 \<longrightarrow> (log2 n \<le> of_nat k \<longleftrightarrow> n \<le> 2 ^ k))"

lemma calculate_width_le_iff:
  assumes ok: "log2_ok log2" and sz: "unat sz < 2 ^ 21"
  shows "unat (calculate_width log2 sz) \<le> k \<longleftrightarrow> unat sz < 2 ^ k"
proof -
  let ?n = "unat sz + 1" and ?c = "\<lceil>log2 (unat sz + 1)\<rceil>"
  have n: "unat (sz + 1) = ?n" using sz by (simp add: unat_word_ariths)
  have "bit_len ?n \<le> 24" using sz by (simp add: bit_len_le_iff)
  then have f: "u64_as_f32 ?n = ?n" by (simp add: u64_as_f32_def)
  have iff: "log2 ?n \<le> of_nat k \<longleftrightarrow> ?n \<le> 2 ^ k" for k using ok sz by (simp add: log2_ok_def)
  have ceil: "?c \<le> int k \<longleftrightarrow> unat sz < 2 ^ k" for k
    using iff [of k] by (simp add: ceiling_le_iff Suc_le_eq)
  define c where "c = ?c"
  have c: "c \<le> 21" using ceil [of 21] sz by (simp add: c_def)
  then have "nat c < 256" by linarith
  then have "unat (of_nat (nat c) :: u8) = nat c" by (simp only: unat_of_nat) simp
  then have "unat (calculate_width log2 sz) = nat c"
    using c unfolding calculate_width_def n f f32_as_u8_def c_def [symmetric] by (cases "c < 0") simp_all
  then show ?thesis using ceil [of k] by (simp only: c_def nat_le_iff of_nat_0_le_iff)
qed

lemma calculate_width_fits:
  assumes "log2_ok log2" "unat sz < 2 ^ 21"
  shows "v \<le> sz \<Longrightarrow> unat v < 2 ^ unat (calculate_width log2 sz)" "unat (calculate_width log2 sz) \<le> 21"
    "sz \<noteq> 0 \<Longrightarrow> 0 < unat (calculate_width log2 sz)"
proof -
  note W = calculate_width_le_iff [OF assms]
  show "unat v < 2 ^ unat (calculate_width log2 sz)" if "v \<le> sz"
    using W [of "unat (calculate_width log2 sz)"] that by (simp add: word_le_nat_alt)
  show "unat (calculate_width log2 sz) \<le> 21" using W assms(2) by simp
  show "0 < unat (calculate_width log2 sz)" if "sz \<noteq> 0"
    using W [of 0] that by (metis gr0I le_zero_eq less_one power_0 unat_eq_zero)
qed

definition log2_std :: "nat \<Rightarrow> rat" where
  "log2_std n = of_nat (bit_len (n - 1))"

lemma log2_std_ok: "log2_ok log2_std"
  by (auto simp: log2_ok_def log2_std_def bit_len_le_iff)

section \<open>Properties\<close>

text \<open>
  \<open>find_common_prefix\<close> returns the length of the longest common prefix: the two
  strings agree up to it, and no longer prefix is common to both.
\<close>

theorem find_common_prefix_longest:
  "take n b1 = take n b2 \<and> n \<le> length b1 \<and> n \<le> length b2 \<longleftrightarrow> n \<le> find_common_prefix b1 b2"
proof -
  let ?c = "find_common_prefix b1 b2"
  have "n \<le> ?c" if "take n b1 = take n b2" "n \<le> length b1" "n \<le> length b2"
    using that by (rule find_common_prefix_ge)
  moreover have "take n b1 = take n b2" if "n \<le> ?c"
    using that take_find_common_prefix [of b1 b2] by (metis min.absorb1 take_take)
  ultimately show ?thesis
    using find_common_prefix_le [of b1 b2] by (meson order_trans)
qed

text \<open>
  C32. Draining \<open>sorted_iterator\<close> over sorted iterators, with the choice of the least
  item the callers pass, never panics and yields all the items of all the
  iterators in sorted order.
\<close>

theorem sorted_iterator_merges:
  assumes "compares_by A key cmp" and "\<forall>xs\<in>set iters. set xs \<subseteq> A \<and> sorted (map key xs)"
  shows "\<exists>out. sorted_iterator iters (pick_min cmp) = Some out \<and>
    sorted (map key out) \<and> mset out = mset (concat iters)"
  using SortedIterator_collect_merges [OF assms] by (simp add: sorted_iterator_def)

definition nat_cmp :: "nat \<Rightarrow> nat \<Rightarrow> Ordering panics" where
  "nat_cmp x y = Some (if x < y then Less else if x = y then Equal else Greater)"

theorem sorted_iterator_merges_witness:
  "\<exists>out. sorted_iterator [[1, 3, 5], [7, 9], [0, 1]] (pick_min nat_cmp) = Some out \<and>
    sorted (map (\<lambda>n. n) out) \<and> mset out = mset (concat [[1, 3, 5], [7, 9], [0, 1]])"
  by (rule sorted_iterator_merges [where A = UNIV]) (auto simp: compares_by_def nat_cmp_def)

text \<open>
  C33. The width of a size below \<open>2 ^ 21\<close> is the least number of bits that hold every id up
  to that size, whenever \<open>f32::log2\<close> is on the right side of the whole numbers there.
\<close>

theorem calculate_width_least:
  assumes "log2_ok log2" "unat sz < 2 ^ 21"
  shows "unat (calculate_width log2 sz) \<le> k \<longleftrightarrow> (\<forall>v. v \<le> sz \<longrightarrow> unat v < 2 ^ k)"
  using calculate_width_le_iff [OF assms] by (metis (full_types) order_le_less_trans order_refl word_le_nat_alt)

theorem calculate_width_least_witness:
  "unat (calculate_width log2_std 5) \<le> 3 \<longleftrightarrow> (\<forall>v. v \<le> (5 :: u64) \<longrightarrow> unat v < 2 ^ 3)"
  by (rule calculate_width_least [OF log2_std_ok]) simp

text \<open>
  Above that the cast to \<open>f32\<close> loses the last bits: \<open>2 ^ 24\<close> gets the width of \<open>2 ^ 24 - 1\<close>,
  whatever \<open>log2\<close> does.
\<close>

theorem calculate_width_rounding: "calculate_width log2 (2 ^ 24) = calculate_width log2 (2 ^ 24 - 1)"
  by (simp add: calculate_width_def u64_as_f32_def bit_len.simps)

end
