(* ===== verification/BitIter.thy ===== *)
theory BitIter
  imports Prelude
begin

text \<open>
  The bit iterator of \<open>src/structure/bititer.rs\<close>: the bits of a \<open>u64\<close>, most
  significant first, selected by a mask that moves right until it is empty.
\<close>

record BitIter =
  bi_value :: u64
  bi_mask :: u64

definition BitIter_new :: "u64 \<Rightarrow> BitIter" where
  "BitIter_new value = \<lparr>bi_value = value, bi_mask = 0x8000000000000000\<rparr>"

definition BitIter_next :: "BitIter \<Rightarrow> bool option \<times> BitIter" where
  "BitIter_next it =
    (let mask = bi_mask it in
     if mask \<noteq> 0 then (Some (bi_value it AND mask \<noteq> 0), it\<lparr>bi_mask := shr mask 1\<rparr>)
     else (None, it))"

text \<open>All the items of the iterator; the mask gets smaller with each of them.\<close>

function BitIter_collect :: "BitIter \<Rightarrow> bool list" where
  "BitIter_collect it =
    (case BitIter_next it of
       (None, _) \<Rightarrow> []
     | (Some b, it') \<Rightarrow> b # BitIter_collect it')"
  by pat_completeness auto
termination
proof (relation "measure (\<lambda>it. unat (bi_mask it))")
  fix it it' res b
  assume "(res, it') = BitIter_next it" "res = Some b"
  then have "bi_mask it \<noteq> 0" "it' = it\<lparr>bi_mask := shr (bi_mask it) 1\<rparr>"
    by (auto simp: BitIter_next_def Let_def split: if_splits)
  then show "(it', it) \<in> measure (\<lambda>it. unat (bi_mask it))"
    by (simp add: shr_def drop_bit_eq_div unat_div unat_gt_0)
qed simp

declare BitIter_collect.simps [simp del]

text \<open>The mask always has exactly the bit of the next item set, or none at the end.\<close>

lemma BitIter_collect_from:
  assumes "k \<le> 64"
  shows "BitIter_collect \<lparr>bi_value = v, bi_mask = (if k = 0 then 0 else 2 ^ (k - 1))\<rparr> =
    val_bits k v"
  using assms
proof (induction k)
  case 0
  then show ?case by (simp add: BitIter_collect.simps BitIter_next_def val_bits_def)
next
  case (Suc k)
  have nz: "(2 ^ k :: u64) \<noteq> 0"
    using Suc.prems by (simp add: exp_eq_zero_iff)
  have "shr (2 ^ k :: u64) 1 = (if k = 0 then 0 else 2 ^ (k - 1))"
  proof (cases k)
    case 0
    then show ?thesis by (simp add: shr_def)
  next
    case (Suc j)
    have "drop_bit 1 (2 ^ Suc j :: u64) = 2 ^ j"
      using Suc \<open>Suc k \<le> 64\<close> by (intro bit_word_eqI) (auto simp: bit_simps)
    with Suc show ?thesis by (simp add: shr_def)
  qed
  moreover have "(v AND 2 ^ k \<noteq> 0) = bit v k"
    by (simp add: bit_iff_and_push_bit_not_eq_0 push_bit_eq_mult)
  ultimately show ?case
    using Suc nz by (subst BitIter_collect.simps) (simp add: BitIter_next_def val_bits_def)
qed

lemma BitIter_collect_new [simp]: "BitIter_collect (BitIter_new v) = word_bits v"
  using BitIter_collect_from [of 64 v] by (simp add: BitIter_new_def)

text \<open>
  Iterating over a \<open>u64\<close> yields its 64 bits from the most to the least
  significant and then ends.
\<close>

theorem BitIter_bits:
  "length (BitIter_collect (BitIter_new v)) = 64 \<and>
   (\<forall>i. i < 64 \<longrightarrow> BitIter_collect (BitIter_new v) ! i = bit v (63 - i))"
  by simp

theorem BitIter_bits_witness:
  "BitIter_collect (BitIter_new 0x8000000000000001) ! 63 = True"
  using BitIter_bits [of "0x8000000000000001"] by (simp add: bit_simps)

end
