(* ===== verification/BitArray.thy ===== *)
theory BitArray
  imports Util BitIter
begin

text \<open>
  Bit arrays (\<open>src/structure/bitarray.rs\<close>): \<open>N\<close> bits in 64-bit big-endian words
  followed by a control word that holds \<open>N\<close>. The view of a parsed array and its
  bounds-checked reads, the builder that packs bits into words, and the block
  decoder that streams the words back and holds the control word out.

  The bits of an array are \<open>ba_bits\<close>; the lemmas relate every operation to them.
\<close>

section \<open>Model\<close>

record BitArray =
  ba_len :: u64
  ba_buf :: bytes

datatype BitArrayError =
    InputBufferTooSmall usize
  | UnexpectedInputBufferSize u64 u64 u64

definition BitArrayError_validate_input_buf_size :: "usize \<Rightarrow> BitArrayError + unit" where
  "BitArrayError_validate_input_buf_size input_buf_size =
    (if input_buf_size < 8 then Inl (InputBufferTooSmall input_buf_size) else Inr ())"

definition expected_buf_size :: "u64 \<Rightarrow> u64" where
  "expected_buf_size len =
    (let after_shifting = shl (shr len 6) 3 in
     if len AND 63 = 0 then after_shifting + 8 else after_shifting + 16)"

definition BitArrayError_validate_len :: "usize \<Rightarrow> u64 \<Rightarrow> BitArrayError + unit" where
  "BitArrayError_validate_len input_buf_size len =
    (if of_nat input_buf_size \<noteq> expected_buf_size len
     then Inl (UnexpectedInputBufferSize (of_nat input_buf_size) (expected_buf_size len) len)
     else Inr ())"

definition BitArray_read_control_word ::
  "byteorder \<Rightarrow> bytes \<Rightarrow> usize \<Rightarrow> (BitArrayError + u64) panics" where
  "BitArray_read_control_word bo buf input_buf_size =
    do { len \<leftarrow> be_read_u64 bo buf;
         Some (case BitArrayError_validate_len input_buf_size len of
                 Inl e \<Rightarrow> Inl e | Inr _ \<Rightarrow> Inr len) }"

text \<open>\<open>buf.split_off(n - 8)\<close> leaves the data in \<open>buf\<close> and returns the control word.\<close>

definition BitArray_from_bits :: "byteorder \<Rightarrow> bytes \<Rightarrow> (BitArrayError + BitArray) panics" where
  "BitArray_from_bits bo buf =
    (let input_buf_size = length buf in
     case BitArrayError_validate_input_buf_size input_buf_size of
       Inl e \<Rightarrow> Some (Inl e)
     | Inr _ \<Rightarrow>
         do { r \<leftarrow> BitArray_read_control_word bo (drop (input_buf_size - 8) buf) input_buf_size;
              Some (case r of Inl e \<Rightarrow> Inl e
                    | Inr len \<Rightarrow>
                        Inr \<lparr>ba_len = len, ba_buf = take (input_buf_size - 8) buf\<rparr>) })"

definition BitArray_bits :: "BitArray \<Rightarrow> bytes" where
  "BitArray_bits a = ba_buf a"

definition BitArray_len :: "BitArray \<Rightarrow> usize" where
  "BitArray_len a = unat (ba_len a)"

definition BitArray_is_empty :: "BitArray \<Rightarrow> bool" where
  "BitArray_is_empty a \<longleftrightarrow> ba_len a = 0"

definition BitArray_get :: "BitArray \<Rightarrow> usize \<Rightarrow> bool panics" where
  "BitArray_get a index =
    do { rust_assert (index < BitArray_len a);
         byte \<leftarrow> index_at (ba_buf a) (index div 8);
         Some (byte AND shr 0x80 (index mod 8) \<noteq> 0) }"

text \<open>The iterator maps \<open>get\<close> over the range of indices; \<open>those\<close> is \<open>None\<close> when one
  of them panics.\<close>

definition BitArray_iter :: "BitArray \<Rightarrow> bool list panics" where
  "BitArray_iter a = those (map (BitArray_get a) [0..<BitArray_len a])"

record BitArrayFileBuilder =
  bab_dest :: bytes
  bab_current :: u64
  bab_count :: u64

definition BitArrayFileBuilder_new :: "bytes \<Rightarrow> BitArrayFileBuilder" where
  "BitArrayFileBuilder_new dest = \<lparr>bab_dest = dest, bab_current = 0, bab_count = 0\<rparr>"

definition BitArrayFileBuilder_push :: "BitArrayFileBuilder \<Rightarrow> bool \<Rightarrow> BitArrayFileBuilder" where
  "BitArrayFileBuilder_push self b =
    (let current = (if b
           then bab_current self OR shr 0x8000000000000000 (unat (bab_count self AND 0x3f))
           else bab_current self);
         count = bab_count self + 1
     in if count AND 0x3f = 0
        then \<lparr>bab_dest = write_u64 (bab_dest self) current, bab_current = 0, bab_count = count\<rparr>
        else \<lparr>bab_dest = bab_dest self, bab_current = current, bab_count = count\<rparr>)"

text \<open>\<open>push_all\<close> stops at the first error of the stream.\<close>

fun BitArrayFileBuilder_push_all ::
  "BitArrayFileBuilder \<Rightarrow> (io_error + bool) list \<Rightarrow> io_error + BitArrayFileBuilder" where
  "BitArrayFileBuilder_push_all self [] = Inr self"
| "BitArrayFileBuilder_push_all self (Inl e # stream) = Inl e"
| "BitArrayFileBuilder_push_all self (Inr b # stream) =
    BitArrayFileBuilder_push_all (BitArrayFileBuilder_push self b) stream"

definition BitArrayFileBuilder_finalize_data :: "BitArrayFileBuilder \<Rightarrow> bytes" where
  "BitArrayFileBuilder_finalize_data self =
    (if bab_count self AND 0x3f \<noteq> 0 then write_u64 (bab_dest self) (bab_current self)
     else bab_dest self)"

definition BitArrayFileBuilder_finalize :: "BitArrayFileBuilder \<Rightarrow> bytes" where
  "BitArrayFileBuilder_finalize self =
    write_u64 (BitArrayFileBuilder_finalize_data self) (bab_count self)"

text \<open>
  The block decoder: its state is the word read ahead, its buffer the bytes not
  consumed yet. The recursive call happens at most once.
\<close>

function BitArrayBlockDecoder_decode ::
  "byteorder \<Rightarrow> u64 option \<Rightarrow> bytes \<Rightarrow> (u64 option \<times> bytes \<times> u64 option) panics" where
  "BitArrayBlockDecoder_decode bo readahead bs =
    (if length bs < 8 then Some (readahead, bs, None)
     else case be_read_u64 bo (take 8 bs) of
       None \<Rightarrow> None
     | Some w \<Rightarrow>
         (case readahead of
            Some word \<Rightarrow> Some (Some w, drop 8 bs, Some word)
          | None \<Rightarrow> BitArrayBlockDecoder_decode bo (Some w) (drop 8 bs)))"
  by pat_completeness auto
termination
  by (relation "measure (\<lambda>(bo, readahead, bs). length bs)") auto

declare BitArrayBlockDecoder_decode.simps [simp del]

text \<open>Calling \<open>decode\<close> until it has nothing more to return; every call that returns a
  word consumes bytes.\<close>

function decode_blocks :: "byteorder \<Rightarrow> u64 option \<Rightarrow> bytes \<Rightarrow> u64 list panics" where
  "decode_blocks bo readahead bs =
    (case BitArrayBlockDecoder_decode bo readahead bs of
       None \<Rightarrow> None
     | Some (_, _, None) \<Rightarrow> Some []
     | Some (readahead', bs', Some word) \<Rightarrow>
         (if length bs' < length bs then map_option ((#) word) (decode_blocks bo readahead' bs')
          else None))"
  by pat_completeness auto
termination
  by (relation "measure (\<lambda>(bo, readahead, bs). length bs)") auto

declare decode_blocks.simps [simp del]

text \<open>
  \<open>FramedRead\<close> of \<open>tokio_util\<close> drives the decoder over a reader. It is a parameter,
  a function from the content of the file to the stream of its results.
\<close>

type_synonym framed_blocks = "bytes \<Rightarrow> (io_error + u64) list"

definition bitarray_stream_blocks :: "framed_blocks \<Rightarrow> bytes \<Rightarrow> (io_error + u64) list" where
  "bitarray_stream_blocks framed file = framed file"

definition BitArrayError_to_io :: "BitArrayError \<Rightarrow> io_error" where
  "BitArrayError_to_io e = InvalidData"

text \<open>A file is its content: \<open>size\<close> is its length, \<open>open_read_from(k)\<close> reads from \<open>k\<close>.\<close>

definition bitarray_len_from_file :: "byteorder \<Rightarrow> bytes \<Rightarrow> (io_error + u64) panics" where
  "bitarray_len_from_file bo f =
    (case BitArrayError_validate_input_buf_size (length f) of
       Inl e \<Rightarrow> Some (Inl (BitArrayError_to_io e))
     | Inr _ \<Rightarrow>
         do { r \<leftarrow> BitArray_read_control_word bo (take 8 (drop (length f - 8) f)) (length f);
              Some (case r of Inl e \<Rightarrow> Inl (BitArrayError_to_io e) | Inr len \<Rightarrow> Inr len) })"

definition bitarray_stream_bits ::
  "byteorder \<Rightarrow> framed_blocks \<Rightarrow> bytes \<Rightarrow> (io_error + (io_error + bool) list) panics" where
  "bitarray_stream_bits bo framed f =
    do { r \<leftarrow> bitarray_len_from_file bo f;
         Some (case r of Inl e \<Rightarrow> Inl e
               | Inr len \<Rightarrow>
                   Inr (take (unat len)
                     (concat (map (\<lambda>b. case b of Inl e \<Rightarrow> [Inl e]
                                          | Inr block \<Rightarrow> map Inr (BitIter_collect (BitIter_new block)))
                       (bitarray_stream_blocks framed f))))) }"

text \<open>
  What the crate documents of it: over a content of whole words it yields what
  calling the decoder until it is done yields, with no error.
\<close>

definition framed_blocks_ok :: "byteorder \<Rightarrow> framed_blocks \<Rightarrow> bool" where
  "framed_blocks_ok bo framed \<longleftrightarrow>
    (\<forall>f ws. 8 dvd length f \<longrightarrow> decode_blocks bo None f = Some ws \<longrightarrow> framed f = map Inr ws)"

section \<open>Parsing and reading\<close>

definition ba_wf :: "BitArray \<Rightarrow> bool" where
  "ba_wf a \<longleftrightarrow> length (ba_buf a) = 8 * ((unat (ba_len a) + 63) div 64)"

definition ba_bits :: "BitArray \<Rightarrow> bool list" where
  "ba_bits a = take (unat (ba_len a)) (buf_bits (ba_buf a))"

lemma ba_wf_le: "ba_wf a \<Longrightarrow> unat (ba_len a) \<le> 8 * length (ba_buf a)"
  by (simp add: ba_wf_def)

lemma length_ba_bits [simp]: "ba_wf a \<Longrightarrow> length (ba_bits a) = unat (ba_len a)"
  using ba_wf_le [of a] by (simp add: ba_bits_def)

lemma unat_expected_buf_size:
  "unat (expected_buf_size len) = 8 * ((unat len + 63) div 64) + 8"
proof -
  define n where "n = unat len"
  have n: "n < 2 ^ 64" using unsigned_less [of len, where 'a = nat] by (simp add: n_def)
  have "shl (shr len 6) 3 = of_nat (8 * (n div 64))"
    by (simp add: shl_def shr_def push_bit_eq_mult drop_bit_eq_div word_of_nat_eqI [of "len div 64"]
        unat_div n_def mult.commute)
  moreover have "unat (of_nat (8 * (n div 64)) :: u64) = 8 * (n div 64)"
    using n by (intro unat_of_nat_u64) simp
  ultimately have shift: "unat (shl (shr len 6) 3) = 8 * (n div 64)" by simp
  have "unat (shl (shr len 6) 3 + k) = 8 * (n div 64) + unat k" if "unat k \<le> 16" for k
    using that n shift by (simp add: unat_word_ariths)
  moreover have "len AND 63 = 0 \<longleftrightarrow> n mod 64 = 0"
    by (simp add: n_def and_63_eq_0)
  ultimately show ?thesis
    using words_ceil [of n] by (simp add: expected_buf_size_def Let_def flip: n_def)
qed

lemma BitArray_get_eq:
  assumes "ba_wf a"
  shows "BitArray_get a i = (if i < unat (ba_len a) then Some (ba_bits a ! i) else None)"
proof (cases "i < unat (ba_len a)")
  case True
  with ba_wf_le [OF assms] have i: "i < 8 * length (ba_buf a)" "i div 8 < length (ba_buf a)"
    by auto
  let ?b = "ba_buf a ! (i div 8)"
  have "shr (0x80 :: u8) (i mod 8) = 2 ^ (7 - i mod 8)"
    using drop_bit_exp [of "i mod 8" 7, where 'a = 8] by (simp add: shr_def less_Suc_eq_le [symmetric])
  then have "?b AND shr 0x80 (i mod 8) \<noteq> 0 \<longleftrightarrow> bit ?b (7 - i mod 8)"
    by (simp add: bit_iff_and_push_bit_not_eq_0 push_bit_eq_mult)
  with True i show ?thesis
    by (simp add: BitArray_get_def BitArray_len_def ba_bits_def nth_buf_bits)
next
  case False
  then show ?thesis by (simp add: BitArray_get_def BitArray_len_def)
qed

lemma BitArray_iter_eq: "ba_wf a \<Longrightarrow> BitArray_iter a = Some (ba_bits a)"
proof -
  assume wf: "ba_wf a"
  have "those (map (BitArray_get a) [0..<unat (ba_len a)]) =
      Some (map ((!) (ba_bits a)) [0..<unat (ba_len a)])"
    by (rule those_map_Some) (simp add: BitArray_get_eq [OF wf])
  moreover have "map ((!) (ba_bits a)) [0..<unat (ba_len a)] = ba_bits a"
    using map_nth [of "ba_bits a"] wf by simp
  ultimately show ?thesis by (simp add: BitArray_iter_def BitArray_len_def)
qed

section \<open>Building\<close>

text \<open>The words full so far are written, and the open word holds the bits left over,
  with zeros after them.\<close>

definition bab_inv :: "BitArrayFileBuilder \<Rightarrow> bool list \<Rightarrow> bool" where
  "bab_inv b bits \<longleftrightarrow>
    unat (bab_count b) = length bits \<and>
    length (bab_dest b) = 8 * (length bits div 64) \<and>
    buf_bits (bab_dest b) @ word_bits (bab_current b) =
      bits @ replicate (64 - length bits mod 64) False"

lemma word_bits_set:
  assumes "r < 64"
  shows "word_bits (w OR shr 0x8000000000000000 r) = (word_bits w)[r := True]"
proof -
  have "shr (0x8000000000000000 :: u64) r = 2 ^ (63 - r)"
    using assms drop_bit_exp [of r 63, where 'a = 64] by (simp add: shr_def)
  with assms show ?thesis
    by (intro nth_equalityI) (auto simp: bit_simps nth_list_update)
qed

lemma list_update_replicate_hd: "(xs @ replicate (Suc n) False)[length xs := b] = xs @ b # replicate n False"
  by simp

lemma bab_inv_new: "bab_inv (BitArrayFileBuilder_new []) []"
  by (simp add: bab_inv_def BitArrayFileBuilder_new_def)

lemma bab_inv_push:
  assumes inv: "bab_inv b bits" and len: "length bits + 1 < 2 ^ 64"
  shows "bab_inv (BitArrayFileBuilder_push b x) (bits @ [x])"
proof -
  define n r where "n = length bits" and "r = length bits mod 64"
  have r: "r < 64" "n = 64 * (n div 64) + r" by (simp_all add: r_def n_def)
  from inv have cnt: "unat (bab_count b) = n" and dlen: "length (bab_dest b) = 8 * (n div 64)"
    and eq: "buf_bits (bab_dest b) @ word_bits (bab_current b) = bits @ replicate (64 - r) False"
    by (simp_all add: bab_inv_def n_def r_def)
  define cur where "cur = (if x then bab_current b OR shr 0x8000000000000000 (unat (bab_count b AND 0x3f))
    else bab_current b)"
  have cnt': "unat (bab_count b + 1) = n + 1"
    using cnt len by (simp add: unat_word_ariths n_def)
  have cur: "word_bits cur = (word_bits (bab_current b))[r := x]"
  proof (cases x)
    case True
    with r(1) cnt show ?thesis by (simp add: cur_def unat_and_63 word_bits_set r_def n_def)
  next
    case False
    have "word_bits (bab_current b) ! r = (bits @ replicate (64 - r) False) ! n"
      using eq nth_append_length_plus [of "buf_bits (bab_dest b)" "word_bits (bab_current b)" r] r(2) dlen
      by simp
    then have "\<not> word_bits (bab_current b) ! r" using r(1) by (simp add: n_def nth_append)
    with False r(1) list_update_id [of "word_bits (bab_current b)" r] show ?thesis
      by (simp add: cur_def)
  qed
  have "(buf_bits (bab_dest b) @ word_bits (bab_current b))[n := x] =
      buf_bits (bab_dest b) @ word_bits cur"
  proof -
    have "n - 64 * (n div 64) = r" using r(2) by (metis add_diff_cancel_left')
    with r dlen cur show ?thesis by (simp add: list_update_append)
  qed
  also have "(buf_bits (bab_dest b) @ word_bits (bab_current b))[n := x] =
      bits @ x # replicate (63 - r) False"
    using eq r(1) list_update_replicate_hd [of bits "63 - r" x]
    by (simp add: n_def del: replicate_Suc flip: Suc_diff_le)
  finally have eq': "buf_bits (bab_dest b) @ word_bits cur = (bits @ [x]) @ replicate (63 - r) False"
    by simp
  show ?thesis
  proof (cases "r = 63")
    case True
    then have m: "(n + 1) mod 64 = 0" "(n + 1) div 64 = n div 64 + 1"
      using r(2) by (simp_all add: div_Suc mod_Suc r_def n_def)
    have "(bab_count b + 1) AND 0x3f = 0" using cnt' m by (simp add: and_63_eq_0)
    then have "BitArrayFileBuilder_push b x =
      \<lparr>bab_dest = write_u64 (bab_dest b) cur, bab_current = 0, bab_count = bab_count b + 1\<rparr>"
      by (simp add: BitArrayFileBuilder_push_def cur_def Let_def)
    with True m cnt' dlen eq' show ?thesis
      by (simp add: bab_inv_def write_u64_def flip: n_def)
  next
    case False
    with r(1) have m: "(n + 1) mod 64 = r + 1" "(n + 1) div 64 = n div 64"
      by (simp_all add: div_Suc mod_Suc r_def n_def)
    have "(bab_count b + 1) AND 0x3f \<noteq> 0" using cnt' m by (simp add: and_63_eq_0)
    then have "BitArrayFileBuilder_push b x =
      \<lparr>bab_dest = bab_dest b, bab_current = cur, bab_count = bab_count b + 1\<rparr>"
      by (simp add: BitArrayFileBuilder_push_def cur_def Let_def)
    with m cnt' dlen eq' show ?thesis
      by (simp add: bab_inv_def flip: n_def)
  qed
qed

lemma BitArrayFileBuilder_push_all_append:
  "BitArrayFileBuilder_push_all b (map Inr xs @ ys) =
    BitArrayFileBuilder_push_all (foldl BitArrayFileBuilder_push b xs) ys"
  by (induction xs arbitrary: b) simp_all

lemma BitArrayFileBuilder_push_all_Inr [simp]:
  "BitArrayFileBuilder_push_all b (map Inr xs) = Inr (foldl BitArrayFileBuilder_push b xs)"
  using BitArrayFileBuilder_push_all_append [of b xs "[]"] by simp

lemma bab_inv_foldl:
  assumes "bab_inv b bits" and "length bits + length xs < 2 ^ 64"
  shows "bab_inv (foldl BitArrayFileBuilder_push b xs) (bits @ xs)"
  using assms
proof (induction xs arbitrary: b bits)
  case Nil
  then show ?case by simp
next
  case (Cons x xs)
  then have "bab_inv (BitArrayFileBuilder_push b x) (bits @ [x])"
    by (intro bab_inv_push) simp_all
  from Cons.IH [OF this] Cons.prems(2) show ?case by simp
qed

text \<open>The file of a bit sequence: its words, padded with zeros, and the control word.\<close>

definition bits_data :: "bool list \<Rightarrow> bytes \<Rightarrow> bool" where
  "bits_data bits data \<longleftrightarrow>
    length data = 8 * ((length bits + 63) div 64) \<and> take (length bits) (buf_bits data) = bits \<and>
    (\<forall>i. length bits \<le> i \<and> i < 8 * length data \<longrightarrow> \<not> buf_bits data ! i)"

lemma bab_finalize:
  assumes inv: "bab_inv b bits" and len: "length bits < 2 ^ 64"
  shows "\<exists>data. BitArrayFileBuilder_finalize b = data @ to_be_bytes (of_nat (length bits)) \<and>
    bits_data bits data"
proof -
  let ?n = "length bits"
  from inv have cnt: "unat (bab_count b) = ?n" and dlen: "length (bab_dest b) = 8 * (?n div 64)"
    and eq: "buf_bits (bab_dest b) @ word_bits (bab_current b) =
      bits @ replicate (64 - ?n mod 64) False"
    by (simp_all add: bab_inv_def)
  have "bab_count b = of_nat ?n" using cnt by (rule word_of_nat_eqI)
  moreover have "bits_data bits (BitArrayFileBuilder_finalize_data b)"
  proof (cases "?n mod 64 = 0")
    case True
    then have fd: "BitArrayFileBuilder_finalize_data b = bab_dest b"
      by (simp add: BitArrayFileBuilder_finalize_data_def and_63_eq_0 cnt)
    have n: "64 * (?n div 64) = ?n" using True by auto
    have "take ?n (buf_bits (bab_dest b) @ word_bits (bab_current b)) = bits"
      using eq by simp
    then have "take ?n (buf_bits (bab_dest b)) = bits" using dlen n by simp
    with True fd dlen n show ?thesis by (auto simp: bits_data_def words_ceil)
  next
    case False
    then have fd: "BitArrayFileBuilder_finalize_data b = write_u64 (bab_dest b) (bab_current b)"
      by (simp add: BitArrayFileBuilder_finalize_data_def and_63_eq_0 cnt)
    have "\<not> (bits @ replicate (64 - ?n mod 64) False) ! i"
      if "?n \<le> i" "i < 64 * (?n div 64) + 64" for i
    proof -
      have "i - ?n < 64 - ?n mod 64" using that div_mult_mod_eq [of ?n 64] by linarith
      with that(1) show ?thesis by (simp add: nth_append)
    qed
    with False dlen eq fd show ?thesis
      by (simp add: bits_data_def words_ceil write_u64_def)
  qed
  ultimately show ?thesis
    by (auto simp: BitArrayFileBuilder_finalize_def write_u64_def)
qed

lemma BitArray_build:
  assumes "length bits < 2 ^ 64"
  obtains data where
    "BitArrayFileBuilder_push_all (BitArrayFileBuilder_new []) (map Inr bits) =
      Inr (foldl BitArrayFileBuilder_push (BitArrayFileBuilder_new []) bits)"
    "BitArrayFileBuilder_finalize (foldl BitArrayFileBuilder_push (BitArrayFileBuilder_new []) bits) =
      data @ to_be_bytes (of_nat (length bits))"
    "bits_data bits data"
  using bab_finalize [OF bab_inv_foldl [OF bab_inv_new, of bits]] assms by auto

section \<open>Reading a file back\<close>

context big_endian
begin

lemma BitArray_from_bits_eq:
  assumes "length buf < 2 ^ 64"
  shows "BitArray_from_bits bo buf = Some
    (if length buf < 8 then Inl (InputBufferTooSmall (length buf))
     else let data = take (length buf - 8) buf; len = from_be_bytes (drop (length buf - 8) buf)
          in if length data = 8 * ((unat len + 63) div 64)
             then Inr \<lparr>ba_len = len, ba_buf = data\<rparr>
             else Inl (UnexpectedInputBufferSize (of_nat (length buf)) (expected_buf_size len) len))"
proof -
  have "of_nat (length buf) = expected_buf_size len \<longleftrightarrow>
      length buf = 8 * ((unat len + 63) div 64) + 8" for len
  proof -
    have "of_nat (length buf) = expected_buf_size len \<longleftrightarrow>
        unat (of_nat (length buf) :: u64) = unat (expected_buf_size len)"
      by (simp only: word_unat_eq_iff)
    then show ?thesis using assms by (simp only: unat_of_nat_u64 unat_expected_buf_size)
  qed
  then show ?thesis
    by (auto simp: BitArray_from_bits_def BitArrayError_validate_input_buf_size_def Let_def
        BitArray_read_control_word_def BitArrayError_validate_len_def)
qed

lemma BitArray_from_bits_data:
  assumes "bits_data bits data" and "length bits < 2 ^ 64"
  obtains a where "BitArray_from_bits bo (data @ to_be_bytes (of_nat (length bits))) = Some (Inr a)"
    "ba_wf a" "ba_bits a = bits" "ba_buf a = data" "unat (ba_len a) = length bits"
proof -
  let ?a = "\<lparr>ba_len = of_nat (length bits), ba_buf = data\<rparr>"
  have len: "unat (of_nat (length bits) :: u64) = length bits"
    using assms(2) by (rule unat_of_nat_u64)
  from assms have "length (data @ to_be_bytes (of_nat (length bits))) < 2 ^ 64"
    by (simp add: bits_data_def)
  then have "BitArray_from_bits bo (data @ to_be_bytes (of_nat (length bits))) = Some (Inr ?a)"
    using assms len by (simp add: BitArray_from_bits_eq bits_data_def Let_def)
  moreover have "ba_wf ?a" "ba_bits ?a = bits"
    using assms(1) len by (simp_all add: ba_wf_def ba_bits_def bits_data_def)
  ultimately show ?thesis by (rule that) (use len in simp_all)
qed

text \<open>The decoder yields all the words but the last, which is the control word.\<close>

lemma decode_blocks_words:
  "decode_blocks bo (Some w) (concat (map to_be_bytes ws)) = Some (butlast (w # ws))"
proof (induction ws arbitrary: w)
  case Nil
  then show ?case
    by (subst decode_blocks.simps) (simp add: BitArrayBlockDecoder_decode.simps)
next
  case (Cons v ws)
  then show ?case
    by (subst decode_blocks.simps) (simp add: BitArrayBlockDecoder_decode.simps [of _ "Some w"])
qed

lemma BitArrayBlockDecoder_shorter:
  "BitArrayBlockDecoder_decode bo' r bs = Some (r', bs', Some w) \<Longrightarrow> length bs' < length bs"
  by (induction bo' r bs rule: BitArrayBlockDecoder_decode.induct)
    (subst (asm) (2) BitArrayBlockDecoder_decode.simps,
      auto split: if_splits option.splits)

lemma decode_blocks_start:
  "decode_blocks bo None (concat (map to_be_bytes ws)) = Some (butlast ws)"
proof (cases ws)
  case Nil
  then show ?thesis
    by (subst decode_blocks.simps) (simp add: BitArrayBlockDecoder_decode.simps)
next
  case (Cons w ws')
  have "BitArrayBlockDecoder_decode bo None (concat (map to_be_bytes (w # ws'))) =
      BitArrayBlockDecoder_decode bo (Some w) (concat (map to_be_bytes ws'))"
    by (subst BitArrayBlockDecoder_decode.simps) simp
  then have "decode_blocks bo None (concat (map to_be_bytes ws)) =
      decode_blocks bo (Some w) (concat (map to_be_bytes ws'))"
    using Cons
    by (auto simp: decode_blocks.simps [of _ None] decode_blocks.simps [of _ "Some w"]
        split: option.split dest: BitArrayBlockDecoder_shorter)
  with Cons show ?thesis by (simp add: decode_blocks_words)
qed

lemma bytes_as_words:
  "8 dvd length bs \<Longrightarrow> \<exists>ws. bs = concat (map to_be_bytes ws) \<and> 8 * length ws = length bs"
proof (induction "length bs" arbitrary: bs rule: less_induct)
  case less
  show ?case
  proof (cases "bs = []")
    case True
    then show ?thesis by (intro exI [of _ "[]"]) simp
  next
    case False
    with less.prems have len: "8 \<le> length bs" by (auto intro: dvd_imp_le)
    then have "8 dvd length (drop 8 bs)" "length (drop 8 bs) < length bs"
      using less.prems by (simp_all add: dvd_diff_nat)
    then obtain ws where ws: "drop 8 bs = concat (map to_be_bytes ws)" "8 * length ws = length bs - 8"
      using less.hyps [of "drop 8 bs"] by (metis length_drop)
    have "to_be_bytes (from_be_bytes (take 8 bs)) = take 8 bs"
      using len by (intro from_be_bytes_inverse) simp
    with ws len show ?thesis
      by (intro exI [of _ "from_be_bytes (take 8 bs) # ws"]) (simp flip: ws(1))
  qed
qed

lemma buf_bits_words: "buf_bits (concat (map to_be_bytes ws)) = concat (map word_bits ws)"
  by (induction ws) simp_all

text \<open>The words that the block stream of a file of bits yields.\<close>

lemma bits_data_blocks:
  assumes "bits_data bits data" and "framed_blocks_ok bo framed"
  obtains ws where "bitarray_stream_blocks framed (data @ to_be_bytes c) = map Inr ws"
    "concat (map word_bits ws) = buf_bits data" "64 * length ws = 8 * length data"
proof -
  from assms(1) have "8 dvd length data" by (simp add: bits_data_def)
  then obtain ws where ws: "data = concat (map to_be_bytes ws)" "8 * length ws = length data"
    using bytes_as_words by blast
  have "decode_blocks bo None (data @ to_be_bytes c) = Some ws"
    using decode_blocks_start [of "ws @ [c]"] ws(1) by simp
  then have "framed (data @ to_be_bytes c) = map Inr ws"
    using assms(2) \<open>8 dvd length data\<close> by (simp add: framed_blocks_ok_def)
  with ws show ?thesis
    by (intro that [of ws]) (simp_all add: bitarray_stream_blocks_def buf_bits_words)
qed

lemma bitarray_len_from_file_eq:
  "bitarray_len_from_file bo f =
    map_option (\<lambda>r. case r of Inl e \<Rightarrow> Inl (BitArrayError_to_io e) | Inr a \<Rightarrow> Inr (ba_len a))
      (BitArray_from_bits bo f)"
proof (cases "length f < 8")
  case True
  then show ?thesis
    by (simp add: bitarray_len_from_file_def BitArray_from_bits_def
        BitArrayError_validate_input_buf_size_def)
next
  case False
  then show ?thesis
    by (cases "BitArray_read_control_word bo (drop (length f - 8) f) (length f)")
      (simp_all add: bitarray_len_from_file_def BitArray_from_bits_def Let_def
        BitArrayError_validate_input_buf_size_def split: sum.split)
qed

lemma bitarray_stream_bits_data:
  assumes "bits_data bits data" and "length bits < 2 ^ 64" and "framed_blocks_ok bo framed"
  shows "bitarray_stream_bits bo framed (data @ to_be_bytes (of_nat (length bits))) =
    Some (Inr (map Inr bits))"
proof -
  let ?f = "data @ to_be_bytes (of_nat (length bits))"
  have len: "unat (of_nat (length bits) :: u64) = length bits"
    using assms(2) by (rule unat_of_nat_u64)
  obtain a where "BitArray_from_bits bo ?f = Some (Inr a)" "unat (ba_len a) = length bits"
    using BitArray_from_bits_data [OF assms(1,2)] by metis
  then have "bitarray_len_from_file bo ?f = Some (Inr (of_nat (length bits)))"
    by (simp add: bitarray_len_from_file_eq word_of_nat_eqI)
  moreover obtain ws where ws: "bitarray_stream_blocks framed ?f = map Inr ws"
    "concat (map word_bits ws) = buf_bits data"
    using bits_data_blocks [OF assms(1,3)] by metis
  moreover have "take (length bits) (buf_bits data) = bits"
    using assms(1) by (simp add: bits_data_def)
  ultimately show ?thesis
    using len by (simp add: bitarray_stream_bits_def o_def ws(1) take_map
        flip: map_concat [of Inr "map word_bits ws", unfolded map_map o_def] ws(2))
qed

end

section \<open>Properties\<close>

text \<open>
  C23. Round trip of a bit array: the builder writes a file for any sequence of fewer
  than \<open>2 ^ 64\<close> bits; the file parses, the array has their number, \<open>get\<close> returns
  each bit at its index, panics at every index past the end, and \<open>iter\<close> returns
  them all.
\<close>

theorem BitArray_roundtrip:
  assumes "big_endian bo" and "length bits < 2 ^ 64"
  shows "\<exists>b a. BitArrayFileBuilder_push_all (BitArrayFileBuilder_new []) (map Inr bits) = Inr b \<and>
    BitArray_from_bits bo (BitArrayFileBuilder_finalize b) = Some (Inr a) \<and>
    BitArray_len a = length bits \<and> BitArray_iter a = Some bits \<and>
    (\<forall>i. BitArray_get a i = (if i < length bits then Some (bits ! i) else None))"
proof -
  from BitArray_build [OF assms(2)] obtain data where
    "BitArrayFileBuilder_finalize (foldl BitArrayFileBuilder_push (BitArrayFileBuilder_new []) bits) =
      data @ to_be_bytes (of_nat (length bits))" "bits_data bits data" .
  with big_endian.BitArray_from_bits_data [OF assms(1) _ assms(2)] show ?thesis
    by (metis BitArrayFileBuilder_push_all_Inr BitArray_get_eq BitArray_iter_eq BitArray_len_def)
qed

theorem BitArray_roundtrip_witness:
  "\<exists>b a. BitArrayFileBuilder_push_all (BitArrayFileBuilder_new []) (map Inr [True, True, False]) = Inr b \<and>
    BitArray_from_bits byteorder_std (BitArrayFileBuilder_finalize b) = Some (Inr a) \<and>
    BitArray_len a = 3 \<and> BitArray_iter a = Some [True, True, False] \<and> BitArray_get a 3 = None"
  using BitArray_roundtrip [OF std.big_endian_axioms, of "[True, True, False]"] by force

text \<open>
  What \<open>from_bits\<close> accepts: exactly the buffers with a control word and the
  number of data words that its length asks for; the other buffers are refused with
  the error that says why, and no buffer makes it panic.
\<close>

theorem BitArray_from_bits_accepts:
  assumes "big_endian bo" and "length buf < 2 ^ 64"
  shows "(length buf < 8 \<longrightarrow> BitArray_from_bits bo buf = Some (Inl (InputBufferTooSmall (length buf)))) \<and>
    (8 \<le> length buf \<longrightarrow>
      (let len = from_be_bytes (drop (length buf - 8) buf) :: u64 in
       if length buf = 8 * ((unat len + 63) div 64) + 8
       then BitArray_from_bits bo buf = Some (Inr \<lparr>ba_len = len, ba_buf = take (length buf - 8) buf\<rparr>)
       else BitArray_from_bits bo buf =
         Some (Inl (UnexpectedInputBufferSize (of_nat (length buf)) (expected_buf_size len) len))))"
  by (auto simp: big_endian.BitArray_from_bits_eq [OF assms] Let_def)

theorem BitArray_from_bits_accepts_witness:
  "BitArray_from_bits byteorder_std [0, 0, 0, 0] = Some (Inl (InputBufferTooSmall 4))"
  using BitArray_from_bits_accepts [OF std.big_endian_axioms, of "[0, 0, 0, 0]"] by simp

text \<open>
  Streaming the file of a bit sequence yields the bits in order, all of them and
  nothing of the padding or of the control word, without an error.
\<close>

theorem bitarray_stream_bits_roundtrip:
  assumes "big_endian bo" and "framed_blocks_ok bo framed" and "length bits < 2 ^ 64"
  shows "\<exists>b. BitArrayFileBuilder_push_all (BitArrayFileBuilder_new []) (map Inr bits) = Inr b \<and>
    bitarray_stream_bits bo framed (BitArrayFileBuilder_finalize b) = Some (Inr (map Inr bits))"
proof -
  from BitArray_build [OF assms(3)] obtain data where
    "BitArrayFileBuilder_finalize (foldl BitArrayFileBuilder_push (BitArrayFileBuilder_new []) bits) =
      data @ to_be_bytes (of_nat (length bits))" "bits_data bits data" .
  with big_endian.bitarray_stream_bits_data [OF assms(1) _ assms(3,2)] show ?thesis by simp
qed

definition framed_blocks_std :: framed_blocks where
  "framed_blocks_std f = (case decode_blocks byteorder_std None f of
     None \<Rightarrow> [Inl Other] | Some ws \<Rightarrow> map Inr ws)"

lemma framed_blocks_std_ok: "framed_blocks_ok byteorder_std framed_blocks_std"
  by (simp add: framed_blocks_ok_def framed_blocks_std_def)

theorem bitarray_stream_bits_roundtrip_witness:
  "\<exists>b. BitArrayFileBuilder_push_all (BitArrayFileBuilder_new []) (map Inr [True, False]) = Inr b \<and>
    bitarray_stream_bits byteorder_std framed_blocks_std (BitArrayFileBuilder_finalize b) =
      Some (Inr (map Inr [True, False]))"
  by (rule bitarray_stream_bits_roundtrip [OF std.big_endian_axioms framed_blocks_std_ok]) simp

end
