(* ===== verification/LogArray.thy ===== *)
theory LogArray
  imports Util
begin

text \<open>
  Log arrays (\<open>src/structure/logarray.rs\<close>): \<open>N\<close> unsigned integers of \<open>W\<close> bits each,
  packed without gaps into 64-bit big-endian words and followed by a control word
  with \<open>N\<close> (32 bits) and \<open>W\<close> (8 bits). Parsing, random access and slices, the
  builder, the streaming decoder, and binary search in a monotonic array.

  The elements of a parsed array are \<open>la_elems\<close>, read off the bit sequence of the
  buffer; every operation is related to them.
\<close>

section \<open>Model\<close>

record LogArray =
  la_first :: u32
  la_len :: u32
  la_width :: u8
  la_input_buf :: bytes

datatype LogArrayError =
    InputBufferTooSmall usize
  | WidthTooLarge u8
  | UnexpectedInputBufferSize u64 u64 u32 u8

definition LogArrayError_validate_input_buf_size :: "usize \<Rightarrow> LogArrayError + unit" where
  "LogArrayError_validate_input_buf_size input_buf_size =
    (if input_buf_size < 8 then Inl (InputBufferTooSmall input_buf_size) else Inr ())"

definition LogArrayError_validate_len_and_width ::
  "usize \<Rightarrow> u32 \<Rightarrow> u8 \<Rightarrow> LogArrayError + unit" where
  "LogArrayError_validate_len_and_width input_buf_size len width =
    (if width > 64 then Inl (WidthTooLarge width)
     else let expected_buf_size = shl (shr ((ucast len :: u64) * ucast width + 127) 6) 3;
              input_buf_size' = of_nat input_buf_size
          in if input_buf_size' \<noteq> expected_buf_size
             then Inl (UnexpectedInputBufferSize input_buf_size' expected_buf_size len width)
             else Inr ())"

definition LogArrayError_to_io :: "LogArrayError \<Rightarrow> io_error" where
  "LogArrayError_to_io e = InvalidData"

definition LogArray_read_control_word ::
  "byteorder \<Rightarrow> bytes \<Rightarrow> usize \<Rightarrow> (LogArrayError + (u32 \<times> u8)) panics" where
  "LogArray_read_control_word bo buf input_buf_size =
    do { len \<leftarrow> be_read_u32 bo buf;
         width \<leftarrow> index_at buf 4;
         Some (case LogArrayError_validate_len_and_width input_buf_size len width of
                 Inl e \<Rightarrow> Inl e | Inr _ \<Rightarrow> Inr (len, width)) }"

definition LogArray_parse :: "byteorder \<Rightarrow> bytes \<Rightarrow> (LogArrayError + LogArray) panics" where
  "LogArray_parse bo input_buf =
    (let input_buf_size = length input_buf in
     case LogArrayError_validate_input_buf_size input_buf_size of
       Inl e \<Rightarrow> Some (Inl e)
     | Inr _ \<Rightarrow>
         do { r \<leftarrow> LogArray_read_control_word bo (drop (input_buf_size - 8) input_buf) input_buf_size;
              Some (case r of Inl e \<Rightarrow> Inl e
                    | Inr (len, width) \<Rightarrow>
                        Inr \<lparr>la_first = 0, la_len = len, la_width = width,
                             la_input_buf = input_buf\<rparr>) })"

definition LogArray_len :: "LogArray \<Rightarrow> usize" where
  "LogArray_len self = unat (la_len self)"

definition LogArray_is_empty :: "LogArray \<Rightarrow> bool" where
  "LogArray_is_empty self \<longleftrightarrow> la_len self = 0"

text \<open>
  The two words that hold the element, and the element cut out of them: the part of
  \<open>entry\<close> after the reads, which the decoder repeats.
\<close>

definition extract_split :: "u8 \<Rightarrow> u8 \<Rightarrow> u64 \<Rightarrow> u64 \<Rightarrow> u64" where
  "extract_split width offset first_word second_word =
    (let first_width = 64 - offset;
         second_width = width - first_width;
         first_part = shl (shr (shl first_word (unat offset)) (unat offset)) (unat second_width);
         second_part = shr second_word (unat (64 - second_width))
     in first_part OR second_part)"

definition LogArray_entry :: "byteorder \<Rightarrow> LogArray \<Rightarrow> usize \<Rightarrow> u64 panics" where
  "LogArray_entry bo self index =
    do { rust_assert (index < LogArray_len self);
         let bit_index = unat (la_width self) * (unat (la_first self) + index);
             byte_index = push_bit 3 (drop_bit 6 bit_index);
             buf = la_input_buf self;
             leading_zeros = 64 - la_width self;
             offset = of_nat (bit_index AND 63) :: u8
         in do { first_slice \<leftarrow> slice_from buf byte_index;
                 first_word \<leftarrow> be_read_u64 bo first_slice;
                 second_slice \<leftarrow> slice_from buf (byte_index + 8);
                 second_word \<leftarrow> be_read_u64 bo second_slice;
                 if offset + la_width self \<le> 64
                 then Some (shr (shl first_word (unat offset)) (unat leading_zeros))
                 else Some (extract_split (la_width self) offset first_word second_word) } }"

record LogArrayIterator =
  lai_logarray :: LogArray
  lai_pos :: usize
  lai_end :: usize

definition LogArray_iter :: "LogArray \<Rightarrow> LogArrayIterator" where
  "LogArray_iter self = \<lparr>lai_logarray = self, lai_pos = 0, lai_end = LogArray_len self\<rparr>"

definition LogArrayIterator_next ::
  "byteorder \<Rightarrow> LogArrayIterator \<Rightarrow> (u64 option \<times> LogArrayIterator) panics" where
  "LogArrayIterator_next bo self =
    (if lai_pos self = lai_end self then Some (None, self)
     else do { result \<leftarrow> LogArray_entry bo (lai_logarray self) (lai_pos self);
               Some (Some result, self\<lparr>lai_pos := lai_pos self + 1\<rparr>) })"

text \<open>\<open>u32::try_from\<close> and \<open>checked_add\<close> panic when the value does not fit 32 bits.\<close>

definition LogArray_slice :: "LogArray \<Rightarrow> usize \<Rightarrow> usize \<Rightarrow> LogArray panics" where
  "LogArray_slice self offset len =
    do { rust_assert (offset < 2 ^ 32);
         rust_assert (len < 2 ^ 32);
         rust_assert (offset + len < 2 ^ 32);
         rust_assert ((of_nat (offset + len) :: u32) \<le> la_len self);
         Some (self\<lparr>la_first := la_first self + of_nat offset, la_len := of_nat len\<rparr>) }"

record LogArrayFileBuilder =
  lab_file :: bytes
  lab_width :: u8
  lab_current :: u64
  lab_offset :: u8
  lab_count :: u32

definition LogArrayFileBuilder_new :: "bytes \<Rightarrow> u8 \<Rightarrow> LogArrayFileBuilder" where
  "LogArrayFileBuilder_new w width =
    \<lparr>lab_file = w, lab_width = width, lab_current = 0, lab_offset = 0, lab_count = 0\<rparr>"

definition LogArrayFileBuilder_push ::
  "LogArrayFileBuilder \<Rightarrow> u64 \<Rightarrow> io_error + LogArrayFileBuilder" where
  "LogArrayFileBuilder_push self val =
    (let lz = 64 - lab_width self in
     if leading_zeros val < unat lz then Inl InvalidData
     else let count = lab_count self + 1;
              current = lab_current self OR shr (shl val (unat lz)) (unat (lab_offset self));
              offset = lab_offset self + lab_width self
          in if offset \<ge> 64
             then let offset' = offset - 64 in
                  Inr (self\<lparr>lab_count := count,
                            lab_file := write_u64 (lab_file self) current,
                            lab_offset := offset',
                            lab_current := (if offset' = 0 then 0 else shl val (unat (64 - offset')))\<rparr>)
             else Inr (self\<lparr>lab_count := count, lab_current := current, lab_offset := offset\<rparr>))"

fun LogArrayFileBuilder_push_vec ::
  "LogArrayFileBuilder \<Rightarrow> u64 list \<Rightarrow> io_error + LogArrayFileBuilder" where
  "LogArrayFileBuilder_push_vec self [] = Inr self"
| "LogArrayFileBuilder_push_vec self (val # vals) =
    (case LogArrayFileBuilder_push self val of
       Inl e \<Rightarrow> Inl e | Inr self' \<Rightarrow> LogArrayFileBuilder_push_vec self' vals)"

fun LogArrayFileBuilder_push_all ::
  "LogArrayFileBuilder \<Rightarrow> (io_error + u64) list \<Rightarrow> io_error + LogArrayFileBuilder" where
  "LogArrayFileBuilder_push_all self [] = Inr self"
| "LogArrayFileBuilder_push_all self (Inl e # vals) = Inl e"
| "LogArrayFileBuilder_push_all self (Inr val # vals) =
    (case LogArrayFileBuilder_push self val of
       Inl e \<Rightarrow> Inl e | Inr self' \<Rightarrow> LogArrayFileBuilder_push_all self' vals)"

definition LogArrayFileBuilder_finalize_data :: "LogArrayFileBuilder \<Rightarrow> bytes" where
  "LogArrayFileBuilder_finalize_data self =
    (if ((ucast (lab_count self) :: u64) * ucast (lab_width self)) AND 0x3f \<noteq> 0
     then write_u64 (lab_file self) (lab_current self) else lab_file self)"

definition LogArrayFileBuilder_finalize :: "byteorder \<Rightarrow> LogArrayFileBuilder \<Rightarrow> bytes panics" where
  "LogArrayFileBuilder_finalize bo self =
    do { buf \<leftarrow> be_write_u32 bo (replicate 8 0) (lab_count self);
         Some (LogArrayFileBuilder_finalize_data self @ buf[4 := lab_width self]) }"

record LogArrayDecoder =
  lad_current :: u64
  lad_width :: u8
  lad_offset :: u8
  lad_remaining :: u32

definition LogArrayDecoder_new_unchecked :: "u8 \<Rightarrow> u32 \<Rightarrow> LogArrayDecoder" where
  "LogArrayDecoder_new_unchecked width remaining =
    \<lparr>lad_current = 0, lad_width = width, lad_offset = 64, lad_remaining = remaining\<rparr>"

definition LogArrayDecoder_decode ::
  "byteorder \<Rightarrow> LogArrayDecoder \<Rightarrow> bytes \<Rightarrow> (LogArrayDecoder \<times> bytes \<times> u64 option) panics" where
  "LogArrayDecoder_decode bo self bs =
    (if lad_remaining self = 0 then Some (self, [], None)
     else let first_word = lad_current self; offset = lad_offset self; width = lad_width self;
              leading_zeros = 64 - width
          in if offset + width \<le> 64
             then Some (self\<lparr>lad_offset := offset + width, lad_remaining := lad_remaining self - 1\<rparr>,
                        bs, Some (shr (shl first_word (unat offset)) (unat leading_zeros)))
             else if length bs < 8 then Some (self, bs, None)
             else do { second_word \<leftarrow> be_read_u64 bo (take 8 bs);
                       let self' = self\<lparr>lad_current := second_word,
                                        lad_remaining := lad_remaining self - 1\<rparr>
                       in if offset = 64
                          then Some (self'\<lparr>lad_offset := width\<rparr>, drop 8 bs,
                                     Some (shr second_word (unat leading_zeros)))
                          else Some (self'\<lparr>lad_offset := width - (64 - offset)\<rparr>, drop 8 bs,
                                     Some (extract_split width offset first_word second_word)) })"

text \<open>
  Calling \<open>decode\<close> until it has nothing more to return, with the elements returned and
  the bytes left in the buffer; every call that returns an element lowers \<open>remaining\<close>.
\<close>

function decode_entries ::
  "byteorder \<Rightarrow> LogArrayDecoder \<Rightarrow> bytes \<Rightarrow> (u64 list \<times> bytes) panics" where
  "decode_entries bo d bs =
    (case LogArrayDecoder_decode bo d bs of
       None \<Rightarrow> None
     | Some (_, bs', None) \<Rightarrow> Some ([], bs')
     | Some (d', bs', Some v) \<Rightarrow>
         (if lad_remaining d' < lad_remaining d
          then map_option (apfst ((#) v)) (decode_entries bo d' bs') else None))"
  by pat_completeness auto
termination
  by (relation "measure (\<lambda>(bo, d, bs). unat (lad_remaining d))") (auto simp: word_less_nat_alt)

declare decode_entries.simps [simp del]

definition logarray_file_get_length_and_width ::
  "byteorder \<Rightarrow> bytes \<Rightarrow> (io_error + (u32 \<times> u8)) panics" where
  "logarray_file_get_length_and_width bo f =
    (case LogArrayError_validate_input_buf_size (length f) of
       Inl e \<Rightarrow> Some (Inl (LogArrayError_to_io e))
     | Inr _ \<Rightarrow>
         do { r \<leftarrow> LogArray_read_control_word bo (take 8 (drop (length f - 8) f)) (length f);
              Some (case r of Inl e \<Rightarrow> Inl (LogArrayError_to_io e) | Inr lw \<Rightarrow> Inr lw) })"

text \<open>As for bit arrays, \<open>FramedRead\<close> is a parameter.\<close>

type_synonym framed_entries = "LogArrayDecoder \<Rightarrow> bytes \<Rightarrow> (io_error + u64) list"

definition logarray_stream_entries ::
  "byteorder \<Rightarrow> framed_entries \<Rightarrow> bytes \<Rightarrow> (io_error + (io_error + u64) list) panics" where
  "logarray_stream_entries bo framed f =
    do { r \<leftarrow> logarray_file_get_length_and_width bo f;
         Some (case r of Inl e \<Rightarrow> Inl e
               | Inr (len, width) \<Rightarrow>
                   Inr (framed (LogArrayDecoder_new_unchecked width len) f)) }"

text \<open>
  What the crate documents of it: when the decoder, called until it is done, leaves no
  bytes in the buffer, the stream yields what the decoder returned, with no error.
\<close>

definition framed_entries_ok :: "byteorder \<Rightarrow> framed_entries \<Rightarrow> bool" where
  "framed_entries_ok bo framed \<longleftrightarrow>
    (\<forall>d f vs. decode_entries bo d f = Some (vs, []) \<longrightarrow> framed d f = map Inr vs)"

text \<open>
  A monotonic log array is a log array; in builds with debug assertions its
  construction walks the elements and panics when two neighbours are out of order.
\<close>

datatype MonotonicLogArray = MonotonicLogArray (mla_array: LogArray)

fun monotonic_walk :: "u64 \<Rightarrow> u64 list \<Rightarrow> unit panics" where
  "monotonic_walk pred [] = Some ()"
| "monotonic_walk pred (succ # rest) =
    do { rust_assert (pred \<le> succ); monotonic_walk succ rest }"

definition MonotonicLogArray_from_logarray ::
  "bool \<Rightarrow> byteorder \<Rightarrow> LogArray \<Rightarrow> MonotonicLogArray panics" where
  "MonotonicLogArray_from_logarray debug_assertions bo logarray =
    (if debug_assertions
     then do { elems \<leftarrow> those (map (LogArray_entry bo logarray) [0..<LogArray_len logarray]);
               (case elems of [] \<Rightarrow> Some () | pred # rest \<Rightarrow> monotonic_walk pred rest);
               Some (MonotonicLogArray logarray) }
     else Some (MonotonicLogArray logarray))"

text \<open>The binary search loop, from the bounds \<open>lo\<close> and \<open>hi\<close>.\<close>

function nearest_index_loop ::
  "byteorder \<Rightarrow> LogArray \<Rightarrow> u64 \<Rightarrow> usize \<Rightarrow> usize \<Rightarrow> usize panics" where
  "nearest_index_loop bo a element lo hi =
    (if lo \<le> hi then
       (let mid = (lo + hi) div 2 in
        case LogArray_entry bo a mid of
          None \<Rightarrow> None
        | Some e \<Rightarrow>
            (if element = e then Some mid
             else if element > e then nearest_index_loop bo a element (mid + 1) hi
             else if mid = 0 then Some 0
             else nearest_index_loop bo a element lo (mid - 1)))
     else Some ((lo + hi) div 2 + 1))"
  by pat_completeness auto
termination
  by (relation "measure (\<lambda>(bo, a, element, lo, hi). Suc hi - lo)") (auto simp: Let_def)

declare nearest_index_loop.simps [simp del]

definition MonotonicLogArray_nearest_index_of ::
  "byteorder \<Rightarrow> MonotonicLogArray \<Rightarrow> u64 \<Rightarrow> usize panics" where
  "MonotonicLogArray_nearest_index_of bo self element =
    (if LogArray_is_empty (mla_array self) then Some 0
     else nearest_index_loop bo (mla_array self) element 0 (LogArray_len (mla_array self) - 1))"

definition MonotonicLogArray_index_of ::
  "byteorder \<Rightarrow> MonotonicLogArray \<Rightarrow> u64 \<Rightarrow> usize option panics" where
  "MonotonicLogArray_index_of bo self element =
    do { index \<leftarrow> MonotonicLogArray_nearest_index_of bo self element;
         if index \<ge> LogArray_len (mla_array self) then Some None
         else do { e \<leftarrow> LogArray_entry bo (mla_array self) index;
                   Some (if e \<noteq> element then None else Some index) } }"

section \<open>Elements in a bit sequence\<close>

definition bits_val :: "bool list \<Rightarrow> u64" where
  "bits_val bs = horner_sum of_bool 2 (rev bs)"

lemma bit_bits_val:
  "length bs \<le> 64 \<Longrightarrow> bit (bits_val bs) k \<longleftrightarrow> k < length bs \<and> bs ! (length bs - 1 - k)"
  by (auto simp: bits_val_def bit_horner_sum_bit_iff rev_nth)

lemma bits_val_val_bits:
  "unat v < 2 ^ w \<Longrightarrow> w \<le> 64 \<Longrightarrow> bits_val (val_bits w v) = v"
  by (rule bit_word_eqI) (auto simp: bit_bits_val dest: bit_imp_less)

lemma extract_one:
  assumes "0 < w" "off + w \<le> 64"
  shows "shr (shl x off) (64 - w) = bits_val (take w (drop off (word_bits x)))"
proof (rule bit_word_eqI)
  fix k assume "k < LENGTH(64)"
  with assms show "bit (shr (shl x off) (64 - w)) k = bit (bits_val (take w (drop off (word_bits x)))) k"
    by (auto simp: shr_def shl_def bit_simps bit_bits_val add.commute [of off])
qed

lemma unat_sub_u8: "unat b \<le> unat a \<Longrightarrow> unat (a - b :: u8) = unat a - unat b"
  by (simp add: unat_sub word_le_nat_alt)

lemma unat_add_u8: "unat a + unat b < 256 \<Longrightarrow> unat (a + b :: u8) = unat a + unat b"
  by (simp add: unat_word_ariths)

lemma extract_split_eq:
  assumes "unat width \<le> 64" "unat offset < 64" "64 < unat offset + unat width"
  shows "extract_split width offset x y =
    bits_val (take (unat width) (drop (unat offset) (word_bits x @ word_bits y)))"
proof (rule bit_word_eqI)
  fix k assume k: "k < LENGTH(64)"
  define w off where "w = unat width" and "off = unat offset"
  define S where "S = width - (64 - offset)"
  have "unat (64 - offset) = 64 - off" using assms(2) by (simp add: unat_sub_u8 off_def)
  then have S: "unat S = off + w - 64"
    using assms by (simp add: unat_sub_u8 off_def w_def S_def)
  then have "unat (64 - S) = 128 - off - w"
    using assms by (subst unat_sub_u8) (simp_all add: off_def w_def)
  with S have eq: "extract_split width offset x y =
      shl (shr (shl x off) off) (off + w - 64) OR shr y (128 - off - w)"
    by (simp add: extract_split_def off_def S_def)
  have b: "w \<le> 64" "off < 64" "64 < off + w" using assms by (simp_all add: w_def off_def)
  have h1: "bit (shl (shr (shl x off) off) (off + w - 64)) k \<longleftrightarrow>
      off + w - 64 \<le> k \<and> k < w \<and> bit x (k - (off + w - 64))"
    using b k by (auto simp: shr_def shl_def bit_simps)
  have h2: "bit (shr y (128 - off - w)) k \<longleftrightarrow> k < off + w - 64 \<and> bit y (128 - off - w + k)"
    using b k by (auto simp: shr_def bit_simps dest: bit_imp_le_length)
  have gen: "bit (bits_val (take w (drop off B))) k \<longleftrightarrow> k < w \<and> B ! (off + (w - 1 - k))"
    if "length B = 128" for B
    using b that by (auto simp: bit_bits_val)
  have h3: "bit (bits_val (take w (drop off (word_bits x @ word_bits y)))) k \<longleftrightarrow>
      k < w \<and> (word_bits x @ word_bits y) ! (off + (w - 1 - k))"
    by (rule gen) simp
  have h4: "(word_bits x @ word_bits y) ! (off + (w - 1 - k)) =
      (if k < off + w - 64 then bit y (128 - off - w + k) else bit x (k - (off + w - 64)))" if "k < w"
  proof (cases "k < off + w - 64")
    case True
    then have "off + (w - 1 - k) - 64 < 64" "63 - (off + (w - 1 - k) - 64) = 128 - off - w + k"
      "64 \<le> off + (w - 1 - k)" using that b by auto
    with True show ?thesis by (simp add: nth_append)
  next
    case False
    then have "off + (w - 1 - k) < 64" "63 - (off + (w - 1 - k)) = k - (off + w - 64)"
      using that b by auto
    with False show ?thesis by (simp add: nth_append)
  qed
  show "bit (extract_split width offset x y) k =
      bit (bits_val (take (unat width) (drop (unat offset) (word_bits x @ word_bits y)))) k"
    unfolding w_def [symmetric] off_def [symmetric] eq bit_or_iff h1 h2 h3
    using h4 b by (cases "k < w"; cases "k < off + w - 64") (simp_all only:, auto)
qed

section \<open>Parsing and reading\<close>

text \<open>
  A well-formed view: whole words, a control word after the data, and the elements of
  the view inside the data. The width is positive: with width 0 the data is empty and
  \<open>entry\<close> has no second word to read.
\<close>

definition la_wf :: "LogArray \<Rightarrow> bool" where
  "la_wf a \<longleftrightarrow> (la_len a \<noteq> 0 \<longrightarrow> 0 < unat (la_width a)) \<and> unat (la_width a) \<le> 64 \<and>
    unat (la_first a) + unat (la_len a) < 2 ^ 32 \<and> 8 dvd length (la_input_buf a) \<and>
    unat (la_width a) * (unat (la_first a) + unat (la_len a)) + 64 \<le> 8 * length (la_input_buf a)"

definition la_elem :: "LogArray \<Rightarrow> nat \<Rightarrow> u64" where
  "la_elem a i = bits_val (take (unat (la_width a))
    (drop (unat (la_width a) * (unat (la_first a) + i)) (buf_bits (la_input_buf a))))"

definition la_elems :: "LogArray \<Rightarrow> u64 list" where
  "la_elems a = map (la_elem a) [0..<unat (la_len a)]"

lemma length_la_elems [simp]: "length (la_elems a) = unat (la_len a)"
  by (simp add: la_elems_def)

lemma nth_la_elems: "i < unat (la_len a) \<Longrightarrow> la_elems a ! i = la_elem a i"
  by (simp add: la_elems_def)

lemma take_drop_words:
  fixes B :: "bool list"
  assumes "w \<le> 64" "b mod 64 = off" "64 * (b div 64) + 128 \<le> length B"
  shows "take w (drop off (take 64 (drop (64 * (b div 64)) B) @ take 64 (drop (64 * (b div 64) + 64) B))) =
    take w (drop b B)"
proof -
  let ?q = "64 * (b div 64)"
  have off: "off < 64" "?q + off = b" using assms(2) by auto
  have "take 64 (drop ?q B) @ take 64 (drop (?q + 64) B) = take 128 (drop ?q B)"
    using take_add [of 64 64 "drop ?q B"] by (simp add: add.commute)
  moreover have "take w (drop off (take 128 (drop ?q B))) = take w (drop b B)"
    using assms(1) off by (simp add: drop_take add.commute min_def)
  ultimately show ?thesis by simp
qed

context big_endian
begin

lemma LogArray_entry_eq:
  assumes wf: "la_wf a"
  shows "LogArray_entry bo a i = (if i < unat (la_len a) then Some (la_elem a i) else None)"
proof (cases "i < unat (la_len a)")
  case True
  define w b where "w = unat (la_width a)" and "b = w * (unat (la_first a) + i)"
  let ?B = "buf_bits (la_input_buf a)"
  let ?off = "of_nat (b mod 64) :: u8"
  from wf True have w: "0 < w" "w \<le> 64" by (auto simp: la_wf_def w_def)
  have "b + w \<le> w * (unat (la_first a) + unat (la_len a))"
    using True mult_le_mono2 [of "Suc (unat (la_first a) + i)" "unat (la_first a) + unat (la_len a)" w]
    by (simp add: b_def)
  then have lt: "b + 64 < 8 * length (la_input_buf a)" using wf w by (simp add: la_wf_def w_def)
  then have q: "8 * (b div 64) + 16 \<le> length (la_input_buf a)"
  proof -
    from wf obtain n where n: "length (la_input_buf a) = 8 * n" by (auto simp: la_wf_def)
    with lt have "b div 64 + 1 < n" by (simp add: less_mult_imp_div_less)
    with n show ?thesis by simp
  qed
  have off: "unat ?off = b mod 64" by (simp add: unsigned_of_nat take_bit_eq_mod)
  obtain x where x: "be_read_u64 bo (drop (8 * (b div 64)) (la_input_buf a)) = Some x"
    "word_bits x = take 64 (drop (64 * (b div 64)) ?B)"
    using read_u64_bits [of "b div 64" "la_input_buf a"] q by auto
  obtain y where y: "be_read_u64 bo (drop (8 * (b div 64) + 8) (la_input_buf a)) = Some y"
    "word_bits y = take 64 (drop (64 * (b div 64) + 64) ?B)"
    using read_u64_bits [of "b div 64 + 1" "la_input_buf a"] q by (auto simp: add.commute)
  have el: "la_elem a i = bits_val (take w (drop (b mod 64) (word_bits x @ word_bits y)))"
    using take_drop_words [OF w(2) refl, of b ?B] q x(2) y(2) by (simp add: la_elem_def w_def b_def)
  have cond: "?off + la_width a \<le> 64 \<longleftrightarrow> b mod 64 + w \<le> 64"
    using w off by (simp add: word_le_nat_alt unat_add_u8 w_def)
  have lz: "unat (64 - la_width a) = 64 - w"
    using w by (simp add: unat_sub_u8 w_def)
  have "push_bit 3 (drop_bit 6 b) = 8 * (b div 64)" "b AND 63 = b mod 64"
    by (simp_all add: push_bit_eq_mult drop_bit_eq_div and_nat_63)
  then have "LogArray_entry bo a i =
      (if b mod 64 + w \<le> 64 then Some (shr (shl x (b mod 64)) (64 - w))
       else Some (extract_split (la_width a) ?off x y))"
    using True x(1) y(1) q off cond lz
    by (simp add: LogArray_entry_def LogArray_len_def Let_def flip: w_def b_def)
  also have "\<dots> = Some (la_elem a i)"
    using w off el extract_one [of w "b mod 64" x] extract_split_eq [of "la_width a" ?off x y]
    by (auto simp: w_def)
  finally show ?thesis using True by simp
next
  case False
  then show ?thesis by (simp add: LogArray_entry_def LogArray_len_def)
qed

end

section \<open>Building\<close>

definition elems_bits :: "nat \<Rightarrow> u64 list \<Rightarrow> bool list" where
  "elems_bits w vals = concat (map (val_bits w) vals)"

lemma length_elems_bits [simp]: "length (elems_bits w vals) = w * length vals"
  by (induction vals) (simp_all add: elems_bits_def)

lemma elems_bits_snoc [simp]: "elems_bits w (vals @ [v]) = elems_bits w vals @ val_bits w v"
  by (simp add: elems_bits_def)

lemma take_drop_elems_bits:
  "i < length vals \<Longrightarrow> take w (drop (w * i) (elems_bits w vals @ rest)) = val_bits w (vals ! i)"
proof (induction vals arbitrary: i)
  case (Cons v vals)
  then show ?case by (cases i) (simp_all add: elems_bits_def)
qed simp

definition lab_inv :: "LogArrayFileBuilder \<Rightarrow> nat \<Rightarrow> u64 list \<Rightarrow> bool" where
  "lab_inv b w vals \<longleftrightarrow>
    unat (lab_width b) = w \<and> w \<le> 64 \<and> unat (lab_count b) = length vals \<and>
    unat (lab_offset b) = w * length vals mod 64 \<and>
    length (lab_file b) = 8 * (w * length vals div 64) \<and>
    buf_bits (lab_file b) @ word_bits (lab_current b) =
      elems_bits w vals @ replicate (64 - w * length vals mod 64) False"

lemma lab_inv_new: "unat width \<le> 64 \<Longrightarrow> lab_inv (LogArrayFileBuilder_new [] width) (unat width) []"
  by (simp add: lab_inv_def LogArrayFileBuilder_new_def elems_bits_def)

text \<open>The first part of the element goes into the open word behind the bits already there.\<close>

lemma word_bits_or_elem:
  assumes "w \<le> 64" "off < 64" "unat v < 2 ^ w" "drop off (word_bits cur) = replicate (64 - off) False"
  shows "word_bits (cur OR shr (shl v (64 - w)) off) =
    take off (word_bits cur) @ take (64 - off) (val_bits w v @ replicate 64 False)"
proof (rule nth_equalityI)
  show "length (word_bits (cur OR shr (shl v (64 - w)) off)) =
      length (take off (word_bits cur) @ take (64 - off) (val_bits w v @ replicate 64 False))"
    using assms by simp
  fix i assume "i < length (word_bits (cur OR shr (shl v (64 - w)) off))"
  then have i: "i < 64" by simp
  show "word_bits (cur OR shr (shl v (64 - w)) off) ! i =
      (take off (word_bits cur) @ take (64 - off) (val_bits w v @ replicate 64 False)) ! i"
  proof (cases "i < off")
    case True
    then have "\<not> bit (shr (shl v (64 - w)) off) (63 - i)"
      using assms(2) by (auto simp: shr_def bit_simps dest: bit_imp_le_length)
    with True i assms(2) show ?thesis by (simp add: nth_append bit_or_iff)
  next
    case False
    then obtain j where j: "i = off + j" using le_Suc_ex not_less by blast
    have "\<not> bit cur (63 - i)"
    proof -
      have "drop off (word_bits cur) ! j = False" using assms(2,4) i j by simp
      with i j assms(2) show ?thesis by simp
    qed
    moreover have "bit (shr (shl v (64 - w)) off) (63 - i) = (val_bits w v @ replicate 64 False) ! j"
    proof (cases "w = 0")
      case True
      with assms(3) show ?thesis using i j by (simp add: shr_def shl_def unat_eq_zero)
    next
      case False
      with assms(1,2) i j show ?thesis
        by (auto simp: shr_def shl_def bit_simps nth_append)
    qed
    moreover have "j < 64 - off" using i j by simp
    ultimately show ?thesis using i j assms(2) by (simp add: nth_append bit_or_iff)
  qed
qed

text \<open>What did not fit goes to the front of the next word.\<close>

lemma word_bits_rest_elem:
  assumes "w \<le> 64" "off < 64" "64 \<le> off + w"
  shows "word_bits (if off + w - 64 = 0 then 0 else shl v (64 - (off + w - 64))) =
    drop (64 - off) (val_bits w v) @ replicate (64 - (off + w - 64)) False"
proof (cases "off + w = 64")
  case True
  with assms show ?thesis by simp
next
  case False
  with assms show ?thesis
    by (intro nth_equalityI) (auto simp: shl_def bit_simps nth_append add.commute [of off])
qed

lemma lab_push_ok:
  assumes inv: "lab_inv b w vals" and v: "unat v < 2 ^ w" and len: "length vals + 1 < 2 ^ 32"
  shows "\<exists>b'. LogArrayFileBuilder_push b v = Inr b' \<and> lab_inv b' w (vals @ [v])"
proof -
  define n off q where "n = length vals" and "off = w * n mod 64" and "q = w * n div 64"
  from inv have w: "unat (lab_width b) = w" "w \<le> 64" and cnt: "unat (lab_count b) = n"
    and offw: "unat (lab_offset b) = off" and flen: "length (lab_file b) = 8 * q"
    and eq: "buf_bits (lab_file b) @ word_bits (lab_current b) =
      elems_bits w vals @ replicate (64 - off) False"
    by (simp_all add: lab_inv_def n_def off_def q_def)
  have off: "off < 64" "w * n = 64 * q + off" by (simp_all add: off_def q_def)
  have lz: "unat (64 - lab_width b) = 64 - w" using w by (simp add: unat_sub_u8)
  define cur where "cur = lab_current b OR shr (shl v (unat (64 - lab_width b))) (unat (lab_offset b))"
  have pre: "buf_bits (lab_file b) @ take off (word_bits (lab_current b)) = elems_bits w vals"
    using arg_cong [OF eq, of "take (w * n)"] flen off by (simp add: n_def)
  have "drop off (word_bits (lab_current b)) = replicate (64 - off) False"
    using arg_cong [OF eq, of "drop (w * n)"] flen off by (simp add: n_def)
  from word_bits_or_elem [OF w(2) off(1) v this]
  have cur: "word_bits cur = take off (word_bits (lab_current b)) @
      take (64 - off) (val_bits w v @ replicate 64 False)"
    by (simp add: cur_def lz offw)
  have noerr: "\<not> leading_zeros v < unat (64 - lab_width b)"
    using v w by (simp add: lz not_less leading_zeros_ge_iff)
  have cnt': "unat (lab_count b + 1) = n + 1"
    using cnt len by (simp add: unat_word_ariths n_def)
  have offs: "unat (lab_offset b + lab_width b) = off + w"
    using w off offw by (simp add: unat_add_u8)
  have step: "w * (n + 1) = 64 * q + (off + w)" using off by simp
  show ?thesis
  proof (cases "64 \<le> off + w")
    case True
    have dm: "w * (n + 1) mod 64 = off + w - 64" "w * (n + 1) div 64 = q + 1"
      unfolding step using True off w by (simp_all add: mod_nat_eqI div_nat_eqI)
    define off' where "off' = lab_offset b + lab_width b - 64"
    have o': "unat off' = off + w - 64"
      using True offs by (simp add: unat_sub_u8 off'_def)
    define b' where "b' = b\<lparr>lab_count := lab_count b + 1, lab_file := write_u64 (lab_file b) cur,
      lab_offset := off', lab_current := (if off' = 0 then 0 else shl v (unat (64 - off')))\<rparr>"
    have "64 \<le> lab_offset b + lab_width b" using True offs by (simp add: word_le_nat_alt)
    then have push: "LogArrayFileBuilder_push b v = Inr b'"
      using noerr by (simp add: LogArrayFileBuilder_push_def Let_def b'_def cur_def off'_def)
    have "unat (64 - off') = 64 - (off + w - 64)"
      using o' off w by (subst unat_sub_u8) simp_all
    moreover have "off' = 0 \<longleftrightarrow> off + w - 64 = 0"
      using o' by (metis unsigned_eq_0_iff)
    moreover have "lab_current b' = (if off' = 0 then 0 else shl v (unat (64 - off')))"
      by (simp add: b'_def)
    ultimately have "lab_current b' =
        (if off + w - 64 = 0 then 0 else shl v (64 - (off + w - 64)))"
      by (simp only:)
    then have "word_bits (lab_current b') =
        drop (64 - off) (val_bits w v) @ replicate (64 - (off + w - 64)) False"
      using word_bits_rest_elem [OF w(2) off(1) True, of v] by simp
    moreover have "buf_bits (lab_file b') =
        elems_bits w vals @ take (64 - off) (val_bits w v)"
      using True pre cur by (simp add: b'_def write_u64_def flip: append_assoc)
    ultimately have "buf_bits (lab_file b') @ word_bits (lab_current b') =
        elems_bits w (vals @ [v]) @ replicate (64 - (off + w - 64)) False"
      by (metis append_assoc append_take_drop_id elems_bits_snoc)
    then have "lab_inv b' w (vals @ [v])"
      using w cnt' o' dm flen by (simp add: lab_inv_def b'_def write_u64_def flip: n_def)
    with push show ?thesis by blast
  next
    case False
    have dm: "w * (n + 1) mod 64 = off + w" "w * (n + 1) div 64 = q"
      unfolding step using False by (simp_all add: mod_nat_eqI div_nat_eqI)
    define b' where "b' = b\<lparr>lab_count := lab_count b + 1, lab_current := cur,
      lab_offset := lab_offset b + lab_width b\<rparr>"
    have "\<not> 64 \<le> lab_offset b + lab_width b" using False offs by (simp add: word_le_nat_alt)
    then have push: "LogArrayFileBuilder_push b v = Inr b'"
      using noerr by (simp add: LogArrayFileBuilder_push_def Let_def b'_def cur_def)
    have "take (64 - off) (val_bits w v @ replicate 64 False) =
        val_bits w v @ replicate (64 - (off + w)) False"
      using False by simp
    with pre w cnt' offs dm flen have "lab_inv b' w (vals @ [v])"
      by (simp add: lab_inv_def b'_def cur flip: n_def append_assoc)
    with push show ?thesis by blast
  qed
qed

lemma lab_push_too_large:
  assumes "lab_inv b w vals" and "2 ^ w \<le> unat v"
  shows "LogArrayFileBuilder_push b v = Inl InvalidData"
proof -
  from assms(1) have w: "unat (lab_width b) = w" "w \<le> 64" by (simp_all add: lab_inv_def)
  then have "unat (64 - lab_width b) = 64 - w" by (simp add: unat_sub_u8)
  with assms(2) w leading_zeros_ge_iff [of w v] show ?thesis
    by (simp add: LogArrayFileBuilder_push_def Let_def)
qed

lemma lab_push_vec:
  assumes "lab_inv b w vals" and "length vals + length vs < 2 ^ 32" and "\<forall>v\<in>set vs. unat v < 2 ^ w"
  shows "\<exists>b'. LogArrayFileBuilder_push_vec b vs = Inr b' \<and> lab_inv b' w (vals @ vs)"
  using assms
proof (induction vs arbitrary: b vals)
  case Nil
  then show ?case by simp
next
  case (Cons v vs)
  then obtain b' where b': "LogArrayFileBuilder_push b v = Inr b'" "lab_inv b' w (vals @ [v])"
    using lab_push_ok [of b w vals v] by auto
  with Cons.IH [OF b'(2)] Cons.prems show ?case by simp
qed

lemma LogArrayFileBuilder_push_all_Inr [simp]:
  "LogArrayFileBuilder_push_all b (map Inr vs) = LogArrayFileBuilder_push_vec b vs"
  by (induction vs arbitrary: b) (simp_all split: sum.split)

text \<open>The file of a sequence of elements: their bits, padded to whole words.\<close>

definition elems_data :: "nat \<Rightarrow> u64 list \<Rightarrow> bytes \<Rightarrow> bool" where
  "elems_data w vals data \<longleftrightarrow>
    length data = 8 * ((w * length vals + 63) div 64) \<and>
    (\<exists>pad. buf_bits data = elems_bits w vals @ pad)"

definition control_word :: "u32 \<Rightarrow> u8 \<Rightarrow> bytes" where
  "control_word len width = to_be_bytes32 len @ [width, 0, 0, 0]"

lemma length_control_word [simp]: "length (control_word len width) = 8"
  by (simp add: control_word_def)

lemma lab_finalize_data:
  assumes inv: "lab_inv b w vals" and len: "length vals < 2 ^ 32"
  shows "elems_data w vals (LogArrayFileBuilder_finalize_data b)"
proof -
  let ?n = "w * length vals"
  from inv have w: "unat (lab_width b) = w" "w \<le> 64" and cnt: "unat (lab_count b) = length vals"
    and flen: "length (lab_file b) = 8 * (?n div 64)"
    and eq: "buf_bits (lab_file b) @ word_bits (lab_current b) =
      elems_bits w vals @ replicate (64 - ?n mod 64) False"
    by (simp_all add: lab_inv_def)
  have "unat ((ucast (lab_count b) :: u64) * ucast (lab_width b)) = ?n"
  proof -
    have "unat (ucast (lab_count b) :: u64) = length vals"
      using cnt len by (simp add: unsigned_ucast_eq take_bit_nat_eq_self)
    moreover have "length vals * w < 2 ^ 64"
    proof -
      have "length vals * w \<le> 2 ^ 32 * 64" using w(2) len by (intro mult_le_mono) simp_all
      then show ?thesis by (rule le_less_trans) simp
    qed
    ultimately show ?thesis using w(1) by (simp add: unat_word_ariths mult.commute)
  qed
  then have cond: "((ucast (lab_count b) :: u64) * ucast (lab_width b)) AND 0x3f = 0 \<longleftrightarrow> ?n mod 64 = 0"
    by (simp add: and_63_eq_0)
  show ?thesis
  proof (cases "?n mod 64 = 0")
    case True
    then have "LogArrayFileBuilder_finalize_data b = lab_file b"
      using cond by (simp add: LogArrayFileBuilder_finalize_data_def)
    moreover have "buf_bits (lab_file b) = elems_bits w vals"
      using arg_cong [OF eq, of "take ?n"] flen True by auto
    ultimately show ?thesis using True flen by (simp add: elems_data_def words_ceil)
  next
    case False
    then have "LogArrayFileBuilder_finalize_data b = write_u64 (lab_file b) (lab_current b)"
      using cond by (simp add: LogArrayFileBuilder_finalize_data_def)
    with False flen eq show ?thesis by (simp add: elems_data_def words_ceil write_u64_def)
  qed
qed

lemma unat_expected_logarray_size:
  fixes len :: u32 and width :: u8
  assumes "unat width \<le> 64"
  shows "unat (shl (shr ((ucast len :: u64) * ucast width + 127) 6) 3) =
    8 * ((unat width * unat len + 63) div 64) + 8"
proof -
  define n where "n = unat width * unat len"
  have "unat len < 2 ^ 32" using unsigned_less [of len, where 'a = nat] by simp
  then have "n \<le> 64 * 2 ^ 32" unfolding n_def using assms by (intro mult_le_mono) simp_all
  then have n: "n + 127 < 2 ^ 40" by simp
  have "unat (ucast len :: u64) = unat len"
    using \<open>unat len < 2 ^ 32\<close> by (simp add: unsigned_ucast_eq take_bit_nat_eq_self)
  then have "unat ((ucast len :: u64) * ucast width + 127) = n + 127"
    using n by (simp add: unat_word_ariths n_def mult.commute)
  then have "unat (shr ((ucast len :: u64) * ucast width + 127) 6) = (n + 127) div 64"
    by (simp add: shr_def drop_bit_eq_div unat_div)
  moreover have "(n + 127) div 64 < 2 ^ 40" using n by simp
  ultimately have "unat (shl (shr ((ucast len :: u64) * ucast width + 127) 6) 3) = 8 * ((n + 127) div 64)"
    by (simp add: shl_def push_bit_eq_mult unat_word_ariths)
  moreover have "(n + 127) div 64 = (n + 63) div 64 + 1"
    using div_add_self2 [of 64 "n + 63"] by (simp add: add.assoc)
  ultimately show ?thesis by (simp add: n_def)
qed

section \<open>Reading a file back\<close>

lemma LogArray_slice_eq:
  assumes wf: "la_wf a"
  shows "LogArray_slice a off len =
    (if off + len \<le> unat (la_len a)
     then Some (a\<lparr>la_first := la_first a + of_nat off, la_len := of_nat len\<rparr>) else None)"
proof -
  have lt: "unat (la_len a) < 2 ^ 32" using unsigned_less [of "la_len a", where 'a = nat] by simp
  have "(of_nat (off + len) :: u32) \<le> la_len a \<longleftrightarrow> off + len \<le> unat (la_len a)"
    if "off + len < 2 ^ 32"
    using that by (simp add: word_le_nat_alt unsigned_of_nat take_bit_nat_eq_self del: of_nat_add)
  then show ?thesis
    using lt by (cases "off + len < 2 ^ 32") (auto simp: LogArray_slice_def rust_assert_def)
qed

lemma la_slice:
  assumes wf: "la_wf a" and le: "off + len \<le> unat (la_len a)"
  defines "a' \<equiv> a\<lparr>la_first := la_first a + of_nat off, la_len := of_nat len\<rparr>"
  shows "la_wf a'" "la_elems a' = take len (drop off (la_elems a))" "unat (la_len a') = len"
proof -
  from wf have b: "unat (la_first a) + unat (la_len a) < 2 ^ 32" by (simp add: la_wf_def)
  have o: "unat (of_nat off :: u32) = off" "unat (of_nat len :: u32) = len"
    using b le by (simp_all add: unsigned_of_nat take_bit_nat_eq_self)
  have f: "unat (la_first a + of_nat off) = unat (la_first a) + off"
    using b le o by (simp add: unat_word_ariths)
  show l: "unat (la_len a') = len" by (simp add: a'_def o)
  have "unat (la_width a) * (unat (la_first a) + off + len) \<le>
      unat (la_width a) * (unat (la_first a) + unat (la_len a))"
    using le by (intro mult_le_mono2) simp
  then have "unat (la_width a) * (unat (la_first a) + off + len) + 64 \<le> 8 * length (la_input_buf a)"
    using wf unfolding la_wf_def by linarith
  moreover have "0 < unat (la_width a)" if "(of_nat len :: u32) \<noteq> 0"
    using that wf le by (cases "len = 0") (auto simp: la_wf_def)
  ultimately show "la_wf a'" using wf le by (simp add: la_wf_def a'_def f o)
  have "la_elem a' i = la_elem a (off + i)" for i
    by (simp add: la_elem_def a'_def f add.assoc)
  then show "la_elems a' = take len (drop off (la_elems a))"
    using le l by (intro nth_equalityI) (simp_all add: nth_la_elems)
qed

context big_endian
begin

lemma LogArray_finalize_eq:
  "LogArrayFileBuilder_finalize bo b =
    Some (LogArrayFileBuilder_finalize_data b @ control_word (lab_count b) (lab_width b))"
  by (simp add: LogArrayFileBuilder_finalize_def write_u32 control_word_def list_update_append
      numeral_eq_Suc)

lemma LogArray_parse_eq:
  assumes "length buf < 2 ^ 64"
  shows "LogArray_parse bo buf = Some
    (if length buf < 8 then Inl (InputBufferTooSmall (length buf))
     else let c = drop (length buf - 8) buf; len = from_be_bytes (take 4 c); width = c ! 4 in
       if 64 < width then Inl (WidthTooLarge width)
       else if length buf = 8 * ((unat width * unat len + 63) div 64) + 8
       then Inr \<lparr>la_first = 0, la_len = len, la_width = width, la_input_buf = buf\<rparr>
       else Inl (UnexpectedInputBufferSize (of_nat (length buf))
         (shl (shr ((ucast len :: u64) * ucast width + 127) 6) 3) len width))"
proof -
  have "of_nat (length buf) = shl (shr ((ucast len :: u64) * ucast width + 127) 6) 3 \<longleftrightarrow>
      length buf = 8 * ((unat width * unat len + 63) div 64) + 8"
    if "\<not> 64 < width" for len :: u32 and width :: u8
  proof -
    from that have w: "unat width \<le> 64" by (simp add: word_less_nat_alt)
    have "of_nat (length buf) = shl (shr ((ucast len :: u64) * ucast width + 127) 6) 3 \<longleftrightarrow>
        unat (of_nat (length buf) :: u64) = unat (shl (shr ((ucast len :: u64) * ucast width + 127) 6) 3)"
      by (simp only: word_unat_eq_iff)
    then show ?thesis
      using assms by (simp only: unat_of_nat_u64 unat_expected_logarray_size [OF w])
  qed
  then show ?thesis
    by (auto simp: LogArray_parse_def LogArrayError_validate_input_buf_size_def Let_def read_u32
        LogArray_read_control_word_def LogArrayError_validate_len_and_width_def
        simp del: word_not_simps)
qed

lemma la_elem_data:
  assumes "elems_data w vals (take n buf)" "i < length vals" "unat (vals ! i) < 2 ^ w" "w \<le> 64"
    and "unat (la_width a) = w" "la_first a = 0" "la_input_buf a = buf"
  shows "la_elem a i = vals ! i"
proof -
  from assms(1) obtain pad where "buf_bits (take n buf) = elems_bits w vals @ pad"
    by (auto simp: elems_data_def)
  then have "buf_bits buf = elems_bits w vals @ pad @ buf_bits (drop n buf)"
    by (metis append_assoc append_take_drop_id buf_bits_append)
  then have "take w (drop (w * i) (buf_bits buf)) = val_bits w (vals ! i)"
    by (simp only: take_drop_elems_bits [OF assms(2)])
  with assms show ?thesis by (simp add: la_elem_def bits_val_val_bits)
qed

lemma LogArray_parse_data:
  assumes data: "elems_data (unat width) vals data" and w: "unat width \<le> 64"
    and len: "length vals < 2 ^ 32"
  defines "a \<equiv> \<lparr>la_first = 0, la_len = of_nat (length vals), la_width = width,
    la_input_buf = data @ control_word (of_nat (length vals)) width\<rparr>"
  shows "LogArray_parse bo (data @ control_word (of_nat (length vals)) width) = Some (Inr a)"
    and "unat (la_len a) = length vals"
    and "0 < unat width \<or> vals = [] \<Longrightarrow> la_wf a"
    and "\<forall>v\<in>set vals. unat v < 2 ^ unat width \<Longrightarrow> la_elems a = vals"
proof -
  let ?f = "data @ control_word (of_nat (length vals)) width"
  have n: "unat (of_nat (length vals) :: u32) = length vals"
    using len by (simp add: unsigned_of_nat take_bit_nat_eq_self)
  have dl: "length data = 8 * ((unat width * length vals + 63) div 64)"
    using data by (simp add: elems_data_def)
  have "unat width * length vals \<le> 64 * 2 ^ 32" using w len by (intro mult_le_mono) simp_all
  with dl have fl: "length ?f < 2 ^ 64" by simp
  have "take 4 (control_word (of_nat (length vals)) width) = to_be_bytes32 (of_nat (length vals))"
    "control_word (of_nat (length vals)) width ! 4 = width"
    by (simp_all add: control_word_def nth_append)
  moreover have "\<not> 64 < width" using w by (simp add: word_less_nat_alt)
  ultimately show "LogArray_parse bo ?f = Some (Inr a)"
    using fl dl n by (simp add: LogArray_parse_eq Let_def a_def)
  show al: "unat (la_len a) = length vals" using n by (simp add: a_def)
  show "la_wf a" if "0 < unat width \<or> vals = []"
    using that w dl len n by (auto simp: la_wf_def a_def)
  show "la_elems a = vals" if v: "\<forall>v\<in>set vals. unat v < 2 ^ unat width"
  proof (rule nth_equalityI)
    show "length (la_elems a) = length vals" by (simp add: al)
    fix i assume "i < length (la_elems a)"
    then have "i < length vals" by (simp add: al)
    then have "la_elem a i = vals ! i"
      using v w data by (intro la_elem_data [of "unat width" vals "length data" ?f]) (simp_all add: a_def)
    with \<open>i < length vals\<close> al show "la_elems a ! i = vals ! i" by (simp add: nth_la_elems)
  qed
qed

lemma LogArray_build:
  assumes w: "unat width \<le> 64" and len: "length vals < 2 ^ 32"
    and v: "\<forall>v\<in>set vals. unat v < 2 ^ unat width"
  obtains b data where
    "LogArrayFileBuilder_push_vec (LogArrayFileBuilder_new [] width) vals = Inr b"
    "LogArrayFileBuilder_finalize bo b = Some (data @ control_word (of_nat (length vals)) width)"
    "elems_data (unat width) vals data"
    "lab_count b = of_nat (length vals)"
proof -
  from lab_push_vec [OF lab_inv_new [OF w], of vals] len v obtain b where
    b: "LogArrayFileBuilder_push_vec (LogArrayFileBuilder_new [] width) vals = Inr b"
      "lab_inv b (unat width) vals" by auto
  then have "lab_count b = of_nat (length vals)" "lab_width b = width"
    by (auto simp: lab_inv_def intro: word_of_nat_eqI) (simp add: word_unat_eq_iff)
  with b lab_finalize_data [OF b(2) len] show ?thesis
    by (intro that) (simp_all add: LogArray_finalize_eq)
qed

lemma lab_finalize_parse:
  assumes inv: "lab_inv b w vals" and w: "0 < w \<or> vals = []" and len: "length vals < 2 ^ 32"
    and v: "\<forall>v\<in>set vals. unat v < 2 ^ w"
  obtains f a where "LogArrayFileBuilder_finalize bo b = Some f" "LogArray_parse bo f = Some (Inr a)"
    "la_wf a" "la_elems a = vals" "unat (la_len a) = length vals" "unat (la_width a) = w"
proof -
  from inv have w': "unat (lab_width b) = w" "w \<le> 64" and "lab_count b = of_nat (length vals)"
    by (auto simp: lab_inv_def intro: word_of_nat_eqI)
  then have fin: "LogArrayFileBuilder_finalize bo b = Some (LogArrayFileBuilder_finalize_data b @
      control_word (of_nat (length vals)) (lab_width b))"
    by (simp add: LogArray_finalize_eq)
  from lab_finalize_data [OF inv len] w' have
    "elems_data (unat (lab_width b)) vals (LogArrayFileBuilder_finalize_data b)" by simp
  note parse = LogArray_parse_data [OF this]
  show ?thesis
    by (rule that [OF fin parse(1) parse(3) parse(4) parse(2)]) (use w w' len v in auto)
qed

section \<open>Streaming\<close>

lemma decode_elem:
  assumes w: "unat (lad_width d) = w" "0 < w" "w \<le> 64" and off: "unat (lad_offset d) \<le> 64"
    and bs: "8 dvd length bs" and r: "lad_remaining d \<noteq> 0" and v: "unat v < 2 ^ w"
    and eq: "drop (unat (lad_offset d)) (word_bits (lad_current d)) @ buf_bits bs = val_bits w v @ rest"
  shows "\<exists>d' bs'. LogArrayDecoder_decode bo d bs = Some (d', bs', Some v) \<and>
    lad_width d' = lad_width d \<and> unat (lad_offset d') \<le> 64 \<and> 8 dvd length bs' \<and>
    lad_remaining d' = lad_remaining d - 1 \<and>
    drop (unat (lad_offset d')) (word_bits (lad_current d')) @ buf_bits bs' = rest"
proof -
  define off x where "off = unat (lad_offset d)" and "x = lad_current d"
  note eq = eq [folded off_def x_def]
  have o64: "off \<le> 64" using assms(4) by (simp add: off_def)
  have lz: "unat (64 - lad_width d) = 64 - w" using w by (simp add: unat_sub_u8)
  have sum: "unat (lad_offset d + lad_width d) = off + w"
    using w o64 by (simp add: unat_add_u8 off_def)
  have val: "bits_val (val_bits w v) = v" using v w by (intro bits_val_val_bits)
  show ?thesis
  proof (cases "off + w \<le> 64")
    case True
    let ?d = "d\<lparr>lad_offset := lad_offset d + lad_width d, lad_remaining := lad_remaining d - 1\<rparr>"
    have "take w (drop off (word_bits x)) = val_bits w v"
      using arg_cong [OF eq, of "take w"] True by simp
    with extract_one [OF w(2) True, of x] have "shr (shl x off) (64 - w) = v"
      by (simp add: val)
    then have "LogArrayDecoder_decode bo d bs = Some (?d, bs, Some v)"
      using r True sum lz
      by (simp add: LogArrayDecoder_decode_def Let_def word_le_nat_alt off_def x_def)
    moreover have "drop (off + w) (word_bits x) @ buf_bits bs = rest"
      using arg_cong [OF eq, of "drop w"] True by (simp add: add.commute)
    ultimately show ?thesis using True sum bs by (simp add: x_def)
  next
    case False
    then have nle: "\<not> lad_offset d + lad_width d \<le> 64" using sum by (simp add: word_le_nat_alt)
    have "64 - off + 8 * length bs \<ge> w"
      using arg_cong [OF eq, of length] by simp
    with False have "length bs \<noteq> 0" using w by auto
    with bs have len: "8 \<le> length bs" by (auto intro: dvd_imp_le)
    define y where "y = (from_be_bytes (take 8 bs) :: u64)"
    have rd: "be_read_u64 bo (take 8 bs) = Some y" using len by (simp add: read_u64 y_def)
    have y: "word_bits y @ buf_bits (drop 8 bs) = buf_bits bs"
      using len by (simp add: y_def word_bits_from_be_bytes flip: buf_bits_append)
    have dvd: "8 dvd length (drop 8 bs)" using bs len by (simp add: dvd_diff_nat)
    have split: "take w (drop off (word_bits x @ word_bits y)) = val_bits w v"
      "drop w (drop off (word_bits x @ word_bits y)) @ buf_bits (drop 8 bs) = rest"
      using arg_cong [OF eq, of "take w"] arg_cong [OF eq, of "drop w"] False w o64
      by (simp_all flip: y)
    show ?thesis
    proof (cases "off = 64")
      case True
      let ?d = "d\<lparr>lad_current := y, lad_remaining := lad_remaining d - 1, lad_offset := lad_width d\<rparr>"
      have o: "lad_offset d = 64" using True by (simp add: off_def word_unat_eq_iff)
      have "shr y (64 - w) = v"
        using extract_one [of w 0 y] w split(1) True by (simp add: shl_def val)
      then have "LogArrayDecoder_decode bo d bs = Some (?d, drop 8 bs, Some v)"
        using r nle len rd lz o by (simp add: LogArrayDecoder_decode_def Let_def)
      with split(2) True w dvd show ?thesis by simp
    next
      case o: False
      let ?off' = "lad_width d - (64 - lad_offset d)"
      let ?d = "d\<lparr>lad_current := y, lad_remaining := lad_remaining d - 1, lad_offset := ?off'\<rparr>"
      have "unat (64 - lad_offset d) = 64 - off" using o64 by (simp add: unat_sub_u8 off_def)
      then have off': "unat ?off' = off + w - 64"
        using False w o64 by (subst unat_sub_u8) simp_all
      have "extract_split (lad_width d) (lad_offset d) x y = v"
        using extract_split_eq [of "lad_width d" "lad_offset d" x y] w False o o64 split(1)
        by (simp add: val off_def)
      moreover have "lad_offset d \<noteq> 64" using o by (auto simp: off_def)
      ultimately have "LogArrayDecoder_decode bo d bs = Some (?d, drop 8 bs, Some v)"
        using r nle len rd by (simp add: LogArrayDecoder_decode_def Let_def x_def)
      moreover have "drop (off + w - 64) (word_bits y) @ buf_bits (drop 8 bs) = rest"
        using split(2) False o o64 by (simp add: add.commute)
      ultimately show ?thesis using off' w o64 dvd by simp
    qed
  qed
qed

lemma decode_entries_elems:
  assumes "unat (lad_width d) = w" "0 < w" "w \<le> 64" "unat (lad_offset d) \<le> 64" "8 dvd length bs"
    and "unat (lad_remaining d) = length vals" and "\<forall>v\<in>set vals. unat v < 2 ^ w"
    and "drop (unat (lad_offset d)) (word_bits (lad_current d)) @ buf_bits bs = elems_bits w vals @ rest"
  shows "decode_entries bo d bs = Some (vals, [])"
  using assms
proof (induction vals arbitrary: d bs)
  case Nil
  then have "lad_remaining d = 0" by (simp add: unsigned_eq_0_iff)
  then show ?case by (simp add: decode_entries.simps [of _ d] LogArrayDecoder_decode_def)
next
  case (Cons v vals)
  have "elems_bits w (v # vals) @ rest = val_bits w v @ elems_bits w vals @ rest"
    by (simp add: elems_bits_def)
  moreover have "lad_remaining d \<noteq> 0" using Cons.prems(6) by auto
  ultimately obtain d' bs' where d': "LogArrayDecoder_decode bo d bs = Some (d', bs', Some v)"
    "lad_width d' = lad_width d" "unat (lad_offset d') \<le> 64" "8 dvd length bs'"
    "lad_remaining d' = lad_remaining d - 1"
    "drop (unat (lad_offset d')) (word_bits (lad_current d')) @ buf_bits bs' = elems_bits w vals @ rest"
    using Cons.prems decode_elem [of d w bs v "elems_bits w vals @ rest"] by auto
  have rem: "unat (lad_remaining d - 1) = length vals" "lad_remaining d - 1 < lad_remaining d"
    using Cons.prems(6) by (simp_all add: unat_pred)
  then have "decode_entries bo d' bs' = Some (vals, [])"
    using Cons.prems d' by (intro Cons.IH) simp_all
  with d' rem show ?case by (simp add: decode_entries.simps [of _ d])
qed

text \<open>With width 0 every element is 0 and the decoder needs no data.\<close>

lemma decode_entries_zero:
  assumes "lad_width d = 0" "lad_offset d = 64" "lad_current d = 0"
    and "unat (lad_remaining d) = length vals" and "\<forall>v\<in>set vals. v = 0"
  shows "decode_entries bo d bs = Some (vals, [])"
  using assms
proof (induction vals arbitrary: d)
  case Nil
  then have "lad_remaining d = 0" by (simp add: unsigned_eq_0_iff)
  then show ?case by (simp add: decode_entries.simps [of _ d] LogArrayDecoder_decode_def)
next
  case (Cons v vals)
  let ?d = "d\<lparr>lad_remaining := lad_remaining d - 1\<rparr>"
  have nz: "lad_remaining d \<noteq> 0" using Cons.prems(4) by auto
  have rem: "unat (lad_remaining d - 1) = length vals" "lad_remaining d - 1 < lad_remaining d"
    using Cons.prems(4) by (simp_all add: unat_pred)
  have "LogArrayDecoder_decode bo d bs = Some (?d, bs, Some 0)"
    using Cons.prems nz by (simp add: LogArrayDecoder_decode_def Let_def shl_def shr_def)
  moreover have "decode_entries bo ?d bs = Some (vals, [])"
    using Cons.prems rem by (intro Cons.IH) simp_all
  ultimately show ?case using Cons.prems(5) rem by (simp add: decode_entries.simps [of _ d])
qed

lemma logarray_length_and_width_eq:
  "logarray_file_get_length_and_width bo f =
    map_option (\<lambda>r. case r of Inl e \<Rightarrow> Inl (LogArrayError_to_io e)
                 | Inr a \<Rightarrow> Inr (la_len a, la_width a)) (LogArray_parse bo f)"
proof (cases "length f < 8")
  case True
  then show ?thesis
    by (simp add: logarray_file_get_length_and_width_def LogArray_parse_def
        LogArrayError_validate_input_buf_size_def)
next
  case False
  then show ?thesis
    by (cases "LogArray_read_control_word bo (drop (length f - 8) f) (length f)")
      (simp_all add: logarray_file_get_length_and_width_def LogArray_parse_def Let_def
        LogArrayError_validate_input_buf_size_def split: sum.split prod.split)
qed

lemma logarray_stream_data:
  assumes framed: "framed_entries_ok bo framed" and data: "elems_data (unat width) vals data"
    and w: "unat width \<le> 64" and len: "length vals < 2 ^ 32"
    and v: "\<forall>v\<in>set vals. unat v < 2 ^ unat width"
  shows "logarray_stream_entries bo framed (data @ control_word (of_nat (length vals)) width) =
    Some (Inr (map Inr vals))"
proof -
  let ?f = "data @ control_word (of_nat (length vals)) width"
  let ?d = "LogArrayDecoder_new_unchecked width (of_nat (length vals))"
  have rem: "unat (lad_remaining ?d) = length vals"
    using len by (simp add: LogArrayDecoder_new_unchecked_def unsigned_of_nat take_bit_nat_eq_self)
  from data obtain pad where pad: "buf_bits data = elems_bits (unat width) vals @ pad"
    by (auto simp: elems_data_def)
  have "decode_entries bo ?d ?f = Some (vals, [])"
  proof (cases "unat width = 0")
    case True
    with v have "\<forall>v\<in>set vals. v = 0" by (simp add: unsigned_eq_0_iff)
    moreover from True have "width = 0" by (simp add: unsigned_eq_0_iff)
    ultimately show ?thesis
      using rem by (intro decode_entries_zero) (simp_all add: LogArrayDecoder_new_unchecked_def)
  next
    case False
    then show ?thesis
      using w v rem data pad
      by (intro decode_entries_elems [where w = "unat width"
            and rest = "pad @ buf_bits (control_word (of_nat (length vals)) width)"])
        (simp_all add: LogArrayDecoder_new_unchecked_def elems_data_def)
  qed
  then have "framed ?d ?f = map Inr vals" using framed by (simp add: framed_entries_ok_def)
  then show ?thesis
    using LogArray_parse_data(1) [OF data w len]
    by (simp add: logarray_stream_entries_def logarray_length_and_width_eq)
qed

section \<open>Slices and binary search\<close>

lemma nearest_index_loop_spec:
  assumes wf: "la_wf a" and srt: "sorted (la_elems a)"
    and "hi < unat (la_len a)" "lo \<le> hi + 1"
    and "\<forall>i<lo. la_elems a ! i < e" "\<forall>i. hi < i \<and> i < unat (la_len a) \<longrightarrow> e < la_elems a ! i"
  shows "\<exists>r. nearest_index_loop bo a e lo hi = Some r \<and>
    (r < unat (la_len a) \<and> la_elems a ! r = e \<or>
     r \<le> unat (la_len a) \<and> (\<forall>i<r. la_elems a ! i < e) \<and>
     (\<forall>i. r \<le> i \<and> i < unat (la_len a) \<longrightarrow> e < la_elems a ! i))"
  using assms(3-)
proof (induction "Suc hi - lo" arbitrary: lo hi rule: less_induct)
  case less
  let ?n = "unat (la_len a)" and ?x = "\<lambda>i. la_elems a ! i"
  show ?case
  proof (cases "lo \<le> hi")
    case False
    with less.prems have lo: "lo = hi + 1" by simp
    then have "nearest_index_loop bo a e lo hi = Some lo"
      by (subst nearest_index_loop.simps) simp
    with less.prems lo show ?thesis by auto
  next
    case True
    define mid where "mid = (lo + hi) div 2"
    have mid: "lo \<le> mid" "mid \<le> hi" using True by (auto simp: mid_def)
    have en: "LogArray_entry bo a mid = Some (?x mid)"
      using mid less.prems(1) by (simp add: LogArray_entry_eq [OF wf] nth_la_elems)
    have mono: "?x i \<le> ?x j" if "i \<le> j" "j < ?n" for i j
      using srt that by (intro sorted_nth_mono) simp_all
    have loop: "nearest_index_loop bo a e lo hi =
      (if e = ?x mid then Some mid
       else if e > ?x mid then nearest_index_loop bo a e (mid + 1) hi
       else if mid = 0 then Some 0
       else nearest_index_loop bo a e lo (mid - 1))"
      using True en by (subst nearest_index_loop.simps) (simp add: mid_def Let_def)
    consider "e = ?x mid" | "?x mid < e" | "e < ?x mid" "mid = 0" | "e < ?x mid" "mid \<noteq> 0"
      using linorder_less_linear [of "?x mid" e] by blast
    then show ?thesis
    proof cases
      case 1
      then show ?thesis using loop mid less.prems(1) by auto
    next
      case 2
      have "?x i < e" if "i < mid + 1" for i
        using mono [of i mid] 2 that mid less.prems(1) by simp
      then have "\<forall>i<mid + 1. ?x i < e" by simp
      moreover have "nearest_index_loop bo a e lo hi = nearest_index_loop bo a e (mid + 1) hi"
        using loop 2 by auto
      ultimately show ?thesis
        using less.hyps [of hi "mid + 1", OF _ less.prems(1) _ _ less.prems(4)] mid by simp
    next
      case 3
      have "e < ?x i" if "i < ?n" for i
        using 3 mono [of 0 i] that by simp
      moreover have "nearest_index_loop bo a e lo hi = Some 0" using loop 3 by auto
      ultimately show ?thesis by simp
    next
      case 4
      have "e < ?x i" if "mid - 1 < i" "i < ?n" for i
      proof -
        have "mid \<le> i" using 4 that by linarith
        with 4 mono [of mid i] that show ?thesis by simp
      qed
      then have hi: "\<forall>i. mid - 1 < i \<and> i < ?n \<longrightarrow> e < ?x i" by simp
      have "Suc (mid - 1) - lo < Suc hi - lo" "mid - 1 < ?n" "lo \<le> mid - 1 + 1"
        using 4 mid less.prems(1) by simp_all
      note IH = less.hyps [OF this less.prems(3) hi]
      have "nearest_index_loop bo a e lo hi = nearest_index_loop bo a e lo (mid - 1)"
        using loop 4 by auto
      with IH show ?thesis by simp
    qed
  qed
qed

lemma nearest_index_of_spec:
  assumes "la_wf a" and "sorted (la_elems a)"
  shows "\<exists>r. MonotonicLogArray_nearest_index_of bo (MonotonicLogArray a) e = Some r \<and>
    (r < unat (la_len a) \<and> la_elems a ! r = e \<or>
     r \<le> unat (la_len a) \<and> (\<forall>i<r. la_elems a ! i < e) \<and>
     (\<forall>i. r \<le> i \<and> i < unat (la_len a) \<longrightarrow> e < la_elems a ! i))"
proof (cases "la_len a = 0")
  case True
  then show ?thesis by (simp add: MonotonicLogArray_nearest_index_of_def LogArray_is_empty_def)
next
  case False
  then have "0 < unat (la_len a)" by (simp add: unat_gt_0)
  moreover from this have "\<forall>i. unat (la_len a) - 1 < i \<and> i < unat (la_len a) \<longrightarrow> e < la_elems a ! i"
    by auto
  ultimately show ?thesis
    using nearest_index_loop_spec [OF assms, of "unat (la_len a) - 1" 0 e] False
    by (simp add: MonotonicLogArray_nearest_index_of_def LogArray_is_empty_def LogArray_len_def)
qed

text \<open>Draining the iterator returns the elements from its position on.\<close>

lemma LogArrayIterator_next_eq:
  assumes "la_wf a" and "pos \<le> unat (la_len a)"
  shows "LogArrayIterator_next bo \<lparr>lai_logarray = a, lai_pos = pos, lai_end = unat (la_len a)\<rparr> =
    Some (if pos = unat (la_len a)
          then (None, \<lparr>lai_logarray = a, lai_pos = pos, lai_end = unat (la_len a)\<rparr>)
          else (Some (la_elems a ! pos),
                \<lparr>lai_logarray = a, lai_pos = pos + 1, lai_end = unat (la_len a)\<rparr>))"
  using assms(2)
  by (simp add: LogArrayIterator_next_def LogArray_entry_eq [OF assms(1)] nth_la_elems)

end

section \<open>Properties\<close>

text \<open>
  C22. Round trip of a log array: for a width of 1 to 64 bits and fewer than \<open>2 ^ 32\<close>
  values that fit it, the builder accepts all of them and writes a file that parses;
  the array has their number and the width, and \<open>entry\<close> returns each value at its
  index, also where a value lies across two words, and panics past the end.
\<close>

theorem LogArray_roundtrip:
  assumes "big_endian bo" and "0 < unat width" "unat width \<le> 64" and "length vals < 2 ^ 32"
    and "\<forall>v\<in>set vals. unat v < 2 ^ unat width"
  shows "\<exists>b file a. LogArrayFileBuilder_push_vec (LogArrayFileBuilder_new [] width) vals = Inr b \<and>
    LogArrayFileBuilder_finalize bo b = Some file \<and> LogArray_parse bo file = Some (Inr a) \<and>
    LogArray_len a = length vals \<and> la_width a = width \<and>
    (\<forall>i. LogArray_entry bo a i = (if i < length vals then Some (vals ! i) else None))"
proof -
  from big_endian.LogArray_build [OF assms(1,3,4,5)] obtain b data where
    b: "LogArrayFileBuilder_push_vec (LogArrayFileBuilder_new [] width) vals = Inr b"
      "LogArrayFileBuilder_finalize bo b = Some (data @ control_word (of_nat (length vals)) width)"
      "elems_data (unat width) vals data" by metis
  note parse = big_endian.LogArray_parse_data [OF assms(1) b(3) assms(3,4)]
  from parse(3) assms(2) have "LogArray_entry bo \<lparr>la_first = 0, la_len = of_nat (length vals),
      la_width = width, la_input_buf = data @ control_word (of_nat (length vals)) width\<rparr> i =
      (if i < length vals then Some (vals ! i) else None)" for i
    using parse(2) parse(4) [OF assms(5)]
    by (simp add: big_endian.LogArray_entry_eq [OF assms(1)] flip: nth_la_elems)
  with b parse(1,2) show ?thesis by (auto simp: LogArray_len_def)
qed

theorem LogArray_roundtrip_witness:
  "\<exists>b file a. LogArrayFileBuilder_push_vec (LogArrayFileBuilder_new [] 5) [21, 1, 30] = Inr b \<and>
    LogArrayFileBuilder_finalize byteorder_std b = Some file \<and>
    LogArray_parse byteorder_std file = Some (Inr a) \<and>
    LogArray_len a = 3 \<and> LogArray_entry byteorder_std a 2 = Some 30 \<and>
    LogArray_entry byteorder_std a 3 = None"
  using LogArray_roundtrip [OF std.big_endian_axioms, of 5 "[21, 1, 30]"] by force

text \<open>
  A value that does not fit the width is refused with an error: after any values
  that the builder accepted, pushing \<open>v\<close> succeeds exactly when \<open>v\<close> is below
  \<open>2 ^ width\<close>.
\<close>

theorem LogArray_push_fits:
  assumes "unat width \<le> 64" and "length vals + 1 < 2 ^ 32" and "\<forall>v\<in>set vals. unat v < 2 ^ unat width"
  shows "\<exists>b. LogArrayFileBuilder_push_vec (LogArrayFileBuilder_new [] width) vals = Inr b \<and>
    (if unat v < 2 ^ unat width then \<exists>b'. LogArrayFileBuilder_push b v = Inr b'
     else LogArrayFileBuilder_push b v = Inl InvalidData)"
proof -
  from lab_push_vec [OF lab_inv_new [OF assms(1)], of vals] assms(2,3) obtain b where
    "LogArrayFileBuilder_push_vec (LogArrayFileBuilder_new [] width) vals = Inr b"
    "lab_inv b (unat width) vals" by auto
  with lab_push_ok [of b "unat width" vals v] lab_push_too_large [of b "unat width" vals v] assms(2)
  show ?thesis by auto
qed

theorem LogArray_push_fits_witness:
  "\<exists>b. LogArrayFileBuilder_push_vec (LogArrayFileBuilder_new [] 3) [7, 0] = Inr b \<and>
    LogArrayFileBuilder_push b 8 = Inl InvalidData"
  using LogArray_push_fits [of 3 "[7, 0]" 8] by simp

text \<open>
  C30. Streaming the file of a log array yields its values in order and no error, for
  every width up to 64, including width 0, where all the values are 0.
\<close>

theorem logarray_stream_roundtrip:
  assumes "big_endian bo" and "framed_entries_ok bo framed" and "unat width \<le> 64"
    and "length vals < 2 ^ 32" and "\<forall>v\<in>set vals. unat v < 2 ^ unat width"
  shows "\<exists>b file. LogArrayFileBuilder_push_vec (LogArrayFileBuilder_new [] width) vals = Inr b \<and>
    LogArrayFileBuilder_finalize bo b = Some file \<and>
    logarray_stream_entries bo framed file = Some (Inr (map Inr vals))"
  using big_endian.LogArray_build [OF assms(1,3,4,5)]
    big_endian.logarray_stream_data [OF assms(1,2) _ assms(3,4,5)] by metis

definition framed_entries_std :: framed_entries where
  "framed_entries_std d f = (case decode_entries byteorder_std d f of
     Some (vs, []) \<Rightarrow> map Inr vs | _ \<Rightarrow> [Inl Other])"

lemma framed_entries_std_ok: "framed_entries_ok byteorder_std framed_entries_std"
  by (simp add: framed_entries_ok_def framed_entries_std_def)

theorem logarray_stream_roundtrip_witness:
  "\<exists>b file. LogArrayFileBuilder_push_vec (LogArrayFileBuilder_new [] 33) [5, 8589934591] = Inr b \<and>
    LogArrayFileBuilder_finalize byteorder_std b = Some file \<and>
    logarray_stream_entries byteorder_std framed_entries_std file =
      Some (Inr (map Inr [5, 8589934591]))"
  by (rule logarray_stream_roundtrip [OF std.big_endian_axioms framed_entries_std_ok]) simp_all

text \<open>
  C31. A slice of a well-formed array is a well-formed array over the same buffer, its
  elements are that part of the elements, and the call panics exactly when the range
  does not lie inside the array. The range may end at the end of the array.
\<close>

theorem LogArray_slice_elems:
  assumes "la_wf a"
  shows "if off + len \<le> LogArray_len a
    then \<exists>s. LogArray_slice a off len = Some s \<and> la_wf s \<and>
      la_elems s = take len (drop off (la_elems a))
    else LogArray_slice a off len = None"
  using LogArray_slice_eq [OF assms, of off len] la_slice [OF assms, of off len]
  by (simp add: LogArray_len_def)

definition example_logarray :: LogArray where
  "example_logarray = \<lparr>la_first = 0, la_len = 3, la_width = 8,
    la_input_buf = [10, 20, 30, 0, 0, 0, 0, 0] @ control_word 3 8\<rparr>"

lemma example_logarray_wf: "la_wf example_logarray"
  by (simp add: la_wf_def example_logarray_def)

theorem LogArray_slice_elems_witness:
  "\<exists>s. LogArray_slice example_logarray 1 2 = Some s \<and> la_wf s \<and>
    la_elems s = take 2 (drop 1 (la_elems example_logarray))"
  using LogArray_slice_elems [OF example_logarray_wf, of 1 2]
  by (simp add: example_logarray_def LogArray_len_def)

text \<open>
  C29. Binary search in a monotonic array: \<open>index_of\<close> always returns, with an index
  where the element is, if the array has it, and with \<open>None\<close> otherwise; for an
  element the array does not have, \<open>nearest_index_of\<close> is the number of smaller elements.
\<close>

theorem MonotonicLogArray_search:
  assumes "big_endian bo" and "la_wf a" and "sorted (la_elems a)"
  shows "(\<exists>r. MonotonicLogArray_index_of bo (MonotonicLogArray a) e = Some r \<and>
      (case r of Some i \<Rightarrow> i < LogArray_len a \<and> la_elems a ! i = e | None \<Rightarrow> e \<notin> set (la_elems a))) \<and>
    (e \<notin> set (la_elems a) \<longrightarrow>
      MonotonicLogArray_nearest_index_of bo (MonotonicLogArray a) e =
        Some (length (filter (\<lambda>x. x < e) (la_elems a))))"
proof -
  let ?x = "la_elems a" and ?n = "unat (la_len a)"
  from big_endian.nearest_index_of_spec [OF assms] obtain r where
    r: "MonotonicLogArray_nearest_index_of bo (MonotonicLogArray a) e = Some r"
    and cases: "r < ?n \<and> ?x ! r = e \<or>
      r \<le> ?n \<and> (\<forall>i<r. ?x ! i < e) \<and> (\<forall>i. r \<le> i \<and> i < ?n \<longrightarrow> e < ?x ! i)" by blast
  have absent: "e \<notin> set ?x \<and> r = length (filter (\<lambda>x. x < e) ?x)"
    if "r \<le> ?n" "\<forall>i<r. ?x ! i < e" "\<forall>i. r \<le> i \<and> i < ?n \<longrightarrow> e < ?x ! i"
  proof -
    have "filter (\<lambda>x. x < e) (take r ?x) = take r ?x" "filter (\<lambda>x. x < e) (drop r ?x) = []"
      using that by (auto simp: filter_id_conv filter_empty_conv in_set_conv_nth)
        (metis add.commute le_add1 less_diff_conv not_less_iff_gr_or_eq)
    then have "filter (\<lambda>x. x < e) ?x = take r ?x"
      by (metis append_Nil2 append_take_drop_id filter_append)
    moreover have "e \<notin> set ?x"
      using that by (metis in_set_conv_nth length_la_elems less_irrefl not_le)
    ultimately show ?thesis using that(1) by simp
  qed
  show ?thesis
  proof (cases "r < ?n \<and> ?x ! r = e")
    case True
    then have "e \<in> set ?x" by (metis length_la_elems nth_mem)
    with True r show ?thesis
      by (simp add: MonotonicLogArray_index_of_def LogArray_len_def
          big_endian.LogArray_entry_eq [OF assms(1,2)] flip: nth_la_elems)
  next
    case False
    with cases absent have abs: "e \<notin> set ?x" "r = length (filter (\<lambda>x. x < e) ?x)" by auto
    have "MonotonicLogArray_index_of bo (MonotonicLogArray a) e = Some None"
      using r False
      by (simp add: MonotonicLogArray_index_of_def LogArray_len_def
          big_endian.LogArray_entry_eq [OF assms(1,2)] flip: nth_la_elems)
    with r abs show ?thesis by simp
  qed
qed

theorem MonotonicLogArray_search_witness:
  "\<exists>r. MonotonicLogArray_index_of byteorder_std (MonotonicLogArray example_logarray) 20 = Some r \<and>
    (case r of Some i \<Rightarrow> i < LogArray_len example_logarray \<and> la_elems example_logarray ! i = 20
     | None \<Rightarrow> 20 \<notin> set (la_elems example_logarray))"
proof -
  have "la_elems example_logarray = [10, 20, 30]"
    by code_simp
  then have "sorted (la_elems example_logarray)" by simp
  from MonotonicLogArray_search [OF std.big_endian_axioms example_logarray_wf this, of 20]
  show ?thesis by blast
qed

end
