(* ===== verification/RankSelect.thy ===== *)
theory RankSelect
  imports Prelude
begin

text \<open>
  Rank and select on a sequence, as a specification: \<open>rank_of b xs n\<close> counts the
  occurrences of \<open>b\<close> among the first \<open>n\<close> elements, \<open>select_of b xs r\<close> is the index of
  the \<open>r\<close>-th occurrence, counted from 1. The locale \<open>rank_select\<close> is the contract
  between an index over a bit sequence and its clients.
\<close>

section \<open>Rank and select on lists\<close>

definition occ :: "'a \<Rightarrow> 'a list \<Rightarrow> nat" where
  "occ b xs = length (filter (\<lambda>x. x = b) xs)"

definition rank_of :: "'a \<Rightarrow> 'a list \<Rightarrow> nat \<Rightarrow> nat" where
  "rank_of b xs n = occ b (take n xs)"

fun select_of :: "'a \<Rightarrow> 'a list \<Rightarrow> nat \<Rightarrow> nat option" where
  "select_of b [] r = None"
| "select_of b (x # xs) r =
    (if x = b then (if r = 1 then Some 0 else map_option Suc (select_of b xs (r - 1)))
     else map_option Suc (select_of b xs r))"

lemma occ_Nil [simp]: "occ b [] = 0"
  by (simp add: occ_def)

lemma occ_Cons [simp]: "occ b (x # xs) = (if x = b then Suc (occ b xs) else occ b xs)"
  by (simp add: occ_def)

lemma occ_append [simp]: "occ b (xs @ ys) = occ b xs + occ b ys"
  by (simp add: occ_def)

lemma occ_replicate [simp]: "occ b (replicate n x) = (if x = b then n else 0)"
  by (simp add: occ_def)

lemma occ_le_length: "occ b xs \<le> length xs"
  by (simp add: occ_def)

lemma occ_complement: "occ True xs + occ False xs = length xs"
  by (induction xs) auto

lemma rank_0 [simp]: "rank_of b xs 0 = 0"
  by (simp add: rank_of_def)

lemma rank_all [simp]: "length xs \<le> n \<Longrightarrow> rank_of b xs n = occ b xs"
  by (simp add: rank_of_def)

lemma rank_le: "rank_of b xs n \<le> n"
  using occ_le_length [of b "take n xs"] by (simp add: rank_of_def)

lemma rank_add: "rank_of b xs (m + n) = rank_of b xs m + rank_of b (drop m xs) n"
  by (simp add: rank_of_def take_add)

lemma rank_mono: "m \<le> n \<Longrightarrow> rank_of b xs m \<le> rank_of b xs n"
  by (metis le_add1 le_add_diff_inverse rank_add)

lemma rank_le_occ: "rank_of b xs n \<le> occ b xs"
  by (metis append_take_drop_id le_add1 occ_append rank_of_def)

lemma rank_Suc: "n < length xs \<Longrightarrow> rank_of b xs (Suc n) = rank_of b xs n + (if xs ! n = b then 1 else 0)"
  by (simp add: rank_of_def take_Suc_conv_app_nth)

lemma rank_append:
  "rank_of b (xs @ ys) n = (if n \<le> length xs then rank_of b xs n else occ b xs + rank_of b ys (n - length xs))"
  by (simp add: rank_of_def)

lemma rank_take: "n \<le> m \<Longrightarrow> rank_of b (take m xs) n = rank_of b xs n"
  by (simp add: rank_of_def min_def)

lemma rank_complement: "n \<le> length xs \<Longrightarrow> rank_of True xs n + rank_of False xs n = n"
  using occ_complement [of "take n xs"] by (simp add: rank_of_def)

lemma select_0 [simp]: "select_of b xs 0 = None"
  by (induction xs) auto

lemma select_Some_iff:
  "select_of b xs r = Some i \<longleftrightarrow> i < length xs \<and> xs ! i = b \<and> rank_of b xs (Suc i) = r"
proof (induction xs arbitrary: r i)
  case Nil
  then show ?case by simp
next
  case (Cons x xs)
  have Suc: "rank_of b (x # xs) (Suc (Suc k)) = (if x = b then 1 else 0) + rank_of b xs (Suc k)" for k
    by (simp add: rank_of_def)
  show ?case
  proof (cases i)
    case 0
    then show ?thesis by (auto simp: rank_of_def)
  next
    case i: (Suc k)
    have "select_of b (x # xs) r = Some i \<longleftrightarrow>
        (if x = b then r \<noteq> 1 \<and> select_of b xs (r - 1) = Some k else select_of b xs r = Some k)"
      using i by auto
    also have "\<dots> \<longleftrightarrow> i < length (x # xs) \<and> (x # xs) ! i = b \<and> rank_of b (x # xs) (Suc i) = r"
      using i Suc [of k] Cons.IH [of "r - 1" k] Cons.IH [of r k] rank_Suc [of k xs b]
      by (cases "r = 0") auto
    finally show ?thesis .
  qed
qed

lemma select_eq_Some: "i < length xs \<Longrightarrow> xs ! i = b \<Longrightarrow> select_of b xs (rank_of b xs (Suc i)) = Some i"
  by (simp add: select_Some_iff)

lemma select_None_iff: "select_of b xs r = None \<longleftrightarrow> r = 0 \<or> occ b xs < r"
proof (induction xs arbitrary: r)
  case (Cons x xs)
  from Cons [of "r - 1"] Cons [of r] show ?case by auto
qed auto

lemma select_SomeD:
  assumes "select_of b xs r = Some k"
  shows "0 < r" "r \<le> occ b xs" "k < length xs"
proof -
  have "select_of b xs r \<noteq> None" using assms by simp
  then show "0 < r" "r \<le> occ b xs" by (auto simp: select_None_iff)
  show "k < length xs" using assms by (simp add: select_Some_iff)
qed

lemma select_beyond: "occ b xs < r \<Longrightarrow> select_of b xs r = None"
  by (simp add: select_None_iff)

lemma select_append:
  "select_of b (xs @ ys) r =
    (if r \<le> occ b xs then select_of b xs r else map_option ((+) (length xs)) (select_of b ys (r - occ b xs)))"
proof (induction xs arbitrary: r)
  case Nil
  have "(+) (0 :: nat) = id" by (simp add: fun_eq_iff)
  then show ?case by (cases r) (simp_all add: option.map_id)
next
  case (Cons x xs)
  have comp: "map_option Suc (map_option ((+) (length xs)) v) = map_option (\<lambda>a. Suc (length xs + a)) v" for v
    by (cases v) simp_all
  show ?case using Cons [of "r - 1"] Cons [of r] comp by (cases r) auto
qed

text \<open>The occurrence lies in the window that starts below the rank_of and ends at or above it.\<close>

lemma select_window:
  assumes "rank_of b xs m < r" "r \<le> rank_of b xs (m + n)"
  shows "select_of b xs r = map_option ((+) m) (select_of b (take n (drop m xs)) (r - rank_of b xs m))"
proof -
  have m: "m < length xs"
    using assms by (metis not_le order.strict_trans2 rank_all rank_le_occ less_irrefl)
  have w: "rank_of b xs (m + n) = rank_of b xs m + occ b (take n (drop m xs))"
    by (simp add: rank_add) (simp add: rank_of_def)
  have xs: "xs = take m xs @ take n (drop m xs) @ drop (m + n) xs"
    by (metis append_take_drop_id take_drop drop_drop add.commute append_assoc take_add)
  have "select_of b xs r = select_of b (take m xs @ take n (drop m xs) @ drop (m + n) xs) r"
    using xs by simp
  also have "\<dots> = map_option ((+) m) (select_of b (take n (drop m xs) @ drop (m + n) xs) (r - rank_of b xs m))"
    using assms(1) m by (simp add: select_append [of b "take m xs"] rank_of_def)
  also have "\<dots> = map_option ((+) m) (select_of b (take n (drop m xs)) (r - rank_of b xs m))"
    using assms w by (simp add: select_append)
  finally show ?thesis .
qed

lemma rank_diff: "m \<le> n \<Longrightarrow> rank_of b xs n - rank_of b xs m = occ b (take (n - m) (drop m xs))"
  using rank_add [of b xs m "n - m"] by (simp add: rank_of_def)

lemma select_from:
  assumes "0 < r" "m \<le> length xs"
  shows "select_of b xs (rank_of b xs m + r) = map_option ((+) m) (select_of b (drop m xs) r)"
  using assms select_append [of b "take m xs" "drop m xs" "rank_of b xs m + r"]
  by (simp add: rank_of_def)

lemma select_take:
  "select_of b (take n xs) r = (case select_of b xs r of Some k \<Rightarrow> if k < n then Some k else None | None \<Rightarrow> None)"
proof -
  have iff: "select_of b (take n xs) r = Some k \<longleftrightarrow> select_of b xs r = Some k \<and> k < n" for k
    by (auto simp: select_Some_iff rank_take)
  show ?thesis
  proof (cases "select_of b (take n xs) r")
    case None
    then have "\<not> (select_of b xs r = Some k \<and> k < n)" for k using iff [of k] by simp
    with None show ?thesis by (auto split: option.split)
  next
    case (Some k)
    with iff [of k] show ?thesis by simp
  qed
qed

section \<open>The contract of an index\<close>

text \<open>
  An index over the bits \<open>bits i\<close> answers rank queries inside them and select queries
  for the ones. A query out of range is outside the contract.
\<close>

locale rank_select =
  fixes valid :: "'i \<Rightarrow> bool" and bits :: "'i \<Rightarrow> bool list"
    and rank1 :: "'i \<Rightarrow> u64 \<Rightarrow> u64 panics" and select1 :: "'i \<Rightarrow> u64 \<Rightarrow> u64 option panics"
  assumes length_bits: "valid i \<Longrightarrow> length (bits i) < 2 ^ 64"
    and rank1_law: "valid i \<Longrightarrow> unat k < length (bits i) \<Longrightarrow>
      rank1 i k = Some (of_nat (rank_of True (bits i) (Suc (unat k))))"
    and select1_law: "valid i \<Longrightarrow> bits i \<noteq> [] \<Longrightarrow>
      select1 i r = Some (map_option of_nat (select_of True (bits i) (unat r)))"
begin

lemma unat_rank: "valid i \<Longrightarrow> unat (of_nat (rank_of b (bits i) n) :: u64) = rank_of b (bits i) n"
  using length_bits [of i] rank_le_occ [of b "bits i" n] occ_le_length [of b "bits i"]
  by (intro unat_of_nat_u64) simp

lemma unat_select:
  "valid i \<Longrightarrow> select_of b (bits i) r = Some k \<Longrightarrow> unat (of_nat k :: u64) = k"
  using length_bits [of i] by (intro unat_of_nat_u64) (simp add: select_Some_iff)

text \<open>Select and rank are inverse to each other.\<close>

lemma select_rank:
  assumes "valid i" "unat k < length (bits i)" "bits i ! unat k"
  shows "\<exists>r. rank1 i k = Some r \<and> select1 i r = Some (Some k)"
proof -
  let ?r = "of_nat (rank_of True (bits i) (Suc (unat k))) :: u64"
  from assms have "bits i \<noteq> []" by auto
  with assms have "select1 i ?r = Some (Some (of_nat (unat k)))"
    by (simp add: select1_law unat_rank select_eq_Some)
  with assms rank1_law [of i k] show ?thesis by (simp only: of_nat_unat ucast_id) simp
qed

lemma rank_select:
  assumes "valid i" "bits i \<noteq> []" "select1 i r = Some (Some k)"
  shows "rank1 i k = Some r" "unat k < length (bits i)" "bits i ! unat k"
proof -
  from assms obtain j where j: "select_of True (bits i) (unat r) = Some j" "k = of_nat j"
    by (auto simp: select1_law)
  with assms(1) have k: "unat k = j" by (simp add: unat_select)
  with j show "unat k < length (bits i)" "bits i ! unat k" by (simp_all add: select_Some_iff)
  with j k assms(1) show "rank1 i k = Some r"
    by (simp add: rank1_law select_Some_iff)
qed

end

end
