(* ===== verification/BitIndex.thy ===== *)
theory BitIndex
  imports BitArray LogArray RankSelect
begin

text \<open>
  The rank/select index over a bit array (\<open>src/structure/bitindex.rs\<close>): for every
  64-bit block the number of ones from its start to the end of its superblock of 52
  blocks, for every superblock the number of ones up to its end. The model has the
  checks of \<open>from_parts\<close>, the rank and select queries with their two binary searches
  and the scan of the last word, and the one-pass construction of the index files
  from the stream of blocks.

  \<open>bi_wf\<close> says that the two arrays hold those counts. The construction establishes
  it, and under it the queries agree with rank and select on the bits, so that the
  index is an instance of \<open>rank_select\<close>.
\<close>

section \<open>Model\<close>

definition SBLOCK_SIZE :: usize where
  "SBLOCK_SIZE = 52"

record BitIndex =
  bi_array :: BitArray
  bi_blocks :: LogArray
  bi_sblocks :: LogArray

definition BitIndex_from_parts :: "BitArray \<Rightarrow> LogArray \<Rightarrow> LogArray \<Rightarrow> BitIndex panics" where
  "BitIndex_from_parts array blocks sblocks =
    do { rust_assert (LogArray_len sblocks = (LogArray_len blocks + SBLOCK_SIZE - 1) div SBLOCK_SIZE);
         rust_assert (LogArray_len blocks = (BitArray_len array + 63) div 64);
         Some \<lparr>bi_array = array, bi_blocks = blocks, bi_sblocks = sblocks\<rparr> }"

definition BitIndex_from_maps :: "byteorder \<Rightarrow> bytes \<Rightarrow> bytes \<Rightarrow> bytes \<Rightarrow> BitIndex panics" where
  "BitIndex_from_maps bo bitarray_map blocks_map sblocks_map =
    do { bitarray \<leftarrow> BitArray_from_bits bo bitarray_map \<bind> unwrap;
         blocks_logarray \<leftarrow> LogArray_parse bo blocks_map \<bind> unwrap;
         sblocks_logarray \<leftarrow> LogArray_parse bo sblocks_map \<bind> unwrap;
         BitIndex_from_parts bitarray blocks_logarray sblocks_logarray }"

definition BitIndex_block_bits :: "BitIndex \<Rightarrow> usize \<Rightarrow> bytes panics" where
  "BitIndex_block_bits self block_index =
    (let bit_index = block_index * 8 in
     slice (BitArray_bits (bi_array self)) bit_index (bit_index + 8))"

definition BitIndex_len :: "BitIndex \<Rightarrow> usize" where
  "BitIndex_len self = BitArray_len (bi_array self)"

definition BitIndex_get :: "BitIndex \<Rightarrow> u64 \<Rightarrow> bool panics" where
  "BitIndex_get self index = BitArray_get (bi_array self) (unat index)"

definition BitIndex_iter :: "BitIndex \<Rightarrow> bool list panics" where
  "BitIndex_iter self = BitArray_iter (bi_array self)"

definition BitIndex_rank1 :: "byteorder \<Rightarrow> BitIndex \<Rightarrow> u64 \<Rightarrow> u64 panics" where
  "BitIndex_rank1 bo self index =
    do { let block_index = index div 64;
         let sblock_index = block_index div of_nat SBLOCK_SIZE;
         block_rank \<leftarrow> LogArray_entry bo (bi_blocks self) (unat block_index);
         sblock_rank \<leftarrow> LogArray_entry bo (bi_sblocks self) (unat sblock_index);
         bits \<leftarrow> BitIndex_block_bits self (unat block_index);
         rust_assert (length bits = 8);
         bits_num \<leftarrow> be_read_u64 bo bits;
         let bits_num = shr bits_num (unat (63 - index mod 64));
         let bits_rank = of_nat (count_ones bits_num);
         Some (sblock_rank - block_rank + bits_rank) }"

definition BitIndex_rank1_from_range :: "byteorder \<Rightarrow> BitIndex \<Rightarrow> u64 \<Rightarrow> u64 \<Rightarrow> u64 panics" where
  "BitIndex_rank1_from_range bo self start end' =
    (if start = end' then Some 0
     else do { rank \<leftarrow> BitIndex_rank1 bo self (end' - 1);
               if start \<noteq> 0 then do { r \<leftarrow> BitIndex_rank1 bo self (start - 1); Some (rank - r) }
               else Some rank })"

text \<open>
  The two binary search loops: the first moves right past indices for which the
  comparison \<open>r < rank\<close> is true, the second stays left of indices for which \<open>r >
  subrank\<close> is false. A call with \<open>start\<close> beyond \<open>end\<close> need not return.
\<close>

partial_function (option) search_left ::
  "(usize \<Rightarrow> bool panics) \<Rightarrow> usize \<Rightarrow> usize \<Rightarrow> usize panics" where
  "search_left lt start end' =
    (let mid = (start + end') div 2 in
     if start = end' then Some mid
     else do { c \<leftarrow> lt mid;
               if c then search_left lt (mid + 1) end' else search_left lt start mid })"

partial_function (option) search_right ::
  "(usize \<Rightarrow> bool panics) \<Rightarrow> usize \<Rightarrow> usize \<Rightarrow> usize panics" where
  "search_right gt start end' =
    (let mid = (start + end' + 1) div 2 in
     if start = end' then Some mid
     else do { c \<leftarrow> gt mid;
               if c then search_right gt mid end'
               else do { e \<leftarrow> usub mid 1; search_right gt start e } })"

definition BitIndex_select1_sblock :: "byteorder \<Rightarrow> BitIndex \<Rightarrow> u64 \<Rightarrow> usize panics" where
  "BitIndex_select1_sblock bo self rank =
    do { end' \<leftarrow> usub (LogArray_len (bi_sblocks self)) 1;
         search_left (\<lambda>mid. do { r \<leftarrow> LogArray_entry bo (bi_sblocks self) mid; Some (r < rank) })
           0 end' }"

definition BitIndex_select1_block :: "byteorder \<Rightarrow> BitIndex \<Rightarrow> usize \<Rightarrow> u64 \<Rightarrow> usize panics" where
  "BitIndex_select1_block bo self sblock subrank =
    do { let start = sblock * SBLOCK_SIZE;
         let end0 = start + SBLOCK_SIZE - 1;
         last \<leftarrow> usub (LogArray_len (bi_blocks self)) 1;
         let end' = (if end0 > last then last else end0);
         search_right (\<lambda>mid. do { r \<leftarrow> LogArray_entry bo (bi_blocks self) mid; Some (r > subrank) })
           start end' }"

text \<open>
  The scan of the last word, \<open>for i in 0..64\<close>, shared by the two select queries: the
  first argument is the bit that is counted.
\<close>

fun select_scan :: "bool \<Rightarrow> u64 \<Rightarrow> u64 \<Rightarrow> nat list \<Rightarrow> nat option" where
  "select_scan b bits_num tally [] = None"
| "select_scan b bits_num tally (i # is) =
    (if (bits_num AND 0x8000000000000000 \<noteq> 0) = b
     then (let tally = tally - 1 in
           if tally = 0 then Some i else select_scan b (shl bits_num 1) tally is)
     else select_scan b (shl bits_num 1) tally is)"

definition BitIndex_select1 :: "byteorder \<Rightarrow> BitIndex \<Rightarrow> u64 \<Rightarrow> u64 option panics" where
  "BitIndex_select1 bo self rank =
    do { sblock \<leftarrow> BitIndex_select1_sblock bo self rank;
         sblock_rank \<leftarrow> LogArray_entry bo (bi_sblocks self) sblock;
         if sblock_rank < rank then Some None
         else do {
           block \<leftarrow> BitIndex_select1_block bo self sblock (sblock_rank - rank);
           block_subrank \<leftarrow> LogArray_entry bo (bi_blocks self) block;
           let rank_in_block = rank - (sblock_rank - block_subrank);
           rust_assert (rank_in_block \<le> 64);
           bits \<leftarrow> BitIndex_block_bits self block;
           bits_num \<leftarrow> be_read_u64 bo bits;
           Some (map_option (\<lambda>i. of_nat block * 64 + of_nat i)
             (select_scan True bits_num rank_in_block [0..<64])) } }"

definition BitIndex_select1_from_range ::
  "byteorder \<Rightarrow> BitIndex \<Rightarrow> u64 \<Rightarrow> u64 \<Rightarrow> u64 \<Rightarrow> u64 option panics" where
  "BitIndex_select1_from_range bo self subrank start end' =
    do { rank_offset \<leftarrow> (if start = 0 then Some 0 else BitIndex_rank1 bo self (start - 1));
         r \<leftarrow> BitIndex_select1 bo self (rank_offset + subrank);
         case r of None \<Rightarrow> Some None
         | Some result \<Rightarrow>
             do { c \<leftarrow> (if result < start \<and> start < end' \<and> subrank = 0
                       then map_option Not (BitIndex_get self start) else Some False);
                  Some (if c then Some start
                        else if result < start \<or> result \<ge> end' then None else Some result) } }"

definition BitIndex_rank0 :: "byteorder \<Rightarrow> BitIndex \<Rightarrow> u64 \<Rightarrow> u64 panics" where
  "BitIndex_rank0 bo self index =
    do { r0 \<leftarrow> BitIndex_rank1 bo self index; Some (1 + index - r0) }"

definition BitIndex_rank0_from_range :: "byteorder \<Rightarrow> BitIndex \<Rightarrow> u64 \<Rightarrow> u64 \<Rightarrow> u64 panics" where
  "BitIndex_rank0_from_range bo self start end' =
    (if start = end' then Some 0
     else do { rank \<leftarrow> BitIndex_rank0 bo self (end' - 1);
               if start \<noteq> 0 then do { r \<leftarrow> BitIndex_rank0 bo self (start - 1); Some (rank - r) }
               else Some rank })"

definition BitIndex_select0_sblock :: "byteorder \<Rightarrow> BitIndex \<Rightarrow> u64 \<Rightarrow> usize panics" where
  "BitIndex_select0_sblock bo self rank =
    do { end' \<leftarrow> usub (LogArray_len (bi_sblocks self)) 1;
         search_left (\<lambda>mid. do { e \<leftarrow> LogArray_entry bo (bi_sblocks self) mid;
                                 let r = of_nat ((1 + mid) * SBLOCK_SIZE) * 64 - e;
                                 Some (r < rank) })
           0 end' }"

definition BitIndex_select0_block :: "byteorder \<Rightarrow> BitIndex \<Rightarrow> usize \<Rightarrow> u64 \<Rightarrow> usize panics" where
  "BitIndex_select0_block bo self sblock subrank =
    do { let start = sblock * SBLOCK_SIZE;
         let end0 = start + SBLOCK_SIZE - 1;
         last \<leftarrow> usub (LogArray_len (bi_blocks self)) 1;
         let end' = (if end0 > last then last else end0);
         search_right (\<lambda>mid. do { e \<leftarrow> LogArray_entry bo (bi_blocks self) mid;
                                  let r = of_nat (SBLOCK_SIZE - mid mod SBLOCK_SIZE) * 64 - e;
                                  Some (r > subrank) })
           start end' }"

definition BitIndex_select0 :: "byteorder \<Rightarrow> BitIndex \<Rightarrow> u64 \<Rightarrow> u64 option panics" where
  "BitIndex_select0 bo self rank =
    do { sblock \<leftarrow> BitIndex_select0_sblock bo self rank;
         e \<leftarrow> LogArray_entry bo (bi_sblocks self) sblock;
         let sblock_rank = of_nat ((1 + sblock) * SBLOCK_SIZE * 64) - e;
         if sblock_rank < rank then Some None
         else do {
           block \<leftarrow> BitIndex_select0_block bo self sblock (sblock_rank - rank);
           e \<leftarrow> LogArray_entry bo (bi_blocks self) block;
           let block_subrank = of_nat (SBLOCK_SIZE - block mod SBLOCK_SIZE) * 64 - e;
           let rank_in_block = rank - (sblock_rank - block_subrank);
           rust_assert (rank_in_block \<le> 64);
           bits \<leftarrow> BitIndex_block_bits self block;
           bits_num \<leftarrow> be_read_u64 bo bits;
           Some (map_option (\<lambda>i. of_nat block * 64 + of_nat i)
             (select_scan False bits_num rank_in_block [0..<64])) } }"

definition BitIndex_select0_from_range ::
  "byteorder \<Rightarrow> BitIndex \<Rightarrow> u64 \<Rightarrow> u64 \<Rightarrow> u64 \<Rightarrow> u64 option panics" where
  "BitIndex_select0_from_range bo self subrank start end' =
    do { rank_offset \<leftarrow> (if start = 0 then Some 0 else BitIndex_rank0 bo self (start - 1));
         r \<leftarrow> BitIndex_select0 bo self (rank_offset + subrank);
         case r of None \<Rightarrow> Some None
         | Some result \<Rightarrow>
             do { c \<leftarrow> (if result < start \<and> start < end' \<and> subrank = 0
                       then BitIndex_get self start else Some False);
                  Some (if c then Some start
                        else if result < start \<or> result \<ge> end' then None else Some result) } }"

text \<open>
  Building the index. \<open>StreamExt::chunks\<close> of the \<open>futures\<close> crate is a parameter; the
  crate documents that it cuts a stream into vectors of the given size, the last one
  holding the rest.
\<close>

type_synonym block_chunks = "usize \<Rightarrow> (io_error + u64) list \<Rightarrow> (io_error + u64) list list"

definition chunks_ok :: "block_chunks \<Rightarrow> bool" where
  "chunks_ok chunks \<longleftrightarrow>
    (\<forall>n xs. 0 < n \<longrightarrow> chunks n xs = (if xs = [] then [] else take n xs # chunks n (drop n xs)))"

text \<open>The inner loops: the ranks of the blocks of a chunk, with the first error of the
  stream, and the pushes of the subranks.\<close>

fun chunk_block_ranks :: "(io_error + u64) list \<Rightarrow> io_error + u64 list" where
  "chunk_block_ranks [] = Inr []"
| "chunk_block_ranks (Inl e # chunk) = Inl e"
| "chunk_block_ranks (Inr num # chunk) =
    (case chunk_block_ranks chunk of Inl e \<Rightarrow> Inl e
     | Inr ranks \<Rightarrow> Inr (of_nat (count_ones num) # ranks))"

fun push_subranks ::
  "LogArrayFileBuilder \<Rightarrow> u64 \<Rightarrow> u64 list \<Rightarrow> io_error + LogArrayFileBuilder" where
  "push_subranks blocks_builder sblock_subrank [] = Inr blocks_builder"
| "push_subranks blocks_builder sblock_subrank (block_rank # block_ranks) =
    (case LogArrayFileBuilder_push blocks_builder sblock_subrank of Inl e \<Rightarrow> Inl e
     | Inr b \<Rightarrow> push_subranks b (sblock_subrank - block_rank) block_ranks)"

fun build_bitindex_loop ::
  "LogArrayFileBuilder \<Rightarrow> LogArrayFileBuilder \<Rightarrow> u64 \<Rightarrow> (io_error + u64) list list \<Rightarrow>
    io_error + LogArrayFileBuilder \<times> LogArrayFileBuilder" where
  "build_bitindex_loop blocks_builder sblocks_builder sblock_rank [] =
    Inr (blocks_builder, sblocks_builder)"
| "build_bitindex_loop blocks_builder sblocks_builder sblock_rank (chunk # stream) =
    (case chunk_block_ranks chunk of Inl e \<Rightarrow> Inl e
     | Inr block_ranks \<Rightarrow>
         (let sblock_subrank = sum_list block_ranks;
              sblock_rank = sblock_rank + sblock_subrank
          in case push_subranks blocks_builder sblock_subrank block_ranks of Inl e \<Rightarrow> Inl e
             | Inr blocks_builder \<Rightarrow>
                 (case LogArrayFileBuilder_push sblocks_builder sblock_rank of Inl e \<Rightarrow> Inl e
                  | Inr sblocks_builder \<Rightarrow>
                      build_bitindex_loop blocks_builder sblocks_builder sblock_rank stream)))"

text \<open>The result holds the two files.\<close>

definition build_bitindex ::
  "byteorder \<Rightarrow> framed_blocks \<Rightarrow> block_chunks \<Rightarrow> bytes \<Rightarrow> (io_error + bytes \<times> bytes) panics" where
  "build_bitindex bo framed chunks bitarray =
    (let block_stream = bitarray_stream_blocks framed bitarray;
         blocks_builder = LogArrayFileBuilder_new []
           (64 - of_nat (leading_zeros (of_nat (SBLOCK_SIZE * 64))));
         sblocks_builder = LogArrayFileBuilder_new [] 64
     in case build_bitindex_loop blocks_builder sblocks_builder 0 (chunks SBLOCK_SIZE block_stream) of
          Inl e \<Rightarrow> Some (Inl e)
        | Inr (blocks_builder, sblocks_builder) \<Rightarrow>
            do { blocks \<leftarrow> LogArrayFileBuilder_finalize bo blocks_builder;
                 sblocks \<leftarrow> LogArrayFileBuilder_finalize bo sblocks_builder;
                 Some (Inr (blocks, sblocks)) })"

section \<open>Searching and scanning\<close>

lemma search_left_spec:
  assumes "start \<le> end'" and "\<And>k. start \<le> k \<Longrightarrow> k < end' \<Longrightarrow> lt k = Some (P k)"
    and "\<And>j k. start \<le> j \<Longrightarrow> j \<le> k \<Longrightarrow> k < end' \<Longrightarrow> P k \<Longrightarrow> P j"
  shows "\<exists>m. search_left lt start end' = Some m \<and> start \<le> m \<and> m \<le> end' \<and>
    (\<forall>k. start \<le> k \<and> k < m \<longrightarrow> P k) \<and> (m < end' \<longrightarrow> \<not> P m)"
  using assms
proof (induction "end' - start" arbitrary: start end' rule: less_induct)
  case less
  define mid where "mid = (start + end') div 2"
  show ?case
  proof (cases "start = end'")
    case True
    then show ?thesis by (subst search_left.simps) auto
  next
    case False
    with less.prems(1) have m: "start \<le> mid" "mid < end'" by (auto simp: mid_def)
    have step: "search_left lt start end' =
        (if P mid then search_left lt (mid + 1) end' else search_left lt start mid)"
      using False m less.prems(2) [of mid] by (subst search_left.simps) (simp add: mid_def Let_def)
    show ?thesis
    proof (cases "P mid")
      case True
      have "\<exists>r. search_left lt (mid + 1) end' = Some r \<and> mid + 1 \<le> r \<and> r \<le> end' \<and>
          (\<forall>k. mid + 1 \<le> k \<and> k < r \<longrightarrow> P k) \<and> (r < end' \<longrightarrow> \<not> P r)"
        using m less.prems(2,3) by (intro less.hyps) auto
      then obtain r where r: "search_left lt (mid + 1) end' = Some r" "mid + 1 \<le> r" "r \<le> end'"
        "\<forall>k. mid + 1 \<le> k \<and> k < r \<longrightarrow> P k" "r < end' \<longrightarrow> \<not> P r" by blast
      have "P k" if "start \<le> k" "k < r" for k
      proof (cases "k \<le> mid")
        case True
        then show ?thesis using less.prems(3) [of k mid] that m \<open>P mid\<close> by blast
      next
        case False
        then show ?thesis using r(4) that by simp
      qed
      with r True m step show ?thesis by (intro exI [of _ r]) simp
    next
      case False
      have "\<exists>r. search_left lt start mid = Some r \<and> start \<le> r \<and> r \<le> mid \<and>
          (\<forall>k. start \<le> k \<and> k < r \<longrightarrow> P k) \<and> (r < mid \<longrightarrow> \<not> P r)"
        using m less.prems(2,3) by (intro less.hyps) auto
      then obtain r where r: "search_left lt start mid = Some r" "start \<le> r" "r \<le> mid"
        "\<forall>k. start \<le> k \<and> k < r \<longrightarrow> P k" "r < mid \<longrightarrow> \<not> P r" by blast
      then have "\<not> P r" using False by (cases "r = mid") auto
      with r False m step show ?thesis by (intro exI [of _ r]) simp
    qed
  qed
qed

lemma search_right_spec:
  assumes "start \<le> end'" and "\<And>k. start < k \<Longrightarrow> k \<le> end' \<Longrightarrow> gt k = Some (P k)"
    and "\<And>j k. start < j \<Longrightarrow> j \<le> k \<Longrightarrow> k \<le> end' \<Longrightarrow> P k \<Longrightarrow> P j"
  shows "\<exists>m. search_right gt start end' = Some m \<and> start \<le> m \<and> m \<le> end' \<and>
    (\<forall>k. m < k \<and> k \<le> end' \<longrightarrow> \<not> P k) \<and> (start < m \<longrightarrow> P m)"
  using assms
proof (induction "end' - start" arbitrary: start end' rule: less_induct)
  case less
  define mid where "mid = (start + end' + 1) div 2"
  show ?case
  proof (cases "start = end'")
    case True
    then show ?thesis by (subst search_right.simps) auto
  next
    case False
    with less.prems(1) have m: "start < mid" "mid \<le> end'" by (auto simp: mid_def)
    have step: "search_right gt start end' =
        (if P mid then search_right gt mid end' else search_right gt start (mid - 1))"
      using False m less.prems(2) [of mid]
      by (subst search_right.simps) (simp add: mid_def Let_def)
    show ?thesis
    proof (cases "P mid")
      case True
      have "\<exists>r. search_right gt mid end' = Some r \<and> mid \<le> r \<and> r \<le> end' \<and>
          (\<forall>k. r < k \<and> k \<le> end' \<longrightarrow> \<not> P k) \<and> (mid < r \<longrightarrow> P r)"
        using m less.prems(2,3) by (intro less.hyps) auto
      then obtain r where r: "search_right gt mid end' = Some r" "mid \<le> r" "r \<le> end'"
        "\<forall>k. r < k \<and> k \<le> end' \<longrightarrow> \<not> P k" "mid < r \<longrightarrow> P r" by blast
      then have "P r" using True by (cases "r = mid") auto
      with r True m step show ?thesis by (intro exI [of _ r]) simp
    next
      case False
      have "\<exists>r. search_right gt start (mid - 1) = Some r \<and> start \<le> r \<and> r \<le> mid - 1 \<and>
          (\<forall>k. r < k \<and> k \<le> mid - 1 \<longrightarrow> \<not> P k) \<and> (start < r \<longrightarrow> P r)"
        using m less.prems(2,3) by (intro less.hyps) auto
      then obtain r where r: "search_right gt start (mid - 1) = Some r" "start \<le> r" "r \<le> mid - 1"
        "\<forall>k. r < k \<and> k \<le> mid - 1 \<longrightarrow> \<not> P k" "start < r \<longrightarrow> P r" by blast
      have "\<not> P k" if "r < k" "k \<le> end'" for k
      proof (cases "k < mid")
        case True
        then show ?thesis using r(4) that by simp
      next
        case False
        then show ?thesis using less.prems(3) [of mid k] that m \<open>\<not> P mid\<close> by auto
      qed
      with r False m step show ?thesis by (intro exI [of _ r]) auto
    qed
  qed
qed

lemma count_ones_eq: "count_ones w = occ True (word_bits w)"
proof -
  have "occ True (word_bits w) = length (filter (bit w) (rev [0..<64]))"
    by (simp add: occ_def val_bits_def filter_map o_def)
  also have "\<dots> = count_ones w"
    by (simp only: count_ones_def rev_filter [symmetric] length_rev)
  finally show ?thesis ..
qed

lemma word_bits_shr: "k < 64 \<Longrightarrow> word_bits (shr w k) = replicate k False @ take (64 - k) (word_bits w)"
  by (intro nth_equalityI) (auto simp: shr_def bit_simps nth_append not_le add.commute dest: bit_imp_le_length)

lemma word_bits_shl1: "word_bits (shl w 1) = tl (word_bits w) @ [False]"
proof (intro nth_equalityI)
  fix i assume "i < length (word_bits (shl w 1))"
  then have i: "i < 64" by simp
  have "bit (push_bit 1 w) (63 - i) = (63 - i \<noteq> 0 \<and> bit w (63 - i - 1))"
    using i by (subst bit_push_bit_iff) auto
  then have "word_bits (shl w 1) ! i = (63 - i \<noteq> 0 \<and> bit w (63 - i - 1))"
    using i by (simp add: shl_def del: push_bit_Suc)
  with i show "word_bits (shl w 1) ! i = (tl (word_bits w) @ [False]) ! i"
    by (auto simp: nth_append nth_tl)
qed simp

lemma msb_hd: "(w AND 0x8000000000000000 \<noteq> 0) = hd (word_bits (w :: u64))"
proof -
  have "(0x8000000000000000 :: u64) = push_bit 63 1" by (simp add: push_bit_eq_mult)
  then have "(w AND 0x8000000000000000 \<noteq> 0) = bit w 63"
    by (simp only: bit_iff_and_push_bit_not_eq_0)
  also have "\<dots> = hd (word_bits w)"
    by (subst hd_conv_nth) (simp_all flip: length_greater_0_conv)
  finally show ?thesis .
qed

lemma select_scan_none: "length is < unat tally \<Longrightarrow> select_scan b w tally is = None"
proof (induction "is" arbitrary: w tally)
  case (Cons i "is")
  then obtain n where n: "unat tally = Suc n" "length is < n" by (cases "unat tally") auto
  note unat_pred [OF n(1)]
  with n Cons show ?case by (auto simp: Let_def unat_eq_0 [symmetric] simp del: unsigned_eq_0_iff)
qed simp

lemma select_scan_eq:
  assumes "unat tally = r" "0 < r" "length bs + k = n" "take (length bs) (word_bits w) = bs" "length bs \<le> 64"
  shows "select_scan b w tally [k..<n] = map_option ((+) k) (select_of b bs r)"
  using assms
proof (induction bs arbitrary: k w tally r)
  case Nil
  then show ?case by simp
next
  case (Cons x bs)
  obtain m where m: "r = Suc m" using Cons.prems(2) by (cases r) auto
  have pred: "unat (tally - 1) = m" using unat_pred(1) [of tally m] Cons.prems(1) m by simp
  have up: "[k..<n] = k # [Suc k..<n]" using Cons.prems(3) by (simp add: upt_rec)
  have hd: "hd (word_bits w) = x"
    using Cons.prems(4) by (cases "word_bits w") simp_all
  have len: "length bs \<le> length (tl (word_bits w))" using Cons.prems(5) by simp
  have tl: "take (length bs) (word_bits (shl w 1)) = bs"
    using Cons.prems(4) len unfolding word_bits_shl1 by (cases "word_bits w") simp_all
  have z: "tally - 1 = 0 \<longleftrightarrow> m = 0" using pred unat_eq_0 by metis
  have comp: "map_option ((+) k) (map_option Suc v) = map_option ((+) (Suc k)) v" for v
    by (cases v) simp_all
  have IH1: "select_scan b (shl w 1) (tally - 1) [Suc k..<n] = map_option ((+) (Suc k)) (select_of b bs m)"
    if "0 < m"
    using Cons.IH [OF pred that _ tl] Cons.prems(3,5) by simp
  have IH2: "select_scan b (shl w 1) tally [Suc k..<n] = map_option ((+) (Suc k)) (select_of b bs r)"
    using Cons.IH [OF Cons.prems(1,2) _ tl] Cons.prems(3,5) by simp
  have "select_scan b w tally [k..<n] = (if x = b then if m = 0 then Some k
      else map_option ((+) (Suc k)) (select_of b bs m) else map_option ((+) (Suc k)) (select_of b bs r))"
    using IH1 IH2 z unfolding up select_scan.simps msb_hd hd Let_def by simp
  then show ?case using m by (simp add: comp)
qed

lemma select_scan_word:
  assumes "unat tally \<le> 64"
  shows "select_scan b w tally [0..<64] = select_of b (word_bits w) (unat tally)"
proof (cases "unat tally = 0")
  case True
  then have t: "tally = 0" by (simp add: unat_eq_0)
  have none: "select_scan b w' 0 is = None" if "length is \<le> 64" for w' "is"
    using that
  proof (induction "is" arbitrary: w')
    case (Cons i "is")
    have "unat (0 - 1 :: u64) = 2 ^ 64 - 1" by (simp add: unsigned_minus_1_eq_mask mask_eq_exp_minus_1)
    with Cons show ?case by (simp add: Let_def select_scan_none)
  qed simp
  with t show ?thesis by simp
next
  case False
  have "(+) (0 :: nat) = id" by (simp add: fun_eq_iff)
  with False select_scan_eq [of tally "unat tally" "word_bits w" 0 64 w b] show ?thesis
    by (simp add: option.map_id)
qed

section \<open>The invariant of an index\<close>

definition bi_bits :: "BitIndex \<Rightarrow> bool list" where
  "bi_bits i = ba_bits (bi_array i)"

text \<open>The bits of the whole buffer: those of the array and zeros up to the end of the
  last block.\<close>

abbreviation bi_buf :: "BitIndex \<Rightarrow> bool list" where
  "bi_buf i \<equiv> buf_bits (ba_buf (bi_array i))"

definition bi_wf :: "BitIndex \<Rightarrow> bool" where
  "bi_wf i \<longleftrightarrow>
    ba_wf (bi_array i) \<and> la_wf (bi_blocks i) \<and> la_wf (bi_sblocks i) \<and>
    unat (la_len (bi_blocks i)) = (unat (ba_len (bi_array i)) + 63) div 64 \<and>
    unat (la_len (bi_sblocks i)) = (unat (la_len (bi_blocks i)) + 51) div 52 \<and>
    (\<forall>k. unat (ba_len (bi_array i)) \<le> k \<and> k < length (bi_buf i) \<longrightarrow> \<not> bi_buf i ! k) \<and>
    (\<forall>j<unat (la_len (bi_blocks i)). unat (la_elems (bi_blocks i) ! j) =
       rank_of True (bi_buf i) (3328 * (j div 52 + 1)) - rank_of True (bi_buf i) (64 * j)) \<and>
    (\<forall>s<unat (la_len (bi_sblocks i)). unat (la_elems (bi_sblocks i) ! s) =
       rank_of True (bi_buf i) (3328 * (s + 1)))"

lemma bi_wfD:
  assumes "bi_wf i"
  defines "n \<equiv> unat (la_len (bi_blocks i))"
  shows "ba_wf (bi_array i)" "la_wf (bi_blocks i)" "la_wf (bi_sblocks i)"
    and "length (bi_buf i) = 64 * n" "n < 2 ^ 32"
    and "unat (la_len (bi_sblocks i)) = (n + 51) div 52"
    and "length (bi_bits i) = unat (ba_len (bi_array i))"
    and "length (bi_bits i) \<le> 64 * n" "64 * n < length (bi_bits i) + 64"
  using assms unsigned_less [of "la_len (bi_blocks i)", where 'a = nat]
  by (simp_all add: bi_wf_def ba_wf_def bi_bits_def ba_bits_def)

lemma bi_buf_eq:
  assumes "bi_wf i"
  shows "\<exists>pad. pad < 64 \<and> bi_buf i = bi_bits i @ replicate pad False"
proof (intro exI conjI)
  let ?pad = "length (bi_buf i) - length (bi_bits i)"
  show "?pad < 64" using bi_wfD(4,8,9) [OF assms] by simp
  show "bi_buf i = bi_bits i @ replicate ?pad False"
  proof (rule nth_equalityI)
    show "length (bi_buf i) = length (bi_bits i @ replicate ?pad False)"
      using bi_wfD(4,8) [OF assms] by simp
    fix k assume k: "k < length (bi_buf i)"
    show "bi_buf i ! k = (bi_bits i @ replicate ?pad False) ! k"
    proof (cases "k < length (bi_bits i)")
      case True
      then show ?thesis by (simp add: nth_append bi_bits_def ba_bits_def)
    next
      case False
      with k assms bi_wfD(7) [OF assms] show ?thesis by (simp add: nth_append bi_wf_def)
    qed
  qed
qed

lemma rank_bi_buf:
  assumes "bi_wf i"
  shows "rank_of True (bi_buf i) k = rank_of True (bi_bits i) k"
    "k \<le> length (bi_bits i) \<Longrightarrow> rank_of b (bi_buf i) k = rank_of b (bi_bits i) k"
proof -
  from bi_buf_eq [OF assms] obtain pad where "bi_buf i = bi_bits i @ replicate pad False" by blast
  then show "rank_of True (bi_buf i) k = rank_of True (bi_bits i) k"
    "k \<le> length (bi_bits i) \<Longrightarrow> rank_of b (bi_buf i) k = rank_of b (bi_bits i) k"
    using rank_all [of "bi_bits i" k True] by (auto simp: rank_append) (simp add: rank_of_def)
qed

lemma rank_bi_buf_less: "bi_wf i \<Longrightarrow> rank_of b (bi_buf i) k < 2 ^ 38"
  using rank_le_occ [of b "bi_buf i" k] occ_le_length [of b "bi_buf i"] bi_wfD(4,5) [of i] by simp

text \<open>The ones and zeros of a block, and the end of its superblock.\<close>

lemma block_le_sblock_end: "64 * j + 64 \<le> 3328 * (j div 52 + 1)" for j :: nat
proof -
  have "j < 52 * (j div 52 + 1)" using mod_less_divisor [of 52 j] by (subst mult_div_mod_eq [symmetric, of j 52]) simp
  then show ?thesis by simp
qed

context big_endian
begin

lemma bi_blocks_entry:
  assumes "bi_wf i" "j < unat (la_len (bi_blocks i))"
  shows "LogArray_entry bo (bi_blocks i) j = Some (of_nat
    (rank_of True (bi_buf i) (3328 * (j div 52 + 1)) - rank_of True (bi_buf i) (64 * j)))"
  using assms by (simp add: LogArray_entry_eq bi_wfD(2) nth_la_elems [symmetric])
    (rule word_of_nat_eqI, simp add: bi_wf_def)

lemma bi_sblocks_entry:
  assumes "bi_wf i" "s < unat (la_len (bi_sblocks i))"
  shows "LogArray_entry bo (bi_sblocks i) s = Some (of_nat (rank_of True (bi_buf i) (3328 * (s + 1))))"
  using assms by (simp add: LogArray_entry_eq bi_wfD(3) nth_la_elems [symmetric])
    (rule word_of_nat_eqI, simp add: bi_wf_def)

lemma bi_block_word:
  assumes "bi_wf i" "j < unat (la_len (bi_blocks i))"
  obtains bs w where "BitIndex_block_bits i j = Some bs" "length bs = 8" "be_read_u64 bo bs = Some w"
    "word_bits w = take 64 (drop (64 * j) (bi_buf i))"
proof
  let ?bs = "take 8 (drop (8 * j) (ba_buf (bi_array i)))"
  have le: "8 * j + 8 \<le> length (ba_buf (bi_array i))"
    using bi_wfD(4) [OF assms(1)] assms(2) by simp
  then show "BitIndex_block_bits i j = Some ?bs" "length ?bs = 8"
    by (simp_all add: BitIndex_block_bits_def slice_def BitArray_bits_def mult.commute)
  then show "be_read_u64 bo ?bs = Some (from_be_bytes ?bs)" by simp
  show "word_bits (from_be_bytes ?bs) = take 64 (drop (64 * j) (bi_buf i))"
    using \<open>length ?bs = 8\<close> by (simp add: word_bits_from_be_bytes buf_bits_take buf_bits_drop)
qed

lemma BitIndex_rank1_eq:
  assumes wf: "bi_wf i" and k: "unat k < length (bi_bits i)"
  shows "BitIndex_rank1 bo i k = Some (of_nat (rank_of True (bi_bits i) (Suc (unat k))))"
proof -
  define j r where "j = unat k div 64" and "r = unat k mod 64"
  have jr: "unat k = 64 * j + r" "r < 64" by (simp_all add: j_def r_def)
  let ?c = "rank_of True (bi_buf i)" and ?E = "3328 * (j div 52 + 1)"
  have j: "j < unat (la_len (bi_blocks i))" using k bi_wfD(8) [OF wf] jr by linarith
  then have s: "j div 52 < unat (la_len (bi_sblocks i))" using bi_wfD(6) [OF wf] by linarith
  have ji: "unat (k div 64) = j" "unat (k div 64 div of_nat SBLOCK_SIZE) = j div 52"
    by (simp_all add: unat_div j_def SBLOCK_SIZE_def)
  have "k mod 64 \<le> 63" using jr by (simp add: word_le_nat_alt unat_mod r_def)
  then have sh: "unat (63 - k mod 64) = 63 - r" by (simp add: unat_sub unat_mod r_def)
  from bi_block_word [OF wf j] obtain bs w where
    bs: "BitIndex_block_bits i j = Some bs" "length bs = 8" "be_read_u64 bo bs = Some w"
    "word_bits w = take 64 (drop (64 * j) (bi_buf i))" by blast
  have "count_ones (shr w (63 - r)) = rank_of True (drop (64 * j) (bi_buf i)) (r + 1)"
    using jr(2) by (simp add: count_ones_eq word_bits_shr bs(4) rank_of_def min_def)
  moreover have "?c (Suc (unat k)) = ?c (64 * j) + rank_of True (drop (64 * j) (bi_buf i)) (r + 1)"
    using jr rank_add [of True "bi_buf i" "64 * j" "r + 1"] by simp
  moreover have "?c (64 * j) \<le> ?c ?E" using block_le_sblock_end [of j] by (intro rank_mono) simp
  ultimately have "BitIndex_rank1 bo i k = Some (of_nat (?c (Suc (unat k))))"
    using bs(1-3)
    by (simp add: BitIndex_rank1_def ji bi_blocks_entry [OF wf j] bi_sblocks_entry [OF wf s] sh of_nat_diff)
  then show ?thesis by (simp add: rank_bi_buf(1) [OF wf])
qed

end

section \<open>Select\<close>

text \<open>
  The two searches on a count \<open>f\<close> of bits that grows with the position: the superblock
  and then the block in which the count reaches \<open>R\<close>. For the ones \<open>f\<close> is their rank,
  for the zeros it is the position minus that rank.
\<close>

lemma sblock_search:
  fixes f :: "nat \<Rightarrow> nat"
  assumes mono: "\<And>x y. x \<le> y \<Longrightarrow> f x \<le> f y" and f0: "f 0 = 0" and N: "0 < N"
    and lt: "\<And>k. k < N \<Longrightarrow> lt k = Some (f (3328 * (k + 1)) < R)"
  obtains s where "search_left lt 0 (N - 1) = Some s" "s < N" "f (3328 * s) < R \<or> R = 0 \<and> s = 0"
    "R \<le> f (3328 * (s + 1)) \<or> s = N - 1"
proof -
  have "\<exists>m. search_left lt 0 (N - 1) = Some m \<and> 0 \<le> m \<and> m \<le> N - 1 \<and>
      (\<forall>k. 0 \<le> k \<and> k < m \<longrightarrow> f (3328 * (k + 1)) < R) \<and> (m < N - 1 \<longrightarrow> \<not> f (3328 * (m + 1)) < R)"
  proof (rule search_left_spec)
    fix j k assume "j \<le> k" "f (3328 * (k + 1)) < R"
    then show "f (3328 * (j + 1)) < R" using mono [of "3328 * (j + 1)" "3328 * (k + 1)"] by simp
  qed (use lt in simp_all)
  then obtain s where s: "search_left lt 0 (N - 1) = Some s" "s \<le> N - 1"
    "\<forall>k < s. f (3328 * (k + 1)) < R" "s < N - 1 \<longrightarrow> \<not> f (3328 * (s + 1)) < R" by auto
  have "f (3328 * s) < R \<or> R = 0 \<and> s = 0"
  proof (cases s)
    case 0
    then show ?thesis using f0 by auto
  next
    case (Suc k)
    with s(3) have "f (3328 * (k + 1)) < R" by simp
    with Suc show ?thesis by simp
  qed
  moreover have "s < N" "R \<le> f (3328 * (s + 1)) \<or> s = N - 1" using s(2,4) N by (simp, linarith)
  ultimately show ?thesis using s(1) that by blast
qed

lemma block_search:
  fixes f :: "nat \<Rightarrow> nat"
  assumes mono: "\<And>x y. x \<le> y \<Longrightarrow> f x \<le> f y" and s: "52 * s < n"
    and start: "f (3328 * s) < R \<or> R = 0 \<and> s = 0" and stop: "R \<le> f (3328 * (s + 1))"
    and gt: "\<And>j. j < n \<Longrightarrow> j div 52 = s \<Longrightarrow> gt j = Some (f (64 * j) < R)"
  obtains j where
    "search_right gt (s * 52) (if s * 52 + 52 - 1 > n - 1 then n - 1 else s * 52 + 52 - 1) = Some j"
    "j < n" "j div 52 = s" "f (64 * j) < R \<or> R = 0 \<and> j = 0" "R \<le> f (64 * j + 64) \<or> j = n - 1"
proof -
  define e where "e = (if s * 52 + 52 - 1 > n - 1 then n - 1 else s * 52 + 52 - 1)"
  have e: "s * 52 \<le> e" "e < n" "e \<le> s * 52 + 51" "e = n - 1 \<or> e = s * 52 + 51"
    using s by (auto simp: e_def)
  have div: "j div 52 = s" if "s * 52 \<le> j" "j \<le> e" for j
    using that e(3) by (intro div_nat_eqI) simp_all
  have "\<exists>m. search_right gt (s * 52) e = Some m \<and> s * 52 \<le> m \<and> m \<le> e \<and>
      (\<forall>k. m < k \<and> k \<le> e \<longrightarrow> \<not> f (64 * k) < R) \<and> (s * 52 < m \<longrightarrow> f (64 * m) < R)"
  proof (rule search_right_spec)
    fix j k assume "j \<le> k" "f (64 * k) < R"
    then show "f (64 * j) < R" using mono [of "64 * j" "64 * k"] by simp
  qed (use e gt div in simp_all)
  then obtain j where j: "search_right gt (s * 52) e = Some j" "s * 52 \<le> j" "j \<le> e"
    "\<forall>k. j < k \<and> k \<le> e \<longrightarrow> \<not> f (64 * k) < R" "s * 52 < j \<longrightarrow> f (64 * j) < R" by blast
  have "f (64 * j) < R \<or> R = 0 \<and> j = 0"
  proof (cases "j = s * 52")
    case True
    then show ?thesis using start by (auto simp: mult.commute)
  next
    case False
    then show ?thesis using j(2,5) by auto
  qed
  moreover have "R \<le> f (64 * j + 64) \<or> j = n - 1"
  proof (cases "j < e")
    case True
    with j(4) have "\<not> f (64 * Suc j) < R" by (meson Suc_leI lessI)
    then show ?thesis by (simp add: add.commute)
  next
    case False
    with j(3) have "j = e" by simp
    with e(4) show ?thesis using stop by auto
  qed
  moreover have "j < n" "j div 52 = s" using j(2,3) e(2) div by auto
  ultimately show ?thesis using j(1) that unfolding e_def by blast
qed

lemma of_nat_less_word: "x < 2 ^ 64 \<Longrightarrow> of_nat x < (w :: u64) \<longleftrightarrow> x < unat w"
  by (simp add: word_less_nat_alt unat_of_nat_u64)

lemma subrank_less:
  assumes "unat w \<le> e" "x \<le> e" "e < 2 ^ 64"
  shows "of_nat e - w < (of_nat (e - x) :: u64) \<longleftrightarrow> x < unat w"
proof -
  have "of_nat e - w = (of_nat (e - unat w) :: u64)" using assms(1) by (simp add: of_nat_diff)
  then have "of_nat e - w < (of_nat (e - x) :: u64) \<longleftrightarrow> e - unat w < e - x"
    using assms(3) by (simp only: word_less_nat_alt) (simp only: unat_of_nat_u64 less_imp_diff_less)
  then show ?thesis using assms by auto
qed

lemma diff_diff_swap:
  fixes a b :: nat
  assumes "b \<le> a" "y \<le> x" "x - y \<le> a - b" "x \<le> a" "y \<le> b"
  shows "(a - b) - (x - y) = (a - x) - (b - y)"
  using assms by linarith

text \<open>The last step, common to the two queries: the occurrence inside the block.\<close>

lemma select_in_block:
  assumes w: "word_bits w = take 64 (drop (64 * j) B)" and t: "unat tally = R - rank_of b B (64 * j)"
    and "rank_of b B (64 * j) < R \<or> R = 0 \<and> j = 0" "R \<le> rank_of b B (64 * j + 64)"
  shows "tally \<le> 64" "map_option (\<lambda>i. of_nat j * 64 + of_nat i) (select_scan b w tally [0..<64]) =
    map_option (of_nat :: nat \<Rightarrow> u64) (select_of b B R)"
proof -
  have "rank_of b B (64 * j + 64) \<le> rank_of b B (64 * j) + 64"
    using rank_le [of b "drop (64 * j) B" 64] by (simp add: rank_add)
  with t assms(4) have t64: "unat tally \<le> 64" by linarith
  then show "tally \<le> 64" by (simp add: word_le_nat_alt)
  have "select_of b B R = map_option ((+) (64 * j)) (select_of b (word_bits w) (unat tally))"
    using assms(3)
  proof
    assume "rank_of b B (64 * j) < R"
    with select_window [OF this assms(4)] show ?thesis by (simp add: w t)
  next
    assume "R = 0 \<and> j = 0"
    with t show ?thesis by simp
  qed
  then show "map_option (\<lambda>i. of_nat j * 64 + of_nat i) (select_scan b w tally [0..<64]) =
    map_option (of_nat :: nat \<Rightarrow> u64) (select_of b B R)"
    by (simp add: select_scan_word [OF t64] option.map_comp o_def mult.commute)
qed

context big_endian
begin

lemma BitIndex_select1_eq:
  assumes wf: "bi_wf i" and ne: "bi_bits i \<noteq> []"
  shows "BitIndex_select1 bo i r = Some (map_option of_nat (select_of True (bi_bits i) (unat r)))"
proof -
  define n N R where "n = unat (la_len (bi_blocks i))" and "N = unat (la_len (bi_sblocks i))"
    and "R = unat r"
  let ?B = "bi_buf i" and ?c = "rank_of True (bi_buf i)"
  note D = bi_wfD [OF wf, folded n_def N_def]
  have n: "0 < n" using ne D(8) by (cases n) auto
  then have N: "0 < N" "52 * (N - 1) < n" "n \<le> 52 * N" using D(6) by auto
  have small: "?c x < 2 ^ 64" for x using rank_bi_buf_less [OF wf, of True x] by simp
  have mono: "x \<le> y \<Longrightarrow> ?c x \<le> ?c y" for x y by (rule rank_mono)
  note sb = bi_sblocks_entry [OF wf, folded N_def] and bb = bi_blocks_entry [OF wf, folded n_def]
  have full: "?c x = occ True ?B" if "64 * n \<le> x" for x using that D(4) by simp
  have lt: "do { e \<leftarrow> LogArray_entry bo (bi_sblocks i) k; Some (e < r) } =
      Some (?c (3328 * (k + 1)) < R)" if "k < N" for k
    using sb [OF that] by (simp add: of_nat_less_word [OF small] R_def)
  obtain s where s: "BitIndex_select1_sblock bo i r = Some s" "s < N" "?c (3328 * s) < R \<or> R = 0 \<and> s = 0"
      "R \<le> ?c (3328 * (s + 1)) \<or> s = N - 1"
    by (rule sblock_search [OF mono rank_0 N(1) lt])
      (use N(1) in \<open>simp_all add: BitIndex_select1_sblock_def LogArray_len_def flip: N_def\<close>)
  have sel: "select_of True (bi_bits i) R = select_of True ?B R"
    using bi_buf_eq [OF wf] by (auto simp: select_append select_beyond)
  show ?thesis
  proof (cases "?c (3328 * (s + 1)) < R")
    case True
    with s(4) N(1) have "s + 1 = N" by linarith
    then have "occ True ?B < R" using True N(3) full [of "3328 * (s + 1)"] by simp
    with True s sb sel show ?thesis
      by (simp add: BitIndex_select1_def of_nat_less_word [OF small] select_None_iff flip: R_def)
  next
    case False
    then have le: "R \<le> ?c (3328 * (s + 1))" by simp
    let ?gt = "\<lambda>mid. do { e \<leftarrow> LogArray_entry bo (bi_blocks i) mid;
      Some (e > of_nat (?c (3328 * (s + 1))) - r) }"
    have gt: "?gt j = Some (?c (64 * j) < R)" if "j < n" "j div 52 = s" for j
    proof -
      have "?c (64 * j) \<le> ?c (3328 * (s + 1))"
        using block_le_sblock_end [of j] that(2) by (intro rank_mono) simp
      from subrank_less [OF le [unfolded R_def] this small] bb [OF that(1)] that(2) show ?thesis
        by (simp add: R_def del: of_nat_diff)
    qed
    have sn: "52 * s < n" using s(2) N(2) by linarith
    obtain j where j: "BitIndex_select1_block bo i s (of_nat (?c (3328 * (s + 1))) - r) = Some j"
        "j < n" "j div 52 = s" "?c (64 * j) < R \<or> R = 0 \<and> j = 0" "R \<le> ?c (64 * j + 64) \<or> j = n - 1"
      by (rule block_search [OF mono sn s(3) le gt])
        (use n in \<open>simp_all add: BitIndex_select1_block_def LogArray_len_def SBLOCK_SIZE_def Let_def
          cong: if_cong flip: n_def\<close>)
    have top: "R \<le> ?c (64 * j + 64)"
      using j(5)
    proof
      assume "j = n - 1"
      then have "?c (64 * j + 64) = occ True ?B" using n by (intro full) simp
      then show ?thesis using le rank_le_occ [of True ?B "3328 * (s + 1)"] by simp
    qed
    have cj: "?c (64 * j) \<le> R" using j(4) by auto
    have "?c (64 * j) \<le> ?c (3328 * (s + 1))" using cj le by simp
    with cj le have tally: "r - (of_nat (?c (3328 + 3328 * s)) - of_nat (?c (3328 + 3328 * s) - ?c (64 * j))) =
        (of_nat (R - ?c (64 * j)) :: u64)"
      by (simp add: of_nat_diff R_def)
    from bi_block_word [OF wf] j(2) obtain bs w where bs: "BitIndex_block_bits i j = Some bs"
      "be_read_u64 bo bs = Some w" "word_bits w = take 64 (drop (64 * j) ?B)" unfolding n_def by blast
    have "unat (of_nat (R - ?c (64 * j)) :: u64) = R - ?c (64 * j)"
      using unsigned_less [of r, where 'a = nat] by (intro unat_of_nat_u64) (simp add: R_def)
    from select_in_block [OF bs(3) this j(4) top] s(1) sb [OF s(2)] False j(1,3) bb [OF j(2)] bs(1,2)
    show ?thesis
      by (simp add: BitIndex_select1_def of_nat_less_word [OF small] sel tally Let_def flip: R_def)
  qed
qed

end

context big_endian
begin

text \<open>
  The zeros are counted over the whole buffer, so the statement is about its bits;
  for a rank that the array has, the padding does not matter.
\<close>

lemma BitIndex_select0_buf:
  assumes wf: "bi_wf i" and ne: "bi_bits i \<noteq> []" and R: "unat r \<le> occ False (bi_buf i)"
  shows "BitIndex_select0 bo i r = Some (map_option of_nat (select_of False (bi_buf i) (unat r)))"
proof -
  define n N R where "n = unat (la_len (bi_blocks i))" and "N = unat (la_len (bi_sblocks i))"
    and "R = unat r"
  let ?B = "bi_buf i" and ?c = "rank_of True (bi_buf i)"
  define f where "f x = x - ?c x" for x
  note D = bi_wfD [OF wf, folded n_def N_def]
  have n: "0 < n" using ne D(8) by (cases n) auto
  then have N: "0 < N" "52 * (N - 1) < n" "n \<le> 52 * N" "N \<le> n" using D(6) by auto
  have mono: "f x \<le> f y" if "x \<le> y" for x y
    using rank_add [of True ?B x "y - x"] rank_le [of True "drop x ?B" "y - x"] that by (simp add: f_def)
  have f0: "f 0 = 0" by (simp add: f_def)
  have zeros: "f x = rank_of False ?B x" if "x \<le> 64 * n" for x
    using rank_complement [of x ?B] that D(4) by (simp add: f_def)
  have small: "f (3328 * (s + 1)) < 2 ^ 64" if "s < N" for s
    using that N(4) D(5) by (simp add: f_def)
  have sent: "of_nat (3328 * (s + 1)) - of_nat (?c (3328 * (s + 1))) = (of_nat (f (3328 * (s + 1))) :: u64)" for s
    using rank_le [of True ?B "3328 * (s + 1)"] unfolding f_def by (subst of_nat_diff) simp_all
  note sb = bi_sblocks_entry [OF wf, folded N_def] and bb = bi_blocks_entry [OF wf, folded n_def]
  have bent: "of_nat (52 - j mod 52) * 64 - of_nat (?c (3328 * (j div 52 + 1)) - ?c (64 * j)) =
      (of_nat (f (3328 * (j div 52 + 1)) - f (64 * j)) :: u64)" for j
  proof -
    let ?E = "3328 * (j div 52 + 1)"
    have E: "64 * (52 - j mod 52) = ?E - 64 * j"
    proof -
      have "64 * (52 - m) = 3328 * (q + 1) - 64 * (52 * q + m)" if "m < 52" for q m :: nat
        using that by simp
      from this [of "j mod 52" "j div 52"] show ?thesis by (simp only: mult_div_mod_eq)
    qed
    have le: "64 * j \<le> ?E" using block_le_sblock_end [of j] by simp
    have c: "?c ?E - ?c (64 * j) \<le> ?E - 64 * j"
      using rank_add [of True ?B "64 * j" "?E - 64 * j"] rank_le [of True "drop (64 * j) ?B" "?E - 64 * j"] le
      by simp
    have "of_nat (52 - j mod 52) * (64 :: u64) = of_nat (64 * (52 - j mod 52))" by simp
    also have "\<dots> - of_nat (?c ?E - ?c (64 * j)) = (of_nat ((?E - 64 * j) - (?c ?E - ?c (64 * j))) :: u64)"
      unfolding E using c by (rule of_nat_diff [symmetric])
    also have "(?E - 64 * j) - (?c ?E - ?c (64 * j)) = f ?E - f (64 * j)"
      unfolding f_def
      by (rule diff_diff_swap [OF le rank_mono [OF le] c rank_le rank_le])
    finally show ?thesis .
  qed
  have lt: "do { e \<leftarrow> LogArray_entry bo (bi_sblocks i) k;
      let q = of_nat ((1 + k) * SBLOCK_SIZE) * 64 - e; Some (q < r) } =
      Some (f (3328 * (k + 1)) < R)" if "k < N" for k
  proof -
    have "of_nat ((1 + k) * SBLOCK_SIZE) * (64 :: u64) = of_nat (3328 * (k + 1))"
      by (simp add: SBLOCK_SIZE_def algebra_simps)
    then show ?thesis
      using sb [OF that] sent [of k] of_nat_less_word [OF small [OF that], of r]
      by (simp only: Option.bind_lunit Let_def R_def)
  qed
  obtain s where s: "BitIndex_select0_sblock bo i r = Some s" "s < N" "f (3328 * s) < R \<or> R = 0 \<and> s = 0"
      "R \<le> f (3328 * (s + 1)) \<or> s = N - 1"
    by (rule sblock_search [OF mono f0 N(1) lt])
      (use N(1) in \<open>simp_all add: BitIndex_select0_sblock_def LogArray_len_def flip: N_def\<close>)
  have total: "R \<le> f (64 * n)" using R zeros [of "64 * n"] D(4) by (simp add: R_def)
  have le: "R \<le> f (3328 * (s + 1))"
    using s(4)
  proof
    assume "s = N - 1"
    then have "64 * n \<le> 3328 * (s + 1)" using N(1,3) by simp
    then show ?thesis using total mono [of "64 * n"] order_trans by blast
  qed
  let ?e = "of_nat (f (3328 * (s + 1))) :: u64"
  have gt: "do { e \<leftarrow> LogArray_entry bo (bi_blocks i) j;
      let q = of_nat (SBLOCK_SIZE - j mod SBLOCK_SIZE) * 64 - e; Some (q > ?e - r) } =
      Some (f (64 * j) < R)" if "j < n" "j div 52 = s" for j
  proof -
    have "f (64 * j) \<le> f (3328 * (s + 1))" using block_le_sblock_end [of j] that(2) by (intro mono) simp
    from subrank_less [OF le [unfolded R_def] this small [OF s(2)]] bb [OF that(1)] bent [of j] that(2)
    show ?thesis by (simp only: Option.bind_lunit Let_def R_def SBLOCK_SIZE_def)
  qed
  have sn: "52 * s < n" using s(2) N(2) by linarith
  obtain j where j: "BitIndex_select0_block bo i s (?e - r) = Some j" "j < n" "j div 52 = s"
      "f (64 * j) < R \<or> R = 0 \<and> j = 0" "R \<le> f (64 * j + 64) \<or> j = n - 1"
    by (rule block_search [OF mono sn s(3) le gt])
      (use n in \<open>simp_all add: BitIndex_select0_block_def LogArray_len_def SBLOCK_SIZE_def Let_def
          cong: if_cong flip: n_def\<close>)
  have top: "R \<le> f (64 * j + 64)"
    using j(5)
  proof
    assume "j = n - 1"
    then have "64 * j + 64 = 64 * n" using n by simp
    then show ?thesis using total by simp
  qed
  have fj: "f (64 * j) \<le> R" using j(4) f0 by auto
  then have tally: "r - (?e - of_nat (f (3328 * (s + 1)) - f (64 * j))) = (of_nat (R - f (64 * j)) :: u64)"
    using le by (simp add: of_nat_diff R_def)
  have z: "f (64 * j) = rank_of False ?B (64 * j)" "f (64 * j + 64) = rank_of False ?B (64 * j + 64)"
    using j(2) by (simp_all add: zeros)
  from bi_block_word [OF wf] j(2) obtain bs w where bs: "BitIndex_block_bits i j = Some bs"
    "be_read_u64 bo bs = Some w" "word_bits w = take 64 (drop (64 * j) ?B)" unfolding n_def by blast
  have "unat (of_nat (R - f (64 * j)) :: u64) = R - rank_of False ?B (64 * j)"
    using unsigned_less [of r, where 'a = nat] by (subst unat_of_nat_u64) (simp_all add: R_def z)
  note fin = select_in_block [OF bs(3) this j(4) [unfolded z] top [unfolded z]]
  have ge: "\<not> ?e < r" using of_nat_less_word [OF small [OF s(2)], of r] le by (simp add: R_def)
  have "of_nat ((1 + s) * SBLOCK_SIZE * 64) - of_nat (?c (3328 * (s + 1))) = ?e"
    using sent [of s] by (simp add: SBLOCK_SIZE_def algebra_simps)
  with s(1) sb [OF s(2)] ge j(1) bb [OF j(2)] bent [of j] bs(1,2) fin tally j(3) show ?thesis
    unfolding BitIndex_select0_def SBLOCK_SIZE_def
    by (simp only: Option.bind_lunit Let_def if_False rust_assert_True R_def)
qed

lemma BitIndex_select0_eq:
  assumes wf: "bi_wf i" and ne: "bi_bits i \<noteq> []" and R: "unat r \<le> occ False (bi_bits i)"
  shows "BitIndex_select0 bo i r = Some (map_option of_nat (select_of False (bi_bits i) (unat r)))"
proof -
  from bi_buf_eq [OF wf] obtain pad where "bi_buf i = bi_bits i @ replicate pad False" by blast
  with assms BitIndex_select0_buf [OF wf ne, of r] show ?thesis by (simp add: select_append)
qed

end

section \<open>The index as a provider of rank and select\<close>

lemma bi_bits_length: "bi_wf i \<Longrightarrow> length (bi_bits i) < 2 ^ 38"
  using bi_wfD(5,8) [of i] by simp

sublocale big_endian \<subseteq> bi: rank_select bi_wf bi_bits "BitIndex_rank1 bo" "BitIndex_select1 bo"
proof
  fix i :: BitIndex assume "bi_wf i"
  then show "length (bi_bits i) < 2 ^ 64" using bi_bits_length [of i] by simp
qed (simp_all add: BitIndex_rank1_eq BitIndex_select1_eq)

context big_endian
begin

lemma BitIndex_get_eq:
  "bi_wf i \<Longrightarrow> BitIndex_get i k = (if unat k < length (bi_bits i) then Some (bi_bits i ! unat k) else None)"
  using bi_wfD(1,7) [of i] by (simp add: BitIndex_get_def BitArray_get_eq bi_bits_def)

lemma BitIndex_rank0_eq:
  assumes wf: "bi_wf i" and k: "unat k < length (bi_bits i)"
  shows "BitIndex_rank0 bo i k = Some (of_nat (rank_of False (bi_bits i) (Suc (unat k))))"
proof -
  have "rank_of True (bi_bits i) (Suc (unat k)) + rank_of False (bi_bits i) (Suc (unat k)) = Suc (unat k)"
    using k by (intro rank_complement) simp
  then have "of_nat (rank_of True (bi_bits i) (Suc (unat k))) +
      of_nat (rank_of False (bi_bits i) (Suc (unat k))) = (1 + k :: u64)"
    by (metis of_nat_Suc of_nat_add of_nat_unat ucast_id)
  then have "1 + k - of_nat (rank_of True (bi_bits i) (Suc (unat k))) =
      (of_nat (rank_of False (bi_bits i) (Suc (unat k))) :: u64)"
    by (simp add: algebra_simps)
  then show ?thesis by (simp add: BitIndex_rank0_def BitIndex_rank1_eq [OF wf k])
qed

text \<open>The rank before a position, as the range queries compute it.\<close>

lemma rank_before:
  assumes "\<And>k. unat k < length bs \<Longrightarrow> rk k = Some (of_nat (rank_of b bs (Suc (unat k))))"
    and "unat p \<le> length bs" "p \<noteq> 0"
  shows "rk (p - 1) = Some (of_nat (rank_of b bs (unat p)))"
proof -
  obtain m where m: "unat p = Suc m" using assms(3) by (cases "unat p") (auto simp: unat_eq_0)
  from unat_pred(1) [OF m] m assms(1) [of "p - 1"] assms(2) show ?thesis by simp
qed

lemma rank_range:
  assumes "unat s \<le> unat e" "unat e \<le> length bs"
  shows "(of_nat (rank_of b bs (unat e)) - of_nat (rank_of b bs (unat s)) :: u64) =
    of_nat (occ b (take (unat e - unat s) (drop (unat s) bs)))"
  using rank_diff [OF assms(1), of b bs] rank_mono [OF assms(1), of b bs]
  by (metis of_nat_diff)

lemma BitIndex_rank1_from_range_eq:
  assumes wf: "bi_wf i" and r: "unat s \<le> unat e" "unat e \<le> length (bi_bits i)"
  shows "BitIndex_rank1_from_range bo i s e =
    Some (of_nat (occ True (take (unat e - unat s) (drop (unat s) (bi_bits i)))))"
proof (cases "s = e")
  case False
  with r(1) have e: "e \<noteq> 0" by (metis le_zero_eq unat_eq_0)
  have rb: "BitIndex_rank1 bo i (p - 1) = Some (of_nat (rank_of True (bi_bits i) (unat p)))"
    if "unat p \<le> length (bi_bits i)" "p \<noteq> 0" for p
    by (rule rank_before [OF BitIndex_rank1_eq [OF wf] that])
  show ?thesis
    using False rb [OF r(2) e] rb [of s] r rank_range [OF r, of True] rank_0 [of True "bi_bits i"]
    by (cases "s = 0") (simp_all add: BitIndex_rank1_from_range_def)
qed (simp add: BitIndex_rank1_from_range_def)

lemma BitIndex_rank0_from_range_eq:
  assumes wf: "bi_wf i" and r: "unat s \<le> unat e" "unat e \<le> length (bi_bits i)"
  shows "BitIndex_rank0_from_range bo i s e =
    Some (of_nat (occ False (take (unat e - unat s) (drop (unat s) (bi_bits i)))))"
proof (cases "s = e")
  case False
  with r(1) have e: "e \<noteq> 0" by (metis le_zero_eq unat_eq_0)
  have rb: "BitIndex_rank0 bo i (p - 1) = Some (of_nat (rank_of False (bi_bits i) (unat p)))"
    if "unat p \<le> length (bi_bits i)" "p \<noteq> 0" for p
    by (rule rank_before [OF BitIndex_rank0_eq [OF wf] that])
  show ?thesis
    using False rb [OF r(2) e] rb [of s] r rank_range [OF r, of False] rank_0 [of False "bi_bits i"]
    by (cases "s = 0") (simp_all add: BitIndex_rank0_from_range_def)
qed (simp add: BitIndex_rank0_from_range_def)

lemma unat_of_nat_add: "k + unat r < 2 ^ 64 \<Longrightarrow> unat (of_nat k + r :: u64) = k + unat r"
  using unat_of_nat_u64 [of "k + unat r"] by simp

text \<open>What both ranged select queries compute, once the ranked occurrence is known.\<close>

lemma select_range:
  fixes r s e :: u64
  assumes "0 < unat r" "unat s \<le> unat e" "unat e \<le> length bs" "length bs < 2 ^ 64"
  shows "(case map_option of_nat (select_of b bs (rank_of b bs (unat s) + unat r)) of None \<Rightarrow> None
      | Some k \<Rightarrow> if k < s \<or> e \<le> k then None else Some k) =
    map_option (\<lambda>k. s + of_nat k) (select_of b (take (unat e - unat s) (drop (unat s) bs)) (unat r))"
proof (cases "select_of b (drop (unat s) bs) (unat r)")
  case None
  then show ?thesis using assms by (simp add: select_from select_take)
next
  case (Some k)
  have "k < length bs - unat s" using Some by (simp add: select_Some_iff)
  then have k: "unat s + k < 2 ^ 64" using assms by simp
  then have "unat (of_nat (unat s + k) :: u64) = unat s + k" by (rule unat_of_nat_u64)
  then have "\<not> of_nat (unat s + k) < s" "e \<le> of_nat (unat s + k) \<longleftrightarrow> unat e \<le> unat s + k"
    unfolding word_less_nat_alt word_le_nat_alt by (simp_all only: not_less le_add1)
  moreover have "of_nat (unat s + k) = s + of_nat k" by simp
  moreover have "unat e \<le> unat s + k \<longleftrightarrow> \<not> k < unat e - unat s" using assms(2) by linarith
  ultimately show ?thesis
    using Some assms by (simp add: select_from select_take del: of_nat_add)
qed

lemma BitIndex_select1_from_range_eq:
  assumes wf: "bi_wf i" and r: "0 < unat r" "unat s \<le> unat e" "unat e \<le> length (bi_bits i)"
    and ne: "bi_bits i \<noteq> []" and ov: "length (bi_bits i) + unat r < 2 ^ 64"
  shows "BitIndex_select1_from_range bo i r s e = Some (map_option (\<lambda>k. s + of_nat k)
    (select_of True (take (unat e - unat s) (drop (unat s) (bi_bits i))) (unat r)))"
proof -
  let ?k = "rank_of True (bi_bits i) (unat s)"
  have off: "(if s = 0 then Some 0 else BitIndex_rank1 bo i (s - 1)) = Some (of_nat ?k)"
  proof (cases "s = 0")
    case False
    moreover have "BitIndex_rank1 bo i (s - 1) = Some (of_nat ?k)"
      by (rule rank_before [OF BitIndex_rank1_eq [OF wf]]) (use False r in simp_all)
    ultimately show ?thesis by simp
  qed simp
  have "?k + unat r < 2 ^ 64"
    using ov rank_le_occ [of True "bi_bits i" "unat s"] occ_le_length [of True "bi_bits i"] by simp
  then have "unat (of_nat ?k + r) = ?k + unat r" by (rule unat_of_nat_add)
  then have sel: "BitIndex_select1 bo i (of_nat ?k + r) =
      Some (map_option of_nat (select_of True (bi_bits i) (?k + unat r)))"
    by (simp add: BitIndex_select1_eq [OF wf ne])
  from r(1) have "r \<noteq> 0" by auto
  then show ?thesis
    using select_range [OF r, of True] ov
    unfolding BitIndex_select1_from_range_def off
    by (simp add: sel) (cases "select_of True (bi_bits i) (?k + unat r)"; simp)
qed

lemma BitIndex_select0_from_range_eq:
  assumes wf: "bi_wf i" and r: "0 < unat r" "unat s \<le> unat e" "unat e \<le> length (bi_bits i)"
    and ne: "bi_bits i \<noteq> []"
    and le: "rank_of False (bi_bits i) (unat s) + unat r \<le> occ False (bi_bits i)"
  shows "BitIndex_select0_from_range bo i r s e = Some (map_option (\<lambda>k. s + of_nat k)
    (select_of False (take (unat e - unat s) (drop (unat s) (bi_bits i))) (unat r)))"
proof -
  let ?k = "rank_of False (bi_bits i) (unat s)"
  have off: "(if s = 0 then Some 0 else BitIndex_rank0 bo i (s - 1)) = Some (of_nat ?k)"
  proof (cases "s = 0")
    case False
    moreover have "BitIndex_rank0 bo i (s - 1) = Some (of_nat ?k)"
      by (rule rank_before [OF BitIndex_rank0_eq [OF wf]]) (use False r in simp_all)
    ultimately show ?thesis by simp
  qed simp
  have len: "length (bi_bits i) < 2 ^ 64" using bi_bits_length [OF wf] by simp
  then have "?k + unat r < 2 ^ 64" using le occ_le_length [of False "bi_bits i"] by simp
  then have "unat (of_nat ?k + r) = ?k + unat r" by (rule unat_of_nat_add)
  then have sel: "BitIndex_select0 bo i (of_nat ?k + r) =
      Some (map_option of_nat (select_of False (bi_bits i) (?k + unat r)))"
    using le by (simp add: BitIndex_select0_eq [OF wf ne])
  from r(1) have "r \<noteq> 0" by auto
  then show ?thesis
    using select_range [OF r len, of False]
    unfolding BitIndex_select0_from_range_def off
    by (simp add: sel) (cases "select_of False (bi_bits i) (?k + unat r)"; simp)
qed

end

section \<open>Building an index\<close>

text \<open>The ones of a list of blocks.\<close>

definition ones :: "u64 list \<Rightarrow> nat" where
  "ones ws = sum_list (map count_ones ws)"

definition block_entry :: "u64 list \<Rightarrow> nat \<Rightarrow> u64" where
  "block_entry W j = of_nat (ones (take (52 * (j div 52 + 1)) W) - ones (take j W))"

definition sblock_entry :: "u64 list \<Rightarrow> nat \<Rightarrow> u64" where
  "sblock_entry W s = of_nat (ones (take (52 * (s + 1)) W))"

lemma ones_Nil [simp]: "ones [] = 0"
  by (simp add: ones_def)

lemma ones_Cons [simp]: "ones (w # ws) = count_ones w + ones ws"
  by (simp add: ones_def)

lemma ones_append [simp]: "ones (xs @ ys) = ones xs + ones ys"
  by (simp add: ones_def)

lemma count_ones_le: "count_ones w \<le> 64"
  using occ_le_length [of True "word_bits w"] by (simp add: count_ones_eq)

lemma ones_le: "ones ws \<le> 64 * length ws"
proof (induction ws)
  case (Cons w ws)
  then show ?case using count_ones_le [of w] by simp
qed simp

lemma rank_word_bits: "rank_of True (concat (map word_bits ws)) (64 * j) = ones (take j ws)"
proof (induction ws arbitrary: j)
  case (Cons w ws)
  show ?case
  proof (cases j)
    case (Suc k)
    then show ?thesis using Cons [of k] by (auto simp: rank_append count_ones_eq)
  qed simp
qed (simp add: rank_of_def)

lemma chunk_block_ranks_Inr: "chunk_block_ranks (map Inr ws) = Inr (map (\<lambda>w. of_nat (count_ones w)) ws)"
  by (induction ws) simp_all

lemma sum_list_block_ranks: "sum_list (map (\<lambda>w. of_nat (count_ones w)) ws) = (of_nat (ones ws) :: u64)"
  by (induction ws) simp_all

lemma push_subranks_ok:
  assumes "lab_inv b 12 vals" "length ws \<le> 52" "length vals + length ws < 2 ^ 32"
  shows "\<exists>b'. push_subranks b (of_nat (ones ws)) (map (\<lambda>w. of_nat (count_ones w)) ws) = Inr b' \<and>
    lab_inv b' 12 (vals @ map (\<lambda>j. of_nat (ones (drop j ws))) [0..<length ws])"
  using assms
proof (induction ws arbitrary: b vals)
  case Nil
  then show ?case by simp
next
  case (Cons w ws)
  let ?v = "of_nat (ones (w # ws)) :: u64"
  have "ones (w # ws) \<le> 64 * 52" using ones_le [of "w # ws"] Cons.prems(2) by (simp del: ones_Cons)
  moreover from this have "unat ?v = ones (w # ws)" by (intro unat_of_nat_u64) (simp del: ones_Cons)
  ultimately have "unat ?v < 2 ^ 12" by (simp del: ones_Cons)
  from lab_push_ok [OF Cons.prems(1) this] Cons.prems(3) obtain b' where
    b': "LogArrayFileBuilder_push b ?v = Inr b'" "lab_inv b' 12 (vals @ [?v])" by auto
  have "?v - of_nat (count_ones w) = of_nat (ones ws)" by simp
  moreover from Cons.IH [OF b'(2)] Cons.prems(2,3) obtain b'' where
    "push_subranks b' (of_nat (ones ws)) (map (\<lambda>w. of_nat (count_ones w)) ws) = Inr b''"
    "lab_inv b'' 12 ((vals @ [?v]) @ map (\<lambda>j. of_nat (ones (drop j ws))) [0..<length ws])" by auto
  moreover have "map (\<lambda>j. of_nat (ones (drop j (w # ws)))) [0..<length (w # ws)] =
      ?v # map (\<lambda>j. of_nat (ones (drop j ws)) :: u64) [0..<length ws]"
    unfolding length_Cons map_upt_Suc by simp
  ultimately show ?case using b'(1) by (simp del: upt_Suc ones_Cons)
qed

text \<open>The blocks of one more chunk behind those of the full chunks \<open>P\<close>.\<close>

lemma block_entries_chunk:
  assumes "52 dvd length P" "W = P @ rest"
  shows "map (\<lambda>j. of_nat (ones (drop j (take 52 rest)))) [0..<length (take 52 rest)] =
    map (block_entry W) [length P..<length P + length (take 52 rest)]"
proof (rule nth_equalityI)
  fix i assume "i < length (map (\<lambda>j. of_nat (ones (drop j (take 52 rest))) :: u64) [0..<length (take 52 rest)])"
  then have i: "i < length (take 52 rest)" "i < 52" by simp_all
  obtain q where q: "length P = 52 * q" using assms(1) by (elim dvdE)
  then have "(length P + i) div 52 = q" using i(2) by (intro div_nat_eqI) simp_all
  then have "52 * ((length P + i) div 52 + 1) = length P + 52" using q by simp
  then have "block_entry W (length P + i) = of_nat (ones P + ones (take 52 rest) - (ones P + ones (take i rest)))"
    by (simp add: block_entry_def assms(2))
  moreover have "take 52 rest = take i rest @ drop i (take 52 rest)"
    using i(2) by (metis append_take_drop_id min.absorb1 less_imp_le take_take)
  then have "ones (take 52 rest) = ones (take i rest) + ones (drop i (take 52 rest))"
    by (metis ones_append)
  ultimately show "map (\<lambda>j. of_nat (ones (drop j (take 52 rest)))) [0..<length (take 52 rest)] ! i =
      map (block_entry W) [length P..<length P + length (take 52 rest)] ! i"
    using i(1) by simp
qed simp

lemma build_bitindex_loop_ok:
  assumes chunks: "chunks_ok chunks" and W: "W = P @ rest" "length W < 2 ^ 32"
    and P: "rest = [] \<or> 52 dvd length P"
    and bb: "lab_inv bb 12 (map (block_entry W) [0..<length P])"
    and sb: "lab_inv sb 64 (map (sblock_entry W) [0..<(length P + 51) div 52])"
  shows "\<exists>bb' sb'. build_bitindex_loop bb sb (of_nat (ones P)) (chunks 52 (map Inr rest)) = Inr (bb', sb') \<and>
    lab_inv bb' 12 (map (block_entry W) [0..<length W]) \<and>
    lab_inv sb' 64 (map (sblock_entry W) [0..<(length W + 51) div 52])"
  using W(1) P bb sb
proof (induction "length rest" arbitrary: rest P bb sb rule: less_induct)
  case less
  have ch: "chunks 52 xs = (if xs = [] then [] else take 52 xs # chunks 52 (drop 52 xs))" for xs
    using chunks by (simp add: chunks_ok_def)
  show ?case
  proof (cases "rest = []")
    case True
    with less.prems show ?thesis by (simp add: ch [of "[]"])
  next
    case False
    let ?c = "take 52 rest" and ?d = "drop 52 rest"
    have dvd: "52 dvd length P" using less.prems(2) False by simp
    have lenW: "length W = length P + length rest" using less.prems(1) by simp
    have "\<exists>bb'. push_subranks bb (of_nat (ones ?c)) (map (\<lambda>w. of_nat (count_ones w)) ?c) = Inr bb' \<and>
        lab_inv bb' 12 (map (block_entry W) [0..<length P] @
          map (\<lambda>j. of_nat (ones (drop j ?c))) [0..<length ?c])"
      using lenW W(2) by (intro push_subranks_ok less.prems(3)) simp_all
    then obtain bb' where bb': "push_subranks bb (of_nat (ones ?c)) (map (\<lambda>w. of_nat (count_ones w)) ?c) = Inr bb'"
        "lab_inv bb' 12 (map (block_entry W) [0..<length (P @ ?c)])"
      unfolding block_entries_chunk [OF dvd less.prems(1)] map_append [symmetric]
        upt_add_eq_append [OF le0, symmetric] length_append by auto
    obtain q where q: "length P = 52 * q" using dvd by (elim dvdE)
    have sl: "(length P + 51) div 52 = q" "(length (P @ ?c) + 51) div 52 = Suc q"
      using q False by (auto intro!: div_nat_eqI simp: Suc_le_eq)
    have v: "of_nat (ones P) + of_nat (ones ?c) = sblock_entry W q"
      using q by (simp add: sblock_entry_def less.prems(1))
    have "unat (sblock_entry W q) < 2 ^ 64" using unsigned_less [of "sblock_entry W q", where 'a = nat] by simp
    from lab_push_ok [OF less.prems(4) this] sl(1) q lenW W(2) obtain sb' where
      sb': "LogArrayFileBuilder_push sb (sblock_entry W q) = Inr sb'"
      "lab_inv sb' 64 (map (sblock_entry W) [0..<q] @ [sblock_entry W q])" by auto
    then have sb2: "lab_inv sb' 64 (map (sblock_entry W) [0..<(length (P @ ?c) + 51) div 52])"
      unfolding sl(2) by simp
    have step: "build_bitindex_loop bb sb (of_nat (ones P)) (chunks 52 (map Inr rest)) =
        build_bitindex_loop bb' sb' (of_nat (ones (P @ ?c))) (chunks 52 (map Inr ?d))"
      using False bb'(1) sb'(1) v
      by (subst ch) (simp add: take_map drop_map chunk_block_ranks_Inr sum_list_block_ranks Let_def)
    have "?d = [] \<or> 52 dvd length (P @ ?c)" using dvd by (auto simp: min_def)
    from less.hyps [OF _ _ this bb'(2) sb2] False less.prems(1) show ?thesis unfolding step by simp
  qed
qed

lemma block_width: "unat (64 - of_nat (leading_zeros (of_nat (SBLOCK_SIZE * 64))) :: u8) = 12"
proof -
  have "bit_len 3328 = 12" by (simp add: bit_len.simps)
  then show ?thesis by (simp add: leading_zeros_def SBLOCK_SIZE_def)
qed

lemma bi_wf_entries:
  assumes ba: "ba_wf a" "buf_bits (ba_buf a) = concat (map word_bits ws)"
      "\<forall>k. unat (ba_len a) \<le> k \<and> k < 8 * length (ba_buf a) \<longrightarrow> \<not> buf_bits (ba_buf a) ! k"
    and bl: "la_wf blocks" "la_elems blocks = map (block_entry ws) [0..<length ws]"
    and sl: "la_wf sblocks" "la_elems sblocks = map (sblock_entry ws) [0..<(length ws + 51) div 52]"
    and ws: "length ws < 2 ^ 32" "length ws = (unat (ba_len a) + 63) div 64"
  shows "bi_wf \<lparr>bi_array = a, bi_blocks = blocks, bi_sblocks = sblocks\<rparr>"
proof -
  have len: "unat (la_len blocks) = length ws" "unat (la_len sblocks) = (length ws + 51) div 52"
    using bl(2) sl(2) by (metis length_la_elems length_map length_upt diff_zero)+
  have fits: "ones (take j ws) - x < 2 ^ 64" for j x
    using ones_le [of "take j ws"] ws(1) by (simp add: min_def split: if_splits)
  have c: "rank_of True (concat (map word_bits ws)) (3328 + 3328 * m) = ones (take (52 + 52 * m) ws)" for m
    using rank_word_bits [of ws "52 + 52 * m"] by simp
  have lc: "length (concat (map word_bits ws)) = 8 * length (ba_buf a)"
    using length_buf_bits [of "ba_buf a"] unfolding ba(2) .
  show ?thesis
    using ba bl sl ws len fits [of _ 0]
    by (simp add: bi_wf_def block_entry_def sblock_entry_def c lc rank_word_bits unat_of_nat_u64 [OF fits]
        unat_of_nat_u64 del: of_nat_diff)
qed

context big_endian
begin

lemma BitIndex_build_inv:
  assumes framed: "framed_blocks_ok bo framed" and chunks: "chunks_ok chunks"
    and inv: "bab_inv b bits" and len: "length bits + 63 < 2 ^ 38"
  obtains blocks sblocks i where
    "build_bitindex bo framed chunks (BitArrayFileBuilder_finalize b) = Some (Inr (blocks, sblocks))"
    "BitIndex_from_maps bo (BitArrayFileBuilder_finalize b) blocks sblocks = Some i"
    "bi_wf i" "bi_bits i = bits"
proof -
  from len have "length bits < 2 ^ 64" by simp
  with bab_finalize [OF inv] obtain data where
    fin: "BitArrayFileBuilder_finalize b = data @ to_be_bytes (of_nat (length bits))"
    and data: "bits_data bits data" by blast
  obtain a where a: "BitArray_from_bits bo (data @ to_be_bytes (of_nat (length bits))) = Some (Inr a)"
    "ba_wf a" "ba_bits a = bits" "ba_buf a = data" "unat (ba_len a) = length bits"
    using BitArray_from_bits_data [OF data \<open>length bits < 2 ^ 64\<close>] by blast
  obtain ws where ws: "bitarray_stream_blocks framed (data @ to_be_bytes (of_nat (length bits))) = map Inr ws"
    "concat (map word_bits ws) = buf_bits data" "64 * length ws = 8 * length data"
    using bits_data_blocks [OF data framed] by metis
  have n: "length ws = (length bits + 63) div 64" "length ws < 2 ^ 32"
    using ws(3) data len by (simp_all add: bits_data_def)
  have "lab_inv (LogArrayFileBuilder_new [] (64 - of_nat (leading_zeros (of_nat (SBLOCK_SIZE * 64))))) 12 []"
    using lab_inv_new [of "64 - of_nat (leading_zeros (of_nat (SBLOCK_SIZE * 64)))"] unfolding block_width by simp
  moreover have "lab_inv (LogArrayFileBuilder_new [] 64) 64 []" using lab_inv_new [of 64] by simp
  ultimately obtain bb sb where bs: "build_bitindex_loop
      (LogArrayFileBuilder_new [] (64 - of_nat (leading_zeros (of_nat (SBLOCK_SIZE * 64)))))
      (LogArrayFileBuilder_new [] 64) 0 (chunks 52 (map Inr ws)) = Inr (bb, sb)"
      "lab_inv bb 12 (map (block_entry ws) [0..<length ws])"
      "lab_inv sb 64 (map (sblock_entry ws) [0..<(length ws + 51) div 52])"
    using build_bitindex_loop_ok [OF chunks, of ws "[]" ws] n(2) by (simp del: of_nat_mult) blast
  have be: "unat (block_entry ws j) < 2 ^ 12" for j
  proof -
    have "ones (take (52 * (j div 52 + 1)) ws) - ones (take j ws) \<le> 64 * 52"
    proof -
      have "j \<le> 52 * (j div 52 + 1)" "52 * (j div 52 + 1) - j \<le> 52" by (simp_all add: minus_mod_eq_mult_div [symmetric])
      then have "take (52 * (j div 52 + 1)) ws = take j ws @ take (52 * (j div 52 + 1) - j) (drop j ws)"
        by (metis le_add_diff_inverse take_add)
      then have "ones (take (52 * (j div 52 + 1)) ws) - ones (take j ws) =
          ones (take (52 * (j div 52 + 1) - j) (drop j ws))" by simp
      also have "\<dots> \<le> 64 * 52"
        using ones_le [of "take (52 * (j div 52 + 1) - j) (drop j ws)"] \<open>52 * (j div 52 + 1) - j \<le> 52\<close>
        by (simp add: min_def split: if_splits)
      finally show ?thesis .
    qed
    then show ?thesis by (simp add: block_entry_def unat_of_nat_u64 del: of_nat_diff)
  qed
  obtain bf bl where bl: "LogArrayFileBuilder_finalize bo bb = Some bf" "LogArray_parse bo bf = Some (Inr bl)"
      "la_wf bl" "la_elems bl = map (block_entry ws) [0..<length ws]"
      "unat (la_len bl) = length (map (block_entry ws) [0..<length ws])"
    by (rule lab_finalize_parse [OF bs(2)]) (use n(2) be in auto)
  have se: "unat (v :: u64) < 2 ^ 64" for v using unsigned_less [of v, where 'a = nat] by simp
  obtain sf sl where sl: "LogArrayFileBuilder_finalize bo sb = Some sf" "LogArray_parse bo sf = Some (Inr sl)"
      "la_wf sl" "la_elems sl = map (sblock_entry ws) [0..<(length ws + 51) div 52]"
      "unat (la_len sl) = length (map (sblock_entry ws) [0..<(length ws + 51) div 52])"
    by (rule lab_finalize_parse [OF bs(3)]) (use n(2) se in auto)
  let ?i = "\<lparr>bi_array = a, bi_blocks = bl, bi_sblocks = sl\<rparr>"
  have "build_bitindex bo framed chunks (data @ to_be_bytes (of_nat (length bits))) = Some (Inr (bf, sf))"
    using ws(1) bs(1) bl(1) sl(1) by (simp add: build_bitindex_def Let_def SBLOCK_SIZE_def)
  moreover have "BitIndex_from_maps bo (data @ to_be_bytes (of_nat (length bits))) bf sf = Some ?i"
    using a bl sl n by (simp add: BitIndex_from_maps_def BitIndex_from_parts_def unwrap_def LogArray_len_def
        BitArray_len_def SBLOCK_SIZE_def add.commute [of 51])
  moreover have "bi_wf ?i"
    using a data ws(2) n by (intro bi_wf_entries [OF a(2) _ _ bl(3,4) sl(3,4) n(2)]) (simp_all add: bits_data_def)
  ultimately show ?thesis using that [of bf sf ?i] a(3) by (simp add: bi_bits_def fin)
qed

lemma BitIndex_build:
  assumes "framed_blocks_ok bo framed" and "chunks_ok chunks" and "length bits + 63 < 2 ^ 38"
  obtains bitarray blocks sblocks i where
    "BitArrayFileBuilder_finalize (foldl BitArrayFileBuilder_push (BitArrayFileBuilder_new []) bits) = bitarray"
    "build_bitindex bo framed chunks bitarray = Some (Inr (blocks, sblocks))"
    "BitIndex_from_maps bo bitarray blocks sblocks = Some i" "bi_wf i" "bi_bits i = bits"
proof -
  have "bab_inv (foldl BitArrayFileBuilder_push (BitArrayFileBuilder_new []) bits) bits"
    using bab_inv_foldl [OF bab_inv_new, of bits] assms(3) by simp
  from BitIndex_build_inv [OF assms(1,2) this assms(3)] that [OF refl] show ?thesis by metis
qed

end

section \<open>Properties\<close>

fun chunks_std :: block_chunks where
  "chunks_std n xs = (if xs = [] \<or> n = 0 then [] else take n xs # chunks_std n (drop n xs))"

declare chunks_std.simps [simp del]

lemma chunks_std_ok: "chunks_ok chunks_std"
  by (auto simp: chunks_ok_def chunks_std.simps)

text \<open>An index over any bits, built and loaded by the code, for the witnesses.\<close>

lemma BitIndex_std:
  assumes "length bits + 63 < 2 ^ 38"
  obtains i where "bi_wf i" "bi_bits i = bits"
  using std.BitIndex_build [OF framed_blocks_std_ok chunks_std_ok assms] by metis

text \<open>
  C14. Building an index over fewer than \<open>2 ^ 38 - 63\<close> bits succeeds, in one pass over
  the file of the bit array, and loading the three files succeeds: no check of
  \<open>from_bits\<close>, \<open>parse\<close> or \<open>from_parts\<close> fails, the index holds the bits, and its
  entries are the counts of its blocks and superblocks.
\<close>

theorem build_bitindex_loads:
  assumes "big_endian bo" and "framed_blocks_ok bo framed" and "chunks_ok chunks"
    and "length bits + 63 < 2 ^ 38"
  shows "\<exists>b blocks sblocks i.
    BitArrayFileBuilder_push_all (BitArrayFileBuilder_new []) (map Inr bits) = Inr b \<and>
    build_bitindex bo framed chunks (BitArrayFileBuilder_finalize b) = Some (Inr (blocks, sblocks)) \<and>
    BitIndex_from_maps bo (BitArrayFileBuilder_finalize b) blocks sblocks = Some i \<and>
    bi_wf i \<and> BitIndex_iter i = Some bits"
proof -
  from big_endian.BitIndex_build [OF assms] obtain bitarray blocks sblocks i where
    i: "BitArrayFileBuilder_finalize (foldl BitArrayFileBuilder_push (BitArrayFileBuilder_new []) bits) = bitarray"
    "build_bitindex bo framed chunks bitarray = Some (Inr (blocks, sblocks))"
    "BitIndex_from_maps bo bitarray blocks sblocks = Some i" "bi_wf i" "bi_bits i = bits" by blast
  then have "BitIndex_iter i = Some bits"
    using bi_wfD(1) [OF i(4)] by (simp add: BitIndex_iter_def BitArray_iter_eq bi_bits_def)
  with i show ?thesis by auto
qed

theorem build_bitindex_loads_witness:
  "\<exists>b blocks sblocks i.
    BitArrayFileBuilder_push_all (BitArrayFileBuilder_new []) (map Inr (replicate 5000 True)) = Inr b \<and>
    build_bitindex byteorder_std framed_blocks_std chunks_std (BitArrayFileBuilder_finalize b) =
      Some (Inr (blocks, sblocks)) \<and>
    BitIndex_from_maps byteorder_std (BitArrayFileBuilder_finalize b) blocks sblocks = Some i \<and>
    bi_wf i \<and> BitIndex_iter i = Some (replicate 5000 True)"
  by (rule build_bitindex_loads [OF std.big_endian_axioms framed_blocks_std_ok chunks_std_ok]) simp

text \<open>
  C15. Rank: at every index of the array, \<open>rank1\<close> and \<open>rank0\<close> return the number of ones
  and of zeros up to and including the index, and the ranged queries the number in
  the range, without a panic.
\<close>

theorem BitIndex_rank_correct:
  assumes "big_endian bo" and "bi_wf i"
  shows "(unat k < BitIndex_len i \<longrightarrow>
      BitIndex_rank1 bo i k = Some (of_nat (rank_of True (bi_bits i) (unat k + 1))) \<and>
      BitIndex_rank0 bo i k = Some (of_nat (rank_of False (bi_bits i) (unat k + 1)))) \<and>
    (s \<le> e \<longrightarrow> unat e \<le> BitIndex_len i \<longrightarrow>
      BitIndex_rank1_from_range bo i s e =
        Some (of_nat (occ True (take (unat e - unat s) (drop (unat s) (bi_bits i))))) \<and>
      BitIndex_rank0_from_range bo i s e =
        Some (of_nat (occ False (take (unat e - unat s) (drop (unat s) (bi_bits i))))))"
  using big_endian.BitIndex_rank1_eq [OF assms, of k] big_endian.BitIndex_rank0_eq [OF assms, of k]
    big_endian.BitIndex_rank1_from_range_eq [OF assms, of s e]
    big_endian.BitIndex_rank0_from_range_eq [OF assms, of s e] bi_wfD(7) [OF assms(2)]
  by (simp add: BitIndex_len_def BitArray_len_def word_le_nat_alt del: of_nat_Suc)

theorem BitIndex_rank_correct_witness:
  "\<exists>i. bi_bits i = [True, False, True] \<and> BitIndex_rank1 byteorder_std i 2 = Some 2 \<and>
    BitIndex_rank0 byteorder_std i 2 = Some 1"
proof -
  obtain i where i: "bi_wf i" "bi_bits i = [True, False, True]"
    by (rule BitIndex_std [of "[True, False, True]"]) simp_all
  moreover have "BitIndex_len i = 3"
    using bi_wfD(7) [OF i(1)] i(2) by (simp add: BitIndex_len_def BitArray_len_def)
  ultimately show ?thesis
    using BitIndex_rank_correct [OF std.big_endian_axioms i(1), of 2 0 0]
    by (intro exI [of _ i]) (simp add: rank_of_def)
qed





text \<open>
  C25. Beyond the zeros of the array, \<open>select0\<close> sees the padding of the last block: for a
  rank that only the padding reaches it returns an index outside the array, where
  \<open>select1\<close> returns \<open>None\<close>.
\<close>

theorem BitIndex_select0_padding:
  assumes "big_endian bo" and "bi_wf i" and "bi_bits i \<noteq> []"
    and "occ False (bi_bits i) < unat r" "unat r \<le> occ False (bi_buf i)"
  shows "\<exists>k. BitIndex_select0 bo i r = Some (Some k) \<and> BitIndex_len i \<le> unat k"
proof -
  from bi_buf_eq [OF assms(2)] obtain pad where
    pad: "bi_buf i = bi_bits i @ replicate pad False" by blast
  have "select_of False (bi_buf i) (unat r) \<noteq> None" using assms(4,5) by (simp add: select_None_iff)
  then obtain k where k: "select_of False (replicate pad False) (unat r - occ False (bi_bits i)) = Some k"
    "select_of False (bi_buf i) (unat r) = Some (length (bi_bits i) + k)"
    using assms(4) by (auto simp: pad select_append)
  have "length (bi_bits i) + k < 2 ^ 64"
    using k(2) bi_wfD(4,5) [OF assms(2)] by (simp add: select_Some_iff)
  then have "unat (of_nat (length (bi_bits i) + k) :: u64) = length (bi_bits i) + k"
    by (rule unat_of_nat_u64)
  with k(2) big_endian.BitIndex_select0_buf [OF assms(1-3,5)] bi_wfD(7) [OF assms(2)] show ?thesis
    by (simp add: BitIndex_len_def BitArray_len_def del: of_nat_add)
qed

theorem BitIndex_select0_padding_witness:
  "\<exists>i k. bi_bits i = [True] \<and> BitIndex_select0 byteorder_std i 1 = Some (Some k) \<and> 1 \<le> unat k"
proof -
  obtain i where i: "bi_wf i" "bi_bits i = [True]" by (rule BitIndex_std [of "[True]"]) simp_all
  then have ne: "bi_bits i \<noteq> []" by simp
  from bi_buf_eq [OF i(1)] i(2) obtain pad where pad: "bi_buf i = True # replicate pad False" by auto
  from bi_wfD(4) [OF i(1)] have "1 + pad = 64 * unat (la_len (bi_blocks i))"
    unfolding pad by simp
  then have "1 \<le> pad" by presburger
  then have "1 \<le> occ False (bi_buf i)" by (simp add: pad)
  moreover have "BitIndex_len i = 1"
    using bi_wfD(7) [OF i(1)] i(2) by (simp add: BitIndex_len_def BitArray_len_def)
  ultimately show ?thesis
    using BitIndex_select0_padding [OF std.big_endian_axioms i(1) ne, of 1] i(2) by auto
qed

end
