(* ===== verification/AdjacencyList.thy ===== *)
theory AdjacencyList
  imports BitIndex
begin

text \<open>
  Adjacency lists (\<open>src/structure/adjacencylist.rs\<close>): pairs of a left and a right id in
  order, with the right ids in a log array and, in a bit index of the same length, a
  one at the last right id of every left id. A left id without a right id holds a
  single 0. The model has the queries, the iterator, the stream of pairs and the
  builder, whose bit array lags one entry behind its number array.

  The abstract view is the list of segments, one per left id from 1 on; \<open>al_wf\<close> relates
  an adjacency list to its segments, and the builder is shown to produce the segments
  of the pairs that were pushed.
\<close>

section \<open>Model\<close>

record AdjacencyList =
  al_nums :: LogArray
  al_bits :: BitIndex

definition AdjacencyList_from_parts :: "bool \<Rightarrow> LogArray \<Rightarrow> BitIndex \<Rightarrow> AdjacencyList panics" where
  "AdjacencyList_from_parts debug_assertions nums bits =
    do { rust_assert (debug_assertions \<longrightarrow> LogArray_len nums = BitIndex_len bits);
         Some \<lparr>al_nums = nums, al_bits = bits\<rparr> }"

definition AdjacencyList_parse ::
  "bool \<Rightarrow> byteorder \<Rightarrow> bytes \<Rightarrow> bytes \<Rightarrow> bytes \<Rightarrow> bytes \<Rightarrow> AdjacencyList panics" where
  "AdjacencyList_parse debug_assertions bo nums_slice bits_slice bits_block_slice bits_sblock_slice =
    do { nums \<leftarrow> LogArray_parse bo nums_slice \<bind> unwrap;
         bit_array \<leftarrow> BitArray_from_bits bo bits_slice \<bind> unwrap;
         bits_block_array \<leftarrow> LogArray_parse bo bits_block_slice \<bind> unwrap;
         bits_sblock_array \<leftarrow> LogArray_parse bo bits_sblock_slice \<bind> unwrap;
         bits \<leftarrow> BitIndex_from_parts bit_array bits_block_array bits_sblock_array;
         AdjacencyList_from_parts debug_assertions nums bits }"

definition AdjacencyList_left_count :: "byteorder \<Rightarrow> AdjacencyList \<Rightarrow> usize panics" where
  "AdjacencyList_left_count bo self =
    (if BitIndex_len (al_bits self) = 0 then Some 0
     else do { r \<leftarrow> BitIndex_rank1 bo (al_bits self) (of_nat (BitIndex_len (al_bits self)) - 1);
               Some (unat r) })"

definition AdjacencyList_right_count :: "AdjacencyList \<Rightarrow> usize" where
  "AdjacencyList_right_count self = BitIndex_len (al_bits self)"

text \<open>\<open>Option::unwrap\<close> of the result of \<open>select1\<close> is a bind: \<open>None\<close> is the panic.\<close>

definition AdjacencyList_offset_for :: "byteorder \<Rightarrow> AdjacencyList \<Rightarrow> u64 \<Rightarrow> u64 panics" where
  "AdjacencyList_offset_for bo self index =
    (if index = 1 then Some 0
     else do { s \<leftarrow> BitIndex_select1 bo (al_bits self) (index - 1); k \<leftarrow> s; Some (k + 1) })"

definition AdjacencyList_pair_at_pos :: "byteorder \<Rightarrow> AdjacencyList \<Rightarrow> u64 \<Rightarrow> (u64 \<times> u64) panics" where
  "AdjacencyList_pair_at_pos bo self pos =
    do { l \<leftarrow> (if pos = 0 then Some 0 else BitIndex_rank1 bo (al_bits self) (pos - 1));
         let left = l + 1;
         right \<leftarrow> LogArray_entry bo (al_nums self) (unat pos);
         Some (left, right) }"

definition AdjacencyList_left_at_pos :: "byteorder \<Rightarrow> AdjacencyList \<Rightarrow> u64 \<Rightarrow> u64 panics" where
  "AdjacencyList_left_at_pos bo self pos =
    (if pos = 0 then Some 1
     else do { r \<leftarrow> BitIndex_rank1 bo (al_bits self) (pos - 1); Some (r + 1) })"

definition AdjacencyList_bit_at_pos :: "AdjacencyList \<Rightarrow> u64 \<Rightarrow> bool panics" where
  "AdjacencyList_bit_at_pos self pos = BitIndex_get (al_bits self) pos"

definition AdjacencyList_num_at_pos :: "byteorder \<Rightarrow> AdjacencyList \<Rightarrow> u64 \<Rightarrow> u64 panics" where
  "AdjacencyList_num_at_pos bo self pos = LogArray_entry bo (al_nums self) (unat pos)"

definition AdjacencyList_get :: "byteorder \<Rightarrow> AdjacencyList \<Rightarrow> u64 \<Rightarrow> LogArray panics" where
  "AdjacencyList_get bo self index =
    do { rust_assert (\<not> index < 1);
         count \<leftarrow> AdjacencyList_left_count bo self;
         rust_assert (\<not> index > of_nat count);
         start \<leftarrow> AdjacencyList_offset_for bo self index;
         s \<leftarrow> BitIndex_select1 bo (al_bits self) index;
         end' \<leftarrow> s;
         let length = end' - start + 1;
         LogArray_slice (al_nums self) (unat start) (unat length) }"

record AdjacencyListIterator =
  ali_pos :: usize
  ali_left :: u64
  ali_bits :: BitIndex
  ali_nums :: LogArray

definition AdjacencyList_iter :: "AdjacencyList \<Rightarrow> AdjacencyListIterator" where
  "AdjacencyList_iter self =
    \<lparr>ali_pos = 0, ali_left = 1, ali_bits = al_bits self, ali_nums = al_nums self\<rparr>"

text \<open>The loop of \<open>next\<close> skips the entries of empty left ids.\<close>

function AdjacencyListIterator_next ::
  "byteorder \<Rightarrow> AdjacencyListIterator \<Rightarrow> ((u64 \<times> u64) option \<times> AdjacencyListIterator) panics" where
  "AdjacencyListIterator_next bo self =
    (if ali_pos self \<ge> BitIndex_len (ali_bits self) then Some (None, self)
     else do { bit \<leftarrow> BitIndex_get (ali_bits self) (of_nat (ali_pos self));
               num \<leftarrow> LogArray_entry bo (ali_nums self) (ali_pos self);
               let result = (ali_left self, num);
               let self' = self\<lparr>ali_left := (if bit then ali_left self + 1 else ali_left self),
                                ali_pos := ali_pos self + 1\<rparr>;
               if num = 0 then AdjacencyListIterator_next bo self'
               else Some (Some result, self') })"
  by pat_completeness auto
termination
  by (relation "measure (\<lambda>(bo, self). BitIndex_len (ali_bits self) - ali_pos self)") auto

declare AdjacencyListIterator_next.simps [simp del]

lemma AdjacencyListIterator_progress:
  "AdjacencyListIterator_next bo self = Some (Some p, self') \<Longrightarrow>
    ali_bits self' = ali_bits self \<and> ali_pos self < ali_pos self' \<and>
    ali_pos self < BitIndex_len (ali_bits self)"
proof (induction bo self rule: AdjacencyListIterator_next.induct)
  case (1 bo self)
  show ?case
    using "1.prems"
    by (subst (asm) AdjacencyListIterator_next.simps)
      (auto simp: Let_def split: if_splits bind_splits dest!: "1.IH" [rotated -1])
qed

function AdjacencyListIterator_collect ::
  "byteorder \<Rightarrow> AdjacencyListIterator \<Rightarrow> (u64 \<times> u64) list panics" where
  "AdjacencyListIterator_collect bo self =
    (case AdjacencyListIterator_next bo self of
       None \<Rightarrow> None
     | Some (None, _) \<Rightarrow> Some []
     | Some (Some p, self') \<Rightarrow> map_option ((#) p) (AdjacencyListIterator_collect bo self'))"
  by pat_completeness auto
termination
  by (relation "measure (\<lambda>(bo, self). BitIndex_len (ali_bits self) - ali_pos self)")
    (auto dest: AdjacencyListIterator_progress)

declare AdjacencyListIterator_collect.simps [simp del]

text \<open>
  \<open>AdjacencyBitCountStream\<close> numbers the bits it reads by the left id they belong to; an
  error passes through. The combinators \<open>zip\<close>, \<open>map\<close> and \<open>try_filter\<close> of the stream of
  pairs are the list functions of that name, where \<open>try_filter\<close> keeps the errors.
\<close>

fun AdjacencyBitCountStream :: "u64 \<Rightarrow> (io_error + bool) list \<Rightarrow> (io_error + u64) list" where
  "AdjacencyBitCountStream cnt [] = []"
| "AdjacencyBitCountStream cnt (Inl e # stream) = Inl e # AdjacencyBitCountStream cnt stream"
| "AdjacencyBitCountStream cnt (Inr b # stream) =
    Inr cnt # AdjacencyBitCountStream (if b then cnt + 1 else cnt) stream"

definition try_pair :: "(io_error + u64) \<times> (io_error + u64) \<Rightarrow> io_error + u64 \<times> u64" where
  "try_pair lr = (case lr of (Inl e, _) \<Rightarrow> Inl e | (Inr left, Inl e) \<Rightarrow> Inl e
                  | (Inr left, Inr right) \<Rightarrow> Inr (left, right))"

definition adjacency_list_stream_pairs ::
  "byteorder \<Rightarrow> framed_blocks \<Rightarrow> framed_entries \<Rightarrow> bytes \<Rightarrow> bytes \<Rightarrow>
    (io_error + (io_error + u64 \<times> u64) list) panics" where
  "adjacency_list_stream_pairs bo framed_b framed_e bits_file nums_file =
    do { bits \<leftarrow> bitarray_stream_bits bo framed_b bits_file;
         case bits of Inl e \<Rightarrow> Some (Inl e)
         | Inr bits \<Rightarrow>
             do { nums \<leftarrow> logarray_stream_entries bo framed_e nums_file;
                  case nums of Inl e \<Rightarrow> Some (Inl e)
                  | Inr nums \<Rightarrow>
                      Some (Inr (filter (\<lambda>x. case x of Inl _ \<Rightarrow> True | Inr (_, right) \<Rightarrow> right \<noteq> 0)
                        (map try_pair (zip (AdjacencyBitCountStream 1 bits) nums)))) } }"

record AdjacencyListBuilder =
  alb_bitarray :: BitArrayFileBuilder
  alb_nums :: LogArrayFileBuilder
  alb_last_left :: u64
  alb_last_right :: u64

definition AdjacencyListBuilder_new :: "bytes \<Rightarrow> bytes \<Rightarrow> u8 \<Rightarrow> AdjacencyListBuilder" where
  "AdjacencyListBuilder_new bitfile nums_writer width =
    \<lparr>alb_bitarray = BitArrayFileBuilder_new bitfile,
     alb_nums = LogArrayFileBuilder_new nums_writer width,
     alb_last_left = 0, alb_last_right = 0\<rparr>"

text \<open>
  One push. The pushes of ones repeat \<open>push(true)\<close>; those of zeros stop at the first
  error, as \<open>push_vec\<close> does.
\<close>

definition AdjacencyListBuilder_push ::
  "AdjacencyListBuilder \<Rightarrow> u64 \<Rightarrow> u64 \<Rightarrow> (io_error + AdjacencyListBuilder) panics" where
  "AdjacencyListBuilder_push self left right =
    do { rust_assert (\<not> (left < alb_last_left self \<or>
           left = alb_last_left self \<and> right \<le> alb_last_right self));
         let skip = left - alb_last_left self;
         let bitskip = (if alb_last_left self = 0 then skip - 1 else skip);
         let (bitarray, r) =
           (if alb_last_left self = 0 \<and> skip = 1 then (alb_bitarray self, Inr (alb_nums self))
            else if skip = 0
            then (BitArrayFileBuilder_push (alb_bitarray self) False, Inr (alb_nums self))
            else (((\<lambda>b. BitArrayFileBuilder_push b True) ^^ unat bitskip) (alb_bitarray self),
                  LogArrayFileBuilder_push_vec (alb_nums self) (replicate (unat (skip - 1)) 0)));
         Some (case r of Inl e \<Rightarrow> Inl e
               | Inr nums \<Rightarrow>
                   (case LogArrayFileBuilder_push nums right of Inl e \<Rightarrow> Inl e
                    | Inr nums \<Rightarrow>
                        Inr \<lparr>alb_bitarray = bitarray, alb_nums = nums, alb_last_left = left,
                             alb_last_right = right\<rparr>)) }"

fun AdjacencyListBuilder_push_all ::
  "AdjacencyListBuilder \<Rightarrow> (io_error + u64 \<times> u64) list \<Rightarrow> (io_error + AdjacencyListBuilder) panics" where
  "AdjacencyListBuilder_push_all self [] = Some (Inr self)"
| "AdjacencyListBuilder_push_all self (Inl e # stream) = Some (Inl e)"
| "AdjacencyListBuilder_push_all self (Inr (left, right) # stream) =
    do { r \<leftarrow> AdjacencyListBuilder_push self left right;
         case r of Inl e \<Rightarrow> Some (Inl e)
         | Inr self \<Rightarrow> AdjacencyListBuilder_push_all self stream }"

text \<open>The result of \<open>finalize\<close> is the content of the four files: the numbers, the bits
  and the two files of the bit index.\<close>

definition AdjacencyListBuilder_finalize ::
  "byteorder \<Rightarrow> framed_blocks \<Rightarrow> block_chunks \<Rightarrow> AdjacencyListBuilder \<Rightarrow>
    (io_error + bytes \<times> bytes \<times> bytes \<times> bytes) panics" where
  "AdjacencyListBuilder_finalize bo framed chunks self =
    do { let bitarray = (if lab_count (alb_nums self) \<noteq> 0
                         then BitArrayFileBuilder_push (alb_bitarray self) True
                         else alb_bitarray self);
         let bitfile = BitArrayFileBuilder_finalize bitarray;
         nums \<leftarrow> LogArrayFileBuilder_finalize bo (alb_nums self);
         r \<leftarrow> build_bitindex bo framed chunks bitfile;
         Some (case r of Inl e \<Rightarrow> Inl e
               | Inr (blocks, sblocks) \<Rightarrow> Inr (nums, bitfile, blocks, sblocks)) }"

definition AdjacencyListBuilder_count :: "AdjacencyListBuilder \<Rightarrow> u64" where
  "AdjacencyListBuilder_count self = bab_count (alb_bitarray self)"

section \<open>Segments\<close>

text \<open>The bits of a list of segments, one segment per left id.\<close>

definition seg_bits :: "'a list \<Rightarrow> bool list" where
  "seg_bits s = replicate (length s - 1) False @ [True]"

definition segs_bits :: "'a list list \<Rightarrow> bool list" where
  "segs_bits ss = concat (map seg_bits ss)"

fun pairs_from :: "u64 \<Rightarrow> u64 list list \<Rightarrow> (u64 \<times> u64) list" where
  "pairs_from l [] = []"
| "pairs_from l (s # ss) = map (Pair l) s @ pairs_from (l + 1) ss"

lemma length_seg_bits [simp]: "s \<noteq> [] \<Longrightarrow> length (seg_bits s) = length s"
  by (cases s) (simp_all add: seg_bits_def)

lemma occ_seg_bits [simp]: "occ True (seg_bits s) = 1"
  by (simp add: seg_bits_def)

lemma segs_bits_simps [simp]:
  "segs_bits [] = []" "segs_bits (s # ss) = seg_bits s @ segs_bits ss"
  "segs_bits (ss @ ts) = segs_bits ss @ segs_bits ts"
  by (simp_all add: segs_bits_def)

lemma length_segs_bits [simp]: "[] \<notin> set ss \<Longrightarrow> length (segs_bits ss) = length (concat ss)"
  by (induction ss) auto

lemma occ_segs_bits [simp]: "occ True (segs_bits ss) = length ss"
  by (induction ss) simp_all

lemma pairs_from_append: "pairs_from l (ss @ ts) = pairs_from l ss @ pairs_from (l + of_nat (length ss)) ts"
  by (induction ss arbitrary: l) (simp_all add: algebra_simps)

text \<open>The end of a segment is the one with its number.\<close>

lemma select_segs_bits:
  assumes "[] \<notin> set ss" "0 < i" "i \<le> length ss"
  shows "select_of True (segs_bits ss) i = Some (length (concat (take i ss)) - 1)"
proof -
  obtain k where k: "i = Suc k" using assms(2) by (cases i) auto
  with assms(3) have "k < length ss" by simp
  then have split: "ss = take k ss @ ss ! k # drop (Suc k) ss" by (rule id_take_nth_drop)
  have ne: "ss ! k \<noteq> []" using assms(1) \<open>k < length ss\<close> by (metis nth_mem)
  have t: "[] \<notin> set (take k ss)" using assms(1) by (meson in_set_takeD)
  have "select_of True (segs_bits ss) i =
      select_of True (segs_bits (take k ss) @ seg_bits (ss ! k) @ segs_bits (drop (Suc k) ss)) i"
    by (subst split) simp
  also have "\<dots> = Some (length (concat (take k ss)) + (length (ss ! k) - 1))"
    using k t \<open>k < length ss\<close> by (simp add: select_append seg_bits_def min_def)
  also have "length (concat (take k ss)) + (length (ss ! k) - 1) = length (concat (take i ss)) - 1"
    using ne k \<open>k < length ss\<close> by (simp add: take_Suc_conv_app_nth Suc_le_eq)
  finally show ?thesis .
qed

text \<open>Walking over bits and numbers together yields the pairs.\<close>

fun walk :: "u64 \<Rightarrow> (bool \<times> u64) list \<Rightarrow> (u64 \<times> u64) list" where
  "walk left [] = []"
| "walk left ((b, num) # rest) = (left, num) # walk (if b then left + 1 else left) rest"

lemma walk_segment:
  "s \<noteq> [] \<Longrightarrow> walk l (zip (seg_bits s) s @ rest) = map (Pair l) s @ walk (l + 1) rest"
proof (induction s)
  case (Cons x s)
  then show ?case by (cases s) (simp_all add: seg_bits_def)
qed simp

lemma walk_segments: "[] \<notin> set ss \<Longrightarrow> walk l (zip (segs_bits ss) (concat ss)) = pairs_from l ss"
  by (induction ss arbitrary: l) (auto simp: walk_segment)

lemma nth_walk: "p < length bns \<Longrightarrow>
    walk l bns ! p = (l + of_nat (rank_of True (map fst bns) p), snd (bns ! p))"
proof (induction bns arbitrary: l p)
  case (Cons bn bns)
  obtain b n where bn: "bn = (b, n)" by (cases bn)
  show ?case
  proof (cases p)
    case (Suc q)
    then show ?thesis using Cons.IH [of q] Cons.prems bn by (simp add: rank_of_def)
  qed (simp add: bn)
qed simp

lemma length_walk [simp]: "length (walk l bns) = length bns"
  by (induction l bns rule: walk.induct) simp_all

section \<open>Queries\<close>

definition al_wf :: "AdjacencyList \<Rightarrow> u64 list list \<Rightarrow> bool" where
  "al_wf a ss \<longleftrightarrow> la_wf (al_nums a) \<and> bi_wf (al_bits a) \<and> [] \<notin> set ss \<and>
    la_elems (al_nums a) = concat ss \<and> bi_bits (al_bits a) = segs_bits ss"

lemma al_wfD:
  assumes "al_wf a ss"
  shows "la_wf (al_nums a)" "bi_wf (al_bits a)" "[] \<notin> set ss" "la_elems (al_nums a) = concat ss"
    and "bi_bits (al_bits a) = segs_bits ss" "BitIndex_len (al_bits a) = length (concat ss)"
    and "LogArray_len (al_nums a) = length (concat ss)" "length (concat ss) < 2 ^ 32"
    and "length ss \<le> length (concat ss)"
proof -
  from assms show D: "la_wf (al_nums a)" "bi_wf (al_bits a)" "[] \<notin> set ss"
    "la_elems (al_nums a) = concat ss" "bi_bits (al_bits a) = segs_bits ss"
    by (simp_all add: al_wf_def)
  show "BitIndex_len (al_bits a) = length (concat ss)"
    using bi_wfD(7) [OF D(2)] D(3,5) by (simp add: BitIndex_len_def BitArray_len_def)
  show n: "LogArray_len (al_nums a) = length (concat ss)"
    using length_la_elems [of "al_nums a"] D(4) by (simp add: LogArray_len_def)
  then show "length (concat ss) < 2 ^ 32"
    using unsigned_less [of "la_len (al_nums a)", where 'a = nat] by (simp add: LogArray_len_def)
  show "length ss \<le> length (concat ss)"
    using D(3) occ_le_length [of True "segs_bits ss"] by simp
qed

context big_endian
begin

lemma AdjacencyList_left_count_eq:
  assumes wf: "al_wf a ss"
  shows "AdjacencyList_left_count bo a = Some (length ss)"
proof (cases "concat ss = []")
  case True
  then have "ss = []" using al_wfD(3) [OF wf] by (cases ss) auto
  then show ?thesis using al_wfD(6) [OF wf] by (simp add: AdjacencyList_left_count_def)
next
  case False
  note D = al_wfD [OF wf]
  obtain n where n: "length (concat ss) = Suc n" using False by (cases "length (concat ss)") auto
  have "unat (of_nat (length (concat ss)) :: u64) = Suc n"
    using D(8) n by (subst unat_of_nat_u64) simp_all
  then have un: "unat (of_nat (length (concat ss)) - 1 :: u64) = n" by (rule unat_pred)
  have len: "length (bi_bits (al_bits a)) = Suc n" using D(3,5) n by simp
  then have "BitIndex_rank1 bo (al_bits a) (of_nat (length (concat ss)) - 1) = Some (of_nat (length ss))"
    using BitIndex_rank1_eq [OF D(2), of "of_nat (length (concat ss)) - 1"] D(5)
    unfolding un by simp
  moreover have "unat (of_nat (length ss) :: u64) = length ss"
    using D(8,9) by (intro unat_of_nat_u64) simp
  ultimately show ?thesis using D(6) n by (simp add: AdjacencyList_left_count_def)
qed

lemma AdjacencyList_select1:
  assumes wf: "al_wf a ss" and i: "0 < unat i" "unat i \<le> length ss"
  shows "BitIndex_select1 bo (al_bits a) i = Some (Some (of_nat (length (concat (take (unat i) ss)) - 1)))"
proof -
  note D = al_wfD [OF wf]
  have "bi_bits (al_bits a) \<noteq> []" using D(5) i by (cases ss) (simp_all add: seg_bits_def)
  then show ?thesis
    using BitIndex_select1_eq [OF D(2), of i] D(5) select_segs_bits [OF D(3) i] by simp
qed

lemma length_concat_take_pos: "[] \<notin> set ss \<Longrightarrow> 0 < i \<Longrightarrow> ss \<noteq> [] \<Longrightarrow> 0 < length (concat (take i ss))"
  by (cases ss; cases i) auto

lemma AdjacencyList_offset_for_eq:
  assumes wf: "al_wf a ss" and i: "0 < unat i" "unat i \<le> Suc (length ss)"
  shows "AdjacencyList_offset_for bo a i = Some (of_nat (length (concat (take (unat i - 1) ss))))"
proof (cases "i = 1")
  case False
  with i(1) obtain k where k: "unat i = Suc k" "0 < k"
    by (metis One_nat_def Suc_pred gr0I unat_1 word_unat_eq_iff)
  have p: "unat (i - 1) = k" using k(1) by (rule unat_pred)
  have ne: "ss \<noteq> []" using i k by auto
  have "0 < length (concat (take k ss))"
    using al_wfD(3) [OF wf] k(2) ne by (rule length_concat_take_pos)
  then have "of_nat (length (concat (take k ss)) - 1) + 1 = (of_nat (length (concat (take k ss))) :: u64)"
    by (metis Suc_eq_plus1 Suc_pred' of_nat_1 of_nat_add)
  then show ?thesis
    using False k i p AdjacencyList_select1 [OF wf, of "i - 1"] by (simp add: AdjacencyList_offset_for_def)
qed (simp add: AdjacencyList_offset_for_def)

lemma AdjacencyList_get_eq:
  assumes wf: "al_wf a ss"
  shows "if 1 \<le> unat i \<and> unat i \<le> length ss
    then \<exists>s. AdjacencyList_get bo a i = Some s \<and> la_wf s \<and> la_elems s = ss ! (unat i - 1)
    else AdjacencyList_get bo a i = None"
proof -
  note D = al_wfD [OF wf]
  have lt: "i < 1 \<longleftrightarrow> unat i = 0" by (simp add: word_less_nat_alt)
  have "unat (of_nat (length ss) :: u64) = length ss" using D(8,9) by (intro unat_of_nat_u64) simp
  then have gt: "of_nat (length ss) < i \<longleftrightarrow> length ss < unat i" by (simp add: word_less_nat_alt)
  show ?thesis
  proof (cases "1 \<le> unat i \<and> unat i \<le> length ss")
    case False
    then have "unat i = 0 \<or> length ss < unat i" by auto
    then have "AdjacencyList_get bo a i = None"
      by (auto simp: AdjacencyList_get_def lt gt AdjacencyList_left_count_eq [OF wf] rust_assert_def unat_eq_0)
    with False show ?thesis by (simp only: if_False)
  next
    case True
    define k where "k = unat i - 1"
    have k: "unat i = Suc k" "k < length ss" using True by (auto simp: k_def)
    let ?off = "length (concat (take k ss))" and ?n = "length (ss ! k)"
    have tk: "concat (take (Suc k) ss) = concat (take k ss) @ ss ! k"
      using k(2) by (simp add: take_Suc_conv_app_nth)
    have ne: "0 < ?n" using D(3) k(2) by (metis length_greater_0_conv nth_mem)
    have cs: "concat ss = concat (take k ss) @ ss ! k @ concat (drop (Suc k) ss)"
      using k(2) by (metis concat.simps(2) concat_append id_take_nth_drop)
    have le: "?off + ?n \<le> length (concat ss)" by (subst cs) simp
    have off: "AdjacencyList_offset_for bo a i = Some (of_nat ?off)"
      using AdjacencyList_offset_for_eq [OF wf, of i] k by simp
    have sel: "BitIndex_select1 bo (al_bits a) i = Some (Some (of_nat (?off + ?n - 1)))"
      using AdjacencyList_select1 [OF wf, of i] k tk by simp
    have "of_nat (?off + ?n - 1) - of_nat ?off + 1 = (of_nat ?n :: u64)"
      using ne by (cases ?n) simp_all
    moreover have "unat (of_nat ?off :: u64) = ?off" "unat (of_nat ?n :: u64) = ?n"
      using le D(8) by (simp_all add: unat_of_nat_u64)
    moreover have "i \<noteq> 0" using True by auto
    ultimately have get: "AdjacencyList_get bo a i = LogArray_slice (al_nums a) ?off ?n"
      using True off sel gt
      by (simp add: AdjacencyList_get_def lt AdjacencyList_left_count_eq [OF wf] Let_def)
    have "take ?n (drop ?off (la_elems (al_nums a))) = ss ! k" unfolding D(4) by (subst cs) simp
    with get LogArray_slice_eq [OF D(1), of ?off ?n] la_slice [OF D(1), of ?off ?n] le D(7) True
    show ?thesis by (simp add: LogArray_len_def k_def)
  qed
qed

lemma AdjacencyList_pair_at_pos_eq:
  assumes wf: "al_wf a ss" and p: "unat p < length (concat ss)"
  shows "AdjacencyList_pair_at_pos bo a p = Some (pairs_from 1 ss ! unat p)"
proof -
  note D = al_wfD [OF wf]
  let ?z = "zip (segs_bits ss) (concat ss)"
  have z: "map fst ?z = segs_bits ss" "unat p < length ?z" using D(3) p by (simp_all add: map_fst_zip)
  have pair: "pairs_from 1 ss ! unat p = (of_nat (rank_of True (segs_bits ss) (unat p)) + 1, concat ss ! unat p)"
    using nth_walk [OF z(2), of 1] walk_segments [OF D(3), of 1] z(1) p D(3) by (simp add: add.commute)
  have ent: "LogArray_entry bo (al_nums a) (unat p) = Some (concat ss ! unat p)"
    using p D(4,7) by (simp add: LogArray_entry_eq [OF D(1)] LogArray_len_def flip: nth_la_elems)
  have rk: "(if p = 0 then Some 0 else BitIndex_rank1 bo (al_bits a) (p - 1)) =
      Some (of_nat (rank_of True (segs_bits ss) (unat p)))"
  proof (cases "p = 0")
    case False
    moreover have "BitIndex_rank1 bo (al_bits a) (p - 1) =
        Some (of_nat (rank_of True (bi_bits (al_bits a)) (unat p)))"
      by (rule rank_before [OF BitIndex_rank1_eq [OF D(2)]]) (use False p D(3,5) in simp_all)
    ultimately show ?thesis by (simp add: D(5))
  qed simp
  show ?thesis by (simp add: AdjacencyList_pair_at_pos_def rk ent pair)
qed

end

section \<open>Iterating and streaming\<close>

lemma AdjacencyListIterator_collect_eq:
  assumes "big_endian bo" "bi_wf bits" "la_wf nums" "length (la_elems nums) = length (bi_bits bits)"
  shows "AdjacencyListIterator_collect bo \<lparr>ali_pos = pos, ali_left = left, ali_bits = bits, ali_nums = nums\<rparr> =
    Some (filter (\<lambda>p. snd p \<noteq> 0) (walk left (drop pos (zip (bi_bits bits) (la_elems nums)))))"
proof (induction "length (bi_bits bits) - pos" arbitrary: pos left)
  case 0
  then have "BitIndex_len bits \<le> pos"
    using bi_wfD(7) [OF assms(2)] by (simp add: BitIndex_len_def BitArray_len_def)
  with 0 assms(4) show ?case
    by (subst AdjacencyListIterator_collect.simps) (simp add: AdjacencyListIterator_next.simps)
next
  case (Suc n)
  let ?it = "\<lparr>ali_pos = pos, ali_left = left, ali_bits = bits, ali_nums = nums\<rparr>"
  let ?b = "bi_bits bits ! pos" and ?x = "la_elems nums ! pos"
  let ?l = "if ?b then left + 1 else left"
  let ?it' = "\<lparr>ali_pos = pos + 1, ali_left = ?l, ali_bits = bits, ali_nums = nums\<rparr>"
  have pos: "pos < length (bi_bits bits)" using Suc.hyps(2) by simp
  have len: "BitIndex_len bits = length (bi_bits bits)" "unat (la_len nums) = length (bi_bits bits)"
    using bi_wfD(7) [OF assms(2)] assms(4) by (simp_all add: BitIndex_len_def BitArray_len_def)
  have "unat (of_nat pos :: u64) = pos"
    using pos bi_bits_length [OF assms(2)] by (intro unat_of_nat_u64) simp
  then have get: "BitIndex_get bits (of_nat pos) = Some ?b"
    using pos by (simp add: big_endian.BitIndex_get_eq [OF assms(1,2)])
  have ent: "LogArray_entry bo nums pos = Some ?x"
    using pos len by (simp add: big_endian.LogArray_entry_eq [OF assms(1,3)] flip: nth_la_elems)
  have nxt: "AdjacencyListIterator_next bo ?it =
      (if ?x = 0 then AdjacencyListIterator_next bo ?it' else Some (Some (left, ?x), ?it'))"
    using pos by (subst AdjacencyListIterator_next.simps) (simp add: len get ent Let_def)
  have "AdjacencyListIterator_collect bo ?it =
      (if ?x = 0 then AdjacencyListIterator_collect bo ?it'
       else map_option ((#) (left, ?x)) (AdjacencyListIterator_collect bo ?it'))"
    using nxt by (subst (1 2) AdjacencyListIterator_collect.simps) simp
  moreover have "drop pos (zip (bi_bits bits) (la_elems nums)) =
      (?b, ?x) # drop (pos + 1) (zip (bi_bits bits) (la_elems nums))"
    using pos assms(4) by (simp add: Cons_nth_drop_Suc [symmetric])
  ultimately show ?case using Suc.hyps(1) [of "pos + 1" ?l] Suc.hyps(2) by simp
qed

lemma AdjacencyList_iter_eq:
  assumes "big_endian bo" "al_wf a ss"
  shows "AdjacencyListIterator_collect bo (AdjacencyList_iter a) =
    Some (filter (\<lambda>p. snd p \<noteq> 0) (pairs_from 1 ss))"
  using AdjacencyListIterator_collect_eq [OF assms(1) al_wfD(2,1) [OF assms(2)], of 0 1]
    al_wfD(3,4,5) [OF assms(2)]
  by (simp add: AdjacencyList_iter_def walk_segments)

lemma bit_count_stream_walk:
  "length bs = length ns \<Longrightarrow>
    map try_pair (zip (AdjacencyBitCountStream l (map Inr bs)) (map Inr ns)) = map Inr (walk l (zip bs ns))"
  by (induction bs ns arbitrary: l rule: list_induct2) (simp_all add: try_pair_def)

section \<open>Building\<close>

text \<open>A segment with a 0 is the hole of a left id without right ids; the last is none.\<close>

definition holes_ok :: "u64 list list \<Rightarrow> bool" where
  "holes_ok ss \<longleftrightarrow> (\<forall>s\<in>set ss. 0 \<in> set s \<longrightarrow> s = [0]) \<and> (ss \<noteq> [] \<longrightarrow> last (last ss) \<noteq> 0)"

definition alb_inv :: "AdjacencyListBuilder \<Rightarrow> nat \<Rightarrow> (u64 \<times> u64) list \<Rightarrow> u64 list list \<Rightarrow> bool" where
  "alb_inv b w ps ss \<longleftrightarrow>
    lab_inv (alb_nums b) w (concat ss) \<and> bab_inv (alb_bitarray b) (butlast (segs_bits ss)) \<and>
    [] \<notin> set ss \<and> unat (alb_last_left b) = length ss \<and>
    alb_last_right b = (if ss = [] then 0 else last (last ss)) \<and>
    filter (\<lambda>p. snd p \<noteq> 0) (pairs_from 1 ss) = ps \<and> length (concat ss) \<le> length ps + length ss \<and>
    (\<forall>v\<in>set (concat ss). unat v < 2 ^ w) \<and> holes_ok ss"

lemma alb_inv_new: "unat width \<le> 64 \<Longrightarrow> alb_inv (AdjacencyListBuilder_new [] [] width) (unat width) [] []"
  by (simp add: alb_inv_def AdjacencyListBuilder_new_def lab_inv_new bab_inv_new holes_ok_def)

lemma funpow_push: "((\<lambda>b. BitArrayFileBuilder_push b x) ^^ n) b =
    foldl BitArrayFileBuilder_push b (replicate n x)"
proof (induction n)
  case (Suc n)
  have "foldl BitArrayFileBuilder_push b (replicate (Suc n) x) =
      foldl BitArrayFileBuilder_push b (replicate n x @ [x])"
    by (simp only: replicate_Suc replicate_append_same)
  with Suc show ?case by simp
qed simp

lemma segs_bits_holes: "segs_bits (replicate n [0]) = replicate n True"
  by (induction n) (simp_all add: seg_bits_def)

lemma segs_bits_butlast: "ss \<noteq> [] \<Longrightarrow> segs_bits ss = butlast (segs_bits ss) @ [True]"
  by (cases ss rule: rev_cases) (simp_all add: seg_bits_def butlast_append)

lemma pairs_from_holes: "filter (\<lambda>p. snd p \<noteq> 0) (pairs_from l (replicate n [0])) = []"
  by (induction n arbitrary: l) simp_all

text \<open>The segments after one more pair.\<close>

definition add_pair :: "u64 list list \<Rightarrow> nat \<Rightarrow> u64 \<Rightarrow> u64 list list" where
  "add_pair ss left right =
    (if left = length ss then butlast ss @ [last ss @ [right]]
     else ss @ replicate (left - length ss - 1) [0] @ [[right]])"

lemma add_pair_same:
  assumes "[] \<notin> set ss" "ss \<noteq> []" "right \<noteq> 0"
  defines "ss' \<equiv> add_pair ss (length ss) right"
  shows "[] \<notin> set ss'" "length ss' = length ss" "last (last ss') = right" "ss' \<noteq> []"
    and "concat ss' = concat ss @ [right]"
    and "butlast (segs_bits ss') = butlast (segs_bits ss) @ [False]"
    and "filter (\<lambda>p. snd p \<noteq> 0) (pairs_from 1 ss') =
      filter (\<lambda>p. snd p \<noteq> 0) (pairs_from 1 ss) @ [(of_nat (length ss), right)]"
proof -
  obtain ts s where ss: "ss = ts @ [s]" using assms(2) by (cases ss rule: rev_cases) auto
  then have ss': "ss' = ts @ [s @ [right]]" by (simp add: ss'_def add_pair_def)
  have s: "s \<noteq> []" using assms(1) ss by auto
  from ss' show "[] \<notin> set ss'" "length ss' = length ss" "last (last ss') = right" "ss' \<noteq> []"
    "concat ss' = concat ss @ [right]"
    using assms(1) ss by auto
  have "seg_bits (s @ [right]) = replicate (length s) False @ [True]" "seg_bits s = replicate (length s - 1) False @ [True]"
    by (simp_all add: seg_bits_def)
  moreover have "replicate (length s) False = replicate (length s - 1) False @ [False]"
    using s by (cases s) (simp_all add: replicate_append_same)
  ultimately show "butlast (segs_bits ss') = butlast (segs_bits ss) @ [False]"
    by (simp add: ss ss' butlast_append)
  show "filter (\<lambda>p. snd p \<noteq> 0) (pairs_from 1 ss') =
      filter (\<lambda>p. snd p \<noteq> 0) (pairs_from 1 ss) @ [(of_nat (length ss), right)]"
    using assms(3) by (simp add: ss ss' pairs_from_append)
qed

lemma add_pair_skip:
  assumes "[] \<notin> set ss" "length ss < left" "right \<noteq> 0"
  defines "ss' \<equiv> add_pair ss left right" and "skip \<equiv> left - length ss"
  shows "[] \<notin> set ss'" "length ss' = left" "last (last ss') = right" "ss' \<noteq> []"
    and "concat ss' = concat ss @ replicate (skip - 1) 0 @ [right]"
    and "butlast (segs_bits ss') = butlast (segs_bits ss) @ replicate (if ss = [] then skip - 1 else skip) True"
    and "filter (\<lambda>p. snd p \<noteq> 0) (pairs_from 1 ss') =
      filter (\<lambda>p. snd p \<noteq> 0) (pairs_from 1 ss) @ [(of_nat left, right)]"
proof -
  have ss': "ss' = ss @ replicate (skip - 1) [0] @ [[right]]"
    using assms(2) by (simp add: ss'_def add_pair_def skip_def)
  have holes: "concat (replicate n [0 :: u64]) = replicate n 0" for n by (induction n) simp_all
  from ss' show "[] \<notin> set ss'" "length ss' = left" "last (last ss') = right" "ss' \<noteq> []"
    "concat ss' = concat ss @ replicate (skip - 1) 0 @ [right]"
    using assms(1,2) by (auto simp: holes skip_def)
  have "butlast (segs_bits ss') = segs_bits ss @ replicate (skip - 1) True"
    by (simp add: ss' segs_bits_holes butlast_append) (simp add: seg_bits_def)
  also have "\<dots> = butlast (segs_bits ss) @ replicate (if ss = [] then skip - 1 else skip) True"
  proof (cases "ss = []")
    case False
    have "replicate skip True = True # replicate (skip - 1) True"
      using assms(2) by (cases skip) (simp_all add: skip_def)
    then show ?thesis using False by (subst segs_bits_butlast) simp_all
  qed simp
  finally show "butlast (segs_bits ss') =
    butlast (segs_bits ss) @ replicate (if ss = [] then skip - 1 else skip) True" .
  have "1 + of_nat (length ss) + of_nat (skip - 1) = (of_nat left :: u64)"
  proof -
    have "1 + length ss + (skip - 1) = left" using assms(2) by (simp add: skip_def)
    then show ?thesis by (metis of_nat_1 of_nat_add)
  qed
  then show "filter (\<lambda>p. snd p \<noteq> 0) (pairs_from 1 ss') =
      filter (\<lambda>p. snd p \<noteq> 0) (pairs_from 1 ss) @ [(of_nat left, right)]"
    using assms(3) by (simp add: ss' pairs_from_append pairs_from_holes)
qed

lemma add_pair_holes:
  assumes h: "holes_ok ss" and ne: "[] \<notin> set ss" "left = length ss \<Longrightarrow> ss \<noteq> []" and r: "right \<noteq> 0"
  shows "holes_ok (add_pair ss left right)"
proof (cases "left = length ss")
  case True
  then obtain ts s where ss: "ss = ts @ [s]" using ne(2) by (cases ss rule: rev_cases) auto
  have "0 \<notin> set s" using h unfolding holes_ok_def ss by auto
  with True ss h r show ?thesis by (auto simp: add_pair_def holes_ok_def)
next
  case False
  with h r show ?thesis by (auto simp: add_pair_def holes_ok_def)
qed

lemma alb_push_ok:
  assumes inv: "alb_inv b w ps ss" and r: "right \<noteq> 0" "unat right < 2 ^ w"
    and ord: "alb_last_left b < left \<or> alb_last_left b = left \<and> 0 < left \<and> alb_last_right b < right"
    and len: "length ps + unat left + 1 < 2 ^ 32"
  shows "\<exists>b'. AdjacencyListBuilder_push b left right = Some (Inr b') \<and>
    alb_inv b' w (ps @ [(left, right)]) (add_pair ss (unat left) right) \<and>
    alb_last_left b' = left \<and> alb_last_right b' = right"
proof -
  from inv have nums: "lab_inv (alb_nums b) w (concat ss)" and bits: "bab_inv (alb_bitarray b) (butlast (segs_bits ss))"
    and ne: "[] \<notin> set ss" and ll: "unat (alb_last_left b) = length ss"
    and ps: "filter (\<lambda>p. snd p \<noteq> 0) (pairs_from 1 ss) = ps" and lc: "length (concat ss) \<le> length ps + length ss"
    and vs: "\<forall>v\<in>set (concat ss). unat v < 2 ^ w" and h: "holes_ok ss"
    by (simp_all add: alb_inv_def)
  have lb: "length (butlast (segs_bits ss)) \<le> length (concat ss)" using ne by simp
  have ok: "\<not> (left < alb_last_left b \<or> left = alb_last_left b \<and> right \<le> alb_last_right b)" using ord by auto
  let ?ss = "add_pair ss (unat left) right"
  show ?thesis
  proof (cases "alb_last_left b = left")
    case True
    with ord ll have l: "unat left = length ss" "ss \<noteq> []" by (auto simp: word_less_nat_alt)
    note add = add_pair_same [OF ne l(2) r(1), folded l(1)]
    have ln: "length (concat ss) + 1 < 2 ^ 32" using lc len l(1) by simp
    from lab_push_ok [OF nums r(2) ln] obtain n where
      n: "LogArrayFileBuilder_push (alb_nums b) right = Inr n" "lab_inv n w (concat ss @ [right])" by blast
    have "bab_inv (BitArrayFileBuilder_push (alb_bitarray b) False) (butlast (segs_bits ss) @ [False])"
      using lb ln by (intro bab_inv_push [OF bits]) simp
    moreover have "left \<noteq> 0" "of_nat (length ss) = left" using l word_of_nat_eqI [OF l(1)] by auto
    ultimately show ?thesis
      using True ok n add ps lc l r vs add_pair_holes [OF h ne _ r(1), of "unat left"]
      by (simp add: AdjacencyListBuilder_push_def alb_inv_def)
  next
    case False
    with ord have lt: "alb_last_left b < left" by auto
    then have l: "length ss < unat left" using ll by (simp add: word_less_nat_alt)
    define skip where "skip = left - alb_last_left b"
    have sk: "unat skip = unat left - length ss"
      unfolding skip_def ll [symmetric] using lt by (intro unat_sub) simp
    have sk0: "skip \<noteq> 0" using sk l by auto
    have sk1: "unat (skip - 1) = unat left - length ss - 1" using sk sk0 by (simp add: unat_minus_one)
    note add = add_pair_skip [OF ne l r(1)]
    have z: "alb_last_left b = 0 \<longleftrightarrow> ss = []" using ll by (metis length_0_conv unat_eq_0)
    let ?k = "if ss = [] then unat left - length ss - 1 else unat left - length ss"
    have ln: "length (concat ss) + (unat left - length ss) + 1 < 2 ^ 32" using lc len l by simp
    have "length (concat ss) + length (replicate (unat left - length ss - 1) (0 :: u64)) < 2 ^ 32"
      using ln by simp
    from lab_push_vec [OF nums this] obtain n where
      n: "LogArrayFileBuilder_push_vec (alb_nums b) (replicate (unat left - length ss - 1) 0) = Inr n"
      "lab_inv n w (concat ss @ replicate (unat left - length ss - 1) 0)" by auto
    have "length (concat ss @ replicate (unat left - length ss - 1) (0 :: u64)) + 1 < 2 ^ 32"
      using ln by simp
    from lab_push_ok [OF n(2) r(2) this] obtain n' where
      n': "LogArrayFileBuilder_push n right = Inr n'"
      "lab_inv n' w ((concat ss @ replicate (unat left - length ss - 1) 0) @ [right])" by auto
    define bs where "bs = ((\<lambda>b. BitArrayFileBuilder_push b True) ^^ ?k) (alb_bitarray b)"
    have "bab_inv bs (butlast (segs_bits ss) @ replicate ?k True)"
      unfolding bs_def funpow_push using lb ln by (intro bab_inv_foldl [OF bits]) auto
    then have inv': "alb_inv \<lparr>alb_bitarray = bs, alb_nums = n', alb_last_left = left, alb_last_right = right\<rparr> w
        (ps @ [(left, right)]) ?ss"
      using n'(2) add ps lc l r vs add_pair_holes [OF h ne _ r(1), of "unat left"] by (auto simp: alb_inv_def)
    have "AdjacencyListBuilder_push b left right =
        Some (Inr \<lparr>alb_bitarray = bs, alb_nums = n', alb_last_left = left, alb_last_right = right\<rparr>)"
    proof (cases "ss = [] \<and> skip = 1")
      case True
      then have "unat left - length ss - 1 = 0" using sk1 by simp
      moreover have "left = 1" using True z by (simp add: skip_def)
      ultimately show ?thesis using True n n' z
        by (simp add: AdjacencyListBuilder_push_def bs_def)
    next
      case False
      have "unat (if alb_last_left b = 0 then skip - 1 else skip) = ?k" using z sk sk1 by simp
      with False n n' ok z sk0 sk1 show ?thesis
        unfolding AdjacencyListBuilder_push_def skip_def [symmetric] Let_def bs_def
        by (simp only: rust_assert_True Option.bind_lunit if_False if_cancel simp_thms)  simp
    qed
    with inv' show ?thesis by simp
  qed
qed

text \<open>The pairs a builder takes: in strict order, ids from 1, right ids that fit.\<close>

definition pair_lt :: "u64 \<times> u64 \<Rightarrow> u64 \<times> u64 \<Rightarrow> bool" where
  "pair_lt p q \<longleftrightarrow> fst p < fst q \<or> fst p = fst q \<and> snd p < snd q"

definition pairs_ok :: "nat \<Rightarrow> (u64 \<times> u64) list \<Rightarrow> bool" where
  "pairs_ok w ps \<longleftrightarrow> sorted_wrt pair_lt ps \<and>
    (\<forall>p\<in>set ps. fst p \<noteq> 0 \<and> snd p \<noteq> 0 \<and> unat (snd p) < 2 ^ w \<and> length ps + unat (fst p) + 1 < 2 ^ 32)"

definition pair_segs :: "(u64 \<times> u64) list \<Rightarrow> u64 list list" where
  "pair_segs ps = foldl (\<lambda>ss p. add_pair ss (unat (fst p)) (snd p)) [] ps"

lemma AdjacencyListBuilder_push_all_snoc:
  "AdjacencyListBuilder_push_all b (map Inr ps @ [Inr (l, r)]) =
    do { s \<leftarrow> AdjacencyListBuilder_push_all b (map Inr ps);
         case s of Inl e \<Rightarrow> Some (Inl e) | Inr b' \<Rightarrow> AdjacencyListBuilder_push b' l r }"
proof (induction ps arbitrary: b)
  case Nil
  have "do { r \<leftarrow> AdjacencyListBuilder_push b l r; case r of Inl e \<Rightarrow> Some (Inl e) | Inr s \<Rightarrow> Some (Inr s) } =
      AdjacencyListBuilder_push b l r"
    by (cases "AdjacencyListBuilder_push b l r") (auto split: sum.split)
  then show ?case by simp
next
  case (Cons p ps)
  then show ?case
    by (cases p; cases "AdjacencyListBuilder_push b (fst p) (snd p)") (auto split: sum.split)
qed

lemma alb_push_all_ok:
  assumes "unat width \<le> 64" "pairs_ok (unat width) ps"
  shows "\<exists>b. AdjacencyListBuilder_push_all (AdjacencyListBuilder_new [] [] width) (map Inr ps) = Some (Inr b) \<and>
    alb_inv b (unat width) ps (pair_segs ps) \<and>
    (alb_last_left b, alb_last_right b) = (if ps = [] then (0, 0) else last ps)"
  using assms(2)
proof (induction ps rule: rev_induct)
  case Nil
  then show ?case
    using alb_inv_new [OF assms(1)] by (simp add: pair_segs_def AdjacencyListBuilder_new_def)
next
  case (snoc p ps)
  obtain l r where p: "p = (l, r)" by (cases p)
  have "pairs_ok (unat width) ps" using snoc.prems by (auto simp: pairs_ok_def sorted_wrt_append)
  from snoc.IH [OF this] obtain b where
    b: "AdjacencyListBuilder_push_all (AdjacencyListBuilder_new [] [] width) (map Inr ps) = Some (Inr b)"
    "alb_inv b (unat width) ps (pair_segs ps)"
    "(alb_last_left b, alb_last_right b) = (if ps = [] then (0, 0) else last ps)" by blast
  have lr: "l \<noteq> 0" "r \<noteq> 0" "unat r < 2 ^ unat width" "length ps + unat l + 1 < 2 ^ 32"
    using snoc.prems p by (auto simp: pairs_ok_def)
  have "alb_last_left b < l \<or> alb_last_left b = l \<and> 0 < l \<and> alb_last_right b < r"
  proof (cases "ps = []")
    case True
    then show ?thesis using b(3) lr(1) by (simp add: word_gt_0)
  next
    case False
    then have "pair_lt (last ps) p" using snoc.prems by (simp add: pairs_ok_def sorted_wrt_append)
    moreover have "last ps = (alb_last_left b, alb_last_right b)" using b(3) False by simp
    ultimately show ?thesis using p lr(1) by (auto simp: pair_lt_def word_gt_0)
  qed
  from alb_push_ok [OF b(2) lr(2,3) this lr(4)] b(1) p show ?case
    by (auto simp: AdjacencyListBuilder_push_all_snoc pair_segs_def)
qed

lemma AdjacencyList_parse_eq:
  "AdjacencyList_parse dbg bo nums bits blocks sblocks =
    do { n \<leftarrow> LogArray_parse bo nums \<bind> unwrap;
         i \<leftarrow> BitIndex_from_maps bo bits blocks sblocks;
         AdjacencyList_from_parts dbg n i }"
  by (simp add: AdjacencyList_parse_def BitIndex_from_maps_def)

context big_endian
begin

lemma bitarray_stream_bits_inv:
  assumes "bab_inv b bits" "length bits < 2 ^ 64" "framed_blocks_ok bo framed"
  shows "bitarray_stream_bits bo framed (BitArrayFileBuilder_finalize b) = Some (Inr (map Inr bits))"
  using bab_finalize [OF assms(1,2)] bitarray_stream_bits_data [OF _ assms(2,3)] by auto

lemma logarray_stream_inv:
  assumes inv: "lab_inv b w vals" and len: "length vals < 2 ^ 32" and framed: "framed_entries_ok bo framed"
    and v: "\<forall>v\<in>set vals. unat v < 2 ^ w" and fin: "LogArrayFileBuilder_finalize bo b = Some f"
  shows "logarray_stream_entries bo framed f = Some (Inr (map Inr vals))"
proof -
  from inv have w: "unat (lab_width b) = w" "w \<le> 64" and "lab_count b = of_nat (length vals)"
    by (auto simp: lab_inv_def intro: word_of_nat_eqI)
  with fin have "f = LogArrayFileBuilder_finalize_data b @ control_word (of_nat (length vals)) (lab_width b)"
    by (simp add: LogArray_finalize_eq)
  with logarray_stream_data [OF framed, of "lab_width b" vals "LogArrayFileBuilder_finalize_data b"]
    lab_finalize_data [OF inv len] w len v show ?thesis by simp
qed

lemma adjacency_stream_eq:
  assumes "bitarray_stream_bits bo framed_b bits = Some (Inr (map Inr (segs_bits ss)))"
    and "logarray_stream_entries bo framed_e nums = Some (Inr (map Inr (concat ss)))" "[] \<notin> set ss"
  shows "adjacency_list_stream_pairs bo framed_b framed_e bits nums =
    Some (Inr (map Inr (filter (\<lambda>p. snd p \<noteq> 0) (pairs_from 1 ss))))"
proof -
  have "filter (\<lambda>x. case x of Inl _ \<Rightarrow> True | Inr (_, right) \<Rightarrow> right \<noteq> 0) (map Inr ps) =
      (map Inr (filter (\<lambda>p. snd p \<noteq> 0) ps) :: (io_error + u64 \<times> u64) list)" for ps
    by (induction ps) auto
  with assms show ?thesis
    by (simp add: adjacency_list_stream_pairs_def bit_count_stream_walk walk_segments)
qed

lemma AdjacencyListBuilder_finalize_ok:
  assumes inv: "alb_inv b w ps ss" and w: "0 < w \<or> ss = []" and len: "length (concat ss) < 2 ^ 32"
    and env: "framed_blocks_ok bo framed" "chunks_ok chunks" "framed_entries_ok bo framed_e"
  obtains nums bits blocks sblocks a where
    "AdjacencyListBuilder_finalize bo framed chunks b = Some (Inr (nums, bits, blocks, sblocks))"
    "AdjacencyList_parse dbg bo nums bits blocks sblocks = Some a" "al_wf a ss"
    "adjacency_list_stream_pairs bo framed framed_e bits nums =
      Some (Inr (map Inr (filter (\<lambda>p. snd p \<noteq> 0) (pairs_from 1 ss))))"
    "LogArray_parse bo nums = Some (Inr (al_nums a))" "unat (la_width (al_nums a)) = w"
proof -
  from inv have ni: "lab_inv (alb_nums b) w (concat ss)" and bi: "bab_inv (alb_bitarray b) (butlast (segs_bits ss))"
    and ne: "[] \<notin> set ss" and v: "\<forall>v\<in>set (concat ss). unat v < 2 ^ w" by (simp_all add: alb_inv_def)
  from ni have cnt: "unat (lab_count (alb_nums b)) = length (concat ss)" by (simp add: lab_inv_def)
  define bs where "bs = (if lab_count (alb_nums b) \<noteq> 0 then BitArrayFileBuilder_push (alb_bitarray b) True
    else alb_bitarray b)"
  have bs: "bab_inv bs (segs_bits ss)"
  proof (cases "ss = []")
    case True
    then show ?thesis using bi cnt by (simp add: bs_def unat_eq_0)
  next
    case False
    then have "concat ss \<noteq> []" using ne by (cases ss) auto
    then have "lab_count (alb_nums b) \<noteq> 0" using cnt by auto
    moreover have "length (butlast (segs_bits ss)) + 1 < 2 ^ 64" using len ne by simp
    ultimately show ?thesis
      using bab_inv_push [OF bi, of True] segs_bits_butlast [OF False] by (simp add: bs_def)
  qed
  obtain nums n where n: "LogArrayFileBuilder_finalize bo (alb_nums b) = Some nums"
      "LogArray_parse bo nums = Some (Inr n)" "la_wf n" "la_elems n = concat ss" "unat (la_width n) = w"
    by (rule lab_finalize_parse [OF ni _ len v]) (use w in auto)
  have "length (segs_bits ss) + 63 < 2 ^ 38" using len ne by simp
  then obtain blocks sblocks i where
    i: "build_bitindex bo framed chunks (BitArrayFileBuilder_finalize bs) = Some (Inr (blocks, sblocks))"
    "BitIndex_from_maps bo (BitArrayFileBuilder_finalize bs) blocks sblocks = Some i" "bi_wf i"
    "bi_bits i = segs_bits ss" by (rule BitIndex_build_inv [OF env(1,2) bs])
  have "LogArray_len n = BitIndex_len i"
    using n(4) i(4) bi_wfD(7) [OF i(3)] length_la_elems [of n] ne
    by (simp add: LogArray_len_def BitIndex_len_def BitArray_len_def)
  then have "AdjacencyList_parse dbg bo nums (BitArrayFileBuilder_finalize bs) blocks sblocks =
      Some \<lparr>al_nums = n, al_bits = i\<rparr>"
    using n(2) i(2) by (simp add: AdjacencyList_parse_eq AdjacencyList_from_parts_def unwrap_def)
  moreover have "AdjacencyListBuilder_finalize bo framed chunks b =
      Some (Inr (nums, BitArrayFileBuilder_finalize bs, blocks, sblocks))"
    using n(1) i(1) by (simp add: AdjacencyListBuilder_finalize_def Let_def flip: bs_def)
  moreover have "adjacency_list_stream_pairs bo framed framed_e (BitArrayFileBuilder_finalize bs) nums =
      Some (Inr (map Inr (filter (\<lambda>p. snd p \<noteq> 0) (pairs_from 1 ss))))"
    using ne len bitarray_stream_bits_inv [OF bs _ env(1)] logarray_stream_inv [OF ni len env(3) v n(1)]
    by (intro adjacency_stream_eq) simp_all
  ultimately show ?thesis using that n i ne by (simp add: al_wf_def)
qed

end

section \<open>Segments of the pairs\<close>

lemma pairs_from_fst: "p \<in> set (pairs_from a ss) \<Longrightarrow> \<exists>j<length ss. fst p = a + of_nat j"
proof (induction ss arbitrary: a)
  case (Cons s ss)
  show ?case
  proof (cases "p \<in> set (pairs_from (a + 1) ss)")
    case True
    then obtain j where "j < length ss" "fst p = a + 1 + of_nat j" using Cons.IH by blast
    then show ?thesis by (intro exI [of _ "Suc j"]) (simp add: algebra_simps)
  next
    case False
    then show ?thesis using Cons.prems by (intro exI [of _ 0]) auto
  qed
qed simp

lemma of_nat_word_ne_0: "0 < n \<Longrightarrow> n < 2 ^ 64 \<Longrightarrow> (of_nat n :: u64) \<noteq> 0"
  by (metis less_not_refl unat_0 unat_of_nat_u64)

lemma pairs_from_filter:
  assumes "l < length ss" "length ss < 2 ^ 64"
  shows "filter (\<lambda>p. fst p = a + of_nat l) (pairs_from a ss) = map (Pair (a + of_nat l)) (ss ! l)"
  using assms
proof (induction ss arbitrary: a l)
  case (Cons s ss)
  show ?case
  proof (cases l)
    case 0
    have "fst p \<noteq> a" if mem: "p \<in> set (pairs_from (a + 1) ss)" for p
    proof -
      obtain j where j: "j < length ss" "fst p = a + 1 + of_nat j" using pairs_from_fst [OF mem] by blast
      have "(of_nat (Suc j) :: u64) \<noteq> 0" using j(1) Cons.prems by (intro of_nat_word_ne_0) simp_all
      then show ?thesis using j(2) by (simp add: algebra_simps)
    qed
    then have "filter (\<lambda>p. fst p = a) (pairs_from (a + 1) ss) = []" by (simp add: filter_empty_conv)
    moreover have "filter (\<lambda>p. fst p = a) (map (Pair a) s) = map (Pair a) s" by (induction s) simp_all
    ultimately show ?thesis using 0 by simp
  next
    case (Suc k)
    have ne: "(of_nat l :: u64) \<noteq> 0" using Cons.prems Suc by (intro of_nat_word_ne_0) simp_all
    then have "filter (\<lambda>p. fst p = a + of_nat l) (map (Pair a) s) = []" by (simp add: filter_empty_conv)
    moreover have "a + of_nat l = (a + 1) + of_nat k" using Suc by simp
    ultimately show ?thesis using Cons.IH [of k "a + 1"] Cons.prems Suc by (simp add: add.assoc)
  qed
qed simp

text \<open>The right ids of a left id, or a single 0 when it has none.\<close>

definition rights :: "(u64 \<times> u64) list \<Rightarrow> u64 \<Rightarrow> u64 list" where
  "rights ps l = (let rs = map snd (filter (\<lambda>p. fst p = l) ps) in if rs = [] then [0] else rs)"

lemma alb_inv_segment:
  assumes inv: "alb_inv b w ps ss" and l: "0 < unat l" "unat l \<le> length ss" and len: "length ss < 2 ^ 64"
  shows "ss ! (unat l - 1) = rights ps l"
proof -
  let ?s = "ss ! (unat l - 1)"
  have L: "l = 1 + of_nat (unat l - 1)"
    using l(1) by (intro word_of_nat_eqI [of l "unat l", THEN trans]) (auto simp: of_nat_diff)
  have "filter (\<lambda>p. fst p = l) ps = filter (\<lambda>p. snd p \<noteq> 0) (filter (\<lambda>p. fst p = l) (pairs_from 1 ss))"
    using inv by (auto simp: alb_inv_def conj_commute)
  also have "\<dots> = filter (\<lambda>p. snd p \<noteq> 0) (map (Pair l) ?s)"
    using pairs_from_filter [of "unat l - 1" ss 1] l len L by simp
  finally have f: "map snd (filter (\<lambda>p. fst p = l) ps) = filter (\<lambda>r. r \<noteq> 0) ?s"
    by (simp add: filter_map o_def)
  have "?s \<in> set ss" using l by simp
  then have "?s \<noteq> []" "0 \<in> set ?s \<Longrightarrow> ?s = [0]" using inv by (auto simp: alb_inv_def holes_ok_def)
  moreover have "filter (\<lambda>r. r \<noteq> 0) ?s = ?s" if "0 \<notin> set ?s"
    using that by (metis (mono_tags, lifting) filter_True)
  ultimately show ?thesis
    unfolding rights_def f by (cases "0 \<in> set ?s") simp_all
qed

section \<open>Properties\<close>

lemma AdjacencyList_built:
  assumes "big_endian bo" "framed_blocks_ok bo framed" "framed_entries_ok bo framed_e" "chunks_ok chunks"
    and w: "0 < unat width \<or> ps = []" "unat width \<le> 64" and ps: "pairs_ok (unat width) ps"
  obtains b nums bits blocks sblocks a where
    "AdjacencyListBuilder_push_all (AdjacencyListBuilder_new [] [] width) (map Inr ps) = Some (Inr b)"
    "AdjacencyListBuilder_finalize bo framed chunks b = Some (Inr (nums, bits, blocks, sblocks))"
    "AdjacencyList_parse dbg bo nums bits blocks sblocks = Some a" "al_wf a (pair_segs ps)"
    "adjacency_list_stream_pairs bo framed framed_e bits nums = Some (Inr (map Inr ps))"
    "alb_inv b (unat width) ps (pair_segs ps)"
    "length (pair_segs ps) = (if ps = [] then 0 else unat (fst (last ps)))"
    "LogArray_parse bo nums = Some (Inr (al_nums a))" "unat (la_width (al_nums a)) = unat width"
proof -
  from alb_push_all_ok [OF w(2) ps] obtain b where
    b: "AdjacencyListBuilder_push_all (AdjacencyListBuilder_new [] [] width) (map Inr ps) = Some (Inr b)"
    "alb_inv b (unat width) ps (pair_segs ps)"
    "(alb_last_left b, alb_last_right b) = (if ps = [] then (0, 0) else last ps)" by blast
  have l: "length (pair_segs ps) = (if ps = [] then 0 else unat (fst (last ps)))"
    using b(2,3) by (cases "ps = []") (auto simp: alb_inv_def, metis fst_conv)
  have "length (concat (pair_segs ps)) \<le> length ps + length (pair_segs ps)"
    using b(2) by (simp add: alb_inv_def)
  moreover have "ps = [] \<or> length ps + unat (fst (last ps)) + 1 < 2 ^ 32"
    using ps last_in_set [of ps] unfolding pairs_ok_def by blast
  ultimately have cl: "length (concat (pair_segs ps)) < 2 ^ 32" using l by (cases "ps = []") auto
  have w0: "0 < unat width \<or> pair_segs ps = []" using w(1) by (auto simp: pair_segs_def)
  have pf: "filter (\<lambda>p. snd p \<noteq> 0) (pairs_from 1 (pair_segs ps)) = ps" using b(2) by (simp add: alb_inv_def)
  obtain nums bits blocks sblocks a where
    F: "AdjacencyListBuilder_finalize bo framed chunks b = Some (Inr (nums, bits, blocks, sblocks))"
    "AdjacencyList_parse dbg bo nums bits blocks sblocks = Some a" "al_wf a (pair_segs ps)"
    "adjacency_list_stream_pairs bo framed framed_e bits nums =
      Some (Inr (map Inr (filter (\<lambda>p. snd p \<noteq> 0) (pairs_from 1 (pair_segs ps)))))"
    "LogArray_parse bo nums = Some (Inr (al_nums a))" "unat (la_width (al_nums a)) = unat width"
    by (rule big_endian.AdjacencyListBuilder_finalize_ok [OF assms(1) b(2) w0 cl assms(2,4,3), where dbg = dbg])
  show ?thesis by (rule that [OF b(1) F(1-3) _ b(2) l F(5,6)]) (use F(4) pf in simp)
qed

text \<open>
  C17. Round trip of an adjacency list: for pairs in strict order with ids from 1 and
  right ids that fit the width, the builder accepts all of them and finalizes, the
  four files parse, and both the iterator over the parsed list and the stream over
  the files yield exactly the pairs, in order.
\<close>

theorem AdjacencyList_roundtrip:
  assumes "big_endian bo" "framed_blocks_ok bo framed" "framed_entries_ok bo framed_e" "chunks_ok chunks"
    and "0 < unat width" "unat width \<le> 64" "pairs_ok (unat width) ps"
  shows "\<exists>b nums bits blocks sblocks a.
    AdjacencyListBuilder_push_all (AdjacencyListBuilder_new [] [] width) (map Inr ps) = Some (Inr b) \<and>
    AdjacencyListBuilder_finalize bo framed chunks b = Some (Inr (nums, bits, blocks, sblocks)) \<and>
    AdjacencyList_parse dbg bo nums bits blocks sblocks = Some a \<and>
    AdjacencyListIterator_collect bo (AdjacencyList_iter a) = Some ps \<and>
    adjacency_list_stream_pairs bo framed framed_e bits nums = Some (Inr (map Inr ps))"
proof -
  obtain b nums bits blocks sblocks a where
    r: "AdjacencyListBuilder_push_all (AdjacencyListBuilder_new [] [] width) (map Inr ps) = Some (Inr b)"
    "AdjacencyListBuilder_finalize bo framed chunks b = Some (Inr (nums, bits, blocks, sblocks))"
    "AdjacencyList_parse dbg bo nums bits blocks sblocks = Some a" and wf: "al_wf a (pair_segs ps)"
    and st: "adjacency_list_stream_pairs bo framed framed_e bits nums = Some (Inr (map Inr ps))"
    and inv: "alb_inv b (unat width) ps (pair_segs ps)"
    by (rule AdjacencyList_built [OF assms(1-4) disjI1 [OF assms(5)] assms(6,7)])
  have "AdjacencyListIterator_collect bo (AdjacencyList_iter a) = Some ps"
    using AdjacencyList_iter_eq [OF assms(1) wf] inv by (simp add: alb_inv_def)
  with r st show ?thesis by blast
qed

theorem AdjacencyList_roundtrip_witness:
  "\<exists>b nums bits blocks sblocks a.
    AdjacencyListBuilder_push_all (AdjacencyListBuilder_new [] [] 8)
      (map Inr [(1, 1), (1, 3), (2, 5), (7, 4)]) = Some (Inr b) \<and>
    AdjacencyListBuilder_finalize byteorder_std framed_blocks_std chunks_std b =
      Some (Inr (nums, bits, blocks, sblocks)) \<and>
    AdjacencyList_parse True byteorder_std nums bits blocks sblocks = Some a \<and>
    AdjacencyListIterator_collect byteorder_std (AdjacencyList_iter a) =
      Some [(1, 1), (1, 3), (2, 5), (7, 4)] \<and>
    adjacency_list_stream_pairs byteorder_std framed_blocks_std framed_entries_std bits nums =
      Some (Inr (map Inr [(1, 1), (1, 3), (2, 5), (7, 4)]))"
  by (rule AdjacencyList_roundtrip [OF std.big_endian_axioms framed_blocks_std_ok framed_entries_std_ok
        chunks_std_ok]) (simp_all add: pairs_ok_def pair_lt_def)

text \<open>
  C18. Lookup in an adjacency list that was built from pairs: there are as many left ids
  as the largest one pushed, \<open>get\<close> returns the right ids of a left id in order, a
  single 0 for a left id that was skipped, and panics for an id out of range.
\<close>

theorem AdjacencyList_get_correct:
  assumes "big_endian bo" "framed_blocks_ok bo framed" "chunks_ok chunks"
    and "0 < unat width" "unat width \<le> 64" "pairs_ok (unat width) ps" "ps \<noteq> []"
  shows "\<exists>b nums bits blocks sblocks a.
    AdjacencyListBuilder_push_all (AdjacencyListBuilder_new [] [] width) (map Inr ps) = Some (Inr b) \<and>
    AdjacencyListBuilder_finalize bo framed chunks b = Some (Inr (nums, bits, blocks, sblocks)) \<and>
    AdjacencyList_parse dbg bo nums bits blocks sblocks = Some a \<and>
    AdjacencyList_left_count bo a = Some (unat (fst (last ps))) \<and>
    (\<forall>l. if 1 \<le> l \<and> l \<le> fst (last ps)
         then \<exists>s. AdjacencyList_get bo a l = Some s \<and> la_wf s \<and> la_elems s = rights ps l
         else AdjacencyList_get bo a l = None)"
proof -
  obtain fe where fe: "framed_entries_ok bo fe"
  proof
    show "framed_entries_ok bo (\<lambda>d f. case decode_entries bo d f of Some (vs, []) \<Rightarrow> map Inr vs | _ \<Rightarrow> [])"
      by (simp add: framed_entries_ok_def)
  qed
  obtain b nums bits blocks sblocks a where
    r: "AdjacencyListBuilder_push_all (AdjacencyListBuilder_new [] [] width) (map Inr ps) = Some (Inr b)"
    "AdjacencyListBuilder_finalize bo framed chunks b = Some (Inr (nums, bits, blocks, sblocks))"
    "AdjacencyList_parse dbg bo nums bits blocks sblocks = Some a" and wf: "al_wf a (pair_segs ps)"
    and inv: "alb_inv b (unat width) ps (pair_segs ps)"
    and len: "length (pair_segs ps) = (if ps = [] then 0 else unat (fst (last ps)))"
    by (rule AdjacencyList_built [OF assms(1,2) fe assms(3) disjI1 [OF assms(4)] assms(5,6)])
  have n: "length (pair_segs ps) = unat (fst (last ps))" using len assms(7) by simp
  have lc: "AdjacencyList_left_count bo a = Some (unat (fst (last ps)))"
    using big_endian.AdjacencyList_left_count_eq [OF assms(1) wf] n by simp
  have "if 1 \<le> l \<and> l \<le> fst (last ps)
         then \<exists>s. AdjacencyList_get bo a l = Some s \<and> la_wf s \<and> la_elems s = rights ps l
         else AdjacencyList_get bo a l = None" for l
  proof -
    have iff: "1 \<le> l \<and> l \<le> fst (last ps) \<longleftrightarrow> 1 \<le> unat l \<and> unat l \<le> length (pair_segs ps)"
      by (simp add: word_le_nat_alt n)
    have "length (pair_segs ps) < 2 ^ 64" using n unsigned_less [of "fst (last ps)", where 'a = nat] by simp
    with alb_inv_segment [OF inv, of l] big_endian.AdjacencyList_get_eq [OF assms(1) wf, of l]
    show ?thesis unfolding iff by auto
  qed
  with r lc show ?thesis by blast
qed

theorem AdjacencyList_get_correct_witness:
  "\<exists>b nums bits blocks sblocks a.
    AdjacencyListBuilder_push_all (AdjacencyListBuilder_new [] [] 8)
      (map Inr [(1, 1), (1, 3), (2, 5), (7, 4)]) = Some (Inr b) \<and>
    AdjacencyListBuilder_finalize byteorder_std framed_blocks_std chunks_std b =
      Some (Inr (nums, bits, blocks, sblocks)) \<and>
    AdjacencyList_parse True byteorder_std nums bits blocks sblocks = Some a \<and>
    (\<exists>s. AdjacencyList_get byteorder_std a 1 = Some s \<and> la_elems s = [1, 3]) \<and>
    (\<exists>s. AdjacencyList_get byteorder_std a 3 = Some s \<and> la_elems s = [0]) \<and>
    AdjacencyList_get byteorder_std a 8 = None"
proof -
  let ?ps = "[(1, 1), (1, 3), (2, 5), (7, 4)] :: (u64 \<times> u64) list"
  have "pairs_ok (unat (8 :: u8)) ?ps" by (simp add: pairs_ok_def pair_lt_def)
  from AdjacencyList_get_correct [OF std.big_endian_axioms framed_blocks_std_ok chunks_std_ok _ _ this, of True]
  obtain b nums bits blocks sblocks a where
    r: "AdjacencyListBuilder_push_all (AdjacencyListBuilder_new [] [] 8) (map Inr ?ps) = Some (Inr b)"
    "AdjacencyListBuilder_finalize byteorder_std framed_blocks_std chunks_std b =
      Some (Inr (nums, bits, blocks, sblocks))"
    "AdjacencyList_parse True byteorder_std nums bits blocks sblocks = Some a"
    and g: "\<forall>l. if 1 \<le> l \<and> l \<le> fst (last ?ps)
         then \<exists>s. AdjacencyList_get byteorder_std a l = Some s \<and> la_wf s \<and> la_elems s = rights ?ps l
         else AdjacencyList_get byteorder_std a l = None" by auto
  have "rights ?ps 1 = [1, 3]" "rights ?ps 3 = [0]" by (simp_all add: rights_def)
  with g [THEN spec, of 1] g [THEN spec, of 3] g [THEN spec, of 8]
  have "\<exists>s. AdjacencyList_get byteorder_std a 1 = Some s \<and> la_elems s = [1, 3]"
    "\<exists>s. AdjacencyList_get byteorder_std a 3 = Some s \<and> la_elems s = [0]"
    "AdjacencyList_get byteorder_std a 8 = None" by auto
  with r show ?thesis by blast
qed

end
