(* ===== verification/WaveletTree.thy ===== *)
theory WaveletTree
  imports BitIndex
begin

text \<open>
  Wavelet trees (\<open>src/structure/wavelettree.rs\<close>): a sequence of numbers below
  \<open>2 ^ w\<close> as \<open>w\<close> layers of bits in one bit index, for the lookup of the positions of a
  number. The model has the decoder, the lookup with its slices and the position
  query that walks back up through them, and the builder that spreads the bits over
  one fragment per tree node.

  In layer \<open>i\<close> the numbers are grouped by their leading \<open>i\<close> bits and each contributes
  the next bit; \<open>wt_wf\<close> says that the bits of a tree are those of a sequence, and the
  lemmas follow a node of the tree through the layers.
\<close>

section \<open>Model\<close>

record WaveletTree =
  wt_bits :: BitIndex
  wt_num_layers :: u8

record WaveletLookup =
  wl_entry :: u64
  wl_tree :: WaveletTree
  wl_slices :: "(bool \<times> u64 \<times> u64) list"

definition WaveletLookup_len :: "byteorder \<Rightarrow> WaveletLookup \<Rightarrow> usize panics" where
  "WaveletLookup_len bo self =
    (if wl_slices self = [] then None
     else let (b, start, end') = last (wl_slices self) in
       do { r \<leftarrow> (if b then BitIndex_rank1_from_range bo (wt_bits (wl_tree self)) start end'
                  else BitIndex_rank0_from_range bo (wt_bits (wl_tree self)) start end');
            Some (unat r) })"

text \<open>The loop of \<open>entry\<close> over the slices from the last to the first; the argument is the
  reversed list of slices.\<close>

fun WaveletLookup_entry_loop ::
  "byteorder \<Rightarrow> BitIndex \<Rightarrow> u64 \<Rightarrow> (bool \<times> u64 \<times> u64) list \<Rightarrow> u64 panics" where
  "WaveletLookup_entry_loop bo bits result [] = Some result"
| "WaveletLookup_entry_loop bo bits result ((b, start_index, end_index) # slices) =
    do { r \<leftarrow> (if b then BitIndex_select1_from_range bo bits result start_index end_index
               else BitIndex_select0_from_range bo bits result start_index end_index);
         k \<leftarrow> r;
         WaveletLookup_entry_loop bo bits (k - start_index + 1) slices }"

definition WaveletLookup_entry :: "byteorder \<Rightarrow> WaveletLookup \<Rightarrow> usize \<Rightarrow> u64 panics" where
  "WaveletLookup_entry bo self index =
    do { len \<leftarrow> WaveletLookup_len bo self;
         rust_assert (\<not> index \<ge> len);
         result \<leftarrow> WaveletLookup_entry_loop bo (wt_bits (wl_tree self)) (of_nat (index + 1))
           (rev (wl_slices self));
         Some (result - 1) }"

definition WaveletLookup_iter :: "byteorder \<Rightarrow> WaveletLookup \<Rightarrow> u64 list panics" where
  "WaveletLookup_iter bo self =
    do { len \<leftarrow> WaveletLookup_len bo self; those (map (WaveletLookup_entry bo self) [0..<len]) }"

definition WaveletTree_from_parts :: "BitIndex \<Rightarrow> u8 \<Rightarrow> WaveletTree panics" where
  "WaveletTree_from_parts bits num_layers =
    do { rust_assert (\<not> (num_layers \<noteq> 0 \<and> BitIndex_len bits mod unat num_layers \<noteq> 0));
         Some \<lparr>wt_bits = bits, wt_num_layers = num_layers\<rparr> }"

definition WaveletTree_len :: "WaveletTree \<Rightarrow> usize" where
  "WaveletTree_len self =
    (if wt_num_layers self = 0 then 0 else BitIndex_len (wt_bits self) div unat (wt_num_layers self))"

text \<open>The loop of \<open>decode_one\<close> over the layers; the state is \<open>offset\<close>, the two ends of the
  alphabet and the two ends of the range.\<close>

fun WaveletTree_decode_loop ::
  "byteorder \<Rightarrow> BitIndex \<Rightarrow> u64 \<Rightarrow> nat list \<Rightarrow> u64 \<Rightarrow> u64 \<Rightarrow> u64 \<Rightarrow> u64 \<Rightarrow> u64 \<Rightarrow> (u64 \<times> u64) panics" where
  "WaveletTree_decode_loop bo bits len [] offset alphabet_start alphabet_end range_start range_end =
    Some (alphabet_start, alphabet_end)"
| "WaveletTree_decode_loop bo bits len (i # is) offset alphabet_start alphabet_end range_start range_end =
    do { let index = of_nat i * len + range_start + offset;
         rust_assert (\<not> unat index \<ge> BitIndex_len bits);
         bit \<leftarrow> BitIndex_get bits index;
         let range_start_index = of_nat i * len + range_start;
         let range_end_index = of_nat i * len + range_end;
         if bit then
           do { r \<leftarrow> BitIndex_rank1_from_range bo bits range_start_index (index + 1);
                zeros_in_range \<leftarrow> BitIndex_rank0_from_range bo bits range_start_index range_end_index;
                WaveletTree_decode_loop bo bits len is (r - 1) ((alphabet_start + alphabet_end) div 2)
                  alphabet_end (range_start + zeros_in_range) range_end }
         else
           do { r \<leftarrow> BitIndex_rank0_from_range bo bits range_start_index (index + 1);
                ones_in_range \<leftarrow> BitIndex_rank1_from_range bo bits range_start_index range_end_index;
                WaveletTree_decode_loop bo bits len is (r - 1) alphabet_start
                  ((alphabet_start + alphabet_end) div 2) range_start (range_end - ones_in_range) } }"

definition WaveletTree_decode_one :: "byteorder \<Rightarrow> WaveletTree \<Rightarrow> usize \<Rightarrow> u64 panics" where
  "WaveletTree_decode_one bo self index =
    do { let len = of_nat (WaveletTree_len self);
         (alphabet_start, alphabet_end) \<leftarrow> WaveletTree_decode_loop bo (wt_bits self) len
           [0..<unat (wt_num_layers self)] (of_nat index) 0 (2 ^ unat (wt_num_layers self)) 0 len;
         rust_assert (alphabet_start = alphabet_end - 1);
         Some alphabet_start }"

definition WaveletTree_decode :: "byteorder \<Rightarrow> WaveletTree \<Rightarrow> u64 list panics" where
  "WaveletTree_decode bo self = those (map (WaveletTree_decode_one bo self) [0..<WaveletTree_len self])"

text \<open>The loop of \<open>lookup\<close>: the slices so far come back in order, \<open>None\<close> when the range
  becomes empty.\<close>

fun WaveletTree_lookup_loop ::
  "byteorder \<Rightarrow> WaveletTree \<Rightarrow> u64 \<Rightarrow> u64 \<Rightarrow> nat list \<Rightarrow> (bool \<times> u64 \<times> u64) list \<Rightarrow>
    u64 \<Rightarrow> u64 \<Rightarrow> u64 \<Rightarrow> u64 \<Rightarrow> (bool \<times> u64 \<times> u64) list option panics" where
  "WaveletTree_lookup_loop bo self entry width [] slices alphabet_start alphabet_end start_index end_index =
    Some (Some slices)"
| "WaveletTree_lookup_loop bo self entry width (i # is) slices alphabet_start alphabet_end start_index end_index =
    do { let full_start_index = of_nat i * width + start_index;
         let full_end_index = of_nat i * width + end_index;
         let b = (entry \<ge> (alphabet_start + alphabet_end) div 2);
         let slices = slices @ [(b, full_start_index, full_end_index)];
         let half = 2 ^ (unat (wt_num_layers self) - i - 1);
         (alphabet_start, alphabet_end, start_index, end_index) \<leftarrow>
           (if b
            then do { z \<leftarrow> BitIndex_rank0_from_range bo (wt_bits self) full_start_index full_end_index;
                      Some (alphabet_start + half, alphabet_end, start_index + z, end_index) }
            else do { z \<leftarrow> BitIndex_rank1_from_range bo (wt_bits self) full_start_index full_end_index;
                      Some (alphabet_start, alphabet_end - half, start_index, end_index - z) });
         if start_index = end_index then Some None
         else WaveletTree_lookup_loop bo self entry width is slices alphabet_start alphabet_end
           start_index end_index }"

definition WaveletTree_lookup :: "byteorder \<Rightarrow> WaveletTree \<Rightarrow> u64 \<Rightarrow> WaveletLookup option panics" where
  "WaveletTree_lookup bo self entry =
    (if wt_num_layers self = 0 then Some None
     else if entry \<ge> 2 ^ unat (wt_num_layers self) then Some None
     else do { s \<leftarrow> WaveletTree_lookup_loop bo self entry (of_nat (WaveletTree_len self))
                 [0..<unat (wt_num_layers self)] [] 0 (2 ^ unat (wt_num_layers self))
                 0 (of_nat (WaveletTree_len self));
               Some (map_option (\<lambda>slices. \<lparr>wl_entry = entry, wl_tree = self, wl_slices = slices\<rparr>) s) })"

definition WaveletTree_lookup_one :: "byteorder \<Rightarrow> WaveletTree \<Rightarrow> u64 \<Rightarrow> u64 option panics" where
  "WaveletTree_lookup_one bo self entry =
    do { l \<leftarrow> WaveletTree_lookup bo self entry;
         case l of None \<Rightarrow> Some None | Some l \<Rightarrow> map_option Some (WaveletLookup_entry bo l 0) }"

record FragmentBuilder =
  fb_start :: u64
  fb_half :: u64
  fb_end :: u64
  fb_bits :: "bool list"

definition FragmentBuilder_new :: "u64 \<Rightarrow> u64 \<Rightarrow> FragmentBuilder" where
  "FragmentBuilder_new fragment_start fragment_end =
    \<lparr>fb_start = fragment_start, fb_half = (fragment_start + fragment_end) div 2,
     fb_end = fragment_end, fb_bits = []\<rparr>"

definition FragmentBuilder_push :: "FragmentBuilder \<Rightarrow> u64 \<Rightarrow> FragmentBuilder" where
  "FragmentBuilder_push self num =
    (if num < fb_start self \<or> num \<ge> fb_end self then self
     else self\<lparr>fb_bits := fb_bits self @ [num \<ge> fb_half self]\<rparr>)"

definition create_fragments :: "u8 \<Rightarrow> FragmentBuilder list" where
  "create_fragments width =
    (let upper = 2 ^ unat width :: u64 in
     concat (map (\<lambda>i. let increment = shr upper i in
         map (\<lambda>j. FragmentBuilder_new (of_nat j * increment) ((of_nat j + 1) * increment)) [0..<2 ^ i])
       [0..<unat width]))"

fun push_to_fragments_loop ::
  "u64 \<Rightarrow> nat \<Rightarrow> nat list \<Rightarrow> usize \<Rightarrow> FragmentBuilder list \<Rightarrow> FragmentBuilder list panics" where
  "push_to_fragments_loop num width [] num_it fragments = Some fragments"
| "push_to_fragments_loop num width (i # is) num_it fragments =
    do { let num_it = num_it div 2;
         index \<leftarrow> usub (num_it + 2 ^ (width - i - 1)) 1;
         f \<leftarrow> index_at fragments index;
         push_to_fragments_loop num width is num_it (fragments[index := FragmentBuilder_push f num]) }"

definition push_to_fragments ::
  "u64 \<Rightarrow> u8 \<Rightarrow> FragmentBuilder list \<Rightarrow> FragmentBuilder list panics" where
  "push_to_fragments num width fragments =
    push_to_fragments_loop num (unat width) [0..<unat width] (unat num) fragments"

fun push_all_to_fragments ::
  "u8 \<Rightarrow> u64 list \<Rightarrow> FragmentBuilder list \<Rightarrow> FragmentBuilder list panics" where
  "push_all_to_fragments width [] fragments = Some fragments"
| "push_all_to_fragments width (num # source) fragments =
    do { fragments \<leftarrow> push_to_fragments num width fragments;
         push_all_to_fragments width source fragments }"

text \<open>The result is the content of the three files.\<close>

definition build_wavelet_tree_from_iter ::
  "byteorder \<Rightarrow> framed_blocks \<Rightarrow> block_chunks \<Rightarrow> u8 \<Rightarrow> u64 list \<Rightarrow>
    (io_error + bytes \<times> bytes \<times> bytes) panics" where
  "build_wavelet_tree_from_iter bo framed chunks width source =
    do { let bits = BitArrayFileBuilder_new [];
         fragments \<leftarrow> push_all_to_fragments width source (create_fragments width);
         let iter = concat (map fb_bits fragments);
         case BitArrayFileBuilder_push_all bits (map Inr iter) of Inl e \<Rightarrow> Some (Inl e)
         | Inr bits \<Rightarrow>
             do { let destination_bits = BitArrayFileBuilder_finalize bits;
                  r \<leftarrow> build_bitindex bo framed chunks destination_bits;
                  Some (case r of Inl e \<Rightarrow> Inl e
                        | Inr (blocks, sblocks) \<Rightarrow> Inr (destination_bits, blocks, sblocks)) } }"

fun LogArrayIterator_take :: "byteorder \<Rightarrow> nat \<Rightarrow> LogArrayIterator \<Rightarrow> u64 list panics" where
  "LogArrayIterator_take bo 0 it = Some []"
| "LogArrayIterator_take bo (Suc n) it =
    do { (x, it) \<leftarrow> LogArrayIterator_next bo it;
         case x of None \<Rightarrow> Some []
         | Some x \<Rightarrow> map_option ((#) x) (LogArrayIterator_take bo n it) }"

text \<open>The iterator of an array of \<open>n\<close> elements ends after \<open>n\<close> steps, so \<open>n + 1\<close> of them
  drain it.\<close>

definition build_wavelet_tree_from_logarray ::
  "byteorder \<Rightarrow> framed_blocks \<Rightarrow> block_chunks \<Rightarrow> bytes \<Rightarrow>
    (io_error + bytes \<times> bytes \<times> bytes) panics" where
  "build_wavelet_tree_from_logarray bo framed chunks source =
    do { r \<leftarrow> LogArray_parse bo source;
         case r of Inl e \<Rightarrow> Some (Inl (LogArrayError_to_io e))
         | Inr logarray \<Rightarrow>
             do { vals \<leftarrow> LogArrayIterator_take bo (LogArray_len logarray + 1) (LogArray_iter logarray);
                  build_wavelet_tree_from_iter bo framed chunks (la_width logarray) vals } }"

section \<open>Nodes and layers\<close>

lemma upt_split: "j < n \<Longrightarrow> [0..<n] = [0..<j] @ j # [Suc j..<n]"
  using upt_add_eq_append [of 0 j "n - j"] by (simp add: upt_conv_Cons)

text \<open>
  The node \<open>j\<close> of layer \<open>i\<close> holds the numbers whose leading \<open>i\<close> of \<open>w\<close> bits are \<open>j\<close>;
  \<open>below\<close> is how many come in the nodes before it, \<open>nbit\<close> is the bit the layer stores.
\<close>

definition node :: "nat \<Rightarrow> nat list \<Rightarrow> nat \<Rightarrow> nat \<Rightarrow> nat list" where
  "node w ns i j = filter (\<lambda>n. n div 2 ^ (w - i) = j) ns"

definition below :: "nat \<Rightarrow> nat list \<Rightarrow> nat \<Rightarrow> nat \<Rightarrow> nat" where
  "below w ns i j = length (filter (\<lambda>n. n div 2 ^ (w - i) < j) ns)"

definition nbit :: "nat \<Rightarrow> nat \<Rightarrow> nat \<Rightarrow> bool" where
  "nbit w i n \<longleftrightarrow> odd (n div 2 ^ (w - i - 1))"

definition layer :: "nat \<Rightarrow> nat list \<Rightarrow> nat \<Rightarrow> bool list" where
  "layer w ns i = concat (map (\<lambda>j. map (nbit w i) (node w ns i j)) [0..<2 ^ i])"

definition layers :: "nat \<Rightarrow> nat list \<Rightarrow> bool list" where
  "layers w ns = concat (map (layer w ns) [0..<w])"

lemma below_0 [simp]: "below w ns i 0 = 0"
  by (simp add: below_def)

lemma below_Suc: "below w ns i (Suc j) = below w ns i j + length (node w ns i j)"
  by (induction ns) (auto simp: below_def node_def)

lemma below_all:
  assumes "\<forall>n\<in>set ns. n < 2 ^ w" "i \<le> w"
  shows "below w ns i (2 ^ i) = length ns"
proof -
  have "n div 2 ^ (w - i) < 2 ^ i" if "n \<in> set ns" for n
  proof -
    have "n < 2 ^ i * 2 ^ (w - i)" using assms that by (simp flip: power_add)
    then show ?thesis by (rule less_mult_imp_div_less)
  qed
  then have "filter (\<lambda>n. n div 2 ^ (w - i) < 2 ^ i) ns = ns" by (simp add: filter_id_conv)
  then show ?thesis by (simp add: below_def)
qed

lemma length_nodes: "length (concat (map (\<lambda>j. map f (node w ns i j)) [0..<j])) = below w ns i j"
  by (induction j) (simp_all add: below_Suc)

lemma length_layer:
  "\<forall>n\<in>set ns. n < 2 ^ w \<Longrightarrow> i \<le> w \<Longrightarrow> length (layer w ns i) = length ns"
  unfolding layer_def length_nodes by (rule below_all)

lemma below_mono: "j \<le> k \<Longrightarrow> below w ns i j \<le> below w ns i k"
  by (induction k) (auto simp: le_Suc_eq below_Suc)

lemma layer_window:
  assumes "j < 2 ^ i"
  shows "take (length (node w ns i j)) (drop (below w ns i j) (layer w ns i)) = map (nbit w i) (node w ns i j)"
proof -
  let ?f = "\<lambda>j. map (nbit w i) (node w ns i j)"
  have "[0..<2 ^ i] = [0..<j] @ j # [Suc j..<2 ^ i]" using assms by (rule upt_split)
  then have "layer w ns i = concat (map ?f [0..<j]) @ ?f j @ concat (map ?f [Suc j..<2 ^ i])"
    by (simp add: layer_def)
  then show ?thesis by (simp add: length_nodes)
qed

lemma length_layers_prefix:
  "\<forall>n\<in>set ns. n < 2 ^ w \<Longrightarrow> i \<le> w \<Longrightarrow> length (concat (map (layer w ns) [0..<i])) = i * length ns"
  by (induction i) (simp_all add: length_layer)

lemma length_layers: "\<forall>n\<in>set ns. n < 2 ^ w \<Longrightarrow> length (layers w ns) = w * length ns"
  unfolding layers_def by (rule length_layers_prefix) simp_all

text \<open>The bits of a node are a window of the whole bit sequence.\<close>

lemma layers_window:
  assumes ns: "\<forall>n\<in>set ns. n < 2 ^ w" and i: "i < w" and j: "j < 2 ^ i"
  shows "take (length (node w ns i j)) (drop (i * length ns + below w ns i j) (layers w ns)) =
    map (nbit w i) (node w ns i j)"
    "i * length ns + below w ns i j + length (node w ns i j) \<le> length (layers w ns)"
proof -
  have le: "below w ns i j + length (node w ns i j) \<le> length ns"
    using below_mono [of "Suc j" "2 ^ i" w ns i] below_all [OF ns] i j by (simp add: below_Suc)
  have "[0..<w] = [0..<i] @ i # [Suc i..<w]" using i by (rule upt_split)
  then have split: "layers w ns = concat (map (layer w ns) [0..<i]) @ layer w ns i @
      concat (map (layer w ns) [Suc i..<w])"
    by (simp add: layers_def)
  have len: "length (concat (map (layer w ns) [0..<i])) = i * length ns" "length (layer w ns i) = length ns"
    using ns i by (simp_all add: length_layers_prefix length_layer)
  have "drop (i * length ns + below w ns i j) (layers w ns) =
      drop (below w ns i j) (layer w ns i) @ concat (map (layer w ns) [Suc i..<w])"
    unfolding split using len le by simp
  then show "take (length (node w ns i j)) (drop (i * length ns + below w ns i j) (layers w ns)) =
    map (nbit w i) (node w ns i j)"
    using layer_window [OF j, of w ns] le len by simp
  show "i * length ns + below w ns i j + length (node w ns i j) \<le> length (layers w ns)"
    unfolding split using len le by simp
qed

text \<open>From a node to its two children.\<close>

lemma div_child:
  fixes n :: nat
  assumes "i < w"
  shows "n div 2 ^ (w - i) = n div 2 ^ (w - Suc i) div 2"
proof -
  have "w - i = Suc (w - Suc i)" using assms by simp
  then have "(2 :: nat) ^ (w - i) = 2 ^ (w - Suc i) * 2" by simp
  then show ?thesis by (simp only: div_mult2_eq)
qed

lemma node_child:
  assumes "i < w"
  shows "node w ns (Suc i) (2 * j + of_bool b) = filter (\<lambda>n. nbit w i n = b) (node w ns i j)"
proof -
  have "n div 2 ^ (w - Suc i) = 2 * j + of_bool b \<longleftrightarrow> nbit w i n = b \<and> n div 2 ^ (w - i) = j" for n
  proof -
    define m where "m = n div 2 ^ (w - Suc i)"
    have "nbit w i n = odd m" "n div 2 ^ (w - i) = m div 2"
      by (simp_all add: nbit_def m_def div_child [OF assms])
    moreover have "m = 2 * j + of_bool b \<longleftrightarrow> odd m = b \<and> m div 2 = j" by (cases b) auto
    ultimately show ?thesis by (simp add: m_def)
  qed
  then show ?thesis by (simp add: node_def conj_commute)
qed

lemma below_child: "i < w \<Longrightarrow> below w ns (Suc i) (2 * j) = below w ns i j"
proof -
  assume "i < w"
  then have "n div 2 ^ (w - Suc i) < 2 * j \<longleftrightarrow> n div 2 ^ (w - i) < j" for n
    by (simp add: div_child less_mult_imp_div_less) linarith
  then show ?thesis by (simp add: below_def)
qed

lemma occ_nbit: "occ b (map (nbit w i) xs) = length (filter (\<lambda>n. nbit w i n = b) xs)"
  by (induction xs) auto

lemma below_child_Suc:
  assumes "i < w"
  shows "below w ns (Suc i) (2 * j + 1) = below w ns i j + occ False (map (nbit w i) (node w ns i j))"
    "below w ns (Suc i) (2 * j + 1) + occ True (map (nbit w i) (node w ns i j)) = below w ns i (Suc j)"
proof -
  show l: "below w ns (Suc i) (2 * j + 1) = below w ns i j + occ False (map (nbit w i) (node w ns i j))"
    using below_Suc [of w ns "Suc i" "2 * j"] below_child [OF assms, of ns j] node_child [OF assms, of ns j False]
    by (simp add: occ_nbit)
  have "occ True (map (nbit w i) (node w ns i j)) + occ False (map (nbit w i) (node w ns i j)) =
      length (node w ns i j)"
    using occ_complement [of "map (nbit w i) (node w ns i j)"] by simp
  with l show "below w ns (Suc i) (2 * j + 1) + occ True (map (nbit w i) (node w ns i j)) = below w ns i (Suc j)"
    by (simp add: below_Suc)
qed

section \<open>Decoding\<close>

definition wt_wf :: "WaveletTree \<Rightarrow> nat list \<Rightarrow> bool" where
  "wt_wf t ns \<longleftrightarrow> bi_wf (wt_bits t) \<and> (ns = [] \<or> 0 < unat (wt_num_layers t)) \<and> unat (wt_num_layers t) < 64 \<and>
    (\<forall>n\<in>set ns. n < 2 ^ unat (wt_num_layers t)) \<and>
    bi_bits (wt_bits t) = layers (unat (wt_num_layers t)) ns"

lemma wt_wfD:
  assumes "wt_wf t ns"
  shows "bi_wf (wt_bits t)" "ns = [] \<or> 0 < unat (wt_num_layers t)" "unat (wt_num_layers t) < 64"
    "\<forall>n\<in>set ns. n < 2 ^ unat (wt_num_layers t)" "bi_bits (wt_bits t) = layers (unat (wt_num_layers t)) ns"
    "WaveletTree_len t = length ns" "BitIndex_len (wt_bits t) = unat (wt_num_layers t) * length ns"
proof -
  from assms show D: "bi_wf (wt_bits t)" "ns = [] \<or> 0 < unat (wt_num_layers t)" "unat (wt_num_layers t) < 64"
    "\<forall>n\<in>set ns. n < 2 ^ unat (wt_num_layers t)" "bi_bits (wt_bits t) = layers (unat (wt_num_layers t)) ns"
    by (simp_all add: wt_wf_def)
  show l: "BitIndex_len (wt_bits t) = unat (wt_num_layers t) * length ns"
    using bi_wfD(7) [OF D(1)] D(5) length_layers [OF D(4)] by (simp add: BitIndex_len_def BitArray_len_def)
  show "WaveletTree_len t = length ns" using D(2) l by (auto simp: WaveletTree_len_def)
qed

lemma wt_length: "wt_wf t ns \<Longrightarrow> length ns < 2 ^ 64"
proof -
  assume wf: "wt_wf t ns"
  note D = wt_wfD [OF wf]
  have "length ns \<le> unat (wt_num_layers t) * length ns" using D(2) by (cases "unat (wt_num_layers t)") simp_all
  also have "\<dots> < 2 ^ 64" using bi_bits_length [OF D(1)] length_layers [OF D(4)] D(5) by simp
  finally show ?thesis .
qed

lemma of_nat_div_2: "x < 2 ^ 64 \<Longrightarrow> of_nat x div 2 = (of_nat (x div 2) :: u64)"
  by (rule word_of_nat_eqI) (simp add: unat_div unat_of_nat_u64)

text \<open>The element of a list is found again in a filtered list at its rank.\<close>

lemma nth_filter_rank:
  assumes "k < length xs" "f (xs ! k) = b"
  defines "r \<equiv> rank_of b (map f xs) (Suc k)"
  shows "0 < r" "r - 1 < length (filter (\<lambda>x. f x = b) xs)" "filter (\<lambda>x. f x = b) xs ! (r - 1) = xs ! k"
proof -
  have r: "r = Suc (length (filter (\<lambda>x. f x = b) (take k xs)))"
    using assms by (simp add: rank_Suc) (simp add: rank_of_def occ_def take_map filter_map o_def)
  have "filter (\<lambda>x. f x = b) xs =
      filter (\<lambda>x. f x = b) (take k xs) @ xs ! k # filter (\<lambda>x. f x = b) (drop (Suc k) xs)"
    using assms(1,2) by (subst id_take_nth_drop [OF assms(1)]) simp
  with r show "0 < r" "r - 1 < length (filter (\<lambda>x. f x = b) xs)" "filter (\<lambda>x. f x = b) xs ! (r - 1) = xs ! k"
    by (simp_all add: nth_append)
qed

lemma alphabet_half:
  assumes "i < w" "w < 64" "j < 2 ^ i"
  shows "(of_nat (j * 2 ^ (w - i)) + of_nat ((j + 1) * 2 ^ (w - i))) div 2 =
      (of_nat ((2 * j + 1) * 2 ^ (w - Suc i)) :: u64)" "(j + 1) * 2 ^ (w - i) \<le> 2 ^ 63"
proof -
  have "(j + 1) * 2 ^ (w - i) \<le> 2 ^ i * 2 ^ (w - i)" using assms(3) by (intro mult_le_mono1) simp
  also have "\<dots> = 2 ^ w" using assms(1) by (simp flip: power_add)
  also have "\<dots> \<le> 2 ^ 63" using assms(2) by (intro power_increasing) simp_all
  finally show le: "(j + 1) * 2 ^ (w - i) \<le> 2 ^ 63" .
  have "(2 :: nat) ^ (w - i) = 2 * 2 ^ (w - Suc i)" using assms(1) by (metis Suc_diff_Suc power_Suc)
  then have half: "(j * 2 ^ (w - i) + (j + 1) * 2 ^ (w - i)) div 2 = (2 * j + 1) * 2 ^ (w - Suc i)"
    by (simp add: algebra_simps)
  have "j * 2 ^ (w - i) < (j + 1) * 2 ^ (w - i)" "(2 :: nat) ^ 64 = 2 * 2 ^ 63" by simp_all
  then have lt: "j * 2 ^ (w - i) + (j + 1) * 2 ^ (w - i) < 2 ^ 64" using le by linarith
  have "(of_nat (j * 2 ^ (w - i)) + of_nat ((j + 1) * 2 ^ (w - i)) :: u64) =
      of_nat (j * 2 ^ (w - i) + (j + 1) * 2 ^ (w - i))" by (simp only: of_nat_add)
  then show "(of_nat (j * 2 ^ (w - i)) + of_nat ((j + 1) * 2 ^ (w - i))) div 2 =
      (of_nat ((2 * j + 1) * 2 ^ (w - Suc i)) :: u64)"
    by (simp only: of_nat_div_2 [OF lt] half)
qed

context big_endian
begin

lemma rank_from_range_nat:
  assumes wf: "bi_wf i" and r: "s + n \<le> length (bi_bits i)"
  shows "BitIndex_rank1_from_range bo i (of_nat s) (of_nat (s + n)) =
      Some (of_nat (occ True (take n (drop s (bi_bits i)))))"
    "BitIndex_rank0_from_range bo i (of_nat s) (of_nat (s + n)) =
      Some (of_nat (occ False (take n (drop s (bi_bits i)))))"
proof -
  have u: "unat (of_nat s :: u64) = s" "unat (of_nat (s + n) :: u64) = s + n"
    using r bi_bits_length [OF wf] by (intro unat_of_nat_u64; simp)+
  show "BitIndex_rank1_from_range bo i (of_nat s) (of_nat (s + n)) =
      Some (of_nat (occ True (take n (drop s (bi_bits i)))))"
    using BitIndex_rank1_from_range_eq [OF wf, of "of_nat s" "of_nat (s + n)"] r unfolding u by simp
  show "BitIndex_rank0_from_range bo i (of_nat s) (of_nat (s + n)) =
      Some (of_nat (occ False (take n (drop s (bi_bits i)))))"
    using BitIndex_rank0_from_range_eq [OF wf, of "of_nat s" "of_nat (s + n)"] r unfolding u by simp
qed

lemma decode_loop_eq:
  assumes wf: "wt_wf t ns" and w: "w = unat (wt_num_layers t)"
    and "i \<le> w" "v < 2 ^ w" "k < length (node w ns i (v div 2 ^ (w - i)))"
    and "node w ns i (v div 2 ^ (w - i)) ! k = v"
  defines "J \<equiv> \<lambda>i. v div 2 ^ (w - i)"
  shows "WaveletTree_decode_loop bo (wt_bits t) (of_nat (length ns)) [i..<w] (of_nat k)
      (of_nat (J i * 2 ^ (w - i))) (of_nat ((J i + 1) * 2 ^ (w - i)))
      (of_nat (below w ns i (J i))) (of_nat (below w ns i (J i + 1))) = Some (of_nat v, of_nat (v + 1))"
  using assms(3,5,6)
proof (induction "w - i" arbitrary: i k)
  case 0
  then have "i = w" by simp
  then show ?case by (simp add: J_def)
next
  case (Suc d)
  note D = wt_wfD [OF wf, folded w]
  from Suc.hyps(2) have i: "i < w" by simp
  let ?j = "J i" and ?n = "length ns" and ?nd = "node w ns i (J i)"
  have "v < 2 ^ i * 2 ^ (w - i)" using assms(4) i by (simp flip: power_add)
  then have j: "?j < 2 ^ i" unfolding J_def by (rule less_mult_imp_div_less)
  define S where "S = i * ?n + below w ns i ?j"
  define b where "b = nbit w i v"
  note win = layers_window [OF D(4) i j, folded D(5) S_def]
  have k: "k < length ?nd" "?nd ! k = v" using Suc.prems by (simp_all add: J_def)
  have nth: "bi_bits (wt_bits t) ! (S + k) = b"
  proof -
    have "take (length ?nd) (drop S (bi_bits (wt_bits t))) ! k = b" using win(1) k by (simp add: b_def)
    then show ?thesis using k(1) win(2) by simp
  qed
  have tk: "take (Suc k) (drop S (bi_bits (wt_bits t))) = take (Suc k) (map (nbit w i) ?nd)"
    using k(1) arg_cong [OF win(1), of "take (Suc k)"] by (simp add: min_def)
  have lt: "S + k < length (bi_bits (wt_bits t))" using win(2) k(1) by simp
  have small: "unat (of_nat (S + k) :: u64) = S + k"
    using lt bi_bits_length [OF D(1)] by (intro unat_of_nat_u64) simp
  have idx: "of_nat i * of_nat ?n + of_nat (below w ns i ?j) = (of_nat S :: u64)"
    "of_nat S + of_nat k = (of_nat (S + k) :: u64)"
    "of_nat i * of_nat ?n + of_nat (below w ns i (?j + 1)) = (of_nat (S + length ?nd) :: u64)"
    "of_nat (S + k) + 1 = (of_nat (S + Suc k) :: u64)"
    by (simp_all add: S_def below_Suc)
  have len: "BitIndex_len (wt_bits t) = length (bi_bits (wt_bits t))"
    using bi_wfD(7) [OF D(1)] by (simp add: BitIndex_len_def BitArray_len_def)
  have get: "BitIndex_get (wt_bits t) (of_nat (S + k)) = Some b"
    using lt nth by (simp add: BitIndex_get_eq [OF D(1)] small del: of_nat_add)
  let ?r = "\<lambda>b. rank_of b (map (nbit w i) ?nd) (Suc k)"
  have rk: "BitIndex_rank1_from_range bo (wt_bits t) (of_nat S) (of_nat (S + Suc k)) = Some (of_nat (?r True))"
    "BitIndex_rank0_from_range bo (wt_bits t) (of_nat S) (of_nat (S + Suc k)) = Some (of_nat (?r False))"
    using rank_from_range_nat [OF D(1), of S "Suc k"] lt tk by (simp_all add: rank_of_def del: of_nat_add of_nat_Suc)
  have rg: "BitIndex_rank1_from_range bo (wt_bits t) (of_nat S) (of_nat (S + length ?nd)) =
      Some (of_nat (occ True (map (nbit w i) ?nd)))"
    "BitIndex_rank0_from_range bo (wt_bits t) (of_nat S) (of_nat (S + length ?nd)) =
      Some (of_nat (occ False (map (nbit w i) ?nd)))"
    using rank_from_range_nat [OF D(1), of S "length ?nd"] win by (simp_all del: of_nat_add)
  note child = nth_filter_rank [of k ?nd "nbit w i" b, OF k(1)] and bc = below_child_Suc [OF i, of ns ?j]
  have J': "J (Suc i) = 2 * ?j + of_bool b"
  proof -
    define m where "m = v div 2 ^ (w - Suc i)"
    have "b = odd m" "?j = m div 2" "J (Suc i) = m"
      by (simp_all add: b_def nbit_def m_def J_def div_child [OF i])
    then show ?thesis by (cases b) auto
  qed
  have nd': "node w ns (Suc i) (J (Suc i)) = filter (\<lambda>n. nbit w i n = b) ?nd"
    unfolding J' by (rule node_child [OF i])
  have bk: "nbit w i (?nd ! k) = b" using k(2) b_def by simp
  have pw: "(2 :: nat) ^ (w - i) = 2 * 2 ^ (w - Suc i)" using i by (metis Suc_diff_Suc power_Suc)
  have IH: "WaveletTree_decode_loop bo (wt_bits t) (of_nat ?n) [Suc i..<w] (of_nat (?r b - 1))
      (of_nat (J (Suc i) * 2 ^ (w - Suc i))) (of_nat ((J (Suc i) + 1) * 2 ^ (w - Suc i)))
      (of_nat (below w ns (Suc i) (J (Suc i)))) (of_nat (below w ns (Suc i) (J (Suc i) + 1))) =
      Some (of_nat v, of_nat (v + 1))"
    using Suc.hyps(2) i child(2,3) [OF bk] nd' k(2) by (intro Suc.hyps(1)) (simp_all add: J_def)
  have up: "[i..<w] = i # [Suc i..<w]" using i by (simp add: upt_conv_Cons)
  have one: "of_nat (?r b) - 1 = (of_nat (?r b - 1) :: u64)" using child(1) [OF bk] by (cases "?r b") simp_all
  note half = alphabet_half(1) [OF i D(3) j]
  show ?case
  proof (cases b)
    case True
    have e: "of_nat (below w ns i ?j) + of_nat (occ False (map (nbit w i) ?nd)) =
        (of_nat (below w ns (Suc i) (J (Suc i))) :: u64)" using bc(1) True by (simp add: J')
    have e': "below w ns i (?j + 1) = below w ns (Suc i) (J (Suc i) + 1)"
      using below_child [OF i, of ns "?j + 1"] True by (simp add: J')
    have a: "(?j + 1) * 2 ^ (w - i) = (J (Suc i) + 1) * 2 ^ (w - Suc i)"
      "(2 * ?j + 1) * 2 ^ (w - Suc i) = J (Suc i) * 2 ^ (w - Suc i)" using True pw by (simp_all add: J')
    show ?thesis
      using IH lt
      unfolding up WaveletTree_decode_loop.simps Let_def idx len small half
      by (simp only: get rk rg Option.bind_lunit one [unfolded eqTrueI [OF True]] e e' a eqTrueI [OF True]
          if_True not_le rust_assert_True)
  next
    case False
    have e: "of_nat (below w ns i (?j + 1)) - of_nat (occ True (map (nbit w i) ?nd)) =
        (of_nat (below w ns (Suc i) (J (Suc i) + 1)) :: u64)"
      using arg_cong [OF bc(2), of "of_nat :: nat \<Rightarrow> u64"] False by (simp add: J' diff_eq_eq)
    have e': "below w ns i ?j = below w ns (Suc i) (J (Suc i))"
      using below_child [OF i, of ns ?j] False by (simp add: J')
    have a: "?j * 2 ^ (w - i) = J (Suc i) * 2 ^ (w - Suc i)"
      "(2 * ?j + 1) * 2 ^ (w - Suc i) = (J (Suc i) + 1) * 2 ^ (w - Suc i)" using False pw by (simp_all add: J')
    have nb: "b = False" using False by simp
    show ?thesis
      using IH lt
      unfolding up WaveletTree_decode_loop.simps Let_def idx len small half
      by (simp only: get rk rg Option.bind_lunit one [unfolded nb] e e' a nb if_False not_le rust_assert_True)
  qed
qed

end

context big_endian
begin

lemma WaveletTree_decode_one_eq:
  assumes wf: "wt_wf t ns" and k: "k < length ns"
  shows "WaveletTree_decode_one bo t k = Some (of_nat (ns ! k))"
proof -
  note D = wt_wfD [OF wf]
  let ?w = "unat (wt_num_layers t)"
  have v: "ns ! k < 2 ^ ?w" using D(4) k by simp
  then have "node ?w ns 0 (ns ! k div 2 ^ (?w - 0)) = ns"
    using D(4) by (simp add: node_def filter_id_conv)
  then have "WaveletTree_decode_loop bo (wt_bits t) (of_nat (length ns)) [0..<?w] (of_nat k)
      (of_nat (0 * 2 ^ (?w - 0))) (of_nat ((0 + 1) * 2 ^ (?w - 0)))
      (of_nat (below ?w ns 0 0)) (of_nat (below ?w ns 0 (0 + 1))) = Some (of_nat (ns ! k), of_nat (ns ! k + 1))"
    using decode_loop_eq [OF wf refl, of 0 "ns ! k" k] v k by simp
  moreover have "below ?w ns 0 (0 + 1) = length ns" using below_all [OF D(4), of 0] by simp
  ultimately show ?thesis by (simp add: WaveletTree_decode_one_def D(6) Let_def)
qed

end

section \<open>Lookup\<close>

text \<open>An occurrence in a filtered list lies in the whole list at the selected position.\<close>

lemma select_filter:
  assumes "f e = b"
  shows "select_of e xs r = (case select_of e (filter (\<lambda>x. f x = b) xs) r of None \<Rightarrow> None
    | Some k \<Rightarrow> select_of b (map f xs) (Suc k))"
proof (induction xs arbitrary: r)
  case (Cons x xs)
  show ?case
  proof (cases "f x = b")
    case False
    with assms have "x \<noteq> e" by auto
    with False Cons [of r] show ?thesis by (auto split: option.split)
  next
    case True
    show ?thesis
    proof (cases "x = e \<and> r = 1")
      case False
      then have "select_of e (x # xs) r = map_option Suc (select_of e xs (if x = e then r - 1 else r))"
        "select_of e (filter (\<lambda>x. f x = b) (x # xs)) r =
          map_option Suc (select_of e (filter (\<lambda>x. f x = b) xs) (if x = e then r - 1 else r))"
        using True by auto
      with True Cons [of "if x = e then r - 1 else r"] show ?thesis by (auto split: option.split)
    qed (use True in simp)
  qed
qed simp

text \<open>The slices of a number, from layer \<open>i\<close> on.\<close>

definition slice_at :: "nat \<Rightarrow> nat list \<Rightarrow> nat \<Rightarrow> nat \<Rightarrow> bool \<times> u64 \<times> u64" where
  "slice_at w ns v i = (nbit w i v, of_nat (i * length ns + below w ns i (v div 2 ^ (w - i))),
    of_nat (i * length ns + below w ns i (v div 2 ^ (w - i) + 1)))"

context big_endian
begin

text \<open>The facts about the node of \<open>v\<close> in layer \<open>i\<close> that one step of the lookup uses.\<close>

lemma lookup_node:
  assumes wf: "wt_wf t ns" and w: "w = unat (wt_num_layers t)" and i: "i < w" and v: "v < 2 ^ w"
  defines "j \<equiv> v div 2 ^ (w - i)" and "b \<equiv> nbit w i v"
  defines "S \<equiv> i * length ns + below w ns i j" and "nd \<equiv> node w ns i j"
  shows "j < 2 ^ i" "v div 2 ^ (w - Suc i) = 2 * j + of_bool b"
    "i * length ns + below w ns i (j + 1) = S + length nd"
    "take (length nd) (drop S (bi_bits (wt_bits t))) = map (nbit w i) nd"
    "S + length nd \<le> length (bi_bits (wt_bits t))"
    "node w ns (Suc i) (v div 2 ^ (w - Suc i)) = filter (\<lambda>n. nbit w i n = b) nd"
proof -
  note D = wt_wfD [OF wf, folded w]
  have "v < 2 ^ i * 2 ^ (w - i)" using v i by (simp flip: power_add)
  then show j: "j < 2 ^ i" unfolding j_def by (rule less_mult_imp_div_less)
  show J': "v div 2 ^ (w - Suc i) = 2 * j + of_bool b"
  proof -
    define m where "m = v div 2 ^ (w - Suc i)"
    have "b = odd m" "j = m div 2" by (simp_all add: b_def nbit_def m_def j_def div_child [OF i])
    then show ?thesis by (cases b) (auto simp: m_def [symmetric])
  qed
  show "i * length ns + below w ns i (j + 1) = S + length nd" by (simp add: S_def nd_def below_Suc)
  show "take (length nd) (drop S (bi_bits (wt_bits t))) = map (nbit w i) nd"
    "S + length nd \<le> length (bi_bits (wt_bits t))"
    using layers_window [OF D(4) i j] by (simp_all add: S_def nd_def D(5))
  show "node w ns (Suc i) (v div 2 ^ (w - Suc i)) = filter (\<lambda>n. nbit w i n = b) nd"
    unfolding J' nd_def by (rule node_child [OF i])
qed

end

lemma below_less:
  assumes "below w ns i j + length (node w ns i j) \<le> m" "m < 2 ^ 64"
  shows "(of_nat (below w ns i j) :: u64) = of_nat (below w ns i (j + 1)) \<longleftrightarrow> node w ns i j = []"
proof -
  have "unat (of_nat (below w ns i j) :: u64) = below w ns i j"
    "unat (of_nat (below w ns i (j + 1)) :: u64) = below w ns i (j + 1)"
    using assms by (intro unat_of_nat_u64; simp add: below_Suc)+
  then have "(of_nat (below w ns i j) :: u64) = of_nat (below w ns i (j + 1)) \<longleftrightarrow>
      below w ns i j = below w ns i (j + 1)" by (metis (no_types))
  then show ?thesis by (simp add: below_Suc)
qed

lemma node_leaf: "i \<ge> w \<Longrightarrow> node w ns i v = filter (\<lambda>n. n = v) ns"
  by (simp add: node_def)

lemma nbit_threshold:
  fixes v P j :: nat
  assumes "v div P = 2 * j + of_bool b" "0 < P"
  shows "(2 * j + 1) * P \<le> v \<longleftrightarrow> b"
  unfolding less_eq_div_iff_mult_less_eq [OF assms(2), symmetric] assms(1) by (cases b) simp_all

context big_endian
begin

lemma lookup_loop_eq:
  assumes wf: "wt_wf t ns" and w: "w = unat (wt_num_layers t)" and v: "v < 2 ^ w" and "i \<le> w"
  defines "J \<equiv> \<lambda>i. v div 2 ^ (w - i)"
  shows "WaveletTree_lookup_loop bo t (of_nat v) (of_nat (length ns)) [i..<w] sl
      (of_nat (J i * 2 ^ (w - i))) (of_nat ((J i + 1) * 2 ^ (w - i)))
      (of_nat (below w ns i (J i))) (of_nat (below w ns i (J i + 1))) =
    Some (if i < w \<and> v \<notin> set ns then None else Some (sl @ map (slice_at w ns v) [i..<w]))"
  using assms(4)
proof (induction "w - i" arbitrary: i sl)
  case 0
  then show ?case by simp
next
  case (Suc d)
  note D = wt_wfD [OF wf, folded w]
  from Suc.hyps(2) have i: "i < w" by simp
  define b nd S where "b = nbit w i v" and "nd = node w ns i (J i)" and "S = i * length ns + below w ns i (J i)"
  have J: "v div 2 ^ (w - i) = J i" for i by (simp add: J_def)
  note N = lookup_node [OF wf w i v, unfolded J, folded b_def nd_def, folded S_def]
  let ?j' = "J (Suc i)" and ?P = "2 ^ (w - Suc i) :: nat"
  have idx: "of_nat i * of_nat (length ns) + of_nat (below w ns i (J i)) = (of_nat S :: u64)"
    "of_nat i * of_nat (length ns) + of_nat (below w ns i (J i + 1)) = (of_nat (S + length nd) :: u64)"
    by (simp_all add: S_def nd_def below_Suc)
  note half = alphabet_half [OF i D(3) N(1)]
  have P: "(2 :: nat) ^ (w - i) = 2 * ?P" using i by (metis Suc_diff_Suc power_Suc)
  have "v < 2 ^ 63" using v D(3) power_increasing [of w 63 "2 :: nat"] by simp
  moreover have "(2 * J i + 1) * ?P < 2 ^ 64"
  proof -
    have "(2 * J i + 1) * ?P \<le> (J i + 1) * 2 ^ (w - i)" by (simp add: P add_mult_distrib)
    then show ?thesis using half(2) by simp
  qed
  ultimately have b: "of_nat ((2 * J i + 1) * ?P) \<le> (of_nat v :: u64) \<longleftrightarrow> b"
    using nbit_threshold [of v ?P "J i" b] N(2) J [of "Suc i"]
    by (simp add: word_le_nat_alt unat_of_nat_u64 del: of_nat_add of_nat_mult of_nat_Suc)
  have pw: "(2 :: u64) ^ (unat (wt_num_layers t) - i - 1) = of_nat ?P" by (simp flip: w)
  have rg: "BitIndex_rank1_from_range bo (wt_bits t) (of_nat S) (of_nat (S + length nd)) =
      Some (of_nat (occ True (map (nbit w i) nd)))"
    "BitIndex_rank0_from_range bo (wt_bits t) (of_nat S) (of_nat (S + length nd)) =
      Some (of_nat (occ False (map (nbit w i) nd)))"
    using rank_from_range_nat [OF D(1) N(5)] N(4) by (simp_all del: of_nat_add)
  note bc = below_child_Suc [OF i, of ns "J i", folded nd_def]
  have step: "WaveletTree_lookup_loop bo t (of_nat v) (of_nat (length ns)) [i..<w] sl
      (of_nat (J i * 2 ^ (w - i))) (of_nat ((J i + 1) * 2 ^ (w - i)))
      (of_nat (below w ns i (J i))) (of_nat (below w ns i (J i + 1))) =
    (if of_nat (below w ns (Suc i) ?j') = (of_nat (below w ns (Suc i) (?j' + 1)) :: u64) then Some None
     else WaveletTree_lookup_loop bo t (of_nat v) (of_nat (length ns)) [Suc i..<w] (sl @ [slice_at w ns v i])
      (of_nat (?j' * ?P)) (of_nat ((?j' + 1) * ?P))
      (of_nat (below w ns (Suc i) ?j')) (of_nat (below w ns (Suc i) (?j' + 1))))"
  proof -
    have up: "[i..<w] = i # [Suc i..<w]" using i by (simp add: upt_conv_Cons)
    have sl: "slice_at w ns v i = (b, of_nat S, of_nat (S + length nd))"
      by (simp add: slice_at_def b_def S_def nd_def below_Suc J)
    show ?thesis
    proof (cases b)
      case True
      then have j': "?j' = 2 * J i + 1" using N(2) by simp
      have "of_nat (J i * 2 ^ (w - i)) + of_nat ?P = (of_nat (?j' * ?P) :: u64)"
        "of_nat (below w ns i (J i)) + of_nat (occ False (map (nbit w i) nd)) =
          (of_nat (below w ns (Suc i) ?j') :: u64)"
        "(J i + 1) * 2 ^ (w - i) = (?j' + 1) * ?P" "below w ns i (J i + 1) = below w ns (Suc i) (?j' + 1)"
        using P bc(1) below_child [OF i, of ns "J i + 1"] by (simp_all add: j' algebra_simps)
      with True show ?thesis
        unfolding up WaveletTree_lookup_loop.simps Let_def idx half(1) b pw rg sl
        by (simp del: of_nat_add of_nat_mult)
    next
      case False
      then have j': "?j' = 2 * J i" using N(2) by simp
      have "of_nat ((J i + 1) * 2 ^ (w - i)) - of_nat ?P = (of_nat ((?j' + 1) * ?P) :: u64)"
        "of_nat (below w ns i (J i + 1)) - of_nat (occ True (map (nbit w i) nd)) =
          (of_nat (below w ns (Suc i) (?j' + 1)) :: u64)"
        "J i * 2 ^ (w - i) = ?j' * ?P" "below w ns i (J i) = below w ns (Suc i) ?j'"
        using P arg_cong [OF bc(2), of "of_nat :: nat \<Rightarrow> u64"] below_child [OF i, of ns "J i"]
        by (simp_all add: j' algebra_simps)
      with False show ?thesis
        unfolding up WaveletTree_lookup_loop.simps Let_def idx half(1) b pw rg sl
        by (simp del: of_nat_add of_nat_mult of_nat_diff)
    qed
  qed
  have le: "below w ns (Suc i) ?j' + length (node w ns (Suc i) ?j') \<le> length ns"
  proof -
    have "v < 2 ^ Suc i * 2 ^ (w - Suc i)" using v i by (simp only: power_add [symmetric]) simp
    then have "?j' < 2 ^ Suc i" unfolding J_def by (rule less_mult_imp_div_less)
    then show ?thesis
      using below_mono [of "Suc ?j'" "2 ^ Suc i" w ns "Suc i"] below_all [OF D(4), of "Suc i"] i
      by (simp add: below_Suc)
  qed
  note eq = below_less [OF le wt_length [OF wf]]
  show ?case
  proof (cases "node w ns (Suc i) ?j' = []")
    case True
    then have "v \<notin> set ns" by (auto simp: node_def J_def filter_empty_conv)
    with True eq i step show ?thesis by simp
  next
    case False
    have "v \<in> set ns" if "Suc i = w"
      using False that by (auto simp: node_leaf J_def filter_empty_conv)
    moreover have "[i..<w] = i # [Suc i..<w]" using i by (simp add: upt_conv_Cons)
    ultimately show ?thesis
      using False eq i step Suc.hyps(1) [of "Suc i" "sl @ [slice_at w ns v i]"] Suc.hyps(2)
      by (auto simp del: upt_Suc of_nat_mult of_nat_add)
  qed
qed

end

lemma occ_filter_le: "occ v (filter P xs) \<le> occ v xs"
  by (induction xs) auto

lemma filter_eq_replicate: "filter (\<lambda>x. x = v) xs = replicate (occ v xs) v"
  by (induction xs) auto

lemma select_replicate: "0 < r \<Longrightarrow> r \<le> n \<Longrightarrow> select_of v (replicate n v) r = Some (r - 1)"
proof (induction n arbitrary: r)
  case (Suc n)
  show ?case
  proof (cases "r = 1")
    case False
    with Suc.prems have "0 < r - 1" "r - 1 \<le> n" by auto
    with Suc.IH [of "r - 1"] False show ?thesis by simp
  qed simp
qed simp

context big_endian
begin

lemma WaveletTree_lookup_eq:
  assumes wf: "wt_wf t ns"
  shows "WaveletTree_lookup bo t e = Some (if unat e \<in> set ns
    then Some \<lparr>wl_entry = e, wl_tree = t,
      wl_slices = map (slice_at (unat (wt_num_layers t)) ns (unat e)) [0..<unat (wt_num_layers t)]\<rparr>
    else None)"
proof (cases "wt_num_layers t = 0")
  case True
  then show ?thesis using wt_wfD(2) [OF wf] by (simp add: WaveletTree_lookup_def)
next
  case nl: False
  note D = wt_wfD [OF wf]
  define w where "w = unat (wt_num_layers t)"
  have w0: "0 < w" using nl by (simp add: w_def unat_gt_0)
  have "(2 :: nat) ^ w < 2 ^ 64" using D(3) unfolding w_def by (intro power_strict_increasing) simp_all
  then have pw: "unat (2 ^ w :: u64) = 2 ^ w" using unat_of_nat_u64 [of "2 ^ w"] by simp
  show ?thesis
  proof (cases "unat e < 2 ^ w")
    case False
    then have "2 ^ w \<le> e" "unat e \<notin> set ns" using pw D(4) by (auto simp: word_le_nat_alt w_def)
    then show ?thesis using nl by (simp add: WaveletTree_lookup_def w_def)
  next
    case True
    have b: "below w ns 0 (0 + 1) = length ns" using below_all [of ns w 0] D(4) by (simp add: w_def)
    have "WaveletTree_lookup_loop bo t e (of_nat (length ns)) [0..<w] [] 0 (2 ^ w) 0 (of_nat (length ns)) =
        Some (if unat e \<notin> set ns then None else Some (map (slice_at w ns (unat e)) [0..<w]))"
      using lookup_loop_eq [OF wf w_def True, of 0 "[]"] True b w0 by (simp add: w_def)
    moreover have "\<not> 2 ^ w \<le> e" using True pw by (simp add: word_le_nat_alt)
    ultimately show ?thesis using nl D(6) by (simp add: WaveletTree_lookup_def w_def)
  qed
qed

lemma slice_at_eq:
  assumes wf: "wt_wf t ns" and w: "w = unat (wt_num_layers t)" and i: "i < w" and v: "v < 2 ^ w"
  obtains S nd where "slice_at w ns v i = (nbit w i v, of_nat S, of_nat (S + length nd))"
    "nd = node w ns i (v div 2 ^ (w - i))"
    "take (length nd) (drop S (bi_bits (wt_bits t))) = map (nbit w i) nd"
    "S + length nd \<le> length (bi_bits (wt_bits t))"
    "node w ns (Suc i) (v div 2 ^ (w - Suc i)) = filter (\<lambda>n. nbit w i n = nbit w i v) nd"
  by (rule that [OF _ refl lookup_node(4,5,6) [OF wf w i v]])
    (simp add: slice_at_def below_Suc)

lemma WaveletLookup_len_eq:
  assumes wf: "wt_wf t ns" and v: "v < 2 ^ unat (wt_num_layers t)" and ne: "ns \<noteq> []"
  shows "WaveletLookup_len bo \<lparr>wl_entry = e, wl_tree = t,
      wl_slices = map (slice_at (unat (wt_num_layers t)) ns v) [0..<unat (wt_num_layers t)]\<rparr> = Some (occ v ns)"
proof -
  note D = wt_wfD [OF wf]
  define w where "w = unat (wt_num_layers t)"
  obtain m where m: "w = Suc m" using D(2) ne by (cases w) (auto simp: w_def)
  obtain S nd where s: "slice_at w ns v m = (nbit w m v, of_nat S, of_nat (S + length nd))"
    "take (length nd) (drop S (bi_bits (wt_bits t))) = map (nbit w m) nd"
    "S + length nd \<le> length (bi_bits (wt_bits t))"
    "node w ns (Suc m) (v div 2 ^ (w - Suc m)) = filter (\<lambda>n. nbit w m n = nbit w m v) nd"
    by (rule slice_at_eq [OF wf w_def, of m v]) (use m v in \<open>simp_all add: w_def\<close>)
  have "occ (nbit w m v) (map (nbit w m) nd) = occ v ns"
    using s(4) m by (simp add: occ_nbit node_leaf) (simp add: occ_def)
  moreover have "unat (of_nat (occ v ns) :: u64) = occ v ns"
    using occ_le_length [of v ns] wt_length [OF wf] by (intro unat_of_nat_u64) simp
  moreover have "last (map (slice_at w ns v) [0..<w]) = slice_at w ns v m" using m by simp
  ultimately show ?thesis
    using rank_from_range_nat [OF D(1) s(3)] s(1,2) m
    by (cases "nbit w m v") (simp_all add: WaveletLookup_len_def del: of_nat_add flip: w_def)
qed

lemma select_from_range_nat:
  assumes wf: "bi_wf i" and win: "S + n \<le> length (bi_bits i)"
    and sel: "select_of b (take n (drop S (bi_bits i))) r = Some k"
  shows "(if b then BitIndex_select1_from_range bo i (of_nat r) (of_nat S) (of_nat (S + n))
      else BitIndex_select0_from_range bo i (of_nat r) (of_nat S) (of_nat (S + n))) = Some (Some (of_nat (S + k)))"
proof -
  have k: "k < n" "r \<le> occ b (take n (drop S (bi_bits i)))" "0 < r"
    using select_SomeD [OF sel] by simp_all
  have len: "length (bi_bits i) < 2 ^ 38" by (rule bi_bits_length [OF wf])
  have "occ b (take n (drop S (bi_bits i))) \<le> n"
    using occ_le_length [of b "take n (drop S (bi_bits i))"] by simp
  then have r: "r < 2 ^ 38" using k(2) win len by linarith
  have u: "unat (of_nat S :: u64) = S" "unat (of_nat (S + n) :: u64) = S + n" "unat (of_nat r :: u64) = r"
    using win len r by (intro unat_of_nat_u64; simp)+
  have ne: "bi_bits i \<noteq> []" using win k(1) by auto
  have rk: "rank_of b (bi_bits i) S + r \<le> occ b (bi_bits i)"
  proof -
    have "rank_of b (bi_bits i) S + occ b (take n (drop S (bi_bits i))) = rank_of b (bi_bits i) (S + n)"
      by (simp add: rank_add) (simp add: rank_of_def)
    then show ?thesis using k(2) rank_le_occ [of b "bi_bits i" "S + n"] by linarith
  qed
  show ?thesis
  proof (cases b)
    case True
    then show ?thesis
      using BitIndex_select1_from_range_eq [OF wf, of "of_nat r" "of_nat S" "of_nat (S + n)"] u k(3) ne sel win len r
      by (simp del: of_nat_add) simp
  next
    case False
    then show ?thesis
      using BitIndex_select0_from_range_eq [OF wf, of "of_nat r" "of_nat S" "of_nat (S + n)"] u k(3) ne sel win rk
      by (simp del: of_nat_add) simp
  qed
qed

lemma entry_loop_eq:
  assumes wf: "wt_wf t ns" and w: "w = unat (wt_num_layers t)" and v: "v < 2 ^ w" and "i \<le> w"
    and "select_of v (node w ns i (v div 2 ^ (w - i))) r = Some p"
  shows "\<exists>q. select_of v ns r = Some q \<and>
    WaveletLookup_entry_loop bo (wt_bits t) (of_nat (p + 1)) (rev (map (slice_at w ns v) [0..<i])) =
      Some (of_nat (q + 1))"
  using assms(4,5)
proof (induction i arbitrary: p)
  case 0
  have "node w ns 0 (v div 2 ^ (w - 0)) = ns"
    using v wt_wfD(4) [OF wf] w by (simp add: node_def filter_id_conv)
  with 0 show ?case by auto
next
  case (Suc i)
  note D = wt_wfD [OF wf]
  obtain S nd where s: "slice_at w ns v i = (nbit w i v, of_nat S, of_nat (S + length nd))"
    "nd = node w ns i (v div 2 ^ (w - i))"
    "take (length nd) (drop S (bi_bits (wt_bits t))) = map (nbit w i) nd"
    "S + length nd \<le> length (bi_bits (wt_bits t))"
    "node w ns (Suc i) (v div 2 ^ (w - Suc i)) = filter (\<lambda>n. nbit w i n = nbit w i v) nd"
    using slice_at_eq [OF wf w _ v, of i] Suc.prems(1) by (metis Suc_le_eq)
  have "select_of v nd r = select_of (nbit w i v) (map (nbit w i) nd) (Suc p)"
    using select_filter [of "nbit w i" v "nbit w i v" nd r] Suc.prems(2) s(5) by simp
  moreover have "select_of v nd r \<noteq> None"
    using select_SomeD [OF Suc.prems(2)] occ_filter_le [of v "\<lambda>n. nbit w i n = nbit w i v" nd] s(5)
    by (simp add: select_None_iff)
  ultimately obtain k where k: "select_of v nd r = Some k"
    "select_of (nbit w i v) (map (nbit w i) nd) (Suc p) = Some k" by auto
  have sel: "(if nbit w i v then BitIndex_select1_from_range bo (wt_bits t) (of_nat (p + 1)) (of_nat S) (of_nat (S + length nd))
      else BitIndex_select0_from_range bo (wt_bits t) (of_nat (p + 1)) (of_nat S) (of_nat (S + length nd))) =
      Some (Some (of_nat (S + k)))"
    using select_from_range_nat [OF D(1) s(4)] s(3) k(2) by simp
  have e: "of_nat (S + k) - of_nat S + 1 = (of_nat (k + 1) :: u64)" by simp
  obtain q where q: "select_of v ns r = Some q"
    "WaveletLookup_entry_loop bo (wt_bits t) (of_nat (k + 1)) (rev (map (slice_at w ns v) [0..<i])) =
      Some (of_nat (q + 1))"
    using Suc.IH [of k] Suc.prems(1) k(1) s(2) by auto
  have "rev (map (slice_at w ns v) [0..<Suc i]) = slice_at w ns v i # rev (map (slice_at w ns v) [0..<i])" by simp
  then show ?case using q
    by (intro exI [of _ q]) (simp only: s(1) WaveletLookup_entry_loop.simps sel Option.bind_lunit e)
qed

lemma WaveletLookup_entry_eq:
  assumes wf: "wt_wf t ns" and v: "v < 2 ^ unat (wt_num_layers t)" and ne: "ns \<noteq> []"
    and l: "l = \<lparr>wl_entry = e, wl_tree = t,
      wl_slices = map (slice_at (unat (wt_num_layers t)) ns v) [0..<unat (wt_num_layers t)]\<rparr>"
  shows "WaveletLookup_entry bo l k = map_option of_nat (select_of v ns (k + 1))"
proof (cases "k < occ v ns")
  case False
  then show ?thesis
    using WaveletLookup_len_eq [OF wf v ne] by (simp add: WaveletLookup_entry_def l select_beyond)
next
  case True
  have "select_of v (node (unat (wt_num_layers t)) ns (unat (wt_num_layers t)) v) (k + 1) = Some k"
    using True select_replicate [of "k + 1" "occ v ns" v] by (simp add: node_leaf filter_eq_replicate)
  then obtain q where q: "select_of v ns (k + 1) = Some q"
    "WaveletLookup_entry_loop bo (wt_bits t) (of_nat (k + 1)) (rev (wl_slices l)) = Some (of_nat (q + 1))"
    using entry_loop_eq [OF wf refl v order_refl, of "k + 1" k] unfolding l by auto
  then show ?thesis
    using True WaveletLookup_len_eq [OF wf v ne] by (simp add: WaveletLookup_entry_def l)
qed

end

section \<open>Building\<close>

text \<open>A complete binary tree of \<open>w\<close> levels in one list, level by level.\<close>

definition levels :: "(nat \<Rightarrow> nat \<Rightarrow> 'a) \<Rightarrow> nat \<Rightarrow> 'a list" where
  "levels f w = concat (map (\<lambda>l. map (f l) [0..<2 ^ l]) [0..<w])"

lemma length_levels: "length (levels f w) = 2 ^ w - 1"
  by (induction w) (simp_all add: levels_def)

lemma levels_cong: "(\<And>l j. l < w \<Longrightarrow> j < 2 ^ l \<Longrightarrow> f l j = g l j) \<Longrightarrow> levels f w = levels g w"
  unfolding levels_def by (intro arg_cong [where f = concat] map_cong) auto

lemma levels_split:
  "l < w \<Longrightarrow> levels f w = levels f l @ map (f l) [0..<2 ^ l] @ concat (map (\<lambda>l. map (f l) [0..<2 ^ l]) [Suc l..<w])"
  unfolding levels_def by (subst upt_split, assumption) simp

lemma levels_index:
  assumes "l < w" "j < 2 ^ l"
  shows "2 ^ l - 1 + j < length (levels f w)" "levels f w ! (2 ^ l - 1 + j) = f l j"
proof -
  have "length (levels f l) + j < length (levels f w)" "levels f w ! (length (levels f l) + j) = f l j"
    unfolding levels_split [OF assms(1)] nth_append_length_plus using assms(2)
    by (simp_all add: nth_append)
  then show "2 ^ l - 1 + j < length (levels f w)" "levels f w ! (2 ^ l - 1 + j) = f l j"
    by (simp_all only: length_levels)
qed

lemma levels_update:
  assumes "l < w" "j < 2 ^ l"
  shows "(levels f w)[2 ^ l - 1 + j := x] = levels (\<lambda>l' j'. if l' = l \<and> j' = j then x else f l' j') w"
proof -
  let ?g = "\<lambda>l' j'. if l' = l \<and> j' = j then x else f l' j'"
  have "levels ?g l = levels f l" by (rule levels_cong) simp
  moreover have "(map (f l) [0..<2 ^ l])[j := x] = map (?g l) [0..<2 ^ l]"
    using assms(2) by (intro nth_equalityI) (auto simp: nth_list_update)
  moreover have rest: "map (\<lambda>l'. map (?g l') [0..<2 ^ l']) [Suc l..<w] = map (\<lambda>l'. map (f l') [0..<2 ^ l']) [Suc l..<w]"
    by (intro map_cong) auto
  ultimately have "(levels f w)[length (levels f l) + j := x] = levels ?g w"
    unfolding levels_split [OF assms(1)] rest by (simp add: list_update_append assms(2))
  then show ?thesis by (simp only: length_levels)
qed

text \<open>The fragment of a node after the numbers \<open>ns\<close>.\<close>

definition frag :: "nat \<Rightarrow> nat list \<Rightarrow> nat \<Rightarrow> nat \<Rightarrow> FragmentBuilder" where
  "frag w ns l j = \<lparr>fb_start = of_nat (j * 2 ^ (w - l)), fb_half = of_nat ((2 * j + 1) * 2 ^ (w - Suc l)),
    fb_end = of_nat ((j + 1) * 2 ^ (w - l)), fb_bits = map (nbit w l) (node w ns l j)\<rparr>"

lemma create_fragments_eq:
  assumes "unat width < 64"
  shows "create_fragments width = levels (frag (unat width) []) (unat width)"
proof -
  define w where "w = unat width"
  have "FragmentBuilder_new (of_nat j * shr (2 ^ w) l) ((of_nat j + 1) * shr (2 ^ w) l) = frag w [] l j"
    if lj: "l < w" "j < 2 ^ l" for l j
  proof -
    have "shr (2 ^ w) l = (2 ^ (w - l) :: u64)"
      using lj assms drop_bit_exp [of l w, where 'a = 64] by (simp add: shr_def w_def)
    then have inc: "shr (2 ^ w) l = (of_nat (2 ^ (w - l)) :: u64)" by simp
    have e: "of_nat j * of_nat (2 ^ (w - l)) = (of_nat (j * 2 ^ (w - l)) :: u64)"
      "(of_nat j + 1) * of_nat (2 ^ (w - l)) = (of_nat ((j + 1) * 2 ^ (w - l)) :: u64)"
      by (simp_all add: algebra_simps)
    show ?thesis
      unfolding inc e FragmentBuilder_new_def frag_def
      using alphabet_half(1) [OF lj(1) _ lj(2)] assms by (simp add: node_def w_def del: of_nat_mult of_nat_add)
  qed
  then have "levels (\<lambda>l j. FragmentBuilder_new (of_nat j * shr (2 ^ w) l) ((of_nat j + 1) * shr (2 ^ w) l)) w =
      levels (frag w []) w" by (intro levels_cong)
  then show ?thesis by (simp add: create_fragments_def levels_def Let_def w_def)
qed

lemma node_snoc: "node w (ns @ [n]) l j = node w ns l j @ (if n div 2 ^ (w - l) = j then [n] else [])"
  by (simp add: node_def)

lemma FragmentBuilder_push_frag:
  assumes "l < w" "w < 64" "j < 2 ^ l" "unat num div 2 ^ (w - l) = j"
  shows "FragmentBuilder_push (frag w ns l j) num = frag w (ns @ [unat num]) l j"
proof -
  have le: "(j + 1) * 2 ^ (w - l) \<le> 2 ^ 63" by (rule alphabet_half(2) [OF assms(1-3)])
  have P: "(2 :: nat) ^ (w - l) = 2 * 2 ^ (w - Suc l)" using assms(1) by (metis Suc_diff_Suc power_Suc)
  have m: "j * 2 ^ (w - l) \<le> (j + 1) * 2 ^ (w - l)" "(2 * j + 1) * 2 ^ (w - Suc l) \<le> (j + 1) * 2 ^ (w - l)"
    by (simp_all add: P add_mult_distrib)
  have u: "unat (of_nat (j * 2 ^ (w - l)) :: u64) = j * 2 ^ (w - l)"
    "unat (of_nat ((j + 1) * 2 ^ (w - l)) :: u64) = (j + 1) * 2 ^ (w - l)"
    "unat (of_nat ((2 * j + 1) * 2 ^ (w - Suc l)) :: u64) = (2 * j + 1) * 2 ^ (w - Suc l)"
    by (rule unat_of_nat_u64, use le m in simp)+
  have pos: "0 < (2 :: nat) ^ (w - l)" by simp
  have lo: "j * 2 ^ (w - l) \<le> unat num" "unat num < (j + 1) * 2 ^ (w - l)"
    using assms(4) less_eq_div_iff_mult_less_eq [OF pos, of j "unat num"]
      div_less_iff_less_mult [OF pos, of "unat num" "j + 1"] by simp_all
  have b: "nbit w l (unat num) \<longleftrightarrow> (2 * j + 1) * 2 ^ (w - Suc l) \<le> unat num"
  proof -
    define m where "m = unat num div 2 ^ (w - Suc l)"
    have "nbit w l (unat num) = odd m" "j = m div 2"
      using assms(4) by (simp_all add: nbit_def m_def div_child [OF assms(1)])
    then have "m = 2 * j + of_bool (nbit w l (unat num))" by (cases "odd m") auto
    then show ?thesis using nbit_threshold [of "unat num" "2 ^ (w - Suc l)" j] by (simp add: m_def)
  qed
  show ?thesis
    unfolding FragmentBuilder_push_def frag_def FragmentBuilder.simps word_less_nat_alt word_le_nat_alt u
      b [symmetric] node_snoc
    using lo assms(4) by (simp add: not_le)
qed

lemma push_to_fragments_loop_eq:
  assumes w: "w < 64" and n: "unat num < 2 ^ w" and "i \<le> w"
  shows "push_to_fragments_loop num w [i..<w] (unat num div 2 ^ i)
      (levels (\<lambda>l j. if w - i \<le> l then frag w (ns @ [unat num]) l j else frag w ns l j) w) =
    Some (levels (frag w (ns @ [unat num])) w)"
  using assms(3)
proof (induction "w - i" arbitrary: i)
  case 0
  then show ?case by (auto intro!: levels_cong)
next
  case (Suc d)
  then have i: "i < w" by simp
  define l j where "l = w - i - 1" and "j = unat num div 2 ^ i div 2"
  have l: "l < w" "w - l = Suc i" "w - Suc i = l" using i by (auto simp: l_def)
  have j: "unat num div 2 ^ (w - l) = j" unfolding l(2) j_def by (simp add: div_mult2_eq [symmetric] mult.commute)
  have "unat num < 2 ^ l * 2 ^ (w - l)" using n l(1) by (simp flip: power_add)
  then have jl: "j < 2 ^ l" unfolding j [symmetric] by (rule less_mult_imp_div_less)
  let ?F = "\<lambda>i l j. if w - i \<le> l then frag w (ns @ [unat num]) l j else frag w ns l j"
  have "(1 :: nat) \<le> 2 ^ l" by simp
  then have "1 \<le> j + 2 ^ l" "j + 2 ^ l - 1 = 2 ^ l - 1 + j" by linarith+
  then have idx: "usub (j + 2 ^ l) 1 = Some (2 ^ l - 1 + j)" by (simp only: usub_def if_True)
  have "\<not> w - i \<le> l" using i by (simp add: l_def)
  then have get: "index_at (levels (?F i) w) (2 ^ l - 1 + j) = Some (frag w ns l j)"
    using levels_index [OF l(1) jl, of "?F i"] by (simp add: index_at_def)
  have upd: "(levels (?F i) w)[2 ^ l - 1 + j := FragmentBuilder_push (frag w ns l j) num] = levels (?F (Suc i)) w"
    unfolding levels_update [OF l(1) jl] FragmentBuilder_push_frag [OF l(1) w jl j]
  proof (rule levels_cong)
    fix l' j' assume "l' < w"
    show "(if l' = l \<and> j' = j then frag w (ns @ [unat num]) l j else ?F i l' j') = ?F (Suc i) l' j'"
    proof (cases "l' = l")
      case True
      then show ?thesis using l i j by (auto simp: frag_def node_snoc)
    next
      case False
      then have "w - i \<le> l' \<longleftrightarrow> w - Suc i \<le> l'" using l i by auto
      with False show ?thesis by auto
    qed
  qed
  have up: "[i..<w] = i # [Suc i..<w]" using i by (simp add: upt_conv_Cons)
  have j2: "j = unat num div 2 ^ Suc i" by (simp add: j_def div_mult2_eq [symmetric] mult.commute)
  have IH: "push_to_fragments_loop num w [Suc i..<w] (unat num div 2 ^ Suc i) (levels (?F (Suc i)) w) =
      Some (levels (frag w (ns @ [unat num])) w)"
    using Suc.hyps(2) i by (intro Suc.hyps(1)) simp_all
  show ?case
    using IH unfolding up push_to_fragments_loop.simps Let_def l_def [symmetric] j_def [symmetric]
    by (simp only: idx get upd Option.bind_lunit j2 [symmetric])
qed

lemma push_all_to_fragments_eq:
  assumes "unat width < 64" "\<forall>v\<in>set vals. unat v < 2 ^ unat width"
  shows "push_all_to_fragments width vals (levels (frag (unat width) ns) (unat width)) =
    Some (levels (frag (unat width) (ns @ map unat vals)) (unat width))"
  using assms(2)
proof (induction vals arbitrary: ns)
  case (Cons v vals)
  let ?w = "unat width"
  have "levels (frag ?w ns) ?w =
      levels (\<lambda>l j. if ?w - 0 \<le> l then frag ?w (ns @ [unat v]) l j else frag ?w ns l j) ?w"
    by (rule levels_cong) simp
  then have "push_to_fragments v width (levels (frag ?w ns) ?w) = Some (levels (frag ?w (ns @ [unat v])) ?w)"
    using push_to_fragments_loop_eq [OF assms(1), of v 0 ns] Cons.prems by (simp add: push_to_fragments_def)
  then show ?case using Cons.IH [of "ns @ [unat v]"] Cons.prems by simp
qed simp

lemma fragments_bits: "concat (map fb_bits (levels (frag w ns) w)) = layers w ns"
proof -
  have flat: "concat (map fb_bits (concat (map F ls))) = concat (map (\<lambda>l. concat (map fb_bits (F l))) ls)"
    for F :: "nat \<Rightarrow> FragmentBuilder list" and ls by (induction ls) simp_all
  show ?thesis by (simp add: levels_def flat layers_def layer_def [abs_def] frag_def o_def)
qed

context big_endian
begin

lemma build_wavelet_tree_ok:
  assumes env: "framed_blocks_ok bo framed" "chunks_ok chunks"
    and w: "vals = [] \<or> 0 < unat width" "unat width < 64" and v: "\<forall>v\<in>set vals. unat v < 2 ^ unat width"
    and len: "unat width * length vals + 63 < 2 ^ 38"
  obtains bits blocks sblocks i t where
    "build_wavelet_tree_from_iter bo framed chunks width vals = Some (Inr (bits, blocks, sblocks))"
    "BitIndex_from_maps bo bits blocks sblocks = Some i" "WaveletTree_from_parts i width = Some t"
    "wt_wf t (map unat vals)" "wt_num_layers t = width"
proof -
  let ?w = "unat width" and ?ns = "map unat vals"
  have ns: "\<forall>n\<in>set ?ns. n < 2 ^ ?w" using v by auto
  have fr: "push_all_to_fragments width vals (create_fragments width) = Some (levels (frag ?w ?ns) ?w)"
    using push_all_to_fragments_eq [OF w(2) v, of "[]"] by (simp add: create_fragments_eq [OF w(2)])
  have "length (layers ?w ?ns) + 63 < 2 ^ 38" using len length_layers [OF ns] by simp
  then obtain bits blocks sblocks i where
    b: "BitArrayFileBuilder_finalize (foldl BitArrayFileBuilder_push (BitArrayFileBuilder_new []) (layers ?w ?ns)) = bits"
    "build_bitindex bo framed chunks bits = Some (Inr (blocks, sblocks))"
    "BitIndex_from_maps bo bits blocks sblocks = Some i" "bi_wf i" "bi_bits i = layers ?w ?ns"
    by (rule BitIndex_build [OF env])
  let ?t = "\<lparr>wt_bits = i, wt_num_layers = width\<rparr>"
  have "BitIndex_len i = ?w * length vals"
    using bi_wfD(7) [OF b(4)] b(5) length_layers [OF ns] by (simp add: BitIndex_len_def BitArray_len_def)
  then have "WaveletTree_from_parts i width = Some ?t" by (simp add: WaveletTree_from_parts_def)
  moreover have "build_wavelet_tree_from_iter bo framed chunks width vals = Some (Inr (bits, blocks, sblocks))"
    using b(1,2) fr by (simp add: build_wavelet_tree_from_iter_def fragments_bits Let_def)
  moreover have "wt_wf ?t ?ns" using b(4,5) w ns by (simp add: wt_wf_def)
  ultimately show ?thesis using that b(3) by simp
qed

end

context big_endian
begin

lemma LogArrayIterator_take_eq:
  assumes wf: "la_wf a" and "pos \<le> unat (la_len a)"
  shows "LogArrayIterator_take bo (Suc (unat (la_len a) - pos))
      \<lparr>lai_logarray = a, lai_pos = pos, lai_end = unat (la_len a)\<rparr> = Some (drop pos (la_elems a))"
  using assms(2)
proof (induction "unat (la_len a) - pos" arbitrary: pos)
  case 0
  then have "pos = unat (la_len a)" by simp
  then show ?case using LogArrayIterator_next_eq [OF wf, of pos] by simp
next
  case (Suc n)
  then have lt: "pos < unat (la_len a)" by simp
  then have n: "unat (la_len a) - pos = Suc n" "n = unat (la_len a) - Suc pos" using Suc.hyps(2) by simp_all
  have "drop pos (la_elems a) = la_elems a ! pos # drop (Suc pos) (la_elems a)"
    using lt by (intro Cons_nth_drop_Suc [symmetric]) simp
  moreover have "LogArrayIterator_take bo (Suc n) \<lparr>lai_logarray = a, lai_pos = Suc pos, lai_end = unat (la_len a)\<rparr> =
      Some (drop (Suc pos) (la_elems a))"
    using Suc.hyps(1) [of "Suc pos"] n lt by simp
  ultimately show ?case
    using lt unfolding n(1)
    by (subst LogArrayIterator_take.simps(2)) (simp add: LogArrayIterator_next_eq [OF wf] del: LogArrayIterator_take.simps)
qed

lemma build_wavelet_tree_from_logarray_eq:
  assumes "LogArray_parse bo source = Some (Inr a)" "la_wf a"
  shows "build_wavelet_tree_from_logarray bo framed chunks source =
    build_wavelet_tree_from_iter bo framed chunks (la_width a) (la_elems a)"
  using LogArrayIterator_take_eq [OF assms(2), of 0] assms(1)
  by (simp add: build_wavelet_tree_from_logarray_def LogArray_iter_def LogArray_len_def
      del: LogArrayIterator_take.simps)

end

section \<open>Properties\<close>

lemma occ_map_unat: "occ (unat e) (map unat vals) = occ (e :: u64) vals"
  by (induction vals) (auto simp: word_unat_eq_iff)

lemma mem_map_unat: "unat e \<in> set (map unat vals) \<longleftrightarrow> (e :: u64) \<in> set vals"
  by (induction vals) (auto simp: word_unat_eq_iff)

lemma select_map_unat: "select_of (unat e) (map unat vals) r = select_of (e :: u64) vals r"
  by (induction vals arbitrary: r) (auto simp: word_unat_eq_iff)

text \<open>
  C19. Round trip of a wavelet tree: for values below \<open>2 ^ width\<close>, with a width of 1 to 63,
  or no values and a width of 0, the tree is built, loaded and checked without an error, and decoding it returns the
  values in order.
\<close>

theorem WaveletTree_decode_build:
  assumes "big_endian bo" "framed_blocks_ok bo framed" "chunks_ok chunks"
    and "vals = [] \<or> 0 < unat width" "unat width < 64" "\<forall>v\<in>set vals. unat v < 2 ^ unat width"
    and "unat width * length vals + 63 < 2 ^ 38"
  shows "\<exists>bits blocks sblocks i t.
    build_wavelet_tree_from_iter bo framed chunks width vals = Some (Inr (bits, blocks, sblocks)) \<and>
    BitIndex_from_maps bo bits blocks sblocks = Some i \<and> WaveletTree_from_parts i width = Some t \<and>
    WaveletTree_len t = length vals \<and> WaveletTree_decode bo t = Some vals"
proof -
  obtain bits blocks sblocks i t where
    b: "build_wavelet_tree_from_iter bo framed chunks width vals = Some (Inr (bits, blocks, sblocks))"
    "BitIndex_from_maps bo bits blocks sblocks = Some i" "WaveletTree_from_parts i width = Some t"
    and wf: "wt_wf t (map unat vals)" by (rule big_endian.build_wavelet_tree_ok [OF assms])
  have len: "WaveletTree_len t = length vals" using wt_wfD(6) [OF wf] by simp
  have "those (map (WaveletTree_decode_one bo t) [0..<length vals]) = Some (map ((!) vals) [0..<length vals])"
  proof (rule those_map_Some)
    fix k assume "k \<in> set [0..<length vals]"
    then show "WaveletTree_decode_one bo t k = Some (vals ! k)"
      using big_endian.WaveletTree_decode_one_eq [OF assms(1) wf, of k] by simp
  qed
  then have "WaveletTree_decode bo t = Some vals" unfolding WaveletTree_decode_def len map_nth .
  with b len show ?thesis by blast
qed

theorem WaveletTree_decode_build_witness:
  "\<exists>bits blocks sblocks i t.
    build_wavelet_tree_from_iter byteorder_std framed_blocks_std chunks_std 5 [21, 1, 30, 13] =
      Some (Inr (bits, blocks, sblocks)) \<and>
    BitIndex_from_maps byteorder_std bits blocks sblocks = Some i \<and> WaveletTree_from_parts i 5 = Some t \<and>
    WaveletTree_len t = length [21, 1, 30, 13 :: u64] \<and> WaveletTree_decode byteorder_std t = Some [21, 1, 30, 13]"
  by (rule WaveletTree_decode_build [OF std.big_endian_axioms framed_blocks_std_ok chunks_std_ok]) simp_all

text \<open>
  C20. Lookup in a wavelet tree that was built from values: \<open>lookup\<close> returns \<open>None\<close> exactly for
  a value that does not occur; for one that does, the lookup has as many entries as
  occurrences, its \<open>k\<close>-th entry is the position of the \<open>k\<close>-th occurrence, and asking
  for an entry beyond them panics.
\<close>

theorem WaveletTree_lookup_build:
  assumes "big_endian bo" "framed_blocks_ok bo framed" "chunks_ok chunks"
    and "vals = [] \<or> 0 < unat width" "unat width < 64" "\<forall>v\<in>set vals. unat v < 2 ^ unat width"
    and "unat width * length vals + 63 < 2 ^ 38"
  shows "\<exists>bits blocks sblocks i t.
    build_wavelet_tree_from_iter bo framed chunks width vals = Some (Inr (bits, blocks, sblocks)) \<and>
    BitIndex_from_maps bo bits blocks sblocks = Some i \<and> WaveletTree_from_parts i width = Some t \<and>
    (\<forall>e. if e \<in> set vals
         then \<exists>l. WaveletTree_lookup bo t e = Some (Some l) \<and> WaveletLookup_len bo l = Some (occ e vals) \<and>
           (\<forall>k. WaveletLookup_entry bo l k = map_option of_nat (select_of e vals (k + 1)))
         else WaveletTree_lookup bo t e = Some None)"
proof -
  obtain bits blocks sblocks i t where
    b: "build_wavelet_tree_from_iter bo framed chunks width vals = Some (Inr (bits, blocks, sblocks))"
    "BitIndex_from_maps bo bits blocks sblocks = Some i" "WaveletTree_from_parts i width = Some t"
    and wf: "wt_wf t (map unat vals)" and nl: "wt_num_layers t = width" by (rule big_endian.build_wavelet_tree_ok [OF assms])
  have "if e \<in> set vals
         then \<exists>l. WaveletTree_lookup bo t e = Some (Some l) \<and> WaveletLookup_len bo l = Some (occ e vals) \<and>
           (\<forall>k. WaveletLookup_entry bo l k = map_option of_nat (select_of e vals (k + 1)))
         else WaveletTree_lookup bo t e = Some None" for e
  proof (cases "e \<in> set vals")
    case False
    then have "WaveletTree_lookup bo t e = Some None"
      unfolding big_endian.WaveletTree_lookup_eq [OF assms(1) wf] mem_map_unat by simp
    with False show ?thesis by (simp only: if_False)
  next
    case True
    then have v: "unat e < 2 ^ unat (wt_num_layers t)" and ne: "map unat vals \<noteq> []" using assms(6) nl by auto
    define l where "l = \<lparr>wl_entry = e, wl_tree = t,
      wl_slices = map (slice_at (unat (wt_num_layers t)) (map unat vals) (unat e)) [0..<unat (wt_num_layers t)]\<rparr>"
    have "WaveletTree_lookup bo t e = Some (Some l)"
      unfolding big_endian.WaveletTree_lookup_eq [OF assms(1) wf] mem_map_unat l_def using True by simp
    moreover have "WaveletLookup_len bo l = Some (occ e vals)"
      using big_endian.WaveletLookup_len_eq [OF assms(1) wf v ne] unfolding l_def occ_map_unat .
    moreover have "WaveletLookup_entry bo l k = map_option of_nat (select_of e vals (k + 1))" for k
      using big_endian.WaveletLookup_entry_eq [OF assms(1) wf v ne l_def] unfolding select_map_unat .
    ultimately show ?thesis using True by (simp only: if_True) blast
  qed
  with b show ?thesis by blast
qed

theorem WaveletTree_lookup_build_witness:
  "\<exists>bits blocks sblocks i t l.
    build_wavelet_tree_from_iter byteorder_std framed_blocks_std chunks_std 5 [21, 1, 30, 21] =
      Some (Inr (bits, blocks, sblocks)) \<and>
    BitIndex_from_maps byteorder_std bits blocks sblocks = Some i \<and> WaveletTree_from_parts i 5 = Some t \<and>
    WaveletTree_lookup byteorder_std t 21 = Some (Some l) \<and> WaveletLookup_len byteorder_std l = Some 2 \<and>
    WaveletLookup_entry byteorder_std l 1 = Some 3 \<and> WaveletLookup_entry byteorder_std l 2 = None \<and>
    WaveletTree_lookup byteorder_std t 7 = Some None"
proof -
  let ?vs = "[21, 1, 30, 21] :: u64 list"
  from WaveletTree_lookup_build [OF std.big_endian_axioms framed_blocks_std_ok chunks_std_ok, of ?vs 5]
  obtain bits blocks sblocks i t where
    b: "build_wavelet_tree_from_iter byteorder_std framed_blocks_std chunks_std 5 ?vs = Some (Inr (bits, blocks, sblocks))"
    "BitIndex_from_maps byteorder_std bits blocks sblocks = Some i" "WaveletTree_from_parts i 5 = Some t"
    and l: "\<forall>e. if e \<in> set ?vs
         then \<exists>l. WaveletTree_lookup byteorder_std t e = Some (Some l) \<and>
           WaveletLookup_len byteorder_std l = Some (occ e ?vs) \<and>
           (\<forall>k. WaveletLookup_entry byteorder_std l k = map_option of_nat (select_of e ?vs (k + 1)))
         else WaveletTree_lookup byteorder_std t e = Some None" by auto
  from l [THEN spec, of 21] l [THEN spec, of 7] obtain l where
    "WaveletTree_lookup byteorder_std t 21 = Some (Some l)" "WaveletLookup_len byteorder_std l = Some 2"
    "\<forall>k. WaveletLookup_entry byteorder_std l k = map_option of_nat (select_of 21 ?vs (k + 1))"
    "WaveletTree_lookup byteorder_std t 7 = Some None" by auto
  with b show ?thesis by (intro exI [of _ bits] exI [of _ blocks] exI [of _ sblocks] exI [of _ i]
        exI [of _ t] exI [of _ l]) simp
qed

text \<open>
  C21. Building from a log array file is building from its elements at its width.
\<close>

theorem build_wavelet_tree_from_logarray_correct:
  assumes "big_endian bo" "0 < unat width" "unat width \<le> 64" "length vals < 2 ^ 32"
    and "\<forall>v\<in>set vals. unat v < 2 ^ unat width"
  shows "\<exists>b f. LogArrayFileBuilder_push_vec (LogArrayFileBuilder_new [] width) vals = Inr b \<and>
    LogArrayFileBuilder_finalize bo b = Some f \<and>
    build_wavelet_tree_from_logarray bo framed chunks f =
      build_wavelet_tree_from_iter bo framed chunks width vals"
proof -
  from big_endian.LogArray_build [OF assms(1,3,4,5)] obtain b data where
    b: "LogArrayFileBuilder_push_vec (LogArrayFileBuilder_new [] width) vals = Inr b"
      "LogArrayFileBuilder_finalize bo b = Some (data @ control_word (of_nat (length vals)) width)"
      "elems_data (unat width) vals data" by metis
  note parse = big_endian.LogArray_parse_data [OF assms(1) b(3) assms(3,4)]
  with big_endian.build_wavelet_tree_from_logarray_eq [OF assms(1) parse(1) parse(3) [OF disjI1 [OF assms(2)]]]
    parse(4) [OF assms(5)] b show ?thesis by simp
qed

theorem build_wavelet_tree_from_logarray_correct_witness:
  "\<exists>b f. LogArrayFileBuilder_push_vec (LogArrayFileBuilder_new [] 5) [21, 1] = Inr b \<and>
    LogArrayFileBuilder_finalize byteorder_std b = Some f \<and>
    build_wavelet_tree_from_logarray byteorder_std framed_blocks_std chunks_std f =
      build_wavelet_tree_from_iter byteorder_std framed_blocks_std chunks_std 5 [21, 1]"
  by (rule build_wavelet_tree_from_logarray_correct [OF std.big_endian_axioms]) simp_all

end
