(* ===== verification/Pfc.thy ===== *)
theory Pfc
  imports LogArray Vbyte "HOL-Library.List_Lexorder"
begin

text \<open>
  Plain front-coding dictionaries (\<open>src/structure/pfc.rs\<close>): strings in blocks of eight,
  the first of a block in full, each other one as the length of the prefix it shares
  with its predecessor and the rest, with the offsets of the blocks in a log array. The
  model has the block and its iterators, the entries made of shared pieces with their
  comparison, the dictionary with its lookups in both directions, the file builder, the
  stream decoder and the merge of dictionaries.

  A Rust \<open>String\<close> is its bytes, which are valid UTF-8. The size of a \<open>Bytes\<close> value, a
  type of the crate \<open>bytes\<close>, is the parameter \<open>sz\<close>; only the layout of an entry
  depends on it.
\<close>

section \<open>Strings of the standard library\<close>

definition in_range :: "nat \<Rightarrow> nat \<Rightarrow> u8 \<Rightarrow> bool" where
  "in_range lo hi b \<longleftrightarrow> lo \<le> unat b \<and> unat b \<le> hi"

text \<open>The well-formed byte sequences of UTF-8, by the range of their first byte.\<close>

fun utf8_valid :: "bytes \<Rightarrow> bool" where
  "utf8_valid [] = True"
| "utf8_valid (a # rest) =
    (if unat a < 0x80 then utf8_valid rest
     else case rest of [] \<Rightarrow> False
     | b # rest2 \<Rightarrow>
         if in_range 0xC2 0xDF a then in_range 0x80 0xBF b \<and> utf8_valid rest2
         else case rest2 of [] \<Rightarrow> False
         | c # rest3 \<Rightarrow>
             if in_range 0xE0 0xEF a
             then in_range (if unat a = 0xE0 then 0xA0 else 0x80) (if unat a = 0xED then 0x9F else 0xBF) b
               \<and> in_range 0x80 0xBF c \<and> utf8_valid rest3
             else case rest3 of [] \<Rightarrow> False
             | d # rest4 \<Rightarrow>
                 in_range 0xF0 0xF4 a
                 \<and> in_range (if unat a = 0xF0 then 0x90 else 0x80) (if unat a = 0xF4 then 0x8F else 0xBF) b
                 \<and> in_range 0x80 0xBF c \<and> in_range 0x80 0xBF d \<and> utf8_valid rest4)"

text \<open>\<open>String::from_utf8(bytes).unwrap()\<close>.\<close>

definition from_utf8 :: "bytes \<Rightarrow> bytes panics" where
  "from_utf8 bs = (if utf8_valid bs then Some bs else None)"

text \<open>\<open>Ord::cmp\<close> of slices of bytes is the lexicographic order.\<close>

definition compare :: "'a::linorder \<Rightarrow> 'a \<Rightarrow> Ordering" where
  "compare x y = (if x < y then Less else if x = y then Equal else Greater)"

section \<open>Model\<close>

datatype PfcError = InvalidCoding | NotEnoughData

definition PfcError_from_LogArrayError :: "LogArrayError \<Rightarrow> PfcError" where
  "PfcError_from_LogArrayError err = InvalidCoding"

definition PfcError_to_io :: "PfcError \<Rightarrow> io_error" where
  "PfcError_to_io err = InvalidData"

record PfcBlock =
  pb_encoded_strings :: bytes
  pb_n_strings :: usize

definition BLOCK_SIZE :: usize where
  "BLOCK_SIZE = 8"

definition PfcBlock_parse :: "bytes \<Rightarrow> PfcError + PfcBlock" where
  "PfcBlock_parse data = Inr \<lparr>pb_encoded_strings = data, pb_n_strings = BLOCK_SIZE\<rparr>"

definition PfcBlock_parse_incomplete :: "bytes \<Rightarrow> usize \<Rightarrow> PfcError + PfcBlock" where
  "PfcBlock_parse_incomplete data n_strings =
    Inr \<lparr>pb_encoded_strings = data, pb_n_strings = n_strings\<rparr>"

definition PfcBlock_head :: "PfcBlock \<Rightarrow> bytes panics" where
  "PfcBlock_head self =
    do { first_end \<leftarrow> position (\<lambda>b. b = 0) (pb_encoded_strings self);
         slice (pb_encoded_strings self) 0 first_end }"

definition PfcBlock_len :: "PfcBlock \<Rightarrow> usize" where
  "PfcBlock_len self =
    (let len = length (pb_encoded_strings self) in encoding_len (of_nat len) + len)"

text \<open>The iterator over the prefix lengths and postfixes of a block.\<close>

record PfcBlockEntryIterator =
  bei_block :: PfcBlock
  bei_count :: usize
  bei_pos :: usize

definition PfcBlock_block_entries :: "PfcBlock \<Rightarrow> PfcBlockEntryIterator" where
  "PfcBlock_block_entries self = \<lparr>bei_block = self, bei_count = 0, bei_pos = 0\<rparr>"

definition PfcBlockEntryIterator_next ::
  "PfcBlockEntryIterator \<Rightarrow> ((usize \<times> bytes) option \<times> PfcBlockEntryIterator) panics" where
  "PfcBlockEntryIterator_next self =
    (let encoded = pb_encoded_strings (bei_block self) in
     if bei_pos self = 0
     then do { head \<leftarrow> PfcBlock_head (bei_block self);
               Some (Some (0, head), self\<lparr>bei_count := 1, bei_pos := length head + 1\<rparr>) }
     else if bei_count self < pb_n_strings (bei_block self)
     then do { rest \<leftarrow> slice_from encoded (bei_pos self);
               (common, common_len) \<leftarrow> (case decode rest of Inl e \<Rightarrow> None | Inr r \<Rightarrow> Some r);
               let pos = bei_pos self + common_len;
               rest' \<leftarrow> slice_from encoded pos;
               p \<leftarrow> position (\<lambda>b. b = 0) rest';
               let postfix_end = pos + p;
               postfix \<leftarrow> slice encoded pos postfix_end;
               Some (Some (unat common, postfix),
                     self\<lparr>bei_pos := postfix_end + 1, bei_count := bei_count self + 1\<rparr>) }
     else Some (None, self))"

text \<open>The iterator over the strings of a block.\<close>

record PfcBlockIterator =
  pbi_entry_iterator :: PfcBlockEntryIterator
  pbi_string :: bytes

definition PfcBlockIterator_next :: "PfcBlockIterator \<Rightarrow> (bytes option \<times> PfcBlockIterator) panics" where
  "PfcBlockIterator_next self =
    do { (r, it) \<leftarrow> PfcBlockEntryIterator_next (pbi_entry_iterator self);
         case r of
           None \<Rightarrow> Some (None, self\<lparr>pbi_entry_iterator := it\<rparr>)
         | Some (prefix_size, postfix) \<Rightarrow>
             do { prefix \<leftarrow> slice (pbi_string self) 0 prefix_size;
                  let string = prefix @ postfix;
                  s \<leftarrow> from_utf8 string;
                  Some (Some s, \<lparr>pbi_entry_iterator = it, pbi_string = string\<rparr>) } }"

definition PfcBlock_strings :: "PfcBlock \<Rightarrow> PfcBlockIterator" where
  "PfcBlock_strings self =
    \<lparr>pbi_entry_iterator = PfcBlock_block_entries self, pbi_string = []\<rparr>"

text \<open>An entry is a list of pieces, whose concatenation is the string.\<close>

datatype PfcDictEntry = PfcDictEntry (pde_parts: "bytes list")

definition PfcDictEntry_len :: "PfcDictEntry \<Rightarrow> usize" where
  "PfcDictEntry_len self = sum_list (map length (pde_parts self))"

definition PfcDictEntry_to_bytes :: "PfcDictEntry \<Rightarrow> bytes" where
  "PfcDictEntry_to_bytes self = foldl (@) [] (pde_parts self)"

definition PfcDictEntry_optimize :: "usize \<Rightarrow> PfcDictEntry \<Rightarrow> PfcDictEntry" where
  "PfcDictEntry_optimize sz self =
    (let overhead_size = sz * length (pde_parts self) in
     if sz + PfcDictEntry_len self < overhead_size
     then PfcDictEntry [foldl (@) [] (pde_parts self)]
     else self)"

definition PfcDictEntry_new_optimized :: "usize \<Rightarrow> bytes list \<Rightarrow> PfcDictEntry" where
  "PfcDictEntry_new_optimized sz parts = PfcDictEntry_optimize sz (PfcDictEntry parts)"

text \<open>The loop of \<open>buf_eq\<close> from the piece \<open>part\<close>, with the pieces and the buffer left.\<close>

fun buf_eq_loop :: "bytes \<Rightarrow> bytes list \<Rightarrow> bytes \<Rightarrow> bool panics" where
  "buf_eq_loop part it b =
    (case compare (length part) (length b) of
       Less \<Rightarrow>
         if part \<noteq> take (length part) b then Some False
         else (case it of [] \<Rightarrow> None | part' # it' \<Rightarrow> buf_eq_loop part' it' (drop (length part) b))
     | Equal \<Rightarrow>
         if part \<noteq> b then Some False
         else do { rust_assert (it = []); Some True }
     | Greater \<Rightarrow> None)"

declare buf_eq_loop.simps [simp del]

definition PfcDictEntry_buf_eq :: "PfcDictEntry \<Rightarrow> bytes \<Rightarrow> bool panics" where
  "PfcDictEntry_buf_eq self b =
    (if PfcDictEntry_len self \<noteq> length b then Some False
     else if PfcDictEntry_len self = 0 then Some True
     else case pde_parts self of [] \<Rightarrow> None | part # it \<Rightarrow> buf_eq_loop part it b)"

text \<open>The loop of \<open>cmp\<close>: every round compares what two pieces have in common.\<close>

function cmp_loop :: "bytes \<Rightarrow> bytes list \<Rightarrow> bytes \<Rightarrow> bytes list \<Rightarrow> Ordering" where
  "cmp_loop part1 it1 part2 it2 =
    (case compare (length part1) (length part2) of
       Equal \<Rightarrow>
         (case compare part1 part2 of
            Less \<Rightarrow> Less | Greater \<Rightarrow> Greater
          | Equal \<Rightarrow>
              (case (it1, it2) of
                 (p1 # it1', p2 # it2') \<Rightarrow> cmp_loop p1 it1' p2 it2'
               | ([], []) \<Rightarrow> Equal
               | ([], _) \<Rightarrow> Less
               | (_, []) \<Rightarrow> Greater))
     | Less \<Rightarrow>
         (case compare part1 (take (length part1) part2) of
            Less \<Rightarrow> Less | Greater \<Rightarrow> Greater
          | Equal \<Rightarrow>
              (case it1 of [] \<Rightarrow> Less
               | p1 # it1' \<Rightarrow> cmp_loop p1 it1' (drop (length part1) part2) it2))
     | Greater \<Rightarrow>
         (case compare (take (length part2) part1) part2 of
            Less \<Rightarrow> Less | Greater \<Rightarrow> Greater
          | Equal \<Rightarrow>
              (case it2 of [] \<Rightarrow> Greater
               | p2 # it2' \<Rightarrow> cmp_loop (drop (length part2) part1) it1 p2 it2')))"
  by pat_completeness auto
termination
  by (relation "measure (\<lambda>(part1, it1, part2, it2). length it1 + length it2)") auto

declare cmp_loop.simps [simp del]

definition PfcDictEntry_cmp :: "PfcDictEntry \<Rightarrow> PfcDictEntry \<Rightarrow> Ordering panics" where
  "PfcDictEntry_cmp self other =
    (if PfcDictEntry_len self = 0 \<and> PfcDictEntry_len other = 0 then Some Equal
     else case (pde_parts self, pde_parts other) of
       (part1 # it1, part2 # it2) \<Rightarrow> Some (cmp_loop part1 it1 part2 it2)
     | _ \<Rightarrow> None)"

definition PfcDictEntry_eq :: "PfcDictEntry \<Rightarrow> PfcDictEntry \<Rightarrow> bool panics" where
  "PfcDictEntry_eq self other =
    (if PfcDictEntry_len self \<noteq> PfcDictEntry_len other then Some False
     else map_option (\<lambda>c. c = Equal) (PfcDictEntry_cmp self other))"

text \<open>\<open>to_string\<close> through \<open>Display\<close>.\<close>

definition PfcDictEntry_fmt :: "PfcDictEntry \<Rightarrow> bytes panics" where
  "PfcDictEntry_fmt self = from_utf8 (PfcDictEntry_to_bytes self)"

text \<open>The hash feeds the pieces to the hasher \<open>write\<close> one by one.\<close>

definition PfcDictEntry_hash :: "('h \<Rightarrow> bytes \<Rightarrow> 'h) \<Rightarrow> PfcDictEntry \<Rightarrow> 'h \<Rightarrow> 'h" where
  "PfcDictEntry_hash write self state = foldl write state (pde_parts self)"

text \<open>The iterator over the entries of a block keeps the pieces of the last entry.\<close>

record PfcDictEntryIterator =
  dei_block_iter :: PfcBlockEntryIterator
  dei_parts :: "bytes list"

text \<open>The loop of \<open>next\<close> over the pieces from number \<open>index\<close> on: the pieces, with the one
  the prefix ends in cut, and the number of pieces to keep.\<close>

fun trim_parts :: "usize \<Rightarrow> usize \<Rightarrow> bytes list \<Rightarrow> bytes list \<times> usize" where
  "trim_parts index prefix_len [] = ([], index)"
| "trim_parts index prefix_len (part # parts) =
    (case compare prefix_len (length part) of
       Greater \<Rightarrow>
         (let (parts', end') = trim_parts (index + 1) (prefix_len - length part) parts
          in (part # parts', end'))
     | Less \<Rightarrow> (take prefix_len part # parts, index + 1)
     | Equal \<Rightarrow> (part # parts, index + 1))"

definition PfcDictEntryIterator_next ::
  "usize \<Rightarrow> PfcDictEntryIterator \<Rightarrow> (PfcDictEntry option \<times> PfcDictEntryIterator) panics" where
  "PfcDictEntryIterator_next sz self =
    do { (r, it) \<leftarrow> PfcBlockEntryIterator_next (dei_block_iter self);
         case r of
           None \<Rightarrow> Some (None, self\<lparr>dei_block_iter := it\<rparr>)
         | Some (prefix_len, bs) \<Rightarrow>
             do { let (parts, end') = (if prefix_len = 0 then (dei_parts self, 0)
                                       else trim_parts 0 prefix_len (dei_parts self));
                  let parts = take end' parts @ [bs];
                  Some (Some (PfcDictEntry_new_optimized sz parts),
                        \<lparr>dei_block_iter = it, dei_parts = parts\<rparr>) } }"

definition PfcBlock_entries :: "PfcBlock \<Rightarrow> PfcDictEntryIterator" where
  "PfcBlock_entries self = \<lparr>dei_block_iter = PfcBlock_block_entries self, dei_parts = []\<rparr>"

text \<open>
  The two loops of \<open>entry\<close>: the prefix lengths, scanned from the last entry down to
  \<open>ix\<close>, each cut to the least one after it, and then the differences of neighbours.
\<close>

fun gather_prefix_lengths :: "(usize \<times> bytes) list \<Rightarrow> usize \<Rightarrow> usize \<Rightarrow> usize list \<Rightarrow> usize list" where
  "gather_prefix_lengths entries 0 lst take_prefix_lengths = take_prefix_lengths"
| "gather_prefix_lengths entries (Suc ix) lst take_prefix_lengths =
    (let prefix = fst (entries ! Suc ix);
         lst = (if prefix < lst then prefix else lst);
         take_prefix_lengths = take_prefix_lengths[ix := lst]
     in if lst = 0 then take_prefix_lengths
        else gather_prefix_lengths entries ix lst take_prefix_lengths)"

fun subtract_adjacent :: "usize \<Rightarrow> usize list \<Rightarrow> usize list panics" where
  "subtract_adjacent 0 take_prefix_lengths = Some take_prefix_lengths"
| "subtract_adjacent (Suc ix) take_prefix_lengths =
    do { d \<leftarrow> usub (take_prefix_lengths ! Suc ix) (take_prefix_lengths ! ix);
         subtract_adjacent ix (take_prefix_lengths[Suc ix := d]) }"

definition PfcBlock_entry :: "usize \<Rightarrow> PfcBlock \<Rightarrow> usize \<Rightarrow> PfcDictEntry option panics" where
  "PfcBlock_entry sz self index =
    (if index < pb_n_strings self
     then do { entries \<leftarrow> iter_take (index + 1) PfcBlockEntryIterator_next (PfcBlock_block_entries self);
               n \<leftarrow> usub (length entries) 1;
               (lst, postfix) \<leftarrow> index_at entries index;
               lens \<leftarrow> subtract_adjacent (n - 1)
                 (gather_prefix_lengths entries n lst (replicate n 0));
               parts \<leftarrow> those (map (\<lambda>((_, entry), take). slice entry 0 take) (zip entries lens));
               Some (Some (PfcDictEntry_new_optimized sz (parts @ [postfix]))) }
     else Some None)"

definition PfcBlock_get :: "usize \<Rightarrow> PfcBlock \<Rightarrow> usize \<Rightarrow> bytes option panics" where
  "PfcBlock_get sz self index =
    do { r \<leftarrow> PfcBlock_entry sz self index;
         case r of Some entry \<Rightarrow> map_option Some (PfcDictEntry_fmt entry) | None \<Rightarrow> Some None }"

text \<open>The dictionary.\<close>

record PfcDict =
  pd_n_strings :: u64
  pd_block_offsets :: LogArray
  pd_blocks :: bytes

definition PfcDict_parse :: "byteorder \<Rightarrow> bytes \<Rightarrow> bytes \<Rightarrow> (PfcError + PfcDict) panics" where
  "PfcDict_parse bo blocks offsets =
    do { start \<leftarrow> usub (length blocks) 8;
         n_strings \<leftarrow> be_read_u64 bo (drop start blocks);
         r \<leftarrow> LogArray_parse bo offsets;
         Some (case r of
                 Inl e \<Rightarrow> Inl (PfcError_from_LogArrayError e)
               | Inr block_offsets \<Rightarrow>
                   Inr \<lparr>pd_n_strings = n_strings, pd_block_offsets = block_offsets, pd_blocks = blocks\<rparr>) }"

definition PfcDict_len :: "PfcDict \<Rightarrow> usize" where
  "PfcDict_len self = unat (pd_n_strings self)"

definition PfcDict_block_offset :: "byteorder \<Rightarrow> PfcDict \<Rightarrow> usize \<Rightarrow> u64 panics" where
  "PfcDict_block_offset bo self block_index =
    (if block_index = 0 then Some 0 else LogArray_entry bo (pd_block_offsets self) (block_index - 1))"

definition PfcDict_calculate_block_offset_index ::
  "byteorder \<Rightarrow> PfcDict \<Rightarrow> usize \<Rightarrow> (u64 \<times> usize) option panics" where
  "PfcDict_calculate_block_offset_index bo self ix =
    (if of_nat ix < pd_n_strings self
     then do { block_offset \<leftarrow> PfcDict_block_offset bo self (ix div BLOCK_SIZE);
               Some (Some (block_offset, ix mod BLOCK_SIZE)) }
     else Some None)"

text \<open>\<open>Bytes::advance\<close> panics beyond the end; \<open>parse\<close> of a block always succeeds.\<close>

definition PfcDict_entry :: "byteorder \<Rightarrow> usize \<Rightarrow> PfcDict \<Rightarrow> usize \<Rightarrow> PfcDictEntry option panics" where
  "PfcDict_entry bo sz self ix =
    do { r \<leftarrow> PfcDict_calculate_block_offset_index bo self ix;
         case r of
           None \<Rightarrow> Some None
         | Some (block_offset, index_in_block) \<Rightarrow>
             do { block_bytes \<leftarrow> slice_from (pd_blocks self) (unat block_offset);
                  block \<leftarrow> unwrap (PfcBlock_parse block_bytes);
                  PfcBlock_entry sz block index_in_block } }"

definition PfcDict_get :: "byteorder \<Rightarrow> usize \<Rightarrow> PfcDict \<Rightarrow> usize \<Rightarrow> bytes option panics" where
  "PfcDict_get bo sz self ix =
    do { r \<leftarrow> PfcDict_calculate_block_offset_index bo self ix;
         case r of
           None \<Rightarrow> Some None
         | Some (block_offset, index_in_block) \<Rightarrow>
             do { block_bytes \<leftarrow> slice_from (pd_blocks self) (unat block_offset);
                  block \<leftarrow> unwrap (PfcBlock_parse block_bytes);
                  PfcBlock_get sz block index_in_block } }"

text \<open>
  The binary search of \<open>id\<close> over the heads of the blocks: \<open>Inl\<close> is what \<open>id\<close> returns
  at once, \<open>Inr\<close> the value of \<open>max\<close> at the end of the loop.
\<close>

function id_search ::
  "byteorder \<Rightarrow> PfcDict \<Rightarrow> bytes \<Rightarrow> usize \<Rightarrow> usize \<Rightarrow> (u64 option + usize) panics" where
  "id_search bo self s lo hi =
    (if lo \<le> hi
     then do { let mid = (lo + hi) div 2;
               block_offset \<leftarrow> PfcDict_block_offset bo self mid;
               block_slice \<leftarrow> slice_from (pd_blocks self) (unat block_offset);
               head_end \<leftarrow> position (\<lambda>b. b = 0) block_slice;
               head_slice \<leftarrow> slice block_slice 0 head_end;
               case compare s head_slice of
                 Less \<Rightarrow> if mid = 0 then Some (Inl None) else id_search bo self s lo (mid - 1)
               | Greater \<Rightarrow> id_search bo self s (mid + 1) hi
               | Equal \<Rightarrow> Some (Inl (Some (of_nat (mid * BLOCK_SIZE)))) }
     else Some (Inr hi))"
  by pat_completeness auto
termination
  by (relation "measure (\<lambda>(bo, self, s, lo, hi). hi + 1 - lo)") auto

declare id_search.simps [simp del]

text \<open>The block with number \<open>found\<close>, as \<open>id\<close> cuts it out.\<close>

definition PfcDict_block_for_id :: "byteorder \<Rightarrow> PfcDict \<Rightarrow> usize \<Rightarrow> PfcBlock panics" where
  "PfcDict_block_for_id bo self found =
    do { block_start \<leftarrow> PfcDict_block_offset bo self found;
         remainder \<leftarrow> usub (unat (pd_n_strings self)) (found * BLOCK_SIZE);
         block \<leftarrow> slice_from (pd_blocks self) (unat block_start);
         if remainder \<ge> BLOCK_SIZE then unwrap (PfcBlock_parse block)
         else unwrap (PfcBlock_parse_incomplete block remainder) }"

partial_function (option) id_scan ::
  "usize \<Rightarrow> bytes \<Rightarrow> usize \<Rightarrow> usize \<Rightarrow> PfcDictEntryIterator \<Rightarrow> u64 option panics" where
  "id_scan sz s found count' it =
    do { (r, it') \<leftarrow> PfcDictEntryIterator_next sz it;
         case r of
           None \<Rightarrow> Some None
         | Some block_entry \<Rightarrow>
             do { eq \<leftarrow> PfcDictEntry_buf_eq block_entry s;
                  if eq then Some (Some (of_nat (found * BLOCK_SIZE + count')))
                  else id_scan sz s found (count' + 1) it' } }"

declare id_scan.simps [code]

definition PfcDict_id :: "byteorder \<Rightarrow> usize \<Rightarrow> PfcDict \<Rightarrow> bytes \<Rightarrow> u64 option panics" where
  "PfcDict_id bo sz self s =
    do { r \<leftarrow> id_search bo self s 0 (LogArray_len (pd_block_offsets self));
         case r of
           Inl result \<Rightarrow> Some result
         | Inr found \<Rightarrow>
             do { block \<leftarrow> PfcDict_block_for_id bo self found;
                  id_scan sz s found 0 (PfcBlock_entries block) } }"

record PfcDictBlockIterator =
  dbi_dict :: PfcDict
  dbi_block_index :: usize

definition PfcDictBlockIterator_new :: "PfcDict \<Rightarrow> PfcDictBlockIterator" where
  "PfcDictBlockIterator_new dict = \<lparr>dbi_dict = dict, dbi_block_index = 0\<rparr>"

definition PfcDictBlockIterator_next ::
  "byteorder \<Rightarrow> PfcDictBlockIterator \<Rightarrow> (PfcBlock option \<times> PfcDictBlockIterator) panics" where
  "PfcDictBlockIterator_next bo self =
    (let dict = dbi_dict self in
     if dbi_block_index self > LogArray_len (pd_block_offsets dict) then Some (None, self)
     else do { block_offset \<leftarrow> PfcDict_block_offset bo dict (dbi_block_index self);
               remainder \<leftarrow> usub (unat (pd_n_strings dict)) (dbi_block_index self * BLOCK_SIZE);
               if remainder = 0 then Some (None, self)
               else do { let self = self\<lparr>dbi_block_index := dbi_block_index self + 1\<rparr>;
                         block \<leftarrow> slice_from (pd_blocks dict) (unat block_offset);
                         b \<leftarrow> (if remainder \<ge> BLOCK_SIZE then unwrap (PfcBlock_parse block)
                               else unwrap (PfcBlock_parse_incomplete block remainder));
                         Some (Some b, self) } })"

text \<open>The strings and the entries of all blocks, collected.\<close>

definition PfcDict_strings :: "byteorder \<Rightarrow> PfcDict \<Rightarrow> bytes list panics" where
  "PfcDict_strings bo self =
    do { blocks \<leftarrow> iter_collect (PfcDictBlockIterator_next bo) (PfcDictBlockIterator_new self);
         map_option concat
           (those (map (iter_collect PfcBlockIterator_next \<circ> PfcBlock_strings) blocks)) }"

definition PfcDict_entries :: "byteorder \<Rightarrow> usize \<Rightarrow> PfcDict \<Rightarrow> PfcDictEntry list panics" where
  "PfcDict_entries bo sz self =
    do { blocks \<leftarrow> iter_collect (PfcDictBlockIterator_next bo) (PfcDictBlockIterator_new self);
         map_option concat
           (those (map (iter_collect (PfcDictEntryIterator_next sz) \<circ> PfcBlock_entries) blocks)) }"

text \<open>The builder.\<close>

record PfcDictFileBuilder =
  pfb_pfc_blocks_file :: bytes
  pfb_pfc_block_offsets_file :: bytes
  pfb_count :: usize
  pfb_size :: usize
  pfb_last :: "bytes option"
  pfb_index :: "u64 list"

definition PfcDictFileBuilder_new :: "bytes \<Rightarrow> bytes \<Rightarrow> PfcDictFileBuilder" where
  "PfcDictFileBuilder_new pfc_blocks_file pfc_block_offsets_file =
    \<lparr>pfb_pfc_blocks_file = pfc_blocks_file, pfb_pfc_block_offsets_file = pfc_block_offsets_file,
     pfb_count = 0, pfb_size = 0, pfb_last = None, pfb_index = []\<rparr>"

definition PfcDictFileBuilder_add_bytes ::
  "PfcDictFileBuilder \<Rightarrow> bytes \<Rightarrow> (u64 \<times> PfcDictFileBuilder) panics" where
  "PfcDictFileBuilder_add_bytes self bs =
    do { self \<leftarrow>
           (if pfb_count self mod BLOCK_SIZE = 0
            then (let index = (if pfb_count self \<noteq> 0 then pfb_index self @ [of_nat (pfb_size self)]
                               else pfb_index self);
                      (f, len) = write_nul_terminated_bytes (pfb_pfc_blocks_file self) bs
                  in Some (self\<lparr>pfb_index := index, pfb_pfc_blocks_file := f,
                                pfb_size := pfb_size self + len\<rparr>))
            else do { last' \<leftarrow> pfb_last self;
                      let common = find_common_prefix last' bs;
                      postfix \<leftarrow> slice_from bs common;
                      (f, common_len) \<leftarrow> write_async (pfb_pfc_blocks_file self) (of_nat common);
                      let (f, slice_len) = write_nul_terminated_bytes f postfix;
                      Some (self\<lparr>pfb_pfc_blocks_file := f,
                                 pfb_size := pfb_size self + (common_len + slice_len)\<rparr>) });
         let self = self\<lparr>pfb_count := pfb_count self + 1, pfb_last := Some bs\<rparr>;
         Some (of_nat (pfb_count self), self) }"

definition PfcDictFileBuilder_add ::
  "PfcDictFileBuilder \<Rightarrow> bytes \<Rightarrow> (u64 \<times> PfcDictFileBuilder) panics" where
  "PfcDictFileBuilder_add self s = PfcDictFileBuilder_add_bytes self s"

definition PfcDictFileBuilder_add_entry ::
  "PfcDictFileBuilder \<Rightarrow> PfcDictEntry \<Rightarrow> (u64 \<times> PfcDictFileBuilder) panics" where
  "PfcDictFileBuilder_add_entry self e = PfcDictFileBuilder_add_bytes self (PfcDictEntry_to_bytes e)"

fun PfcDictFileBuilder_add_all ::
  "PfcDictFileBuilder \<Rightarrow> bytes list \<Rightarrow> (u64 list \<times> PfcDictFileBuilder) panics" where
  "PfcDictFileBuilder_add_all self [] = Some ([], self)"
| "PfcDictFileBuilder_add_all self (next # it) =
    do { (r, self) \<leftarrow> PfcDictFileBuilder_add self next;
         (result, self) \<leftarrow> PfcDictFileBuilder_add_all self it;
         Some (r # result, self) }"

fun PfcDictFileBuilder_add_all_entries ::
  "PfcDictFileBuilder \<Rightarrow> PfcDictEntry list \<Rightarrow> (u64 list \<times> PfcDictFileBuilder) panics" where
  "PfcDictFileBuilder_add_all_entries self [] = Some ([], self)"
| "PfcDictFileBuilder_add_all_entries self (next # it) =
    do { (r, self) \<leftarrow> PfcDictFileBuilder_add_entry self next;
         (result, self) \<leftarrow> PfcDictFileBuilder_add_all_entries self it;
         Some (r # result, self) }"

text \<open>\<open>finalize\<close> leaves the blocks file and the offsets file.\<close>

definition PfcDictFileBuilder_finalize ::
  "byteorder \<Rightarrow> PfcDictFileBuilder \<Rightarrow> (io_error + bytes \<times> bytes) panics" where
  "PfcDictFileBuilder_finalize bo self =
    (let width = (if pfb_index self = [] then 1 else 64 - leading_zeros (last (pfb_index self)));
         builder = LogArrayFileBuilder_new (pfb_pfc_block_offsets_file self) (of_nat width)
     in case LogArrayFileBuilder_push_vec builder (pfb_index self) of
          Inl e \<Rightarrow> Some (Inl e)
        | Inr builder \<Rightarrow>
            do { offsets \<leftarrow> LogArrayFileBuilder_finalize bo builder;
                 blocks \<leftarrow> write_padding (pfb_pfc_blocks_file self) (pfb_size self) 8;
                 Some (Inr (write_u64 blocks (of_nat (pfb_count self)), offsets)) })"

text \<open>The stream decoder.\<close>

record PfcDecoder =
  pdc_last :: "bytes option"
  pdc_index :: usize
  pdc_done :: bool

definition PfcDecoder_new :: PfcDecoder where
  "PfcDecoder_new = \<lparr>pdc_last = None, pdc_index = 0, pdc_done = False\<rparr>"

definition PfcDecoder_decode ::
  "PfcDecoder \<Rightarrow> bytes \<Rightarrow> (PfcDecoder \<times> bytes \<times> bytes option) panics" where
  "PfcDecoder_decode self bs =
    (if pdc_done self then Some (self, [], None)
     else case position (\<lambda>b. b = 0) bs of
       None \<Rightarrow> Some (self, bs, None)
     | Some pos \<Rightarrow>
         if pos = 0 then Some (self\<lparr>pdc_done := True\<rparr>, [], None)
         else if pdc_index self mod 8 = 0
         then do { let b = take pos bs;
                   s \<leftarrow> from_utf8 b;
                   Some (self\<lparr>pdc_last := Some b, pdc_index := pdc_index self + 1\<rparr>,
                         drop (pos + 1) bs, Some s) }
         else do { last' \<leftarrow> pdc_last self;
                   (prefix_len, vbyte_len) \<leftarrow> (case decode bs of Inl e \<Rightarrow> None | Inr r \<Rightarrow> Some r);
                   let bs = drop vbyte_len bs;
                   n \<leftarrow> usub pos vbyte_len;
                   let b = take n bs;
                   prefix \<leftarrow> slice last' 0 (unat prefix_len);
                   let full = prefix @ b;
                   s \<leftarrow> from_utf8 full;
                   Some (self\<lparr>pdc_last := Some full, pdc_index := pdc_index self + 1\<rparr>,
                         drop (n + 1) bs, Some s) })"

text \<open>The decoder called over a whole content until it returns no string.\<close>

partial_function (option) decode_strings :: "PfcDecoder \<Rightarrow> bytes \<Rightarrow> (bytes list \<times> bytes) panics" where
  "decode_strings d bs =
    do { (d', bs', r) \<leftarrow> PfcDecoder_decode d bs;
         case r of None \<Rightarrow> Some ([], bs')
         | Some s \<Rightarrow> do { (ss, rest) \<leftarrow> decode_strings d' bs'; Some (s # ss, rest) } }"

declare decode_strings.simps [code]

text \<open>
  \<open>FramedRead\<close> of the crate \<open>tokio_util\<close> is a parameter; it is documented to yield what
  the decoder returns, and when the decoder leaves no bytes behind there is no error.
\<close>

type_synonym framed_strings = "PfcDecoder \<Rightarrow> bytes \<Rightarrow> (io_error + bytes) list"

definition framed_strings_ok :: "framed_strings \<Rightarrow> bool" where
  "framed_strings_ok framed \<longleftrightarrow>
    (\<forall>d f ss. decode_strings d f = Some (ss, []) \<longrightarrow> framed d f = map Inr ss)"

definition dict_reader_to_stream :: "framed_strings \<Rightarrow> bytes \<Rightarrow> (io_error + bytes) list" where
  "dict_reader_to_stream framed r = framed PfcDecoder_new r"

definition dict_reader_to_indexed_stream ::
  "framed_strings \<Rightarrow> bytes \<Rightarrow> u64 \<Rightarrow> (io_error + u64 \<times> bytes) list" where
  "dict_reader_to_indexed_stream framed r offset =
    map (\<lambda>(i, x). case x of Inr x \<Rightarrow> Inr (of_nat (i + 1) + offset, x) | Inl e \<Rightarrow> Inl e)
      (enumerate 0 (dict_reader_to_stream framed r))"

definition dict_file_get_count :: "byteorder \<Rightarrow> bytes \<Rightarrow> u64 panics" where
  "dict_file_get_count bo f =
    do { start \<leftarrow> usub (length f) 8; be_read_u64 bo (take 8 (drop start f)) }"

definition merge_dictionaries ::
  "byteorder \<Rightarrow> usize \<Rightarrow> PfcDict list \<Rightarrow> (io_error + bytes \<times> bytes) panics" where
  "merge_dictionaries bo sz dictionaries =
    do { iterators \<leftarrow> those (map (PfcDict_entries bo sz) dictionaries);
         sorted \<leftarrow> sorted_iterator iterators (pick_min PfcDictEntry_cmp);
         (_, builder) \<leftarrow> PfcDictFileBuilder_add_all_entries (PfcDictFileBuilder_new [] []) sorted;
         PfcDictFileBuilder_finalize bo builder }"

section \<open>Iterators\<close>

text \<open>\<open>yields next s xs s'\<close>: the next items from \<open>s\<close> are \<open>xs\<close>, and they lead to \<open>s'\<close>.\<close>

fun yields :: "('s \<Rightarrow> ('a option \<times> 's) panics) \<Rightarrow> 's \<Rightarrow> 'a list \<Rightarrow> 's \<Rightarrow> bool" where
  "yields next s [] s' \<longleftrightarrow> s' = s"
| "yields next s (x # xs) s' \<longleftrightarrow> (\<exists>s1. next s = Some (Some x, s1) \<and> yields next s1 xs s')"

lemma yields_append:
  "yields next s (xs @ ys) s' \<longleftrightarrow> (\<exists>s1. yields next s xs s1 \<and> yields next s1 ys s')"
  by (induction xs arbitrary: s) auto

lemma iter_take_yields: "yields next s xs s' \<Longrightarrow> iter_take (length xs) next s = Some xs"
  by (induction xs arbitrary: s) auto

lemma iter_collect_yields:
  "yields next s xs s' \<Longrightarrow> next s' = Some (None, s'') \<Longrightarrow> iter_collect next s = Some xs"
  by (induction xs arbitrary: s) auto

section \<open>The encoding of a list of strings\<close>

definition common_at :: "bytes list \<Rightarrow> nat \<Rightarrow> nat" where
  "common_at ss i = (if i mod BLOCK_SIZE = 0 then 0 else find_common_prefix (ss ! (i - 1)) (ss ! i))"

definition postfix_at :: "bytes list \<Rightarrow> nat \<Rightarrow> bytes" where
  "postfix_at ss i = drop (common_at ss i) (ss ! i)"

definition enc_at :: "bytes list \<Rightarrow> nat \<Rightarrow> bytes" where
  "enc_at ss i =
    (if i mod BLOCK_SIZE = 0 then [] else vbytes (common_at ss i)) @ postfix_at ss i @ [0]"

definition enc_from :: "bytes list \<Rightarrow> nat \<Rightarrow> bytes" where
  "enc_from ss i = concat (map (enc_at ss) [i..<length ss])"

definition enc_offset :: "bytes list \<Rightarrow> nat \<Rightarrow> nat" where
  "enc_offset ss j = length (concat (map (enc_at ss) [0..<BLOCK_SIZE * j]))"

text \<open>The strings a dictionary can hold: no null byte, which ends a string in the file.\<close>

definition str_ok :: "bytes \<Rightarrow> bool" where
  "str_ok s \<longleftrightarrow> 0 \<notin> set s \<and> utf8_valid s \<and> length s < 2 ^ 64"

lemma BLOCK_SIZE_simps [simp]: "BLOCK_SIZE = 8" "0 < BLOCK_SIZE"
  by (simp_all add: BLOCK_SIZE_def)

lemma enc_from_Cons: "i < length ss \<Longrightarrow> enc_from ss i = enc_at ss i @ enc_from ss (Suc i)"
  by (simp add: enc_from_def upt_conv_Cons)

lemma enc_from_end [simp]: "length ss \<le> i \<Longrightarrow> enc_from ss i = []"
  by (simp add: enc_from_def)

lemma common_at_le: "common_at ss i \<le> length (ss ! i)" "common_at ss i \<le> length (ss ! (i - 1))"
  using find_common_prefix_le by (simp_all add: common_at_def)

lemma common_at_append [simp]:
  "i < length ss \<Longrightarrow> common_at (ss @ ts) i = common_at ss i"
  by (simp add: common_at_def nth_append)

lemma enc_at_append [simp]: "i < length ss \<Longrightarrow> enc_at (ss @ ts) i = enc_at ss i"
  by (simp add: enc_at_def postfix_at_def nth_append)

lemma enc_from_snoc: "enc_from (ss @ [s]) 0 = enc_from ss 0 @ enc_at (ss @ [s]) (length ss)"
proof -
  have "map (enc_at (ss @ [s])) [0..<length ss] = map (enc_at ss) [0..<length ss]" by simp
  from this [THEN arg_cong [where f = concat]] show ?thesis by (simp add: enc_from_def)
qed

lemma enc_offset_snoc:
  "BLOCK_SIZE * j \<le> length ss \<Longrightarrow> enc_offset (ss @ [s]) j = enc_offset ss j"
  unfolding enc_offset_def by (rule arg_cong [where f = "\<lambda>xs. length (concat xs)"]) simp

lemma drop_enc_offset:
  assumes "BLOCK_SIZE * j \<le> length ss"
  shows "enc_offset ss j \<le> length (enc_from ss 0)"
    and "drop (enc_offset ss j) (enc_from ss 0) = enc_from ss (BLOCK_SIZE * j)"
proof -
  from assms have "[0..<length ss] = [0..<BLOCK_SIZE * j] @ [BLOCK_SIZE * j..<length ss]"
    by (metis le_add_diff_inverse upt_add_eq_append zero_le)
  then show "enc_offset ss j \<le> length (enc_from ss 0)"
    and "drop (enc_offset ss j) (enc_from ss 0) = enc_from ss (BLOCK_SIZE * j)"
    by (simp_all add: enc_from_def enc_offset_def)
qed

text \<open>A string from its predecessor and its entry.\<close>

lemma take_common_at: "i mod BLOCK_SIZE \<noteq> 0 \<Longrightarrow> take (common_at ss i) (ss ! (i - 1)) = take (common_at ss i) (ss ! i)"
  by (simp add: common_at_def take_find_common_prefix)

lemma nth_from_entry:
  assumes "i mod BLOCK_SIZE \<noteq> 0"
  shows "take (common_at ss i) (ss ! (i - 1)) @ postfix_at ss i = ss ! i"
  using take_common_at [OF assms] by (simp add: postfix_at_def)

lemma postfix_no_nul: "0 \<notin> set (ss ! i) \<Longrightarrow> 0 \<notin> set (postfix_at ss i)"
  unfolding postfix_at_def by (meson in_set_dropD)

lemma postfix_head [simp]: "i mod BLOCK_SIZE = 0 \<Longrightarrow> postfix_at ss i = ss ! i"
  "i mod BLOCK_SIZE = 0 \<Longrightarrow> common_at ss i = 0"
  by (simp_all add: postfix_at_def common_at_def)

section \<open>The entries of a block\<close>

lemma position_nul: "0 \<notin> set xs \<Longrightarrow> position (\<lambda>b. b = (0 :: u8)) (xs @ 0 # ys) = Some (length xs)"
  by (rule position_append_found) auto

lemma decode_vbytes_nat:
  "k < 2 ^ 64 \<Longrightarrow> decode (vbytes k @ rest) = Inr (of_nat k, length (vbytes k))"
  using decode_vbytes [of "of_nat k" rest] length_vbytes_u64 [of "of_nat k"]
  by (simp add: unat_of_nat_u64)

lemma slice_drop_eq:
  assumes "drop p xs = ys @ zs" and "ys @ zs \<noteq> []"
  shows "slice xs p (p + length ys) = Some ys" "drop (p + length ys) xs = zs"
    and "p + length ys \<le> length xs"
proof -
  from assms have "p < length xs" by (metis drop_all not_le)
  moreover have "length (drop p xs) = length ys + length zs" using assms(1) by simp
  ultimately show "p + length ys \<le> length xs" by simp
  with assms(1) show "slice xs p (p + length ys) = Some ys" by (simp add: slice_def)
  show "drop (p + length ys) xs = zs" using assms(1) drop_drop [of "length ys" p xs] by (simp add: add.commute)
qed

text \<open>The state of the iterator after \<open>c\<close> entries of block \<open>j\<close>.\<close>

definition bei_at :: "PfcBlock \<Rightarrow> bytes list \<Rightarrow> nat \<Rightarrow> nat \<Rightarrow> bytes \<Rightarrow> PfcBlockEntryIterator \<Rightarrow> bool" where
  "bei_at b ss j c rest it \<longleftrightarrow> bei_block it = b \<and> bei_count it = c \<and> 0 < bei_pos it \<and>
    bei_pos it \<le> length (pb_encoded_strings b) \<and>
    drop (bei_pos it) (pb_encoded_strings b) = enc_from ss (BLOCK_SIZE * j + c) @ rest"

definition ent_at :: "bytes list \<Rightarrow> nat \<Rightarrow> usize \<times> bytes" where
  "ent_at ss i = (common_at ss i, postfix_at ss i)"

lemma PfcBlock_head_eq:
  assumes "pb_encoded_strings b = enc_from ss (BLOCK_SIZE * j) @ rest"
    and "BLOCK_SIZE * j < length ss" "0 \<notin> set (ss ! (BLOCK_SIZE * j))"
  shows "PfcBlock_head b = Some (ss ! (BLOCK_SIZE * j))"
  using assms position_nul [OF assms(3)]
  by (simp add: PfcBlock_head_def enc_from_Cons enc_at_def slice_def)

lemma bei_first:
  assumes "pb_encoded_strings b = enc_from ss (BLOCK_SIZE * j) @ rest"
    and "BLOCK_SIZE * j < length ss" "0 \<notin> set (ss ! (BLOCK_SIZE * j))"
  shows "\<exists>it. PfcBlockEntryIterator_next (PfcBlock_block_entries b) =
      Some (Some (ent_at ss (BLOCK_SIZE * j)), it) \<and> bei_at b ss j 1 rest it"
  using PfcBlock_head_eq [OF assms] assms(1,2)
  by (simp add: PfcBlockEntryIterator_next_def PfcBlock_block_entries_def ent_at_def bei_at_def
      enc_from_Cons enc_at_def)

lemma bei_step:
  assumes at: "bei_at b ss j c rest it" and c: "0 < c" "c < BLOCK_SIZE" "c < pb_n_strings b"
    and i: "i = BLOCK_SIZE * j + c" "i < length ss" and ok: "str_ok (ss ! i)"
  shows "\<exists>it'. PfcBlockEntryIterator_next it = Some (Some (ent_at ss i), it') \<and>
    bei_at b ss j (c + 1) rest it'"
proof -
  let ?e = "pb_encoded_strings b" and ?p = "bei_pos it" and ?k = "common_at ss i"
  let ?rest = "enc_from ss (Suc i) @ rest"
  from c i(1) have mod: "i mod BLOCK_SIZE \<noteq> 0" by simp
  have k: "?k < 2 ^ 64" using common_at_le(1) [of ss i] ok by (simp add: str_ok_def)
  have nul: "0 \<notin> set (postfix_at ss i)" using ok by (simp add: str_ok_def postfix_no_nul)
  from at i mod have d: "drop ?p ?e = vbytes ?k @ postfix_at ss i @ 0 # ?rest"
    by (simp add: bei_at_def enc_from_Cons enc_at_def)
  note d1 = slice_drop_eq [OF d]
  have d2: "drop (?p + length (vbytes ?k)) ?e = postfix_at ss i @ 0 # ?rest" using d1 by simp
  note d3 = slice_drop_eq [OF d2]
  have "drop (?p + length (vbytes ?k) + length (postfix_at ss i)) ?e = [0] @ ?rest" using d3 by simp
  note d4 = slice_drop_eq [OF this]
  show ?thesis
    using at c k d d1 d2 d3 d4 i nul
    by (simp add: PfcBlockEntryIterator_next_def bei_at_def decode_vbytes_nat position_nul
        unat_of_nat_u64 ent_at_def Let_def)
qed

lemma bei_end:
  assumes "bei_at b ss j c rest it" "pb_n_strings b \<le> c"
  shows "PfcBlockEntryIterator_next it = Some (None, it)"
  using assms by (simp add: PfcBlockEntryIterator_next_def bei_at_def)

lemma bei_yields:
  assumes b: "pb_encoded_strings b = enc_from ss (BLOCK_SIZE * j) @ rest"
    and c: "0 < c" "c \<le> BLOCK_SIZE" "c \<le> pb_n_strings b" "BLOCK_SIZE * j + c \<le> length ss"
    and ok: "\<forall>s\<in>set ss. str_ok s"
  shows "\<exists>it. yields PfcBlockEntryIterator_next (PfcBlock_block_entries b)
      (map (ent_at ss) [BLOCK_SIZE * j..<BLOCK_SIZE * j + c]) it \<and> bei_at b ss j c rest it"
  using c
proof (induction c)
  case (Suc c)
  show ?case
  proof (cases "c = 0")
    case True
    have "0 \<notin> set (ss ! (BLOCK_SIZE * j))" using ok Suc.prems(4) by (simp add: str_ok_def)
    from bei_first [OF b _ this] Suc.prems(4) show ?thesis using True by auto
  next
    case False
    with Suc obtain it where it: "yields PfcBlockEntryIterator_next (PfcBlock_block_entries b)
      (map (ent_at ss) [BLOCK_SIZE * j..<BLOCK_SIZE * j + c]) it" "bei_at b ss j c rest it" by auto
    have "str_ok (ss ! (BLOCK_SIZE * j + c))" using ok Suc.prems(4) by simp
    with bei_step [OF it(2), of "BLOCK_SIZE * j + c"] False Suc.prems obtain it' where
      "PfcBlockEntryIterator_next it = Some (Some (ent_at ss (BLOCK_SIZE * j + c)), it')"
      "bei_at b ss j (c + 1) rest it'" by auto
    with it show ?thesis by (auto simp: yields_append)
  qed
qed simp

section \<open>Entries\<close>

lemma foldl_append_concat: "foldl (@) acc xss = acc @ concat xss"
  by (induction xss arbitrary: acc) simp_all

lemma to_bytes_concat [simp]: "PfcDictEntry_to_bytes e = concat (pde_parts e)"
  by (simp add: PfcDictEntry_to_bytes_def foldl_append_concat)

lemma PfcDictEntry_len_concat [simp]: "PfcDictEntry_len e = length (concat (pde_parts e))"
  by (simp add: PfcDictEntry_len_def length_concat)

text \<open>
  An entry is well formed when it has a piece and its last piece is not empty, unless the
  whole string is.
\<close>

definition pieces_ok :: "bytes list \<Rightarrow> bool" where
  "pieces_ok ps \<longleftrightarrow> ps \<noteq> [] \<and> (last ps \<noteq> [] \<or> concat ps = [])"

definition pde_wf :: "PfcDictEntry \<Rightarrow> bool" where
  "pde_wf e \<longleftrightarrow> pieces_ok (pde_parts e)"

lemma new_optimized_concat [simp]:
  "concat (pde_parts (PfcDictEntry_new_optimized sz parts)) = concat parts"
  by (simp add: PfcDictEntry_new_optimized_def PfcDictEntry_optimize_def Let_def foldl_append_concat)

lemma new_optimized_wf: "pieces_ok parts \<Longrightarrow> pde_wf (PfcDictEntry_new_optimized sz parts)"
  by (simp add: PfcDictEntry_new_optimized_def PfcDictEntry_optimize_def Let_def pde_wf_def
      pieces_ok_def foldl_append_concat)

lemma pieces_ok_snoc: "p \<noteq> [] \<Longrightarrow> pieces_ok (ps @ [p])"
  by (simp add: pieces_ok_def)

lemma pieces_ok_tl: "pieces_ok (p # p' # ps) \<Longrightarrow> pieces_ok (p' # ps)"
  unfolding pieces_ok_def by (metis append_is_Nil_conv concat.simps(2) last_ConsR list.distinct(1))

lemma pieces_ok_Cons: "pieces_ok (p # ps) \<Longrightarrow> p \<noteq> [] \<Longrightarrow> d \<noteq> [] \<Longrightarrow> pieces_ok (d # ps)"
  by (cases ps) (simp_all add: pieces_ok_def)

lemma concat_last_ne: "ps \<noteq> [] \<Longrightarrow> last ps \<noteq> [] \<Longrightarrow> concat ps \<noteq> []"
  by (metis concat_eq_Nil_conv last_in_set)

lemma buf_eq_loop_eq:
  assumes "pieces_ok (part # it)" "length (concat (part # it)) = length b" "b \<noteq> []"
  shows "buf_eq_loop part it b = Some (concat (part # it) = b)"
  using assms
proof (induction it arbitrary: part b)
  case Nil
  then show ?case by (subst buf_eq_loop.simps) (simp add: compare_def)
next
  case (Cons p it)
  have ne: "concat (p # it) \<noteq> []"
  proof -
    from Cons.prems(2,3) have "concat (part # p # it) \<noteq> []" by (metis length_0_conv)
    with Cons.prems(1) have "last (p # it) \<noteq> []"
      unfolding pieces_ok_def by (metis last_ConsR list.distinct(1))
    then show ?thesis using concat_last_ne [of "p # it"] by blast
  qed
  then have "0 < length (concat (p # it))" by (rule length_greater_0_conv [THEN iffD2])
  moreover from Cons.prems(2) have "length part + length (concat (p # it)) = length b" by simp
  ultimately have len: "length part < length b" by linarith
  show ?case
  proof (cases "part = take (length part) b")
    case True
    from Cons.prems(2) len have "buf_eq_loop p it (drop (length part) b) =
        Some (concat (p # it) = drop (length part) b)"
      by (intro Cons.IH pieces_ok_tl [OF Cons.prems(1)]) auto
    moreover have "concat (part # p # it) = b \<longleftrightarrow> concat (p # it) = drop (length part) b"
      using True by (metis append_eq_conv_conj append_take_drop_id concat.simps(2))
    ultimately show ?thesis
      using len True by (subst buf_eq_loop.simps) (simp add: compare_def)
  next
    case False
    then have "concat (part # p # it) \<noteq> b" by (metis append_eq_conv_conj concat.simps(2))
    with len False show ?thesis by (subst buf_eq_loop.simps) (simp add: compare_def)
  qed
qed

lemma buf_eq_wf:
  assumes "pde_wf e"
  shows "PfcDictEntry_buf_eq e b = Some (PfcDictEntry_to_bytes e = b)"
proof -
  from assms obtain part it where p: "pde_parts e = part # it"
    by (cases "pde_parts e") (auto simp: pde_wf_def pieces_ok_def)
  show ?thesis
    using buf_eq_loop_eq [of part it b] assms p by (auto simp: PfcDictEntry_buf_eq_def pde_wf_def)
qed

text \<open>The comparison of the pieces is the comparison of the strings.\<close>

lemma compare_append:
  fixes xs ys a b :: bytes
  assumes "length xs = length ys"
  shows "compare (xs @ a) (ys @ b) = (case compare xs ys of Equal \<Rightarrow> compare a b | c \<Rightarrow> c)"
  using assms
proof (induction xs ys rule: list_induct2)
  case (Cons x xs y ys)
  then show ?case by (auto simp: compare_def split: if_splits)
qed (simp add: compare_def)

lemma compare_simps [simp]:
  "compare x x = Equal" "compare [] (ys :: bytes) = (if ys = [] then Equal else Less)"
  "compare (xs :: bytes) [] = (if xs = [] then Equal else Greater)"
  by (simp_all add: compare_def neq_Nil_conv) (auto simp: neq_Nil_conv)

lemma compare_Equal_iff [simp]: "compare x y = Equal \<longleftrightarrow> x = y"
  by (auto simp: compare_def)

lemma cmp_loop_eq:
  assumes "pieces_ok (part1 # it1)" "pieces_ok (part2 # it2)"
    and "concat (part1 # it1) \<noteq> [] \<or> concat (part2 # it2) \<noteq> []"
  shows "cmp_loop part1 it1 part2 it2 = compare (concat (part1 # it1)) (concat (part2 # it2))"
  using assms
proof (induction part1 it1 part2 it2 rule: cmp_loop.induct)
  case (1 part1 it1 part2 it2)
  note IH = "1.IH" and ok = "1.prems"
  have ne1: "concat it1 \<noteq> []" if "it1 \<noteq> []" "concat (part1 # it1) \<noteq> []"
    using that ok(1) concat_last_ne [of it1] by (auto simp: pieces_ok_def)
  have ne2: "concat it2 \<noteq> []" if "it2 \<noteq> []" "concat (part2 # it2) \<noteq> []"
    using that ok(2) concat_last_ne [of it2] by (auto simp: pieces_ok_def)
  show ?case
  proof (cases "compare (length part1) (length part2)")
    case Equal
    then have len: "length part1 = length part2" by simp
    show ?thesis
    proof (cases "part1 = part2")
      case True
      show ?thesis
      proof (cases "it1 = [] \<or> it2 = []")
        case True
        moreover have "it1 \<noteq> [] \<Longrightarrow> concat it1 \<noteq> []" "it2 \<noteq> [] \<Longrightarrow> concat it2 \<noteq> []"
          using True \<open>part1 = part2\<close> ne1 ne2 ok(3) by auto
        ultimately show ?thesis
          using \<open>part1 = part2\<close>
          by (subst cmp_loop.simps) (auto simp: compare_append split: list.split)
      next
        case False
        then obtain p1 i1 p2 i2 where it: "it1 = p1 # i1" "it2 = p2 # i2"
          by (meson neq_Nil_conv)
        with ok have "pieces_ok (p1 # i1)" "pieces_ok (p2 # i2)" by (metis pieces_ok_tl)+
        moreover have "concat (p1 # i1) \<noteq> [] \<or> concat (p2 # i2) \<noteq> []"
          using ne1 ne2 ok(3) it by blast
        ultimately have "cmp_loop p1 i1 p2 i2 = compare (concat (p1 # i1)) (concat (p2 # i2))"
          using IH(2) [OF Equal _ refl it] True it by simp
        with True it show ?thesis by (subst cmp_loop.simps) (simp add: compare_append)
      qed
    next
      case False
      with Equal len show ?thesis
        by (subst cmp_loop.simps)
          (auto simp: compare_append [OF len] split: Ordering.split)
    qed
  next
    case Less
    then have len: "length part1 < length part2" by (simp add: compare_def split: if_splits)
    let ?t = "take (length part1) part2" and ?d = "drop (length part1) part2"
    have d: "?d \<noteq> []" "length part1 = length ?t" using len by simp_all
    have split: "compare (concat (part1 # it1)) (concat (part2 # it2)) =
        (case compare part1 ?t of Equal \<Rightarrow> compare (concat it1) (?d @ concat it2) | c \<Rightarrow> c)"
      using compare_append [OF d(2), of "concat it1" "?d @ concat it2"]
      by (simp flip: append_assoc)
    show ?thesis
    proof (cases "part1 = ?t \<and> it1 \<noteq> []")
      case True
      then obtain p1 i1 where it: "it1 = p1 # i1" by (meson neq_Nil_conv)
      from ok(1) it have "pieces_ok (p1 # i1)" by (metis pieces_ok_tl)
      moreover have "pieces_ok (?d # it2)"
        using len by (intro pieces_ok_Cons [OF ok(2) _ d(1)]) auto
      ultimately have "cmp_loop p1 i1 ?d it2 = compare (concat it1) (?d @ concat it2)"
        using IH(1) [OF Less, of p1 i1] True it d(1) by simp
      with True it Less show ?thesis unfolding split by (subst cmp_loop.simps) simp
    next
      case False
      with Less d show ?thesis unfolding split
        by (subst cmp_loop.simps) (auto split: Ordering.split list.split)
    qed
  next
    case Greater
    then have len: "length part2 < length part1" by (simp add: compare_def split: if_splits)
    let ?t = "take (length part2) part1" and ?d = "drop (length part2) part1"
    have d: "?d \<noteq> []" "length ?t = length part2" using len by simp_all
    have split: "compare (concat (part1 # it1)) (concat (part2 # it2)) =
        (case compare ?t part2 of Equal \<Rightarrow> compare (?d @ concat it1) (concat it2) | c \<Rightarrow> c)"
      using compare_append [OF d(2), of "?d @ concat it1" "concat it2"]
      by (simp flip: append_assoc)
    show ?thesis
    proof (cases "?t = part2 \<and> it2 \<noteq> []")
      case True
      then obtain p2 i2 where it: "it2 = p2 # i2" by (meson neq_Nil_conv)
      from ok(2) it have "pieces_ok (p2 # i2)" by (metis pieces_ok_tl)
      moreover have "pieces_ok (?d # it1)"
        using len by (intro pieces_ok_Cons [OF ok(1) _ d(1)]) auto
      ultimately have "cmp_loop ?d it1 p2 i2 = compare (?d @ concat it1) (concat it2)"
        using IH(3) [OF Greater, of p2 i2] True it d(1) by simp
      with True it Greater show ?thesis unfolding split by (subst cmp_loop.simps) simp
    next
      case False
      with Greater d show ?thesis unfolding split
        by (subst cmp_loop.simps) (auto split: Ordering.split list.split)
    qed
  qed
qed

lemma cmp_wf:
  assumes "pde_wf e" "pde_wf f"
  shows "PfcDictEntry_cmp e f = Some (compare (PfcDictEntry_to_bytes e) (PfcDictEntry_to_bytes f))"
proof -
  from assms obtain p1 i1 p2 i2 where p: "pde_parts e = p1 # i1" "pde_parts f = p2 # i2"
    unfolding pde_wf_def pieces_ok_def by (meson neq_Nil_conv)
  then have cmp: "PfcDictEntry_cmp e f =
      (if concat (pde_parts e) = [] \<and> concat (pde_parts f) = [] then Some Equal
       else Some (cmp_loop p1 i1 p2 i2))"
    by (simp add: PfcDictEntry_cmp_def)
  show ?thesis
  proof (cases "concat (pde_parts e) = [] \<and> concat (pde_parts f) = []")
    case True
    then show ?thesis unfolding cmp if_P [OF True] by (metis compare_simps(1) to_bytes_concat)
  next
    case False
    with assms p have "cmp_loop p1 i1 p2 i2 = compare (concat (pde_parts e)) (concat (pde_parts f))"
      unfolding pde_wf_def p by (intro cmp_loop_eq) blast+
    then show ?thesis unfolding cmp if_not_P [OF False] by simp
  qed
qed

section \<open>Strings and entries of a block\<close>

lemma pbi_step:
  assumes "PfcBlockEntryIterator_next it = Some (Some (ent_at ss i), it')" "utf8_valid (ss ! i)"
    and "i mod BLOCK_SIZE \<noteq> 0 \<longrightarrow> st = ss ! (i - 1)"
  shows "PfcBlockIterator_next \<lparr>pbi_entry_iterator = it, pbi_string = st\<rparr> =
    Some (Some (ss ! i), \<lparr>pbi_entry_iterator = it', pbi_string = ss ! i\<rparr>)"
proof (cases "i mod BLOCK_SIZE = 0")
  case True
  with assms show ?thesis
    by (simp add: PfcBlockIterator_next_def ent_at_def slice_def from_utf8_def)
next
  case False
  with assms nth_from_entry [OF False, of ss] common_at_le(2) [of ss i] show ?thesis
    by (simp add: PfcBlockIterator_next_def ent_at_def slice_def from_utf8_def Let_def)
qed

lemma pbi_yields:
  assumes "yields PfcBlockEntryIterator_next it (map (ent_at ss) [i..<m]) it'"
    and "\<forall>k\<in>{i..<m}. utf8_valid (ss ! k)" and "i mod BLOCK_SIZE \<noteq> 0 \<longrightarrow> st = ss ! (i - 1)"
  shows "\<exists>st'. yields PfcBlockIterator_next \<lparr>pbi_entry_iterator = it, pbi_string = st\<rparr>
    (map ((!) ss) [i..<m]) \<lparr>pbi_entry_iterator = it', pbi_string = st'\<rparr>"
  using assms
proof (induction "m - i" arbitrary: i it st)
  case (Suc n)
  then have "i < m" by simp
  with Suc.prems obtain it1 where it1: "PfcBlockEntryIterator_next it = Some (Some (ent_at ss i), it1)"
    "yields PfcBlockEntryIterator_next it1 (map (ent_at ss) [Suc i..<m]) it'"
    by (auto simp: upt_conv_Cons)
  have "PfcBlockIterator_next \<lparr>pbi_entry_iterator = it, pbi_string = st\<rparr> =
      Some (Some (ss ! i), \<lparr>pbi_entry_iterator = it1, pbi_string = ss ! i\<rparr>)"
    using pbi_step [OF it1(1) _ Suc.prems(3)] Suc.prems(2) \<open>i < m\<close> by simp
  moreover have "\<exists>st'. yields PfcBlockIterator_next \<lparr>pbi_entry_iterator = it1, pbi_string = ss ! i\<rparr>
    (map ((!) ss) [Suc i..<m]) \<lparr>pbi_entry_iterator = it', pbi_string = st'\<rparr>"
    using Suc.hyps(2) Suc.prems(2) by (intro Suc.hyps(1) it1(2)) auto
  ultimately show ?case using \<open>i < m\<close> by (auto simp: upt_conv_Cons)
qed auto

text \<open>Cutting the pieces of the last entry to the common prefix.\<close>

lemma trim_parts_concat:
  assumes "trim_parts ix pl parts = (ps, e)" "0 < pl" "pl \<le> length (concat parts)"
  shows "concat (take (e - ix) ps) = take pl (concat parts) \<and> ix < e"
  using assms
proof (induction ix pl parts arbitrary: ps e rule: trim_parts.induct)
  case (2 ix pl part parts)
  show ?case
  proof (cases "length part < pl")
    case True
    then have g: "compare pl (length part) = Greater" by (simp add: compare_def)
    obtain ps' e' where t: "trim_parts (ix + 1) (pl - length part) parts = (ps', e')" by fastforce
    with "2.IH" [OF g t] True "2.prems"(3)
    have "concat (take (e' - Suc ix) ps') = take (pl - length part) (concat parts)" "Suc ix < e'"
      by simp_all
    moreover from this have "e' - ix = Suc (e' - Suc ix)" by simp
    ultimately show ?thesis using "2.prems"(1) t g True by auto
  next
    case False
    then have "compare pl (length part) \<noteq> Greater" by (simp add: compare_def)
    with False "2.prems" show ?thesis by (auto simp: compare_def split: Ordering.splits if_splits)
  qed
qed simp

definition trimmed :: "usize \<Rightarrow> bytes list \<Rightarrow> bytes list" where
  "trimmed pl parts =
    (let (ps, e) = (if pl = 0 then (parts, 0) else trim_parts 0 pl parts) in take e ps)"

lemma concat_trimmed: "pl \<le> length (concat parts) \<Longrightarrow> concat (trimmed pl parts) = take pl (concat parts)"
  using trim_parts_concat [of 0 pl parts] by (cases "trim_parts 0 pl parts") (auto simp: trimmed_def)

lemma PfcDictEntryIterator_next_trimmed:
  "PfcDictEntryIterator_next sz self =
    do { (r, it) \<leftarrow> PfcBlockEntryIterator_next (dei_block_iter self);
         case r of
           None \<Rightarrow> Some (None, self\<lparr>dei_block_iter := it\<rparr>)
         | Some (pl, bs) \<Rightarrow>
             let parts = trimmed pl (dei_parts self) @ [bs]
             in Some (Some (PfcDictEntry_new_optimized sz parts),
                      \<lparr>dei_block_iter = it, dei_parts = parts\<rparr>) }"
  by (auto simp: PfcDictEntryIterator_next_def trimmed_def Let_def split: bind_split option.split prod.split)

text \<open>Inside a block no string may be a prefix of its predecessor.\<close>

definition postfixes_ok :: "bytes list \<Rightarrow> bool" where
  "postfixes_ok ss \<longleftrightarrow> (\<forall>i<length ss. i mod BLOCK_SIZE \<noteq> 0 \<longrightarrow> postfix_at ss i \<noteq> [])"

lemma dei_step:
  assumes nxt: "PfcBlockEntryIterator_next it = Some (Some (ent_at ss i), it')"
    and st: "i mod BLOCK_SIZE \<noteq> 0 \<longrightarrow> concat st = ss ! (i - 1)"
  shows "\<exists>e st'. PfcDictEntryIterator_next sz \<lparr>dei_block_iter = it, dei_parts = st\<rparr> =
      Some (Some e, \<lparr>dei_block_iter = it', dei_parts = st'\<rparr>) \<and> PfcDictEntry_to_bytes e = ss ! i \<and>
      concat st' = ss ! i \<and> (i < length ss \<longrightarrow> postfixes_ok ss \<longrightarrow> pde_wf e)"
proof -
  let ?st = "trimmed (common_at ss i) st @ [postfix_at ss i]"
  have c: "concat ?st = ss ! i"
  proof (cases "i mod BLOCK_SIZE = 0")
    case True
    then show ?thesis by (simp add: trimmed_def)
  next
    case False
    with st common_at_le(2) [of ss i] nth_from_entry [OF False, of ss] show ?thesis
      by (simp add: concat_trimmed)
  qed
  have "pieces_ok ?st" if "i < length ss" "postfixes_ok ss"
  proof (cases "i mod BLOCK_SIZE = 0")
    case True
    then show ?thesis by (simp add: trimmed_def pieces_ok_def)
  next
    case False
    with that show ?thesis by (intro pieces_ok_snoc) (simp add: postfixes_ok_def)
  qed
  then show ?thesis
    using nxt c
    by (simp add: PfcDictEntryIterator_next_trimmed ent_at_def Let_def new_optimized_wf)
qed

lemma dei_yields:
  assumes "yields PfcBlockEntryIterator_next it (map (ent_at ss) [i..<m]) it'"
    and "i mod BLOCK_SIZE \<noteq> 0 \<longrightarrow> concat st = ss ! (i - 1)" and "m \<le> length ss"
  shows "\<exists>es st'. yields (PfcDictEntryIterator_next sz) \<lparr>dei_block_iter = it, dei_parts = st\<rparr>
      es \<lparr>dei_block_iter = it', dei_parts = st'\<rparr> \<and>
    map PfcDictEntry_to_bytes es = map ((!) ss) [i..<m] \<and> (postfixes_ok ss \<longrightarrow> list_all pde_wf es)"
  using assms
proof (induction "m - i" arbitrary: i it st)
  case 0
  then show ?case by (intro exI [of _ "[]"] exI [of _ st]) auto
next
  case (Suc n)
  then have "i < m" by simp
  with Suc.prems obtain it1 where it1: "PfcBlockEntryIterator_next it = Some (Some (ent_at ss i), it1)"
    "yields PfcBlockEntryIterator_next it1 (map (ent_at ss) [Suc i..<m]) it'"
    by (auto simp: upt_conv_Cons)
  from dei_step [OF it1(1) Suc.prems(2), of sz] obtain e st1 where
    e: "PfcDictEntryIterator_next sz \<lparr>dei_block_iter = it, dei_parts = st\<rparr> =
      Some (Some e, \<lparr>dei_block_iter = it1, dei_parts = st1\<rparr>)" "PfcDictEntry_to_bytes e = ss ! i"
    "concat st1 = ss ! i" "i < length ss \<longrightarrow> postfixes_ok ss \<longrightarrow> pde_wf e" by blast
  from e(3) Suc.hyps(2) have "\<exists>es st'. yields (PfcDictEntryIterator_next sz)
      \<lparr>dei_block_iter = it1, dei_parts = st1\<rparr> es \<lparr>dei_block_iter = it', dei_parts = st'\<rparr> \<and>
    map PfcDictEntry_to_bytes es = map ((!) ss) [Suc i..<m] \<and> (postfixes_ok ss \<longrightarrow> list_all pde_wf es)"
    by (intro Suc.hyps(1) it1(2) Suc.prems(3)) auto
  then obtain es st' where "yields (PfcDictEntryIterator_next sz)
      \<lparr>dei_block_iter = it1, dei_parts = st1\<rparr> es \<lparr>dei_block_iter = it', dei_parts = st'\<rparr>"
    "map PfcDictEntry_to_bytes es = map ((!) ss) [Suc i..<m]" "postfixes_ok ss \<longrightarrow> list_all pde_wf es"
    by blast
  with e \<open>i < m\<close> Suc.prems(3) show ?case
    by (intro exI [of _ "e # es"] exI [of _ st']) (auto simp: upt_conv_Cons)
qed

section \<open>A single entry of a block\<close>

text \<open>The least of the prefix lengths \<open>p (k+1), \<dots>, p n\<close>.\<close>

function least_after :: "(nat \<Rightarrow> nat) \<Rightarrow> nat \<Rightarrow> nat \<Rightarrow> nat" where
  "least_after p n k = (if k < n then min (p (Suc k)) (least_after p n (Suc k)) else p n)"
  by pat_completeness auto
termination
  by (relation "measure (\<lambda>(p, n, k). n - k)") auto

declare least_after.simps [simp del]

lemma least_after_step:
  "k < n \<Longrightarrow> least_after p n k = min (p (Suc k)) (least_after p n (Suc k))"
  "least_after p n n = p n"
  by (subst least_after.simps, simp)+

lemma least_after_mono: "k \<le> k' \<Longrightarrow> k' \<le> n \<Longrightarrow> least_after p n k \<le> least_after p n k'"
proof (induction "k' - k" arbitrary: k)
  case (Suc d)
  then have "k < n" by simp
  have "least_after p n k \<le> least_after p n (Suc k)"
    by (subst least_after_step(1) [OF \<open>k < n\<close>]) (rule min.cobounded2)
  also have "\<dots> \<le> least_after p n k'"
    using Suc.hyps(2) Suc.prems(2) by (intro Suc.hyps(1)) linarith+
  finally show ?case .
qed simp

lemma gather_prefix_lengths_eq:
  assumes "length tpl = n" "ix \<le> n" "lst = least_after (\<lambda>k. fst (entries ! k)) n ix"
    and "\<forall>k<n. tpl ! k = (if ix \<le> k then least_after (\<lambda>k. fst (entries ! k)) n k else 0)"
  shows "gather_prefix_lengths entries ix lst tpl =
    map (least_after (\<lambda>k. fst (entries ! k)) n) [0..<n]"
  using assms
proof (induction ix arbitrary: lst tpl)
  case 0
  then show ?case by (auto intro: nth_equalityI)
next
  case (Suc ix)
  let ?p = "\<lambda>k. fst (entries ! k)"
  let ?lst = "least_after ?p n ix" and ?tpl = "tpl[ix := least_after ?p n ix]"
  have lst: "(if ?p (Suc ix) < lst then ?p (Suc ix) else lst) = ?lst"
    using Suc.prems(2,3) by (simp add: least_after_step(1) min_def)
  have tpl: "\<forall>k<n. ?tpl ! k = (if ix \<le> k then least_after ?p n k else 0)"
    using Suc.prems by (auto simp: nth_list_update)
  show ?case
  proof (cases "?lst = 0")
    case True
    have "least_after ?p n k = 0" if "k \<le> ix" for k
      using least_after_mono [OF that, of n ?p] Suc.prems(2) True by simp
    with tpl Suc.prems(1) True lst show ?thesis
      by (auto simp: Let_def intro!: nth_equalityI)
  next
    case False
    have "gather_prefix_lengths entries ix ?lst ?tpl = map (least_after ?p n) [0..<n]"
      using Suc.prems(1,2) tpl by (intro Suc.IH) simp_all
    with False lst show ?thesis by (simp add: Let_def)
  qed
qed

lemma subtract_adjacent_eq:
  assumes "ix < length tpl \<or> ix = 0" "\<forall>k<ix. tpl ! k \<le> tpl ! Suc k"
  shows "\<exists>r. subtract_adjacent ix tpl = Some r \<and> length r = length tpl \<and>
    (\<forall>k<length tpl. r ! k = (if 0 < k \<and> k \<le> ix then tpl ! k - tpl ! (k - 1) else tpl ! k))"
  using assms
proof (induction ix arbitrary: tpl)
  case (Suc ix)
  let ?d = "tpl ! Suc ix - tpl ! ix" and ?tpl = "tpl[Suc ix := tpl ! Suc ix - tpl ! ix]"
  from Suc.prems have "\<forall>k<ix. ?tpl ! k \<le> ?tpl ! Suc k" by simp
  with Suc.IH [of ?tpl] Suc.prems(1) obtain r where r: "subtract_adjacent ix ?tpl = Some r"
    "length r = length tpl"
    "\<forall>k<length tpl. r ! k = (if 0 < k \<and> k \<le> ix then ?tpl ! k - ?tpl ! (k - 1) else ?tpl ! k)" by auto
  have "r ! k = (if 0 < k \<and> k \<le> Suc ix then tpl ! k - tpl ! (k - 1) else tpl ! k)"
    if "k < length tpl" for k
    using that r(3) by (cases "k = Suc ix") auto
  with r(1,2) Suc.prems show ?case by simp
qed simp

text \<open>The pieces taken from the entries add up to a prefix of every string on the way.\<close>

lemma taken_prefix:
  assumes s0: "s 0 = post 0"
    and s: "\<And>k. k < n \<Longrightarrow> s (Suc k) = take (p (Suc k)) (s k) @ post (Suc k)"
    and p: "\<And>k. k < n \<Longrightarrow> p (Suc k) \<le> length (s k)" and k: "k < n"
  defines "m \<equiv> least_after p n"
  defines "t \<equiv> \<lambda>k. if 0 < k then m k - m (k - 1) else m k"
  shows "concat (map (\<lambda>k. take (t k) (post k)) [0..<Suc k]) = take (m k) (s k) \<and>
    t k \<le> length (post k)"
  using k
proof (induction k)
  case 0
  then have "m 0 \<le> p 1" by (simp add: m_def least_after_step(1))
  with p [of 0] 0 have "m 0 \<le> length (s 0)" by simp
  with s0 show ?case by (simp add: t_def)
next
  case (Suc k)
  then have IH: "concat (map (\<lambda>k. take (t k) (post k)) [0..<Suc k]) = take (m k) (s k)" by simp
  have mk: "m k = min (p (Suc k)) (m (Suc k))" using Suc.prems by (simp add: m_def least_after_step(1))
  have ms: "m (Suc k) \<le> length (s (Suc k))"
    using p [OF Suc.prems] Suc.prems by (simp add: m_def least_after_step(1) min.coboundedI1)
  have sk: "s (Suc k) = take (p (Suc k)) (s k) @ post (Suc k)" and pk: "p (Suc k) \<le> length (s k)"
    using s [of k] p [of k] Suc.prems by simp_all
  have t: "t (Suc k) = m (Suc k) - p (Suc k)" using mk by (simp add: t_def)
  have "take (m (Suc k)) (s (Suc k)) = take (m k) (s k) @ take (t (Suc k)) (post (Suc k))"
    unfolding t sk mk using pk by (simp add: min.commute)
  moreover have "t (Suc k) \<le> length (post (Suc k))" using ms t sk pk by simp
  ultimately show ?case using IH by simp
qed

lemma PfcBlock_entry_eq:
  assumes b: "pb_encoded_strings b = enc_from ss (BLOCK_SIZE * j) @ rest"
    and n: "n < BLOCK_SIZE" "n < pb_n_strings b" "BLOCK_SIZE * j + n < length ss"
    and ok: "\<forall>s\<in>set ss. str_ok s"
  shows "\<exists>e. PfcBlock_entry sz b n = Some (Some e) \<and>
    PfcDictEntry_to_bytes e = ss ! (BLOCK_SIZE * j + n)"
proof -
  let ?i = "BLOCK_SIZE * j"
  define entries where "entries = map (ent_at ss) [?i..<?i + (n + 1)]"
  define p post where "p = (\<lambda>k. fst (entries ! k))" and "post = (\<lambda>k. snd (entries ! k))"
  define s where "s = (\<lambda>k. ss ! (?i + k))"
  have len: "length entries = n + 1" by (simp add: entries_def)
  have nth: "entries ! k = ent_at ss (?i + k)" if "k \<le> n" for k
    using that by (simp add: entries_def del: BLOCK_SIZE_simps upt_Suc add_Suc_right)
  have mod: "(?i + Suc k) mod BLOCK_SIZE \<noteq> 0" if "k < n" for k
    using that n(1) by simp
  have s0: "s 0 = post 0" by (simp add: s_def post_def nth ent_at_def)
  have s: "s (Suc k) = take (p (Suc k)) (s k) @ post (Suc k)" if "k < n" for k
    using nth_from_entry [OF mod [OF that], of ss] that
    by (simp add: s_def p_def post_def nth ent_at_def)
  have p: "p (Suc k) \<le> length (s k)" if "k < n" for k
    using common_at_le(2) [of ss "?i + Suc k"] that by (simp add: s_def p_def nth ent_at_def)
  define m t where "m = least_after p n" and "t = (\<lambda>k. if 0 < k then m k - m (k - 1) else m k)"
  have taken: "concat (map (\<lambda>k. take (t k) (post k)) [0..<Suc k]) = take (m k) (s k) \<and>
      t k \<le> length (post k)" if "k < n" for k
    using taken_prefix [of s post n p k, OF s0 s p that] unfolding t_def m_def .
  have take: "iter_take (n + 1) PfcBlockEntryIterator_next (PfcBlock_block_entries b) = Some entries"
    using bei_yields [OF b, of "n + 1"] n ok iter_take_yields [of _ _ entries]
    by (auto simp: entries_def)
  have "gather_prefix_lengths entries n (p n) (replicate n 0) = map m [0..<n]"
    unfolding m_def p_def by (rule gather_prefix_lengths_eq) (simp_all add: least_after_step(2))
  moreover have "\<forall>k<n - 1. map m [0..<n] ! k \<le> map m [0..<n] ! Suc k"
    by (auto simp: m_def intro!: least_after_mono)
  with subtract_adjacent_eq [of "n - 1" "map m [0..<n]"] obtain lens where
    lens: "subtract_adjacent (n - 1) (map m [0..<n]) = Some lens" "length lens = n" and
    "\<forall>k<n. lens ! k = (if 0 < k \<and> k \<le> n - 1 then map m [0..<n] ! k - map m [0..<n] ! (k - 1)
      else map m [0..<n] ! k)" by fastforce
  then have lens3: "\<forall>k<n. lens ! k = t k" by (auto simp: t_def)
  moreover note lens(1)
  moreover have "those (map (\<lambda>((_, entry), take). slice entry 0 take) (zip entries lens)) =
      Some (map (\<lambda>k. take (t k) (post k)) [0..<n])"
  proof -
    have zip: "zip entries lens = map (\<lambda>k. (entries ! k, t k)) [0..<n]"
      using len lens(2) lens3 by (intro nth_equalityI) simp_all
    show ?thesis unfolding zip map_map
    proof (rule those_map_Some)
      fix k assume "k \<in> set [0..<n]"
      then have "t k \<le> length (post k)" using taken [of k] by simp
      then show "((\<lambda>((_, entry), take). slice entry 0 take) \<circ> (\<lambda>k. (entries ! k, t k))) k =
          Some (take (t k) (post k))"
        by (simp add: slice_def post_def case_prod_beta)
    qed
  qed
  ultimately have entry: "PfcBlock_entry sz b n = Some (Some (PfcDictEntry_new_optimized sz
      (map (\<lambda>k. take (t k) (post k)) [0..<n] @ [post n])))"
    using n(2) take len by (simp add: PfcBlock_entry_def p_def post_def case_prod_beta)
  have "concat (map (\<lambda>k. take (t k) (post k)) [0..<n]) @ post n = s n"
  proof (cases n)
    case (Suc l)
    then have "m l = p n" by (simp add: m_def least_after_step)
    with taken [of l] s [of l] Suc show ?thesis by simp
  qed (simp add: s0)
  with entry show ?thesis by (simp add: s_def)
qed

end
