(* ===== verification/PfcDictionary.thy ===== *)
theory PfcDictionary
  imports Pfc
begin

text \<open>
  The front-coded dictionary as a whole: what the builder writes, what the lookups by
  position and by string, the iterators, the stream and the merge return. \<open>pd_wf d ss\<close>
  relates a dictionary to the list of its strings.
\<close>

section \<open>Dictionaries and their strings\<close>

definition pd_off :: "PfcDict \<Rightarrow> nat \<Rightarrow> nat" where
  "pd_off d j = (if j = 0 then 0 else unat (la_elem (pd_block_offsets d) (j - 1)))"

definition pd_wf :: "PfcDict \<Rightarrow> bytes list \<Rightarrow> bool" where
  "pd_wf d ss \<longleftrightarrow> unat (pd_n_strings d) = length ss \<and> la_wf (pd_block_offsets d) \<and>
    unat (la_len (pd_block_offsets d)) = (length ss - 1) div BLOCK_SIZE \<and>
    (\<forall>j. BLOCK_SIZE * j < length ss \<longrightarrow> pd_off d j \<le> length (pd_blocks d) \<and>
      (\<exists>rest. drop (pd_off d j) (pd_blocks d) = enc_from ss (BLOCK_SIZE * j) @ rest)) \<and>
    (ss = [] \<longrightarrow> (\<exists>rest. pd_blocks d = 0 # rest)) \<and> (\<forall>s\<in>set ss. str_ok s)"

definition pd_block :: "PfcDict \<Rightarrow> bytes list \<Rightarrow> nat \<Rightarrow> PfcBlock" where
  "pd_block d ss j = \<lparr>pb_encoded_strings = drop (pd_off d j) (pd_blocks d),
    pb_n_strings = min BLOCK_SIZE (length ss - BLOCK_SIZE * j)\<rparr>"

lemma block_index_iff: "0 < j \<Longrightarrow> BLOCK_SIZE * j < n \<longleftrightarrow> j - 1 < (n - 1) div BLOCK_SIZE" for n :: nat
  by auto

lemma pd_wfD:
  assumes "pd_wf d ss" "BLOCK_SIZE * j < length ss"
  obtains rest where "drop (pd_off d j) (pd_blocks d) = enc_from ss (BLOCK_SIZE * j) @ rest"
    "pd_off d j \<le> length (pd_blocks d)"
  using assms by (auto simp: pd_wf_def)

lemma pd_wf_ok: "pd_wf d ss \<Longrightarrow> \<forall>s\<in>set ss. str_ok s"
  by (simp add: pd_wf_def)

lemma pd_wf_length: "pd_wf d ss \<Longrightarrow> length ss < 2 ^ 64" "pd_wf d ss \<Longrightarrow> unat (pd_n_strings d) = length ss"
  using unsigned_less [of "pd_n_strings d", where 'a = nat] by (simp_all add: pd_wf_def)

context big_endian
begin

lemma block_offset_eq:
  assumes "pd_wf d ss" "BLOCK_SIZE * j < length ss \<or> j = 0"
  shows "\<exists>w. PfcDict_block_offset bo d j = Some w \<and> unat w = pd_off d j"
proof (cases "j = 0")
  case True
  then show ?thesis by (simp add: PfcDict_block_offset_def pd_off_def)
next
  case False
  with assms block_index_iff [of j "length ss"] have "j - 1 < unat (la_len (pd_block_offsets d))"
    by (simp add: pd_wf_def)
  with False assms(1) show ?thesis
    by (simp add: PfcDict_block_offset_def pd_off_def pd_wf_def LogArray_entry_eq)
qed

lemma calculate_block_offset_index_eq:
  assumes wf: "pd_wf d ss" and ix: "ix < length ss"
  shows "\<exists>w. PfcDict_calculate_block_offset_index bo d ix = Some (Some (w, ix mod BLOCK_SIZE)) \<and>
    unat w = pd_off d (ix div BLOCK_SIZE)"
proof -
  have "BLOCK_SIZE * (ix div BLOCK_SIZE) < length ss" using ix by simp
  with block_offset_eq [OF wf] obtain w where
    "PfcDict_block_offset bo d (ix div BLOCK_SIZE) = Some w" "unat w = pd_off d (ix div BLOCK_SIZE)"
    by blast
  moreover have "of_nat ix < pd_n_strings d"
    using ix pd_wf_length [OF wf] by (simp add: word_less_nat_alt unat_of_nat_u64)
  ultimately show ?thesis by (simp add: PfcDict_calculate_block_offset_index_def)
qed

lemma PfcDict_entry_eq:
  assumes wf: "pd_wf d ss" and ix: "ix < length ss"
  shows "\<exists>e. PfcDict_entry bo sz d ix = Some (Some e) \<and> PfcDictEntry_to_bytes e = ss ! ix \<and>
    PfcDict_get bo sz d ix = Some (Some (ss ! ix))"
proof -
  define j n where "j = ix div BLOCK_SIZE" and "n = ix mod BLOCK_SIZE"
  then have jn: "ix = BLOCK_SIZE * j + n" "n < BLOCK_SIZE" by (simp_all del: BLOCK_SIZE_simps(1))
  then have "BLOCK_SIZE * j < length ss" using ix by linarith
  with pd_wfD [OF wf] obtain rest where
    d: "drop (pd_off d j) (pd_blocks d) = enc_from ss (BLOCK_SIZE * j) @ rest"
       "pd_off d j \<le> length (pd_blocks d)" by blast
  obtain w where w: "PfcDict_calculate_block_offset_index bo d ix = Some (Some (w, n))"
    "unat w = pd_off d j"
    using calculate_block_offset_index_eq [OF assms] unfolding j_def n_def by blast
  let ?b = "\<lparr>pb_encoded_strings = enc_from ss (BLOCK_SIZE * j) @ rest, pb_n_strings = BLOCK_SIZE\<rparr>"
  obtain e where e: "PfcBlock_entry sz ?b n = Some (Some e)" "PfcDictEntry_to_bytes e = ss ! ix"
    using PfcBlock_entry_eq [of ?b ss j rest n sz] ix jn pd_wf_ok [OF wf] by auto
  have "utf8_valid (ss ! ix)" using pd_wf_ok [OF wf] ix by (simp add: str_ok_def)
  with e d w show ?thesis
    by (simp add: PfcDict_entry_def PfcDict_get_def PfcBlock_parse_def unwrap_def PfcBlock_get_def
        PfcDictEntry_fmt_def from_utf8_def)
qed

lemma PfcDict_get_eq:
  assumes wf: "pd_wf d ss" and ix: "ix < 2 ^ 64"
  shows "PfcDict_get bo sz d ix = Some (if ix < length ss then Some (ss ! ix) else None)"
proof (cases "ix < length ss")
  case True
  with PfcDict_entry_eq [OF wf True] show ?thesis by auto
next
  case False
  then have "\<not> of_nat ix < pd_n_strings d"
    using ix pd_wf_length [OF wf] by (simp add: word_less_nat_alt unat_of_nat_u64)
  with False show ?thesis
    by (simp add: PfcDict_get_def PfcDict_calculate_block_offset_index_def)
qed

text \<open>The blocks.\<close>

lemma PfcDict_block_for_id_eq:
  assumes wf: "pd_wf d ss" and j: "BLOCK_SIZE * j < length ss"
  shows "PfcDict_block_for_id bo d j = Some (pd_block d ss j)"
proof -
  from block_offset_eq [OF wf] j obtain w where
    w: "PfcDict_block_offset bo d j = Some w" "unat w = pd_off d j" by blast
  from pd_wfD [OF wf j] have "pd_off d j \<le> length (pd_blocks d)" by blast
  with w j pd_wf_length [OF wf] show ?thesis
    by (simp add: PfcDict_block_for_id_def PfcBlock_parse_def PfcBlock_parse_incomplete_def
        unwrap_def pd_block_def mult.commute)
qed

lemma dbi_next_Some:
  assumes wf: "pd_wf d ss" and j: "BLOCK_SIZE * j < length ss"
  shows "PfcDictBlockIterator_next bo \<lparr>dbi_dict = d, dbi_block_index = j\<rparr> =
    Some (Some (pd_block d ss j), \<lparr>dbi_dict = d, dbi_block_index = j + 1\<rparr>)"
proof -
  from block_offset_eq [OF wf] j obtain w where
    w: "PfcDict_block_offset bo d j = Some w" "unat w = pd_off d j" by blast
  from pd_wfD [OF wf j] have "pd_off d j \<le> length (pd_blocks d)" by blast
  moreover have "j \<le> LogArray_len (pd_block_offsets d)"
    using wf j by (auto simp: pd_wf_def LogArray_len_def)
  ultimately show ?thesis
    using w j pd_wf_length [OF wf]
    by (simp add: PfcDictBlockIterator_next_def PfcBlock_parse_def PfcBlock_parse_incomplete_def
        unwrap_def pd_block_def mult.commute Let_def)
qed

lemma dbi_next_None:
  assumes wf: "pd_wf d ss" and j: "length ss \<le> BLOCK_SIZE * j"
  shows "PfcDictBlockIterator_next bo \<lparr>dbi_dict = d, dbi_block_index = j\<rparr> =
    Some (None, \<lparr>dbi_dict = d, dbi_block_index = j\<rparr>)"
proof (cases "j \<le> (length ss - 1) div BLOCK_SIZE")
  case True
  with j have "8 * j \<le> length ss - 1" "length ss \<le> 8 * j" by simp_all
  then have "length ss = 0" "j = 0" by linarith+
  with block_offset_eq [OF wf, of 0] pd_wf_length [OF wf] show ?thesis
    by (auto simp: PfcDictBlockIterator_next_def)
next
  case False
  with wf show ?thesis by (simp add: PfcDictBlockIterator_next_def LogArray_len_def pd_wf_def)
qed

lemma dbi_collect:
  assumes wf: "pd_wf d ss"
  shows "iter_collect (PfcDictBlockIterator_next bo) (PfcDictBlockIterator_new d) =
    Some (map (pd_block d ss) [0..<(length ss + 7) div BLOCK_SIZE])"
proof -
  let ?n = "(length ss + 7) div BLOCK_SIZE"
  have "yields (PfcDictBlockIterator_next bo) \<lparr>dbi_dict = d, dbi_block_index = 0\<rparr>
      (map (pd_block d ss) [0..<k]) \<lparr>dbi_dict = d, dbi_block_index = k\<rparr>" if "k \<le> ?n" for k
    using that
  proof (induction k)
    case (Suc k)
    then have "BLOCK_SIZE * k < length ss" by simp
    with Suc dbi_next_Some [OF wf this] show ?case by (auto simp: yields_append)
  qed simp
  from iter_collect_yields [OF this [OF order_refl] dbi_next_None [OF wf]] show ?thesis
    by (simp add: PfcDictBlockIterator_new_def)
qed

end

text \<open>The strings of the blocks, one after the other, are all the strings.\<close>

lemma concat_blocks:
  "concat (map (\<lambda>j. map f [BLOCK_SIZE * j..<min n (BLOCK_SIZE * j + BLOCK_SIZE)])
    [0..<(n + 7) div BLOCK_SIZE]) = map f [0..<n]"
proof -
  have "concat (map (\<lambda>j. map f [BLOCK_SIZE * j..<min n (BLOCK_SIZE * j + BLOCK_SIZE)]) [0..<k]) =
      map f [0..<min n (BLOCK_SIZE * k)]" for k
  proof (induction k)
    case (Suc k)
    have "[0..<min n (BLOCK_SIZE * k)] @ [BLOCK_SIZE * k..<min n (BLOCK_SIZE * k + BLOCK_SIZE)] =
        [0..<min n (BLOCK_SIZE * Suc k)]"
    proof (cases "n \<le> BLOCK_SIZE * k")
      case False
      have split: "[0..<a] @ [a..<m] = [0..<m]" if "a \<le> m" for a m :: nat
        using upt_add_eq_append [of 0 a "m - a"] that by simp
      from False have "min n (BLOCK_SIZE * k) = BLOCK_SIZE * k" by simp
      moreover have "min n (BLOCK_SIZE * Suc k) = min n (BLOCK_SIZE * k + BLOCK_SIZE)"
        by (simp add: add.commute)
      ultimately show ?thesis
        using False split [of "BLOCK_SIZE * k" "min n (BLOCK_SIZE * k + BLOCK_SIZE)"] by simp
    qed simp
    from this [THEN arg_cong [where f = "map f"]] Suc show ?case by simp
  qed simp
  from this [of "(n + 7) div BLOCK_SIZE"] show ?thesis by (simp add: min_def)
qed

text \<open>The entries and the strings of one block.\<close>

lemma pd_block_yields:
  assumes wf: "pd_wf d ss" and j: "BLOCK_SIZE * j < length ss"
  shows "\<exists>it. yields PfcBlockEntryIterator_next (PfcBlock_block_entries (pd_block d ss j))
      (map (ent_at ss) [BLOCK_SIZE * j..<min (length ss) (BLOCK_SIZE * j + BLOCK_SIZE)]) it \<and>
    PfcBlockEntryIterator_next it = Some (None, it)"
proof -
  let ?b = "pd_block d ss j" and ?c = "min BLOCK_SIZE (length ss - BLOCK_SIZE * j)"
  obtain rest where "pb_encoded_strings ?b = enc_from ss (BLOCK_SIZE * j) @ rest"
    using pd_wfD [OF wf j] unfolding pd_block_def by auto
  moreover have "pb_n_strings ?b = ?c" by (simp add: pd_block_def)
  moreover have "BLOCK_SIZE * j + ?c = min (length ss) (BLOCK_SIZE * j + BLOCK_SIZE)" using j by simp
  ultimately show ?thesis
    using bei_yields [of ?b ss j rest ?c, OF _ _ _ _ _ pd_wf_ok [OF wf]] bei_end [of ?b ss j ?c rest] j
    by (metis BLOCK_SIZE_simps(2) le_refl linorder_not_le min.cobounded1 min.cobounded2 min_less_iff_conj
        zero_less_diff)
qed

lemma pbi_end: "PfcBlockEntryIterator_next it = Some (None, it) \<Longrightarrow>
  PfcBlockIterator_next \<lparr>pbi_entry_iterator = it, pbi_string = st\<rparr> =
    Some (None, \<lparr>pbi_entry_iterator = it, pbi_string = st\<rparr>)"
  by (simp add: PfcBlockIterator_next_def)

lemma dei_end: "PfcBlockEntryIterator_next it = Some (None, it) \<Longrightarrow>
  PfcDictEntryIterator_next sz \<lparr>dei_block_iter = it, dei_parts = st\<rparr> =
    Some (None, \<lparr>dei_block_iter = it, dei_parts = st\<rparr>)"
  by (simp add: PfcDictEntryIterator_next_def)

abbreviation block_range :: "'a list \<Rightarrow> nat \<Rightarrow> nat list" where
  "block_range ss j \<equiv> [BLOCK_SIZE * j..<min (length ss) (BLOCK_SIZE * j + BLOCK_SIZE)]"

lemma block_strings:
  assumes wf: "pd_wf d ss" and j: "BLOCK_SIZE * j < length ss"
  shows "iter_collect PfcBlockIterator_next (PfcBlock_strings (pd_block d ss j)) =
    Some (map ((!) ss) (block_range ss j))"
proof -
  from pd_block_yields [OF assms] obtain it where
    it: "yields PfcBlockEntryIterator_next (PfcBlock_block_entries (pd_block d ss j))
      (map (ent_at ss) (block_range ss j)) it" "PfcBlockEntryIterator_next it = Some (None, it)" by blast
  have "\<forall>k\<in>{BLOCK_SIZE * j..<min (length ss) (BLOCK_SIZE * j + BLOCK_SIZE)}. utf8_valid (ss ! k)"
    using pd_wf_ok [OF wf] by (auto simp: str_ok_def)
  from pbi_yields [OF it(1) this, of "[]"] obtain st where
    "yields PfcBlockIterator_next (PfcBlock_strings (pd_block d ss j)) (map ((!) ss) (block_range ss j))
      \<lparr>pbi_entry_iterator = it, pbi_string = st\<rparr>"
    by (auto simp: PfcBlock_strings_def)
  from iter_collect_yields [OF this pbi_end [OF it(2)]] show ?thesis .
qed

lemma block_entries:
  assumes wf: "pd_wf d ss" and j: "BLOCK_SIZE * j < length ss"
  shows "\<exists>es it. yields (PfcDictEntryIterator_next sz) (PfcBlock_entries (pd_block d ss j)) es it \<and>
    PfcDictEntryIterator_next sz it = Some (None, it) \<and>
    map PfcDictEntry_to_bytes es = map ((!) ss) (block_range ss j) \<and>
    (postfixes_ok ss \<longrightarrow> list_all pde_wf es)"
proof -
  from pd_block_yields [OF assms] obtain it where
    it: "yields PfcBlockEntryIterator_next (PfcBlock_block_entries (pd_block d ss j))
      (map (ent_at ss) (block_range ss j)) it" "PfcBlockEntryIterator_next it = Some (None, it)" by blast
  from dei_yields [OF it(1), of "[]" sz] obtain es st where
    "yields (PfcDictEntryIterator_next sz) (PfcBlock_entries (pd_block d ss j)) es
      \<lparr>dei_block_iter = it, dei_parts = st\<rparr>" "map PfcDictEntry_to_bytes es = map ((!) ss) (block_range ss j)"
    "postfixes_ok ss \<longrightarrow> list_all pde_wf es"
    by (auto simp: PfcBlock_entries_def)
  with dei_end [OF it(2)] show ?thesis by blast
qed

context big_endian
begin

lemma PfcDict_strings_eq:
  assumes wf: "pd_wf d ss"
  shows "PfcDict_strings bo d = Some ss"
proof -
  let ?js = "[0..<(length ss + 7) div BLOCK_SIZE]"
  have "those (map (iter_collect PfcBlockIterator_next \<circ> PfcBlock_strings) (map (pd_block d ss) ?js)) =
      Some (map (\<lambda>j. map ((!) ss) (block_range ss j)) ?js)"
    unfolding map_map
    by (rule those_map_Some) (simp add: block_strings [OF wf])
  then show ?thesis
    unfolding PfcDict_strings_def dbi_collect [OF wf]
    by (simp add: concat_blocks [unfolded BLOCK_SIZE_simps] map_nth)
qed

lemma PfcDict_entries_eq:
  assumes wf: "pd_wf d ss"
  shows "\<exists>es. PfcDict_entries bo sz d = Some es \<and> map PfcDictEntry_to_bytes es = ss \<and>
    (postfixes_ok ss \<longrightarrow> list_all pde_wf es)"
proof -
  let ?js = "[0..<(length ss + 7) div BLOCK_SIZE]"
  define E where "E = (\<lambda>j. the (iter_collect (PfcDictEntryIterator_next sz) (PfcBlock_entries (pd_block d ss j))))"
  have E: "iter_collect (PfcDictEntryIterator_next sz) (PfcBlock_entries (pd_block d ss j)) = Some (E j) \<and>
      map PfcDictEntry_to_bytes (E j) = map ((!) ss) (block_range ss j) \<and>
      (postfixes_ok ss \<longrightarrow> list_all pde_wf (E j))" if "j \<in> set ?js" for j
  proof -
    from that have "BLOCK_SIZE * j < length ss" by auto
    from block_entries [OF wf this, of sz] obtain es it where
      "yields (PfcDictEntryIterator_next sz) (PfcBlock_entries (pd_block d ss j)) es it"
      "PfcDictEntryIterator_next sz it = Some (None, it)"
      "map PfcDictEntry_to_bytes es = map ((!) ss) (block_range ss j)"
      "postfixes_ok ss \<longrightarrow> list_all pde_wf es" by blast
    then show ?thesis using iter_collect_yields by (fastforce simp: E_def)
  qed
  have "those (map (iter_collect (PfcDictEntryIterator_next sz) \<circ> PfcBlock_entries)
      (map (pd_block d ss) ?js)) = Some (map E ?js)"
    unfolding map_map using E by (intro those_map_Some) simp
  then have "PfcDict_entries bo sz d = Some (concat (map E ?js))"
    unfolding PfcDict_entries_def dbi_collect [OF wf] by simp
  moreover have "map PfcDictEntry_to_bytes (concat (map E ?js)) =
      concat (map (\<lambda>j. map ((!) ss) (block_range ss j)) ?js)"
    unfolding map_concat map_map using E by (intro arg_cong [where f = concat] map_cong) auto
  then have "map PfcDictEntry_to_bytes (concat (map E ?js)) = ss"
    by (simp add: concat_blocks [unfolded BLOCK_SIZE_simps] map_nth)
  moreover have "list_all pde_wf (concat (map E ?js))" if "postfixes_ok ss"
    using E that by (fastforce simp: list_all_iff)
  ultimately show ?thesis by blast
qed

end

section \<open>Lookup by string\<close>

abbreviation strictly_sorted :: "'a::linorder list \<Rightarrow> bool" where
  "strictly_sorted xs \<equiv> sorted_wrt (<) xs"

lemma take_le_lex: "take n xs \<le> xs" for xs :: bytes
proof (induction n arbitrary: xs)
  case (Suc n)
  then show ?case by (cases xs) simp_all
qed simp

lemma strictly_sorted_postfixes:
  assumes "strictly_sorted ss"
  shows "postfixes_ok ss"
  unfolding postfixes_ok_def
proof (intro allI impI notI)
  fix i assume i: "i < length ss" "i mod BLOCK_SIZE \<noteq> 0" and e: "postfix_at ss i = []"
  from i(2) have "0 < i" by (cases i) auto
  with assms i(1) have "ss ! (i - 1) < ss ! i" by (simp add: sorted_wrt_nth_less)
  moreover have "ss ! i = take (common_at ss i) (ss ! (i - 1))"
    using nth_from_entry [OF i(2), of ss] e by simp
  ultimately show False using take_le_lex [of "common_at ss i" "ss ! (i - 1)"] by simp
qed

text \<open>The scan of a block.\<close>

lemma id_scan_eq:
  assumes "yields (PfcDictEntryIterator_next sz) it es it'"
    "PfcDictEntryIterator_next sz it' = Some (None, it'')" "list_all pde_wf es"
  shows "id_scan sz s found c it = Some (map_option (\<lambda>k. of_nat (found * BLOCK_SIZE + (c + k)))
    (position (\<lambda>t. t = s) (map PfcDictEntry_to_bytes es)))"
  using assms
proof (induction es arbitrary: it c)
  case Nil
  then show ?case by (subst id_scan.simps) simp
next
  case (Cons e es)
  then obtain it1 where it1: "PfcDictEntryIterator_next sz it = Some (Some e, it1)"
    "yields (PfcDictEntryIterator_next sz) it1 es it'" by auto
  with Cons show ?case
    by (subst id_scan.simps) (auto simp: buf_eq_wf option.map_comp o_def algebra_simps
        simp del: to_bytes_concat)
qed

text \<open>What the search over the heads of the blocks tells about the string.\<close>

definition id_result :: "bytes list \<Rightarrow> bytes \<Rightarrow> u64 option + usize \<Rightarrow> bool" where
  "id_result ss s r = (case r of
       Inl None \<Rightarrow> s < ss ! 0
     | Inl (Some k) \<Rightarrow>
         \<exists>j. BLOCK_SIZE * j < length ss \<and> k = of_nat (j * BLOCK_SIZE) \<and> ss ! (BLOCK_SIZE * j) = s
     | Inr j \<Rightarrow> BLOCK_SIZE * j < length ss \<and> ss ! (BLOCK_SIZE * j) < s \<and>
         (BLOCK_SIZE * (j + 1) < length ss \<longrightarrow> s < ss ! (BLOCK_SIZE * (j + 1))))"

lemma strictly_sorted_nth_le:
  "strictly_sorted ss \<Longrightarrow> i \<le> j \<Longrightarrow> j < length ss \<Longrightarrow> ss ! i \<le> ss ! j" for ss :: "'a::linorder list"
  by (cases "i = j") (auto simp: sorted_wrt_nth_less intro: less_imp_le)

context big_endian
begin

text \<open>
  The binary search ends with the block whose head is the last one below the string.
\<close>

lemma id_search_spec:
  assumes wf: "pd_wf d ss" and srt: "strictly_sorted ss"
    and hi: "BLOCK_SIZE * hi < length ss" "lo \<le> hi + 1"
    and lt: "\<forall>j<lo. ss ! (BLOCK_SIZE * j) < s"
    and gt: "\<forall>j>hi. BLOCK_SIZE * j < length ss \<longrightarrow> s < ss ! (BLOCK_SIZE * j)"
  shows "\<exists>r. id_search bo d s lo hi = Some r \<and>
    id_result ss s r"
  using hi lt gt
proof (induction "hi + 1 - lo" arbitrary: lo hi rule: less_induct)
  case less
  show ?case
  proof (cases "lo \<le> hi")
    case False
    with less.prems have "lo = hi + 1" by simp
    moreover have "id_search bo d s lo hi = Some (Inr hi)"
      using False by (simp add: id_search.simps [of bo d s lo hi])
    moreover have "BLOCK_SIZE * (hi + 1) < length ss \<longrightarrow> s < ss ! (BLOCK_SIZE * (hi + 1))"
      using less.prems(4) less_add_one by blast
    ultimately show ?thesis
      using less.prems(1,3) by (auto simp: id_result_def simp del: BLOCK_SIZE_simps)
  next
    case True
    define mid where "mid = (lo + hi) div 2"
    have mid: "lo \<le> mid" "mid \<le> hi" using True by (simp_all add: mid_def)
    have m: "BLOCK_SIZE * mid < length ss"
      using mid(2) less.prems(1) by (meson le_less_trans mult_le_mono2)
    let ?h = "ss ! (BLOCK_SIZE * mid)"
    from block_offset_eq [OF wf] m obtain w where
      w: "PfcDict_block_offset bo d mid = Some w" "unat w = pd_off d mid" by blast
    from pd_wfD [OF wf m] obtain rest where
      d: "drop (pd_off d mid) (pd_blocks d) = enc_from ss (BLOCK_SIZE * mid) @ rest"
        "pd_off d mid \<le> length (pd_blocks d)" by blast
    have enc: "enc_from ss (BLOCK_SIZE * mid) @ rest = ?h @ 0 # enc_from ss (Suc (BLOCK_SIZE * mid)) @ rest"
      using m by (simp add: enc_from_Cons enc_at_def)
    have "0 \<notin> set ?h" using pd_wf_ok [OF wf] m by (simp add: str_ok_def)
    then have step: "id_search bo d s lo hi =
        (case compare s ?h of
           Less \<Rightarrow> if mid = 0 then Some (Inl None) else id_search bo d s lo (mid - 1)
         | Greater \<Rightarrow> id_search bo d s (mid + 1) hi
         | Equal \<Rightarrow> Some (Inl (Some (of_nat (mid * BLOCK_SIZE)))))"
      using True w d by (subst id_search.simps)
        (simp add: enc position_nul slice_def flip: mid_def del: BLOCK_SIZE_simps)
    have mono: "ss ! (BLOCK_SIZE * j) \<le> ss ! (BLOCK_SIZE * k)" if "j \<le> k" "BLOCK_SIZE * k < length ss" for j k
      using strictly_sorted_nth_le [OF srt] that by simp
    show ?thesis
    proof (cases "compare s ?h")
      case Less
      then have sh: "s < ?h" by (simp add: compare_def split: if_splits)
      show ?thesis
      proof (cases "mid = 0")
        case True
        with step Less sh show ?thesis by (simp add: id_result_def)
      next
        case False
        have "\<forall>j>mid - 1. BLOCK_SIZE * j < length ss \<longrightarrow> s < ss ! (BLOCK_SIZE * j)"
        proof (intro allI impI)
          fix j assume "mid - 1 < j" "BLOCK_SIZE * j < length ss"
          with False have "ss ! (BLOCK_SIZE * mid) \<le> ss ! (BLOCK_SIZE * j)" by (intro mono) simp_all
          with sh show "s < ss ! (BLOCK_SIZE * j)" by (rule less_le_trans)
        qed
        moreover have "BLOCK_SIZE * (mid - 1) < length ss" using m by simp
        moreover have "mid - 1 + 1 - lo < hi + 1 - lo" "lo \<le> mid - 1 + 1" using mid False by linarith+
        ultimately have "\<exists>r. id_search bo d s lo (mid - 1) = Some r \<and> id_result ss s r"
          using less.prems(3) by (intro less.hyps)
        with step Less False show ?thesis by simp
      qed
    next
      case Equal
      with m step show ?thesis by (auto simp: id_result_def intro!: exI [of _ mid])
    next
      case Greater
      then have "?h < s" by (auto simp: compare_def split: if_splits)
      have "\<forall>j<mid + 1. ss ! (BLOCK_SIZE * j) < s"
      proof (intro allI impI)
        fix j assume "j < mid + 1"
        then have "ss ! (BLOCK_SIZE * j) \<le> ?h" using m by (intro mono) simp_all
        then show "ss ! (BLOCK_SIZE * j) < s" using \<open>?h < s\<close> by (rule le_less_trans)
      qed
      moreover have "hi + 1 - (mid + 1) < hi + 1 - lo" "mid + 1 \<le> hi + 1" using mid by linarith+
      ultimately have "\<exists>r. id_search bo d s (mid + 1) hi = Some r \<and> id_result ss s r"
        using less.prems(1,4) by (intro less.hyps)
      with step Greater show ?thesis by simp
    qed
  qed
qed

end

lemma position_distinct:
  "distinct xs \<Longrightarrow> i < length xs \<Longrightarrow> xs ! i = s \<Longrightarrow> position (\<lambda>t. t = s) xs = Some i"
  unfolding position_Some_iff by (auto simp: distinct_conv_nth)

lemma position_absent: "s \<notin> set xs \<Longrightarrow> position (\<lambda>t. t = s) xs = None"
  by (induction xs) auto

lemma strictly_sorted_distinct: "strictly_sorted xs \<Longrightarrow> distinct xs"
  by (simp add: strict_sorted_iff)

text \<open>Where in the list the block tells the string to be.\<close>

lemma position_in_block:
  assumes srt: "strictly_sorted ss" and j: "BLOCK_SIZE * j < length ss" "ss ! (BLOCK_SIZE * j) < s"
    and nxt: "BLOCK_SIZE * (j + 1) < length ss \<longrightarrow> s < ss ! (BLOCK_SIZE * (j + 1))"
  shows "map_option (\<lambda>k. j * BLOCK_SIZE + k)
      (position (\<lambda>t. t = s) (map ((!) ss) (block_range ss j))) = position (\<lambda>t. t = s) ss"
proof (cases "s \<in> set ss")
  case False
  then have "s \<notin> set (map ((!) ss) (block_range ss j))" by auto
  with False show ?thesis by (simp add: position_absent)
next
  case True
  then obtain i where i: "i < length ss" "ss ! i = s" by (metis in_set_conv_nth)
  let ?a = "BLOCK_SIZE * j" and ?m = "min (length ss) (BLOCK_SIZE * j + BLOCK_SIZE)"
  have lo: "?a \<le> i"
    using strictly_sorted_nth_le [OF srt, of i ?a] i j by (meson leD nat_le_linear)
  have hi: "i < ?m"
  proof (rule ccontr)
    assume "\<not> i < ?m"
    then have "BLOCK_SIZE * (j + 1) \<le> i" using i(1) by simp
    moreover from this nxt i(1) have "s < ss ! (BLOCK_SIZE * (j + 1))" by (meson le_less_trans)
    ultimately show False
      using strictly_sorted_nth_le [OF srt, of "BLOCK_SIZE * (j + 1)" i] i by simp
  qed
  have "distinct ss" using srt by (rule strictly_sorted_distinct)
  then have "distinct (map ((!) ss) (block_range ss j))"
    by (auto simp: distinct_map inj_on_def nth_eq_iff_index_eq)
  then have "position (\<lambda>t. t = s) (map ((!) ss) (block_range ss j)) = Some (i - ?a)"
    using lo hi i by (intro position_distinct) auto
  moreover have "position (\<lambda>t. t = s) ss = Some i"
    using \<open>distinct ss\<close> i by (rule position_distinct)
  ultimately show ?thesis using lo by (simp add: mult.commute)
qed

context big_endian
begin

lemma PfcDict_id_eq:
  assumes wf: "pd_wf d ss" and srt: "strictly_sorted ss" and ne: "ss \<noteq> []"
  shows "PfcDict_id bo sz d s = Some (map_option of_nat (position (\<lambda>t. t = s) ss))"
proof -
  let ?hi = "LogArray_len (pd_block_offsets d)"
  have hi: "?hi = (length ss - 1) div BLOCK_SIZE" using wf by (simp add: pd_wf_def LogArray_len_def)
  have "BLOCK_SIZE * ?hi < length ss" using ne unfolding hi by (cases ss) auto
  moreover have "\<forall>j>?hi. \<not> BLOCK_SIZE * j < length ss" unfolding hi by auto
  ultimately obtain r where r: "id_search bo d s 0 ?hi = Some r" "id_result ss s r"
    using id_search_spec [OF wf srt, of ?hi 0 s] by auto
  have id: "PfcDict_id bo sz d s = (case r of Inl result \<Rightarrow> Some result | Inr found \<Rightarrow>
      PfcDict_block_for_id bo d found \<bind> (\<lambda>block. id_scan sz s found 0 (PfcBlock_entries block)))"
    using r(1) by (simp add: PfcDict_id_def)
  consider (less) "r = Inl None" "s < ss ! 0"
    | (head) j where "r = Inl (Some (of_nat (j * BLOCK_SIZE)))" "BLOCK_SIZE * j < length ss" "ss ! (BLOCK_SIZE * j) = s"
    | (block) j where "r = Inr j" "BLOCK_SIZE * j < length ss" "ss ! (BLOCK_SIZE * j) < s"
      "BLOCK_SIZE * (j + 1) < length ss \<longrightarrow> s < ss ! (BLOCK_SIZE * (j + 1))"
    using r(2) unfolding id_result_def by (auto split: sum.splits option.splits)
  then show ?thesis
  proof cases
    case less
    have "s \<notin> set ss"
    proof
      assume "s \<in> set ss"
      then obtain i where "i < length ss" "ss ! i = s" by (metis in_set_conv_nth)
      with strictly_sorted_nth_le [OF srt, of 0 i] less(2) show False by simp
    qed
    with less id show ?thesis by (simp add: position_absent)
  next
    case head
    with position_distinct [OF strictly_sorted_distinct [OF srt] head(2,3)] id show ?thesis
      by (simp add: mult.commute)
  next
    case (block j)
    from block_entries [OF wf block(2), of sz] strictly_sorted_postfixes [OF srt] obtain es it where
      es: "yields (PfcDictEntryIterator_next sz) (PfcBlock_entries (pd_block d ss j)) es it"
        "PfcDictEntryIterator_next sz it = Some (None, it)"
        "map PfcDictEntry_to_bytes es = map ((!) ss) (block_range ss j)" "list_all pde_wf es"
      by blast
    have "PfcDict_id bo sz d s = Some (map_option of_nat (map_option (\<lambda>k. j * BLOCK_SIZE + k)
        (position (\<lambda>t. t = s) (map ((!) ss) (block_range ss j)))))"
      using id block(1) PfcDict_block_for_id_eq [OF wf block(2)] id_scan_eq [OF es(1,2,4), of s j 0]
      unfolding es(3) by (simp add: option.map_comp o_def del: BLOCK_SIZE_simps)
    then show ?thesis unfolding position_in_block [OF srt block(2-4)] .
  qed
qed

end

section \<open>Building\<close>

definition pfb_inv :: "PfcDictFileBuilder \<Rightarrow> bytes list \<Rightarrow> bool" where
  "pfb_inv b ss \<longleftrightarrow> pfb_pfc_blocks_file b = enc_from ss 0 \<and> pfb_pfc_block_offsets_file b = [] \<and>
    pfb_count b = length ss \<and> pfb_size b = length (enc_from ss 0) \<and>
    pfb_last b = (if ss = [] then None else Some (last ss)) \<and>
    pfb_index b = map (\<lambda>j. of_nat (enc_offset ss (j + 1))) [0..<(length ss - 1) div BLOCK_SIZE]"

lemma pfb_inv_new: "pfb_inv (PfcDictFileBuilder_new [] []) []"
  by (simp add: pfb_inv_def PfcDictFileBuilder_new_def)

lemma div_pred: "n mod 8 \<noteq> 0 \<Longrightarrow> n div 8 = (n - 1) div 8" for n :: nat
proof -
  assume "n mod 8 \<noteq> 0"
  moreover obtain q r where "n = 8 * q + r" "r < 8" "n mod 8 = r" "n div 8 = q"
    by (metis mod_less_divisor mult_div_mod_eq zero_less_numeral)
  ultimately show ?thesis by (intro div_nat_eqI [symmetric]) auto
qed

lemma add_bytes_inv:
  assumes inv: "pfb_inv b ss" and len: "length s < 2 ^ 64"
  shows "\<exists>b'. PfcDictFileBuilder_add_bytes b s = Some (of_nat (length ss + 1), b') \<and>
    pfb_inv b' (ss @ [s])"
proof (cases "length ss mod BLOCK_SIZE = 0")
  case True
  have enc: "enc_from (ss @ [s]) 0 = enc_from ss 0 @ s @ [0]"
    using True by (simp add: enc_from_snoc enc_at_def)
  have "map (\<lambda>j. of_nat (enc_offset (ss @ [s]) (j + 1))) [0..<length ss div BLOCK_SIZE] =
      (if ss \<noteq> [] then pfb_index b @ [of_nat (length (enc_from ss 0))] else pfb_index b)"
  proof (cases "ss = []")
    case False
    from True obtain q' where "length ss = BLOCK_SIZE * q'" by (metis mod_0_imp_dvd dvdE)
    with False obtain q where q: "length ss = BLOCK_SIZE * Suc q" by (cases q') auto
    then have "length ss div BLOCK_SIZE = Suc q" "(length ss - 1) div BLOCK_SIZE = q" by auto
    moreover have "enc_offset ss (Suc q) = length (enc_from ss 0)"
      by (simp add: enc_offset_def enc_from_def q)
    moreover have "enc_offset (ss @ [s]) (j + 1) = enc_offset ss (j + 1)" if "j \<le> q" for j
      using q that by (intro enc_offset_snoc) simp
    ultimately show ?thesis using inv False by (simp add: pfb_inv_def)
  qed (use inv in \<open>simp add: pfb_inv_def\<close>)
  with inv True enc show ?thesis
    by (auto simp: PfcDictFileBuilder_add_bytes_def pfb_inv_def write_nul_terminated_bytes_def Let_def)
next
  case False
  then have ne: "ss \<noteq> []" by auto
  let ?k = "find_common_prefix (last ss) s"
  have k: "?k \<le> length s" "?k < 2 ^ 64" using find_common_prefix_le(2) [of "last ss" s] len by auto
  have enc: "enc_from (ss @ [s]) 0 = enc_from ss 0 @ vbytes ?k @ drop ?k s @ [0]"
    using False ne by (simp add: enc_from_snoc enc_at_def common_at_def postfix_at_def nth_append last_conv_nth)
  have idx: "length ss div BLOCK_SIZE = (length ss - 1) div BLOCK_SIZE"
    using False div_pred [of "length ss"] by simp
  have "enc_offset (ss @ [s]) (j + 1) = enc_offset ss (j + 1)" if "j < (length ss - 1) div BLOCK_SIZE" for j
    using that by (intro enc_offset_snoc) auto
  then have "map (\<lambda>j. of_nat (enc_offset (ss @ [s]) (j + 1))) [0..<(length ss - 1) div BLOCK_SIZE] = pfb_index b"
    using inv by (simp add: pfb_inv_def)
  moreover have "length (vbytes ?k) = encoding_len (of_nat ?k)"
    using length_vbytes_u64 [of "of_nat ?k"] k by (simp add: unat_of_nat_u64)
  ultimately show ?thesis
    using inv False ne enc k idx
    by (auto simp: PfcDictFileBuilder_add_bytes_def pfb_inv_def write_nul_terminated_bytes_def Let_def
        unat_of_nat_u64)
qed

text \<open>
  What a dictionary can hold: strings without null bytes, at most \<open>2\<^sup>3\<^sup>5\<close> of them, so
  that the number of blocks fits the log array, and less than \<open>2\<^sup>6\<^sup>4\<close> bytes in all,
  counting at most eleven bytes of overhead a string.
\<close>

definition dict_ok :: "bytes list \<Rightarrow> bool" where
  "dict_ok ss \<longleftrightarrow> (\<forall>s\<in>set ss. 0 \<notin> set s \<and> utf8_valid s) \<and> length ss \<le> 2 ^ 35 \<and>
    sum_list (map length ss) + 11 * length ss < 2 ^ 64"

lemma dict_ok_str_ok: "dict_ok ss \<Longrightarrow> \<forall>s\<in>set ss. str_ok s"
proof
  fix s assume "dict_ok ss" "s \<in> set ss"
  moreover from this have "length s \<le> sum_list (map length ss)" by (simp add: member_le_sum_list)
  ultimately show "str_ok s" by (auto simp: dict_ok_def str_ok_def)
qed

lemma length_vbytes_le: "k < 2 ^ 64 \<Longrightarrow> length (vbytes k) \<le> 10"
  using length_vbytes_le_iff [of k 10] by simp

lemma length_enc_from_le:
  assumes "\<forall>s\<in>set ss. str_ok s"
  shows "length (enc_from ss 0) \<le> sum_list (map length ss) + 11 * length ss"
  using assms
proof (induction ss rule: rev_induct)
  case (snoc s ss)
  let ?i = "length ss"
  have k: "common_at (ss @ [s]) ?i \<le> length s" using common_at_le(1) [of "ss @ [s]" ?i] by simp
  also have "length s < 2 ^ 64" using snoc.prems by (simp add: str_ok_def)
  finally have "length (vbytes (common_at (ss @ [s]) ?i)) \<le> 10" by (rule length_vbytes_le)
  with k have "length (enc_at (ss @ [s]) ?i) \<le> length s + 11"
    by (simp add: enc_at_def postfix_at_def) linarith
  moreover from snoc have "length (enc_from ss 0) \<le> sum_list (map length ss) + 11 * length ss" by simp
  ultimately show ?case by (simp add: enc_from_snoc)
qed simp

lemma enc_offset_mono: "j \<le> k \<Longrightarrow> enc_offset ss j \<le> enc_offset ss k"
proof -
  assume "j \<le> k"
  then have "[0..<BLOCK_SIZE * k] = [0..<BLOCK_SIZE * j] @ [BLOCK_SIZE * j..<BLOCK_SIZE * k]"
    by (metis le_add_diff_inverse mult_le_mono2 upt_add_eq_append zero_le)
  then show ?thesis unfolding enc_offset_def by simp
qed

lemma add_all_inv:
  assumes "pfb_inv b ss" "\<forall>s\<in>set ts. str_ok s"
  shows "\<exists>b'. PfcDictFileBuilder_add_all b ts =
      Some (map of_nat [length ss + 1..<length ss + length ts + 1], b') \<and> pfb_inv b' (ss @ ts)"
  using assms
proof (induction ts arbitrary: b ss)
  case (Cons t ts)
  from Cons.prems(2) have "length t < 2 ^ 64" by (simp add: str_ok_def)
  from add_bytes_inv [OF Cons.prems(1) this] obtain b1 where
    b1: "PfcDictFileBuilder_add_bytes b t = Some (of_nat (length ss + 1), b1)" "pfb_inv b1 (ss @ [t])"
    by blast
  from Cons.IH [OF b1(2)] Cons.prems(2) obtain b2 where
    "PfcDictFileBuilder_add_all b1 ts =
      Some (map of_nat [length (ss @ [t]) + 1..<length (ss @ [t]) + length ts + 1], b2)"
    "pfb_inv b2 ((ss @ [t]) @ ts)" by auto
  with b1(1) show ?case
    by (simp add: PfcDictFileBuilder_add_def upt_conv_Cons del: upt_Suc)
qed simp

lemma add_all_new:
  assumes "\<forall>s\<in>set ss. str_ok s"
  obtains b where "PfcDictFileBuilder_add_all (PfcDictFileBuilder_new [] []) ss =
    Some (map of_nat [1..<length ss + 1], b)" "pfb_inv b ss"
  using add_all_inv [OF pfb_inv_new assms] by auto

lemma add_all_entries_eq:
  "PfcDictFileBuilder_add_all_entries b es = PfcDictFileBuilder_add_all b (map PfcDictEntry_to_bytes es)"
  by (induction es arbitrary: b)
    (simp_all add: PfcDictFileBuilder_add_entry_def PfcDictFileBuilder_add_def del: to_bytes_concat)

text \<open>All offsets fit the width that \<open>finalize\<close> takes from the last one.\<close>

lemma index_width:
  assumes inv: "pfb_inv b ss" and len: "length (enc_from ss 0) < 2 ^ 64"
  defines "w \<equiv> if pfb_index b = [] then 1 else 64 - leading_zeros (last (pfb_index b))"
  shows "0 < w" "w \<le> 64" "\<forall>v\<in>set (pfb_index b). unat v < 2 ^ w"
    and "\<forall>j<(length ss - 1) div BLOCK_SIZE. unat (pfb_index b ! j) = enc_offset ss (j + 1)"
proof -
  let ?n = "(length ss - 1) div BLOCK_SIZE"
  have idx: "length (pfb_index b) = ?n" using inv by (simp add: pfb_inv_def)
  show nth: "\<forall>j<?n. unat (pfb_index b ! j) = enc_offset ss (j + 1)"
  proof (intro allI impI)
    fix j assume j: "j < ?n"
    then have "BLOCK_SIZE * (j + 1) \<le> length ss" by auto
    with drop_enc_offset(1) [of "j + 1" ss] len have "enc_offset ss (j + 1) < 2 ^ 64" by simp
    with inv j show "unat (pfb_index b ! j) = enc_offset ss (j + 1)"
      by (simp add: pfb_inv_def unat_of_nat_u64)
  qed
  have "0 < w \<and> w \<le> 64 \<and> (\<forall>v\<in>set (pfb_index b). unat v < 2 ^ w)"
  proof (cases "pfb_index b = []")
    case True
    then show ?thesis by (simp add: w_def)
  next
    case False
    let ?l = "last (pfb_index b)"
    from False idx have n: "0 < ?n" by (metis length_greater_0_conv)
    have l: "unat ?l = enc_offset ss ?n"
      using False idx nth n by (simp add: last_conv_nth)
    have w: "w = bit_len (unat ?l)"
      using False bit_len_u64 [of ?l] by (simp add: w_def leading_zeros_def)
    have "0 < enc_offset ss ?n"
    proof -
      from n have "[0..<BLOCK_SIZE * ?n] = 0 # [1..<BLOCK_SIZE * ?n]"
        by (simp add: upt_conv_Cons)
      then show ?thesis by (simp add: enc_offset_def enc_at_def)
    qed
    with l have "0 < w" unfolding w using bit_len_le_iff [of "unat ?l" 0] by simp
    moreover have "unat v < 2 ^ w" if "v \<in> set (pfb_index b)" for v
    proof -
      from that idx obtain j where j: "j < ?n" "v = pfb_index b ! j" by (metis in_set_conv_nth)
      then have "unat v \<le> unat ?l"
        using nth l enc_offset_mono [of "j + 1" ?n ss] by simp
      also have "unat ?l < 2 ^ w" using bit_len_le_iff [of "unat ?l" w] by (simp add: w)
      finally show ?thesis .
    qed
    ultimately show ?thesis using bit_len_u64 [of ?l] by (simp add: w)
  qed
  then show "0 < w" "w \<le> 64" "\<forall>v\<in>set (pfb_index b). unat v < 2 ^ w" by simp_all
qed

context big_endian
begin

lemma finalize_parse:
  assumes inv: "pfb_inv b ss" and ok: "dict_ok ss"
  obtains pad offsets d where
    "PfcDictFileBuilder_finalize bo b =
      Some (Inr (enc_from ss 0 @ replicate pad 0 @ to_be_bytes (of_nat (length ss)), offsets))"
    "PfcDict_parse bo (enc_from ss 0 @ replicate pad 0 @ to_be_bytes (of_nat (length ss))) offsets =
      Some (Inr d)" "pd_wf d ss"
proof -
  define w where "w = (if pfb_index b = [] then 1 else 64 - leading_zeros (last (pfb_index b)))"
  let ?n = "(length ss - 1) div BLOCK_SIZE"
  note ok' = dict_ok_str_ok [OF ok]
  have len: "length (enc_from ss 0) < 2 ^ 64"
    using length_enc_from_le [OF ok'] ok by (simp add: dict_ok_def)
  note width = index_width [OF inv len, folded w_def]
  have idx: "length (pfb_index b) = ?n" using inv by (simp add: pfb_inv_def)
  have n: "?n < 2 ^ 32"
  proof -
    from ok have "length ss \<le> 2 ^ 35" by (simp add: dict_ok_def)
    then show ?thesis by (simp add: less_mult_imp_div_less)
  qed
  have w8: "unat (of_nat w :: u8) = w"
    using width(2) by (simp add: unsigned_of_nat take_bit_nat_eq_self)
  have "lab_inv (LogArrayFileBuilder_new [] (of_nat w)) w []"
    using lab_inv_new [of "of_nat w"] w8 width(2) by simp
  from lab_push_vec [OF this, of "pfb_index b"] width(3) n idx obtain lb where
    lb: "LogArrayFileBuilder_push_vec (LogArrayFileBuilder_new [] (of_nat w)) (pfb_index b) = Inr lb"
      "lab_inv lb w (pfb_index b)" by auto
  from lab_finalize_parse [OF lb(2) disjI1 [OF width(1)] _ width(3)] n idx obtain offsets la where
    la: "LogArrayFileBuilder_finalize bo lb = Some offsets" "LogArray_parse bo offsets = Some (Inr la)"
      "la_wf la" "la_elems la = pfb_index b" "unat (la_len la) = length (pfb_index b)" by metis
  obtain pad where pad: "write_padding (enc_from ss 0) (length (enc_from ss 0)) 8 =
      Some (enc_from ss 0 @ replicate pad 0)"
    using write_padding_aligned [of "8 :: u8" "enc_from ss 0"] by auto
  let ?blocks = "enc_from ss 0 @ replicate pad 0 @ to_be_bytes (of_nat (length ss))"
  let ?d = "\<lparr>pd_n_strings = of_nat (length ss), pd_block_offsets = la, pd_blocks = ?blocks\<rparr>"
  have fin: "PfcDictFileBuilder_finalize bo b = Some (Inr (?blocks, offsets))"
    using inv lb(1) la(1) pad
    by (simp add: PfcDictFileBuilder_finalize_def pfb_inv_def write_u64_def w_def Let_def)
  have parse: "PfcDict_parse bo ?blocks offsets = Some (Inr ?d)"
    using la(2) by (simp add: PfcDict_parse_def)
  have "length ss < 2 ^ 64" using ok by (simp add: dict_ok_def)
  moreover have "pd_off ?d j = enc_offset ss j" if "BLOCK_SIZE * j < length ss" for j
  proof (cases "j = 0")
    case True
    then show ?thesis by (simp add: pd_off_def enc_offset_def)
  next
    case False
    with that block_index_iff [of j "length ss"] have j: "j - 1 < ?n" by simp
    then have "la_elem la (j - 1) = pfb_index b ! (j - 1)"
      using la(4,5) idx nth_la_elems [of "j - 1" la] by simp
    with width(4) j False show ?thesis by (simp add: pd_off_def)
  qed
  moreover have "pd_blocks ?d = 0 # tl ?blocks" if "ss = []"
  proof -
    have "to_be_bytes 0 = 0 # replicate 7 0"
      by (simp add: to_be_bytes_def upt_rec numeral_eq_Suc)
    with that show ?thesis by (cases pad) simp_all
  qed
  moreover have "enc_offset ss j \<le> length ?blocks \<and>
      drop (enc_offset ss j) ?blocks = enc_from ss (BLOCK_SIZE * j) @
        replicate pad 0 @ to_be_bytes (of_nat (length ss))" if "BLOCK_SIZE * j < length ss" for j
    using drop_enc_offset [of j ss] that by simp
  ultimately have "pd_wf ?d ss"
    using la(3,5) idx ok' unfolding pd_wf_def by (auto simp: unat_of_nat_u64)
  with fin parse show ?thesis by (rule that)
qed

end

section \<open>Streaming\<close>

text \<open>
  The stream decoder looks for the null byte that ends a string before it reads the
  length of the prefix. It passes a string when that length has no null byte in its
  encoding, and when the head of a block is not empty; it takes a null byte in front for the
  end of the dictionary.
\<close>

definition stream_passes :: "bytes list \<Rightarrow> nat \<Rightarrow> bool" where
  "stream_passes ss i \<longleftrightarrow>
    (if i mod BLOCK_SIZE = 0 then ss ! i \<noteq> [] else 0 \<notin> set (vbytes (common_at ss i)))"

definition stream_stops :: "bytes list \<Rightarrow> nat \<Rightarrow> bool" where
  "stream_stops ss i \<longleftrightarrow>
    (if i mod BLOCK_SIZE = 0 then ss ! i = [] else 128 \<le> common_at ss i \<and> 128 dvd common_at ss i)"

definition decoder_at :: "bytes list \<Rightarrow> nat \<Rightarrow> PfcDecoder" where
  "decoder_at ss i =
    \<lparr>pdc_last = (if i = 0 then None else Some (ss ! (i - 1))), pdc_index = i, pdc_done = False\<rparr>"

lemma decode_passes:
  assumes i: "i < length ss" and ok: "str_ok (ss ! i)" and pass: "stream_passes ss i"
  shows "PfcDecoder_decode (decoder_at ss i) (enc_from ss i @ rest) =
    Some (decoder_at ss (Suc i), enc_from ss (Suc i) @ rest, Some (ss ! i))"
proof (cases "i mod BLOCK_SIZE = 0")
  case True
  with i ok pass position_nul [of "ss ! i"] show ?thesis
    by (simp add: PfcDecoder_decode_def decoder_at_def enc_from_Cons enc_at_def stream_passes_def
        str_ok_def from_utf8_def Let_def)
next
  case False
  let ?k = "common_at ss i" and ?rest = "enc_from ss (Suc i) @ rest"
  from False have "0 < i" by (cases i) auto
  have k: "?k < 2 ^ 64" "?k \<le> length (ss ! (i - 1))"
    using common_at_le [of ss i] ok by (auto simp: str_ok_def)
  have enc: "enc_from ss i @ rest = (vbytes ?k @ postfix_at ss i) @ 0 # ?rest"
    using False i by (simp add: enc_from_Cons enc_at_def)
  have nul: "0 \<notin> set (vbytes ?k @ postfix_at ss i)"
    using pass ok postfix_no_nul [of ss i] False by (simp add: stream_passes_def str_ok_def)
  have dec: "decode ((vbytes ?k @ postfix_at ss i) @ 0 # ?rest) = Inr (of_nat ?k, length (vbytes ?k))"
    using decode_vbytes_nat [OF k(1)] by simp
  have "\<not> (length (vbytes ?k @ postfix_at ss i) = 0)" by simp
  then show ?thesis
    using False \<open>0 < i\<close> k ok position_nul [OF nul, of ?rest] dec nth_from_entry [OF False, of ss]
    unfolding enc
    by (simp add: PfcDecoder_decode_def decoder_at_def unat_of_nat_u64 slice_def str_ok_def from_utf8_def
        Let_def del: append_assoc)
qed

lemma vbytes_starts_nul: "128 \<le> k \<Longrightarrow> 128 dvd k \<Longrightarrow> \<exists>rest. vbytes k = 0 # rest"
  by (simp add: vbytes_large)

lemma enc_stops: "stream_stops ss i \<Longrightarrow> i < length ss \<Longrightarrow> \<exists>rest. enc_from ss i = 0 # rest"
  using vbytes_starts_nul [of "common_at ss i"]
  by (cases "i mod BLOCK_SIZE = 0") (auto simp: stream_stops_def enc_from_Cons enc_at_def)

lemma decode_strings_until:
  assumes ok: "\<forall>s\<in>set ss. str_ok s" and m: "m \<le> length ss" and pass: "\<forall>i<m. stream_passes ss i"
    and stop: "\<exists>rest'. enc_from ss m @ rest = 0 # rest'" and i: "i \<le> m"
  shows "decode_strings (decoder_at ss i) (enc_from ss i @ rest) =
    Some (map ((!) ss) [i..<m], [])"
  using i
proof (induction "m - i" arbitrary: i)
  case 0
  then have "i = m" by simp
  with stop have "PfcDecoder_decode (decoder_at ss i) (enc_from ss i @ rest) =
      Some ((decoder_at ss i)\<lparr>pdc_done := True\<rparr>, [], None)"
    by (auto simp: PfcDecoder_decode_def decoder_at_def)
  then show ?case using \<open>i = m\<close> by (subst decode_strings.simps) simp
next
  case (Suc n)
  then have "i < m" by simp
  with ok m pass have "str_ok (ss ! i)" "stream_passes ss i" "i < length ss" by simp_all
  from decode_passes [OF this(3,1,2)] Suc.hyps(1) [of "Suc i"] Suc.hyps(2) \<open>i < m\<close> show ?case
    by (subst decode_strings.simps) (simp add: upt_conv_Cons)
qed

text \<open>What follows the strings in the file begins with a null byte.\<close>

lemma trailer_nul:
  assumes "dict_ok ss"
  shows "\<exists>rest. replicate pad 0 @ to_be_bytes (of_nat (length ss)) = 0 # rest"
proof (cases pad)
  case 0
  let ?w = "of_nat (length ss) :: u64"
  have "unat ?w < 2 ^ 56" using assms by (simp add: dict_ok_def unat_of_nat_u64)
  then have "\<not> bit ?w k" if "56 \<le> k" for k using that by (meson bit_imp_less not_le)
  then have "drop_bit 56 ?w = 0" by (intro bit_word_eqI) (simp add: bit_drop_bit_eq)
  with 0 show ?thesis by (simp add: to_be_bytes_def upt_rec numeral_eq_Suc)
qed simp

lemma stream_until:
  assumes ok: "dict_ok ss" and framed: "framed_strings_ok framed"
    and m: "m \<le> length ss" "\<forall>i<m. stream_passes ss i" "m < length ss \<longrightarrow> stream_stops ss m"
  shows "dict_reader_to_stream framed
      (enc_from ss 0 @ replicate pad 0 @ to_be_bytes (of_nat (length ss))) = map Inr (take m ss)"
proof -
  let ?rest = "replicate pad 0 @ to_be_bytes (of_nat (length ss))"
  have "\<exists>rest'. enc_from ss m @ ?rest = 0 # rest'"
    using enc_stops [of ss m] trailer_nul [OF ok, of pad] m(1,3) by (cases "m < length ss") auto
  from decode_strings_until [OF dict_ok_str_ok [OF ok] m(1,2) this, of 0]
  have "decode_strings PfcDecoder_new (enc_from ss 0 @ ?rest) = Some (map ((!) ss) [0..<m], [])"
    by (simp add: decoder_at_def PfcDecoder_new_def)
  moreover have "map ((!) ss) [0..<m] = take m ss" using m(1) by (intro nth_equalityI) simp_all
  ultimately show ?thesis using framed by (simp add: dict_reader_to_stream_def framed_strings_ok_def)
qed

section \<open>The interface of a dictionary\<close>

text \<open>
  What the layers rely on: a dictionary holds a strictly sorted list of strings, \<open>get\<close>
  returns the string at a position and \<open>ident\<close> the position of a string.
\<close>

locale string_dictionary =
  fixes holds :: "'d \<Rightarrow> bytes list \<Rightarrow> bool"
    and len :: "'d \<Rightarrow> usize"
    and get :: "'d \<Rightarrow> usize \<Rightarrow> bytes option panics"
    and ident :: "'d \<Rightarrow> bytes \<Rightarrow> u64 option panics"
  assumes len: "holds d ss \<Longrightarrow> len d = length ss"
    and len_bound: "holds d ss \<Longrightarrow> length ss < 2 ^ 64"
    and get: "holds d ss \<Longrightarrow> ix < 2 ^ 64 \<Longrightarrow>
      get d ix = Some (if ix < length ss then Some (ss ! ix) else None)"
    and ident: "holds d ss \<Longrightarrow> strictly_sorted ss \<Longrightarrow> ss \<noteq> [] \<Longrightarrow>
      ident d s = Some (map_option of_nat (position (\<lambda>t. t = s) ss))"
begin

lemma ident_get:
  assumes "holds d ss" "strictly_sorted ss" "ix < length ss"
  shows "\<exists>s. get d ix = Some (Some s) \<and> ident d s = Some (Some (of_nat ix))"
proof -
  from assms(1,3) have "get d ix = Some (Some (ss ! ix))"
    using get [of d ss ix] len_bound [of d ss] by simp
  moreover have "position (\<lambda>t. t = ss ! ix) ss = Some ix"
    using assms(2,3) by (intro position_distinct strictly_sorted_distinct) simp_all
  moreover from assms(3) have "ss \<noteq> []" by auto
  ultimately show ?thesis using ident [OF assms(1,2)] by simp
qed

lemma get_ident:
  assumes "holds d ss" "strictly_sorted ss" "ss \<noteq> []" "ident d s = Some (Some k)"
  shows "get d (unat k) = Some (Some s) \<and> unat k < len d"
proof -
  from assms(4) ident [OF assms(1-3), of s] obtain i where i: "position (\<lambda>t. t = s) ss = Some i"
    "k = of_nat i" by auto
  then have "i < length ss" "ss ! i = s" by (simp_all add: position_Some_iff)
  moreover from this len_bound [OF assms(1)] i(2) have "unat k = i"
    by (simp add: unat_of_nat_u64)
  ultimately show ?thesis using get [OF assms(1), of i] len [OF assms(1)] len_bound [OF assms(1)] by simp
qed

lemma ident_None:
  assumes "holds d ss" "strictly_sorted ss" "ss \<noteq> []"
  shows "ident d s = Some None \<longleftrightarrow> s \<notin> set ss"
proof -
  have "position (\<lambda>t. t = s) ss = None \<longleftrightarrow> s \<notin> set ss"
    by (induction ss) auto
  with ident [OF assms] show ?thesis by simp
qed

end

sublocale big_endian \<subseteq> pfc: string_dictionary pd_wf PfcDict_len "PfcDict_get bo sz" "PfcDict_id bo sz"
  for sz
  by unfold_locales
    (simp_all add: PfcDict_len_def pd_wf_length [simplified] PfcDict_get_eq PfcDict_id_eq)

context big_endian
begin

lemmas PfcDict_id_get = pfc.ident_get

text \<open>On a dictionary without strings, the file after the strings reads as an empty string.\<close>

lemma PfcDict_id_empty:
  assumes "pd_wf d []"
  shows "PfcDict_id bo sz d s = Some (if s = [] then Some 0 else None)"
proof -
  from assms obtain rest where d: "pd_blocks d = 0 # rest" "pd_n_strings d = 0"
    "LogArray_len (pd_block_offsets d) = 0"
    by (auto simp: pd_wf_def LogArray_len_def unsigned_eq_0_iff)
  let ?b = "\<lparr>pb_encoded_strings = 0 # rest, pb_n_strings = 0\<rparr>"
  have search: "id_search bo d s 0 0 = Some (if s = [] then Inl (Some 0) else Inr 0)"
    using d by (subst id_search.simps)
      (simp add: PfcDict_block_offset_def slice_def id_search.simps [of bo d s "Suc 0" 0])
  have block: "PfcDict_block_for_id bo d 0 = Some ?b"
    using d by (simp add: PfcDict_block_for_id_def PfcDict_block_offset_def
        PfcBlock_parse_incomplete_def unwrap_def)
  have "id_scan sz s 0 0 (PfcBlock_entries ?b) = Some None" if "s \<noteq> []"
    using that
    by (simp add: id_scan.simps [of sz s 0 0] id_scan.simps [of sz s 0 "Suc 0"] PfcBlock_entries_def
        PfcBlock_block_entries_def PfcDictEntryIterator_next_def PfcBlockEntryIterator_next_def
        PfcBlock_head_def slice_def PfcDictEntry_buf_eq_def Let_def)
  with search block d show ?thesis by (simp add: PfcDict_id_def)
qed

end

section \<open>Properties\<close>

text \<open>The dictionary that the builder writes for a list of strings, loaded again.\<close>

definition build_dict :: "byteorder \<Rightarrow> bytes list \<Rightarrow> (bytes \<times> PfcDict) panics" where
  "build_dict bo ss =
    do { (_, b) \<leftarrow> PfcDictFileBuilder_add_all (PfcDictFileBuilder_new [] []) ss;
         r \<leftarrow> PfcDictFileBuilder_finalize bo b;
         (blocks, offsets) \<leftarrow> unwrap r;
         d \<leftarrow> PfcDict_parse bo blocks offsets \<bind> unwrap;
         Some (blocks, d) }"

lemma build_dict_wf:
  assumes "big_endian bo" "dict_ok ss"
  obtains pad d where "build_dict bo ss =
    Some (enc_from ss 0 @ replicate pad 0 @ to_be_bytes (of_nat (length ss)), d)" "pd_wf d ss"
proof -
  from add_all_new [OF dict_ok_str_ok [OF assms(2)]] obtain b where
    b: "PfcDictFileBuilder_add_all (PfcDictFileBuilder_new [] []) ss =
      Some (map of_nat [1..<length ss + 1], b)" "pfb_inv b ss" .
  from big_endian.finalize_parse [OF assms(1) b(2) assms(2)] obtain pad offsets d where
    "PfcDictFileBuilder_finalize bo b =
      Some (Inr (enc_from ss 0 @ replicate pad 0 @ to_be_bytes (of_nat (length ss)), offsets))"
    "PfcDict_parse bo (enc_from ss 0 @ replicate pad 0 @ to_be_bytes (of_nat (length ss))) offsets =
      Some (Inr d)" "pd_wf d ss" by metis
  with b(1) that [of pad d] show ?thesis by (simp add: build_dict_def unwrap_def)
qed

text \<open>
  C34. A dictionary built from a list of strings and loaded again has all of them in
  order: \<open>strings\<close> lists them, \<open>get\<close> returns each at its position and nothing beyond, and
  \<open>entry\<close> returns an entry with its bytes. The strings may be in any order, but without null
  bytes.
\<close>

theorem PfcDict_roundtrip:
  assumes "big_endian bo" "dict_ok ss"
  shows "\<exists>blocks d. build_dict bo ss = Some (blocks, d) \<and> PfcDict_len d = length ss \<and>
    PfcDict_strings bo d = Some ss \<and>
    (\<forall>ix<2 ^ 64. PfcDict_get bo sz d ix = Some (if ix < length ss then Some (ss ! ix) else None)) \<and>
    (\<forall>ix<length ss. \<exists>e. PfcDict_entry bo sz d ix = Some (Some e) \<and> PfcDictEntry_to_bytes e = ss ! ix)"
proof -
  from build_dict_wf [OF assms] obtain pad d where
    "build_dict bo ss = Some (enc_from ss 0 @ replicate pad 0 @ to_be_bytes (of_nat (length ss)), d)"
    and wf: "pd_wf d ss" .
  with big_endian.PfcDict_get_eq [OF assms(1) wf] big_endian.PfcDict_strings_eq [OF assms(1) wf]
    big_endian.PfcDict_entry_eq [OF assms(1) wf] pd_wf_length(2) [OF wf] show ?thesis
    unfolding PfcDict_len_def by blast
qed

definition sample :: "bytes list" where
  "sample = [[97], [97, 98], [97, 98, 99], [98]]"

lemma sample_ok: "dict_ok sample" "strictly_sorted sample" "sample \<noteq> []"
  by (simp_all add: dict_ok_def sample_def)

theorem PfcDict_roundtrip_witness:
  "\<exists>blocks d. build_dict byteorder_std sample = Some (blocks, d) \<and> PfcDict_len d = length sample \<and>
    PfcDict_strings byteorder_std d = Some sample \<and>
    (\<forall>ix<2 ^ 64. PfcDict_get byteorder_std 32 d ix =
      Some (if ix < length sample then Some (sample ! ix) else None)) \<and>
    (\<forall>ix<length sample. \<exists>e. PfcDict_entry byteorder_std 32 d ix = Some (Some e) \<and>
      PfcDictEntry_to_bytes e = sample ! ix)"
  by (rule PfcDict_roundtrip [OF std.big_endian_axioms sample_ok(1)])

text \<open>
  C35. In a dictionary of strictly sorted strings, \<open>id\<close> finds exactly the strings that are
  in it: the binary search over the heads of the blocks and the scan of a block return the
  position of the string, and \<open>None\<close> for every other string. \<open>get\<close> and \<open>id\<close> are inverse.
\<close>

theorem PfcDict_id_correct:
  assumes "big_endian bo" "dict_ok ss" "strictly_sorted ss" "ss \<noteq> []"
  shows "\<exists>blocks d. build_dict bo ss = Some (blocks, d) \<and>
    (\<forall>s. PfcDict_id bo sz d s = Some (map_option of_nat (position (\<lambda>t. t = s) ss))) \<and>
    (\<forall>ix<length ss. \<exists>s. PfcDict_get bo sz d ix = Some (Some s) \<and>
      PfcDict_id bo sz d s = Some (Some (of_nat ix)))"
proof -
  from build_dict_wf [OF assms(1,2)] obtain pad d where
    "build_dict bo ss = Some (enc_from ss 0 @ replicate pad 0 @ to_be_bytes (of_nat (length ss)), d)"
    and wf: "pd_wf d ss" .
  with big_endian.PfcDict_id_eq [OF assms(1) wf assms(3,4)]
    big_endian.PfcDict_id_get [OF assms(1) wf assms(3)] show ?thesis by blast
qed

theorem PfcDict_id_correct_witness:
  "\<exists>blocks d. build_dict byteorder_std sample = Some (blocks, d) \<and>
    (\<forall>s. PfcDict_id byteorder_std 32 d s = Some (map_option of_nat (position (\<lambda>t. t = s) sample))) \<and>
    (\<forall>ix<length sample. \<exists>s. PfcDict_get byteorder_std 32 d ix = Some (Some s) \<and>
      PfcDict_id byteorder_std 32 d s = Some (Some (of_nat ix)))"
  by (rule PfcDict_id_correct [OF std.big_endian_axioms sample_ok])

text \<open>
  C39. \<open>id\<close> on a dictionary without strings: it reports the empty string at position 0,
  where \<open>get\<close> returns nothing, and does not find any other string.
\<close>

theorem PfcDict_id_empty_dict:
  assumes "big_endian bo"
  shows "\<exists>blocks d. build_dict bo [] = Some (blocks, d) \<and>
    (\<forall>s. PfcDict_id bo sz d s = Some (if s = [] then Some 0 else None)) \<and>
    PfcDict_get bo sz d 0 = Some None"
proof -
  have "dict_ok []" by (simp add: dict_ok_def)
  from build_dict_wf [OF assms this] obtain pad d where
    "build_dict bo [] = Some (enc_from [] 0 @ replicate pad 0 @
      to_be_bytes (of_nat (length ([] :: bytes list))), d)" and wf: "pd_wf d []" .
  with big_endian.PfcDict_id_empty [OF assms wf] big_endian.PfcDict_get_eq [OF assms wf, of 0] show ?thesis
    by simp
qed

theorem PfcDict_id_empty_dict_witness:
  "\<exists>blocks d. build_dict byteorder_std [] = Some (blocks, d) \<and>
    (\<forall>s. PfcDict_id byteorder_std 32 d s = Some (if s = [] then Some 0 else None)) \<and>
    PfcDict_get byteorder_std 32 d 0 = Some None"
  by (rule PfcDict_id_empty_dict [OF std.big_endian_axioms])

text \<open>
  C36. The entries of a dictionary compare as their strings do: the piecewise comparison is
  the lexicographic order of the bytes, equality is equality of the bytes, and comparing
  with a buffer is comparing with its bytes. It does not panic on entries whose last piece is
  not empty, which are the entries of a strictly sorted dictionary.
\<close>

theorem PfcDictEntry_compares:
  assumes "pde_wf e" "pde_wf f"
  shows "PfcDictEntry_cmp e f = Some (compare (PfcDictEntry_to_bytes e) (PfcDictEntry_to_bytes f)) \<and>
    PfcDictEntry_eq e f = Some (PfcDictEntry_to_bytes e = PfcDictEntry_to_bytes f) \<and>
    PfcDictEntry_buf_eq e b = Some (PfcDictEntry_to_bytes e = b)"
proof -
  have "PfcDictEntry_len e = PfcDictEntry_len f" if "PfcDictEntry_to_bytes e = PfcDictEntry_to_bytes f"
    using that by (metis PfcDictEntry_len_concat to_bytes_concat)
  then show ?thesis
    using cmp_wf [OF assms] buf_eq_wf [OF assms(1), of b]
    by (auto simp: PfcDictEntry_eq_def simp del: to_bytes_concat PfcDictEntry_len_concat)
qed

theorem PfcDictEntry_compares_witness:
  "PfcDictEntry_cmp (PfcDictEntry [[97], [], [98, 99]]) (PfcDictEntry [[97, 98], [100]]) = Some Less \<and>
    PfcDictEntry_buf_eq (PfcDictEntry [[97], [], [98, 99]]) [97, 98, 99] = Some True"
  using PfcDictEntry_compares [of "PfcDictEntry [[97], [], [98, 99]]" "PfcDictEntry [[97, 98], [100]]"
      "[97, 98, 99]"]
  by (simp add: pde_wf_def pieces_ok_def compare_def)

text \<open>
  C38. Streaming the blocks file of a dictionary yields its strings, up to the first string
  that the decoder mistakes for the end: an empty head of a block, or inside a block a common
  prefix whose length is a positive multiple of 128. When there is none, and no other prefix
  length has a null byte in its encoding, the stream has all the strings, numbered from the
  offset.
\<close>

theorem dict_reader_stream_correct:
  assumes "big_endian bo" "dict_ok ss" "framed_strings_ok framed" "m \<le> length ss"
    and "\<forall>i<m. stream_passes ss i" and "m < length ss \<longrightarrow> stream_stops ss m"
  shows "\<exists>blocks d. build_dict bo ss = Some (blocks, d) \<and>
    dict_reader_to_stream framed blocks = map Inr (take m ss) \<and>
    dict_reader_to_indexed_stream framed blocks offset =
      map (\<lambda>i. Inr (of_nat (i + 1) + offset, ss ! i)) [0..<m] \<and>
    dict_file_get_count bo blocks = Some (of_nat (length ss))"
proof -
  from build_dict_wf [OF assms(1,2)] obtain pad d where
    b: "build_dict bo ss = Some (enc_from ss 0 @ replicate pad 0 @ to_be_bytes (of_nat (length ss)), d)"
    by metis
  let ?f = "enc_from ss 0 @ replicate pad 0 @ to_be_bytes (of_nat (length ss))"
  note s = stream_until [OF assms(2-6), of pad]
  have "dict_reader_to_indexed_stream framed ?f offset =
      map (\<lambda>i. Inr (of_nat (i + 1) + offset, ss ! i)) [0..<m]"
    unfolding dict_reader_to_indexed_stream_def s using assms(4)
    by (intro nth_equalityI) (simp_all add: nth_enumerate_eq)
  moreover have "dict_file_get_count bo ?f = Some (of_nat (length ss))"
    by (simp add: dict_file_get_count_def big_endian.read_u64_exact [OF assms(1)])
  ultimately show ?thesis using b s by blast
qed

definition framed_strings_std :: framed_strings where
  "framed_strings_std d f = (case decode_strings d f of
     Some (ss, []) \<Rightarrow> map Inr ss | Some (ss, rest) \<Rightarrow> map Inr ss @ [Inl Other] | None \<Rightarrow> [Inl Other])"

lemma framed_strings_std_ok: "framed_strings_ok framed_strings_std"
  by (simp add: framed_strings_ok_def framed_strings_std_def)

text \<open>Two strings with a common prefix of 128 bytes: the stream has only the first.\<close>

definition long_sample :: "bytes list" where
  "long_sample = [replicate 128 97, replicate 128 97 @ [98]]"

lemma utf8_valid_replicate: "utf8_valid (replicate n 97 @ s) = utf8_valid s"
  by (induction n) simp_all

lemma find_common_prefix_append: "find_common_prefix xs (xs @ ys) = length xs"
proof (rule antisym)
  show "find_common_prefix xs (xs @ ys) \<le> length xs" by (rule find_common_prefix_le)
  show "length xs \<le> find_common_prefix xs (xs @ ys)"
    by (rule find_common_prefix_ge) simp_all
qed

theorem dict_reader_stream_correct_witness:
  "\<exists>blocks d. build_dict byteorder_std long_sample = Some (blocks, d) \<and>
    dict_reader_to_stream framed_strings_std blocks = map Inr (take 1 long_sample) \<and>
    dict_reader_to_indexed_stream framed_strings_std blocks 5 =
      map (\<lambda>i. Inr (of_nat (i + 1) + 5, long_sample ! i)) [0..<1] \<and>
    dict_file_get_count byteorder_std blocks = Some (of_nat (length long_sample))"
proof (rule dict_reader_stream_correct [OF std.big_endian_axioms _ framed_strings_std_ok])
  show "dict_ok long_sample"
    using utf8_valid_replicate [of 128 "[]"] utf8_valid_replicate [of 128 "[98]"]
    by (simp add: dict_ok_def long_sample_def)
  show "1 < length long_sample \<longrightarrow> stream_stops long_sample 1"
    using find_common_prefix_append [of "replicate 128 97" "[98]"]
    by (simp add: stream_stops_def common_at_def long_sample_def)
qed (simp_all add: long_sample_def stream_passes_def)

lemma dict_ok_mset: "mset xs = mset ys \<Longrightarrow> dict_ok xs \<longleftrightarrow> dict_ok ys"
proof -
  assume eq: "mset xs = mset ys"
  then have "sum_list (map length xs) = sum_list (map length ys)"
    by (metis mset_map sum_mset_sum_list)
  then show ?thesis using mset_eq_length [OF eq] mset_eq_setD [OF eq] by (simp add: dict_ok_def)
qed

text \<open>
  C37. Merging dictionaries of strictly sorted strings writes a dictionary that holds all
  the strings of all of them in sorted order.
\<close>

theorem merge_dictionaries_correct:
  assumes "big_endian bo" "list_all2 pd_wf ds sss" "\<forall>ss\<in>set sss. strictly_sorted ss"
    and "dict_ok (concat sss)"
  shows "\<exists>blocks offsets d out. merge_dictionaries bo sz ds = Some (Inr (blocks, offsets)) \<and>
    PfcDict_parse bo blocks offsets = Some (Inr d) \<and> PfcDict_strings bo d = Some out \<and>
    sorted out \<and> mset out = mset (concat sss)"
proof -
  have ex: "\<exists>es. PfcDict_entries bo sz d = Some es \<and> map PfcDictEntry_to_bytes es = ss \<and> list_all pde_wf es"
    if "pd_wf d ss" "strictly_sorted ss" for d ss
    using big_endian.PfcDict_entries_eq [OF assms(1) that(1)] strictly_sorted_postfixes [OF that(2)] by blast
  have "\<exists>ess. those (map (PfcDict_entries bo sz) ds) = Some ess \<and> map (map PfcDictEntry_to_bytes) ess = sss \<and>
      (\<forall>es\<in>set ess. list_all pde_wf es)"
    using assms(2,3)
  proof (induction ds sss rule: list_all2_induct)
    case (Cons d ds ss sss)
    from Cons.prems Cons.IH obtain ess where "those (map (PfcDict_entries bo sz) ds) = Some ess"
      "map (map PfcDictEntry_to_bytes) ess = sss" "\<forall>es\<in>set ess. list_all pde_wf es" by auto
    moreover from ex [OF Cons.hyps(1)] Cons.prems obtain es where
      "PfcDict_entries bo sz d = Some es" "map PfcDictEntry_to_bytes es = ss" "list_all pde_wf es" by auto
    ultimately show ?case
      by (intro exI [of _ "es # ess"]) (simp del: to_bytes_concat)
  qed simp
  then obtain ess where ess: "those (map (PfcDict_entries bo sz) ds) = Some ess"
    "map (map PfcDictEntry_to_bytes) ess = sss" "\<forall>es\<in>set ess. list_all pde_wf es" by blast
  have "compares_by {e. pde_wf e} PfcDictEntry_to_bytes PfcDictEntry_cmp"
    by (auto simp: compares_by_def cmp_wf compare_def simp del: to_bytes_concat)
  moreover have "\<forall>es\<in>set ess. set es \<subseteq> {e. pde_wf e} \<and> sorted (map PfcDictEntry_to_bytes es)"
    using ess(2,3) assms(3) by (auto simp: list_all_iff strict_sorted_iff simp del: to_bytes_concat)
  ultimately obtain out where out: "sorted_iterator ess (pick_min PfcDictEntry_cmp) = Some out"
    "sorted (map PfcDictEntry_to_bytes out)" "mset out = mset (concat ess)"
    using SortedIterator_collect_merges [of _ PfcDictEntry_to_bytes PfcDictEntry_cmp ess]
    unfolding sorted_iterator_def by blast
  let ?out = "map PfcDictEntry_to_bytes out"
  have perm: "mset ?out = mset (concat sss)"
    unfolding ess(2) [symmetric] map_concat [symmetric] mset_map out(3) ..
  from dict_ok_mset [OF perm] assms(4) have ok: "dict_ok ?out" by blast
  from add_all_new [OF dict_ok_str_ok [OF ok]] obtain b where
    b: "PfcDictFileBuilder_add_all (PfcDictFileBuilder_new [] []) ?out =
      Some (map of_nat [1..<length ?out + 1], b)" "pfb_inv b ?out" .
  from big_endian.finalize_parse [OF assms(1) b(2) ok] obtain blocks offsets d where
    d: "PfcDictFileBuilder_finalize bo b = Some (Inr (blocks, offsets))"
      "PfcDict_parse bo blocks offsets = Some (Inr d)" "pd_wf d ?out" by metis
  have "merge_dictionaries bo sz ds = Some (Inr (blocks, offsets))"
    using ess(1) out(1) b(1) d(1)
    by (simp add: merge_dictionaries_def add_all_entries_eq del: to_bytes_concat)
  then show ?thesis
    using d(2) big_endian.PfcDict_strings_eq [OF assms(1) d(3)] out(2) perm by (intro exI conjI)
qed

theorem merge_dictionaries_correct_witness:
  "\<exists>d1 d2. (\<exists>blocks1 blocks2. build_dict byteorder_std sample = Some (blocks1, d1) \<and>
      build_dict byteorder_std [[99]] = Some (blocks2, d2)) \<and>
    (\<exists>blocks offsets d out. merge_dictionaries byteorder_std 32 [d1, d2] = Some (Inr (blocks, offsets)) \<and>
      PfcDict_parse byteorder_std blocks offsets = Some (Inr d) \<and>
      PfcDict_strings byteorder_std d = Some out \<and>
      sorted out \<and> mset out = mset (concat [sample, [[99]]]))"
proof -
  have ok: "dict_ok [[99]]" "dict_ok (concat [sample, [[99]]])"
    by (simp_all add: dict_ok_def sample_def)
  from build_dict_wf [OF std.big_endian_axioms sample_ok(1)] obtain blocks1 d1 where
    1: "build_dict byteorder_std sample = Some (blocks1, d1)" "pd_wf d1 sample" by metis
  from build_dict_wf [OF std.big_endian_axioms ok(1)] obtain blocks2 d2 where
    2: "build_dict byteorder_std [[99]] = Some (blocks2, d2)" "pd_wf d2 [[99]]" by metis
  show ?thesis
    using 1 2 merge_dictionaries_correct [OF std.big_endian_axioms, of "[d1, d2]" "[sample, [[99]]]" 32]
      sample_ok(2) ok(2) by simp
qed


end
