(* ===== verification/Layer.thy ===== *)
theory Layer
  imports AdjacencyList WaveletTree PfcDictionary
begin

text \<open>
  Layers (\<open>src/layer/layer.rs\<close>, \<open>src/layer/id_map.rs\<close> and the layer types of
  \<open>src/layer/internal\<close>): triples of ids and of strings, the id maps of rolled-up layers, the
  stack of a base layer and its children, and the translation between strings and ids over
  that stack.

  A layer is a value that holds its parent, as the sources hold it by reference; layers are
  never changed. The name of a layer is an array of five \<open>u32\<close>, here a tuple.
\<close>

section \<open>Triples\<close>

type_synonym layer_name = "u32 \<times> u32 \<times> u32 \<times> u32 \<times> u32"

datatype ObjectType = Node bytes | Value bytes

datatype IdTriple = IdTriple (it_subject: u64) (it_predicate: u64) (it_object: u64)

datatype StringTriple =
  StringTriple (st_subject: bytes) (st_predicate: bytes) (st_object: ObjectType)

datatype 'a PossiblyResolved = Unresolved 'a | Resolved u64

datatype PartiallyResolvedTriple =
  PartiallyResolvedTriple (pr_subject: "bytes PossiblyResolved")
    (pr_predicate: "bytes PossiblyResolved") (pr_object: "ObjectType PossiblyResolved")

record LayerCounts =
  lc_node_count :: usize
  lc_predicate_count :: usize
  lc_value_count :: usize

text \<open>The derived order of triples: subject, then predicate, then object.\<close>

instantiation IdTriple :: linorder
begin

definition less_eq_IdTriple :: "IdTriple \<Rightarrow> IdTriple \<Rightarrow> bool" where
  "s \<le> t \<longleftrightarrow> it_subject s < it_subject t \<or> it_subject s = it_subject t \<and>
    (it_predicate s < it_predicate t \<or> it_predicate s = it_predicate t \<and> it_object s \<le> it_object t)"

definition less_IdTriple :: "IdTriple \<Rightarrow> IdTriple \<Rightarrow> bool" where
  "s < t \<longleftrightarrow> it_subject s < it_subject t \<or> it_subject s = it_subject t \<and>
    (it_predicate s < it_predicate t \<or> it_predicate s = it_predicate t \<and> it_object s < it_object t)"

instance
  by standard (auto simp: less_eq_IdTriple_def less_IdTriple_def IdTriple.expand)

end

definition IdTriple_to_resolved :: "IdTriple \<Rightarrow> PartiallyResolvedTriple" where
  "IdTriple_to_resolved self =
    PartiallyResolvedTriple (Resolved (it_subject self)) (Resolved (it_predicate self))
      (Resolved (it_object self))"

definition StringTriple_new_node :: "bytes \<Rightarrow> bytes \<Rightarrow> bytes \<Rightarrow> StringTriple" where
  "StringTriple_new_node subject predicate object = StringTriple subject predicate (Node object)"

definition StringTriple_new_value :: "bytes \<Rightarrow> bytes \<Rightarrow> bytes \<Rightarrow> StringTriple" where
  "StringTriple_new_value subject predicate object = StringTriple subject predicate (Value object)"

definition StringTriple_to_unresolved :: "StringTriple \<Rightarrow> PartiallyResolvedTriple" where
  "StringTriple_to_unresolved self =
    PartiallyResolvedTriple (Unresolved (st_subject self)) (Unresolved (st_predicate self))
      (Unresolved (st_object self))"

fun PossiblyResolved_is_resolved :: "'a PossiblyResolved \<Rightarrow> bool" where
  "PossiblyResolved_is_resolved (Unresolved _) = False"
| "PossiblyResolved_is_resolved (Resolved _) = True"

fun PossiblyResolved_unwrap_unresolved :: "'a PossiblyResolved \<Rightarrow> 'a panics" where
  "PossiblyResolved_unwrap_unresolved (Unresolved u) = Some u"
| "PossiblyResolved_unwrap_unresolved (Resolved _) = None"

fun PossiblyResolved_unwrap_resolved :: "'a PossiblyResolved \<Rightarrow> u64 panics" where
  "PossiblyResolved_unwrap_resolved (Unresolved _) = None"
| "PossiblyResolved_unwrap_resolved (Resolved i) = Some i"

text \<open>The \<open>?\<close> on a missing key makes the whole result \<open>None\<close>.\<close>

definition PartiallyResolvedTriple_resolve_with ::
  "PartiallyResolvedTriple \<Rightarrow> (bytes \<rightharpoonup> u64) \<Rightarrow> (bytes \<rightharpoonup> u64) \<Rightarrow> (bytes \<rightharpoonup> u64) \<Rightarrow> IdTriple option" where
  "PartiallyResolvedTriple_resolve_with self node_map predicate_map value_map =
    do { subject \<leftarrow> (case pr_subject self of Unresolved s \<Rightarrow> node_map s | Resolved i \<Rightarrow> Some i);
         predicate \<leftarrow> (case pr_predicate self of Unresolved p \<Rightarrow> predicate_map p | Resolved i \<Rightarrow> Some i);
         object \<leftarrow> (case pr_object self of
                     Unresolved (Node n) \<Rightarrow> node_map n
                   | Unresolved (Value v) \<Rightarrow> value_map v
                   | Resolved i \<Rightarrow> Some i);
         Some (IdTriple subject predicate object) }"

definition PartiallyResolvedTriple_as_resolved :: "PartiallyResolvedTriple \<Rightarrow> IdTriple option panics" where
  "PartiallyResolvedTriple_as_resolved self =
    (if \<not> PossiblyResolved_is_resolved (pr_subject self)
        \<or> \<not> PossiblyResolved_is_resolved (pr_predicate self)
        \<or> \<not> PossiblyResolved_is_resolved (pr_object self)
     then Some None
     else do { s \<leftarrow> PossiblyResolved_unwrap_resolved (pr_subject self);
               p \<leftarrow> PossiblyResolved_unwrap_resolved (pr_predicate self);
               ob \<leftarrow> PossiblyResolved_unwrap_resolved (pr_object self);
               Some (Some (IdTriple s p ob)) })"

definition PartiallyResolvedTriple_make_resolved_or_zero ::
  "PartiallyResolvedTriple \<Rightarrow> PartiallyResolvedTriple" where
  "PartiallyResolvedTriple_make_resolved_or_zero self =
    (if \<not> PossiblyResolved_is_resolved (pr_subject self)
        \<or> \<not> PossiblyResolved_is_resolved (pr_predicate self)
        \<or> \<not> PossiblyResolved_is_resolved (pr_object self)
     then PartiallyResolvedTriple (Resolved 0) (Resolved 0) (Resolved 0)
     else self)"

section \<open>Id maps\<close>

datatype IdMap = IdMap (id_wtree: "WaveletTree option")

definition IdMap_default :: IdMap where
  "IdMap_default = IdMap None"

definition IdMap_from_maps :: "byteorder \<Rightarrow> bytes \<times> bytes \<times> bytes \<Rightarrow> u8 \<Rightarrow> IdMap panics" where
  "IdMap_from_maps bo maps width =
    (case maps of (bits_map, blocks_map, sblocks_map) \<Rightarrow>
       do { bitindex \<leftarrow> BitIndex_from_maps bo bits_map blocks_map sblocks_map;
            id_wtree \<leftarrow> WaveletTree_from_parts bitindex width;
            Some (IdMap (Some id_wtree)) })"

definition IdMap_outer_to_inner :: "byteorder \<Rightarrow> IdMap \<Rightarrow> u64 \<Rightarrow> u64 panics" where
  "IdMap_outer_to_inner bo self i =
    (case id_wtree self of
       None \<Rightarrow> Some i
     | Some wtree \<Rightarrow>
         if i \<ge> of_nat (WaveletTree_len wtree) then Some i
         else do { r \<leftarrow> WaveletTree_lookup_one bo wtree i; r })"

definition IdMap_inner_to_outer :: "byteorder \<Rightarrow> IdMap \<Rightarrow> u64 \<Rightarrow> u64 panics" where
  "IdMap_inner_to_outer bo self i =
    (case id_wtree self of
       None \<Rightarrow> Some i
     | Some wtree \<Rightarrow>
         if i \<ge> of_nat (WaveletTree_len wtree) then Some i
         else WaveletTree_decode_one bo wtree (unat i))"

section \<open>The stack of layers\<close>

record BaseLayer =
  bl_name :: layer_name
  bl_node_dictionary :: PfcDict
  bl_predicate_dictionary :: PfcDict
  bl_value_dictionary :: PfcDict
  bl_node_value_idmap :: IdMap
  bl_predicate_idmap :: IdMap
  bl_subjects :: "MonotonicLogArray option"
  bl_objects :: "MonotonicLogArray option"
  bl_s_p_adjacency_list :: AdjacencyList
  bl_sp_o_adjacency_list :: AdjacencyList
  bl_o_ps_adjacency_list :: AdjacencyList
  bl_predicate_wavelet_tree :: WaveletTree

datatype InternalLayer =
    Base BaseLayer
  | Child ChildLayer
  | Rollup RollupLayer
and ChildLayer =
  ChildLayer
    (cl_name: layer_name)
    (cl_parent: InternalLayer)
    (cl_node_dictionary: PfcDict)
    (cl_predicate_dictionary: PfcDict)
    (cl_value_dictionary: PfcDict)
    (cl_node_value_idmap: IdMap)
    (cl_predicate_idmap: IdMap)
    (cl_parent_node_value_count: usize)
    (cl_parent_predicate_count: usize)
    (cl_pos_subjects: MonotonicLogArray)
    (cl_pos_objects: MonotonicLogArray)
    (cl_pos_s_p_adjacency_list: AdjacencyList)
    (cl_pos_sp_o_adjacency_list: AdjacencyList)
    (cl_pos_o_ps_adjacency_list: AdjacencyList)
    (cl_neg_subjects: MonotonicLogArray)
    (cl_neg_objects: MonotonicLogArray)
    (cl_neg_s_p_adjacency_list: AdjacencyList)
    (cl_neg_sp_o_adjacency_list: AdjacencyList)
    (cl_neg_o_ps_adjacency_list: AdjacencyList)
    (cl_pos_predicate_wavelet_tree: WaveletTree)
    (cl_neg_predicate_wavelet_tree: WaveletTree)
and RollupLayer =
  RollupLayer
    (rl_internal: InternalLayer)
    (rl_original: layer_name)
    (rl_original_parent: "layer_name option")

definition RollupLayer_from_base_layer ::
  "InternalLayer \<Rightarrow> layer_name \<Rightarrow> layer_name option \<Rightarrow> RollupLayer" where
  "RollupLayer_from_base_layer l original original_parent = RollupLayer l original original_parent"

definition RollupLayer_from_child_layer ::
  "InternalLayer \<Rightarrow> layer_name \<Rightarrow> layer_name \<Rightarrow> RollupLayer" where
  "RollupLayer_from_child_layer l original original_parent =
    RollupLayer l original (Some original_parent)"

fun InternalLayer_name :: "InternalLayer \<Rightarrow> layer_name" where
  "InternalLayer_name (Base b) = bl_name b"
| "InternalLayer_name (Child c) = cl_name c"
| "InternalLayer_name (Rollup r) = rl_original r"

fun InternalLayer_parent_name :: "InternalLayer \<Rightarrow> layer_name option" where
  "InternalLayer_parent_name (Base _) = None"
| "InternalLayer_parent_name (Child c) = Some (InternalLayer_name (cl_parent c))"
| "InternalLayer_parent_name (Rollup r) = rl_original_parent r"

fun InternalLayer_immediate_parent :: "InternalLayer \<Rightarrow> InternalLayer option" where
  "InternalLayer_immediate_parent (Base _) = None"
| "InternalLayer_immediate_parent (Child c) = Some (cl_parent c)"
| "InternalLayer_immediate_parent (Rollup (RollupLayer internal _ _)) =
    InternalLayer_immediate_parent internal"

fun InternalLayer_node_dictionary :: "InternalLayer \<Rightarrow> PfcDict" where
  "InternalLayer_node_dictionary (Base b) = bl_node_dictionary b"
| "InternalLayer_node_dictionary (Child c) = cl_node_dictionary c"
| "InternalLayer_node_dictionary (Rollup (RollupLayer internal _ _)) =
    InternalLayer_node_dictionary internal"

fun InternalLayer_predicate_dictionary :: "InternalLayer \<Rightarrow> PfcDict" where
  "InternalLayer_predicate_dictionary (Base b) = bl_predicate_dictionary b"
| "InternalLayer_predicate_dictionary (Child c) = cl_predicate_dictionary c"
| "InternalLayer_predicate_dictionary (Rollup (RollupLayer internal _ _)) =
    InternalLayer_predicate_dictionary internal"

fun InternalLayer_value_dictionary :: "InternalLayer \<Rightarrow> PfcDict" where
  "InternalLayer_value_dictionary (Base b) = bl_value_dictionary b"
| "InternalLayer_value_dictionary (Child c) = cl_value_dictionary c"
| "InternalLayer_value_dictionary (Rollup (RollupLayer internal _ _)) =
    InternalLayer_value_dictionary internal"

fun InternalLayer_node_value_id_map :: "InternalLayer \<Rightarrow> IdMap" where
  "InternalLayer_node_value_id_map (Base b) = bl_node_value_idmap b"
| "InternalLayer_node_value_id_map (Child c) = cl_node_value_idmap c"
| "InternalLayer_node_value_id_map (Rollup (RollupLayer internal _ _)) =
    InternalLayer_node_value_id_map internal"

fun InternalLayer_predicate_id_map :: "InternalLayer \<Rightarrow> IdMap" where
  "InternalLayer_predicate_id_map (Base b) = bl_predicate_idmap b"
| "InternalLayer_predicate_id_map (Child c) = cl_predicate_idmap c"
| "InternalLayer_predicate_id_map (Rollup (RollupLayer internal _ _)) =
    InternalLayer_predicate_id_map internal"

fun InternalLayer_parent_node_value_count :: "InternalLayer \<Rightarrow> usize" where
  "InternalLayer_parent_node_value_count (Base _) = 0"
| "InternalLayer_parent_node_value_count (Child c) = cl_parent_node_value_count c"
| "InternalLayer_parent_node_value_count (Rollup (RollupLayer internal _ _)) =
    InternalLayer_parent_node_value_count internal"

fun InternalLayer_parent_predicate_count :: "InternalLayer \<Rightarrow> usize" where
  "InternalLayer_parent_predicate_count (Base _) = 0"
| "InternalLayer_parent_predicate_count (Child c) = cl_parent_predicate_count c"
| "InternalLayer_parent_predicate_count (Rollup (RollupLayer internal _ _)) =
    InternalLayer_parent_predicate_count internal"

fun InternalLayer_pos_s_p_adjacency_list :: "InternalLayer \<Rightarrow> AdjacencyList" where
  "InternalLayer_pos_s_p_adjacency_list (Base b) = bl_s_p_adjacency_list b"
| "InternalLayer_pos_s_p_adjacency_list (Child c) = cl_pos_s_p_adjacency_list c"
| "InternalLayer_pos_s_p_adjacency_list (Rollup (RollupLayer internal _ _)) =
    InternalLayer_pos_s_p_adjacency_list internal"

fun InternalLayer_pos_sp_o_adjacency_list :: "InternalLayer \<Rightarrow> AdjacencyList" where
  "InternalLayer_pos_sp_o_adjacency_list (Base b) = bl_sp_o_adjacency_list b"
| "InternalLayer_pos_sp_o_adjacency_list (Child c) = cl_pos_sp_o_adjacency_list c"
| "InternalLayer_pos_sp_o_adjacency_list (Rollup (RollupLayer internal _ _)) =
    InternalLayer_pos_sp_o_adjacency_list internal"

fun InternalLayer_pos_o_ps_adjacency_list :: "InternalLayer \<Rightarrow> AdjacencyList" where
  "InternalLayer_pos_o_ps_adjacency_list (Base b) = bl_o_ps_adjacency_list b"
| "InternalLayer_pos_o_ps_adjacency_list (Child c) = cl_pos_o_ps_adjacency_list c"
| "InternalLayer_pos_o_ps_adjacency_list (Rollup (RollupLayer internal _ _)) =
    InternalLayer_pos_o_ps_adjacency_list internal"

fun InternalLayer_neg_s_p_adjacency_list :: "InternalLayer \<Rightarrow> AdjacencyList option" where
  "InternalLayer_neg_s_p_adjacency_list (Base _) = None"
| "InternalLayer_neg_s_p_adjacency_list (Child c) = Some (cl_neg_s_p_adjacency_list c)"
| "InternalLayer_neg_s_p_adjacency_list (Rollup (RollupLayer internal _ _)) =
    InternalLayer_neg_s_p_adjacency_list internal"

fun InternalLayer_neg_sp_o_adjacency_list :: "InternalLayer \<Rightarrow> AdjacencyList option" where
  "InternalLayer_neg_sp_o_adjacency_list (Base _) = None"
| "InternalLayer_neg_sp_o_adjacency_list (Child c) = Some (cl_neg_sp_o_adjacency_list c)"
| "InternalLayer_neg_sp_o_adjacency_list (Rollup (RollupLayer internal _ _)) =
    InternalLayer_neg_sp_o_adjacency_list internal"

fun InternalLayer_neg_o_ps_adjacency_list :: "InternalLayer \<Rightarrow> AdjacencyList option" where
  "InternalLayer_neg_o_ps_adjacency_list (Base _) = None"
| "InternalLayer_neg_o_ps_adjacency_list (Child c) = Some (cl_neg_o_ps_adjacency_list c)"
| "InternalLayer_neg_o_ps_adjacency_list (Rollup (RollupLayer internal _ _)) =
    InternalLayer_neg_o_ps_adjacency_list internal"

fun InternalLayer_pos_predicate_wavelet_tree :: "InternalLayer \<Rightarrow> WaveletTree" where
  "InternalLayer_pos_predicate_wavelet_tree (Base b) = bl_predicate_wavelet_tree b"
| "InternalLayer_pos_predicate_wavelet_tree (Child c) = cl_pos_predicate_wavelet_tree c"
| "InternalLayer_pos_predicate_wavelet_tree (Rollup (RollupLayer internal _ _)) =
    InternalLayer_pos_predicate_wavelet_tree internal"

fun InternalLayer_neg_predicate_wavelet_tree :: "InternalLayer \<Rightarrow> WaveletTree option" where
  "InternalLayer_neg_predicate_wavelet_tree (Base _) = None"
| "InternalLayer_neg_predicate_wavelet_tree (Child c) = Some (cl_neg_predicate_wavelet_tree c)"
| "InternalLayer_neg_predicate_wavelet_tree (Rollup (RollupLayer internal _ _)) =
    InternalLayer_neg_predicate_wavelet_tree internal"

fun InternalLayer_pos_subjects :: "InternalLayer \<Rightarrow> MonotonicLogArray option" where
  "InternalLayer_pos_subjects (Base b) = bl_subjects b"
| "InternalLayer_pos_subjects (Child c) = Some (cl_pos_subjects c)"
| "InternalLayer_pos_subjects (Rollup (RollupLayer internal _ _)) =
    InternalLayer_pos_subjects internal"

fun InternalLayer_pos_objects :: "InternalLayer \<Rightarrow> MonotonicLogArray option" where
  "InternalLayer_pos_objects (Base b) = bl_objects b"
| "InternalLayer_pos_objects (Child c) = Some (cl_pos_objects c)"
| "InternalLayer_pos_objects (Rollup (RollupLayer internal _ _)) =
    InternalLayer_pos_objects internal"

fun InternalLayer_neg_subjects :: "InternalLayer \<Rightarrow> MonotonicLogArray option" where
  "InternalLayer_neg_subjects (Base _) = None"
| "InternalLayer_neg_subjects (Child c) = Some (cl_neg_subjects c)"
| "InternalLayer_neg_subjects (Rollup (RollupLayer internal _ _)) =
    InternalLayer_neg_subjects internal"

fun InternalLayer_neg_objects :: "InternalLayer \<Rightarrow> MonotonicLogArray option" where
  "InternalLayer_neg_objects (Base _) = None"
| "InternalLayer_neg_objects (Child c) = Some (cl_neg_objects c)"
| "InternalLayer_neg_objects (Rollup (RollupLayer internal _ _)) =
    InternalLayer_neg_objects internal"

text \<open>The dictionaries of the layer alone.\<close>

definition InternalLayer_predicate_dict_get :: "byteorder \<Rightarrow> usize \<Rightarrow> InternalLayer \<Rightarrow> usize \<Rightarrow> bytes option panics" where
  "InternalLayer_predicate_dict_get bo sz self i = PfcDict_get bo sz (InternalLayer_predicate_dictionary self) i"

definition InternalLayer_predicate_dict_len :: "InternalLayer \<Rightarrow> usize" where
  "InternalLayer_predicate_dict_len self = PfcDict_len (InternalLayer_predicate_dictionary self)"

definition InternalLayer_predicate_dict_id :: "byteorder \<Rightarrow> usize \<Rightarrow> InternalLayer \<Rightarrow> bytes \<Rightarrow> u64 option panics" where
  "InternalLayer_predicate_dict_id bo sz self predicate =
    PfcDict_id bo sz (InternalLayer_predicate_dictionary self) predicate"

definition InternalLayer_node_dict_id :: "byteorder \<Rightarrow> usize \<Rightarrow> InternalLayer \<Rightarrow> bytes \<Rightarrow> u64 option panics" where
  "InternalLayer_node_dict_id bo sz self subject = PfcDict_id bo sz (InternalLayer_node_dictionary self) subject"

definition InternalLayer_node_dict_get :: "byteorder \<Rightarrow> usize \<Rightarrow> InternalLayer \<Rightarrow> usize \<Rightarrow> bytes option panics" where
  "InternalLayer_node_dict_get bo sz self i = PfcDict_get bo sz (InternalLayer_node_dictionary self) i"

definition InternalLayer_node_dict_len :: "InternalLayer \<Rightarrow> usize" where
  "InternalLayer_node_dict_len self = PfcDict_len (InternalLayer_node_dictionary self)"

definition InternalLayer_value_dict_id :: "byteorder \<Rightarrow> usize \<Rightarrow> InternalLayer \<Rightarrow> bytes \<Rightarrow> u64 option panics" where
  "InternalLayer_value_dict_id bo sz self value = PfcDict_id bo sz (InternalLayer_value_dictionary self) value"

definition InternalLayer_value_dict_len :: "InternalLayer \<Rightarrow> usize" where
  "InternalLayer_value_dict_len self = PfcDict_len (InternalLayer_value_dictionary self)"

definition InternalLayer_value_dict_get :: "byteorder \<Rightarrow> usize \<Rightarrow> InternalLayer \<Rightarrow> usize \<Rightarrow> bytes option panics" where
  "InternalLayer_value_dict_get bo sz self i = PfcDict_get bo sz (InternalLayer_value_dictionary self) i"

definition InternalLayer_node_and_value_count :: "InternalLayer \<Rightarrow> usize" where
  "InternalLayer_node_and_value_count self =
    InternalLayer_parent_node_value_count self
      + PfcDict_len (InternalLayer_node_dictionary self)
      + PfcDict_len (InternalLayer_value_dictionary self)"

definition InternalLayer_predicate_count :: "InternalLayer \<Rightarrow> usize" where
  "InternalLayer_predicate_count self =
    InternalLayer_parent_predicate_count self + PfcDict_len (InternalLayer_predicate_dictionary self)"

fun InternalLayer_is_rollup :: "InternalLayer \<Rightarrow> bool" where
  "InternalLayer_is_rollup (Rollup _) = True"
| "InternalLayer_is_rollup _ = False"

section \<open>Walking the stack\<close>

text \<open>The parent is a smaller layer, so every walk to the base ends.\<close>

lemma immediate_parent_size [termination_simp]:
  "InternalLayer_immediate_parent l = Some p \<Longrightarrow> size p < size l"
proof (induction l rule: InternalLayer_immediate_parent.induct)
  case (2 c)
  then show ?case by (cases c) auto
qed auto

function layers_from :: "InternalLayer \<Rightarrow> InternalLayer list" where
  "layers_from l = l # (case InternalLayer_immediate_parent l of None \<Rightarrow> [] | Some p \<Rightarrow> layers_from p)"
  by pat_completeness auto
termination
  by (relation "measure size") (auto simp: immediate_parent_size)

declare layers_from.simps [simp del]

definition InternalLayer_immediate_layers :: "InternalLayer \<Rightarrow> InternalLayer list" where
  "InternalLayer_immediate_layers self = rev (layers_from self)"

function layers_upto :: "InternalLayer \<Rightarrow> layer_name \<Rightarrow> InternalLayer list panics" where
  "layers_upto l upto_layer_id =
    (if InternalLayer_name l = upto_layer_id then Some []
     else case InternalLayer_immediate_parent l of
            None \<Rightarrow> None
          | Some p \<Rightarrow> map_option ((#) l) (layers_upto p upto_layer_id))"
  by pat_completeness auto
termination
  by (relation "measure (size \<circ> fst)") (auto simp: immediate_parent_size)

declare layers_upto.simps [simp del]

definition InternalLayer_immediate_layers_upto :: "InternalLayer \<Rightarrow> layer_name \<Rightarrow> InternalLayer list panics" where
  "InternalLayer_immediate_layers_upto self upto_layer_id =
    do { rust_assert (InternalLayer_name self \<noteq> upto_layer_id);
         result \<leftarrow> layers_upto self upto_layer_id;
         Some (rev result) }"

text \<open>The counts over the layer and all its parents, in the order of the walk.\<close>

function counts_from :: "InternalLayer option \<Rightarrow> LayerCounts \<Rightarrow> LayerCounts" where
  "counts_from None c = c"
| "counts_from (Some p) c =
    counts_from (InternalLayer_immediate_parent p)
      \<lparr>lc_node_count = lc_node_count c + InternalLayer_node_dict_len p,
       lc_predicate_count = lc_predicate_count c + InternalLayer_predicate_dict_len p,
       lc_value_count = lc_value_count c + InternalLayer_value_dict_len p\<rparr>"
  by pat_completeness auto
termination
  by (relation "measure (\<lambda>(l, c). case l of None \<Rightarrow> 0 | Some p \<Rightarrow> Suc (size p))")
    (auto simp: immediate_parent_size split: option.split)

definition InternalLayer_all_counts :: "InternalLayer \<Rightarrow> LayerCounts" where
  "InternalLayer_all_counts self =
    counts_from (InternalLayer_immediate_parent self)
      \<lparr>lc_node_count = InternalLayer_node_dict_len self,
       lc_predicate_count = InternalLayer_predicate_dict_len self,
       lc_value_count = InternalLayer_value_dict_len self\<rparr>"

section \<open>Strings to ids\<close>

text \<open>
  The loop of the four lookups by string: \<open>look\<close> is the closure \<open>to_result\<close>, and the walk
  stops at the first layer that has the string.
\<close>

function lookup_walk ::
  "(InternalLayer \<Rightarrow> u64 option panics) \<Rightarrow> InternalLayer \<Rightarrow> (u64 option \<times> InternalLayer option) panics" where
  "lookup_walk look l =
    do { r \<leftarrow> look l;
         case (r, InternalLayer_immediate_parent l) of
           (None, Some p) \<Rightarrow> lookup_walk look p
         | result \<Rightarrow> Some result }"
  by pat_completeness auto
termination
  by (relation "measure (size \<circ> snd)") (auto simp: immediate_parent_size)

declare lookup_walk.simps [simp del]

definition id_above_parent ::
  "(InternalLayer \<Rightarrow> usize) \<Rightarrow> (u64 option \<times> InternalLayer option) panics \<Rightarrow> u64 option panics" where
  "id_above_parent cnt result =
    map_option (\<lambda>(id_option, parent_option).
      map_option (\<lambda>i. 1 + i + (case parent_option of None \<Rightarrow> 0 | Some p \<Rightarrow> of_nat (cnt p))) id_option) result"

text \<open>\<open>Option::map\<close> with a function that may panic.\<close>

definition omap :: "('a \<Rightarrow> 'b panics) \<Rightarrow> 'a option \<Rightarrow> 'b option panics" where
  "omap f x = (case x of None \<Rightarrow> Some None | Some y \<Rightarrow> map_option Some (f y))"

definition InternalLayer_subject_id :: "byteorder \<Rightarrow> usize \<Rightarrow> InternalLayer \<Rightarrow> bytes \<Rightarrow> u64 option panics" where
  "InternalLayer_subject_id bo sz self subject =
    id_above_parent InternalLayer_node_and_value_count
      (lookup_walk (\<lambda>l. do { r \<leftarrow> InternalLayer_node_dict_id bo sz l subject;
                            omap (IdMap_inner_to_outer bo (InternalLayer_node_value_id_map l)) r }) self)"

definition InternalLayer_predicate_id :: "byteorder \<Rightarrow> usize \<Rightarrow> InternalLayer \<Rightarrow> bytes \<Rightarrow> u64 option panics" where
  "InternalLayer_predicate_id bo sz self predicate =
    id_above_parent InternalLayer_predicate_count
      (lookup_walk (\<lambda>l. do { r \<leftarrow> InternalLayer_predicate_dict_id bo sz l predicate;
                            omap (IdMap_inner_to_outer bo (InternalLayer_predicate_id_map l)) r }) self)"

definition InternalLayer_object_node_id :: "byteorder \<Rightarrow> usize \<Rightarrow> InternalLayer \<Rightarrow> bytes \<Rightarrow> u64 option panics" where
  "InternalLayer_object_node_id bo sz self object =
    id_above_parent InternalLayer_node_and_value_count
      (lookup_walk (\<lambda>l. do { r \<leftarrow> InternalLayer_node_dict_id bo sz l object;
                            omap (IdMap_inner_to_outer bo (InternalLayer_node_value_id_map l)) r }) self)"

definition InternalLayer_object_value_id :: "byteorder \<Rightarrow> usize \<Rightarrow> InternalLayer \<Rightarrow> bytes \<Rightarrow> u64 option panics" where
  "InternalLayer_object_value_id bo sz self object =
    id_above_parent InternalLayer_node_and_value_count
      (lookup_walk (\<lambda>l. do { r \<leftarrow> InternalLayer_value_dict_id bo sz l object;
                            omap (\<lambda>i. IdMap_inner_to_outer bo (InternalLayer_node_value_id_map l)
                                        (i + of_nat (InternalLayer_node_dict_len l))) r }) self)"

section \<open>Ids to strings\<close>

text \<open>
  The loop of the three lookups by id: the layer that holds the id, and the id within it.
  \<open>own\<close> is the number of entries of the layer alone.
\<close>

function locate_id ::
  "(InternalLayer \<Rightarrow> u64) \<Rightarrow> u64 \<Rightarrow> u64 \<Rightarrow> InternalLayer \<Rightarrow> InternalLayer \<times> u64" where
  "locate_id own corrected_id parent_count l =
    (case InternalLayer_immediate_parent l of
       None \<Rightarrow> (l, corrected_id)
     | Some parent \<Rightarrow>
         let parent_count = parent_count - own l in
         if corrected_id \<ge> parent_count then (l, corrected_id - parent_count)
         else locate_id own corrected_id parent_count parent)"
  by pat_completeness auto
termination
  by (relation "measure (\<lambda>(own, i, c, l). size l)") (auto simp: immediate_parent_size)

declare locate_id.simps [simp del]

definition own_nodes_and_values :: "InternalLayer \<Rightarrow> u64" where
  "own_nodes_and_values l =
    of_nat (InternalLayer_node_dict_len l) + of_nat (InternalLayer_value_dict_len l)"

definition InternalLayer_id_subject :: "byteorder \<Rightarrow> usize \<Rightarrow> InternalLayer \<Rightarrow> u64 \<Rightarrow> bytes option panics" where
  "InternalLayer_id_subject bo sz self i =
    (if i = 0 then Some None
     else case locate_id own_nodes_and_values (i - 1) (of_nat (InternalLayer_node_and_value_count self)) self of
            (l, corrected_id) \<Rightarrow>
              do { inner \<leftarrow> IdMap_outer_to_inner bo (InternalLayer_node_value_id_map l) corrected_id;
                   InternalLayer_node_dict_get bo sz l (unat inner) })"

definition InternalLayer_id_predicate :: "byteorder \<Rightarrow> usize \<Rightarrow> InternalLayer \<Rightarrow> u64 \<Rightarrow> bytes option panics" where
  "InternalLayer_id_predicate bo sz self i =
    (if i = 0 then Some None
     else case locate_id (\<lambda>l. of_nat (InternalLayer_predicate_dict_len l)) (i - 1)
                 (of_nat (InternalLayer_predicate_count self)) self of
            (l, corrected_id) \<Rightarrow>
              do { inner \<leftarrow> IdMap_outer_to_inner bo (InternalLayer_predicate_id_map l) corrected_id;
                   InternalLayer_predicate_dict_get bo sz l (unat inner) })"

definition InternalLayer_id_object :: "byteorder \<Rightarrow> usize \<Rightarrow> InternalLayer \<Rightarrow> u64 \<Rightarrow> ObjectType option panics" where
  "InternalLayer_id_object bo sz self i =
    (if i = 0 then Some None
     else case locate_id own_nodes_and_values (i - 1) (of_nat (InternalLayer_node_and_value_count self)) self of
            (l, corrected_id) \<Rightarrow>
              do { inner \<leftarrow> IdMap_outer_to_inner bo (InternalLayer_node_value_id_map l) corrected_id;
                   if inner \<ge> of_nat (InternalLayer_node_dict_len l)
                   then map_option (map_option Value)
                          (InternalLayer_value_dict_get bo sz l
                            (unat (inner - of_nat (InternalLayer_node_dict_len l))))
                   else map_option (map_option Node)
                          (InternalLayer_node_dict_get bo sz l (unat inner)) })"

section \<open>Triples of strings\<close>

text \<open>The default methods of the trait \<open>Layer\<close>.\<close>

definition object_id :: "byteorder \<Rightarrow> usize \<Rightarrow> InternalLayer \<Rightarrow> ObjectType \<Rightarrow> u64 option panics" where
  "object_id bo sz self object =
    (case object of Node n \<Rightarrow> InternalLayer_object_node_id bo sz self n
     | Value v \<Rightarrow> InternalLayer_object_value_id bo sz self v)"

definition Layer_string_triple_to_id :: "byteorder \<Rightarrow> usize \<Rightarrow> InternalLayer \<Rightarrow> StringTriple \<Rightarrow> IdTriple option panics" where
  "Layer_string_triple_to_id bo sz self triple =
    do { s \<leftarrow> InternalLayer_subject_id bo sz self (st_subject triple);
         case s of None \<Rightarrow> Some None
         | Some subject \<Rightarrow>
             do { p \<leftarrow> InternalLayer_predicate_id bo sz self (st_predicate triple);
                  case p of None \<Rightarrow> Some None
                  | Some predicate \<Rightarrow>
                      do { ob \<leftarrow> object_id bo sz self (st_object triple);
                           Some (map_option (IdTriple subject predicate) ob) } } }"

definition resolve_or :: "'a \<Rightarrow> u64 option \<Rightarrow> 'a PossiblyResolved" where
  "resolve_or x r = (case r of Some i \<Rightarrow> Resolved i | None \<Rightarrow> Unresolved x)"

definition Layer_string_triple_to_partially_resolved ::
  "byteorder \<Rightarrow> usize \<Rightarrow> InternalLayer \<Rightarrow> StringTriple \<Rightarrow> PartiallyResolvedTriple panics" where
  "Layer_string_triple_to_partially_resolved bo sz self triple =
    do { s \<leftarrow> InternalLayer_subject_id bo sz self (st_subject triple);
         p \<leftarrow> InternalLayer_predicate_id bo sz self (st_predicate triple);
         ob \<leftarrow> object_id bo sz self (st_object triple);
         Some (PartiallyResolvedTriple (resolve_or (st_subject triple) s)
                 (resolve_or (st_predicate triple) p) (resolve_or (st_object triple) ob)) }"

definition Layer_id_triple_to_string ::
  "byteorder \<Rightarrow> usize \<Rightarrow> InternalLayer \<Rightarrow> IdTriple \<Rightarrow> StringTriple option panics" where
  "Layer_id_triple_to_string bo sz self triple =
    do { s \<leftarrow> InternalLayer_id_subject bo sz self (it_subject triple);
         case s of None \<Rightarrow> Some None
         | Some subject \<Rightarrow>
             do { p \<leftarrow> InternalLayer_id_predicate bo sz self (it_predicate triple);
                  case p of None \<Rightarrow> Some None
                  | Some predicate \<Rightarrow>
                      do { ob \<leftarrow> InternalLayer_id_object bo sz self (it_object triple);
                           Some (map_option (StringTriple subject predicate) ob) } } }"

end
