(* ===== verification/LayerIds.thy ===== *)
theory LayerIds
  imports Layer
begin

text \<open>
  The translation between strings and ids over a stack of layers is correct: an id map is a
  permutation of the ids of its layer, the walk down the stack finds the layer of a string,
  and the way back from an id finds the same layer and the same string.
\<close>

section \<open>Id maps\<close>

text \<open>\<open>idmap_wf m \<pi>\<close>: the map \<open>m\<close> takes the inner id \<open>i\<close> to the outer id \<open>\<pi> ! i\<close>.\<close>

definition idmap_wf :: "IdMap \<Rightarrow> nat list \<Rightarrow> bool" where
  "idmap_wf m \<pi> \<longleftrightarrow> distinct \<pi> \<and> set \<pi> = {..<length \<pi>} \<and>
    (case id_wtree m of None \<Rightarrow> \<pi> = [0..<length \<pi>] | Some t \<Rightarrow> wt_wf t \<pi>)"

lemma idmap_default_wf: "idmap_wf IdMap_default [0..<n]"
  by (auto simp: idmap_wf_def IdMap_default_def)

lemma idmap_wf_nth: "idmap_wf m \<pi> \<Longrightarrow> i < length \<pi> \<Longrightarrow> \<pi> ! i < length \<pi>"
  unfolding idmap_wf_def using nth_mem by blast

lemma idmap_None_nth:
  assumes "idmap_wf m \<pi>" "id_wtree m = None" "i < length \<pi>"
  shows "\<pi> ! i = i"
proof -
  from assms(1,2) have "\<pi> = [0..<length \<pi>]" by (simp add: idmap_wf_def)
  then have "\<pi> ! i = [0..<length \<pi>] ! i" by (rule arg_cong)
  with assms(3) show ?thesis by simp
qed

lemma select_distinct:
  "distinct xs \<Longrightarrow> i < length xs \<Longrightarrow> select_of (xs ! i) xs 1 = Some i"
  unfolding One_nat_def
proof (induction xs arbitrary: i)
  case (Cons x xs)
  then show ?case by (cases i) auto
qed simp

context big_endian
begin

lemma inner_to_outer_eq:
  assumes wf: "idmap_wf m \<pi>" and i: "unat i < length \<pi>"
  shows "IdMap_inner_to_outer bo m i = Some (of_nat (\<pi> ! unat i))"
proof (cases "id_wtree m")
  case None
  with wf i have "\<pi> ! unat i = unat i" by (intro idmap_None_nth)
  with None show ?thesis by (simp add: IdMap_inner_to_outer_def)
next
  case (Some t)
  with wf have t: "wt_wf t \<pi>" by (simp add: idmap_wf_def)
  then have "\<not> of_nat (WaveletTree_len t) \<le> i"
    using i wt_length [OF t] wt_wfD(6) [OF t] by (simp add: word_le_nat_alt unat_of_nat_u64)
  with Some WaveletTree_decode_one_eq [OF t i] show ?thesis by (simp add: IdMap_inner_to_outer_def)
qed

lemma outer_to_inner_eq:
  assumes wf: "idmap_wf m \<pi>" and i: "i < length \<pi>" and len: "length \<pi> < 2 ^ 64"
  shows "IdMap_outer_to_inner bo m (of_nat (\<pi> ! i)) = Some (of_nat i)"
proof (cases "id_wtree m")
  case None
  with wf i have "\<pi> ! i = i" by (intro idmap_None_nth)
  with None show ?thesis by (simp add: IdMap_outer_to_inner_def)
next
  case (Some t)
  with wf have t: "wt_wf t \<pi>" and d: "distinct \<pi>" by (simp_all add: idmap_wf_def)
  let ?o = "of_nat (\<pi> ! i) :: u64"
  have o: "unat ?o = \<pi> ! i" "\<pi> ! i < length \<pi>"
    using idmap_wf_nth [OF wf i] len by (simp_all add: unat_of_nat_u64)
  then have "\<not> of_nat (WaveletTree_len t) \<le> ?o"
    using wt_length [OF t] wt_wfD(6) [OF t] by (simp add: word_le_nat_alt unat_of_nat_u64)
  moreover have "WaveletTree_lookup_one bo t ?o = Some (Some (of_nat i))"
    using WaveletTree_lookup_eq [OF t, of ?o] o i wt_wfD(4) [OF t] select_distinct [OF d i]
      WaveletLookup_entry_eq [OF t, of "\<pi> ! i" _ ?o 0] length_pos_if_in_set [OF nth_mem [OF i]]
    by (simp add: WaveletTree_lookup_one_def)
  ultimately show ?thesis using Some by (simp add: IdMap_outer_to_inner_def)
qed

end

section \<open>Stacks of layers\<close>

lemma layers_from_Cons:
  "layers_from l = l # (case InternalLayer_immediate_parent l of None \<Rightarrow> [] | Some p \<Rightarrow> layers_from p)"
  by (rule layers_from.simps)

lemma self_in_layers_from [simp]: "l \<in> set (layers_from l)"
  by (subst layers_from.simps) simp

lemma layers_from_parent:
  "InternalLayer_immediate_parent l = Some p \<Longrightarrow> set (layers_from l) = insert l (set (layers_from p))"
  by (subst layers_from.simps) simp

lemma layer_induct [case_names layer]:
  assumes "\<And>l. (\<And>p. InternalLayer_immediate_parent l = Some p \<Longrightarrow> P p) \<Longrightarrow> P l"
  shows "P l"
  by (induction l rule: measure_induct_rule [of size]) (blast intro: assms immediate_parent_size)

text \<open>
  \<open>cnt\<close> counts the entries of a layer and all its parents, \<open>own\<close> those of the layer alone.
\<close>

definition counted :: "(InternalLayer \<Rightarrow> nat) \<Rightarrow> (InternalLayer \<Rightarrow> nat) \<Rightarrow> InternalLayer \<Rightarrow> bool" where
  "counted cnt own l \<longleftrightarrow> cnt l < 2 ^ 64 \<and> (\<forall>k\<in>set (layers_from l).
    cnt k = own k + (case InternalLayer_immediate_parent k of None \<Rightarrow> 0 | Some p \<Rightarrow> cnt p))"

lemma counted_parent:
  assumes "counted cnt own l" "InternalLayer_immediate_parent l = Some p"
  shows "counted cnt own p" "cnt l = own l + cnt p"
proof -
  from assms show e: "cnt l = own l + cnt p" unfolding counted_def by (metis option.simps(5) self_in_layers_from)
  with assms show "counted cnt own p" by (auto simp: counted_def layers_from_parent)
qed

lemma counted_le:
  assumes "counted cnt own l" "k \<in> set (layers_from l)"
  shows "cnt k \<le> cnt l"
  using assms
proof (induction l rule: layer_induct)
  case (layer l)
  show ?case
  proof (cases "InternalLayer_immediate_parent l")
    case None
    with layer.prems show ?thesis by (simp add: layers_from_Cons [of l])
  next
    case (Some p)
    with layer.prems(2) have "k = l \<or> k \<in> set (layers_from p)" by (simp add: layers_from_parent)
    with layer.IH [OF Some counted_parent(1) [OF layer.prems(1) Some]]
      counted_parent(2) [OF layer.prems(1) Some] show ?thesis by auto
  qed
qed

text \<open>The walk down finds the first layer with the string, and the way back finds it again.\<close>

lemma lookup_walk_found:
  assumes "counted cnt own l" and "lookup_walk look l = Some (Some i, po)"
  shows "\<exists>k\<in>set (layers_from l). look k = Some (Some i) \<and> po = InternalLayer_immediate_parent k \<and>
    (unat i < own k \<longrightarrow>
      locate_id (\<lambda>l. of_nat (own l)) (i + of_nat (case po of None \<Rightarrow> 0 | Some p \<Rightarrow> cnt p))
        (of_nat (cnt l)) l = (k, i))"
  using assms
proof (induction l rule: layer_induct)
  case (layer l)
  note cnt = layer.prems(1)
  have lt: "cnt l < 2 ^ 64" using cnt unfolding counted_def by blast
  from layer.prems(2) obtain r where r: "look l = Some r" by (subst (asm) lookup_walk.simps) (auto split: bind_splits)
  show ?case
  proof (cases "InternalLayer_immediate_parent l")
    case None
    with layer.prems(2) r have "look l = Some (Some i)" "po = None"
      by (subst (asm) lookup_walk.simps, simp split: option.splits)+
    with None show ?thesis by (auto simp: locate_id.simps [of _ _ _ l] intro!: bexI [of _ l])
  next
    case (Some p)
    note cp = counted_parent [OF cnt Some]
    have sub: "(of_nat (cnt l) :: u64) - of_nat (own l) = of_nat (cnt p)" using cp(2) by simp
    show ?thesis
    proof (cases r)
      case None
      with Some r layer.prems(2) have "lookup_walk look p = Some (Some i, po)"
        by (subst (asm) lookup_walk.simps) simp
      from layer.IH [OF Some cp(1) this] obtain k where k: "k \<in> set (layers_from p)"
        "look k = Some (Some i)" "po = InternalLayer_immediate_parent k"
        "unat i < own k \<longrightarrow> locate_id (\<lambda>l. of_nat (own l))
          (i + of_nat (case po of None \<Rightarrow> 0 | Some p \<Rightarrow> cnt p)) (of_nat (cnt p)) p = (k, i)" by blast
      have "locate_id (\<lambda>l. of_nat (own l)) (i + of_nat (case po of None \<Rightarrow> 0 | Some p \<Rightarrow> cnt p))
          (of_nat (cnt l)) l = (k, i)" if "unat i < own k"
      proof -
        let ?c = "case po of None \<Rightarrow> 0 | Some p \<Rightarrow> cnt p"
        have "cnt k = own k + ?c" using cp(1) k(1,3) by (simp add: counted_def)
        with counted_le [OF cp(1) k(1)] that have lt': "unat i + ?c < cnt p" by simp
        then have "unat (i + of_nat ?c) = unat i + ?c"
          using cp(2) lt by (simp add: unat_word_ariths unat_of_nat_u64)
        with lt' have "\<not> of_nat (cnt p) \<le> i + of_nat ?c"
          using cp(2) lt by (simp add: word_le_nat_alt unat_of_nat_u64)
        with Some sub k(4) that show ?thesis by (simp add: locate_id.simps [of _ _ _ l])
      qed
      with k Some show ?thesis by (auto simp: layers_from_parent)
    next
      case (Some j)
      with r layer.prems(2) have "j = i" "po = InternalLayer_immediate_parent l"
        by (subst (asm) lookup_walk.simps, simp split: option.splits)+
      moreover have "locate_id (\<lambda>l. of_nat (own l)) (i + of_nat (cnt p)) (of_nat (cnt l)) l = (l, i)"
        if "unat i < own l"
      proof -
        have "unat (i + of_nat (cnt p)) = unat i + cnt p"
          using that cp(2) lt by (simp add: unat_word_ariths unat_of_nat_u64)
        then have "of_nat (cnt p) \<le> i + of_nat (cnt p)"
          using cp(2) lt by (simp add: word_le_nat_alt unat_of_nat_u64)
        with \<open>InternalLayer_immediate_parent l = Some p\<close> sub show ?thesis
          by (simp add: locate_id.simps [of _ _ _ l])
      qed
      ultimately show ?thesis
        using r Some \<open>InternalLayer_immediate_parent l = Some p\<close> by (intro bexI [of _ l]) auto
    qed
  qed
qed

lemma lookup_walk_total:
  assumes "\<forall>k\<in>set (layers_from l). look k = Some (f k)"
  shows "\<exists>po r. lookup_walk look l = Some (r, po) \<and> (r = None \<longleftrightarrow> (\<forall>k\<in>set (layers_from l). f k = None))"
  using assms
proof (induction l rule: layer_induct)
  case (layer l)
  then have l: "look l = Some (f l)" by simp
  show ?case
  proof (cases "InternalLayer_immediate_parent l")
    case None
    with l show ?thesis
      by (subst lookup_walk.simps) (auto simp: layers_from_Cons [of l] split: option.split)
  next
    case (Some p)
    with layer.prems have p: "\<forall>k\<in>set (layers_from p). look k = Some (f k)"
      by (simp add: layers_from_parent)
    show ?thesis
    proof (cases "f l")
      case None
      with layer.IH [OF Some p] Some l show ?thesis
        by (subst lookup_walk.simps) (simp add: layers_from_parent)
    next
      case (Some i)
      with l \<open>InternalLayer_immediate_parent l = Some p\<close> show ?thesis
        by (subst lookup_walk.simps) (auto simp: layers_from_parent)
    qed
  qed
qed

text \<open>
  One kind of strings over a stack: \<open>xs k\<close> are the strings of the layer \<open>k\<close>, whose inner ids
  start at \<open>off k\<close> and go to outer ids by \<open>\<pi> k\<close>. The result is \<open>None\<close> only when no layer has
  the string; otherwise its id leads back to a layer that has the string at that place.
\<close>

lemma lookup_id_roundtrip:
  assumes cnt: "counted cnt own l"
    and look: "\<forall>k\<in>set (layers_from l). look k =
      Some (map_option (\<lambda>j. of_nat (\<pi> k ! (off k + j))) (position (\<lambda>t. t = s) (xs k)))"
    and \<pi>: "\<forall>k\<in>set (layers_from l). \<forall>j<length (xs k). \<pi> k ! (off k + j) < own k"
  shows "\<exists>r. id_above_parent cnt (lookup_walk look l) = Some r \<and>
    (r = None \<longleftrightarrow> (\<forall>k\<in>set (layers_from l). s \<notin> set (xs k))) \<and>
    (\<forall>i. r = Some i \<longrightarrow> i \<noteq> 0 \<and> unat i \<le> cnt l \<and>
      (\<exists>k\<in>set (layers_from l). \<exists>j<length (xs k). xs k ! j = s \<and>
        locate_id (\<lambda>l. of_nat (own l)) (i - 1) (of_nat (cnt l)) l = (k, of_nat (\<pi> k ! (off k + j)))))"
proof -
  let ?f = "\<lambda>k. map_option (\<lambda>j. of_nat (\<pi> k ! (off k + j)) :: u64) (position (\<lambda>t. t = s) (xs k))"
  from lookup_walk_total [OF look] obtain po r where
    w: "lookup_walk look l = Some (r, po)" "r = None \<longleftrightarrow> (\<forall>k\<in>set (layers_from l). ?f k = None)" by blast
  have absent: "?f k = None \<longleftrightarrow> s \<notin> set (xs k)" for k
  proof -
    have "position (\<lambda>t. t = s) ys = None \<longleftrightarrow> s \<notin> set ys" for ys by (induction ys) auto
    then show ?thesis by simp
  qed
  let ?c = "case po of None \<Rightarrow> 0 | Some p \<Rightarrow> cnt p"
  have res: "id_above_parent cnt (lookup_walk look l) = Some (map_option (\<lambda>i. 1 + i + of_nat ?c) r)"
    using w(1) by (cases po) (simp_all add: id_above_parent_def)
  have "i \<noteq> 0 \<and> unat i \<le> cnt l \<and> (\<exists>k\<in>set (layers_from l). \<exists>j<length (xs k). xs k ! j = s \<and>
        locate_id (\<lambda>l. of_nat (own l)) (i - 1) (of_nat (cnt l)) l = (k, of_nat (\<pi> k ! (off k + j))))"
    if "map_option (\<lambda>i. 1 + i + of_nat ?c) r = Some i" for i
  proof -
    from that obtain i' where i': "r = Some i'" "i = 1 + i' + of_nat ?c" by auto
    from lookup_walk_found [OF cnt, of look i' po] w(1) i'(1) obtain k where
      k: "k \<in> set (layers_from l)" "look k = Some (Some i')" "po = InternalLayer_immediate_parent k"
        "unat i' < own k \<longrightarrow> locate_id (\<lambda>l. of_nat (own l)) (i' + of_nat ?c) (of_nat (cnt l)) l = (k, i')"
      by blast
    from k(1,2) look obtain j where j: "position (\<lambda>t. t = s) (xs k) = Some j"
      "i' = of_nat (\<pi> k ! (off k + j))" by auto
    then have j': "j < length (xs k)" "xs k ! j = s" by (simp_all add: position_Some_iff)
    have own: "own k + ?c = cnt k" using cnt k(1,3) by (simp add: counted_def)
    have lt: "cnt k \<le> cnt l" "cnt l < 2 ^ 64"
      using counted_le [OF cnt k(1)] cnt unfolding counted_def by blast+
    have "\<pi> k ! (off k + j) < own k" using \<pi> k(1) j'(1) by blast
    with own lt j(2) have u: "unat i' < own k" by (simp add: unat_of_nat_u64)
    then have "unat (1 + i' + of_nat ?c) = 1 + unat i' + ?c"
      using own lt by (simp add: unat_word_ariths unat_of_nat_u64)
    then have "unat i = 1 + unat i' + ?c" by (simp add: i'(2))
    moreover from this have "i \<noteq> 0" by auto
    moreover have "i - 1 = i' + of_nat ?c" by (simp add: i'(2))
    ultimately show ?thesis using u own lt k j j' by auto
  qed
  with res w(2) absent show ?thesis by simp
qed

section \<open>Well-formed stacks\<close>

text \<open>What a layer holds: its strings, and its id maps as permutations.\<close>

record layer_view =
  lv_nodes :: "bytes list"
  lv_predicates :: "bytes list"
  lv_values :: "bytes list"
  lv_node_value_perm :: "nat list"
  lv_predicate_perm :: "nat list"

definition own_wf :: "InternalLayer \<Rightarrow> layer_view \<Rightarrow> bool" where
  "own_wf k v \<longleftrightarrow>
    pd_wf (InternalLayer_node_dictionary k) (lv_nodes v) \<and> strictly_sorted (lv_nodes v) \<and>
    pd_wf (InternalLayer_predicate_dictionary k) (lv_predicates v) \<and> strictly_sorted (lv_predicates v) \<and>
    pd_wf (InternalLayer_value_dictionary k) (lv_values v) \<and> strictly_sorted (lv_values v) \<and>
    idmap_wf (InternalLayer_node_value_id_map k) (lv_node_value_perm v) \<and>
    length (lv_node_value_perm v) = length (lv_nodes v) + length (lv_values v) \<and>
    idmap_wf (InternalLayer_predicate_id_map k) (lv_predicate_perm v) \<and>
    length (lv_predicate_perm v) = length (lv_predicates v)"

definition parent_counts_ok :: "InternalLayer \<Rightarrow> bool" where
  "parent_counts_ok k \<longleftrightarrow>
    InternalLayer_parent_node_value_count k =
      (case InternalLayer_immediate_parent k of None \<Rightarrow> 0 | Some p \<Rightarrow> InternalLayer_node_and_value_count p) \<and>
    InternalLayer_parent_predicate_count k =
      (case InternalLayer_immediate_parent k of None \<Rightarrow> 0 | Some p \<Rightarrow> InternalLayer_predicate_count p)"

definition layer_wf :: "InternalLayer \<Rightarrow> (InternalLayer \<Rightarrow> layer_view) \<Rightarrow> bool" where
  "layer_wf l V \<longleftrightarrow> (\<forall>k\<in>set (layers_from l). own_wf k (V k) \<and> parent_counts_ok k) \<and>
    InternalLayer_node_and_value_count l < 2 ^ 64 \<and> InternalLayer_predicate_count l < 2 ^ 64"

definition own_nv :: "InternalLayer \<Rightarrow> nat" where
  "own_nv k = InternalLayer_node_dict_len k + InternalLayer_value_dict_len k"

lemma own_nv_word: "(\<lambda>k. of_nat (own_nv k)) = own_nodes_and_values"
  by (simp add: fun_eq_iff own_nv_def own_nodes_and_values_def)

lemma layer_wf_counted:
  assumes "layer_wf l V"
  shows "counted InternalLayer_node_and_value_count own_nv l"
    and "counted InternalLayer_predicate_count InternalLayer_predicate_dict_len l"
  using assms
  by (auto simp: counted_def layer_wf_def parent_counts_ok_def own_nv_def
      InternalLayer_node_and_value_count_def [of k for k] InternalLayer_predicate_count_def [of k for k]
      InternalLayer_node_dict_len_def InternalLayer_value_dict_len_def
      InternalLayer_predicate_dict_len_def)

lemma own_wf_lens:
  assumes "own_wf k v"
  shows "InternalLayer_node_dict_len k = length (lv_nodes v)"
    "InternalLayer_value_dict_len k = length (lv_values v)"
    "InternalLayer_predicate_dict_len k = length (lv_predicates v)"
    "own_nv k = length (lv_node_value_perm v)"
proof -
  from assms have "pd_wf (InternalLayer_node_dictionary k) (lv_nodes v)"
    "pd_wf (InternalLayer_value_dictionary k) (lv_values v)"
    "pd_wf (InternalLayer_predicate_dictionary k) (lv_predicates v)" by (simp_all add: own_wf_def)
  from this [THEN pd_wf_length(2)] show "InternalLayer_node_dict_len k = length (lv_nodes v)"
    "InternalLayer_value_dict_len k = length (lv_values v)"
    "InternalLayer_predicate_dict_len k = length (lv_predicates v)"
    "own_nv k = length (lv_node_value_perm v)"
    using assms by (simp_all add: own_wf_def own_nv_def InternalLayer_node_dict_len_def
        InternalLayer_value_dict_len_def InternalLayer_predicate_dict_len_def PfcDict_len_def)
qed

context big_endian
begin

text \<open>The empty string apart, the lookup in a dictionary is the position in its strings.\<close>

lemma dict_id_position:
  assumes "pd_wf d ss" "strictly_sorted ss" "s \<noteq> []"
  shows "PfcDict_id bo sz d s = Some (map_option of_nat (position (\<lambda>t. t = s) ss))"
  using assms PfcDict_id_eq [OF assms(1,2)] PfcDict_id_empty [of d sz s] by (cases "ss = []") auto

lemma omap_position:
  assumes "\<And>j. j < length xs \<Longrightarrow> g (of_nat j) = Some (h j)"
  shows "omap g (map_option of_nat (position p xs)) = Some (map_option h (position p xs))"
proof (cases "position p xs")
  case (Some j)
  then have "j < length xs" by (simp add: position_Some_iff)
  with Some assms show ?thesis by (simp add: omap_def)
qed (simp add: omap_def)

text \<open>
  One kind of strings over the stack: \<open>D\<close> is the dictionary of a layer, \<open>M\<close> its id map and
  \<open>off\<close> the inner id of the first string.
\<close>

lemma kind_roundtrip:
  assumes cnt: "counted cnt own l" and s: "s \<noteq> []"
    and D: "\<And>k. k \<in> set (layers_from l) \<Longrightarrow> pd_wf (D k) (xs k) \<and> strictly_sorted (xs k) \<and>
      idmap_wf (M k) (\<pi> k) \<and> off k + length (xs k) \<le> length (\<pi> k) \<and> own k = length (\<pi> k)"
  shows "\<exists>r. id_above_parent cnt (lookup_walk (\<lambda>k. do { r \<leftarrow> PfcDict_id bo sz (D k) s;
        omap (\<lambda>i. IdMap_inner_to_outer bo (M k) (i + of_nat (off k))) r }) l) = Some r \<and>
    (r = None \<longleftrightarrow> (\<forall>k\<in>set (layers_from l). s \<notin> set (xs k))) \<and>
    (\<forall>i. r = Some i \<longrightarrow> i \<noteq> 0 \<and> unat i \<le> cnt l \<and>
      (\<exists>k\<in>set (layers_from l). \<exists>j c. locate_id (\<lambda>k. of_nat (own k)) (i - 1) (of_nat (cnt l)) l = (k, c) \<and>
        IdMap_outer_to_inner bo (M k) c = Some (of_nat (off k + j)) \<and>
        j < length (xs k) \<and> off k + length (xs k) < 2 ^ 64 \<and> PfcDict_get bo sz (D k) j = Some (Some s)))"
    (is "\<exists>r. id_above_parent cnt (lookup_walk ?look l) = Some r \<and> _ r \<and> (\<forall>i. r = Some i \<longrightarrow> ?back i)")
proof -
  have fits: "length (\<pi> k) < 2 ^ 64" if k: "k \<in> set (layers_from l)" for k
  proof -
    have "own k \<le> cnt k" using cnt k by (simp add: counted_def)
    also have "\<dots> \<le> cnt l" by (rule counted_le [OF cnt k])
    also have "\<dots> < 2 ^ 64" using cnt unfolding counted_def by blast
    finally show ?thesis using D [OF k] by simp
  qed
  have look: "\<forall>k\<in>set (layers_from l). ?look k =
      Some (map_option (\<lambda>j. of_nat (\<pi> k ! (off k + j))) (position (\<lambda>t. t = s) (xs k)))"
  proof
    fix k assume k: "k \<in> set (layers_from l)"
    note o = D [OF k]
    have "PfcDict_id bo sz (D k) s = Some (map_option of_nat (position (\<lambda>t. t = s) (xs k)))"
      using dict_id_position [OF _ _ s] o by blast
    moreover have "IdMap_inner_to_outer bo (M k) (of_nat j + of_nat (off k)) = Some (of_nat (\<pi> k ! (off k + j)))"
      if "j < length (xs k)" for j
    proof -
      have "(of_nat j + of_nat (off k) :: u64) = of_nat (off k + j)" by simp
      moreover have "off k + j < length (\<pi> k)" using o that by linarith
      ultimately show ?thesis
        using inner_to_outer_eq [of "M k" "\<pi> k" "of_nat (off k + j)"] o fits [OF k]
        by (simp add: unat_of_nat_u64 del: of_nat_add)
    qed
    ultimately show "?look k = Some (map_option (\<lambda>j. of_nat (\<pi> k ! (off k + j))) (position (\<lambda>t. t = s) (xs k)))"
      by (simp add: omap_position)
  qed
  have "\<forall>k\<in>set (layers_from l). \<forall>j<length (xs k). \<pi> k ! (off k + j) < own k"
  proof (intro ballI allI impI)
    fix k j assume k: "k \<in> set (layers_from l)" and "j < length (xs k)"
    with D [OF k] have "off k + j < length (\<pi> k)" by linarith
    with D [OF k] show "\<pi> k ! (off k + j) < own k" using idmap_wf_nth by metis
  qed
  from lookup_id_roundtrip [OF cnt look this] obtain r where
    r: "id_above_parent cnt (lookup_walk ?look l) = Some r"
      "r = None \<longleftrightarrow> (\<forall>k\<in>set (layers_from l). s \<notin> set (xs k))"
    and bk: "\<And>i. r = Some i \<Longrightarrow> i \<noteq> 0 \<and> unat i \<le> cnt l \<and>
      (\<exists>k\<in>set (layers_from l). \<exists>j<length (xs k). xs k ! j = s \<and>
        locate_id (\<lambda>l. of_nat (own l)) (i - 1) (of_nat (cnt l)) l = (k, of_nat (\<pi> k ! (off k + j))))" by blast
  have "?back i" if i: "r = Some i" for i
  proof -
    from bk [OF i] obtain k j where k: "k \<in> set (layers_from l)" and j: "j < length (xs k)" "xs k ! j = s"
      and loc: "locate_id (\<lambda>l. of_nat (own l)) (i - 1) (of_nat (cnt l)) l = (k, of_nat (\<pi> k ! (off k + j)))"
      by blast
    note o = D [OF k]
    have "IdMap_outer_to_inner bo (M k) (of_nat (\<pi> k ! (off k + j))) = Some (of_nat (off k + j))"
      using o j(1) fits [OF k] by (intro outer_to_inner_eq) auto
    moreover have "PfcDict_get bo sz (D k) j = Some (Some s)"
      using PfcDict_get_eq [of "D k" "xs k" j sz] o j fits [OF k] by simp
    moreover have "off k + length (xs k) < 2 ^ 64" using o fits [OF k] by simp
    ultimately show ?thesis using bk [OF i] k j(1) loc by blast
  qed
  with r show ?thesis by blast
qed

lemma subject_id_roundtrip:
  assumes wf: "layer_wf l V" and s: "s \<noteq> []"
  shows "\<exists>r. InternalLayer_subject_id bo sz l s = Some r \<and> InternalLayer_object_node_id bo sz l s = Some r \<and>
    (r = None \<longleftrightarrow> (\<forall>k\<in>set (layers_from l). s \<notin> set (lv_nodes (V k)))) \<and>
    (\<forall>i. r = Some i \<longrightarrow> i \<noteq> 0 \<and> unat i \<le> InternalLayer_node_and_value_count l \<and>
      InternalLayer_id_subject bo sz l i = Some (Some s) \<and>
      InternalLayer_id_object bo sz l i = Some (Some (Node s)))"
proof -
  have own: "own_wf k (V k)" if "k \<in> set (layers_from l)" for k
    using wf that by (simp add: layer_wf_def)
  have D: "pd_wf (InternalLayer_node_dictionary k) (lv_nodes (V k)) \<and> strictly_sorted (lv_nodes (V k)) \<and>
      idmap_wf (InternalLayer_node_value_id_map k) (lv_node_value_perm (V k)) \<and>
      0 + length (lv_nodes (V k)) \<le> length (lv_node_value_perm (V k)) \<and>
      own_nv k = length (lv_node_value_perm (V k))" if "k \<in> set (layers_from l)" for k
    using own [OF that] own_wf_lens(4) [OF own [OF that]] by (simp add: own_wf_def)
  from kind_roundtrip [OF layer_wf_counted(1) [OF wf] s, where off = "\<lambda>_. 0", OF D, of sz] obtain r where
    r: "InternalLayer_subject_id bo sz l s = Some r" "InternalLayer_object_node_id bo sz l s = Some r"
      "r = None \<longleftrightarrow> (\<forall>k\<in>set (layers_from l). s \<notin> set (lv_nodes (V k)))"
    and bk: "\<And>i. r = Some i \<Longrightarrow> i \<noteq> 0 \<and> unat i \<le> InternalLayer_node_and_value_count l \<and>
      (\<exists>k\<in>set (layers_from l). \<exists>j c. locate_id own_nodes_and_values (i - 1)
          (of_nat (InternalLayer_node_and_value_count l)) l = (k, c) \<and>
        IdMap_outer_to_inner bo (InternalLayer_node_value_id_map k) c = Some (of_nat j) \<and>
        j < length (lv_nodes (V k)) \<and> length (lv_nodes (V k)) < 2 ^ 64 \<and>
        PfcDict_get bo sz (InternalLayer_node_dictionary k) j = Some (Some s))"
    unfolding own_nv_word InternalLayer_subject_id_def InternalLayer_object_node_id_def
      InternalLayer_node_dict_id_def by auto
  have "InternalLayer_id_subject bo sz l i = Some (Some s) \<and>
      InternalLayer_id_object bo sz l i = Some (Some (Node s))" if i: "r = Some i" for i
  proof -
    from bk [OF i] obtain k j c where "i \<noteq> 0" and k: "k \<in> set (layers_from l)" and c: "locate_id own_nodes_and_values
        (i - 1) (of_nat (InternalLayer_node_and_value_count l)) l = (k, c)"
      "IdMap_outer_to_inner bo (InternalLayer_node_value_id_map k) c = Some (of_nat j)"
      and j: "j < length (lv_nodes (V k))" "length (lv_nodes (V k)) < 2 ^ 64"
        "PfcDict_get bo sz (InternalLayer_node_dictionary k) j = Some (Some s)" by blast
    moreover have "unat (of_nat j :: u64) = j" "(of_nat j :: u64) < of_nat (length (lv_nodes (V k)))"
      using j by (simp_all add: unat_of_nat_u64 word_less_nat_alt)
    ultimately show ?thesis
      using own_wf_lens(1) [OF own [OF k]]
      by (simp add: InternalLayer_id_subject_def InternalLayer_id_object_def InternalLayer_node_dict_get_def)
  qed
  with r bk show ?thesis by blast
qed

lemma object_value_id_roundtrip:
  assumes wf: "layer_wf l V" and s: "s \<noteq> []"
  shows "\<exists>r. InternalLayer_object_value_id bo sz l s = Some r \<and>
    (r = None \<longleftrightarrow> (\<forall>k\<in>set (layers_from l). s \<notin> set (lv_values (V k)))) \<and>
    (\<forall>i. r = Some i \<longrightarrow> i \<noteq> 0 \<and> unat i \<le> InternalLayer_node_and_value_count l \<and>
      InternalLayer_id_object bo sz l i = Some (Some (Value s)))"
proof -
  have own: "own_wf k (V k)" if "k \<in> set (layers_from l)" for k
    using wf that by (simp add: layer_wf_def)
  have D: "pd_wf (InternalLayer_value_dictionary k) (lv_values (V k)) \<and> strictly_sorted (lv_values (V k)) \<and>
      idmap_wf (InternalLayer_node_value_id_map k) (lv_node_value_perm (V k)) \<and>
      InternalLayer_node_dict_len k + length (lv_values (V k)) \<le> length (lv_node_value_perm (V k)) \<and>
      own_nv k = length (lv_node_value_perm (V k))" if "k \<in> set (layers_from l)" for k
    using own [OF that] own_wf_lens(1,4) [OF own [OF that]] by (simp add: own_wf_def)
  from kind_roundtrip [OF layer_wf_counted(1) [OF wf] s, where off = InternalLayer_node_dict_len, OF D, of sz]
  obtain r where r: "InternalLayer_object_value_id bo sz l s = Some r"
      "r = None \<longleftrightarrow> (\<forall>k\<in>set (layers_from l). s \<notin> set (lv_values (V k)))"
    and bk: "\<And>i. r = Some i \<Longrightarrow> i \<noteq> 0 \<and> unat i \<le> InternalLayer_node_and_value_count l \<and>
      (\<exists>k\<in>set (layers_from l). \<exists>j c. locate_id own_nodes_and_values (i - 1)
          (of_nat (InternalLayer_node_and_value_count l)) l = (k, c) \<and>
        IdMap_outer_to_inner bo (InternalLayer_node_value_id_map k) c =
          Some (of_nat (InternalLayer_node_dict_len k + j)) \<and>
        j < length (lv_values (V k)) \<and> InternalLayer_node_dict_len k + length (lv_values (V k)) < 2 ^ 64 \<and>
        PfcDict_get bo sz (InternalLayer_value_dictionary k) j = Some (Some s))"
    unfolding own_nv_word InternalLayer_object_value_id_def InternalLayer_value_dict_id_def by blast
  have "InternalLayer_id_object bo sz l i = Some (Some (Value s))" if i: "r = Some i" for i
  proof -
    from bk [OF i] obtain k j c where "i \<noteq> 0" and k: "k \<in> set (layers_from l)" and c: "locate_id own_nodes_and_values
        (i - 1) (of_nat (InternalLayer_node_and_value_count l)) l = (k, c)"
      "IdMap_outer_to_inner bo (InternalLayer_node_value_id_map k) c =
        Some (of_nat (InternalLayer_node_dict_len k + j))"
      and j: "j < length (lv_values (V k))" "InternalLayer_node_dict_len k + length (lv_values (V k)) < 2 ^ 64"
        "PfcDict_get bo sz (InternalLayer_value_dictionary k) j = Some (Some s)" by blast
    let ?n = "InternalLayer_node_dict_len k"
    have "of_nat ?n \<le> (of_nat (?n + j) :: u64)" using j by (simp add: word_le_nat_alt unat_of_nat_u64 del: of_nat_add)
    moreover have "(of_nat (?n + j) - of_nat ?n :: u64) = of_nat j" by simp
    moreover have "unat (of_nat j :: u64) = j" using j by (simp add: unat_of_nat_u64)
    ultimately show ?thesis
      using \<open>i \<noteq> 0\<close> c j(3)
      by (simp add: InternalLayer_id_object_def InternalLayer_value_dict_get_def del: of_nat_add)
  qed
  with r bk show ?thesis by blast
qed

lemma predicate_id_roundtrip:
  assumes wf: "layer_wf l V" and s: "s \<noteq> []"
  shows "\<exists>r. InternalLayer_predicate_id bo sz l s = Some r \<and>
    (r = None \<longleftrightarrow> (\<forall>k\<in>set (layers_from l). s \<notin> set (lv_predicates (V k)))) \<and>
    (\<forall>i. r = Some i \<longrightarrow> i \<noteq> 0 \<and> unat i \<le> InternalLayer_predicate_count l \<and>
      InternalLayer_id_predicate bo sz l i = Some (Some s))"
proof -
  have own: "own_wf k (V k)" if "k \<in> set (layers_from l)" for k
    using wf that by (simp add: layer_wf_def)
  have D: "pd_wf (InternalLayer_predicate_dictionary k) (lv_predicates (V k)) \<and>
      strictly_sorted (lv_predicates (V k)) \<and>
      idmap_wf (InternalLayer_predicate_id_map k) (lv_predicate_perm (V k)) \<and>
      0 + length (lv_predicates (V k)) \<le> length (lv_predicate_perm (V k)) \<and>
      InternalLayer_predicate_dict_len k = length (lv_predicate_perm (V k))" if "k \<in> set (layers_from l)" for k
    using own [OF that] own_wf_lens(3) [OF own [OF that]] by (simp add: own_wf_def)
  from kind_roundtrip [OF layer_wf_counted(2) [OF wf] s, where off = "\<lambda>_. 0", OF D, of sz] obtain r where
    r: "InternalLayer_predicate_id bo sz l s = Some r"
      "r = None \<longleftrightarrow> (\<forall>k\<in>set (layers_from l). s \<notin> set (lv_predicates (V k)))"
    and bk: "\<And>i. r = Some i \<Longrightarrow> i \<noteq> 0 \<and> unat i \<le> InternalLayer_predicate_count l \<and>
      (\<exists>k\<in>set (layers_from l). \<exists>j c. locate_id (\<lambda>k. of_nat (InternalLayer_predicate_dict_len k)) (i - 1)
          (of_nat (InternalLayer_predicate_count l)) l = (k, c) \<and>
        IdMap_outer_to_inner bo (InternalLayer_predicate_id_map k) c = Some (of_nat j) \<and>
        j < length (lv_predicates (V k)) \<and> length (lv_predicates (V k)) < 2 ^ 64 \<and>
        PfcDict_get bo sz (InternalLayer_predicate_dictionary k) j = Some (Some s))"
    unfolding InternalLayer_predicate_id_def InternalLayer_predicate_dict_id_def by auto
  have "InternalLayer_id_predicate bo sz l i = Some (Some s)" if i: "r = Some i" for i
    using bk [OF i]
    by (auto simp: InternalLayer_id_predicate_def InternalLayer_predicate_dict_get_def unat_of_nat_u64)
  with r bk show ?thesis by blast
qed

end

section \<open>Properties\<close>

fun object_string :: "ObjectType \<Rightarrow> bytes" where
  "object_string (Node s) = s"
| "object_string (Value s) = s"

text \<open>The strings of a triple occur in the stack.\<close>

definition triple_known :: "InternalLayer \<Rightarrow> (InternalLayer \<Rightarrow> layer_view) \<Rightarrow> StringTriple \<Rightarrow> bool" where
  "triple_known l V t \<longleftrightarrow>
    (\<exists>k\<in>set (layers_from l). st_subject t \<in> set (lv_nodes (V k))) \<and>
    (\<exists>k\<in>set (layers_from l). st_predicate t \<in> set (lv_predicates (V k))) \<and>
    (case st_object t of
       Node n \<Rightarrow> \<exists>k\<in>set (layers_from l). n \<in> set (lv_nodes (V k))
     | Value v \<Rightarrow> \<exists>k\<in>set (layers_from l). v \<in> set (lv_values (V k)))"

lemma object_id_roundtrip:
  assumes "big_endian bo" "layer_wf l V" "object_string ob \<noteq> []"
  shows "\<exists>r. object_id bo sz l ob = Some r \<and>
    (r = None \<longleftrightarrow> \<not> (case ob of
       Node n \<Rightarrow> \<exists>k\<in>set (layers_from l). n \<in> set (lv_nodes (V k))
     | Value v \<Rightarrow> \<exists>k\<in>set (layers_from l). v \<in> set (lv_values (V k)))) \<and>
    (\<forall>i. r = Some i \<longrightarrow> InternalLayer_id_object bo sz l i = Some (Some ob))"
proof (cases ob)
  case (Node n)
  with big_endian.subject_id_roundtrip [OF assms(1,2), of n sz] assms(3) show ?thesis
    unfolding object_id_def by auto
next
  case (Value v)
  with big_endian.object_value_id_roundtrip [OF assms(1,2), of v sz] assms(3) show ?thesis
    unfolding object_id_def by auto
qed

text \<open>
  C13. Over a stack of layers, a triple of strings is translated to ids exactly when all its
  strings occur in the stack, in whichever layers, rolled up or not, and the ids are
  translated back to the same triple of strings. The empty string is excluded: a dictionary
  without strings claims to have it.
\<close>

theorem string_triple_roundtrip:
  assumes "big_endian bo" "layer_wf l V"
    and "st_subject t \<noteq> []" "st_predicate t \<noteq> []" "object_string (st_object t) \<noteq> []"
  shows "\<exists>r. Layer_string_triple_to_id bo sz l t = Some r \<and> (r = None \<longleftrightarrow> \<not> triple_known l V t) \<and>
    (\<forall>it. r = Some it \<longrightarrow> Layer_id_triple_to_string bo sz l it = Some (Some t))"
proof -
  from big_endian.subject_id_roundtrip [OF assms(1,2,3), of sz] obtain rs where
    s: "InternalLayer_subject_id bo sz l (st_subject t) = Some rs"
      "rs = None \<longleftrightarrow> (\<forall>k\<in>set (layers_from l). st_subject t \<notin> set (lv_nodes (V k)))"
      "\<And>i. rs = Some i \<Longrightarrow> InternalLayer_id_subject bo sz l i = Some (Some (st_subject t))" by blast
  from big_endian.predicate_id_roundtrip [OF assms(1,2,4), of sz] obtain rp where
    p: "InternalLayer_predicate_id bo sz l (st_predicate t) = Some rp"
      "rp = None \<longleftrightarrow> (\<forall>k\<in>set (layers_from l). st_predicate t \<notin> set (lv_predicates (V k)))"
      "\<And>i. rp = Some i \<Longrightarrow> InternalLayer_id_predicate bo sz l i = Some (Some (st_predicate t))" by blast
  from object_id_roundtrip [OF assms(1,2,5), of sz] obtain ro where
    ob: "object_id bo sz l (st_object t) = Some ro"
      "ro = None \<longleftrightarrow> \<not> (case st_object t of
         Node n \<Rightarrow> \<exists>k\<in>set (layers_from l). n \<in> set (lv_nodes (V k))
       | Value v \<Rightarrow> \<exists>k\<in>set (layers_from l). v \<in> set (lv_values (V k)))"
      "\<And>i. ro = Some i \<Longrightarrow> InternalLayer_id_object bo sz l i = Some (Some (st_object t))" by blast
  define r where "r = do { i \<leftarrow> rs; j \<leftarrow> rp; k \<leftarrow> ro; Some (IdTriple i j k) }"
  have "Layer_string_triple_to_id bo sz l t = Some r"
    using s(1) p(1) ob(1)
    by (cases rs; cases rp; cases ro) (simp_all add: Layer_string_triple_to_id_def r_def)
  moreover have "r = None \<longleftrightarrow> \<not> triple_known l V t"
  proof -
    have "r = None \<longleftrightarrow> rs = None \<or> rp = None \<or> ro = None"
      by (cases rs; cases rp; cases ro) (simp_all add: r_def)
    then show ?thesis unfolding s(2) p(2) ob(2) triple_known_def by blast
  qed
  moreover have "Layer_id_triple_to_string bo sz l it = Some (Some t)" if "r = Some it" for it
  proof -
    from that obtain i j k where "rs = Some i" "rp = Some j" "ro = Some k" "it = IdTriple i j k"
      by (auto simp: r_def split: bind_splits)
    with s(3) p(3) ob(3) show ?thesis by (simp add: Layer_id_triple_to_string_def)
  qed
  ultimately show ?thesis by blast
qed

text \<open>A base layer with the dictionary \<open>d\<close> for nodes, predicates and values, and no triples.\<close>

definition no_bits :: BitIndex where
  "no_bits = \<lparr>bi_array = \<lparr>ba_len = 0, ba_buf = []\<rparr>,
     bi_blocks = \<lparr>la_first = 0, la_len = 0, la_width = 1, la_input_buf = replicate 8 0\<rparr>,
     bi_sblocks = \<lparr>la_first = 0, la_len = 0, la_width = 1, la_input_buf = replicate 8 0\<rparr>\<rparr>"

definition no_pairs :: AdjacencyList where
  "no_pairs = \<lparr>al_nums = \<lparr>la_first = 0, la_len = 0, la_width = 1, la_input_buf = replicate 8 0\<rparr>,
    al_bits = no_bits\<rparr>"

definition dict_layer :: "PfcDict \<Rightarrow> InternalLayer" where
  "dict_layer d = Base \<lparr>bl_name = (0, 0, 0, 0, 1), bl_node_dictionary = d, bl_predicate_dictionary = d,
     bl_value_dictionary = d, bl_node_value_idmap = IdMap_default, bl_predicate_idmap = IdMap_default,
     bl_subjects = None, bl_objects = None, bl_s_p_adjacency_list = no_pairs,
     bl_sp_o_adjacency_list = no_pairs, bl_o_ps_adjacency_list = no_pairs,
     bl_predicate_wavelet_tree = \<lparr>wt_bits = no_bits, wt_num_layers = 1\<rparr>\<rparr>"

definition dict_view :: "bytes list \<Rightarrow> layer_view" where
  "dict_view ss = \<lparr>lv_nodes = ss, lv_predicates = ss, lv_values = ss,
    lv_node_value_perm = [0..<2 * length ss], lv_predicate_perm = [0..<length ss]\<rparr>"

lemma dict_layer_wf:
  assumes "pd_wf d ss" "strictly_sorted ss" "2 * length ss < 2 ^ 64"
  shows "layer_wf (dict_layer d) (\<lambda>_. dict_view ss)"
  using assms pd_wf_length(2) [OF assms(1)]
  by (simp add: layer_wf_def dict_layer_def dict_view_def own_wf_def parent_counts_ok_def idmap_default_wf
      layers_from.simps [of "Base b" for b] InternalLayer_node_and_value_count_def
      InternalLayer_predicate_count_def PfcDict_len_def mult_2)

theorem string_triple_roundtrip_witness:
  "\<exists>l. \<exists>r. Layer_string_triple_to_id byteorder_std 32 l (StringTriple [97] [98] (Value [97, 98])) = Some r \<and>
    (r = None \<longleftrightarrow> \<not> triple_known l (\<lambda>_. dict_view sample) (StringTriple [97] [98] (Value [97, 98]))) \<and>
    (\<forall>it. r = Some it \<longrightarrow> Layer_id_triple_to_string byteorder_std 32 l it =
      Some (Some (StringTriple [97] [98] (Value [97, 98]))))"
proof -
  obtain d where "pd_wf d sample"
    using build_dict_wf [OF std.big_endian_axioms sample_ok(1)] by metis
  from dict_layer_wf [OF this sample_ok(2)] have "layer_wf (dict_layer d) (\<lambda>_. dict_view sample)"
    by (simp add: sample_def)
  from string_triple_roundtrip [OF std.big_endian_axioms this,
      of "StringTriple [97] [98] (Value [97, 98])" 32] show ?thesis by auto
qed

end
