(* ===== verification/LayerTriples.thy ===== *)
theory LayerTriples
  imports LayerIds
begin

text \<open>
  The triples of a single layer (\<open>src/layer/internal/mod.rs\<close> and the first half of
  \<open>src/layer/internal/subject_iterator.rs\<close>): the test whether a layer adds or removes a
  triple, and the iterator over the additions or the removals of a layer in the order of
  subject, predicate and object, with its seeks.

  Additions and removals are stored alike: an adjacency list from subjects to predicates,
  one from the positions in the first list to objects, and, unless every subject up to the
  last one occurs, the sorted array of the subjects. \<open>tidx_wf\<close> relates such a triple index to
  the segments of its two lists, and \<open>idx_triples\<close> is the list of triples it stands for.
\<close>

section \<open>Model\<close>

lemma unat_succ: "x < (y :: u64) \<Longrightarrow> unat (x + 1) = Suc (unat x)"
  using unsigned_less [of y, where 'a = nat] by (subst unat_add_lem [THEN iffD1]) (auto simp: word_less_nat_alt)

lemma unat_diff_succ: "x < (y :: u64) \<Longrightarrow> unat (y - (x + 1)) < unat (y - x)"
  using measure_unat [of "y - x"] by (simp add: diff_diff_eq)

text \<open>
  The loop that looks for a number in the segment that starts at \<open>pos\<close>. It ends because
  \<open>bit_at_pos\<close> panics beyond the list.
\<close>

lemma bit_at_pos_less:
  "AdjacencyList_bit_at_pos a pos = Some b \<Longrightarrow> unat pos < unat (ba_len (bi_array (al_bits a)))"
  by (auto simp: AdjacencyList_bit_at_pos_def BitIndex_get_def BitArray_get_def BitArray_len_def rust_assert_def
      split: if_splits bind_splits)

function find_in_segment :: "byteorder \<Rightarrow> AdjacencyList \<Rightarrow> u64 \<Rightarrow> u64 \<Rightarrow> u64 option panics" where
  "find_in_segment bo a num pos =
    do { bit \<leftarrow> AdjacencyList_bit_at_pos a pos;
         n \<leftarrow> AdjacencyList_num_at_pos bo a pos;
         if n = num then Some (Some pos)
         else if bit then Some None
         else find_in_segment bo a num (pos + 1) }"
  by pat_completeness auto
termination
proof (relation "measure (\<lambda>(bo, a, num, pos). unat (ba_len (bi_array (al_bits a))) - unat pos)", goal_cases)
  case (2 bo a num pos b n)
  from bit_at_pos_less [OF 2(1)] have "unat pos < unat (ba_len (bi_array (al_bits a)))" .
  moreover from this have "unat (pos + 1) = Suc (unat pos)"
    by (simp add: unat_succ word_less_nat_alt)
  ultimately show ?case by simp
qed simp

declare find_in_segment.simps [simp del]

definition layer_triple_exists ::
  "byteorder \<Rightarrow> MonotonicLogArray option \<Rightarrow> AdjacencyList \<Rightarrow> AdjacencyList \<Rightarrow> u64 \<Rightarrow> u64 \<Rightarrow> u64 \<Rightarrow> bool panics" where
  "layer_triple_exists bo subjects s_p_adjacency_list sp_o_adjacency_list subject predicate object =
    (if subject = 0 \<or> predicate = 0 \<or> object = 0 then Some False
     else do {
       s_position \<leftarrow> (case subjects of
           None \<Rightarrow> do { count \<leftarrow> AdjacencyList_left_count bo s_p_adjacency_list;
                        Some (if subject > of_nat count then None else Some (subject - 1)) }
         | Some subjects \<Rightarrow> do { pos \<leftarrow> MonotonicLogArray_index_of bo subjects subject;
                                Some (map_option of_nat pos) });
       case s_position of
         None \<Rightarrow> Some False
       | Some s_position \<Rightarrow>
           do { start \<leftarrow> AdjacencyList_offset_for bo s_p_adjacency_list (s_position + 1);
                s_p_position \<leftarrow> find_in_segment bo s_p_adjacency_list predicate start;
                case s_p_position of
                  None \<Rightarrow> Some False
                | Some s_p_position \<Rightarrow>
                    do { start \<leftarrow> AdjacencyList_offset_for bo sp_o_adjacency_list (s_p_position + 1);
                         found \<leftarrow> find_in_segment bo sp_o_adjacency_list object start;
                         Some (found \<noteq> None) } } })"

subsection \<open>The iterator over the triples of a layer\<close>

record InternalLayerTripleSubjectIterator =
  tsi_subjects :: "MonotonicLogArray option"
  tsi_s_p_adjacency_list :: AdjacencyList
  tsi_sp_o_adjacency_list :: AdjacencyList
  tsi_s_position :: u64
  tsi_s_p_position :: u64
  tsi_sp_o_position :: u64
  tsi_peeked :: "IdTriple option"

definition InternalLayerTripleSubjectIterator_new ::
  "MonotonicLogArray option \<Rightarrow> AdjacencyList \<Rightarrow> AdjacencyList \<Rightarrow> InternalLayerTripleSubjectIterator" where
  "InternalLayerTripleSubjectIterator_new subjects s_p_adjacency_list sp_o_adjacency_list =
    \<lparr>tsi_subjects = subjects, tsi_s_p_adjacency_list = s_p_adjacency_list,
     tsi_sp_o_adjacency_list = sp_o_adjacency_list,
     tsi_s_position = 0, tsi_s_p_position = 0, tsi_sp_o_position = 0, tsi_peeked = None\<rparr>"

definition tsi_at ::
  "u64 \<Rightarrow> u64 \<Rightarrow> u64 \<Rightarrow> InternalLayerTripleSubjectIterator \<Rightarrow> InternalLayerTripleSubjectIterator" where
  "tsi_at s sp spo self =
    self\<lparr>tsi_s_position := s, tsi_s_p_position := sp, tsi_sp_o_position := spo, tsi_peeked := None\<rparr>"

text \<open>The position of a subject, shared by the two seeks.\<close>

definition tsi_subject_position ::
  "byteorder \<Rightarrow> InternalLayerTripleSubjectIterator \<Rightarrow> u64 \<Rightarrow> u64 panics" where
  "tsi_subject_position bo self subject =
    (case tsi_subjects self of
       None \<Rightarrow> Some (subject - 1)
     | Some subjects \<Rightarrow> map_option of_nat (MonotonicLogArray_nearest_index_of bo subjects subject))"

definition InternalLayerTripleSubjectIterator_seek_subject ::
  "byteorder \<Rightarrow> InternalLayerTripleSubjectIterator \<Rightarrow> u64 \<Rightarrow> InternalLayerTripleSubjectIterator panics" where
  "InternalLayerTripleSubjectIterator_seek_subject bo self subject =
    (if subject = 0 then Some (tsi_at 0 0 0 self)
     else do {
       s_position \<leftarrow> tsi_subject_position bo self subject;
       count \<leftarrow> AdjacencyList_left_count bo (tsi_s_p_adjacency_list self);
       if s_position \<ge> of_nat count
       then Some (tsi_at s_position (of_nat (AdjacencyList_right_count (tsi_s_p_adjacency_list self)))
                    (of_nat (AdjacencyList_right_count (tsi_sp_o_adjacency_list self))) self)
       else do {
         s_p_position \<leftarrow> AdjacencyList_offset_for bo (tsi_s_p_adjacency_list self) (s_position + 1);
         sp_o_position \<leftarrow> AdjacencyList_offset_for bo (tsi_sp_o_adjacency_list self) (s_p_position + 1);
         Some (tsi_at s_position s_p_position sp_o_position self) } })"

text \<open>
  The loop that skips the smaller predicates of a subject; past the last one it steps to the
  next subject. It ends because \<open>num_at_pos\<close> panics beyond the list.
\<close>

lemma num_at_pos_less:
  "AdjacencyList_num_at_pos bo a pos = Some n \<Longrightarrow> unat pos < unat (la_len (al_nums a))"
  by (auto simp: AdjacencyList_num_at_pos_def LogArray_entry_def LogArray_len_def rust_assert_def split: if_splits bind_splits)

function skip_predicates ::
  "byteorder \<Rightarrow> AdjacencyList \<Rightarrow> u64 \<Rightarrow> u64 \<Rightarrow> u64 \<Rightarrow> (u64 \<times> u64) panics" where
  "skip_predicates bo a predicate s_position s_p_position =
    do { n \<leftarrow> AdjacencyList_num_at_pos bo a s_p_position;
         if n < predicate then
           do { bit \<leftarrow> AdjacencyList_bit_at_pos a (s_p_position + 1 - 1);
                if bit then Some (s_position + 1, s_p_position + 1)
                else skip_predicates bo a predicate s_position (s_p_position + 1) }
         else Some (s_position, s_p_position) }"
  by pat_completeness auto
termination
proof (relation "measure (\<lambda>(bo, a, p, s, pos). unat (la_len (al_nums a)) - unat pos)", goal_cases)
  case (2 bo a p s pos n b)
  from num_at_pos_less [OF 2(1)] have l: "unat pos < unat (la_len (al_nums a))" .
  moreover have "unat (la_len (al_nums a)) < 2 ^ 32" using unsigned_less [of "la_len (al_nums a)", where 'a = nat] by simp
  ultimately have "unat (pos + 1) = Suc (unat pos)"
    by (intro unat_succ [of _ "2 ^ 32"]) (simp add: word_less_nat_alt)
  with l show ?case by simp
qed simp

declare skip_predicates.simps [simp del]

definition InternalLayerTripleSubjectIterator_seek_subject_predicate ::
  "byteorder \<Rightarrow> InternalLayerTripleSubjectIterator \<Rightarrow> u64 \<Rightarrow> u64 \<Rightarrow> InternalLayerTripleSubjectIterator panics" where
  "InternalLayerTripleSubjectIterator_seek_subject_predicate bo self subject predicate =
    (if predicate = 0 then InternalLayerTripleSubjectIterator_seek_subject bo self subject
     else if subject = 0 then Some (tsi_at 0 0 0 self)
     else do {
       s_position \<leftarrow> tsi_subject_position bo self subject;
       count \<leftarrow> AdjacencyList_left_count bo (tsi_s_p_adjacency_list self);
       if s_position \<ge> of_nat count
       then Some (tsi_at s_position (of_nat (AdjacencyList_right_count (tsi_s_p_adjacency_list self)))
                    (of_nat (AdjacencyList_right_count (tsi_sp_o_adjacency_list self))) self)
       else do {
         start \<leftarrow> AdjacencyList_offset_for bo (tsi_s_p_adjacency_list self) (s_position + 1);
         (s_position, s_p_position) \<leftarrow>
           skip_predicates bo (tsi_s_p_adjacency_list self) predicate s_position start;
         sp_o_position \<leftarrow> AdjacencyList_offset_for bo (tsi_sp_o_adjacency_list self) (s_p_position + 1);
         Some (tsi_at s_position s_p_position sp_o_position self) } })"

definition InternalLayerTripleSubjectIterator_seek_s_p_pos ::
  "byteorder \<Rightarrow> InternalLayerTripleSubjectIterator \<Rightarrow> u64 \<Rightarrow> InternalLayerTripleSubjectIterator panics" where
  "InternalLayerTripleSubjectIterator_seek_s_p_pos bo self pos =
    do { left \<leftarrow> AdjacencyList_left_at_pos bo (tsi_s_p_adjacency_list self) pos;
         sp_o_position \<leftarrow> AdjacencyList_offset_for bo (tsi_sp_o_adjacency_list self) (pos + 1);
         Some (tsi_at (left - 1) pos sp_o_position self) }"

text \<open>The loop of \<open>next\<close>: entries without a predicate or an object are skipped.\<close>

function tsi_advance ::
  "byteorder \<Rightarrow> InternalLayerTripleSubjectIterator \<Rightarrow> (IdTriple option \<times> InternalLayerTripleSubjectIterator) panics" where
  "tsi_advance bo self =
    (if tsi_sp_o_position self \<ge> of_nat (AdjacencyList_right_count (tsi_sp_o_adjacency_list self))
     then Some (None, self)
     else do {
       subject \<leftarrow> (case tsi_subjects self of
           Some subjects \<Rightarrow> LogArray_entry bo (mla_array subjects) (unat (tsi_s_position self))
         | None \<Rightarrow> Some (tsi_s_position self + 1));
       s_p_bit \<leftarrow> AdjacencyList_bit_at_pos (tsi_s_p_adjacency_list self) (tsi_s_p_position self);
       predicate \<leftarrow> AdjacencyList_num_at_pos bo (tsi_s_p_adjacency_list self) (tsi_s_p_position self);
       if predicate = 0
       then tsi_advance bo
              (self\<lparr>tsi_s_position := (if s_p_bit then tsi_s_position self + 1 else tsi_s_position self),
                    tsi_s_p_position := tsi_s_p_position self + 1,
                    tsi_sp_o_position := tsi_sp_o_position self + 1\<rparr>)
       else do {
         sp_o_bit \<leftarrow> AdjacencyList_bit_at_pos (tsi_sp_o_adjacency_list self) (tsi_sp_o_position self);
         object \<leftarrow> AdjacencyList_num_at_pos bo (tsi_sp_o_adjacency_list self) (tsi_sp_o_position self);
         let self' = self\<lparr>tsi_s_position :=
                            (if sp_o_bit \<and> s_p_bit then tsi_s_position self + 1 else tsi_s_position self),
                          tsi_s_p_position :=
                            (if sp_o_bit then tsi_s_p_position self + 1 else tsi_s_p_position self),
                          tsi_sp_o_position := tsi_sp_o_position self + 1\<rparr>;
         if object = 0 then tsi_advance bo self'
         else Some (Some (IdTriple subject predicate object), self') } })"
  by pat_completeness auto
termination
  by (relation "measure (\<lambda>(bo, self). unat ((of_nat (AdjacencyList_right_count (tsi_sp_o_adjacency_list self)) :: u64)
      - tsi_sp_o_position self))")
    (auto simp: not_le unat_diff_succ)

declare tsi_advance.simps [simp del]

definition InternalLayerTripleSubjectIterator_next ::
  "byteorder \<Rightarrow> InternalLayerTripleSubjectIterator \<Rightarrow> (IdTriple option \<times> InternalLayerTripleSubjectIterator) panics" where
  "InternalLayerTripleSubjectIterator_next bo self =
    (case tsi_peeked self of
       Some peeked \<Rightarrow> Some (Some peeked, self\<lparr>tsi_peeked := None\<rparr>)
     | None \<Rightarrow> tsi_advance bo self)"

definition InternalLayerTripleSubjectIterator_peek ::
  "byteorder \<Rightarrow> InternalLayerTripleSubjectIterator \<Rightarrow> (IdTriple option \<times> InternalLayerTripleSubjectIterator) panics" where
  "InternalLayerTripleSubjectIterator_peek bo self =
    do { (x, self) \<leftarrow> InternalLayerTripleSubjectIterator_next bo self;
         Some (x, self\<lparr>tsi_peeked := x\<rparr>) }"

definition OptInternalLayerTripleSubjectIterator_seek_subject ::
  "byteorder \<Rightarrow> InternalLayerTripleSubjectIterator option \<Rightarrow> u64 \<Rightarrow> InternalLayerTripleSubjectIterator option panics" where
  "OptInternalLayerTripleSubjectIterator_seek_subject bo self subject =
    omap (\<lambda>i. InternalLayerTripleSubjectIterator_seek_subject bo i subject) self"

definition OptInternalLayerTripleSubjectIterator_seek_subject_predicate ::
  "byteorder \<Rightarrow> InternalLayerTripleSubjectIterator option \<Rightarrow> u64 \<Rightarrow> u64 \<Rightarrow>
    InternalLayerTripleSubjectIterator option panics" where
  "OptInternalLayerTripleSubjectIterator_seek_subject_predicate bo self subject predicate =
    omap (\<lambda>i. InternalLayerTripleSubjectIterator_seek_subject_predicate bo i subject predicate) self"

text \<open>An operation of an iterator that may be missing: a missing one has no items.\<close>

definition opt_iter :: "('s \<Rightarrow> ('a option \<times> 's) panics) \<Rightarrow> 's option \<Rightarrow> ('a option \<times> 's option) panics" where
  "opt_iter f self =
    (case self of None \<Rightarrow> Some (None, None) | Some i \<Rightarrow> map_option (\<lambda>(x, i). (x, Some i)) (f i))"

definition OptInternalLayerTripleSubjectIterator_next ::
  "byteorder \<Rightarrow> InternalLayerTripleSubjectIterator option \<Rightarrow>
    (IdTriple option \<times> InternalLayerTripleSubjectIterator option) panics" where
  "OptInternalLayerTripleSubjectIterator_next bo = opt_iter (InternalLayerTripleSubjectIterator_next bo)"

definition OptInternalLayerTripleSubjectIterator_peek ::
  "byteorder \<Rightarrow> InternalLayerTripleSubjectIterator option \<Rightarrow>
    (IdTriple option \<times> InternalLayerTripleSubjectIterator option) panics" where
  "OptInternalLayerTripleSubjectIterator_peek bo = opt_iter (InternalLayerTripleSubjectIterator_peek bo)"

subsection \<open>Additions and removals\<close>

definition InternalLayer_internal_triple_addition_exists ::
  "byteorder \<Rightarrow> InternalLayer \<Rightarrow> u64 \<Rightarrow> u64 \<Rightarrow> u64 \<Rightarrow> bool panics" where
  "InternalLayer_internal_triple_addition_exists bo self subject predicate object =
    layer_triple_exists bo (InternalLayer_pos_subjects self) (InternalLayer_pos_s_p_adjacency_list self)
      (InternalLayer_pos_sp_o_adjacency_list self) subject predicate object"

definition InternalLayer_internal_triple_removal_exists ::
  "byteorder \<Rightarrow> InternalLayer \<Rightarrow> u64 \<Rightarrow> u64 \<Rightarrow> u64 \<Rightarrow> bool panics" where
  "InternalLayer_internal_triple_removal_exists bo self subject predicate object =
    (case (InternalLayer_neg_subjects self, InternalLayer_neg_s_p_adjacency_list self,
           InternalLayer_neg_sp_o_adjacency_list self) of
       (neg_subjects, Some neg_s_p, Some neg_sp_o) \<Rightarrow>
         layer_triple_exists bo neg_subjects neg_s_p neg_sp_o subject predicate object
     | _ \<Rightarrow> Some False)"

definition InternalLayer_internal_triple_additions ::
  "InternalLayer \<Rightarrow> InternalLayerTripleSubjectIterator option" where
  "InternalLayer_internal_triple_additions self =
    Some (InternalLayerTripleSubjectIterator_new (InternalLayer_pos_subjects self)
      (InternalLayer_pos_s_p_adjacency_list self) (InternalLayer_pos_sp_o_adjacency_list self))"

definition InternalLayer_internal_triple_removals ::
  "InternalLayer \<Rightarrow> InternalLayerTripleSubjectIterator option" where
  "InternalLayer_internal_triple_removals self =
    (case (InternalLayer_neg_subjects self, InternalLayer_neg_s_p_adjacency_list self,
           InternalLayer_neg_sp_o_adjacency_list self) of
       (neg_subjects, Some neg_s_p, Some neg_sp_o) \<Rightarrow>
         Some (InternalLayerTripleSubjectIterator_new neg_subjects neg_s_p neg_sp_o)
     | _ \<Rightarrow> None)"

section \<open>Segments\<close>

text \<open>\<open>seg_of ss q\<close> is the number of the segment that holds the position \<open>q\<close> of \<open>concat ss\<close>.\<close>

definition seg_of :: "'a list list \<Rightarrow> nat \<Rightarrow> nat" where
  "seg_of ss q = rank_of True (segs_bits ss) q"

definition offset_of :: "'a list list \<Rightarrow> nat \<Rightarrow> nat" where
  "offset_of ss i = length (concat (take i ss))"

lemma segment_split:
  assumes "i < length ss"
  shows "ss = take i ss @ ss ! i # drop (Suc i) ss"
  using assms by (rule id_take_nth_drop)

lemma nth_segment:
  assumes "i < length ss" "k < length (ss ! i)"
  shows "concat ss ! (offset_of ss i + k) = ss ! i ! k"
proof -
  have "concat ss = concat (take i ss) @ ss ! i @ concat (drop (Suc i) ss)"
    by (subst segment_split [OF assms(1)]) simp
  then show ?thesis using assms(2) by (simp add: nth_append offset_of_def)
qed

lemma offset_less:
  assumes "i < length ss" "k < length (ss ! i)"
  shows "offset_of ss i + k < length (concat ss)"
proof -
  have "concat ss = concat (take i ss) @ ss ! i @ concat (drop (Suc i) ss)"
    by (subst segment_split [OF assms(1)]) simp
  then show ?thesis using assms(2) by (simp add: offset_of_def)
qed

lemma offset_Suc: "i < length ss \<Longrightarrow> offset_of ss (Suc i) = offset_of ss i + length (ss ! i)"
  by (simp add: offset_of_def take_Suc_conv_app_nth)

lemma offset_all: "length ss \<le> i \<Longrightarrow> offset_of ss i = length (concat ss)"
  by (simp add: offset_of_def)

lemma offset_le: "offset_of ss i \<le> length (concat ss)"
  by (metis append_take_drop_id concat_append le_add1 length_append offset_of_def)

lemma segment_cases:
  assumes "q < length (concat ss)"
  obtains i k where "i < length ss" "k < length (ss ! i)" "q = offset_of ss i + k"
  using assms
proof (induction ss arbitrary: q thesis)
  case (Cons s ss)
  show ?case
  proof (cases "q < length s")
    case True
    then show ?thesis by (intro Cons.prems(1) [of 0 q]) (simp_all add: offset_of_def)
  next
    case False
    then obtain i k where "i < length ss" "k < length (ss ! i)" "q - length s = offset_of ss i + k"
      using Cons.prems(2) by (auto intro: Cons.IH [of "q - length s"])
    then show ?thesis using False by (intro Cons.prems(1) [of "Suc i" k]) (auto simp: offset_of_def)
  qed
qed simp

lemma segs_bits_at:
  assumes "[] \<notin> set ss" "i < length ss"
  shows "segs_bits ss = segs_bits (take i ss) @ seg_bits (ss ! i) @ segs_bits (drop (Suc i) ss)"
    and "length (segs_bits (take i ss)) = offset_of ss i" and "length (seg_bits (ss ! i)) = length (ss ! i)"
proof -
  show "segs_bits ss = segs_bits (take i ss) @ seg_bits (ss ! i) @ segs_bits (drop (Suc i) ss)"
    by (subst segment_split [OF assms(2)]) simp
  show "length (segs_bits (take i ss)) = offset_of ss i"
    using assms(1) by (simp add: offset_of_def) (meson in_set_takeD length_segs_bits)
  show "length (seg_bits (ss ! i)) = length (ss ! i)"
    using assms by (metis length_seg_bits nth_mem)
qed

lemma segs_bits_nth:
  assumes "[] \<notin> set ss" "i < length ss" "k < length (ss ! i)"
  shows "segs_bits ss ! (offset_of ss i + k) \<longleftrightarrow> Suc k = length (ss ! i)"
proof -
  have "seg_bits (ss ! i) ! k \<longleftrightarrow> Suc k = length (ss ! i)"
    using assms(3) by (cases "Suc k = length (ss ! i)") (auto simp: seg_bits_def nth_append)
  then show ?thesis
    using assms(3) by (subst segs_bits_at(1) [OF assms(1,2)]) (simp add: nth_append segs_bits_at(2,3) [OF assms(1,2)])
qed

lemma seg_of_segment:
  assumes "[] \<notin> set ss" "i < length ss" "k < length (ss ! i)"
  shows "seg_of ss (offset_of ss i + k) = i"
proof -
  have "rank_of True (seg_bits (ss ! i)) k = 0"
    using assms(3) by (simp add: rank_of_def seg_bits_def)
  moreover have "occ True (segs_bits (take i ss)) = i" using assms(2) by simp
  ultimately show ?thesis
    unfolding seg_of_def using assms(3)
    by (subst segs_bits_at(1) [OF assms(1,2)])
      (simp add: rank_append segs_bits_at(2,3) [OF assms(1,2)] del: occ_segs_bits length_segs_bits)
qed

lemma seg_of_less: "[] \<notin> set ss \<Longrightarrow> q < length (concat ss) \<Longrightarrow> seg_of ss q < length ss"
  by (metis seg_of_segment segment_cases)

lemma seg_of_mono: "p \<le> q \<Longrightarrow> seg_of ss p \<le> seg_of ss q"
  by (simp add: seg_of_def rank_mono)

lemma seg_of_Suc:
  "[] \<notin> set ss \<Longrightarrow> q < length (concat ss) \<Longrightarrow>
    seg_of ss (Suc q) = (if segs_bits ss ! q then Suc (seg_of ss q) else seg_of ss q)"
  by (simp add: seg_of_def rank_Suc)

lemma seg_of_0 [simp]: "seg_of ss 0 = 0"
  by (simp add: seg_of_def)

text \<open>Within a segment that is sorted, a later position has a larger number.\<close>

lemma segment_sorted:
  assumes "[] \<notin> set ss" "\<forall>s\<in>set ss. sorted_wrt (<) s" "p < q" "q < length (concat ss)"
    and "seg_of ss p = seg_of ss q"
  shows "concat ss ! p < concat ss ! q"
proof -
  from assms(4) obtain i k where q: "i < length ss" "k < length (ss ! i)" "q = offset_of ss i + k"
    by (rule segment_cases)
  from assms(3,4) have "p < length (concat ss)" by simp
  then obtain i' k' where p: "i' < length ss" "k' < length (ss ! i')" "p = offset_of ss i' + k'"
    by (rule segment_cases)
  have "i' = i" using assms(1,5) p q by (simp add: seg_of_segment)
  moreover from this have "k' < k" using assms(3) p q by simp
  moreover have "sorted_wrt (<) (ss ! i)" using assms(2) q(1) by simp
  ultimately show ?thesis using p q by (simp add: nth_segment sorted_wrt_nth_less)
qed

lemma offset_mono: "i \<le> j \<Longrightarrow> offset_of ss i \<le> offset_of ss j"
  by (metis append_take_drop_id concat_append le_add1 length_append min.absorb1 offset_of_def take_take)

lemma seg_of_less_iff:
  assumes "[] \<notin> set ss" "p < length (concat ss)"
  shows "seg_of ss p < j \<longleftrightarrow> p < offset_of ss j"
proof -
  from assms(2) obtain i k where p: "i < length ss" "k < length (ss ! i)" "p = offset_of ss i + k"
    by (rule segment_cases)
  then have "seg_of ss p = i" using assms(1) by (simp add: seg_of_segment)
  moreover have "p < offset_of ss j" if "i < j"
    using offset_mono [of "Suc i" j ss] that p by (simp add: offset_Suc)
  moreover have "offset_of ss j \<le> p" if "j \<le> i"
    using offset_mono [OF that, of ss] p by simp
  ultimately show ?thesis by (meson not_le)
qed

lemma seg_of_offset:
  assumes "[] \<notin> set ss" "i < length ss"
  shows "seg_of ss (offset_of ss i) = i"
  using seg_of_segment [OF assms, of 0] assms by (metis add.right_neutral length_greater_0_conv nth_mem)

lemma offset_strict:
  assumes "[] \<notin> set ss" "i < length ss"
  shows "offset_of ss i < length (concat ss)"
  using offset_less [OF assms(2), of 0] assms by (metis add.right_neutral length_greater_0_conv nth_mem)

section \<open>Triple indexes\<close>

definition subjects_wf :: "MonotonicLogArray option \<Rightarrow> nat \<Rightarrow> bool" where
  "subjects_wf subjects n \<longleftrightarrow>
    (case subjects of None \<Rightarrow> True
     | Some m \<Rightarrow> la_wf (mla_array m) \<and> length (la_elems (mla_array m)) = n \<and>
         sorted_wrt (<) (la_elems (mla_array m)) \<and> 0 \<notin> set (la_elems (mla_array m)))"

definition subject_at :: "MonotonicLogArray option \<Rightarrow> nat \<Rightarrow> u64" where
  "subject_at subjects i =
    (case subjects of None \<Rightarrow> of_nat i + 1 | Some m \<Rightarrow> la_elems (mla_array m) ! i)"

text \<open>
  A predicate 0 stands for a subject without predicates; the second list has a single 0 at
  its place.
\<close>

definition tidx_wf ::
  "MonotonicLogArray option \<Rightarrow> AdjacencyList \<Rightarrow> AdjacencyList \<Rightarrow> u64 list list \<Rightarrow> u64 list list \<Rightarrow> bool" where
  "tidx_wf subjects sp spo ss oss \<longleftrightarrow>
    al_wf sp ss \<and> al_wf spo oss \<and> length oss = length (concat ss) \<and>
    (\<forall>s\<in>set ss. sorted_wrt (<) s) \<and> (\<forall>s\<in>set oss. sorted_wrt (<) s) \<and>
    (\<forall>j<length oss. concat ss ! j = 0 \<longrightarrow> oss ! j = [0]) \<and> subjects_wf subjects (length ss)"

definition row_at ::
  "MonotonicLogArray option \<Rightarrow> u64 list list \<Rightarrow> u64 list list \<Rightarrow> nat \<Rightarrow> IdTriple" where
  "row_at subjects ss oss q =
    IdTriple (subject_at subjects (seg_of ss (seg_of oss q))) (concat ss ! seg_of oss q) (concat oss ! q)"

definition is_triple :: "IdTriple \<Rightarrow> bool" where
  "is_triple t \<longleftrightarrow> it_predicate t \<noteq> 0 \<and> it_object t \<noteq> 0"

definition rows_from ::
  "MonotonicLogArray option \<Rightarrow> u64 list list \<Rightarrow> u64 list list \<Rightarrow> nat \<Rightarrow> IdTriple list" where
  "rows_from subjects ss oss q = filter is_triple (map (row_at subjects ss oss) [q..<length (concat oss)])"

abbreviation idx_triples :: "MonotonicLogArray option \<Rightarrow> u64 list list \<Rightarrow> u64 list list \<Rightarrow> IdTriple list" where
  "idx_triples subjects ss oss \<equiv> rows_from subjects ss oss 0"

lemma tidx_wfD:
  assumes "tidx_wf subjects sp spo ss oss"
  shows "al_wf sp ss" "al_wf spo oss" "length oss = length (concat ss)"
    and "\<forall>s\<in>set ss. sorted_wrt (<) s" "\<forall>s\<in>set oss. sorted_wrt (<) s"
    and "\<And>j. j < length oss \<Longrightarrow> concat ss ! j = 0 \<Longrightarrow> oss ! j = [0]"
    and "subjects_wf subjects (length ss)" "[] \<notin> set ss" "[] \<notin> set oss"
    and "\<And>q. q < length (concat oss) \<Longrightarrow> seg_of oss q < length (concat ss)"
    and "\<And>q. q < length (concat oss) \<Longrightarrow> seg_of ss (seg_of oss q) < length ss"
    and "length (concat oss) < 2 ^ 32" "length (concat ss) < 2 ^ 32" "length ss < 2 ^ 32"
proof -
  show D: "al_wf sp ss" "al_wf spo oss" "length oss = length (concat ss)"
    "\<forall>s\<in>set ss. sorted_wrt (<) s" "\<forall>s\<in>set oss. sorted_wrt (<) s"
    "\<And>j. j < length oss \<Longrightarrow> concat ss ! j = 0 \<Longrightarrow> oss ! j = [0]"
    "subjects_wf subjects (length ss)"
    using assms by (simp_all add: tidx_wf_def)
  show ne: "[] \<notin> set ss" "[] \<notin> set oss" using al_wfD(3) D(1,2) by blast+
  then show sp: "seg_of oss q < length (concat ss)" if "q < length (concat oss)" for q
    using seg_of_less [OF ne(2) that] D(3) by simp
  show "seg_of ss (seg_of oss q) < length ss" if "q < length (concat oss)" for q
    using seg_of_less [OF ne(1) sp [OF that]] .
  show "length (concat oss) < 2 ^ 32" "length (concat ss) < 2 ^ 32" "length ss < 2 ^ 32"
    using al_wfD(8,9) [OF D(1)] al_wfD(8) [OF D(2)] by simp_all
qed

lemma subject_at_less:
  assumes "subjects_wf subjects n" "i < j" "j < n" "n < 2 ^ 32"
  shows "subject_at subjects i < subject_at subjects j"
proof (cases subjects)
  case None
  with assms show ?thesis
    by (simp add: subject_at_def word_less_nat_alt flip: of_nat_Suc add.commute [of 1])
      (simp add: unat_of_nat_u64 flip: of_nat_Suc)
next
  case (Some m)
  with assms show ?thesis by (simp add: subject_at_def subjects_wf_def sorted_wrt_nth_less)
qed

lemma subject_at_mono:
  assumes "subjects_wf subjects n" "i \<le> j" "j < n" "n < 2 ^ 32"
  shows "subject_at subjects i \<le> subject_at subjects j"
  using subject_at_less [OF assms(1) _ assms(3,4), of i] assms(2) by (cases "i = j") auto

lemma subject_at_nonzero:
  assumes "subjects_wf subjects n" "n < 2 ^ 32" "i < n"
  shows "subject_at subjects i \<noteq> 0"
proof (cases subjects)
  case None
  then show ?thesis using of_nat_word_ne_0 [of "Suc i"] assms by (simp add: subject_at_def add.commute)
next
  case (Some m)
  have "la_elems (mla_array m) ! i \<in> set (la_elems (mla_array m))"
    using Some assms by (intro nth_mem) (simp add: subjects_wf_def)
  then show ?thesis using Some assms(1) by (auto simp: subjects_wf_def subject_at_def)
qed

lemma row_at_less:
  assumes wf: "tidx_wf subjects sp spo ss oss" and pq: "p < q" "q < length (concat oss)"
  shows "row_at subjects ss oss p < row_at subjects ss oss q"
proof -
  note D = tidx_wfD [OF wf]
  let ?j = "seg_of oss p" and ?k = "seg_of oss q"
  have k: "?k < length (concat ss)" "?j \<le> ?k" using D(10) pq by (auto simp: seg_of_mono)
  have i: "seg_of ss ?j \<le> seg_of ss ?k" "seg_of ss ?k < length ss"
    using k(2) D(11) pq by (auto simp: seg_of_mono)
  show ?thesis
  proof (cases "?j = ?k")
    case True
    with segment_sorted [OF D(9,5) pq] show ?thesis by (simp add: row_at_def less_IdTriple_def)
  next
    case False
    then have jk: "?j < ?k" using k by simp
    show ?thesis
    proof (cases "seg_of ss ?j = seg_of ss ?k")
      case True
      with segment_sorted [OF D(8,4) jk k(1)] show ?thesis by (simp add: row_at_def less_IdTriple_def)
    next
      case False
      then show ?thesis using subject_at_less [OF D(7) _ i(2) D(14)] i(1)
        by (simp add: row_at_def less_IdTriple_def)
    qed
  qed
qed

lemma rows_from_sorted:
  "tidx_wf subjects sp spo ss oss \<Longrightarrow> sorted_wrt (<) (rows_from subjects ss oss q)"
  unfolding rows_from_def
  by (intro sorted_wrt_filter) (auto simp: sorted_wrt_iff_nth_less intro!: row_at_less)

lemma rows_from_step:
  "q < length (concat oss) \<Longrightarrow> rows_from subjects ss oss q =
    (if is_triple (row_at subjects ss oss q) then [row_at subjects ss oss q] else []) @ rows_from subjects ss oss (Suc q)"
  by (simp add: rows_from_def upt_conv_Cons)

lemma rows_from_end: "length (concat oss) \<le> q \<Longrightarrow> rows_from subjects ss oss q = []"
  by (simp add: rows_from_def)

text \<open>The rows from a position on, as a condition on the triples.\<close>

lemma rows_from_filter:
  assumes "q \<le> length (concat oss)"
    and "\<And>p. p < q \<Longrightarrow> \<not> P (row_at subjects ss oss p)"
    and "\<And>p. q \<le> p \<Longrightarrow> p < length (concat oss) \<Longrightarrow> P (row_at subjects ss oss p)"
  shows "rows_from subjects ss oss q = filter P (idx_triples subjects ss oss)"
proof -
  have "[0..<length (concat oss)] = [0..<q] @ [q..<length (concat oss)]"
    using assms(1) by (metis le_add_diff_inverse upt_add_eq_append zero_le)
  moreover have "filter P (map (row_at subjects ss oss) [0..<q]) = []"
    using assms(2) by (simp add: filter_empty_conv)
  moreover have "filter P (map (row_at subjects ss oss) [q..<length (concat oss)]) =
      map (row_at subjects ss oss) [q..<length (concat oss)]"
    using assms(3) by (simp add: filter_id_conv)
  moreover have "filter P (filter is_triple xs) = filter is_triple (filter P xs)" for xs
    by (simp add: conj_commute)
  ultimately show ?thesis by (simp add: rows_from_def del: filter_filter)
qed

lemma rows_from_offset:
  assumes wf: "tidx_wf subjects sp spo ss oss"
    and Q: "\<And>x. x < length (concat ss) \<Longrightarrow> Q (subject_at subjects (seg_of ss x)) (concat ss ! x) \<longleftrightarrow> j \<le> x"
  shows "rows_from subjects ss oss (offset_of oss j) =
    filter (\<lambda>t. Q (it_subject t) (it_predicate t)) (idx_triples subjects ss oss)"
proof (rule rows_from_filter)
  note D = tidx_wfD [OF wf]
  have at: "Q (subject_at subjects (seg_of ss (seg_of oss x))) (concat ss ! seg_of oss x) \<longleftrightarrow> offset_of oss j \<le> x"
    if x: "x < length (concat oss)" for x
    using seg_of_less_iff [OF D(9) x, of j] Q [OF D(10) [OF x]] by (auto simp: not_less [symmetric])
  show "offset_of oss j \<le> length (concat oss)" by (rule offset_le)
  then show "\<not> Q (it_subject (row_at subjects ss oss x)) (it_predicate (row_at subjects ss oss x))"
    if "x < offset_of oss j" for x
    using at [of x] that by (simp add: row_at_def)
  show "Q (it_subject (row_at subjects ss oss x)) (it_predicate (row_at subjects ss oss x))"
    if "offset_of oss j \<le> x" "x < length (concat oss)" for x
    using at that by (simp add: row_at_def)
qed

lemma rows_from_predicate:
  assumes wf: "tidx_wf subjects sp spo ss oss" and i: "i < length ss"
    and k: "k \<le> length (ss ! i)" "\<And>m. m < length (ss ! i) \<Longrightarrow> ss ! i ! m < p \<longleftrightarrow> m < k"
  shows "rows_from subjects ss oss (offset_of oss (offset_of ss i + k)) =
    filter (\<lambda>t. subject_at subjects i < it_subject t \<or> it_subject t = subject_at subjects i \<and> p \<le> it_predicate t)
      (idx_triples subjects ss oss)"
proof (rule rows_from_offset [OF wf])
  note D = tidx_wfD [OF wf]
  fix y assume "y < length (concat ss)"
  then obtain i' m where y: "i' < length ss" "m < length (ss ! i')" "y = offset_of ss i' + m" by (rule segment_cases)
  have sg: "seg_of ss y = i'" "concat ss ! y = ss ! i' ! m"
    using y D(8) by (simp_all add: seg_of_segment nth_segment)
  consider "i' < i" | "i' = i" | "i < i'" by linarith
  then show "subject_at subjects i < subject_at subjects (seg_of ss y) \<or>
      subject_at subjects (seg_of ss y) = subject_at subjects i \<and> p \<le> concat ss ! y \<longleftrightarrow> offset_of ss i + k \<le> y"
  proof cases
    case 1
    have "y < offset_of ss (Suc i')" using y by (simp add: offset_Suc)
    also have "\<dots> \<le> offset_of ss i" using 1 by (intro offset_mono) simp
    finally show ?thesis using subject_at_less [OF D(7) 1 i D(14)] sg by auto
  next
    case 2
    then show ?thesis using sg y k(2) [of m] by (auto simp: not_less [symmetric])
  next
    case 3
    have "offset_of ss i + k \<le> offset_of ss (Suc i)" using k(1) i by (simp add: offset_Suc)
    also have "\<dots> \<le> y" using 3 y offset_mono [of "Suc i" i' ss] by simp
    finally show ?thesis using subject_at_less [OF D(7) 3 y(1) D(14)] sg by auto
  qed
qed

text \<open>Membership, in terms of the segments.\<close>

lemma mem_idx_triples:
  assumes wf: "tidx_wf subjects sp spo ss oss"
  shows "IdTriple s p ob \<in> set (idx_triples subjects ss oss) \<longleftrightarrow> p \<noteq> 0 \<and> ob \<noteq> 0 \<and>
    (\<exists>i m. i < length ss \<and> m < length (ss ! i) \<and> subject_at subjects i = s \<and> ss ! i ! m = p \<and>
      ob \<in> set (oss ! (offset_of ss i + m)))"
    (is "_ \<longleftrightarrow> _ \<and> _ \<and> ?R")
proof -
  note D = tidx_wfD [OF wf]
  have "?R" if q: "q < length (concat oss)" "IdTriple s p ob = row_at subjects ss oss q" for q
  proof -
    obtain j k where j: "j < length oss" "k < length (oss ! j)" "q = offset_of oss j + k"
      using q(1) by (rule segment_cases)
    have "j < length (concat ss)" using j(1) D(3) by simp
    then obtain i m where i: "i < length ss" "m < length (ss ! i)" "j = offset_of ss i + m" by (rule segment_cases)
    have "seg_of oss q = j" "concat oss ! q = oss ! j ! k" "seg_of ss j = i" "concat ss ! j = ss ! i ! m"
      using i j D(8,9) by (simp_all add: seg_of_segment nth_segment)
    then have "subject_at subjects i = s" "ss ! i ! m = p" "oss ! j ! k = ob"
      using q(2) by (simp_all add: row_at_def)
    moreover have "oss ! j ! k \<in> set (oss ! (offset_of ss i + m))" using i(3) j(2) by simp
    ultimately show ?thesis using i(1,2) by blast
  qed
  moreover have "\<exists>q<length (concat oss). IdTriple s p ob = row_at subjects ss oss q" if ?R
  proof -
    from that obtain i m where i: "i < length ss" "m < length (ss ! i)" "subject_at subjects i = s"
      "ss ! i ! m = p" "ob \<in> set (oss ! (offset_of ss i + m))" by auto
    let ?j = "offset_of ss i + m"
    have j: "?j < length oss" using offset_less [OF i(1,2)] D(3) by simp
    from i(5) obtain k where k: "k < length (oss ! ?j)" "oss ! ?j ! k = ob" by (auto simp: in_set_conv_nth)
    have "IdTriple s p ob = row_at subjects ss oss (offset_of oss ?j + k)"
      using i k j D(8,9) by (simp add: row_at_def seg_of_segment nth_segment)
    then show ?thesis using offset_less [OF j k(1)] by blast
  qed
  moreover have "IdTriple s p ob \<in> set (idx_triples subjects ss oss) \<longleftrightarrow>
      p \<noteq> 0 \<and> ob \<noteq> 0 \<and> (\<exists>q<length (concat oss). IdTriple s p ob = row_at subjects ss oss q)"
    by (auto simp: rows_from_def is_triple_def)
  ultimately show ?thesis by blast
qed

section \<open>The iterator\<close>

definition tsi_wf ::
  "InternalLayerTripleSubjectIterator \<Rightarrow> u64 list list \<Rightarrow> u64 list list \<Rightarrow> nat \<Rightarrow> bool" where
  "tsi_wf self ss oss q \<longleftrightarrow>
    tidx_wf (tsi_subjects self) (tsi_s_p_adjacency_list self) (tsi_sp_o_adjacency_list self) ss oss \<and>
    unat (tsi_sp_o_position self) = q \<and> q \<le> length (concat oss) \<and>
    (q < length (concat oss) \<longrightarrow>
      unat (tsi_s_p_position self) = seg_of oss q \<and> unat (tsi_s_position self) = seg_of ss (seg_of oss q))"

context big_endian
begin

lemma AdjacencyList_bit_at_pos_eq:
  "al_wf a ss \<Longrightarrow> unat p < length (concat ss) \<Longrightarrow> AdjacencyList_bit_at_pos a p = Some (segs_bits ss ! unat p)"
  using al_wfD [of a ss] bi_wfD(1,7) [of "al_bits a"]
  by (simp add: AdjacencyList_bit_at_pos_def BitIndex_get_def BitArray_get_eq bi_bits_def)

lemma AdjacencyList_num_at_pos_eq:
  "al_wf a ss \<Longrightarrow> unat p < length (concat ss) \<Longrightarrow> AdjacencyList_num_at_pos bo a p = Some (concat ss ! unat p)"
  using al_wfD [of a ss]
  by (simp add: AdjacencyList_num_at_pos_def LogArray_entry_eq LogArray_len_def flip: nth_la_elems)

lemma subject_entry:
  assumes "subjects_wf subjects n" "unat i < n"
  shows "(case subjects of Some subjects \<Rightarrow> LogArray_entry bo (mla_array subjects) (unat i)
    | None \<Rightarrow> Some (i + 1)) = Some (subject_at subjects (unat i))"
  using assms by (auto simp: subjects_wf_def subject_at_def LogArray_entry_eq nth_la_elems split: option.split)

lemma tsi_advance_eq:
  assumes "tsi_wf self ss oss q"
  shows "\<exists>self' q'. tsi_advance bo self = Some (peek (rows_from (tsi_subjects self) ss oss q), self') \<and>
    tsi_wf self' ss oss q' \<and> rows_from (tsi_subjects self) ss oss q' = tl (rows_from (tsi_subjects self) ss oss q) \<and>
    tsi_subjects self' = tsi_subjects self \<and> tsi_peeked self' = tsi_peeked self"
  using assms
proof (induction "length (concat oss) - q" arbitrary: self q rule: less_induct)
  case less
  let ?subs = "tsi_subjects self" and ?sp = "tsi_s_p_adjacency_list self" and ?spo = "tsi_sp_o_adjacency_list self"
  from less.prems have wf: "tidx_wf ?subs ?sp ?spo ss oss" and q: "unat (tsi_sp_o_position self) = q"
    "q \<le> length (concat oss)" by (simp_all add: tsi_wf_def)
  note D = tidx_wfD [OF wf]
  have rc: "unat (of_nat (AdjacencyList_right_count ?spo) :: u64) = length (concat oss)"
    using al_wfD(6) [OF D(2)] D(12) by (simp add: AdjacencyList_right_count_def unat_of_nat_u64)
  show ?case
  proof (cases "q < length (concat oss)")
    case False
    then show ?thesis using q less.prems rc
      by (subst tsi_advance.simps) (auto simp: word_le_nat_alt rows_from_end peek_def)
  next
    case True
    let ?j = "seg_of oss q" and ?i = "seg_of ss (seg_of oss q)"
    from less.prems True have pos: "unat (tsi_s_p_position self) = ?j" "unat (tsi_s_position self) = ?i"
      by (simp_all add: tsi_wf_def)
    have lt: "?j < length (concat ss)" "?i < length ss" using D(10,11) True by auto
    have Suc64: "unat (x + 1) = Suc (unat x)" if "unat x < 2 ^ 32" for x :: u64
      by (rule unat_succ [of _ "2 ^ 32"]) (use that in \<open>simp add: word_less_nat_alt\<close>)
    have S: "unat (tsi_s_position self + 1) = Suc ?i" "unat (tsi_s_p_position self + 1) = Suc ?j"
      "unat (tsi_sp_o_position self + 1) = Suc q"
      using pos q lt D(12,13,14) True by (simp_all add: Suc64)
    let ?spb = "segs_bits ss ! ?j" and ?ob = "segs_bits oss ! q"
    define stp where "stp b = self\<lparr>tsi_s_position := (if b \<and> ?spb then tsi_s_position self + 1 else tsi_s_position self),
      tsi_s_p_position := (if b then tsi_s_p_position self + 1 else tsi_s_p_position self),
      tsi_sp_o_position := tsi_sp_o_position self + 1\<rparr>" for b
    have steps: "tsi_wf (stp ?ob) ss oss (Suc q)"
      using wf S pos True seg_of_Suc [OF D(9) True] seg_of_Suc [OF D(8) lt(1)]
      by (auto simp: tsi_wf_def stp_def)
    note IH = less.hyps [OF _ steps]
    have adv: "tsi_advance bo self =
      (if concat ss ! ?j = 0 then tsi_advance bo (stp True)
       else if concat oss ! q = 0 then tsi_advance bo (stp ?ob)
       else Some (Some (row_at ?subs ss oss q), stp ?ob))"
      using True q rc pos lt subject_entry [OF D(7), of "tsi_s_position self"]
      by (subst tsi_advance.simps)
        (simp add: AdjacencyList_bit_at_pos_eq [OF D(1)] AdjacencyList_num_at_pos_eq [OF D(1)] stp_def
          AdjacencyList_bit_at_pos_eq [OF D(2)] AdjacencyList_num_at_pos_eq [OF D(2)] word_le_nat_alt
          row_at_def Let_def)
    have hole: "?ob \<and> concat oss ! q = 0" if "concat ss ! ?j = 0"
    proof -
      obtain j k where jk: "j < length oss" "k < length (oss ! j)" "q = offset_of oss j + k"
        using True by (rule segment_cases)
      then have "?j = j" using D(9) by (simp add: seg_of_segment)
      with that D(6) jk have "oss ! j = [0]" by simp
      then show ?thesis using jk segs_bits_nth [OF D(9) jk(1,2)] nth_segment [OF jk(1,2)] by simp
    qed
    have sub: "tsi_subjects (stp b) = ?subs" "tsi_peeked (stp b) = tsi_peeked self" for b
      by (simp_all add: stp_def)
    show ?thesis
    proof (cases "concat ss ! ?j = 0 \<or> concat oss ! q = 0")
      case zero: True
      then have "tsi_advance bo self = tsi_advance bo (stp ?ob)" using adv hole by (cases ?ob) auto
      moreover have "rows_from ?subs ss oss q = rows_from ?subs ss oss (Suc q)"
        using zero rows_from_step [OF True] by (auto simp: row_at_def is_triple_def)
      ultimately show ?thesis using IH True sub by simp
    next
      case False
      then have "rows_from ?subs ss oss q = row_at ?subs ss oss q # rows_from ?subs ss oss (Suc q)"
        using rows_from_step [OF True] by (simp add: row_at_def is_triple_def)
      then show ?thesis using False adv steps sub by (auto simp: peek_def)
    qed
  qed
qed

lemma tsi_new_wf:
  "tidx_wf subjects sp spo ss oss \<Longrightarrow> tsi_wf (InternalLayerTripleSubjectIterator_new subjects sp spo) ss oss 0"
  by (simp add: tsi_wf_def InternalLayerTripleSubjectIterator_new_def)

lemma offset_for_at:
  assumes "al_wf a ss" "unat x \<le> length ss"
  shows "AdjacencyList_offset_for bo a (x + 1) = Some (of_nat (offset_of ss (unat x)))"
    and "unat (of_nat (offset_of ss i) :: u64) = offset_of ss i"
proof -
  have "unat (x + 1) = Suc (unat x)"
    by (rule unat_succ [of _ "2 ^ 33"]) (use assms al_wfD(8,9) [OF assms(1)] in \<open>simp add: word_less_nat_alt\<close>)
  then show "AdjacencyList_offset_for bo a (x + 1) = Some (of_nat (offset_of ss (unat x)))"
    using AdjacencyList_offset_for_eq [OF assms(1), of "x + 1"] assms(2) by (simp add: offset_of_def)
  show "unat (of_nat (offset_of ss i) :: u64) = offset_of ss i"
    using offset_le [of ss i] al_wfD(8) [OF assms(1)] by (intro unat_of_nat_u64) simp
qed

text \<open>The three positions of the iterator when it stands at the start of a predicate.\<close>

lemma tsi_at_wf:
  assumes wf: "tidx_wf (tsi_subjects self) (tsi_s_p_adjacency_list self) (tsi_sp_o_adjacency_list self) ss oss"
    and j: "unat sp = j" "j \<le> length (concat ss)" "j < length (concat ss) \<Longrightarrow> unat s = seg_of ss j"
    and spo: "unat spo = offset_of oss j"
  shows "tsi_wf (tsi_at s sp spo self) ss oss (offset_of oss j)"
proof -
  note D = tidx_wfD [OF wf]
  have "j < length oss" "seg_of oss (offset_of oss j) = j" if "offset_of oss j < length (concat oss)"
  proof -
    show l: "j < length oss"
    proof (rule ccontr)
      assume "\<not> j < length oss"
      with that show False by (simp add: offset_all)
    qed
    show "seg_of oss (offset_of oss j) = j" using D(9) l by (rule seg_of_offset)
  qed
  then show ?thesis using wf j spo offset_le [of oss j] D(3) by (simp add: tsi_wf_def tsi_at_def)
qed

lemma subject_position_cases:
  assumes "subjects_wf (tsi_subjects self) n" "n < 2 ^ 32" "s \<noteq> 0"
  obtains p where "tsi_subject_position bo self s = Some p"
    and "\<And>i. i < n \<Longrightarrow> subject_at (tsi_subjects self) i < s \<longleftrightarrow> i < unat p"
proof (cases "tsi_subjects self")
  case None
  have "subject_at None i < s \<longleftrightarrow> i < unat (s - 1)" if "i < n" for i
  proof -
    have "unat (of_nat (Suc i) :: u64) = Suc i" using that assms(2) by (intro unat_of_nat_u64) simp
    moreover have "unat s = Suc (unat (s - 1))"
      using assms(3) by (metis Suc_pred' unat_gt_0 unat_minus_one)
    ultimately show ?thesis by (simp add: subject_at_def word_less_nat_alt add.commute)
  qed
  then show ?thesis using None by (intro that [of "s - 1"]) (simp_all add: tsi_subject_position_def)
next
  case (Some m)
  let ?e = "la_elems (mla_array m)"
  have m: "la_wf (mla_array m)" "length ?e = n" "sorted_wrt (<) ?e"
    using assms(1) Some by (simp_all add: subjects_wf_def)
  have "sorted ?e" using m(3) by (simp add: strict_sorted_iff)
  from nearest_index_of_spec [OF m(1) this, of s] obtain r where
    r: "MonotonicLogArray_nearest_index_of bo m s = Some r" and rs: "r < n \<and> ?e ! r = s \<or>
      r \<le> n \<and> (\<forall>i<r. ?e ! i < s) \<and> (\<forall>i. r \<le> i \<and> i < n \<longrightarrow> s < ?e ! i)"
    using m(2) length_la_elems [of "mla_array m"] by auto
  have un: "unat (of_nat r :: u64) = r" using rs assms(2) by (intro unat_of_nat_u64) auto
  have "?e ! i < s \<longleftrightarrow> i < r" if "i < n" for i
    using rs
  proof
    assume a: "r < n \<and> ?e ! r = s"
    show ?thesis using a that m(2,3) sorted_wrt_nth_less [OF m(3), of i r] sorted_wrt_nth_less [OF m(3), of r i]
      by (cases i r rule: linorder_cases) auto
  next
    assume "r \<le> n \<and> (\<forall>i<r. ?e ! i < s) \<and> (\<forall>i. r \<le> i \<and> i < n \<longrightarrow> s < ?e ! i)"
    with that show ?thesis by (metis not_le not_less_iff_gr_or_eq)
  qed
  then show ?thesis using Some r un
    by (intro that [of "of_nat r"]) (simp_all add: tsi_subject_position_def subject_at_def)
qed

lemma left_count_at:
  assumes "al_wf a ss"
  shows "\<exists>c. AdjacencyList_left_count bo a = Some c \<and> unat (of_nat c :: u64) = length ss"
  using AdjacencyList_left_count_eq [OF assms] al_wfD(8,9) [OF assms] by (simp add: unat_of_nat_u64)

text \<open>Where a seek leaves the iterator: the triples from the given subject on.\<close>

lemma tsi_at_same [simp]:
  "tsi_subjects (tsi_at a b c self) = tsi_subjects self" "tsi_peeked (tsi_at a b c self) = None"
  by (simp_all add: tsi_at_def)

lemma tsi_at_start:
  assumes "tsi_wf self ss oss q"
  shows "tsi_wf (tsi_at 0 0 0 self) ss oss 0"
  using assms by (simp add: tsi_wf_def tsi_at_def)

lemma tsi_at_end:
  assumes "tsi_wf self ss oss q"
  shows "tsi_wf (tsi_at s (of_nat (AdjacencyList_right_count (tsi_s_p_adjacency_list self)))
    (of_nat (AdjacencyList_right_count (tsi_sp_o_adjacency_list self))) self) ss oss (offset_of oss (length (concat ss)))"
proof -
  from assms have wf: "tidx_wf (tsi_subjects self) (tsi_s_p_adjacency_list self) (tsi_sp_o_adjacency_list self) ss oss"
    by (simp add: tsi_wf_def)
  note D = tidx_wfD [OF this]
  have "offset_of oss (length (concat ss)) = length (concat oss)" using D(3) by (simp add: offset_all)
  then show ?thesis
    using wf al_wfD(6) [OF D(1)] al_wfD(6) [OF D(2)] D(3,12,13)
    by (intro tsi_at_wf) (simp_all add: AdjacencyList_right_count_def unat_of_nat_u64)
qed

lemma tsi_at_predicate:
  assumes wf: "tsi_wf self ss oss q" and j: "unat sp \<le> length (concat ss)"
    and s: "unat sp < length (concat ss) \<Longrightarrow> unat s = seg_of ss (unat sp)"
  shows "\<exists>spo. AdjacencyList_offset_for bo (tsi_sp_o_adjacency_list self) (sp + 1) = Some spo \<and>
    tsi_wf (tsi_at s sp spo self) ss oss (offset_of oss (unat sp))"
proof -
  from wf have ti: "tidx_wf (tsi_subjects self) (tsi_s_p_adjacency_list self) (tsi_sp_o_adjacency_list self) ss oss"
    by (simp add: tsi_wf_def)
  note D = tidx_wfD [OF this]
  have "unat sp \<le> length oss" using j D(3) by simp
  note o = offset_for_at [OF D(2) this]
  show ?thesis using o j s by (auto intro!: tsi_at_wf [OF ti])
qed

lemma seek_subject_eq:
  assumes wf: "tsi_wf self ss oss q"
  shows "\<exists>self' q'. InternalLayerTripleSubjectIterator_seek_subject bo self s = Some self' \<and>
    tsi_wf self' ss oss q' \<and> tsi_subjects self' = tsi_subjects self \<and> tsi_peeked self' = None \<and>
    rows_from (tsi_subjects self) ss oss q' = filter (\<lambda>t. s \<le> it_subject t) (idx_triples (tsi_subjects self) ss oss)"
proof (cases "s = 0")
  case True
  then show ?thesis using tsi_at_start [OF wf]
    by (auto simp: InternalLayerTripleSubjectIterator_seek_subject_def)
next
  case False
  let ?subs = "tsi_subjects self" and ?sp = "tsi_s_p_adjacency_list self"
  from wf have ti: "tidx_wf ?subs ?sp (tsi_sp_o_adjacency_list self) ss oss" by (simp add: tsi_wf_def)
  note D = tidx_wfD [OF ti]
  obtain p where p: "tsi_subject_position bo self s = Some p"
    and iff: "\<And>i. i < length ss \<Longrightarrow> subject_at ?subs i < s \<longleftrightarrow> i < unat p"
    using subject_position_cases [OF D(7,14) False] by blast
  define j where "j = offset_of ss (unat p)"
  have rows: "rows_from ?subs ss oss (offset_of oss j) =
      filter (\<lambda>t. s \<le> it_subject t) (idx_triples ?subs ss oss)"
  proof (rule rows_from_offset [OF ti])
    fix x assume x: "x < length (concat ss)"
    show "s \<le> subject_at ?subs (seg_of ss x) \<longleftrightarrow> j \<le> x"
      using iff [OF seg_of_less [OF D(8) x]] seg_of_less_iff [OF D(8) x, of "unat p"]
      by (auto simp: j_def not_less [symmetric])
  qed
  obtain c where c: "AdjacencyList_left_count bo ?sp = Some c" "unat (of_nat c :: u64) = length ss"
    using left_count_at [OF D(1)] by blast
  show ?thesis
  proof (cases "unat p < length ss")
    case True
    note o = offset_for_at [OF D(1) less_imp_le [OF True]]
    have j: "unat (of_nat j :: u64) = j" "j \<le> length (concat ss)" "seg_of ss j = unat p"
      using o(2) offset_le seg_of_offset [OF D(8) True] by (simp_all add: j_def)
    then obtain spo where "AdjacencyList_offset_for bo (tsi_sp_o_adjacency_list self) (of_nat j + 1) = Some spo"
      "tsi_wf (tsi_at p (of_nat j) spo self) ss oss (offset_of oss j)"
      using tsi_at_predicate [OF wf, of "of_nat j" p] by auto
    moreover have "AdjacencyList_offset_for bo ?sp (p + 1) = Some (of_nat j)" using o(1) by (simp add: j_def)
    ultimately have "InternalLayerTripleSubjectIterator_seek_subject bo self s = Some (tsi_at p (of_nat j) spo self)"
      "tsi_wf (tsi_at p (of_nat j) spo self) ss oss (offset_of oss j)"
      using True False p c by (simp_all add: InternalLayerTripleSubjectIterator_seek_subject_def word_le_nat_alt)
    then show ?thesis using rows tsi_at_same by blast
  next
    case over: False
    then have "j = length (concat ss)" by (simp add: j_def offset_all)
    then show ?thesis using over False p c rows tsi_at_end [OF wf, of p]
      by (auto simp: InternalLayerTripleSubjectIterator_seek_subject_def word_le_nat_alt)
  qed
qed

lemma skip_predicates_eq:
  assumes wf: "al_wf a ss" and i: "i < length ss" "k < length (ss ! i)"
    and sorted: "sorted_wrt (<) (ss ! i)" and before: "\<And>m. m < k \<Longrightarrow> ss ! i ! m < p"
  shows "\<exists>k'. skip_predicates bo a p s (of_nat (offset_of ss i + k)) =
      Some (if k' = length (ss ! i) then s + 1 else s, of_nat (offset_of ss i + k')) \<and>
    k' \<le> length (ss ! i) \<and> (\<forall>m<length (ss ! i). ss ! i ! m < p \<longleftrightarrow> m < k')"
  using i(2) before
proof (induction "length (ss ! i) - k" arbitrary: k rule: less_induct)
  case less
  note D = al_wfD [OF wf]
  have un: "unat (of_nat (offset_of ss i + k) :: u64) = offset_of ss i + k"
    using offset_less [OF i(1) less.prems(1)] D(8) by (intro unat_of_nat_u64) simp
  have pos: "offset_of ss i + k < length (concat ss)" by (rule offset_less [OF i(1) less.prems(1)])
  have num: "AdjacencyList_num_at_pos bo a (of_nat (offset_of ss i + k)) = Some (ss ! i ! k)"
    using AdjacencyList_num_at_pos_eq [OF wf, of "of_nat (offset_of ss i + k)"] pos
    by (simp only: un nth_segment [OF i(1) less.prems(1)])
  have bit: "AdjacencyList_bit_at_pos a (of_nat (offset_of ss i + k)) = Some (Suc k = length (ss ! i))"
    using AdjacencyList_bit_at_pos_eq [OF wf, of "of_nat (offset_of ss i + k)"] pos
    by (simp only: un segs_bits_nth [OF D(3) i(1) less.prems(1)])
  have succ: "of_nat (offset_of ss i + k) + 1 = (of_nat (offset_of ss i + Suc k) :: u64)" by simp
  have skip: "skip_predicates bo a p s (of_nat (offset_of ss i + k)) =
     (if ss ! i ! k < p then
        if Suc k = length (ss ! i) then Some (s + 1, of_nat (offset_of ss i + Suc k))
        else skip_predicates bo a p s (of_nat (offset_of ss i + Suc k))
      else Some (s, of_nat (offset_of ss i + k)))"
    by (subst skip_predicates.simps) (simp only: num bit succ [symmetric] bind.bind_lunit add_diff_cancel_right')
  have below: "ss ! i ! m < p" if "m < Suc k" "ss ! i ! k < p" for m
    using that less.prems(2) by (cases "m = k") auto
  consider "ss ! i ! k \<ge> p" | "ss ! i ! k < p" "Suc k = length (ss ! i)" | "ss ! i ! k < p" "Suc k < length (ss ! i)"
    using less.prems(1) by fastforce
  then show ?case
  proof cases
    case 1
    have "ss ! i ! m < p \<longleftrightarrow> m < k" if "m < length (ss ! i)" for m
    proof (cases "m < k")
      case False
      then have "ss ! i ! k \<le> ss ! i ! m"
        using that sorted_wrt_nth_less [OF sorted, of k m] by (cases "m = k") auto
      with 1 False show ?thesis by auto
    qed (use less.prems(2) in simp)
    then show ?thesis using 1 less.prems(1) skip by (intro exI [of _ k]) auto
  next
    case 2
    then show ?thesis using skip below by (intro exI [of _ "Suc k"]) auto
  next
    case 3
    then show ?thesis using less.hyps [of "Suc k"] below skip by auto
  qed
qed

text \<open>
  Where a seek of a subject and a predicate leaves the iterator. If the subject does not occur,
  the smaller predicates of the next subject are skipped.
\<close>

lemma seek_subject_predicate_eq:
  assumes wf: "tsi_wf self ss oss q" and pr: "p \<noteq> 0" "s \<noteq> 0"
  shows "\<exists>self' q' s'. InternalLayerTripleSubjectIterator_seek_subject_predicate bo self s p = Some self' \<and>
    tsi_wf self' ss oss q' \<and> tsi_subjects self' = tsi_subjects self \<and> tsi_peeked self' = None \<and>
    s \<le> s' \<and> (\<forall>i<length ss. s \<le> subject_at (tsi_subjects self) i \<longrightarrow> s' \<le> subject_at (tsi_subjects self) i) \<and>
    rows_from (tsi_subjects self) ss oss q' =
      filter (\<lambda>t. s' < it_subject t \<or> it_subject t = s' \<and> p \<le> it_predicate t) (idx_triples (tsi_subjects self) ss oss)"
proof -
  let ?subs = "tsi_subjects self" and ?sp = "tsi_s_p_adjacency_list self"
  from wf have ti: "tidx_wf ?subs ?sp (tsi_sp_o_adjacency_list self) ss oss" by (simp add: tsi_wf_def)
  note D = tidx_wfD [OF ti]
  obtain x where x: "tsi_subject_position bo self s = Some x"
    and iff: "\<And>i. i < length ss \<Longrightarrow> subject_at ?subs i < s \<longleftrightarrow> i < unat x"
    using subject_position_cases [OF D(7,14) pr(2)] by blast
  obtain c where c: "AdjacencyList_left_count bo ?sp = Some c" "unat (of_nat c :: u64) = length ss"
    using left_count_at [OF D(1)] by blast
  show ?thesis
  proof (cases "unat x < length ss")
    case over: False
    have none: "subject_at ?subs i < s" if "i < length ss" for i using iff [OF that] over that by simp
    have "rows_from ?subs ss oss (offset_of oss (length (concat ss))) =
        filter (\<lambda>t. s < it_subject t \<or> it_subject t = s \<and> p \<le> it_predicate t) (idx_triples ?subs ss oss)"
    proof (rule rows_from_offset [OF ti])
      fix y assume y: "y < length (concat ss)"
      show "s < subject_at ?subs (seg_of ss y) \<or> subject_at ?subs (seg_of ss y) = s \<and> p \<le> concat ss ! y \<longleftrightarrow>
          length (concat ss) \<le> y"
        using none [OF seg_of_less [OF D(8) y]] y by auto
    qed
    moreover have "\<forall>i<length ss. s \<le> subject_at ?subs i \<longrightarrow> s \<le> subject_at ?subs i" by simp
    ultimately show ?thesis using over x c pr tsi_at_end [OF wf, of x] tsi_at_same [of x] order_refl
      by (simp add: InternalLayerTripleSubjectIterator_seek_subject_predicate_def word_le_nat_alt) blast
  next
    case True
    let ?i = "unat x"
    have ne: "0 < length (ss ! ?i)" using D(8) True by (metis length_greater_0_conv nth_mem)
    have srt: "sorted_wrt (<) (ss ! ?i)" using D(4) True by simp
    from skip_predicates_eq [OF D(1) True ne srt, of p x] obtain k where
      skip: "skip_predicates bo ?sp p x (of_nat (offset_of ss ?i)) =
        Some (if k = length (ss ! ?i) then x + 1 else x, of_nat (offset_of ss ?i + k))"
      and k: "k \<le> length (ss ! ?i)" "\<And>m. m < length (ss ! ?i) \<Longrightarrow> ss ! ?i ! m < p \<longleftrightarrow> m < k" by auto
    define j where "j = offset_of ss ?i + k"
    have jle: "j \<le> length (concat ss)"
      using k(1) offset_le [of ss "Suc ?i"] True by (simp add: j_def offset_Suc)
    then have unj: "unat (of_nat j :: u64) = j" using D(13) by (intro unat_of_nat_u64) simp
    have x1: "unat (x + 1) = Suc ?i"
      by (rule unat_succ [of _ "2 ^ 32"]) (use True D(14) in \<open>simp add: word_less_nat_alt\<close>)
    have seg: "unat (if k = length (ss ! ?i) then x + 1 else x) = seg_of ss j" if "j < length (concat ss)"
    proof (cases "k = length (ss ! ?i)")
      case k': True
      then have j': "j = offset_of ss (Suc ?i)" using True by (simp add: j_def offset_Suc)
      have "Suc ?i < length ss" using that j' by (metis leI less_irrefl offset_all)
      then show ?thesis using k' x1 j' seg_of_offset [OF D(8)] by simp
    next
      case False
      then show ?thesis using seg_of_segment [OF D(8) True, of k] k(1) by (simp add: j_def)
    qed
    obtain spo where spo: "AdjacencyList_offset_for bo (tsi_sp_o_adjacency_list self) (of_nat j + 1) = Some spo"
      "tsi_wf (tsi_at (if k = length (ss ! ?i) then x + 1 else x) (of_nat j) spo self) ss oss (offset_of oss j)"
      using tsi_at_predicate [OF wf, of "of_nat j"] unj jle seg by (metis (no_types, lifting))
    note rows = rows_from_predicate [OF ti True k, folded j_def]
    have least: "s \<le> subject_at ?subs ?i" "\<forall>i<length ss. s \<le> subject_at ?subs i \<longrightarrow> subject_at ?subs ?i \<le> subject_at ?subs i"
      using iff True subject_at_mono [OF D(7) _ _ D(14)] by (auto simp: not_less [symmetric])
    have "InternalLayerTripleSubjectIterator_seek_subject_predicate bo self s p =
        Some (tsi_at (if k = length (ss ! ?i) then x + 1 else x) (of_nat j) spo self)"
      using True pr x c skip spo(1) offset_for_at(1) [OF D(1) less_imp_le [OF True]]
      by (simp add: InternalLayerTripleSubjectIterator_seek_subject_predicate_def word_le_nat_alt j_def)
    then show ?thesis using spo(2) rows least tsi_at_same by blast
  qed
qed

lemma seek_s_p_pos_eq:
  assumes wf: "tsi_wf self ss oss q" and pos: "unat pos < length (concat ss)"
  shows "\<exists>self'. InternalLayerTripleSubjectIterator_seek_s_p_pos bo self pos = Some self' \<and>
    tsi_wf self' ss oss (offset_of oss (unat pos)) \<and> tsi_subjects self' = tsi_subjects self \<and>
    tsi_peeked self' = None"
proof -
  let ?sp = "tsi_s_p_adjacency_list self"
  from wf have ti: "tidx_wf (tsi_subjects self) ?sp (tsi_sp_o_adjacency_list self) ss oss" by (simp add: tsi_wf_def)
  note D = tidx_wfD [OF ti]
  have left: "AdjacencyList_left_at_pos bo ?sp pos = Some (of_nat (seg_of ss (unat pos)) + 1)"
  proof (cases "pos = 0")
    case False
    have "BitIndex_rank1 bo (al_bits ?sp) (pos - 1) = Some (of_nat (rank_of True (bi_bits (al_bits ?sp)) (unat pos)))"
      by (rule rank_before [OF BitIndex_rank1_eq [OF al_wfD(2) [OF D(1)]]])
        (use False pos al_wfD(3,5) [OF D(1)] in simp_all)
    then show ?thesis using False al_wfD(5) [OF D(1)] by (simp add: AdjacencyList_left_at_pos_def seg_of_def)
  qed (simp add: AdjacencyList_left_at_pos_def)
  have "unat (of_nat (seg_of ss (unat pos)) :: u64) = seg_of ss (unat pos)"
    using seg_of_less [OF D(8) pos] D(14) by (intro unat_of_nat_u64) simp
  then obtain spo where "AdjacencyList_offset_for bo (tsi_sp_o_adjacency_list self) (pos + 1) = Some spo"
    "tsi_wf (tsi_at (of_nat (seg_of ss (unat pos))) pos spo self) ss oss (offset_of oss (unat pos))"
    using tsi_at_predicate [OF wf, of pos "of_nat (seg_of ss (unat pos))"] pos by auto
  then show ?thesis using left by (simp add: InternalLayerTripleSubjectIterator_seek_s_p_pos_def)
qed

lemma find_in_segment_eq:
  assumes wf: "al_wf a ss" and i: "i < length ss" "k < length (ss ! i)"
  shows "\<exists>r. find_in_segment bo a x (of_nat (offset_of ss i + k)) = Some r \<and>
    (case r of None \<Rightarrow> x \<notin> set (drop k (ss ! i))
     | Some p \<Rightarrow> \<exists>m<length (ss ! i). ss ! i ! m = x \<and> p = of_nat (offset_of ss i + m))"
  using i(2)
proof (induction "length (ss ! i) - k" arbitrary: k rule: less_induct)
  case less
  note D = al_wfD [OF wf]
  have pos: "offset_of ss i + k < length (concat ss)" by (rule offset_less [OF i(1) less.prems])
  have un: "unat (of_nat (offset_of ss i + k) :: u64) = offset_of ss i + k"
    using pos D(8) by (intro unat_of_nat_u64) simp
  have num: "AdjacencyList_num_at_pos bo a (of_nat (offset_of ss i + k)) = Some (ss ! i ! k)"
    using AdjacencyList_num_at_pos_eq [OF wf, of "of_nat (offset_of ss i + k)"] pos
    by (simp only: un nth_segment [OF i(1) less.prems])
  have bit: "AdjacencyList_bit_at_pos a (of_nat (offset_of ss i + k)) = Some (Suc k = length (ss ! i))"
    using AdjacencyList_bit_at_pos_eq [OF wf, of "of_nat (offset_of ss i + k)"] pos
    by (simp only: un segs_bits_nth [OF D(3) i(1) less.prems])
  have succ: "of_nat (offset_of ss i + k) + 1 = (of_nat (offset_of ss i + Suc k) :: u64)" by simp
  have eq: "find_in_segment bo a x (of_nat (offset_of ss i + k)) =
     (if ss ! i ! k = x then Some (Some (of_nat (offset_of ss i + k)))
      else if Suc k = length (ss ! i) then Some None
      else find_in_segment bo a x (of_nat (offset_of ss i + Suc k)))"
    by (subst find_in_segment.simps) (simp only: num bit succ bind.bind_lunit)
  have drop: "drop k (ss ! i) = ss ! i ! k # drop (Suc k) (ss ! i)" using less.prems by (simp add: Cons_nth_drop_Suc)
  consider "ss ! i ! k = x" | "ss ! i ! k \<noteq> x" "Suc k = length (ss ! i)" | "ss ! i ! k \<noteq> x" "Suc k < length (ss ! i)"
    using less.prems by fastforce
  then show ?case
  proof cases
    case 1
    then show ?thesis using eq less.prems by auto
  next
    case 2
    then show ?thesis using eq drop by auto
  next
    case 3
    from 3 obtain r where "find_in_segment bo a x (of_nat (offset_of ss i + Suc k)) = Some r"
      "case r of None \<Rightarrow> x \<notin> set (drop (Suc k) (ss ! i))
       | Some p \<Rightarrow> \<exists>m<length (ss ! i). ss ! i ! m = x \<and> p = of_nat (offset_of ss i + m)"
      using less.hyps [OF diff_less_mono2 [OF lessI less.prems] 3(2)] by blast
    then show ?thesis using 3 eq drop by (cases r) auto
  qed
qed

lemma subject_lookup:
  assumes "subjects_wf subjects (length ss)" "al_wf a ss" "s \<noteq> 0"
  shows "\<exists>r. (case subjects of
        None \<Rightarrow> do { count \<leftarrow> AdjacencyList_left_count bo a;
                     Some (if s > of_nat count then None else Some (s - 1)) }
      | Some subjects \<Rightarrow> do { pos \<leftarrow> MonotonicLogArray_index_of bo subjects s; Some (map_option of_nat pos) }) = Some r \<and>
    (case r of None \<Rightarrow> \<forall>i<length ss. subject_at subjects i \<noteq> s
     | Some x \<Rightarrow> unat x < length ss \<and> subject_at subjects (unat x) = s)"
proof (cases subjects)
  case None
  obtain c where c: "AdjacencyList_left_count bo a = Some c" "unat (of_nat c :: u64) = length ss"
    using left_count_at [OF assms(2)] by blast
  have s: "unat s = Suc (unat (s - 1))" using assms(3) by (metis Suc_pred' unat_gt_0 unat_minus_one)
  have "subject_at None i \<noteq> s" if "i < length ss" "length ss < unat s" for i
  proof -
    have "unat (of_nat (Suc i) :: u64) = Suc i"
      using that(1) al_wfD(8,9) [OF assms(2)] by (intro unat_of_nat_u64) simp
    then show ?thesis using that by (auto simp: subject_at_def add.commute)
  qed
  then show ?thesis using None c s by (auto simp: word_less_nat_alt subject_at_def)
next
  case (Some m)
  let ?e = "la_elems (mla_array m)"
  have m: "la_wf (mla_array m)" "length ?e = length ss" "sorted_wrt (<) ?e"
    using assms(1) Some by (simp_all add: subjects_wf_def)
  have len: "LogArray_len (mla_array m) = length ss" using m(2) length_la_elems [of "mla_array m"] by (simp add: LogArray_len_def)
  have "sorted ?e" using m(3) by (simp add: strict_sorted_iff)
  from nearest_index_of_spec [OF m(1) this, of s] obtain r where
    r: "MonotonicLogArray_nearest_index_of bo m s = Some r" and rs: "r < length ss \<and> ?e ! r = s \<or>
      r \<le> length ss \<and> (\<forall>i<r. ?e ! i < s) \<and> (\<forall>i. r \<le> i \<and> i < length ss \<longrightarrow> s < ?e ! i)"
    using len by (auto simp: LogArray_len_def)
  have un: "unat (of_nat r :: u64) = r" using rs al_wfD(8,9) [OF assms(2)] by (intro unat_of_nat_u64) auto
  have ent: "LogArray_entry bo (mla_array m) r = Some (?e ! r)" if "r < length ss"
    using that len by (simp add: LogArray_entry_eq [OF m(1)] LogArray_len_def nth_la_elems)
  have absent: "?e ! i \<noteq> s" if "i < length ss" "\<not> (r < length ss \<and> ?e ! r = s)" for i
    using rs that by (metis not_le order_less_irrefl)
  show ?thesis
  proof (cases "r < length ss \<and> ?e ! r = s")
    case True
    then show ?thesis using Some r ent un len
      by (simp add: MonotonicLogArray_index_of_def subject_at_def)
  next
    case False
    then show ?thesis using Some r ent len absent
      by (cases "r < length ss") (simp_all add: MonotonicLogArray_index_of_def subject_at_def)
  qed
qed

lemma layer_triple_exists_eq:
  assumes wf: "tidx_wf subjects sp spo ss oss"
  shows "layer_triple_exists bo subjects sp spo s p ob = Some (IdTriple s p ob \<in> set (idx_triples subjects ss oss))"
proof -
  note D = tidx_wfD [OF wf] and mem = mem_idx_triples [OF wf, of s p ob]
  note at0 = subject_at_nonzero [OF D(7,14)]
  show ?thesis
  proof (cases "s = 0 \<or> p = 0 \<or> ob = 0")
    case True
    then show ?thesis using mem at0 by (auto simp: layer_triple_exists_def)
  next
    case nz: False
    from subject_lookup [OF D(7,1), of s] nz obtain r where
      r: "(case subjects of
          None \<Rightarrow> do { count \<leftarrow> AdjacencyList_left_count bo sp;
                       Some (if s > of_nat count then None else Some (s - 1)) }
        | Some subjects \<Rightarrow> do { pos \<leftarrow> MonotonicLogArray_index_of bo subjects s; Some (map_option of_nat pos) }) = Some r"
      and rs: "case r of None \<Rightarrow> \<forall>i<length ss. subject_at subjects i \<noteq> s
        | Some x \<Rightarrow> unat x < length ss \<and> subject_at subjects (unat x) = s" by auto
    show ?thesis
    proof (cases r)
      case None
      then show ?thesis using nz r rs mem by (auto simp: layer_triple_exists_def)
    next
      case (Some x)
      define i where "i = unat x"
      have i: "i < length ss" "subject_at subjects i = s" using rs Some by (simp_all add: i_def)
      have uniq: "i' = i" if "i' < length ss" "subject_at subjects i' = s" for i'
        using subject_at_less [OF D(7) _ _ D(14), of i i'] subject_at_less [OF D(7) _ _ D(14), of i' i] i that
        by (cases i i' rule: linorder_cases) auto
      have ne: "0 < length (ss ! i)" using D(8) i(1) by (metis length_greater_0_conv nth_mem)
      have o1: "AdjacencyList_offset_for bo sp (x + 1) = Some (of_nat (offset_of ss i + 0))"
        using offset_for_at(1) [OF D(1), of x] i(1) by (simp add: i_def)
      from find_in_segment_eq [OF D(1) i(1) ne, of p, unfolded drop_0] obtain r1 where
        r1: "find_in_segment bo sp p (of_nat (offset_of ss i + 0)) = Some r1"
        and r1s: "case r1 of None \<Rightarrow> p \<notin> set (ss ! i)
          | Some y \<Rightarrow> \<exists>m<length (ss ! i). ss ! i ! m = p \<and> y = of_nat (offset_of ss i + m)" by auto
      show ?thesis
      proof (cases r1)
        case r1n: None
        then have "IdTriple s p ob \<notin> set (idx_triples subjects ss oss)"
          using mem r1s uniq by (auto simp: in_set_conv_nth)
        then show ?thesis using nz r Some o1 r1 r1n by (simp add: layer_triple_exists_def)
      next
        case (Some y)
        then obtain m where m: "m < length (ss ! i)" "ss ! i ! m = p" "y = of_nat (offset_of ss i + m)"
          using r1s by auto
        let ?j = "offset_of ss i + m"
        have j: "?j < length oss" using offset_less [OF i(1) m(1)] D(3) by simp
        have uy: "unat y = ?j" unfolding m(3) using j D(3,13) by (intro unat_of_nat_u64) simp
        have o2: "AdjacencyList_offset_for bo spo (y + 1) = Some (of_nat (offset_of oss ?j + 0))"
          using offset_for_at(1) [OF D(2), of y] uy j by simp
        have ne2: "0 < length (oss ! ?j)" using D(9) j by (metis length_greater_0_conv nth_mem)
        from find_in_segment_eq [OF D(2) j ne2, of ob, unfolded drop_0] obtain r2 where
          r2: "find_in_segment bo spo ob (of_nat (offset_of oss ?j + 0)) = Some r2"
          and r2c: "case r2 of None \<Rightarrow> ob \<notin> set (oss ! ?j)
            | Some y \<Rightarrow> \<exists>k<length (oss ! ?j). oss ! ?j ! k = ob \<and> y = of_nat (offset_of oss ?j + k)" by blast
        have r2s: "r2 \<noteq> None \<longleftrightarrow> ob \<in> set (oss ! ?j)" using r2c by (cases r2) auto
        have m_uniq: "m' = m" if "m' < length (ss ! i)" "ss ! i ! m' = p" for m'
        proof -
          have "sorted_wrt (<) (ss ! i)" using D(4) i(1) by simp
          then have "distinct (ss ! i)" by (simp add: strict_sorted_iff)
          then show ?thesis using that m(1,2) nth_eq_iff_index_eq by metis
        qed
        have "IdTriple s p ob \<in> set (idx_triples subjects ss oss) \<longleftrightarrow> ob \<in> set (oss ! ?j)"
          using mem nz i m uniq m_uniq by blast
        then show ?thesis using nz r \<open>r = Some x\<close> o1 r1 Some o2 r2 r2s by (simp add: layer_triple_exists_def)
      qed
    qed
  qed
qed

end

end
