(* ===== verification/StackMerge.thy ===== *)
theory StackMerge
  imports Util
begin

text \<open>
  Merging the additions and removals of a stack of layers. The iterators over all triples by
  subject, by object and by predicate (\<open>src/layer/internal/subject_iterator.rs\<close>,
  \<open>object_iterator.rs\<close> and \<open>predicate_iterator.rs\<close>) run the same loop over the iterators of
  the single layers, newest layer first; only the key they compare differs. The model of the
  loop is \<open>stack_next\<close>; \<open>changes_next\<close> is the loop of \<open>InternalTripleStackIterator\<close>, which
  yields the net changes of a stack.

  The locale \<open>peekable\<close> is the interface the loops rely on: an iterator with \<open>peek\<close> and \<open>next\<close>
  that stands for the list of items it has left. In it both loops are shown to compute
  functions on lists, and about these functions the theory shows that they yield the items
  whose newest event is an addition, respectively the net changes.
\<close>

section \<open>Model\<close>

text \<open>
  \<open>Iterator::min_by_key\<close> over the items present, with their positions: the first least item
  wins.
\<close>

definition lowest_step :: "('a \<Rightarrow> 'k::linorder) \<Rightarrow> nat \<times> 'a option \<Rightarrow> (nat \<times> 'a) option \<Rightarrow> (nat \<times> 'a) option" where
  "lowest_step key p acc =
    (case p of
       (i, None) \<Rightarrow> acc
     | (i, Some x) \<Rightarrow>
         (case acc of None \<Rightarrow> Some (i, x)
          | Some (j, y) \<Rightarrow> if key x < key y then Some (i, x) else acc))"

definition lowest_index :: "('a \<Rightarrow> 'k::linorder) \<Rightarrow> 'a option list \<Rightarrow> nat option" where
  "lowest_index key xs = map_option fst (fold (lowest_step key) (enumerate 0 xs) None)"

type_synonym ('a, 's) step = "'s \<Rightarrow> ('a option \<times> 's) panics"

definition peek_all :: "('a, 's) step \<Rightarrow> 's list \<Rightarrow> ('a option list \<times> 's list) panics" where
  "peek_all pk its = map_option (\<lambda>r. (map fst r, map snd r)) (those (map pk its))"

text \<open>The scan of the removals above the layer of the addition.\<close>

fun scan_removals :: "('a, 's) step \<Rightarrow> ('a, 's) step \<Rightarrow> 'a \<Rightarrow> 's list \<Rightarrow> (bool \<times> 's list) panics" where
  "scan_removals pk nx lowest [] = Some (False, [])"
| "scan_removals pk nx lowest (it # its) =
    do { (x, it) \<leftarrow> pk it;
         if x = Some lowest
         then do { (y, it) \<leftarrow> nx it; _ \<leftarrow> y; Some (True, it # its) }
         else do { (r, its) \<leftarrow> scan_removals pk nx lowest its; Some (r, it # its) } }"

partial_function (option) stack_next ::
  "('a, 's) step \<Rightarrow> ('a, 's) step \<Rightarrow> ('a \<Rightarrow> 'k::linorder) \<Rightarrow> ('a, 's list \<times> 's list) step" where
  "stack_next pk nx key s =
    do { (heads, positives) \<leftarrow> peek_all pk (fst s);
         case lowest_index key heads of
           None \<Rightarrow> Some (None, (positives, snd s))
         | Some i \<Rightarrow>
             do { (x, it) \<leftarrow> nx (positives ! i);
                  lowest \<leftarrow> x;
                  rust_assert (i \<le> length (snd s));
                  (removed, newer) \<leftarrow> scan_removals pk nx lowest (take i (snd s));
                  let s' = (positives[i := it], newer @ drop i (snd s));
                  if removed then stack_next pk nx key s' else Some (Some lowest, s') } }"

declare stack_next.simps [code]

datatype TripleChange = Addition | Removal

partial_function (option) changes_next ::
  "('a, 's) step \<Rightarrow> ('a, 's) step \<Rightarrow> ('a \<Rightarrow> 'k::linorder) \<Rightarrow> (TripleChange \<times> 'a, 's list \<times> 's list) step" where
  "changes_next pk nx key s =
    do { (pos_heads, positives) \<leftarrow> peek_all pk (fst s);
         (neg_heads, negatives) \<leftarrow> peek_all pk (snd s);
         case (lowest_index key pos_heads, lowest_index key neg_heads) of
           (None, None) \<Rightarrow> Some (None, (positives, negatives))
         | (Some i, None) \<Rightarrow>
             do { (x, it) \<leftarrow> nx (positives ! i);
                  lowest \<leftarrow> x;
                  Some (Some (Addition, lowest), (positives[i := it], negatives)) }
         | (None, Some j) \<Rightarrow>
             do { (x, it) \<leftarrow> nx (negatives ! j);
                  lowest \<leftarrow> x;
                  Some (Some (Removal, lowest), (positives, negatives[j := it])) }
         | (Some i, Some j) \<Rightarrow>
             do { (p, pit) \<leftarrow> pk (positives ! i);
                  lowest_pos \<leftarrow> p;
                  (n, nit) \<leftarrow> pk (negatives ! j);
                  lowest_neg \<leftarrow> n;
                  if key lowest_pos < key lowest_neg then
                    do { (x, it) \<leftarrow> nx pit;
                         lowest \<leftarrow> x;
                         Some (Some (Addition, lowest), (positives[i := it], negatives[j := nit])) }
                  else if key lowest_neg < key lowest_pos then
                    do { (x, it) \<leftarrow> nx nit;
                         lowest \<leftarrow> x;
                         Some (Some (Removal, lowest), (positives[i := pit], negatives[j := it])) }
                  else
                    do { (x, it) \<leftarrow> nx pit;
                         _ \<leftarrow> x;
                         (y, it') \<leftarrow> nx nit;
                         _ \<leftarrow> y;
                         changes_next pk nx key (positives[i := it], negatives[j := it']) } } }"

declare changes_next.simps [code]

text \<open>The adaptor \<open>Iterator::take_while\<close>: the flag is set at the first item that fails.\<close>

definition take_while_next :: "('a \<Rightarrow> bool) \<Rightarrow> ('a, 's) step \<Rightarrow> ('a, 's \<times> bool) step" where
  "take_while_next P nx s =
    (if snd s then Some (None, s)
     else do { (x, it) \<leftarrow> nx (fst s);
               case x of None \<Rightarrow> Some (None, (it, False))
               | Some x \<Rightarrow> if P x then Some (Some x, (it, False)) else Some (None, (it, True)) })"

lemma iter_collect_take_while:
  "iter_collect nx s = Some xs \<Longrightarrow> iter_collect (take_while_next P nx) (s, False) = Some (takeWhile P xs)"
proof (induction xs arbitrary: s)
  case Nil
  then obtain s' where "nx s = Some (None, s')"
    by (subst (asm) iter_collect.simps) (auto split: bind_splits option.splits)
  then show ?case by (simp add: take_while_next_def)
next
  case (Cons x xs)
  then obtain s' where "nx s = Some (Some x, s')" "iter_collect nx s' = Some xs"
    by (subst (asm) (2) iter_collect.simps) (auto split: bind_splits option.splits)
  then show ?case using Cons.IH by (simp add: take_while_next_def)
qed

section \<open>The least head\<close>

lemma lowest_fold:
  "fold (lowest_step key) (enumerate 0 xs) None = r \<Longrightarrow>
    (case r of None \<Rightarrow> \<forall>x\<in>set xs. x = None
     | Some (i, x) \<Rightarrow> i < length xs \<and> xs ! i = Some x \<and>
         (\<forall>j y. j < length xs \<longrightarrow> xs ! j = Some y \<longrightarrow> key x \<le> key y \<and> (j < i \<longrightarrow> key x < key y)))"
proof (induction xs arbitrary: r rule: rev_induct)
  case (snoc z xs)
  let ?r = "fold (lowest_step key) (enumerate 0 xs) None"
  have r: "r = lowest_step key (length xs, z) ?r" using snoc.prems by (simp add: enumerate_append_eq)
  note IH = snoc.IH [of ?r, OF refl]
  show ?case
  proof (cases z)
    case None
    then show ?thesis using r IH by (auto simp: lowest_step_def nth_append less_Suc_eq split: option.splits)
  next
    case (Some x)
    show ?thesis
    proof (cases ?r)
      case none: None
      then have "xs ! j = None" if "j < length xs" for j using IH that by simp
      then show ?thesis using r none Some by (auto simp: lowest_step_def nth_append less_Suc_eq)
    next
      case (Some p)
      obtain i y where p: "p = (i, y)" by (cases p)
      have IH': "i < length xs" "xs ! i = Some y"
        "\<And>j w. j < length xs \<Longrightarrow> xs ! j = Some w \<Longrightarrow> key y \<le> key w \<and> (j < i \<longrightarrow> key y < key w)"
        using IH Some p by auto
      show ?thesis
      proof (cases "key x < key y")
        case True
        then have "r = Some (length xs, x)" using r Some p \<open>z = Some x\<close> by (simp add: lowest_step_def)
        then show ?thesis using True IH'(3) \<open>z = Some x\<close>
          by (auto simp: nth_append less_Suc_eq) (meson less_le_trans less_imp_le)+
      next
        case False
        then have "r = Some (i, y)" using r Some p \<open>z = Some x\<close> by (simp add: lowest_step_def)
        then show ?thesis using False IH' \<open>z = Some x\<close> by (auto simp: nth_append less_Suc_eq)
      qed
    qed
  qed
qed simp

lemma lowest_index_None: "lowest_index key xs = None \<longleftrightarrow> (\<forall>x\<in>set xs. x = None)"
proof -
  let ?r = "fold (lowest_step key) (enumerate 0 xs) None"
  note L = lowest_fold [of key xs ?r, OF refl]
  show ?thesis
  proof (cases ?r)
    case None
    then show ?thesis using L by (simp add: lowest_index_def)
  next
    case (Some p)
    then have "xs ! fst p = Some (snd p)" "fst p < length xs" using L by (cases p; simp)+
    then have "Some (snd p) \<in> set xs" by (metis nth_mem)
    then show ?thesis using Some by (auto simp: lowest_index_def)
  qed
qed

lemma lowest_index_Some:
  assumes "lowest_index key xs = Some i"
  obtains x where "i < length xs" "xs ! i = Some x"
    and "\<And>j y. j < length xs \<Longrightarrow> xs ! j = Some y \<Longrightarrow> key x \<le> key y"
    and "\<And>j y. j < i \<Longrightarrow> xs ! j = Some y \<Longrightarrow> key x < key y"
proof -
  let ?r = "fold (lowest_step key) (enumerate 0 xs) None"
  obtain x where r: "?r = Some (i, x)" using assms by (auto simp: lowest_index_def)
  have L: "i < length xs \<and> xs ! i = Some x \<and>
      (\<forall>j y. j < length xs \<longrightarrow> xs ! j = Some y \<longrightarrow> key x \<le> key y \<and> (j < i \<longrightarrow> key x < key y))"
    using lowest_fold [of key xs ?r, OF refl] by (simp add: r)
  show ?thesis
  proof (rule that)
    show "key x < key y" if "j < i" "xs ! j = Some y" for j y
    proof -
      have "j < length xs" using L that by simp
      then show ?thesis using L that by blast
    qed
  qed (use L in auto)
qed

section \<open>The loops on lists\<close>

fun drop_removal :: "'a \<Rightarrow> 'a list list \<Rightarrow> bool \<times> 'a list list" where
  "drop_removal x [] = (False, [])"
| "drop_removal x (n # ns) =
    (if peek n = Some x then (True, tl n # ns)
     else case drop_removal x ns of (r, ns) \<Rightarrow> (r, n # ns))"

lemma lowest_peek:
  assumes "lowest_index key (map peek ps) = Some i"
  obtains x where "i < length ps" "ps ! i = x # tl (ps ! i)" "hd (ps ! i) = x"
    and "\<And>j. j < length ps \<Longrightarrow> ps ! j \<noteq> [] \<Longrightarrow> key x \<le> key (hd (ps ! j))"
    and "\<And>j. j < i \<Longrightarrow> ps ! j \<noteq> [] \<Longrightarrow> key x < key (hd (ps ! j))"
proof -
  have hd: "peek xs = Some y \<longleftrightarrow> xs \<noteq> [] \<and> y = hd xs" for xs :: "'a list" and y
    by (cases xs) (auto simp: peek_def)
  from assms obtain x where x: "i < length (map peek ps)" "map peek ps ! i = Some x"
    "\<And>j y. j < length (map peek ps) \<Longrightarrow> map peek ps ! j = Some y \<Longrightarrow> key x \<le> key y"
    "\<And>j y. j < i \<Longrightarrow> map peek ps ! j = Some y \<Longrightarrow> key x < key y"
    by (rule lowest_index_Some) blast
  have i: "i < length ps" "ps ! i \<noteq> []" "hd (ps ! i) = x" using x(1,2) by (auto simp: hd)
  show ?thesis
  proof (rule that [of x])
    show "ps ! i = x # tl (ps ! i)" using i(2,3) by (cases "ps ! i") auto
    show "key x \<le> key (hd (ps ! j))" if "j < length ps" "ps ! j \<noteq> []" for j
      using x(3) [of j "hd (ps ! j)"] that by (simp add: hd)
    show "key x < key (hd (ps ! j))" if "j < i" "ps ! j \<noteq> []" for j
      using x(4) [of j "hd (ps ! j)"] i(1) that by (simp add: hd)
  qed (use i in auto)
qed

lemma length_concat_step:
  "i < length ps \<Longrightarrow> ps ! i \<noteq> [] \<Longrightarrow> length (concat (ps[i := tl (ps ! i)])) < length (concat ps)"
  by (induction ps arbitrary: i) (auto split: nat.split)

lemma lowest_step_shorter [termination_simp]:
  "lowest_index key (map peek ps) = Some i \<Longrightarrow> length (concat (ps[i := tl (ps ! i)])) < length (concat ps)"
  by (erule lowest_peek) (auto intro!: length_concat_step)

function merged :: "('a \<Rightarrow> 'k::linorder) \<Rightarrow> 'a list list \<Rightarrow> 'a list list \<Rightarrow> 'a list" where
  "merged key ps ns =
    (case lowest_index key (map peek ps) of
       None \<Rightarrow> []
     | Some i \<Rightarrow>
         (case drop_removal (hd (ps ! i)) (take i ns) of
            (removed, newer) \<Rightarrow>
              (if removed then [] else [hd (ps ! i)]) @
              merged key (ps[i := tl (ps ! i)]) (newer @ drop i ns)))"
  by pat_completeness auto
termination
  by (relation "measure (\<lambda>(key, ps, ns). length (concat ps))") (auto simp: lowest_step_shorter)

declare merged.simps [simp del]

function net_changes :: "('a \<Rightarrow> 'k::linorder) \<Rightarrow> 'a list list \<Rightarrow> 'a list list \<Rightarrow> (TripleChange \<times> 'a) list" where
  "net_changes key ps ns =
    (case (lowest_index key (map peek ps), lowest_index key (map peek ns)) of
       (None, None) \<Rightarrow> []
     | (Some i, None) \<Rightarrow> (Addition, hd (ps ! i)) # net_changes key (ps[i := tl (ps ! i)]) ns
     | (None, Some j) \<Rightarrow> (Removal, hd (ns ! j)) # net_changes key ps (ns[j := tl (ns ! j)])
     | (Some i, Some j) \<Rightarrow>
         if key (hd (ps ! i)) < key (hd (ns ! j))
         then (Addition, hd (ps ! i)) # net_changes key (ps[i := tl (ps ! i)]) ns
         else if key (hd (ns ! j)) < key (hd (ps ! i))
         then (Removal, hd (ns ! j)) # net_changes key ps (ns[j := tl (ns ! j)])
         else net_changes key (ps[i := tl (ps ! i)]) (ns[j := tl (ns ! j)]))"
  by pat_completeness auto
termination
  by (relation "measure (\<lambda>(key, ps, ns). length (concat ps) + length (concat ns))")
    (auto simp: lowest_step_shorter add_less_mono)

declare net_changes.simps [simp del]

section \<open>The interface of the iterators of a layer\<close>

locale peekable =
  fixes pk :: "'s \<Rightarrow> ('a option \<times> 's) panics"
    and nx :: "'s \<Rightarrow> ('a option \<times> 's) panics"
    and holds :: "'s \<Rightarrow> 'a list \<Rightarrow> bool"
  assumes next_holds: "holds s xs \<Longrightarrow> \<exists>s'. nx s = Some (peek xs, s') \<and> holds s' (tl xs)"
    and peek_holds: "holds s xs \<Longrightarrow> \<exists>s'. pk s = Some (peek xs, s') \<and> holds s' xs"
begin

lemma peek_all_holds:
  "list_all2 holds ss xss \<Longrightarrow> \<exists>ss'. peek_all pk ss = Some (map peek xss, ss') \<and> list_all2 holds ss' xss"
proof (induction rule: list_all2_induct)
  case (Cons s ss xs xss)
  from peek_holds [OF Cons(1)] obtain s' where "pk s = Some (peek xs, s')" "holds s' xs" by blast
  with Cons.IH show ?case by (auto simp: peek_all_def)
qed (simp add: peek_all_def)

lemma scan_removals_holds:
  "list_all2 holds ss xss \<Longrightarrow> \<exists>ss'. scan_removals pk nx x ss = Some (fst (drop_removal x xss), ss') \<and>
    list_all2 holds ss' (snd (drop_removal x xss))"
proof (induction rule: list_all2_induct)
  case (Cons s ss xs xss)
  from peek_holds [OF Cons(1)] obtain s' where s': "pk s = Some (peek xs, s')" "holds s' xs" by blast
  from next_holds [OF s'(2)] obtain s'' where "nx s' = Some (peek xs, s'')" "holds s'' (tl xs)" by blast
  with s' Cons show ?case by (auto split: prod.splits)
qed simp

lemma stack_next_merged:
  assumes "list_all2 holds ps pss" "list_all2 holds ns nss" "length ps = length ns"
  shows "iter_collect (stack_next pk nx key) (ps, ns) = Some (merged key pss nss)"
  using assms
proof (induction key pss nss arbitrary: ps ns rule: merged.induct)
  case (1 key pss nss)
  from peek_all_holds [OF "1.prems"(1)] obtain ps' where
    ps': "peek_all pk ps = Some (map peek pss, ps')" "list_all2 holds ps' pss" by blast
  have len: "length ps = length pss" "length ns = length nss" "length ps' = length pss"
    using "1.prems" ps'(2) by (auto dest: list_all2_lengthD)
  show ?case
  proof (cases "lowest_index key (map peek pss)")
    case None
    then show ?thesis using ps'
      by (subst iter_collect.simps, subst stack_next.simps) (simp add: merged.simps)
  next
    case (Some i)
    then obtain x where x: "i < length pss" "pss ! i = x # tl (pss ! i)" "hd (pss ! i) = x"
      by (rule lowest_peek) blast
    have "holds (ps' ! i) (pss ! i)" using ps'(2) x(1) by (simp add: list_all2_nthD2)
    from next_holds [OF this] obtain it where it: "nx (ps' ! i) = Some (Some x, it)" "holds it (tl (pss ! i))"
      using x(2) by (metis peek_Cons)
    have "list_all2 holds (take i ns) (take i nss)" using "1.prems"(2) by simp
    from scan_removals_holds [OF this] obtain newer where newer:
      "scan_removals pk nx x (take i ns) = Some (fst (drop_removal x (take i nss)), newer)"
      "list_all2 holds newer (snd (drop_removal x (take i nss)))" by blast
    let ?s = "(ps'[i := it], newer @ drop i ns)"
    have pos: "list_all2 holds (ps'[i := it]) (pss[i := tl (pss ! i)])"
      using ps'(2) it(2) by (simp add: list_all2_update_cong)
    have neg: "list_all2 holds (newer @ drop i ns) (snd (drop_removal x (take i nss)) @ drop i nss)"
      using newer(2) "1.prems"(2) by (simp add: list_all2_appendI)
    have "length newer = length (take i ns)"
    proof -
      have "length (snd (drop_removal x xs)) = length xs" for xs
        by (induction xs) (auto split: prod.splits)
      then show ?thesis using newer(2) len by (metis list_all2_lengthD length_take)
    qed
    then have l: "length (ps'[i := it]) = length (newer @ drop i ns)" using len "1.prems"(3) x(1) by simp
    note IH = "1.IH" [OF Some surjective_pairing [symmetric] pos neg [folded x(3)] l]
    have step: "stack_next pk nx key (ps, ns) =
      (if fst (drop_removal x (take i nss)) then stack_next pk nx key ?s else Some (Some x, ?s))"
      using ps'(1) Some it(1) newer(1) x len "1.prems"(3)
      by (subst stack_next.simps) (simp add: rust_assert_def)
    show ?thesis
    proof (cases "fst (drop_removal x (take i nss))")
      case True
      then have "iter_collect (stack_next pk nx key) (ps, ns) = iter_collect (stack_next pk nx key) ?s"
        using step by (subst (1 2) iter_collect.simps) simp
      then show ?thesis using IH Some True x by (subst merged.simps) (simp add: split_beta)
    next
      case False
      then show ?thesis using IH Some step x by (subst merged.simps) (simp add: split_beta)
    qed
  qed
qed

lemma lowest_holds:
  assumes "list_all2 holds ps pss" "lowest_index key (map peek pss) = Some i"
  obtains x pit pit' it where "hd (pss ! i) = x" "nx (ps ! i) = Some (Some x, it)"
    "list_all2 holds (ps[i := it]) (pss[i := tl (pss ! i)])"
    "pk (ps ! i) = Some (Some x, pit)" "list_all2 holds (ps[i := pit]) pss"
    "nx pit = Some (Some x, pit')" "list_all2 holds (ps[i := pit']) (pss[i := tl (pss ! i)])"
proof -
  from assms(2) obtain x where x: "i < length pss" "pss ! i = x # tl (pss ! i)" "hd (pss ! i) = x"
    by (rule lowest_peek) blast
  then have p: "peek (pss ! i) = Some x" by (metis peek_Cons)
  have h: "holds (ps ! i) (pss ! i)" using assms(1) x(1) by (simp add: list_all2_nthD2)
  from next_holds [OF h] obtain it where it: "nx (ps ! i) = Some (Some x, it)" "holds it (tl (pss ! i))" using p by auto
  from peek_holds [OF h] obtain pit where pit: "pk (ps ! i) = Some (Some x, pit)" "holds pit (pss ! i)" using p by auto
  from next_holds [OF pit(2)] obtain pit' where pit': "nx pit = Some (Some x, pit')" "holds pit' (tl (pss ! i))"
    using p by auto
  have "list_all2 holds (ps[i := pit]) (pss[i := pss ! i])"
    using assms(1) pit(2) by (rule list_all2_update_cong)
  then have "list_all2 holds (ps[i := pit]) pss" by simp
  then show ?thesis
    using that [OF x(3) it(1) _ pit(1) _ pit'(1)] assms(1) it(2) pit'(2) by (simp add: list_all2_update_cong)
qed

lemma changes_next_net:
  assumes "list_all2 holds ps pss" "list_all2 holds ns nss"
  shows "iter_collect (changes_next pk nx key) (ps, ns) = Some (net_changes key pss nss)"
  using assms
proof (induction key pss nss arbitrary: ps ns rule: net_changes.induct)
  case (1 key pss nss)
  from peek_all_holds [OF "1.prems"(1)] obtain ps' where
    ps': "peek_all pk ps = Some (map peek pss, ps')" "list_all2 holds ps' pss" by blast
  from peek_all_holds [OF "1.prems"(2)] obtain ns' where
    ns': "peek_all pk ns = Some (map peek nss, ns')" "list_all2 holds ns' nss" by blast
  let ?lp = "lowest_index key (map peek pss)" and ?ln = "lowest_index key (map peek nss)"
  consider "?lp = None" "?ln = None" | i where "?lp = Some i" "?ln = None" | j where "?lp = None" "?ln = Some j"
    | i j where "?lp = Some i" "?ln = Some j" by fastforce
  then show ?case
  proof cases
    case 1
    then have "changes_next pk nx key (ps, ns) = Some (None, (ps', ns'))"
      using ps'(1) ns'(1) by (subst changes_next.simps) simp
    then show ?thesis using 1 by (subst net_changes.simps) simp
  next
    case (2 i)
    from lowest_holds [OF ps'(2) 2(1)] obtain x it where it: "hd (pss ! i) = x" "nx (ps' ! i) = Some (Some x, it)"
      "list_all2 holds (ps'[i := it]) (pss[i := tl (pss ! i)])" by metis
    then have "changes_next pk nx key (ps, ns) = Some (Some (Addition, x), (ps'[i := it], ns'))"
      using ps'(1) ns'(1) 2 by (subst changes_next.simps) simp
    then show ?thesis using 2 it "1.IH"(2) [OF refl 2 it(3) ns'(2)] by (subst net_changes.simps) simp
  next
    case (3 j)
    from lowest_holds [OF ns'(2) 3(2)] obtain x it where it: "hd (nss ! j) = x" "nx (ns' ! j) = Some (Some x, it)"
      "list_all2 holds (ns'[j := it]) (nss[j := tl (nss ! j)])" by metis
    then have "changes_next pk nx key (ps, ns) = Some (Some (Removal, x), (ps', ns'[j := it]))"
      using ps'(1) ns'(1) 3 by (subst changes_next.simps) simp
    then show ?thesis using 3 it "1.IH"(1) [OF refl 3 ps'(2) it(3)] by (subst net_changes.simps) simp
  next
    case (4 i j)
    from lowest_holds [OF ps'(2) 4(1)] obtain x pit it where p: "hd (pss ! i) = x"
      "pk (ps' ! i) = Some (Some x, pit)" "list_all2 holds (ps'[i := pit]) pss"
      "nx pit = Some (Some x, it)" "list_all2 holds (ps'[i := it]) (pss[i := tl (pss ! i)])" by metis
    from lowest_holds [OF ns'(2) 4(2)] obtain y nit it' where n: "hd (nss ! j) = y"
      "pk (ns' ! j) = Some (Some y, nit)" "list_all2 holds (ns'[j := nit]) nss"
      "nx nit = Some (Some y, it')" "list_all2 holds (ns'[j := it']) (nss[j := tl (nss ! j)])" by metis
    have step: "changes_next pk nx key (ps, ns) =
      (if key x < key y then Some (Some (Addition, x), (ps'[i := it], ns'[j := nit]))
       else if key y < key x then Some (Some (Removal, y), (ps'[i := pit], ns'[j := it']))
       else changes_next pk nx key (ps'[i := it], ns'[j := it']))"
      using ps'(1) ns'(1) 4 p n by (subst changes_next.simps) simp
    show ?thesis
    proof (cases "key x < key y \<or> key y < key x")
      case True
      then show ?thesis using 4 step p n "1.IH"(3) [OF refl 4 _ p(5) n(3)] "1.IH"(4) [OF refl 4 _ _ p(3) n(5)]
        by (subst net_changes.simps) auto
    next
      case False
      then have "iter_collect (changes_next pk nx key) (ps, ns) =
          iter_collect (changes_next pk nx key) (ps'[i := it], ns'[j := it'])"
        using step by (subst (1 2) iter_collect.simps) simp
      also have "\<dots> = Some (net_changes key (pss[i := tl (pss ! i)]) (nss[j := tl (nss ! j)]))"
        using False p(1) n(1) by (intro "1.IH"(5) [OF refl 4 _ _ p(5) n(5)]) auto
      also have "net_changes key (pss[i := tl (pss ! i)]) (nss[j := tl (nss ! j)]) = net_changes key pss nss"
        using 4 False p(1) n(1) by (subst (2) net_changes.simps) simp
      finally show ?thesis .
    qed
  qed
qed

end

section \<open>What the loops on lists compute\<close>

text \<open>
  The events of an item, newest first: whether a layer adds it and whether it removes it.
  \<open>added b\<close> is its state after the events when \<open>b\<close> was its state before; \<open>alternating b\<close>
  says that a layer adds only what was absent and removes only what was present.
\<close>

fun added :: "bool \<Rightarrow> (bool \<times> bool) list \<Rightarrow> bool" where
  "added b [] = b"
| "added b ((p, n) # es) = (p \<or> \<not> n \<and> added b es)"

fun alternating :: "bool \<Rightarrow> (bool \<times> bool) list \<Rightarrow> bool" where
  "alternating b [] = True"
| "alternating b ((p, n) # es) =
    (alternating b es \<and> \<not> (p \<and> n) \<and> (p \<longrightarrow> \<not> added b es) \<and> (n \<longrightarrow> added b es))"

definition events :: "'a \<Rightarrow> 'a list list \<Rightarrow> 'a list list \<Rightarrow> (bool \<times> bool) list" where
  "events t ps ns = map2 (\<lambda>p n. (t \<in> set p, t \<in> set n)) ps ns"

lemma added_first:
  "added False es \<Longrightarrow> i < length es \<Longrightarrow> fst (es ! i) \<Longrightarrow> \<forall>j<i. \<not> fst (es ! j) \<Longrightarrow> \<forall>j<i. \<not> snd (es ! j)"
proof (induction es arbitrary: i)
  case (Cons e es)
  show ?case
  proof (cases i)
    case (Suc k)
    have "\<not> fst e" using Cons.prems(4) Suc by (metis nth_Cons_0 zero_less_Suc)
    then have "\<not> snd e" "added False es" using Cons.prems(1) by (cases e; auto)+
    moreover have "\<forall>j<k. \<not> fst (es ! j)" using Cons.prems(4) Suc by (metis nth_Cons_Suc Suc_less_eq)
    ultimately have "\<forall>j<k. \<not> snd (es ! j)" using Cons.IH [of k] Cons.prems(2,3) Suc by simp
    then show ?thesis using Suc \<open>\<not> snd e\<close> by (auto simp: less_Suc_eq_0_disj)
  qed simp
qed simp

lemma step_yield:
  "alternating False es \<Longrightarrow> i < length es \<Longrightarrow> fst (es ! i) \<Longrightarrow> \<forall>j<i. \<not> fst (es ! j) \<Longrightarrow> \<forall>j<i. \<not> snd (es ! j) \<Longrightarrow>
    added False es \<and> alternating False (es[i := (False, snd (es ! i))]) \<and>
    \<not> added False (es[i := (False, snd (es ! i))])"
proof (induction es arbitrary: i)
  case (Cons e es)
  show ?case
  proof (cases i)
    case 0
    then show ?thesis using Cons.prems by (cases e) auto
  next
    case (Suc k)
    have e: "e = (False, False)" using Cons.prems(4,5) Suc by (metis nth_Cons_0 prod.collapse zero_less_Suc)
    have "\<forall>j<k. \<not> fst (es ! j)" "\<forall>j<k. \<not> snd (es ! j)"
      using Cons.prems(4,5) Suc by (metis nth_Cons_Suc Suc_less_eq)+
    then show ?thesis using Cons.IH [of k] Cons.prems(1-3) Suc e by simp
  qed
qed simp

lemma step_remove:
  "alternating False es \<Longrightarrow> i < length es \<Longrightarrow> fst (es ! i) \<Longrightarrow> \<forall>j<i. \<not> fst (es ! j) \<Longrightarrow>
    k < i \<Longrightarrow> snd (es ! k) \<Longrightarrow> \<forall>j<k. \<not> snd (es ! j) \<Longrightarrow>
    \<not> added False es \<and> alternating False (es[i := (False, snd (es ! i)), k := (False, False)]) \<and>
    \<not> added False (es[i := (False, snd (es ! i)), k := (False, False)])"
proof (induction es arbitrary: i k)
  case (Cons e es)
  then obtain m where m: "i = Suc m" by (cases i) auto
  have e: "\<not> fst e" using Cons.prems(4) m by (metis nth_Cons_0 zero_less_Suc)
  have es: "m < length es" "fst (es ! m)" "\<forall>j<m. \<not> fst (es ! j)" "alternating False es"
    using Cons.prems m by (cases e; auto)+
  show ?case
  proof (cases k)
    case 0
    then have "snd e" using Cons.prems(6) by simp
    then have "added False es" using Cons.prems(1) by (cases e) auto
    then have "\<forall>j<m. \<not> snd (es ! j)" using es by (intro added_first) auto
    with step_yield [OF es(4,1-3)] show ?thesis using 0 m \<open>snd e\<close> e Cons.prems(1) by (cases e) simp
  next
    case (Suc l)
    have "\<not> snd e" using Cons.prems(7) Suc by (metis nth_Cons_0 zero_less_Suc)
    moreover have "snd (es ! l)" "l < m" "\<forall>j<l. \<not> snd (es ! j)" using Cons.prems(5-7) m Suc by auto
    ultimately show ?thesis using Cons.IH [OF es(4,1-3), of l] m Suc e by (cases e) simp
  qed
qed simp

lemma length_events [simp]: "length ps = length ns \<Longrightarrow> length (events t ps ns) = length ns"
  by (simp add: events_def)

lemma nth_events:
  "length ps = length ns \<Longrightarrow> i < length ns \<Longrightarrow> events t ps ns ! i = (t \<in> set (ps ! i), t \<in> set (ns ! i))"
  by (simp add: events_def)

lemma events_added: "length ps = length ns \<Longrightarrow> added False (events t ps ns) \<Longrightarrow> t \<in> set (concat ps)"
proof (induction ps ns rule: list_induct2)
  case (Cons p ps n ns)
  then show ?case by (auto simp: events_def)
qed (simp add: events_def)

lemma events_removed:
  "length ps = length ns \<Longrightarrow> alternating False (events t ps ns) \<Longrightarrow> t \<in> set (concat ns) \<Longrightarrow> t \<in> set (concat ps)"
proof (induction ps ns rule: list_induct2)
  case (Cons p ps n ns)
  show ?case
  proof (cases "t \<in> set n")
    case True
    then have "added False (events t ps ns)" using Cons.prems by (simp add: events_def)
    then show ?thesis using events_added [OF Cons.hyps] by simp
  next
    case False
    then show ?thesis using Cons by (simp add: events_def)
  qed
qed simp

lemma events_update:
  assumes "length ps = length ns" "i < length ns"
  shows "events t (ps[i := p]) ns = (events t ps ns)[i := (t \<in> set p, t \<in> set (ns ! i))]"
    and "events t ps (ns[i := p]) = (events t ps ns)[i := (t \<in> set (ps ! i), t \<in> set p)]"
  using assms by (auto simp: events_def list_eq_iff_nth_eq nth_list_update)

lemma drop_removal_cases:
  obtains (None) "drop_removal x ns = (False, ns)" "\<forall>n\<in>set ns. peek n \<noteq> Some x"
  | (Some) k where "k < length ns" "peek (ns ! k) = Some x" "\<forall>j<k. peek (ns ! j) \<noteq> Some x"
      "drop_removal x ns = (True, ns[k := tl (ns ! k)])"
proof (induction ns arbitrary: thesis)
  case (Cons n ns)
  show ?case
  proof (cases "peek n = Some x")
    case True
    then show ?thesis by (intro Cons.prems(2) [of 0]) auto
  next
    case n: False
    show ?thesis
    proof (rule Cons.IH)
      assume "drop_removal x ns = (False, ns)" "\<forall>n\<in>set ns. peek n \<noteq> Some x"
      then show ?thesis using n by (intro Cons.prems(1)) auto
    next
      fix k assume k: "k < length ns" "peek (ns ! k) = Some x" "\<forall>j<k. peek (ns ! j) \<noteq> Some x"
        "drop_removal x ns = (True, ns[k := tl (ns ! k)])"
      then show ?thesis using n by (intro Cons.prems(2) [of "Suc k"]) (auto simp: less_Suc_eq_0_disj)
    qed
  qed
qed simp

definition key_sorted :: "('a \<Rightarrow> 'k::linorder) \<Rightarrow> 'a list list \<Rightarrow> bool" where
  "key_sorted key xss \<longleftrightarrow> (\<forall>xs\<in>set xss. sorted_wrt (\<lambda>x y. key x < key y) xs)"

lemma key_sorted_nth: "key_sorted key xss \<Longrightarrow> i < length xss \<Longrightarrow> sorted_wrt (\<lambda>x y. key x < key y) (xss ! i)"
  by (simp add: key_sorted_def)

lemma key_sorted_tl:
  assumes "key_sorted key xss" "i < length xss"
  shows "key_sorted key (xss[i := tl (xss ! i)])"
proof -
  have "sorted_wrt (\<lambda>x y. key x < key y) (tl (xss ! i))"
    using key_sorted_nth [OF assms] by (cases "xss ! i") auto
  then show ?thesis using assms(1) set_update_subset_insert [of xss i] by (fastforce simp: key_sorted_def)
qed

lemma key_sorted_hd:
  assumes "sorted_wrt (\<lambda>x y. key x < key y) (xs :: 'a list)" "z \<in> set xs"
  shows "key (hd xs) \<le> (key z :: 'k::linorder)" "z \<noteq> hd xs \<Longrightarrow> z \<in> set (tl xs)" "hd xs \<notin> set (tl xs)"
  using assms by (cases xs; auto)+

lemma lowest_least:
  assumes "lowest_index key (map peek ps) = Some i" "key_sorted key ps" "z \<in> set (concat ps)"
  shows "key (hd (ps ! i)) \<le> key z"
proof -
  from assms(3) obtain xs where xs: "xs \<in> set ps" "z \<in> set xs" by auto
  from xs(1) obtain j where "j < length ps" "ps ! j = xs" unfolding in_set_conv_nth by blast
  with xs(2) have j: "j < length ps" "z \<in> set (ps ! j)" by simp_all
  have "key (hd (ps ! j)) \<le> key z" using key_sorted_hd(1) [OF key_sorted_nth [OF assms(2) j(1)] j(2)] .
  moreover have "key (hd (ps ! i)) \<le> key (hd (ps ! j))"
    using assms(1)
  proof (rule lowest_peek)
    fix x assume "hd (ps ! i) = x" "\<And>j. j < length ps \<Longrightarrow> ps ! j \<noteq> [] \<Longrightarrow> key x \<le> key (hd (ps ! j))"
    moreover have "ps ! j \<noteq> []" using j(2) by auto
    ultimately show ?thesis using j(1) by blast
  qed
  ultimately show ?thesis by simp
qed

lemma lowest_first:
  assumes "lowest_index key (map peek ps) = Some i" "key_sorted key ps" "j < i"
  shows "hd (ps ! i) \<notin> set (ps ! j)"
proof
  from assms(1) obtain x where x: "i < length ps" "hd (ps ! i) = x"
    "\<And>j. j < i \<Longrightarrow> ps ! j \<noteq> [] \<Longrightarrow> key x < key (hd (ps ! j))" by (rule lowest_peek) blast
  assume a: "hd (ps ! i) \<in> set (ps ! j)"
  then have "key (hd (ps ! j)) \<le> key x"
    using key_sorted_hd(1) [OF key_sorted_nth [OF assms(2)] a] x assms(3) by simp
  moreover have "key x < key (hd (ps ! j))" using x(3) [OF assms(3)] a by force
  ultimately show False by simp
qed

text \<open>
  One round of the loop: the least addition is consumed, with the removal that cancels it.
  \<open>R\<close> is a set of items that is closed downwards and whose events alternate; it is the
  whole type unless the iterators have been moved forward.
\<close>

definition merge_round ::
  "('a \<Rightarrow> 'k::linorder) \<Rightarrow> 'a list list \<Rightarrow> 'a list list \<Rightarrow> ('a \<Rightarrow> bool) \<Rightarrow> nat \<Rightarrow> bool" where
  "merge_round key ps ns R i \<longleftrightarrow>
    length ps = length ns \<and> key_sorted key ps \<and> key_sorted key ns \<and> inj key \<and>
    (\<forall>x y. R y \<longrightarrow> key x \<le> key y \<longrightarrow> R x) \<and> (\<forall>t. R t \<longrightarrow> alternating False (events t ps ns)) \<and>
    lowest_index key (map peek ps) = Some i"

lemma merge_roundD:
  assumes "merge_round key ps ns R i"
  shows "length ps = length ns" "key_sorted key ps" "key_sorted key ns" "inj key"
    and "\<And>x y. R y \<Longrightarrow> key x \<le> key y \<Longrightarrow> R x" "\<And>t. R t \<Longrightarrow> alternating False (events t ps ns)"
    and "lowest_index key (map peek ps) = Some i" "i < length ps" "i < length ns"
    and "ps ! i = hd (ps ! i) # tl (ps ! i)" "\<And>z. z \<in> set (concat ps) \<Longrightarrow> key (hd (ps ! i)) \<le> key z"
proof -
  from assms show D: "length ps = length ns" "key_sorted key ps" "key_sorted key ns" "inj key"
    "\<And>x y. R y \<Longrightarrow> key x \<le> key y \<Longrightarrow> R x" "\<And>t. R t \<Longrightarrow> alternating False (events t ps ns)"
    "lowest_index key (map peek ps) = Some i" by (auto simp: merge_round_def)
  show "key (hd (ps ! i)) \<le> key z" if "z \<in> set (concat ps)" for z using lowest_least [OF D(7,2) that] .
  from D(7) obtain x where "i < length ps" "ps ! i = x # tl (ps ! i)" "hd (ps ! i) = x" by (rule lowest_peek) blast
  then show "i < length ps" "i < length ns" "ps ! i = hd (ps ! i) # tl (ps ! i)" using D(1) by auto
qed

lemma round_positive:
  assumes "merge_round key ps ns R i"
  shows "events t (ps[i := tl (ps ! i)]) ns =
    (events t ps ns)[i := (t \<noteq> hd (ps ! i) \<and> t \<in> set (ps ! i), t \<in> set (ns ! i))]"
proof -
  note D = merge_roundD [OF assms]
  have "hd (ps ! i) \<in> set (ps ! i)" using D(10) by (metis list.set_intros(1))
  from key_sorted_hd(3) [OF key_sorted_nth [OF D(2,8)] this]
  have "t \<in> set (tl (ps ! i)) \<longleftrightarrow> t \<noteq> hd (ps ! i) \<and> t \<in> set (ps ! i)"
    using D(10) by (metis list.set_intros(2) set_ConsD)
  then show ?thesis by (simp only: events_update(1) [OF D(1,9)])
qed

lemma round_removal:
  assumes "merge_round key ps ns R i" "drop_removal (hd (ps ! i)) (take i ns) = (removed, newer)"
  obtains (kept) "\<not> removed" "newer @ drop i ns = ns" "\<forall>k<i. peek (ns ! k) \<noteq> Some (hd (ps ! i))"
  | (dropped) k where "removed" "k < i" "newer @ drop i ns = ns[k := tl (ns ! k)]"
      "peek (ns ! k) = Some (hd (ps ! i))" "\<forall>j<k. peek (ns ! j) \<noteq> Some (hd (ps ! i))"
proof (cases rule: drop_removal_cases [of "hd (ps ! i)" "take i ns"])
  case None
  have "peek (ns ! k) \<noteq> Some (hd (ps ! i))" if "k < i" for k
  proof -
    have "ns ! k \<in> set (take i ns)" using that merge_roundD(9) [OF assms(1)] by (auto simp: in_set_conv_nth)
    then show ?thesis using None(2) by blast
  qed
  then show ?thesis using None(1) assms(2) by (intro kept) auto
next
  case (Some k)
  then have "k < i" by simp
  moreover have "(take i ns)[k := tl (ns ! k)] @ drop i ns = ns[k := tl (ns ! k)]"
    using \<open>k < i\<close> by (metis append_take_drop_id drop_update_cancel take_update_swap)
  ultimately show ?thesis using Some assms(2) by (intro dropped [of k]) auto
qed

lemma round_negative_hd:
  assumes r: "merge_round key ps ns R i" and "R (hd (ps ! i))" "k < length ns" "hd (ps ! i) \<in> set (ns ! k)"
  shows "peek (ns ! k) = Some (hd (ps ! i))"
proof -
  note D = merge_roundD [OF r]
  from assms(4) obtain y ys where y: "ns ! k = y # ys" by (cases "ns ! k") auto
  have "key y \<le> key (hd (ps ! i))"
    using key_sorted_hd(1) [OF key_sorted_nth [OF D(3) assms(3)] assms(4)] y by simp
  moreover from this have "R y" using D(5) assms(2) by blast
  moreover have "y \<in> set (ns ! k)" using y by simp
  then have "y \<in> set (concat ns)" using assms(3) by (metis UN_I nth_mem set_concat)
  ultimately have "y \<in> set (concat ps)" using events_removed [OF D(1) D(6)] by blast
  then have "key (hd (ps ! i)) \<le> key y" by (rule D(11))
  with \<open>key y \<le> key (hd (ps ! i))\<close> have "y = hd (ps ! i)" using D(4) by (simp add: inj_eq)
  then show ?thesis using y by (simp add: peek_def)
qed

lemma negative_tl:
  assumes "key_sorted key ns" "k < length ns" "peek (ns ! k) = Some x"
  shows "x \<notin> set (tl (ns ! k))" "x \<in> set (ns ! k)" "t \<noteq> x \<Longrightarrow> t \<in> set (tl (ns ! k)) \<longleftrightarrow> t \<in> set (ns ! k)"
proof -
  from assms(3) obtain ys where y: "ns ! k = x # ys" by (cases "ns ! k") (auto simp: peek_def)
  then show "x \<in> set (ns ! k)" "t \<noteq> x \<Longrightarrow> t \<in> set (tl (ns ! k)) \<longleftrightarrow> t \<in> set (ns ! k)" by auto
  show "x \<notin> set (tl (ns ! k))" using key_sorted_nth [OF assms(1,2)] y by auto
qed

text \<open>The lists stay sorted, and the events of the other items stay as they are.\<close>

lemma round_keeps:
  assumes r: "merge_round key ps ns R i" and d: "drop_removal (hd (ps ! i)) (take i ns) = (removed, newer)"
  shows "length (ps[i := tl (ps ! i)]) = length (newer @ drop i ns)"
    "key_sorted key (ps[i := tl (ps ! i)])" "key_sorted key (newer @ drop i ns)"
    "t \<noteq> hd (ps ! i) \<Longrightarrow> events t (ps[i := tl (ps ! i)]) (newer @ drop i ns) = events t ps ns"
proof -
  note D = merge_roundD [OF r]
  let ?ps = "ps[i := tl (ps ! i)]"
  show "key_sorted key ?ps" by (rule key_sorted_tl [OF D(2,8)])
  show "length ?ps = length (newer @ drop i ns)" "key_sorted key (newer @ drop i ns)"
    using r d D(1,3,9) key_sorted_tl [OF D(3)] by (cases rule: round_removal; simp)+
  assume t: "t \<noteq> hd (ps ! i)"
  have pos: "events t ?ps ns = events t ps ns"
    using t nth_events [OF D(1,9), of t] by (simp add: round_positive [OF r]) (metis list_update_id)
  show "events t ?ps (newer @ drop i ns) = events t ps ns"
    using r d
  proof (cases rule: round_removal)
    case kept
    then show ?thesis using pos by simp
  next
    case (dropped k)
    have k: "k < length ns" "length ?ps = length ns" using dropped(2) D(1,9) by auto
    have "events t ?ps (newer @ drop i ns) = (events t ?ps ns)[k := (t \<in> set (?ps ! k), t \<in> set (ns ! k))]"
      using negative_tl(3) [OF D(3) k(1) dropped(4) t] by (simp add: dropped(3) events_update(2) [OF k(2,1)])
    also have "\<dots> = events t ?ps ns" using nth_events [OF k(2,1), of t] by (metis list_update_id)
    finally show ?thesis using pos by simp
  qed
qed

text \<open>The least item loses its newest addition, and with it the removal above that, if any.\<close>

lemma round_item:
  assumes r: "merge_round key ps ns R i" and d: "drop_removal (hd (ps ! i)) (take i ns) = (removed, newer)"
    and R: "R (hd (ps ! i))"
  shows "alternating False (events (hd (ps ! i)) (ps[i := tl (ps ! i)]) (newer @ drop i ns)) \<and>
    \<not> added False (events (hd (ps ! i)) (ps[i := tl (ps ! i)]) (newer @ drop i ns)) \<and>
    (added False (events (hd (ps ! i)) ps ns) \<longleftrightarrow> \<not> removed)"
proof -
  note D = merge_roundD [OF r]
  let ?x = "hd (ps ! i)" and ?ps = "ps[i := tl (ps ! i)]"
  let ?es = "events ?x ps ns"
  have "?x \<in> set (ps ! i)" using D(10) by (metis list.set_intros(1))
  then have e: "i < length ?es" "fst (?es ! i)" "snd (?es ! i) = (?x \<in> set (ns ! i))"
    using D(1,9) by (simp_all add: nth_events)
  have first: "\<forall>j<i. \<not> fst (?es ! j)"
    using lowest_first [OF D(7,2)] D(1,9) by (simp add: nth_events)
  have snd: "snd (?es ! j) \<longleftrightarrow> peek (ns ! j) = Some ?x" if "j < i" for j
    using that D(9) round_negative_hd [OF r R, of j] negative_tl(2) [OF D(3), of j]
    by (auto simp: nth_events [OF D(1)])
  have pos: "events ?x ?ps ns = ?es[i := (False, snd (?es ! i))]" using e(3) by (simp add: round_positive [OF r])
  show ?thesis
    using r d
  proof (cases rule: round_removal)
    case kept
    then have "\<forall>j<i. \<not> snd (?es ! j)" using snd by simp
    from step_yield [OF D(6) [OF R] e(1,2) first this] show ?thesis using kept pos by simp
  next
    case (dropped k)
    have k: "k < length ns" "length ?ps = length ns" using dropped(2) D(1,9) by auto
    have "?x \<notin> set (?ps ! k)" using lowest_first [OF D(7,2) dropped(2)] dropped(2) by simp
    then have "events ?x ?ps (newer @ drop i ns) = (events ?x ?ps ns)[k := (False, False)]"
      using negative_tl(1) [OF D(3) k(1) dropped(4)] by (simp add: dropped(3) events_update(2) [OF k(2,1)])
    moreover have "snd (?es ! k)" "\<forall>j<k. \<not> snd (?es ! j)" using snd dropped by auto
    ultimately show ?thesis using step_remove [OF D(6) [OF R] e(1,2) first dropped(2)] dropped(1) pos by simp
  qed
qed

lemma concat_tl_subset:
  assumes "i < length ps"
  shows "set (concat (ps[i := tl (ps ! i)])) \<subseteq> set (concat ps)"
proof
  fix z assume "z \<in> set (concat (ps[i := tl (ps ! i)]))"
  then obtain xs where xs: "xs \<in> set (ps[i := tl (ps ! i)])" "z \<in> set xs" by auto
  then have "xs = tl (ps ! i) \<or> xs \<in> set ps" using set_update_subset_insert by fastforce
  then show "z \<in> set (concat ps)"
  proof
    assume "xs = tl (ps ! i)"
    then have "z \<in> set (ps ! i)" using xs(2) by (cases "ps ! i") auto
    then show ?thesis using assms by (metis UN_I nth_mem set_concat)
  qed (use xs(2) in auto)
qed

lemma merged_subset: "set (merged key ps ns) \<subseteq> set (concat ps)"
proof (induction key ps ns rule: merged.induct)
  case (1 key ps ns)
  show ?case
  proof (cases "lowest_index key (map peek ps)")
    case None
    then show ?thesis by (simp add: merged.simps)
  next
    case (Some i)
    obtain removed newer where d: "drop_removal (hd (ps ! i)) (take i ns) = (removed, newer)" by fastforce
    from Some obtain x where x: "i < length ps" "ps ! i = x # tl (ps ! i)" "hd (ps ! i) = x"
      by (rule lowest_peek) blast
    note sub = concat_tl_subset [OF x(1)]
    have "x \<in> set (concat ps)" using x(1,2) by (metis UN_I list.set_intros(1) nth_mem set_concat)
    then show ?thesis using 1 [OF Some d [symmetric]] sub Some d x(3)
      by (subst merged.simps) auto
  qed
qed

lemma merged_spec:
  assumes "length ps = length ns" "key_sorted key ps" "key_sorted key ns" "inj key"
    and down: "\<And>x y. R y \<Longrightarrow> key x \<le> key y \<Longrightarrow> R x"
    and "\<And>t. R t \<Longrightarrow> alternating False (events t ps ns)"
  shows "sorted_wrt (\<lambda>x y. key x \<le> key y) (merged key ps ns) \<and>
    sorted_wrt (\<lambda>x y. key x < key y) (filter R (merged key ps ns)) \<and>
    (\<forall>t. R t \<longrightarrow> (t \<in> set (merged key ps ns) \<longleftrightarrow> added False (events t ps ns)))"
  using assms
proof (induction key ps ns rule: merged.induct)
  case (1 key ps ns)
  show ?case
  proof (cases "lowest_index key (map peek ps)")
    case None
    then have "\<forall>p\<in>set ps. p = []" by (simp add: lowest_index_None)
    then have "t \<notin> set (concat ps)" for t by auto
    then have "\<not> added False (events t ps ns)" for t using events_added [OF "1.prems"(1)] by blast
    then show ?thesis using None by (simp add: merged.simps)
  next
    case (Some i)
    let ?x = "hd (ps ! i)" and ?ps = "ps[i := tl (ps ! i)]"
    obtain removed newer where d: "drop_removal ?x (take i ns) = (removed, newer)" by fastforce
    let ?ns = "newer @ drop i ns"
    have r: "merge_round key ps ns R i"
      using "1.prems"(1-4,6) Some unfolding merge_round_def by (blast intro: "1.prems"(5))
    note D = merge_roundD [OF r] and K = round_keeps [OF r d]
    have alt: "alternating False (events t ?ps ?ns)" if "R t" for t
      using that K(4) [of t] D(6) [OF that] round_item [OF r d] by (cases "t = ?x") auto
    have "sorted_wrt (\<lambda>x y. key x \<le> key y) (merged key ?ps ?ns) \<and>
        sorted_wrt (\<lambda>x y. key x < key y) (filter R (merged key ?ps ?ns)) \<and>
        (\<forall>t. R t \<longrightarrow> (t \<in> set (merged key ?ps ?ns) \<longleftrightarrow> added False (events t ?ps ?ns)))"
      using D(5) alt by (intro "1.IH" [OF Some d [symmetric] K(1-3) D(4)]) blast+
    then have IH: "sorted_wrt (\<lambda>x y. key x \<le> key y) (merged key ?ps ?ns)"
        "sorted_wrt (\<lambda>x y. key x < key y) (filter R (merged key ?ps ?ns))"
        "\<And>t. R t \<Longrightarrow> t \<in> set (merged key ?ps ?ns) \<longleftrightarrow> added False (events t ?ps ?ns)" by blast+
    have eq: "merged key ps ns = (if removed then [] else [?x]) @ merged key ?ps ?ns"
      using Some d by (subst merged.simps) simp
    have ge: "key ?x \<le> key z" if "z \<in> set (merged key ?ps ?ns)" for z
    proof -
      have "z \<in> set (concat ps)" using that merged_subset [of key ?ps ?ns] concat_tl_subset [OF D(8)] by (meson subsetD)
      then show ?thesis by (rule D(11))
    qed
    have neq: "z \<noteq> ?x" if "z \<in> set (merged key ?ps ?ns)" "R z" for z
      using IH that round_item [OF r d] by auto
    have strict: "key ?x < key z" if "z \<in> set (merged key ?ps ?ns)" "R z" for z
      using ge [OF that(1)] neq [OF that] D(4) by (simp add: less_le inj_eq)
    have mem: "t \<in> set (merged key ps ns) \<longleftrightarrow> added False (events t ps ns)" if "R t" for t
      using that eq IH K(4) [of t] round_item [OF r d] by (cases "t = ?x") auto
    show ?thesis using IH(1,2) ge strict mem by (auto simp: eq)
  qed
qed

text \<open>The whole stack: the items whose newest event is an addition, in order and once.\<close>

corollary merged_all:
  assumes "length ps = length ns" "key_sorted key ps" "key_sorted key ns" "inj key"
    and "\<And>t. alternating False (events t ps ns)"
  shows "sorted_wrt (\<lambda>x y. key x < key y) (merged key ps ns)"
    "set (merged key ps ns) = {t. added False (events t ps ns)}"
  using merged_spec [OF assms(1-4), of "\<lambda>_. True"] assms(5) by auto

subsection \<open>Net changes\<close>

lemma lowest_concat:
  assumes "lowest_index key (map peek ps) = Some i"
  shows "mset (concat ps) = add_mset (hd (ps ! i)) (mset (concat (ps[i := tl (ps ! i)])))" "i < length ps"
  using assms by (auto elim!: lowest_peek intro: mset_concat_update)

lemma lowest_none: "lowest_index key (map peek ps) = None \<longleftrightarrow> concat ps = []"
  by (simp add: lowest_index_None)

text \<open>
  Every item comes out as often as its additions exceed its removals, or as a removal as
  often as its removals exceed its additions.
\<close>

lemma net_changes_count:
  assumes "key_sorted key ps" "key_sorted key ns" "inj key"
  shows "count (mset (net_changes key ps ns)) (Addition, t) = count (mset (concat ps)) t - count (mset (concat ns)) t \<and>
    count (mset (net_changes key ps ns)) (Removal, t) = count (mset (concat ns)) t - count (mset (concat ps)) t"
  using assms
proof (induction key ps ns rule: net_changes.induct)
  case (1 key ps ns)
  let ?lp = "lowest_index key (map peek ps)" and ?ln = "lowest_index key (map peek ns)"
  have absent: "count (mset (concat xss)) y = 0"
    if "lowest_index key (map peek xss) = Some k" "key_sorted key xss" "key y < key (hd (xss ! k))" for xss k y
    using lowest_least [OF that(1,2), of y] that(3) by (force simp: count_eq_zero_iff)
  consider "?lp = None" "?ln = None" | i where "?lp = Some i" "?ln = None" | j where "?lp = None" "?ln = Some j"
    | i j where "?lp = Some i" "?ln = Some j" by fastforce
  then show ?case
  proof cases
    case 1
    then have "net_changes key ps ns = []" by (simp add: net_changes.simps)
    moreover have "concat ps = []" "concat ns = []" using 1 by (simp_all add: lowest_none del: concat_eq_Nil_conv)
    ultimately show ?thesis by (simp del: concat_eq_Nil_conv)
  next
    case (2 i)
    note P = lowest_concat [OF 2(1)]
    have "concat ns = []" using 2(2) by (simp add: lowest_none del: concat_eq_Nil_conv)
    then show ?thesis using "1.IH"(2) [OF refl 2 key_sorted_tl [OF "1.prems"(1) P(2)] "1.prems"(2,3)] 2
      by (subst (1 2) net_changes.simps) (simp add: P(1) del: mset_concat concat_eq_Nil_conv)
  next
    case (3 j)
    note N = lowest_concat [OF 3(2)]
    have "concat ps = []" using 3(1) by (simp add: lowest_none del: concat_eq_Nil_conv)
    then show ?thesis using "1.IH"(1) [OF refl 3 "1.prems"(1) key_sorted_tl [OF "1.prems"(2) N(2)] "1.prems"(3)] 3
      by (subst (1 2) net_changes.simps) (simp add: N(1) del: mset_concat concat_eq_Nil_conv)
  next
    case (4 i j)
    note P = lowest_concat [OF 4(1)] and N = lowest_concat [OF 4(2)]
    note ps = key_sorted_tl [OF "1.prems"(1) P(2)] and ns = key_sorted_tl [OF "1.prems"(2) N(2)]
    consider "key (hd (ps ! i)) < key (hd (ns ! j))" | "key (hd (ns ! j)) < key (hd (ps ! i))"
      | "key (hd (ps ! i)) = key (hd (ns ! j))" by fastforce
    then show ?thesis
    proof cases
      case 1
      from absent [OF 4(2) "1.prems"(2) 1] show ?thesis
        using "1.IH"(3) [OF refl 4 1 ps "1.prems"(2,3)] 4 1
        by (subst (1 2) net_changes.simps) (auto simp: P(1) simp del: mset_concat count_mset_0_iff)
    next
      case 2
      from absent [OF 4(1) "1.prems"(1) 2] show ?thesis
        using "1.IH"(4) [OF refl 4 _ 2 "1.prems"(1) ns "1.prems"(3)] 4 2
        by (subst (1 2) net_changes.simps) (auto simp: N(1) simp del: mset_concat count_mset_0_iff)
    next
      case 3
      then have "hd (ps ! i) = hd (ns ! j)" using "1.prems"(3) by (simp add: inj_eq)
      then show ?thesis using "1.IH"(5) [OF refl 4 _ _ ps ns "1.prems"(3)] 4 3
        by (subst (1 2) net_changes.simps) (simp add: P(1) N(1) del: mset_concat)
    qed
  qed
qed

lemma sorted_change:
  assumes "sorted_wrt (\<lambda>a b. key (snd a) \<le> key (snd b)) out \<and> snd ` set out \<subseteq> B" "B \<subseteq> A" "x \<in> A"
    and "\<And>z. z \<in> A \<Longrightarrow> key x \<le> key z"
  shows "sorted_wrt (\<lambda>a b. key (snd a) \<le> key (snd b)) ((c, x) # out) \<and> snd ` set ((c, x) # out) \<subseteq> A"
  using assms by auto

lemma net_changes_sorted:
  assumes "key_sorted key ps" "key_sorted key ns"
  shows "sorted_wrt (\<lambda>a b. key (snd a) \<le> key (snd b)) (net_changes key ps ns) \<and>
    snd ` set (net_changes key ps ns) \<subseteq> set (concat ps) \<union> set (concat ns)"
  using assms
proof (induction key ps ns rule: net_changes.induct)
  case (1 key ps ns)
  let ?lp = "lowest_index key (map peek ps)" and ?ln = "lowest_index key (map peek ns)"
  have tl: "key_sorted key (xss[k := tl (xss ! k)])" "set (concat (xss[k := tl (xss ! k)])) \<subseteq> set (concat xss)"
    "hd (xss ! k) \<in> set (concat xss)" "\<And>z. z \<in> set (concat xss) \<Longrightarrow> key (hd (xss ! k)) \<le> key z"
    if "lowest_index key (map peek xss) = Some k" "key_sorted key xss" for xss k
  proof -
    note L = lowest_concat [OF that(1)]
    show "key_sorted key (xss[k := tl (xss ! k)])" by (rule key_sorted_tl [OF that(2) L(2)])
    show "set (concat (xss[k := tl (xss ! k)])) \<subseteq> set (concat xss)" by (rule concat_tl_subset [OF L(2)])
    show "hd (xss ! k) \<in> set (concat xss)" using L(1) by (metis set_mset_mset union_single_eq_member)
    show "key (hd (xss ! k)) \<le> key z" if "z \<in> set (concat xss)" for z
      by (rule lowest_least [OF \<open>lowest_index key (map peek xss) = Some k\<close> \<open>key_sorted key xss\<close> that])
  qed
  consider "?lp = None" "?ln = None" | i where "?lp = Some i" "?ln = None" | j where "?lp = None" "?ln = Some j"
    | i j where "?lp = Some i" "?ln = Some j" by fastforce
  then show ?case
  proof cases
    case 1
    then show ?thesis by (simp add: net_changes.simps)
  next
    case (2 i)
    note P = tl [OF 2(1) "1.prems"(1)]
    have n: "set (concat ns) = {}" using 2(2) by (simp add: lowest_none del: concat_eq_Nil_conv)
    have eq: "net_changes key ps ns = (Addition, hd (ps ! i)) # net_changes key (ps[i := tl (ps ! i)]) ns"
      using 2 by (subst net_changes.simps) simp
    show ?thesis unfolding eq
      by (rule sorted_change [OF "1.IH"(2) [OF refl 2 P(1) "1.prems"(2)]]) (use P(2-4) n in \<open>auto simp del: set_concat\<close>)
  next
    case (3 j)
    note N = tl [OF 3(2) "1.prems"(2)]
    have p: "set (concat ps) = {}" using 3(1) by (simp add: lowest_none del: concat_eq_Nil_conv)
    have eq: "net_changes key ps ns = (Removal, hd (ns ! j)) # net_changes key ps (ns[j := tl (ns ! j)])"
      using 3 by (subst net_changes.simps) simp
    show ?thesis unfolding eq
      by (rule sorted_change [OF "1.IH"(1) [OF refl 3 "1.prems"(1) N(1)]]) (use N(2-4) p in \<open>auto simp del: set_concat\<close>)
  next
    case (4 i j)
    note P = tl [OF 4(1) "1.prems"(1)] and N = tl [OF 4(2) "1.prems"(2)]
    consider "key (hd (ps ! i)) < key (hd (ns ! j))" | "key (hd (ns ! j)) < key (hd (ps ! i))"
      | "key (hd (ps ! i)) = key (hd (ns ! j))" by fastforce
    then show ?thesis
    proof cases
      case 1
      have eq: "net_changes key ps ns = (Addition, hd (ps ! i)) # net_changes key (ps[i := tl (ps ! i)]) ns"
        using 4 1 by (subst net_changes.simps) simp
      have "key (hd (ps ! i)) \<le> key z" if "z \<in> set (concat ns)" for z using N(4) [OF that] 1 by simp
      then show ?thesis unfolding eq
        by (intro sorted_change [OF "1.IH"(3) [OF refl 4 1 P(1) "1.prems"(2)]]) (use P(2-4) in \<open>auto simp del: set_concat\<close>)
    next
      case 2
      have eq: "net_changes key ps ns = (Removal, hd (ns ! j)) # net_changes key ps (ns[j := tl (ns ! j)])"
        using 4 2 by (subst net_changes.simps) simp
      have "key (hd (ns ! j)) \<le> key z" if "z \<in> set (concat ps)" for z using P(4) [OF that] 2 by simp
      then show ?thesis unfolding eq
        by (intro sorted_change [OF "1.IH"(4) [OF refl 4 less_not_sym [OF 2] 2 "1.prems"(1) N(1)]])
          (use N(2-4) in \<open>auto simp del: set_concat\<close>)
    next
      case 3
      have eq: "net_changes key ps ns = net_changes key (ps[i := tl (ps ! i)]) (ns[j := tl (ns ! j)])"
        using 4 3 by (subst net_changes.simps) simp
      have "\<not> key (hd (ps ! i)) < key (hd (ns ! j))" "\<not> key (hd (ns ! j)) < key (hd (ps ! i))" using 3 by auto
      from "1.IH"(5) [OF refl 4 this P(1) N(1)] show ?thesis using P(2) N(2) unfolding eq by blast
    qed
  qed
qed

end
