(* ===== verification/LayerIterators.thy ===== *)
theory LayerIterators
  imports LayerTriples StackMerge "HOL-Library.Product_Lexorder"
begin

text \<open>
  The iterators of a layer by object and by predicate, and the iterators over a whole stack
  of layers (\<open>src/layer/internal/subject_iterator.rs\<close>, \<open>object_iterator.rs\<close>,
  \<open>predicate_iterator.rs\<close>), with the queries of \<open>src/layer/internal/mod.rs\<close> that use them:
  whether a triple exists, all triples, the triples of a subject, a subject and predicate, a
  predicate or an object, the counts, and the net changes between a layer and one of its
  ancestors.
\<close>

section \<open>Model\<close>

subsection \<open>The iterator of a layer by object\<close>

record InternalLayerTripleObjectIterator =
  toi_subjects :: "MonotonicLogArray option"
  toi_objects :: "MonotonicLogArray option"
  toi_o_ps_adjacency_list :: AdjacencyList
  toi_s_p_adjacency_list :: AdjacencyList
  toi_o_position :: u64
  toi_o_ps_position :: u64
  toi_peeked :: "IdTriple option"

definition InternalLayerTripleObjectIterator_new ::
  "MonotonicLogArray option \<Rightarrow> MonotonicLogArray option \<Rightarrow> AdjacencyList \<Rightarrow> AdjacencyList \<Rightarrow>
    InternalLayerTripleObjectIterator" where
  "InternalLayerTripleObjectIterator_new subjects objects o_ps_adjacency_list s_p_adjacency_list =
    \<lparr>toi_subjects = subjects, toi_objects = objects, toi_o_ps_adjacency_list = o_ps_adjacency_list,
     toi_s_p_adjacency_list = s_p_adjacency_list, toi_o_position = 0, toi_o_ps_position = 0,
     toi_peeked = None\<rparr>"

definition toi_at :: "u64 \<Rightarrow> u64 \<Rightarrow> InternalLayerTripleObjectIterator \<Rightarrow> InternalLayerTripleObjectIterator" where
  "toi_at p ps self = self\<lparr>toi_o_position := p, toi_o_ps_position := ps, toi_peeked := None\<rparr>"

definition InternalLayerTripleObjectIterator_seek_object ::
  "byteorder \<Rightarrow> InternalLayerTripleObjectIterator \<Rightarrow> u64 \<Rightarrow> InternalLayerTripleObjectIterator panics" where
  "InternalLayerTripleObjectIterator_seek_object bo self object =
    (if object = 0 then Some (toi_at 0 0 self)
     else do {
       o_position \<leftarrow> (case toi_objects self of
           None \<Rightarrow> Some (object - 1)
         | Some objects \<Rightarrow> map_option of_nat (MonotonicLogArray_nearest_index_of bo objects object));
       count \<leftarrow> AdjacencyList_left_count bo (toi_o_ps_adjacency_list self);
       if o_position \<ge> of_nat count
       then Some (toi_at o_position (of_nat (AdjacencyList_right_count (toi_o_ps_adjacency_list self))) self)
       else do {
         o_ps_position \<leftarrow> AdjacencyList_offset_for bo (toi_o_ps_adjacency_list self) (o_position + 1);
         Some (toi_at o_position o_ps_position self) } })"

function toi_advance ::
  "byteorder \<Rightarrow> InternalLayerTripleObjectIterator \<Rightarrow> (IdTriple option \<times> InternalLayerTripleObjectIterator) panics" where
  "toi_advance bo self =
    (if toi_o_ps_position self \<ge> of_nat (AdjacencyList_right_count (toi_o_ps_adjacency_list self))
     then Some (None, self)
     else do {
       object \<leftarrow> (case toi_objects self of
           Some objects \<Rightarrow> LogArray_entry bo (mla_array objects) (unat (toi_o_position self))
         | None \<Rightarrow> Some (toi_o_position self + 1));
       o_ps_bit \<leftarrow> AdjacencyList_bit_at_pos (toi_o_ps_adjacency_list self) (toi_o_ps_position self);
       sp_pair_num \<leftarrow> AdjacencyList_num_at_pos bo (toi_o_ps_adjacency_list self) (toi_o_ps_position self);
       let self' = self\<lparr>toi_o_position := (if o_ps_bit then toi_o_position self + 1 else toi_o_position self),
                        toi_o_ps_position := toi_o_ps_position self + 1\<rparr>;
       if sp_pair_num = 0 then toi_advance bo self'
       else do {
         (mapped_subject, predicate) \<leftarrow>
           AdjacencyList_pair_at_pos bo (toi_s_p_adjacency_list self) (sp_pair_num - 1);
         subject \<leftarrow> (case toi_subjects self of
             Some subjects \<Rightarrow> LogArray_entry bo (mla_array subjects) (unat (mapped_subject - 1))
           | None \<Rightarrow> Some mapped_subject);
         Some (Some (IdTriple subject predicate object), self') } })"
  by pat_completeness auto
termination
  by (relation "measure (\<lambda>(bo, self). unat ((of_nat (AdjacencyList_right_count (toi_o_ps_adjacency_list self)) :: u64)
      - toi_o_ps_position self))")
    (auto simp: not_le unat_diff_succ)

declare toi_advance.simps [simp del]

definition InternalLayerTripleObjectIterator_next ::
  "byteorder \<Rightarrow> InternalLayerTripleObjectIterator \<Rightarrow> (IdTriple option \<times> InternalLayerTripleObjectIterator) panics" where
  "InternalLayerTripleObjectIterator_next bo self =
    (case toi_peeked self of
       Some peeked \<Rightarrow> Some (Some peeked, self\<lparr>toi_peeked := None\<rparr>)
     | None \<Rightarrow> toi_advance bo self)"

definition InternalLayerTripleObjectIterator_peek ::
  "byteorder \<Rightarrow> InternalLayerTripleObjectIterator \<Rightarrow> (IdTriple option \<times> InternalLayerTripleObjectIterator) panics" where
  "InternalLayerTripleObjectIterator_peek bo self =
    do { (x, self) \<leftarrow> InternalLayerTripleObjectIterator_next bo self;
         Some (x, self\<lparr>toi_peeked := x\<rparr>) }"

definition OptInternalLayerTripleObjectIterator_seek_object ::
  "byteorder \<Rightarrow> InternalLayerTripleObjectIterator option \<Rightarrow> u64 \<Rightarrow> InternalLayerTripleObjectIterator option panics" where
  "OptInternalLayerTripleObjectIterator_seek_object bo self object =
    omap (\<lambda>i. InternalLayerTripleObjectIterator_seek_object bo i object) self"

definition OptInternalLayerTripleObjectIterator_peek ::
  "byteorder \<Rightarrow> InternalLayerTripleObjectIterator option \<Rightarrow>
    (IdTriple option \<times> InternalLayerTripleObjectIterator option) panics" where
  "OptInternalLayerTripleObjectIterator_peek bo = opt_iter (InternalLayerTripleObjectIterator_peek bo)"

definition OptInternalLayerTripleObjectIterator_next ::
  "byteorder \<Rightarrow> InternalLayerTripleObjectIterator option \<Rightarrow>
    (IdTriple option \<times> InternalLayerTripleObjectIterator option) panics" where
  "OptInternalLayerTripleObjectIterator_next bo = opt_iter (InternalLayerTripleObjectIterator_next bo)"

subsection \<open>The iterator of a layer by predicate\<close>

record InternalLayerTriplePredicateIterator =
  tpi_len :: usize
  tpi_predicate_wavelet_lookup :: WaveletLookup
  tpi_subject_iterator :: InternalLayerTripleSubjectIterator
  tpi_predicate_pos :: u64
  tpi_sp_boundary :: bool
  tpi_peeked :: "IdTriple option"

definition InternalLayerTriplePredicateIterator_new ::
  "byteorder \<Rightarrow> WaveletLookup \<Rightarrow> MonotonicLogArray option \<Rightarrow> AdjacencyList \<Rightarrow> AdjacencyList \<Rightarrow>
    InternalLayerTriplePredicateIterator panics" where
  "InternalLayerTriplePredicateIterator_new bo predicate_wavelet_lookup subjects s_p_adjacency_list sp_o_adjacency_list =
    do { len \<leftarrow> WaveletLookup_len bo predicate_wavelet_lookup;
         Some \<lparr>tpi_len = len, tpi_predicate_wavelet_lookup = predicate_wavelet_lookup,
           tpi_subject_iterator =
             InternalLayerTripleSubjectIterator_new subjects s_p_adjacency_list sp_o_adjacency_list,
           tpi_predicate_pos = 0, tpi_sp_boundary = True, tpi_peeked = None\<rparr> }"

definition InternalLayerTriplePredicateIterator_next_pos ::
  "byteorder \<Rightarrow> InternalLayerTriplePredicateIterator \<Rightarrow> (bool \<times> InternalLayerTriplePredicateIterator) panics" where
  "InternalLayerTriplePredicateIterator_next_pos bo self =
    (if tpi_predicate_pos self \<ge> of_nat (tpi_len self) then Some (False, self)
     else do {
       s_p_pos \<leftarrow> WaveletLookup_entry bo (tpi_predicate_wavelet_lookup self) (unat (tpi_predicate_pos self));
       it \<leftarrow> InternalLayerTripleSubjectIterator_seek_s_p_pos bo (tpi_subject_iterator self) s_p_pos;
       Some (True, self\<lparr>tpi_subject_iterator := it, tpi_predicate_pos := tpi_predicate_pos self + 1\<rparr>) })"

definition same_s_p :: "IdTriple option \<Rightarrow> IdTriple option \<Rightarrow> bool" where
  "same_s_p a b \<longleftrightarrow>
    map_option (\<lambda>t. (it_subject t, it_predicate t)) a = map_option (\<lambda>t. (it_subject t, it_predicate t)) b"

definition InternalLayerTriplePredicateIterator_next ::
  "byteorder \<Rightarrow> InternalLayerTriplePredicateIterator \<Rightarrow> (IdTriple option \<times> InternalLayerTriplePredicateIterator) panics" where
  "InternalLayerTriplePredicateIterator_next bo self =
    (case tpi_peeked self of
       Some peeked \<Rightarrow> Some (Some peeked, self\<lparr>tpi_peeked := None\<rparr>)
     | None \<Rightarrow>
         do { (more, self) \<leftarrow>
                (if tpi_sp_boundary self then InternalLayerTriplePredicateIterator_next_pos bo self
                 else Some (True, self));
              if \<not> more then Some (None, self)
              else do {
                (result, it) \<leftarrow> InternalLayerTripleSubjectIterator_next bo (tpi_subject_iterator self);
                (next', it) \<leftarrow> InternalLayerTripleSubjectIterator_peek bo it;
                Some (result, self\<lparr>tpi_subject_iterator := it,
                  tpi_sp_boundary := (next' = None \<or> \<not> same_s_p next' result)\<rparr>) } })"

definition InternalLayerTriplePredicateIterator_peek ::
  "byteorder \<Rightarrow> InternalLayerTriplePredicateIterator \<Rightarrow> (IdTriple option \<times> InternalLayerTriplePredicateIterator) panics" where
  "InternalLayerTriplePredicateIterator_peek bo self =
    do { (x, self) \<leftarrow> InternalLayerTriplePredicateIterator_next bo self;
         Some (x, self\<lparr>tpi_peeked := x\<rparr>) }"

definition OptInternalLayerTriplePredicateIterator_peek ::
  "byteorder \<Rightarrow> InternalLayerTriplePredicateIterator option \<Rightarrow>
    (IdTriple option \<times> InternalLayerTriplePredicateIterator option) panics" where
  "OptInternalLayerTriplePredicateIterator_peek bo = opt_iter (InternalLayerTriplePredicateIterator_peek bo)"

definition OptInternalLayerTriplePredicateIterator_next ::
  "byteorder \<Rightarrow> InternalLayerTriplePredicateIterator option \<Rightarrow>
    (IdTriple option \<times> InternalLayerTriplePredicateIterator option) panics" where
  "OptInternalLayerTriplePredicateIterator_next bo = opt_iter (InternalLayerTriplePredicateIterator_next bo)"

subsection \<open>Additions and removals of a layer by predicate and by object\<close>

definition InternalLayer_internal_triple_additions_p ::
  "byteorder \<Rightarrow> InternalLayer \<Rightarrow> u64 \<Rightarrow> InternalLayerTriplePredicateIterator option panics" where
  "InternalLayer_internal_triple_additions_p bo self predicate =
    do { l \<leftarrow> WaveletTree_lookup bo (InternalLayer_pos_predicate_wavelet_tree self) predicate;
         omap (\<lambda>lookup. InternalLayerTriplePredicateIterator_new bo lookup (InternalLayer_pos_subjects self)
                 (InternalLayer_pos_s_p_adjacency_list self) (InternalLayer_pos_sp_o_adjacency_list self)) l }"

definition InternalLayer_internal_triple_removals_p ::
  "byteorder \<Rightarrow> InternalLayer \<Rightarrow> u64 \<Rightarrow> InternalLayerTriplePredicateIterator option panics" where
  "InternalLayer_internal_triple_removals_p bo self predicate =
    do { l \<leftarrow> (case InternalLayer_neg_predicate_wavelet_tree self of
             None \<Rightarrow> Some None | Some t \<Rightarrow> WaveletTree_lookup bo t predicate);
         case (l, InternalLayer_neg_s_p_adjacency_list self, InternalLayer_neg_sp_o_adjacency_list self) of
           (Some lookup, Some s_p, Some sp_o) \<Rightarrow>
             map_option Some (InternalLayerTriplePredicateIterator_new bo lookup
               (InternalLayer_neg_subjects self) s_p sp_o)
         | _ \<Rightarrow> Some None }"

definition InternalLayer_internal_triple_additions_by_object ::
  "InternalLayer \<Rightarrow> InternalLayerTripleObjectIterator option" where
  "InternalLayer_internal_triple_additions_by_object self =
    Some (InternalLayerTripleObjectIterator_new (InternalLayer_pos_subjects self) (InternalLayer_pos_objects self)
      (InternalLayer_pos_o_ps_adjacency_list self) (InternalLayer_pos_s_p_adjacency_list self))"

definition InternalLayer_internal_triple_removals_by_object ::
  "InternalLayer \<Rightarrow> InternalLayerTripleObjectIterator option" where
  "InternalLayer_internal_triple_removals_by_object self =
    (case (InternalLayer_neg_o_ps_adjacency_list self, InternalLayer_neg_s_p_adjacency_list self) of
       (Some o_ps, Some s_p) \<Rightarrow>
         Some (InternalLayerTripleObjectIterator_new (InternalLayer_neg_subjects self)
           (InternalLayer_neg_objects self) o_ps s_p)
     | _ \<Rightarrow> None)"

text \<open>
  The queries that return a boxed iterator are given by the items it yields: \<open>boxed_while\<close> is
  an iterator cut off by \<open>take_while\<close> and run to its end.
\<close>

definition boxed_while :: "('a \<Rightarrow> bool) \<Rightarrow> ('a, 's) step \<Rightarrow> 's panics \<Rightarrow> 'a list panics" where
  "boxed_while P nx it = do { i \<leftarrow> it; iter_collect (take_while_next P nx) (i, False) }"

definition InternalLayer_internal_triple_additions_s :: "byteorder \<Rightarrow> InternalLayer \<Rightarrow> u64 \<Rightarrow> IdTriple list panics" where
  "InternalLayer_internal_triple_additions_s bo self subject =
    boxed_while (\<lambda>t. it_subject t = subject) (OptInternalLayerTripleSubjectIterator_next bo)
      (OptInternalLayerTripleSubjectIterator_seek_subject bo (InternalLayer_internal_triple_additions self) subject)"

definition InternalLayer_internal_triple_removals_s :: "byteorder \<Rightarrow> InternalLayer \<Rightarrow> u64 \<Rightarrow> IdTriple list panics" where
  "InternalLayer_internal_triple_removals_s bo self subject =
    boxed_while (\<lambda>t. it_subject t = subject) (OptInternalLayerTripleSubjectIterator_next bo)
      (OptInternalLayerTripleSubjectIterator_seek_subject bo (InternalLayer_internal_triple_removals self) subject)"

definition InternalLayer_internal_triple_additions_sp ::
  "byteorder \<Rightarrow> InternalLayer \<Rightarrow> u64 \<Rightarrow> u64 \<Rightarrow> IdTriple list panics" where
  "InternalLayer_internal_triple_additions_sp bo self subject predicate =
    boxed_while (\<lambda>t. it_predicate t = predicate \<and> it_subject t = subject) (OptInternalLayerTripleSubjectIterator_next bo)
      (OptInternalLayerTripleSubjectIterator_seek_subject_predicate bo
        (InternalLayer_internal_triple_additions self) subject predicate)"

definition InternalLayer_internal_triple_removals_sp ::
  "byteorder \<Rightarrow> InternalLayer \<Rightarrow> u64 \<Rightarrow> u64 \<Rightarrow> IdTriple list panics" where
  "InternalLayer_internal_triple_removals_sp bo self subject predicate =
    boxed_while (\<lambda>t. it_predicate t = predicate \<and> it_subject t = subject) (OptInternalLayerTripleSubjectIterator_next bo)
      (OptInternalLayerTripleSubjectIterator_seek_subject_predicate bo
        (InternalLayer_internal_triple_removals self) subject predicate)"

definition InternalLayer_internal_triple_additions_o :: "byteorder \<Rightarrow> InternalLayer \<Rightarrow> u64 \<Rightarrow> IdTriple list panics" where
  "InternalLayer_internal_triple_additions_o bo self object =
    boxed_while (\<lambda>t. it_object t = object) (OptInternalLayerTripleObjectIterator_next bo)
      (OptInternalLayerTripleObjectIterator_seek_object bo
        (InternalLayer_internal_triple_additions_by_object self) object)"

definition InternalLayer_internal_triple_removals_o :: "byteorder \<Rightarrow> InternalLayer \<Rightarrow> u64 \<Rightarrow> IdTriple list panics" where
  "InternalLayer_internal_triple_removals_o bo self object =
    boxed_while (\<lambda>t. it_object t = object) (OptInternalLayerTripleObjectIterator_next bo)
      (OptInternalLayerTripleObjectIterator_seek_object bo
        (InternalLayer_internal_triple_removals_by_object self) object)"

text \<open>The entries of the index, less the holes, which the wavelet tree holds as predicate 0.\<close>

definition holes_count :: "byteorder \<Rightarrow> WaveletTree \<Rightarrow> usize panics" where
  "holes_count bo tree =
    do { l \<leftarrow> WaveletTree_lookup bo tree 0;
         case l of None \<Rightarrow> Some 0 | Some l \<Rightarrow> WaveletLookup_len bo l }"

definition InternalLayer_internal_triple_layer_addition_count :: "byteorder \<Rightarrow> InternalLayer \<Rightarrow> usize panics" where
  "InternalLayer_internal_triple_layer_addition_count bo self =
    do { holes \<leftarrow> holes_count bo (InternalLayer_pos_predicate_wavelet_tree self);
         usub (AdjacencyList_right_count (InternalLayer_pos_sp_o_adjacency_list self)) holes }"

definition InternalLayer_internal_triple_layer_removal_count :: "byteorder \<Rightarrow> InternalLayer \<Rightarrow> usize panics" where
  "InternalLayer_internal_triple_layer_removal_count bo self =
    (case InternalLayer_neg_sp_o_adjacency_list self of
       None \<Rightarrow> Some 0
     | Some adjacency_list \<Rightarrow>
         do { tree \<leftarrow> InternalLayer_neg_predicate_wavelet_tree self;
              holes \<leftarrow> holes_count bo tree;
              usub (AdjacencyList_right_count adjacency_list) holes })"

text \<open>The sum over the layer and its parents, in the order of the walk.\<close>

definition sum_layers :: "(InternalLayer \<Rightarrow> usize panics) \<Rightarrow> InternalLayer \<Rightarrow> usize panics" where
  "sum_layers f self = map_option sum_list (those (map f (layers_from self)))"

definition InternalLayer_triple_addition_count :: "byteorder \<Rightarrow> InternalLayer \<Rightarrow> usize panics" where
  "InternalLayer_triple_addition_count bo = sum_layers (InternalLayer_internal_triple_layer_addition_count bo)"

definition InternalLayer_triple_removal_count :: "byteorder \<Rightarrow> InternalLayer \<Rightarrow> usize panics" where
  "InternalLayer_triple_removal_count bo = sum_layers (InternalLayer_internal_triple_layer_removal_count bo)"

definition Layer_triple_count :: "byteorder \<Rightarrow> InternalLayer \<Rightarrow> usize panics" where
  "Layer_triple_count bo self =
    do { additions \<leftarrow> InternalLayer_triple_addition_count bo self;
         removals \<leftarrow> InternalLayer_triple_removal_count bo self;
         usub additions removals }"

subsection \<open>Does a triple exist\<close>

fun exists_walk :: "byteorder \<Rightarrow> u64 \<Rightarrow> u64 \<Rightarrow> u64 \<Rightarrow> InternalLayer list \<Rightarrow> bool panics" where
  "exists_walk bo subject predicate object [] = Some False"
| "exists_walk bo subject predicate object (l # ls) =
    do { a \<leftarrow> InternalLayer_internal_triple_addition_exists bo l subject predicate object;
         if a then Some True
         else do {
           r \<leftarrow> InternalLayer_internal_triple_removal_exists bo l subject predicate object;
           if r then Some False else exists_walk bo subject predicate object ls } }"

definition InternalLayer_triple_exists :: "byteorder \<Rightarrow> InternalLayer \<Rightarrow> u64 \<Rightarrow> u64 \<Rightarrow> u64 \<Rightarrow> bool panics" where
  "InternalLayer_triple_exists bo self subject predicate object =
    (if subject = 0 \<or> predicate = 0 \<or> object = 0 then Some False
     else exists_walk bo subject predicate object (layers_from self))"

definition Layer_id_triple_exists :: "byteorder \<Rightarrow> InternalLayer \<Rightarrow> IdTriple \<Rightarrow> bool panics" where
  "Layer_id_triple_exists bo self triple =
    InternalLayer_triple_exists bo self (it_subject triple) (it_predicate triple) (it_object triple)"

definition Layer_string_triple_exists :: "byteorder \<Rightarrow> usize \<Rightarrow> InternalLayer \<Rightarrow> StringTriple \<Rightarrow> bool panics" where
  "Layer_string_triple_exists bo sz self triple =
    do { t \<leftarrow> Layer_string_triple_to_id bo sz self triple;
         case t of None \<Rightarrow> Some False | Some t \<Rightarrow> Layer_id_triple_exists bo self t }"

subsection \<open>The iterators over the stack\<close>

record 's stack_iterator =
  si_positives :: "'s list"
  si_negatives :: "'s list"

type_synonym InternalTripleSubjectIterator = "InternalLayerTripleSubjectIterator option stack_iterator"
type_synonym InternalTripleObjectIterator = "InternalLayerTripleObjectIterator option stack_iterator"
type_synonym InternalTripleStackIterator = "InternalLayerTripleSubjectIterator option stack_iterator"

definition si_step ::
  "('a, 's list \<times> 's list) step \<Rightarrow> ('a, 's stack_iterator) step" where
  "si_step f self =
    map_option (\<lambda>(x, ps, ns). (x, self\<lparr>si_positives := ps, si_negatives := ns\<rparr>))
      (f (si_positives self, si_negatives self))"

text \<open>Moving every iterator of the stack.\<close>

definition si_seek :: "('s \<Rightarrow> 's panics) \<Rightarrow> 's stack_iterator \<Rightarrow> 's stack_iterator panics" where
  "si_seek f self =
    do { ps \<leftarrow> those (map f (si_positives self));
         ns \<leftarrow> those (map f (si_negatives self));
         Some (self\<lparr>si_positives := ps, si_negatives := ns\<rparr>) }"

definition InternalTripleSubjectIterator_from_layer :: "InternalLayer \<Rightarrow> InternalTripleSubjectIterator" where
  "InternalTripleSubjectIterator_from_layer l =
    \<lparr>si_positives = map InternalLayer_internal_triple_additions (layers_from l),
     si_negatives = map InternalLayer_internal_triple_removals (layers_from l)\<rparr>"

definition InternalTripleSubjectIterator_seek_subject ::
  "byteorder \<Rightarrow> InternalTripleSubjectIterator \<Rightarrow> u64 \<Rightarrow> InternalTripleSubjectIterator panics" where
  "InternalTripleSubjectIterator_seek_subject bo self subject =
    si_seek (\<lambda>i. OptInternalLayerTripleSubjectIterator_seek_subject bo i subject) self"

definition InternalTripleSubjectIterator_seek_subject_predicate ::
  "byteorder \<Rightarrow> InternalTripleSubjectIterator \<Rightarrow> u64 \<Rightarrow> u64 \<Rightarrow> InternalTripleSubjectIterator panics" where
  "InternalTripleSubjectIterator_seek_subject_predicate bo self subject predicate =
    si_seek (\<lambda>i. OptInternalLayerTripleSubjectIterator_seek_subject_predicate bo i subject predicate) self"

definition InternalTripleSubjectIterator_next :: "byteorder \<Rightarrow> (IdTriple, InternalTripleSubjectIterator) step" where
  "InternalTripleSubjectIterator_next bo =
    si_step (stack_next (OptInternalLayerTripleSubjectIterator_peek bo)
      (OptInternalLayerTripleSubjectIterator_next bo) (\<lambda>t. t))"

definition object_key :: "IdTriple \<Rightarrow> u64 \<times> u64 \<times> u64" where
  "object_key e = (it_object e, it_subject e, it_predicate e)"

definition InternalTripleObjectIterator_from_layer :: "InternalLayer \<Rightarrow> InternalTripleObjectIterator" where
  "InternalTripleObjectIterator_from_layer l =
    \<lparr>si_positives = map InternalLayer_internal_triple_additions_by_object (layers_from l),
     si_negatives = map InternalLayer_internal_triple_removals_by_object (layers_from l)\<rparr>"

definition InternalTripleObjectIterator_seek_object ::
  "byteorder \<Rightarrow> InternalTripleObjectIterator \<Rightarrow> u64 \<Rightarrow> InternalTripleObjectIterator panics" where
  "InternalTripleObjectIterator_seek_object bo self object =
    si_seek (\<lambda>i. OptInternalLayerTripleObjectIterator_seek_object bo i object) self"

definition InternalTripleObjectIterator_next :: "byteorder \<Rightarrow> (IdTriple, InternalTripleObjectIterator) step" where
  "InternalTripleObjectIterator_next bo =
    si_step (stack_next (OptInternalLayerTripleObjectIterator_peek bo)
      (OptInternalLayerTripleObjectIterator_next bo) object_key)"

record InternalTriplePredicateIterator = "InternalLayerTriplePredicateIterator option stack_iterator" +
  pi_predicate :: u64

definition InternalTriplePredicateIterator_from_layer ::
  "byteorder \<Rightarrow> InternalLayer \<Rightarrow> u64 \<Rightarrow> InternalTriplePredicateIterator panics" where
  "InternalTriplePredicateIterator_from_layer bo l predicate =
    do { ps \<leftarrow> those (map (\<lambda>l. InternalLayer_internal_triple_additions_p bo l predicate) (layers_from l));
         ns \<leftarrow> those (map (\<lambda>l. InternalLayer_internal_triple_removals_p bo l predicate) (layers_from l));
         Some \<lparr>si_positives = ps, si_negatives = ns, pi_predicate = predicate\<rparr> }"

definition InternalTriplePredicateIterator_next :: "byteorder \<Rightarrow> (IdTriple, InternalTriplePredicateIterator) step" where
  "InternalTriplePredicateIterator_next bo self =
    map_option (\<lambda>(x, ps, ns). (x, self\<lparr>si_positives := ps, si_negatives := ns\<rparr>))
      (stack_next (OptInternalLayerTriplePredicateIterator_peek bo)
        (OptInternalLayerTriplePredicateIterator_next bo) (\<lambda>t. t) (si_positives self, si_negatives self))"

subsection \<open>The net changes of a stack\<close>

datatype LayerStackError = ParentNotFound

text \<open>The ancestors of a layer before the one with the given name.\<close>

function parents_upto :: "InternalLayer option \<Rightarrow> layer_name \<Rightarrow> InternalLayer list option" where
  "parents_upto None parent_id = None"
| "parents_upto (Some l) parent_id =
    (if InternalLayer_name l = parent_id then Some []
     else map_option ((#) l) (parents_upto (InternalLayer_immediate_parent l) parent_id))"
  by pat_completeness auto
termination
  by (relation "measure (\<lambda>(l, i). case l of None \<Rightarrow> 0 | Some p \<Rightarrow> Suc (size p))")
    (auto simp: immediate_parent_size split: option.split)

definition InternalTripleStackIterator_from_layer_stack ::
  "InternalLayer \<Rightarrow> layer_name \<Rightarrow> LayerStackError + InternalTripleStackIterator" where
  "InternalTripleStackIterator_from_layer_stack l parent_id =
    (case parents_upto (InternalLayer_immediate_parent l) parent_id of
       None \<Rightarrow> Inl ParentNotFound
     | Some ls \<Rightarrow> Inr \<lparr>si_positives = map InternalLayer_internal_triple_additions (l # ls),
                      si_negatives = map InternalLayer_internal_triple_removals (l # ls)\<rparr>)"

definition InternalTripleStackIterator_merge ::
  "InternalTripleStackIterator list \<Rightarrow> InternalTripleStackIterator" where
  "InternalTripleStackIterator_merge stacks =
    \<lparr>si_positives = concat (map si_positives stacks), si_negatives = concat (map si_negatives stacks)\<rparr>"

definition InternalTripleStackIterator_next ::
  "byteorder \<Rightarrow> (TripleChange \<times> IdTriple, InternalTripleStackIterator) step" where
  "InternalTripleStackIterator_next bo =
    si_step (changes_next (OptInternalLayerTripleSubjectIterator_peek bo)
      (OptInternalLayerTripleSubjectIterator_next bo) (\<lambda>t. t))"

subsection \<open>The queries\<close>

definition InternalLayer_triples :: "byteorder \<Rightarrow> InternalLayer \<Rightarrow> IdTriple list panics" where
  "InternalLayer_triples bo self =
    iter_collect (InternalTripleSubjectIterator_next bo) (InternalTripleSubjectIterator_from_layer self)"

definition InternalLayer_triples_s :: "byteorder \<Rightarrow> InternalLayer \<Rightarrow> u64 \<Rightarrow> IdTriple list panics" where
  "InternalLayer_triples_s bo self subject =
    boxed_while (\<lambda>t. it_subject t = subject) (InternalTripleSubjectIterator_next bo)
      (InternalTripleSubjectIterator_seek_subject bo (InternalTripleSubjectIterator_from_layer self) subject)"

definition InternalLayer_triples_sp :: "byteorder \<Rightarrow> InternalLayer \<Rightarrow> u64 \<Rightarrow> u64 \<Rightarrow> IdTriple list panics" where
  "InternalLayer_triples_sp bo self subject predicate =
    boxed_while (\<lambda>t. it_subject t = subject \<and> it_predicate t = predicate) (InternalTripleSubjectIterator_next bo)
      (InternalTripleSubjectIterator_seek_subject_predicate bo
        (InternalTripleSubjectIterator_from_layer self) subject predicate)"

definition InternalLayer_triples_p :: "byteorder \<Rightarrow> InternalLayer \<Rightarrow> u64 \<Rightarrow> IdTriple list panics" where
  "InternalLayer_triples_p bo self predicate =
    do { it \<leftarrow> InternalTriplePredicateIterator_from_layer bo self predicate;
         iter_collect (InternalTriplePredicateIterator_next bo) it }"

definition InternalLayer_triples_o :: "byteorder \<Rightarrow> InternalLayer \<Rightarrow> u64 \<Rightarrow> IdTriple list panics" where
  "InternalLayer_triples_o bo self object =
    boxed_while (\<lambda>t. it_object t = object) (InternalTripleObjectIterator_next bo)
      (InternalTripleObjectIterator_seek_object bo (InternalTripleObjectIterator_from_layer self) object)"

end
