(* ===== verification/StackTriples.thy ===== *)
theory StackTriples
  imports LayerIterators
begin

text \<open>
  Correctness of the queries over a stack of layers. Every layer of the stack stands for a
  sorted list of additions and one of removals (\<open>layer_changes\<close>); the history of the stack is
  in order (\<open>history_ok\<close>) when a layer adds only triples that were absent from its parent and
  removes only triples that were there. Under these invariants the theory relates the
  iterators, their seeks and the existence test to the set of triples of the stack.
\<close>

section \<open>The iterators of a layer as sources\<close>

definition opt_holds :: "('s \<Rightarrow> 'a list \<Rightarrow> bool) \<Rightarrow> 's option \<Rightarrow> 'a list \<Rightarrow> bool" where
  "opt_holds holds s xs \<longleftrightarrow> (case s of None \<Rightarrow> xs = [] | Some i \<Rightarrow> holds i xs)"

context peekable
begin

lemma opt_peekable: "peekable (opt_iter pk) (opt_iter nx) (opt_holds holds)"
proof
  fix s xs assume "opt_holds holds s xs"
  then show "\<exists>s'. opt_iter nx s = Some (peek xs, s') \<and> opt_holds holds s' (tl xs)"
    using next_holds by (cases s) (fastforce simp: opt_iter_def opt_holds_def peek_def)+
next
  fix s xs assume "opt_holds holds s xs"
  then show "\<exists>s'. opt_iter pk s = Some (peek xs, s') \<and> opt_holds holds s' xs"
    using peek_holds by (cases s) (fastforce simp: opt_iter_def opt_holds_def peek_def)+
qed

end

definition tsi_is ::
  "InternalLayerTripleSubjectIterator \<Rightarrow> u64 list list \<Rightarrow> u64 list list \<Rightarrow> IdTriple list \<Rightarrow> bool" where
  "tsi_is self ss oss xs \<longleftrightarrow> (\<exists>q. tsi_wf self ss oss q \<and>
    xs = (case tsi_peeked self of None \<Rightarrow> [] | Some t \<Rightarrow> [t]) @ rows_from (tsi_subjects self) ss oss q)"

definition tsi_holds :: "InternalLayerTripleSubjectIterator \<Rightarrow> IdTriple list \<Rightarrow> bool" where
  "tsi_holds self xs \<longleftrightarrow> (\<exists>ss oss. tsi_is self ss oss xs)"

lemma tsi_wf_peeked [simp]: "tsi_wf (self\<lparr>tsi_peeked := x\<rparr>) ss oss q = tsi_wf self ss oss q"
  by (simp add: tsi_wf_def)

lemma peek_tl: "(case peek xs of None \<Rightarrow> [] | Some t \<Rightarrow> [t]) @ tl xs = xs"
  by (cases xs) (simp_all add: peek_def)

context big_endian
begin

lemma tsi_next_is:
  assumes "tsi_is s ss oss xs"
  shows "\<exists>s'. InternalLayerTripleSubjectIterator_next bo s = Some (peek xs, s') \<and> tsi_is s' ss oss (tl xs) \<and>
    tsi_peeked s' = None \<and> tsi_subjects s' = tsi_subjects s"
proof -
  from assms obtain q where wf: "tsi_wf s ss oss q"
    and xs: "xs = (case tsi_peeked s of None \<Rightarrow> [] | Some t \<Rightarrow> [t]) @ rows_from (tsi_subjects s) ss oss q"
    by (auto simp: tsi_is_def)
  show ?thesis
  proof (cases "tsi_peeked s")
    case None
    from tsi_advance_eq [OF wf] obtain s' q' where
      s': "tsi_advance bo s = Some (peek (rows_from (tsi_subjects s) ss oss q), s')" "tsi_wf s' ss oss q'"
        "rows_from (tsi_subjects s) ss oss q' = tl (rows_from (tsi_subjects s) ss oss q)"
        "tsi_subjects s' = tsi_subjects s" "tsi_peeked s' = tsi_peeked s" by blast
    then have "tsi_is s' ss oss (tl xs)" unfolding tsi_is_def
      by (intro exI [of _ q']) (use None xs in simp)
    then show ?thesis using s' None xs by (simp add: InternalLayerTripleSubjectIterator_next_def)
  next
    case (Some t)
    then have "tsi_is (s\<lparr>tsi_peeked := None\<rparr>) ss oss (tl xs)" using wf xs by (auto simp: tsi_is_def)
    then show ?thesis using Some xs by (simp add: InternalLayerTripleSubjectIterator_next_def peek_def)
  qed
qed

lemma tsi_peek_is:
  assumes "tsi_is s ss oss xs"
  shows "\<exists>s'. InternalLayerTripleSubjectIterator_peek bo s = Some (peek xs, s') \<and> tsi_is s' ss oss xs \<and>
    tsi_subjects s' = tsi_subjects s"
proof -
  from tsi_next_is [OF assms] obtain s' where s': "InternalLayerTripleSubjectIterator_next bo s = Some (peek xs, s')"
    "tsi_is s' ss oss (tl xs)" "tsi_peeked s' = None" "tsi_subjects s' = tsi_subjects s" by blast
  then obtain q where "tsi_wf s' ss oss q" "rows_from (tsi_subjects s') ss oss q = tl xs" by (auto simp: tsi_is_def)
  then have "tsi_is (s'\<lparr>tsi_peeked := peek xs\<rparr>) ss oss xs" unfolding tsi_is_def
    by (intro exI [of _ q]) (use peek_tl [of xs] in simp)
  then show ?thesis using s' by (simp add: InternalLayerTripleSubjectIterator_peek_def)
qed

sublocale tsi: peekable "InternalLayerTripleSubjectIterator_peek bo" "InternalLayerTripleSubjectIterator_next bo" tsi_holds
proof
  fix s xs assume "tsi_holds s xs"
  then obtain ss oss where "tsi_is s ss oss xs" by (auto simp: tsi_holds_def)
  from tsi_next_is [OF this] tsi_peek_is [OF this]
  show "\<exists>s'. InternalLayerTripleSubjectIterator_next bo s = Some (peek xs, s') \<and> tsi_holds s' (tl xs)"
    "\<exists>s'. InternalLayerTripleSubjectIterator_peek bo s = Some (peek xs, s') \<and> tsi_holds s' xs"
    unfolding tsi_holds_def by blast+
qed

sublocale otsi: peekable "OptInternalLayerTripleSubjectIterator_peek bo" "OptInternalLayerTripleSubjectIterator_next bo"
  "opt_holds tsi_holds"
  unfolding OptInternalLayerTripleSubjectIterator_peek_def OptInternalLayerTripleSubjectIterator_next_def
  by (rule tsi.opt_peekable)

end

section \<open>The changes of a layer and of a stack\<close>

definition idx_of :: "MonotonicLogArray option \<Rightarrow> AdjacencyList \<Rightarrow> AdjacencyList \<Rightarrow> IdTriple list \<Rightarrow> bool" where
  "idx_of subjects sp spo ts \<longleftrightarrow> (\<exists>ss oss. tidx_wf subjects sp spo ss oss \<and> ts = idx_triples subjects ss oss)"

definition layer_changes :: "InternalLayer \<Rightarrow> IdTriple list \<Rightarrow> IdTriple list \<Rightarrow> bool" where
  "layer_changes l A R \<longleftrightarrow>
    idx_of (InternalLayer_pos_subjects l) (InternalLayer_pos_s_p_adjacency_list l)
      (InternalLayer_pos_sp_o_adjacency_list l) A \<and>
    (case (InternalLayer_neg_s_p_adjacency_list l, InternalLayer_neg_sp_o_adjacency_list l) of
       (Some sp, Some spo) \<Rightarrow> idx_of (InternalLayer_neg_subjects l) sp spo R
     | _ \<Rightarrow> R = [])"

text \<open>\<open>A\<close> and \<open>R\<close> give the additions and the removals of every layer.\<close>

definition stack_events ::
  "(InternalLayer \<Rightarrow> IdTriple list) \<Rightarrow> (InternalLayer \<Rightarrow> IdTriple list) \<Rightarrow> InternalLayer list \<Rightarrow> IdTriple \<Rightarrow>
    (bool \<times> bool) list" where
  "stack_events A R ls t = events t (map A ls) (map R ls)"

definition stack_wf ::
  "InternalLayer \<Rightarrow> (InternalLayer \<Rightarrow> IdTriple list) \<Rightarrow> (InternalLayer \<Rightarrow> IdTriple list) \<Rightarrow> bool" where
  "stack_wf l A R \<longleftrightarrow> (\<forall>x\<in>set (layers_from l). layer_changes x (A x) (R x))"

definition history_ok ::
  "InternalLayer \<Rightarrow> (InternalLayer \<Rightarrow> IdTriple list) \<Rightarrow> (InternalLayer \<Rightarrow> IdTriple list) \<Rightarrow> bool" where
  "history_ok l A R \<longleftrightarrow> (\<forall>t. alternating False (stack_events A R (layers_from l) t))"

definition holds_triple ::
  "InternalLayer \<Rightarrow> (InternalLayer \<Rightarrow> IdTriple list) \<Rightarrow> (InternalLayer \<Rightarrow> IdTriple list) \<Rightarrow> IdTriple \<Rightarrow> bool" where
  "holds_triple l A R t \<longleftrightarrow> added False (stack_events A R (layers_from l) t)"

lemma idx_of_sorted: "idx_of subjects sp spo ts \<Longrightarrow> sorted_wrt (<) ts"
  by (auto simp: idx_of_def intro: rows_from_sorted)

lemma layer_changes_sorted: "layer_changes l A R \<Longrightarrow> sorted_wrt (<) A \<and> sorted_wrt (<) R"
  by (auto simp: layer_changes_def intro: idx_of_sorted split: option.splits)

lemma stack_key_sorted:
  assumes "\<forall>x\<in>set ls. layer_changes x (A x) (R x)"
  shows "key_sorted (\<lambda>t. t) (map A ls)" "key_sorted (\<lambda>t. t) (map R ls)"
  using assms layer_changes_sorted by (fastforce simp: key_sorted_def)+

lemma idx_of_nonzero:
  assumes "idx_of subjects sp spo ts" "t \<in> set ts"
  shows "it_subject t \<noteq> 0" "it_predicate t \<noteq> 0" "it_object t \<noteq> 0"
proof -
  from assms obtain ss oss where wf: "tidx_wf subjects sp spo ss oss" and t: "t \<in> set (idx_triples subjects ss oss)"
    by (auto simp: idx_of_def)
  note D = tidx_wfD [OF wf]
  from t obtain q where q: "q < length (concat oss)" "t = row_at subjects ss oss q"
    by (auto simp: rows_from_def)
  show "it_subject t \<noteq> 0" using subject_at_nonzero [OF D(7,14) D(11) [OF q(1)]] q(2) by (simp add: row_at_def)
  show "it_predicate t \<noteq> 0" "it_object t \<noteq> 0" using t by (auto simp: rows_from_def is_triple_def)
qed

context big_endian
begin

lemma exists_idx_of:
  "idx_of subjects sp spo ts \<Longrightarrow>
    layer_triple_exists bo subjects sp spo s p ob = Some (IdTriple s p ob \<in> set ts)"
  by (auto simp: idx_of_def layer_triple_exists_eq)

lemma layer_exists:
  assumes "layer_changes l A R"
  shows "InternalLayer_internal_triple_addition_exists bo l s p ob = Some (IdTriple s p ob \<in> set A)"
    "InternalLayer_internal_triple_removal_exists bo l s p ob = Some (IdTriple s p ob \<in> set R)"
  using assms
  by (auto simp: layer_changes_def InternalLayer_internal_triple_addition_exists_def
      InternalLayer_internal_triple_removal_exists_def exists_idx_of split: option.splits)

lemma exists_walk_eq:
  "\<forall>x\<in>set ls. layer_changes x (A x) (R x) \<Longrightarrow>
    exists_walk bo s p ob ls = Some (added False (stack_events A R ls (IdTriple s p ob)))"
  by (induction ls) (auto simp: layer_exists stack_events_def events_def)

lemma layer_sources:
  assumes "layer_changes l A R"
  shows "opt_holds tsi_holds (InternalLayer_internal_triple_additions l) A"
    "opt_holds tsi_holds (InternalLayer_internal_triple_removals l) R"
proof -
  have new: "tsi_holds (InternalLayerTripleSubjectIterator_new subjects sp spo) ts" if "idx_of subjects sp spo ts"
    for subjects sp spo ts
    using that tsi_new_wf
    by (fastforce simp: idx_of_def tsi_holds_def tsi_is_def InternalLayerTripleSubjectIterator_new_def)
  show "opt_holds tsi_holds (InternalLayer_internal_triple_additions l) A"
    "opt_holds tsi_holds (InternalLayer_internal_triple_removals l) R"
    using assms new
    by (auto simp: layer_changes_def InternalLayer_internal_triple_additions_def
        InternalLayer_internal_triple_removals_def opt_holds_def split: option.splits)
qed

end

section \<open>Seeks\<close>

lemma iter_collect_lift:
  assumes "iter_collect f (g s) = Some xs"
    and step: "\<And>s x t. f (g s) = Some (x, t) \<Longrightarrow> \<exists>s'. h s = Some (x, s') \<and> g s' = t"
  shows "iter_collect h s = Some xs"
  using assms(1)
proof (induction xs arbitrary: s)
  case Nil
  then obtain t where "f (g s) = Some (None, t)"
    by (subst (asm) iter_collect.simps) (auto split: bind_splits option.splits)
  then show ?case using step by force
next
  case (Cons x xs)
  then obtain t where t: "f (g s) = Some (Some x, t)" "iter_collect f t = Some xs"
    by (subst (asm) (2) iter_collect.simps) (auto split: bind_splits option.splits)
  from step [OF t(1)] obtain s' where "h s = Some (Some x, s')" "g s' = t" by blast
  with Cons.IH [of s'] t(2) show ?case by simp
qed

lemma si_collect:
  "iter_collect f (si_positives it, si_negatives it) = Some xs \<Longrightarrow> iter_collect (si_step f) it = Some xs"
  by (rule iter_collect_lift [where g = "\<lambda>it. (si_positives it, si_negatives it)"])
    (auto simp: si_step_def)

text \<open>The triples a seek of a subject and a predicate leaves, and those it must not lose.\<close>

definition sp_seek :: "u64 \<Rightarrow> u64 \<Rightarrow> IdTriple list \<Rightarrow> IdTriple list \<Rightarrow> bool" where
  "sp_seek s p ts us \<longleftrightarrow> sorted_wrt (<) us \<and>
    (\<forall>t. it_subject t < s \<or> it_subject t = s \<and> it_predicate t \<le> p \<longrightarrow>
      (t \<in> set us \<longleftrightarrow> t \<in> set ts \<and> it_subject t = s \<and> it_predicate t = p))"

lemma row_subject:
  assumes "tidx_wf subjects sp spo ss oss" "t \<in> set (idx_triples subjects ss oss)"
  shows "\<exists>i<length ss. it_subject t = subject_at subjects i"
  using assms tidx_wfD(11) [OF assms(1)] by (auto simp: rows_from_def row_at_def) blast

context big_endian
begin

lemma seek_subject_holds:
  assumes "idx_of subjects sp spo ts"
  shows "\<exists>it. InternalLayerTripleSubjectIterator_seek_subject bo
      (InternalLayerTripleSubjectIterator_new subjects sp spo) s = Some it \<and>
    tsi_holds it (filter (\<lambda>t. s \<le> it_subject t) ts)"
proof -
  from assms obtain ss oss where wf: "tidx_wf subjects sp spo ss oss" and ts: "ts = idx_triples subjects ss oss"
    by (auto simp: idx_of_def)
  let ?new = "InternalLayerTripleSubjectIterator_new subjects sp spo"
  have n: "tsi_subjects ?new = subjects" by (simp add: InternalLayerTripleSubjectIterator_new_def)
  from seek_subject_eq [OF tsi_new_wf [OF wf], of s] obtain it q where
    it: "InternalLayerTripleSubjectIterator_seek_subject bo ?new s = Some it" "tsi_wf it ss oss q"
      "tsi_subjects it = subjects" "tsi_peeked it = None"
      "rows_from subjects ss oss q = filter (\<lambda>t. s \<le> it_subject t) ts"
    unfolding n ts by blast
  have "tsi_holds it (filter (\<lambda>t. s \<le> it_subject t) ts)" unfolding tsi_holds_def tsi_is_def
    by (intro exI [of _ ss] exI [of _ oss] exI [of _ q]) (use it in simp)
  with it(1) show ?thesis by blast
qed

lemma seek_subject_predicate_holds:
  assumes "idx_of subjects sp spo ts" "s \<noteq> 0" "p \<noteq> 0"
  shows "\<exists>it us. InternalLayerTripleSubjectIterator_seek_subject_predicate bo
      (InternalLayerTripleSubjectIterator_new subjects sp spo) s p = Some it \<and>
    tsi_holds it us \<and> sp_seek s p ts us"
proof -
  from assms obtain ss oss where wf: "tidx_wf subjects sp spo ss oss" and ts: "ts = idx_triples subjects ss oss"
    by (auto simp: idx_of_def)
  let ?new = "InternalLayerTripleSubjectIterator_new subjects sp spo"
  have n: "tsi_subjects ?new = subjects" by (simp add: InternalLayerTripleSubjectIterator_new_def)
  from seek_subject_predicate_eq [OF tsi_new_wf [OF wf] assms(3,2)] obtain it q s' where
    it: "InternalLayerTripleSubjectIterator_seek_subject_predicate bo ?new s p = Some it" "tsi_wf it ss oss q"
      "tsi_subjects it = subjects" "tsi_peeked it = None"
    and s': "s \<le> s'" "\<forall>i<length ss. s \<le> subject_at subjects i \<longrightarrow> s' \<le> subject_at subjects i"
    and rows: "rows_from subjects ss oss q =
      filter (\<lambda>t. s' < it_subject t \<or> it_subject t = s' \<and> p \<le> it_predicate t) ts"
    unfolding n ts by blast
  have "tsi_holds it (rows_from subjects ss oss q)" unfolding tsi_holds_def tsi_is_def
    by (intro exI [of _ ss] exI [of _ oss] exI [of _ q]) (use it in simp)
  moreover have "s' = s" if "t \<in> set ts" "it_subject t = s" for t
    using row_subject [OF wf, of t] that s' ts by (metis order.antisym order_refl)
  then have "sp_seek s p ts (rows_from subjects ss oss q)"
    using s'(1) rows_from_sorted [OF wf, of q] unfolding sp_seek_def rows by force
  ultimately show ?thesis using it(1) by blast
qed

end

section \<open>All triples\<close>

lemma inj_id [simp]: "inj (\<lambda>t. t)"
  by (simp add: inj_on_def)

lemma sorted_takeWhile_eq:
  assumes "sorted_wrt (\<lambda>x y. key x \<le> (key y :: 'k::linorder)) xs" "\<And>x y. R y \<Longrightarrow> key x \<le> key y \<Longrightarrow> R x"
  shows "takeWhile R xs = filter R xs"
  using assms(1)
proof (induction xs)
  case (Cons x xs)
  show ?case
  proof (cases "R x")
    case False
    then have "\<forall>y\<in>set xs. \<not> R y" using Cons.prems assms(2) by auto
    then show ?thesis using False by (simp add: filter_empty_conv)
  qed (use Cons in simp)
qed simp

lemma strict_sorted_eqI:
  "sorted_wrt (<) xs \<Longrightarrow> sorted_wrt (<) ys \<Longrightarrow> set xs = set ys \<Longrightarrow> xs = (ys :: 'a::linorder list)"
  by (metis strict_sorted_equal)

lemma strict_sorted_weak: "sorted_wrt (<) xs \<Longrightarrow> sorted_wrt (\<le>) (xs :: 'a::linorder list)"
  by (erule sorted_wrt_mono_rel [rotated]) simp

lemma alternating_none: "alternating False (map2 (\<lambda>p n. (False, False)) ps ns)" "\<not> added False (map2 (\<lambda>p n. (False, False)) ps ns)"
proof -
  have "alternating False (replicate k (False, False)) \<and> \<not> added False (replicate k (False, False))" for k
    by (induction k) auto
  moreover have "map2 (\<lambda>p n. (False, False)) ps ns = replicate (length (zip ps ns)) (False, False)"
    by (simp add: map_replicate_const split_def)
  ultimately show "alternating False (map2 (\<lambda>p n. (False, False)) ps ns)"
    "\<not> added False (map2 (\<lambda>p n. (False, False)) ps ns)" by metis+
qed

text \<open>The events of a triple when every list is cut to the triples that satisfy \<open>Q\<close>.\<close>

lemma cut_events:
  assumes "list_all2 (\<lambda>us ts. t \<in> set us \<longleftrightarrow> t \<in> set ts \<and> Q) us ps" "list_all2 (\<lambda>us ts. t \<in> set us \<longleftrightarrow> t \<in> set ts \<and> Q) vs ns"
  shows "events t us vs = (if Q then events t ps ns else map2 (\<lambda>p n. (False, False)) ps ns)"
  using assms by (auto simp: events_def list_all2_conv_all_nth list_eq_iff_nth_eq)

text \<open>The sorted list of the triples of a stack.\<close>

definition all_triples ::
  "InternalLayer \<Rightarrow> (InternalLayer \<Rightarrow> IdTriple list) \<Rightarrow> (InternalLayer \<Rightarrow> IdTriple list) \<Rightarrow> IdTriple list" where
  "all_triples l A R = merged (\<lambda>t. t) (map A (layers_from l)) (map R (layers_from l))"

lemma all_triples:
  assumes "stack_wf l A R" "history_ok l A R"
  shows "sorted_wrt (<) (all_triples l A R)" "set (all_triples l A R) = {t. holds_triple l A R t}"
  using merged_all [OF _ stack_key_sorted [of "layers_from l" A R]] assms
  by (simp_all add: all_triples_def stack_wf_def history_ok_def stack_events_def holds_triple_def)

lemma list_all2_mapI: "(\<And>x. x \<in> set ls \<Longrightarrow> P (f x) (g x)) \<Longrightarrow> list_all2 P (map f ls) (map g ls)"
  by (simp add: list_all2_map1 list_all2_map2 list.rel_refl_strong)

text \<open>Moving all iterators of the stack with a seek that leaves \<open>cut ts\<close> of every list \<open>ts\<close>.\<close>

lemma those_sources:
  assumes "\<And>x. x \<in> set ls \<Longrightarrow> \<exists>it us. f (g x) = Some it \<and> H it us \<and> C (A x) us"
  shows "\<exists>its uss. those (map f (map g ls)) = Some its \<and> list_all2 H its uss \<and> list_all2 (\<lambda>us ts. C ts us) uss (map A ls)"
  using assms
proof (induction ls)
  case (Cons l ls)
  from Cons.IH [OF Cons.prems] obtain its uss where
    "those (map f (map g ls)) = Some its" "list_all2 H its uss" "list_all2 (\<lambda>us ts. C ts us) uss (map A ls)" by auto
  moreover from Cons.prems [of l] obtain it us where "f (g l) = Some it" "H it us" "C (A l) us" by auto
  ultimately show ?case by (intro exI [of _ "it # its"] exI [of _ "us # uss"]) simp
qed simp

lemma si_seek_sources:
  assumes "\<And>x. x \<in> set ls \<Longrightarrow> \<exists>it us. f (g x) = Some it \<and> H it us \<and> C (A x) us"
    and "\<And>x. x \<in> set ls \<Longrightarrow> \<exists>it us. f (h x) = Some it \<and> H it us \<and> C (R x) us"
  shows "\<exists>it uss vss. si_seek f \<lparr>si_positives = map g ls, si_negatives = map h ls\<rparr> = Some it \<and>
    list_all2 H (si_positives it) uss \<and> list_all2 H (si_negatives it) vss \<and>
    list_all2 (\<lambda>us ts. C ts us) uss (map A ls) \<and> list_all2 (\<lambda>us ts. C ts us) vss (map R ls)"
proof -
  from those_sources [of ls f g H C A, OF assms(1)] obtain ps uss where
    p: "those (map f (map g ls)) = Some ps" "list_all2 H ps uss" "list_all2 (\<lambda>us ts. C ts us) uss (map A ls)" by blast
  from those_sources [of ls f h H C R, OF assms(2)] obtain ns vss where
    n: "those (map f (map h ls)) = Some ns" "list_all2 H ns vss" "list_all2 (\<lambda>us ts. C ts us) vss (map R ls)" by blast
  have "si_seek f \<lparr>si_positives = map g ls, si_negatives = map h ls\<rparr> = Some \<lparr>si_positives = ps, si_negatives = ns\<rparr>"
    using p(1) n(1) by (simp only: si_seek_def stack_iterator.simps stack_iterator.update_convs bind.bind_lunit)
  with p n show ?thesis by (intro exI [of _ "\<lparr>si_positives = ps, si_negatives = ns\<rparr>"] exI [of _ uss] exI [of _ vss]) simp
qed

context big_endian
begin

lemma stack_collect:
  assumes "list_all2 (opt_holds tsi_holds) (si_positives it) pss" "list_all2 (opt_holds tsi_holds) (si_negatives it) nss"
    and "length pss = length nss"
  shows "iter_collect (InternalTripleSubjectIterator_next bo) it = Some (merged (\<lambda>t. t) pss nss)"
  unfolding InternalTripleSubjectIterator_next_def
  using assms by (intro si_collect otsi.stack_next_merged) (auto dest!: list_all2_lengthD)

lemma triples_eq:
  assumes "stack_wf l A R"
  shows "InternalLayer_triples bo l = Some (all_triples l A R)"
  unfolding InternalLayer_triples_def all_triples_def
  using assms layer_sources
  by (intro stack_collect) (auto simp: InternalTripleSubjectIterator_from_layer_def stack_wf_def intro!: list_all2_mapI)

end

text \<open>
  Merging lists that agree with those of the stack on the triples up to the ones wanted:
  \<open>Q\<close> are the wanted triples, \<open>B\<close> those up to them.
\<close>

lemma merged_cut:
  assumes hist: "history_ok l A R"
    and cut: "\<And>t. B t \<Longrightarrow> list_all2 (\<lambda>us ts. t \<in> set us \<longleftrightarrow> t \<in> set ts \<and> Q t) uss (map A (layers_from l))"
      "\<And>t. B t \<Longrightarrow> list_all2 (\<lambda>us ts. t \<in> set us \<longleftrightarrow> t \<in> set ts \<and> Q t) vss (map R (layers_from l))"
    and srt: "key_sorted key uss" "key_sorted key vss" "length uss = length vss" and inj: "inj key"
    and B: "\<And>x y. B y \<Longrightarrow> key x \<le> key y \<Longrightarrow> B x" "\<And>t. Q t \<Longrightarrow> B t"
  shows "sorted_wrt (\<lambda>x y. key x < key y) (takeWhile Q (merged key uss vss))"
    "set (takeWhile Q (merged key uss vss)) = {t. Q t \<and> holds_triple l A R t}"
proof -
  let ?m = "merged key uss vss"
  have ev: "events t uss vss = (if Q t then stack_events A R (layers_from l) t
      else map2 (\<lambda>p n. (False, False)) (map A (layers_from l)) (map R (layers_from l)))" if "B t" for t
    using cut_events [OF cut [OF that]] by (simp add: stack_events_def)
  have alt: "alternating False (events t uss vss)" if "B t" for t
    using ev [OF that] hist by (simp add: history_ok_def alternating_none(1))
  have "sorted_wrt (\<lambda>x y. key x \<le> key y) ?m \<and> sorted_wrt (\<lambda>x y. key x < key y) (filter B ?m) \<and>
      (\<forall>t. B t \<longrightarrow> (t \<in> set ?m \<longleftrightarrow> added False (events t uss vss)))"
    using B(1) alt by (intro merged_spec [OF srt(3,1,2) inj]) blast+
  then have m: "sorted_wrt (\<lambda>x y. key x \<le> key y) ?m" "sorted_wrt (\<lambda>x y. key x < key y) (filter B ?m)"
    and mem: "\<And>t. B t \<Longrightarrow> t \<in> set ?m \<longleftrightarrow> added False (events t uss vss)" by blast+
  have mem': "t \<in> set ?m \<longleftrightarrow> Q t \<and> holds_triple l A R t" if "B t" for t
    using mem [OF that] ev [OF that] by (simp add: holds_triple_def alternating_none(2))
  have "takeWhile Q ?m = takeWhile B ?m"
    using mem' B(2) by (intro takeWhile_cong) auto
  also have "\<dots> = filter B ?m" by (rule sorted_takeWhile_eq [OF m(1) B(1)])
  finally have eq: "takeWhile Q ?m = filter B ?m" .
  show "sorted_wrt (\<lambda>x y. key x < key y) (takeWhile Q ?m)" using m(2) eq by simp
  show "set (takeWhile Q ?m) = {t. Q t \<and> holds_triple l A R t}" using mem' B(2) eq by auto
qed

lemma filter_all_triplesI:
  assumes "stack_wf l A R" "history_ok l A R"
    and "sorted_wrt (<) xs" "set xs = {t. Q t \<and> holds_triple l A R t}"
  shows "xs = filter Q (all_triples l A R)"
  by (rule strict_sorted_eqI [OF assms(3)])
    (use all_triples [OF assms(1,2)] assms(4) in \<open>auto intro!: sorted_wrt_filter\<close>)

context big_endian
begin

lemma opt_seek_sources:
  assumes ch: "layer_changes x A R"
    and f: "\<And>subjects sp spo ts. idx_of subjects sp spo ts \<Longrightarrow>
      \<exists>it us. f (InternalLayerTripleSubjectIterator_new subjects sp spo) = Some it \<and> tsi_holds it us \<and> C ts us"
    and "C [] []"
  shows "\<exists>it us. omap f (InternalLayer_internal_triple_additions x) = Some it \<and> opt_holds tsi_holds it us \<and> C A us"
    "\<exists>it us. omap f (InternalLayer_internal_triple_removals x) = Some it \<and> opt_holds tsi_holds it us \<and> C R us"
proof -
  from ch have a: "idx_of (InternalLayer_pos_subjects x) (InternalLayer_pos_s_p_adjacency_list x)
      (InternalLayer_pos_sp_o_adjacency_list x) A" by (simp add: layer_changes_def)
  from f [OF a] show "\<exists>it us. omap f (InternalLayer_internal_triple_additions x) = Some it \<and> opt_holds tsi_holds it us \<and> C A us"
    by (auto simp: InternalLayer_internal_triple_additions_def omap_def opt_holds_def)
  show "\<exists>it us. omap f (InternalLayer_internal_triple_removals x) = Some it \<and> opt_holds tsi_holds it us \<and> C R us"
  proof (cases "\<exists>sp spo. InternalLayer_neg_s_p_adjacency_list x = Some sp \<and> InternalLayer_neg_sp_o_adjacency_list x = Some spo")
    case True
    then obtain sp spo where n: "InternalLayer_neg_s_p_adjacency_list x = Some sp"
      "InternalLayer_neg_sp_o_adjacency_list x = Some spo" by blast
    with ch have "idx_of (InternalLayer_neg_subjects x) sp spo R" by (simp add: layer_changes_def)
    from f [OF this] n show ?thesis
      by (auto simp: InternalLayer_internal_triple_removals_def omap_def opt_holds_def)
  next
    case False
    with ch have "R = []" "InternalLayer_internal_triple_removals x = None"
      by (auto simp: layer_changes_def InternalLayer_internal_triple_removals_def split: option.splits)
    then show ?thesis using assms(3) by (auto simp: omap_def opt_holds_def)
  qed
qed

lemma seek_subject_stack:
  assumes wf: "stack_wf l A R"
  shows "\<exists>it uss vss. InternalTripleSubjectIterator_seek_subject bo (InternalTripleSubjectIterator_from_layer l) s = Some it \<and>
    list_all2 (opt_holds tsi_holds) (si_positives it) uss \<and> list_all2 (opt_holds tsi_holds) (si_negatives it) vss \<and>
    uss = map (filter (\<lambda>t. s \<le> it_subject t)) (map A (layers_from l)) \<and>
    vss = map (filter (\<lambda>t. s \<le> it_subject t)) (map R (layers_from l))"
proof -
  let ?f = "\<lambda>i. InternalLayerTripleSubjectIterator_seek_subject bo i s"
  let ?C = "\<lambda>ts us. us = filter (\<lambda>t. s \<le> it_subject t) ts"
  have src: "\<exists>it us. omap ?f (InternalLayer_internal_triple_additions x) = Some it \<and> opt_holds tsi_holds it us \<and> ?C (A x) us"
    "\<exists>it us. omap ?f (InternalLayer_internal_triple_removals x) = Some it \<and> opt_holds tsi_holds it us \<and> ?C (R x) us"
    if "x \<in> set (layers_from l)" for x
    using that wf opt_seek_sources [of x "A x" "R x" ?f ?C] seek_subject_holds
    by (auto simp: stack_wf_def)
  have eq: "uss = map (filter (\<lambda>t. s \<le> it_subject t)) tss" if "list_all2 (\<lambda>us ts. ?C ts us) uss tss" for uss tss
    using that by (induction rule: list_all2_induct) auto
  from si_seek_sources [of "layers_from l" "omap ?f" InternalLayer_internal_triple_additions "opt_holds tsi_holds" ?C A
      InternalLayer_internal_triple_removals R, OF src]
  show ?thesis using eq
    unfolding InternalTripleSubjectIterator_seek_subject_def OptInternalLayerTripleSubjectIterator_seek_subject_def
      InternalTripleSubjectIterator_from_layer_def
    by blast
qed

lemma triples_s_eq:
  assumes wf: "stack_wf l A R" "history_ok l A R"
  shows "InternalLayer_triples_s bo l s = Some (filter (\<lambda>t. it_subject t = s) (all_triples l A R))"
proof -
  from seek_subject_stack [OF wf(1)] obtain it uss vss where
    it: "InternalTripleSubjectIterator_seek_subject bo (InternalTripleSubjectIterator_from_layer l) s = Some it"
      "list_all2 (opt_holds tsi_holds) (si_positives it) uss" "list_all2 (opt_holds tsi_holds) (si_negatives it) vss"
    and uss: "uss = map (filter (\<lambda>t. s \<le> it_subject t)) (map A (layers_from l))"
      "vss = map (filter (\<lambda>t. s \<le> it_subject t)) (map R (layers_from l))" by blast
  have srt: "key_sorted (\<lambda>t. t) uss" "key_sorted (\<lambda>t. t) vss"
    using stack_key_sorted [of "layers_from l" A R] wf(1) uss
    by (auto simp: stack_wf_def key_sorted_def intro!: sorted_wrt_filter)
  have cut: "list_all2 (\<lambda>us ts. t \<in> set us \<longleftrightarrow> t \<in> set ts \<and> it_subject t = s)
      (map (filter (\<lambda>t. s \<le> it_subject t)) tss) tss" if "it_subject t \<le> s" for t tss
    using that by (auto simp: list_all2_conv_all_nth)
  note cutA = cut [of _ "map A (layers_from l)", folded uss(1)] and cutR = cut [of _ "map R (layers_from l)", folded uss(2)]
  have "takeWhile (\<lambda>t. it_subject t = s) (merged (\<lambda>t. t) uss vss) = filter (\<lambda>t. it_subject t = s) (all_triples l A R)"
    by (rule filter_all_triplesI [OF wf merged_cut [where B = "\<lambda>t. it_subject t \<le> s" and key = "\<lambda>t. t",
        OF wf(2) cutA cutR srt _ inj_id]]) (auto simp: uss less_eq_IdTriple_def)
  then show ?thesis
    using iter_collect_take_while [OF stack_collect [OF it(2,3)]] it(1) uss
    by (simp add: InternalLayer_triples_s_def boxed_while_def)
qed

lemma seek_subject_predicate_stack:
  assumes wf: "stack_wf l A R" and nz: "s \<noteq> 0" "p \<noteq> 0"
  shows "\<exists>it uss vss. InternalTripleSubjectIterator_seek_subject_predicate bo
      (InternalTripleSubjectIterator_from_layer l) s p = Some it \<and>
    list_all2 (opt_holds tsi_holds) (si_positives it) uss \<and> list_all2 (opt_holds tsi_holds) (si_negatives it) vss \<and>
    list_all2 (\<lambda>us ts. sp_seek s p ts us) uss (map A (layers_from l)) \<and>
    list_all2 (\<lambda>us ts. sp_seek s p ts us) vss (map R (layers_from l))"
proof -
  let ?f = "\<lambda>i. InternalLayerTripleSubjectIterator_seek_subject_predicate bo i s p"
  have src: "\<exists>it us. omap ?f (InternalLayer_internal_triple_additions x) = Some it \<and> opt_holds tsi_holds it us \<and> sp_seek s p (A x) us"
    "\<exists>it us. omap ?f (InternalLayer_internal_triple_removals x) = Some it \<and> opt_holds tsi_holds it us \<and> sp_seek s p (R x) us"
    if "x \<in> set (layers_from l)" for x
    using that wf opt_seek_sources [of x "A x" "R x" ?f "sp_seek s p", OF _ seek_subject_predicate_holds [OF _ nz]]
    by (auto simp: stack_wf_def sp_seek_def)
  from si_seek_sources [of "layers_from l" "omap ?f" InternalLayer_internal_triple_additions "opt_holds tsi_holds"
      "sp_seek s p" A InternalLayer_internal_triple_removals R, OF src]
  show ?thesis
    unfolding InternalTripleSubjectIterator_seek_subject_predicate_def
      OptInternalLayerTripleSubjectIterator_seek_subject_predicate_def InternalTripleSubjectIterator_from_layer_def
    by blast
qed

lemma triples_sp_nonzero:
  assumes wf: "stack_wf l A R" "history_ok l A R" and nz: "s \<noteq> 0" "p \<noteq> 0"
  shows "InternalLayer_triples_sp bo l s p =
    Some (filter (\<lambda>t. it_subject t = s \<and> it_predicate t = p) (all_triples l A R))"
proof -
  let ?B = "\<lambda>t. it_subject t < s \<or> it_subject t = s \<and> it_predicate t \<le> p"
  from seek_subject_predicate_stack [OF wf(1) nz] obtain it uss vss where
    it: "InternalTripleSubjectIterator_seek_subject_predicate bo (InternalTripleSubjectIterator_from_layer l) s p = Some it"
      "list_all2 (opt_holds tsi_holds) (si_positives it) uss" "list_all2 (opt_holds tsi_holds) (si_negatives it) vss"
    and uss: "list_all2 (\<lambda>us ts. sp_seek s p ts us) uss (map A (layers_from l))"
      "list_all2 (\<lambda>us ts. sp_seek s p ts us) vss (map R (layers_from l))" by blast
  have srt: "key_sorted (\<lambda>t. t) xss" if "list_all2 (\<lambda>us ts. sp_seek s p ts us) xss tss" for xss tss
    using that by (auto simp: key_sorted_def sp_seek_def list_all2_conv_all_nth in_set_conv_nth)
  have cut: "list_all2 (\<lambda>us ts. t \<in> set us \<longleftrightarrow> t \<in> set ts \<and> it_subject t = s \<and> it_predicate t = p) xss tss"
    if "?B t" "list_all2 (\<lambda>us ts. sp_seek s p ts us) xss tss" for t xss tss
    by (rule list_all2_mono [OF that(2)]) (use that(1) in \<open>auto simp: sp_seek_def\<close>)
  have len: "length uss = length vss" using uss [THEN list_all2_lengthD] by simp
  have "takeWhile (\<lambda>t. it_subject t = s \<and> it_predicate t = p) (merged (\<lambda>t. t) uss vss) =
      filter (\<lambda>t. it_subject t = s \<and> it_predicate t = p) (all_triples l A R)"
    by (rule filter_all_triplesI [OF wf merged_cut [where B = ?B and key = "\<lambda>t. t",
        OF wf(2) cut [OF _ uss(1)] cut [OF _ uss(2)] srt [OF uss(1)] srt [OF uss(2)] len inj_id]])
      (auto simp: less_eq_IdTriple_def)
  then show ?thesis
    using iter_collect_take_while [OF stack_collect [OF it(2,3) len]] it(1)
    by (simp add: InternalLayer_triples_sp_def boxed_while_def)
qed

text \<open>With the id 0 the seek leaves the triples from a subject on, none of which matches.\<close>

lemma triples_sp_zero:
  assumes wf: "stack_wf l A R" and z: "s = 0 \<or> p = 0"
  shows "InternalLayer_triples_sp bo l s p = Some []"
proof -
  have "InternalLayerTripleSubjectIterator_seek_subject_predicate bo j s p =
      InternalLayerTripleSubjectIterator_seek_subject bo j s" for j
    using z by (auto simp: InternalLayerTripleSubjectIterator_seek_subject_predicate_def
        InternalLayerTripleSubjectIterator_seek_subject_def)
  then have seek: "InternalTripleSubjectIterator_seek_subject_predicate bo i s p =
      InternalTripleSubjectIterator_seek_subject bo i s" for i
    by (simp add: InternalTripleSubjectIterator_seek_subject_predicate_def InternalTripleSubjectIterator_seek_subject_def
        OptInternalLayerTripleSubjectIterator_seek_subject_predicate_def OptInternalLayerTripleSubjectIterator_seek_subject_def)
  from seek_subject_stack [OF wf(1)] obtain it uss vss where
    it: "InternalTripleSubjectIterator_seek_subject bo (InternalTripleSubjectIterator_from_layer l) s = Some it"
      "list_all2 (opt_holds tsi_holds) (si_positives it) uss" "list_all2 (opt_holds tsi_holds) (si_negatives it) vss"
    and uss: "uss = map (filter (\<lambda>t. s \<le> it_subject t)) (map A (layers_from l))"
      "vss = map (filter (\<lambda>t. s \<le> it_subject t)) (map R (layers_from l))" by blast
  have nonzero: "it_subject t \<noteq> 0 \<and> it_predicate t \<noteq> 0" if "t \<in> set (merged (\<lambda>t. t) uss vss)" for t
  proof -
    have "t \<in> set (concat uss)" using that merged_subset [of "\<lambda>t. t" uss vss] by blast
    then obtain x where "x \<in> set (layers_from l)" "t \<in> set (A x)" using uss(1) by auto
    then show ?thesis using wf idx_of_nonzero by (fastforce simp: stack_wf_def layer_changes_def)
  qed
  have "takeWhile (\<lambda>t. it_subject t = s \<and> it_predicate t = p) (merged (\<lambda>t. t) uss vss) = []"
    using nonzero z by (cases "merged (\<lambda>t. t) uss vss") auto
  then show ?thesis
    using iter_collect_take_while [OF stack_collect [OF it(2,3)]] it(1) uss
    by (simp add: InternalLayer_triples_sp_def boxed_while_def seek)
qed

lemma triple_exists_eq:
  assumes "stack_wf l A R"
  shows "InternalLayer_triple_exists bo l s p ob = Some (holds_triple l A R (IdTriple s p ob))"
proof (cases "s = 0 \<or> p = 0 \<or> ob = 0")
  case True
  have "IdTriple s p ob \<notin> set (A x)" if "x \<in> set (layers_from l)" for x
    using that assms True idx_of_nonzero by (fastforce simp: stack_wf_def layer_changes_def)
  then have "\<not> added False (events (IdTriple s p ob) (map A (layers_from l)) (map R (layers_from l)))"
    using events_added [of "map A (layers_from l)" "map R (layers_from l)" "IdTriple s p ob"] by auto
  then show ?thesis using True by (simp add: InternalLayer_triple_exists_def holds_triple_def stack_events_def)
next
  case False
  then show ?thesis using exists_walk_eq [of "layers_from l" A R] assms
    by (simp add: InternalLayer_triple_exists_def holds_triple_def stack_wf_def)
qed

end

section \<open>Net changes\<close>

lemma added_append: "added b (es @ fs) = added (added b fs) es"
  by (induction es) auto

lemma alternating_append: "alternating b (es @ fs) \<longleftrightarrow> alternating b fs \<and> alternating (added b fs) es"
  by (induction es) (auto simp: added_append)

text \<open>In an alternating history the additions exceed the removals by the change of state.\<close>

lemma alternating_count:
  "alternating b es \<Longrightarrow>
    length (filter fst es) + of_bool b = length (filter snd es) + of_bool (added b es)"
proof (induction es)
  case (Cons e es)
  then show ?case by (cases e) (auto split: if_splits)
qed simp

lemma count_concat_sorted:
  assumes "key_sorted key xss"
  shows "count (mset (concat xss)) t = length (filter (\<lambda>xs. t \<in> set xs) xss)"
  using assms
proof (induction xss)
  case (Cons xs xss)
  have "distinct xs" using Cons.prems
    by (auto simp: key_sorted_def distinct_conv_nth sorted_wrt_iff_nth_less) (metis linorder_neqE_nat order_less_irrefl)
  then have "count (mset xs) t = (if t \<in> set xs then 1 else 0)" by (simp add: distinct_count_atmost_1)
  moreover have "count (mset (concat xss)) t = length (filter (\<lambda>xs. t \<in> set xs) xss)"
    using Cons by (simp add: key_sorted_def del: mset_concat)
  ultimately show ?case by (simp del: mset_concat)
qed simp

lemma events_filter:
  "length ps = length ns \<Longrightarrow> length (filter fst (events t ps ns)) = length (filter (\<lambda>p. t \<in> set p) ps)"
  "length ps = length ns \<Longrightarrow> length (filter snd (events t ps ns)) = length (filter (\<lambda>p. t \<in> set p) ns)"
  by (induction ps ns rule: list_induct2) (simp_all add: events_def)

lemma count_changes:
  "count (mset (map snd xs)) t = count (mset xs) (Addition, t) + count (mset xs) (Removal, t)"
proof (induction xs)
  case (Cons x xs)
  then show ?case by (cases x; cases "fst x") auto
qed simp

lemma net_changes_alternating:
  assumes len: "length ps = length ns" and srt: "key_sorted (\<lambda>t. t) ps" "key_sorted (\<lambda>t. t) (ns :: IdTriple list list)"
    and alt: "\<And>t. alternating (b t) (events t ps ns)"
  shows "sorted_wrt (<) (map snd (net_changes (\<lambda>t. t) ps ns))"
    "(Addition, t) \<in> set (net_changes (\<lambda>t. t) ps ns) \<longleftrightarrow> added (b t) (events t ps ns) \<and> \<not> b t"
    "(Removal, t) \<in> set (net_changes (\<lambda>t. t) ps ns) \<longleftrightarrow> \<not> added (b t) (events t ps ns) \<and> b t"
proof -
  let ?n = "net_changes (\<lambda>t. t) ps ns"
  have c: "count (mset ?n) (Addition, t) = of_bool (added (b t) (events t ps ns) \<and> \<not> b t)"
    "count (mset ?n) (Removal, t) = of_bool (\<not> added (b t) (events t ps ns) \<and> b t)" for t
    using net_changes_count [OF srt inj_id, of t] alternating_count [OF alt, of t]
      count_concat_sorted [OF srt(1), of t] count_concat_sorted [OF srt(2), of t] events_filter [OF len, of t]
    by (simp_all del: mset_concat add: of_bool_def split: if_splits)
  show "(Addition, t) \<in> set ?n \<longleftrightarrow> added (b t) (events t ps ns) \<and> \<not> b t"
    "(Removal, t) \<in> set ?n \<longleftrightarrow> \<not> added (b t) (events t ps ns) \<and> b t"
    using c [of t] by (auto simp: count_greater_zero_iff [symmetric] simp flip: set_mset_mset)
  have "count (mset (map snd ?n)) t \<le> 1" for t
    using count_changes [of ?n t] c [of t] by (simp add: of_bool_def split: if_splits)
  then have "distinct (map snd ?n)"
    by (metis count_mset_gt_0 distinct_count_atmost_1 less_one linorder_neqE_nat not_less count_mset_0_iff)
  moreover have "sorted (map snd ?n)"
    using net_changes_sorted [OF srt] by (simp add: sorted_wrt_map)
  ultimately show "sorted_wrt (<) (map snd ?n)" by (simp add: strict_sorted_iff)
qed

lemma parents_upto_Some:
  "parents_upto l pid = Some ls \<Longrightarrow>
    \<exists>p. InternalLayer_name p = pid \<and> (case l of None \<Rightarrow> False | Some l \<Rightarrow> layers_from l = ls @ layers_from p)"
proof (induction l pid arbitrary: ls rule: parents_upto.induct)
  case (2 l pid)
  show ?case
  proof (cases "InternalLayer_name l = pid")
    case True
    then show ?thesis using "2.prems" by auto
  next
    case False
    then obtain ls' where ls': "parents_upto (InternalLayer_immediate_parent l) pid = Some ls'" "ls = l # ls'"
      using "2.prems" by auto
    from "2.IH" [OF False ls'(1)] obtain p where "InternalLayer_name p = pid"
      "case InternalLayer_immediate_parent l of None \<Rightarrow> False | Some l \<Rightarrow> layers_from l = ls' @ layers_from p" by blast
    then show ?thesis using ls'(2) by (auto simp: layers_from.simps [of l] split: option.splits)
  qed
qed simp

lemma parents_upto_None:
  "parents_upto l pid = None \<longleftrightarrow>
    (case l of None \<Rightarrow> True | Some l \<Rightarrow> \<forall>p\<in>set (layers_from l). InternalLayer_name p \<noteq> pid)"
proof (induction l pid rule: parents_upto.induct)
  case (2 l pid)
  then show ?case by (auto simp: layers_from.simps [of l] split: option.splits)
qed simp

context big_endian
begin

lemma stack_changes_eq:
  assumes wf: "stack_wf l A R" "history_ok l A R"
    and it: "InternalTripleStackIterator_from_layer_stack l pid = Inr it"
  shows "\<exists>p cs. InternalLayer_name p = pid \<and> p \<in> set (tl (layers_from l)) \<and>
    iter_collect (InternalTripleStackIterator_next bo) it = Some cs \<and> sorted_wrt (<) (map snd cs) \<and>
    (\<forall>t. (Addition, t) \<in> set cs \<longleftrightarrow> holds_triple l A R t \<and> \<not> holds_triple p A R t) \<and>
    (\<forall>t. (Removal, t) \<in> set cs \<longleftrightarrow> \<not> holds_triple l A R t \<and> holds_triple p A R t)"
proof -
  from it obtain ls where ls: "parents_upto (InternalLayer_immediate_parent l) pid = Some ls"
    and it': "it = \<lparr>si_positives = map InternalLayer_internal_triple_additions (l # ls),
      si_negatives = map InternalLayer_internal_triple_removals (l # ls)\<rparr>"
    by (auto simp: InternalTripleStackIterator_from_layer_stack_def split: option.splits)
  from parents_upto_Some [OF ls] obtain p where p: "InternalLayer_name p = pid"
    and lf: "layers_from l = (l # ls) @ layers_from p"
    by (auto simp: layers_from.simps [of l] split: option.splits)
  have ch: "\<forall>x\<in>set (l # ls). layer_changes x (A x) (R x)" using wf(1) by (auto simp: stack_wf_def lf)
  let ?ps = "map A (l # ls)" and ?ns = "map R (l # ls)"
  have ev: "stack_events A R (layers_from l) t = events t ?ps ?ns @ stack_events A R (layers_from p) t" for t
    unfolding lf stack_events_def events_def by simp
  have alt: "alternating (holds_triple p A R t) (events t ?ps ?ns)" for t
    using wf(2) unfolding history_ok_def ev alternating_append holds_triple_def by blast
  have add: "added (holds_triple p A R t) (events t ?ps ?ns) = holds_triple l A R t" for t
    by (simp only: holds_triple_def ev added_append)
  have "iter_collect (InternalTripleStackIterator_next bo) it = Some (net_changes (\<lambda>t. t) ?ps ?ns)"
    unfolding InternalTripleStackIterator_next_def it'
    using ch layer_sources by (intro si_collect otsi.changes_next_net) (auto intro!: list_all2_mapI)
  moreover have "p \<in> set (tl (layers_from l))" using self_in_layers_from [of p] by (simp add: lf)
  moreover have "sorted_wrt (<) (map snd (net_changes (\<lambda>t. t) ?ps ?ns))"
    by (rule net_changes_alternating(1) [OF _ stack_key_sorted [OF ch] alt]) simp
  moreover have "(Addition, t) \<in> set (net_changes (\<lambda>t. t) ?ps ?ns) \<longleftrightarrow> holds_triple l A R t \<and> \<not> holds_triple p A R t"
    "(Removal, t) \<in> set (net_changes (\<lambda>t. t) ?ps ?ns) \<longleftrightarrow> \<not> holds_triple l A R t \<and> holds_triple p A R t" for t
    using net_changes_alternating(2,3) [OF _ stack_key_sorted [OF ch] alt, of t] by (simp_all only: add length_map)
  ultimately show ?thesis using p by blast
qed

end

end
