(* ===== verification/IndexQueries.thy ===== *)
theory IndexQueries
  imports StackTriples
begin

text \<open>
  The queries of a stack by object and by predicate, and the counts. The object index of a
  layer lists for every object the positions of its subject and predicate pairs; \<open>oidx_wf\<close>
  relates it to the triples it stands for. The wavelet tree over the predicates finds the
  positions of a predicate in the first list of the triple index.
\<close>

section \<open>The object index\<close>

definition oidx_wf ::
  "MonotonicLogArray option \<Rightarrow> MonotonicLogArray option \<Rightarrow> AdjacencyList \<Rightarrow> AdjacencyList \<Rightarrow>
    u64 list list \<Rightarrow> u64 list list \<Rightarrow> bool" where
  "oidx_wf subjects objects ops sp pss ss \<longleftrightarrow>
    al_wf ops pss \<and> al_wf sp ss \<and> subjects_wf subjects (length ss) \<and> subjects_wf objects (length pss) \<and>
    (\<forall>s\<in>set pss. sorted_wrt (<) s) \<and> (\<forall>s\<in>set ss. sorted_wrt (<) s) \<and>
    (\<forall>n\<in>set (concat pss). unat n \<le> length (concat ss))"

definition obj_row ::
  "MonotonicLogArray option \<Rightarrow> MonotonicLogArray option \<Rightarrow> u64 list list \<Rightarrow> u64 list list \<Rightarrow> nat \<Rightarrow> IdTriple" where
  "obj_row subjects objects pss ss q =
    (let j = unat (concat pss ! q) - 1
     in IdTriple (subject_at subjects (seg_of ss j)) (concat ss ! j) (subject_at objects (seg_of pss q)))"

definition obj_rows_from ::
  "MonotonicLogArray option \<Rightarrow> MonotonicLogArray option \<Rightarrow> u64 list list \<Rightarrow> u64 list list \<Rightarrow> nat \<Rightarrow> IdTriple list" where
  "obj_rows_from subjects objects pss ss q =
    map (obj_row subjects objects pss ss) (filter (\<lambda>q. concat pss ! q \<noteq> 0) [q..<length (concat pss)])"

lemma oidx_wfD:
  assumes "oidx_wf subjects objects ops sp pss ss"
  shows "al_wf ops pss" "al_wf sp ss" "subjects_wf subjects (length ss)" "subjects_wf objects (length pss)"
    and "\<forall>s\<in>set pss. sorted_wrt (<) s" "\<forall>s\<in>set ss. sorted_wrt (<) s" "[] \<notin> set pss" "[] \<notin> set ss"
    and "\<And>q. q < length (concat pss) \<Longrightarrow> concat pss ! q \<noteq> 0 \<Longrightarrow> unat (concat pss ! q) - 1 < length (concat ss)"
    and "length (concat pss) < 2 ^ 32" "length (concat ss) < 2 ^ 32" "length pss < 2 ^ 32" "length ss < 2 ^ 32"
proof -
  show D: "al_wf ops pss" "al_wf sp ss" "subjects_wf subjects (length ss)" "subjects_wf objects (length pss)"
    "\<forall>s\<in>set pss. sorted_wrt (<) s" "\<forall>s\<in>set ss. sorted_wrt (<) s"
    using assms by (simp_all add: oidx_wf_def)
  show "[] \<notin> set pss" "[] \<notin> set ss" using al_wfD(3) D(1,2) by blast+
  show "length (concat pss) < 2 ^ 32" "length (concat ss) < 2 ^ 32" "length pss < 2 ^ 32" "length ss < 2 ^ 32"
    using al_wfD(8,9) [OF D(1)] al_wfD(8,9) [OF D(2)] by simp_all
  show "unat (concat pss ! q) - 1 < length (concat ss)" if "q < length (concat pss)" "concat pss ! q \<noteq> 0" for q
  proof -
    have "concat pss ! q \<in> set (concat pss)" using that(1) by (rule nth_mem)
    then have "unat (concat pss ! q) \<le> length (concat ss)" using assms unfolding oidx_wf_def by blast
    moreover have "0 < unat (concat pss ! q)" using that(2) by (simp add: unat_gt_0)
    ultimately show ?thesis by simp
  qed
qed

lemma obj_row_less:
  assumes wf: "oidx_wf subjects objects ops sp pss ss" and pq: "p < q" "q < length (concat pss)"
    and nz: "concat pss ! p \<noteq> 0" "concat pss ! q \<noteq> 0"
  shows "object_key (obj_row subjects objects pss ss p) < object_key (obj_row subjects objects pss ss q)"
proof -
  note D = oidx_wfD [OF wf]
  have seg: "seg_of pss p \<le> seg_of pss q" "seg_of pss q < length pss"
    using pq seg_of_less [OF D(7) pq(2)] by (simp_all add: seg_of_mono)
  show ?thesis
  proof (cases "seg_of pss p = seg_of pss q")
    case False
    then show ?thesis using subject_at_less [OF D(4) _ seg(2) D(12)] seg(1)
      by (simp add: object_key_def obj_row_def Let_def)
  next
    case True
    let ?i = "unat (concat pss ! p) - 1" and ?j = "unat (concat pss ! q) - 1"
    have "concat pss ! p < concat pss ! q" using segment_sorted [OF D(7,5) pq True] .
    then have ij: "?i < ?j" using nz(1) by (simp add: word_less_nat_alt unat_gt_0 diff_less_mono Suc_le_eq)
    have j: "?j < length (concat ss)" using D(9) pq nz(2) by simp
    then have sj: "seg_of ss ?i \<le> seg_of ss ?j" "seg_of ss ?j < length ss"
      using ij seg_of_less [OF D(8) j] by (simp_all add: seg_of_mono)
    show ?thesis
    proof (cases "seg_of ss ?i = seg_of ss ?j")
      case True
      then have "concat ss ! ?i < concat ss ! ?j" using segment_sorted [OF D(8,6) ij j] by blast
      then show ?thesis using True \<open>seg_of pss p = seg_of pss q\<close> by (simp add: object_key_def obj_row_def Let_def)
    next
      case False
      then have "subject_at subjects (seg_of ss ?i) < subject_at subjects (seg_of ss ?j)"
        using subject_at_less [OF D(3) _ sj(2) D(13)] sj(1) by simp
      then show ?thesis using \<open>seg_of pss p = seg_of pss q\<close> by (simp add: object_key_def obj_row_def Let_def)
    qed
  qed
qed

lemma obj_rows_sorted:
  assumes "oidx_wf subjects objects ops sp pss ss"
  shows "sorted_wrt (\<lambda>x y. object_key x < object_key y) (obj_rows_from subjects objects pss ss q)"
proof -
  have "sorted_wrt (<) (filter (\<lambda>q. concat pss ! q \<noteq> 0) [q..<length (concat pss)])" by (simp add: sorted_wrt_filter)
  then show ?thesis unfolding obj_rows_from_def sorted_wrt_map
    by (rule sorted_wrt_mono_rel [rotated]) (auto intro!: obj_row_less [OF assms])
qed

lemma obj_rows_step:
  "q < length (concat pss) \<Longrightarrow> obj_rows_from subjects objects pss ss q =
    (if concat pss ! q \<noteq> 0 then [obj_row subjects objects pss ss q] else []) @ obj_rows_from subjects objects pss ss (Suc q)"
  by (simp add: obj_rows_from_def upt_conv_Cons)

lemma obj_rows_end: "length (concat pss) \<le> q \<Longrightarrow> obj_rows_from subjects objects pss ss q = []"
  by (simp add: obj_rows_from_def)

lemma obj_rows_offset:
  assumes wf: "oidx_wf subjects objects ops sp pss ss" and i: "\<And>k. k < length pss \<Longrightarrow> ob \<le> subject_at objects k \<longleftrightarrow> i \<le> k"
  shows "obj_rows_from subjects objects pss ss (offset_of pss i) =
    filter (\<lambda>t. ob \<le> it_object t) (obj_rows_from subjects objects pss ss 0)"
proof -
  note D = oidx_wfD [OF wf]
  let ?n = "length (concat pss)" and ?q = "offset_of pss i"
  have at: "ob \<le> it_object (obj_row subjects objects pss ss q) \<longleftrightarrow> ?q \<le> q" if "q < ?n" for q
    using i [OF seg_of_less [OF D(7) that]] seg_of_less_iff [OF D(7) that, of i]
    by (auto simp: obj_row_def Let_def not_less [symmetric])
  have upt: "[0..<?n] = [0..<?q] @ [?q..<?n]"
    using offset_le [of pss i] by (metis le_add_diff_inverse upt_add_eq_append zero_le)
  let ?P = "\<lambda>q. ob \<le> it_object (obj_row subjects objects pss ss q) \<and> concat pss ! q \<noteq> 0"
  have "filter ?P [0..<?q] = []" using at offset_le [of pss i] by (auto simp: filter_empty_conv)
  moreover have "filter ?P [?q..<?n] = filter (\<lambda>q. concat pss ! q \<noteq> 0) [?q..<?n]"
    by (rule filter_cong) (use at in auto)
  ultimately show ?thesis
    by (simp add: obj_rows_from_def filter_map o_def conj_commute upt del: upt_conv_Nil)
qed

lemma pairs_from_nth:
  assumes "[] \<notin> set ss" "q < length (concat ss)"
  shows "pairs_from l ss ! q = (of_nat (seg_of ss q) + l, concat ss ! q)"
proof -
  let ?z = "zip (segs_bits ss) (concat ss)"
  have "map fst ?z = segs_bits ss" "q < length ?z" using assms by (simp_all add: map_fst_zip)
  then show ?thesis
    using nth_walk [of q ?z l] walk_segments [OF assms(1), of l] assms by (simp add: add.commute seg_of_def)
qed

section \<open>The iterator by object\<close>

definition toi_wf ::
  "InternalLayerTripleObjectIterator \<Rightarrow> u64 list list \<Rightarrow> u64 list list \<Rightarrow> nat \<Rightarrow> bool" where
  "toi_wf self pss ss q \<longleftrightarrow>
    oidx_wf (toi_subjects self) (toi_objects self) (toi_o_ps_adjacency_list self) (toi_s_p_adjacency_list self) pss ss \<and>
    unat (toi_o_ps_position self) = q \<and> q \<le> length (concat pss) \<and>
    (q < length (concat pss) \<longrightarrow> unat (toi_o_position self) = seg_of pss q)"

definition toi_rows :: "InternalLayerTripleObjectIterator \<Rightarrow> u64 list list \<Rightarrow> u64 list list \<Rightarrow> nat \<Rightarrow> IdTriple list" where
  "toi_rows self pss ss q = obj_rows_from (toi_subjects self) (toi_objects self) pss ss q"

definition toi_holds :: "InternalLayerTripleObjectIterator \<Rightarrow> IdTriple list \<Rightarrow> bool" where
  "toi_holds self xs \<longleftrightarrow> (\<exists>pss ss q. toi_wf self pss ss q \<and>
    xs = (case toi_peeked self of None \<Rightarrow> [] | Some t \<Rightarrow> [t]) @ toi_rows self pss ss q)"

context big_endian
begin

lemma toi_advance_eq:
  assumes "toi_wf self pss ss q"
  shows "\<exists>self' q'. toi_advance bo self = Some (peek (toi_rows self pss ss q), self') \<and>
    toi_wf self' pss ss q' \<and> toi_rows self' pss ss q' = tl (toi_rows self pss ss q) \<and>
    toi_peeked self' = toi_peeked self"
  using assms
proof (induction "length (concat pss) - q" arbitrary: self q rule: less_induct)
  case less
  let ?subs = "toi_subjects self" and ?obs = "toi_objects self"
  from less.prems have wf: "oidx_wf ?subs ?obs (toi_o_ps_adjacency_list self) (toi_s_p_adjacency_list self) pss ss"
    and q: "unat (toi_o_ps_position self) = q" "q \<le> length (concat pss)" by (simp_all add: toi_wf_def)
  note D = oidx_wfD [OF wf]
  have rc: "unat (of_nat (AdjacencyList_right_count (toi_o_ps_adjacency_list self)) :: u64) = length (concat pss)"
    using al_wfD(6) [OF D(1)] D(10) by (simp add: AdjacencyList_right_count_def unat_of_nat_u64)
  show ?case
  proof (cases "q < length (concat pss)")
    case False
    then have "toi_rows self pss ss q = []" by (simp add: toi_rows_def obj_rows_end)
    then show ?thesis using False q less.prems rc
      by (subst toi_advance.simps) (auto simp: word_le_nat_alt peek_def)
  next
    case True
    let ?n = "concat pss ! q" and ?b = "segs_bits pss ! q"
    from less.prems True have pos: "unat (toi_o_position self) = seg_of pss q" by (simp add: toi_wf_def)
    have lt: "seg_of pss q < length pss" by (rule seg_of_less [OF D(7) True])
    have Suc64: "unat (x + 1) = Suc (unat x)" if "unat x < 2 ^ 32" for x :: u64
      by (rule unat_succ [of _ "2 ^ 32"]) (use that in \<open>simp add: word_less_nat_alt\<close>)
    define s1 where "s1 = self\<lparr>toi_o_position := (if ?b then toi_o_position self + 1 else toi_o_position self),
      toi_o_ps_position := toi_o_ps_position self + 1\<rparr>"
    have s1: "toi_wf s1 pss ss (Suc q)" "toi_rows s1 pss ss r = toi_rows self pss ss r" "toi_peeked s1 = toi_peeked self" for r
      using wf pos q True lt D(10,12) seg_of_Suc [OF D(7) True] Suc64 [of "toi_o_position self"] Suc64 [of "toi_o_ps_position self"]
      by (auto simp: s1_def toi_wf_def toi_rows_def)
    have adv: "toi_advance bo self = (if ?n = 0 then toi_advance bo s1
        else do { (mapped_subject, predicate) \<leftarrow> AdjacencyList_pair_at_pos bo (toi_s_p_adjacency_list self) (?n - 1);
          subject \<leftarrow> (case ?subs of
              Some subjects \<Rightarrow> LogArray_entry bo (mla_array subjects) (unat (mapped_subject - 1))
            | None \<Rightarrow> Some mapped_subject);
          Some (Some (IdTriple subject predicate (subject_at ?obs (seg_of pss q))), s1) })"
      using True q rc pos lt subject_entry [OF D(4), of "toi_o_position self"]
      by (subst toi_advance.simps)
        (simp add: AdjacencyList_bit_at_pos_eq [OF D(1)] AdjacencyList_num_at_pos_eq [OF D(1)] s1_def
          word_le_nat_alt Let_def)
    show ?thesis
    proof (cases "?n = 0")
      case zero: True
      have "toi_rows self pss ss q = toi_rows s1 pss ss (Suc q)"
        using zero obj_rows_step [OF True] s1(2) by (simp add: toi_rows_def)
      then show ?thesis using adv zero less.hyps [OF _ s1(1)] True s1(3) by simp
    next
      case nz: False
      define j where "j = unat ?n - 1"
      have j: "j < length (concat ss)" "unat (?n - 1) = j" using D(9) [OF True nz] nz by (auto simp: unat_minus_one j_def)
      have sj: "seg_of ss j < length ss" by (rule seg_of_less [OF D(8) j(1)])
      have pair: "AdjacencyList_pair_at_pos bo (toi_s_p_adjacency_list self) (?n - 1) =
          Some (of_nat (seg_of ss j) + 1, concat ss ! j)"
        using AdjacencyList_pair_at_pos_eq [OF D(2), of "?n - 1"] pairs_from_nth [OF D(8) j(1), of 1] j by simp
      have un: "unat (of_nat (seg_of ss j) :: u64) = seg_of ss j" using sj D(13) by (intro unat_of_nat_u64) simp
      have sub: "(case ?subs of Some subjects \<Rightarrow> LogArray_entry bo (mla_array subjects) (unat (of_nat (seg_of ss j) + 1 - 1 :: u64))
          | None \<Rightarrow> Some (of_nat (seg_of ss j) + 1)) = Some (subject_at ?subs (seg_of ss j))"
        using subject_entry [OF D(3), of "of_nat (seg_of ss j)"] sj un by (simp split: option.splits)
      have "toi_advance bo self = Some (Some (obj_row ?subs ?obs pss ss q), s1)"
        unfolding adv obj_row_def Let_def j_def [symmetric] using nz by (simp add: pair sub del: add_diff_cancel_right')
      moreover have "toi_rows self pss ss q = obj_row ?subs ?obs pss ss q # toi_rows s1 pss ss (Suc q)"
        using nz obj_rows_step [OF True] s1(2) by (simp add: toi_rows_def)
      ultimately show ?thesis using s1 by (auto simp: peek_def)
    qed
  qed
qed

lemma seek_object_eq:
  assumes wf: "toi_wf self pss ss q"
  shows "\<exists>self' q'. InternalLayerTripleObjectIterator_seek_object bo self ob = Some self' \<and>
    toi_wf self' pss ss q' \<and> toi_peeked self' = None \<and>
    toi_rows self' pss ss q' = filter (\<lambda>t. ob \<le> it_object t) (toi_rows self pss ss 0)"
proof -
  let ?subs = "toi_subjects self" and ?obs = "toi_objects self" and ?ops = "toi_o_ps_adjacency_list self"
  from wf have oi: "oidx_wf ?subs ?obs ?ops (toi_s_p_adjacency_list self) pss ss" by (simp add: toi_wf_def)
  note D = oidx_wfD [OF oi]
  have rows: "toi_rows (toi_at a b self) pss ss r = toi_rows self pss ss r" "toi_peeked (toi_at a b self) = None" for a b r
    by (simp_all add: toi_rows_def toi_at_def)
  have at: "toi_wf (toi_at p (of_nat (offset_of pss i)) self) pss ss (offset_of pss i)"
    if "i < length pss \<Longrightarrow> unat p = i" for p i
  proof -
    have "i < length pss" if "offset_of pss i < length (concat pss)" using that by (metis leI less_irrefl offset_all)
    then show ?thesis
      using that oi offset_le [of pss i] offset_for_at(2) [OF D(1), of 0 i] seg_of_offset [OF D(7), of i]
      by (auto simp: toi_wf_def toi_at_def)
  qed
  show ?thesis
  proof (cases "ob = 0")
    case True
    have z: "toi_wf (toi_at 0 0 self) pss ss 0" using oi by (simp add: toi_wf_def toi_at_def)
    have "InternalLayerTripleObjectIterator_seek_object bo self ob = Some (toi_at 0 0 self)"
      using True by (simp add: InternalLayerTripleObjectIterator_seek_object_def)
    then show ?thesis using z rows True by (intro exI [of _ "toi_at 0 0 self"] exI [of _ 0]) simp
  next
    case False
    let ?it = "InternalLayerTripleSubjectIterator_new ?obs ?ops ?ops"
    have it: "tsi_subjects ?it = ?obs" by (simp add: InternalLayerTripleSubjectIterator_new_def)
    obtain p where "tsi_subject_position bo ?it ob = Some p"
      and iff: "\<And>i. i < length pss \<Longrightarrow> subject_at ?obs i < ob \<longleftrightarrow> i < unat p"
      using subject_position_cases [of ?it "length pss" ob, unfolded it, OF D(4,12) False] by blast
    then have p: "(case ?obs of None \<Rightarrow> Some (ob - 1)
        | Some objects \<Rightarrow> map_option of_nat (MonotonicLogArray_nearest_index_of bo objects ob)) = Some p"
      by (simp add: tsi_subject_position_def it)
    let ?i = "min (unat p) (length pss)"
    have r: "toi_rows (toi_at a b self) pss ss (offset_of pss ?i) = filter (\<lambda>t. ob \<le> it_object t) (toi_rows self pss ss 0)" for a b
      unfolding rows unfolding toi_rows_def
      by (rule obj_rows_offset [OF oi]) (use iff in \<open>force simp: not_less [symmetric]\<close>)
    obtain c where c: "AdjacencyList_left_count bo ?ops = Some c" "unat (of_nat c :: u64) = length pss"
      using left_count_at [OF D(1)] by blast
    have rc: "AdjacencyList_right_count ?ops = offset_of pss (length pss)"
      using al_wfD(6) [OF D(1)] by (simp add: AdjacencyList_right_count_def offset_all)
    have "InternalLayerTripleObjectIterator_seek_object bo self ob = Some (toi_at p (of_nat (offset_of pss ?i)) self)"
    proof (cases "unat p < length pss")
      case True
      then show ?thesis using False c offset_for_at(1) [OF D(1), of p]
        by (simp add: InternalLayerTripleObjectIterator_seek_object_def p word_le_nat_alt min_def)
    next
      case over: False
      then show ?thesis using False c rc
        by (simp add: InternalLayerTripleObjectIterator_seek_object_def p word_le_nat_alt min_def)
    qed
    moreover have "toi_wf (toi_at p (of_nat (offset_of pss ?i)) self) pss ss (offset_of pss ?i)"
      by (rule at) auto
    ultimately show ?thesis using r rows(2) by blast
  qed
qed

lemma toi_next_wf:
  assumes "toi_holds s xs"
  shows "\<exists>s' pss ss q. InternalLayerTripleObjectIterator_next bo s = Some (peek xs, s') \<and>
    toi_wf s' pss ss q \<and> toi_peeked s' = None \<and> toi_rows s' pss ss q = tl xs"
proof -
  from assms obtain pss ss q where wf: "toi_wf s pss ss q"
    and xs: "xs = (case toi_peeked s of None \<Rightarrow> [] | Some t \<Rightarrow> [t]) @ toi_rows s pss ss q"
    by (auto simp: toi_holds_def)
  show ?thesis
  proof (cases "toi_peeked s")
    case None
    from toi_advance_eq [OF wf] obtain s' q' where "toi_advance bo s = Some (peek (toi_rows s pss ss q), s')"
      "toi_wf s' pss ss q'" "toi_rows s' pss ss q' = tl (toi_rows s pss ss q)" "toi_peeked s' = toi_peeked s" by blast
    then show ?thesis using None xs
      by (intro exI [of _ s'] exI [of _ pss] exI [of _ ss] exI [of _ q'])
        (simp add: InternalLayerTripleObjectIterator_next_def)
  next
    case (Some t)
    then show ?thesis using wf xs
      by (intro exI [of _ "s\<lparr>toi_peeked := None\<rparr>"] exI [of _ pss] exI [of _ ss] exI [of _ q])
        (simp add: InternalLayerTripleObjectIterator_next_def peek_def toi_wf_def toi_rows_def)
  qed
qed

sublocale toi: peekable "InternalLayerTripleObjectIterator_peek bo" "InternalLayerTripleObjectIterator_next bo" toi_holds
proof
  fix s xs assume "toi_holds s xs"
  from toi_next_wf [OF this] obtain s' pss ss q where n: "InternalLayerTripleObjectIterator_next bo s = Some (peek xs, s')"
    "toi_wf s' pss ss q" "toi_peeked s' = None" "toi_rows s' pss ss q = tl xs" by blast
  then have "toi_holds s' (tl xs)" unfolding toi_holds_def
    by (intro exI [of _ pss] exI [of _ ss] exI [of _ q]) simp
  then show "\<exists>s'. InternalLayerTripleObjectIterator_next bo s = Some (peek xs, s') \<and> toi_holds s' (tl xs)"
    using n(1) by blast
  have "toi_holds (s'\<lparr>toi_peeked := peek xs\<rparr>) xs" unfolding toi_holds_def
    by (intro exI [of _ pss] exI [of _ ss] exI [of _ q])
      (use n peek_tl [of xs] in \<open>simp add: toi_wf_def toi_rows_def\<close>)
  then show "\<exists>s'. InternalLayerTripleObjectIterator_peek bo s = Some (peek xs, s') \<and> toi_holds s' xs"
    using n(1) by (simp add: InternalLayerTripleObjectIterator_peek_def)
qed

sublocale otoi: peekable "OptInternalLayerTripleObjectIterator_peek bo" "OptInternalLayerTripleObjectIterator_next bo"
  "opt_holds toi_holds"
  unfolding OptInternalLayerTripleObjectIterator_peek_def OptInternalLayerTripleObjectIterator_next_def
  by (rule toi.opt_peekable)

end

section \<open>The triples of an object\<close>

definition oidx_of ::
  "MonotonicLogArray option \<Rightarrow> MonotonicLogArray option \<Rightarrow> AdjacencyList \<Rightarrow> AdjacencyList \<Rightarrow> IdTriple list \<Rightarrow> bool" where
  "oidx_of subjects objects ops sp ts \<longleftrightarrow>
    (\<exists>pss ss. oidx_wf subjects objects ops sp pss ss \<and> ts = obj_rows_from subjects objects pss ss 0)"

text \<open>The object indexes of a layer hold its additions and its removals.\<close>

definition layer_objects :: "InternalLayer \<Rightarrow> IdTriple list \<Rightarrow> IdTriple list \<Rightarrow> bool" where
  "layer_objects l A R \<longleftrightarrow>
    (\<exists>ts. oidx_of (InternalLayer_pos_subjects l) (InternalLayer_pos_objects l)
      (InternalLayer_pos_o_ps_adjacency_list l) (InternalLayer_pos_s_p_adjacency_list l) ts \<and> set ts = set A) \<and>
    (case (InternalLayer_neg_o_ps_adjacency_list l, InternalLayer_neg_s_p_adjacency_list l) of
       (Some ops, Some sp) \<Rightarrow>
         \<exists>ts. oidx_of (InternalLayer_neg_subjects l) (InternalLayer_neg_objects l) ops sp ts \<and> set ts = set R
     | _ \<Rightarrow> R = [])"

definition objects_wf ::
  "InternalLayer \<Rightarrow> (InternalLayer \<Rightarrow> IdTriple list) \<Rightarrow> (InternalLayer \<Rightarrow> IdTriple list) \<Rightarrow> bool" where
  "objects_wf l A R \<longleftrightarrow> (\<forall>x\<in>set (layers_from l). layer_objects x (A x) (R x))"

text \<open>What a seek of an object leaves of a list of triples.\<close>

definition o_seek :: "u64 \<Rightarrow> IdTriple list \<Rightarrow> IdTriple list \<Rightarrow> bool" where
  "o_seek ob ts us \<longleftrightarrow> sorted_wrt (\<lambda>x y. object_key x < object_key y) us \<and>
    set us = {t \<in> set ts. ob \<le> it_object t}"

lemma inj_object_key: "inj object_key"
  by (auto simp: inj_on_def object_key_def IdTriple.expand)

lemma same_object_less:
  "object_key x < object_key y \<Longrightarrow> it_object x = it_object y \<Longrightarrow> x < y"
  by (auto simp: object_key_def less_IdTriple_def)

context big_endian
begin

lemma seek_object_holds:
  assumes "oidx_of subjects objects ops sp ts" "set ts = set A"
  shows "\<exists>it us. InternalLayerTripleObjectIterator_seek_object bo
      (InternalLayerTripleObjectIterator_new subjects objects ops sp) ob = Some it \<and> toi_holds it us \<and> o_seek ob A us"
proof -
  from assms(1) obtain pss ss where wf: "oidx_wf subjects objects ops sp pss ss"
    and ts: "ts = obj_rows_from subjects objects pss ss 0" by (auto simp: oidx_of_def)
  let ?new = "InternalLayerTripleObjectIterator_new subjects objects ops sp"
  have new: "toi_wf ?new pss ss 0" "toi_rows ?new pss ss 0 = ts"
    using wf ts by (simp_all add: toi_wf_def toi_rows_def InternalLayerTripleObjectIterator_new_def)
  from seek_object_eq [OF new(1), of ob] obtain it q where
    it: "InternalLayerTripleObjectIterator_seek_object bo ?new ob = Some it" "toi_wf it pss ss q" "toi_peeked it = None"
      "toi_rows it pss ss q = filter (\<lambda>t. ob \<le> it_object t) ts" using new(2) by auto
  have "toi_holds it (filter (\<lambda>t. ob \<le> it_object t) ts)" unfolding toi_holds_def
    by (intro exI [of _ pss] exI [of _ ss] exI [of _ q]) (use it in simp)
  moreover have "o_seek ob A (filter (\<lambda>t. ob \<le> it_object t) ts)"
    using obj_rows_sorted [OF wf, of 0] assms(2) ts by (auto simp: o_seek_def sorted_wrt_filter)
  ultimately show ?thesis using it(1) by blast
qed

lemma object_sources:
  assumes "layer_objects x A R"
  shows "\<exists>it us. OptInternalLayerTripleObjectIterator_seek_object bo (InternalLayer_internal_triple_additions_by_object x) ob = Some it \<and>
      opt_holds toi_holds it us \<and> o_seek ob A us"
    "\<exists>it us. OptInternalLayerTripleObjectIterator_seek_object bo (InternalLayer_internal_triple_removals_by_object x) ob = Some it \<and>
      opt_holds toi_holds it us \<and> o_seek ob R us"
proof -
  from assms obtain ts where "oidx_of (InternalLayer_pos_subjects x) (InternalLayer_pos_objects x)
      (InternalLayer_pos_o_ps_adjacency_list x) (InternalLayer_pos_s_p_adjacency_list x) ts" "set ts = set A"
    by (auto simp: layer_objects_def)
  from seek_object_holds [OF this, of ob]
  show "\<exists>it us. OptInternalLayerTripleObjectIterator_seek_object bo (InternalLayer_internal_triple_additions_by_object x) ob = Some it \<and>
      opt_holds toi_holds it us \<and> o_seek ob A us"
    by (auto simp: OptInternalLayerTripleObjectIterator_seek_object_def omap_def opt_holds_def
        InternalLayer_internal_triple_additions_by_object_def)
  show "\<exists>it us. OptInternalLayerTripleObjectIterator_seek_object bo (InternalLayer_internal_triple_removals_by_object x) ob = Some it \<and>
      opt_holds toi_holds it us \<and> o_seek ob R us"
  proof (cases "\<exists>ops sp. InternalLayer_neg_o_ps_adjacency_list x = Some ops \<and> InternalLayer_neg_s_p_adjacency_list x = Some sp")
    case True
    then obtain ops sp where n: "InternalLayer_neg_o_ps_adjacency_list x = Some ops"
      "InternalLayer_neg_s_p_adjacency_list x = Some sp" by blast
    with assms obtain ts where "oidx_of (InternalLayer_neg_subjects x) (InternalLayer_neg_objects x) ops sp ts" "set ts = set R"
      by (auto simp: layer_objects_def)
    from seek_object_holds [OF this, of ob] n show ?thesis
      by (auto simp: OptInternalLayerTripleObjectIterator_seek_object_def omap_def opt_holds_def
          InternalLayer_internal_triple_removals_by_object_def)
  next
    case False
    with assms have "R = []" "InternalLayer_internal_triple_removals_by_object x = None"
      by (auto simp: layer_objects_def InternalLayer_internal_triple_removals_by_object_def split: option.splits)
    then show ?thesis
      by (auto simp: OptInternalLayerTripleObjectIterator_seek_object_def omap_def opt_holds_def o_seek_def)
  qed
qed

lemma triples_o_eq:
  assumes wf: "stack_wf l A R" "history_ok l A R" "objects_wf l A R"
  shows "InternalLayer_triples_o bo l ob = Some (filter (\<lambda>t. it_object t = ob) (all_triples l A R))"
proof -
  from si_seek_sources [of "layers_from l" "\<lambda>i. OptInternalLayerTripleObjectIterator_seek_object bo i ob"
      InternalLayer_internal_triple_additions_by_object "opt_holds toi_holds" "o_seek ob" A
      InternalLayer_internal_triple_removals_by_object R] object_sources wf(3)
  obtain it uss vss where
    it: "InternalTripleObjectIterator_seek_object bo (InternalTripleObjectIterator_from_layer l) ob = Some it"
      "list_all2 (opt_holds toi_holds) (si_positives it) uss" "list_all2 (opt_holds toi_holds) (si_negatives it) vss"
    and uss: "list_all2 (\<lambda>us ts. o_seek ob ts us) uss (map A (layers_from l))"
      "list_all2 (\<lambda>us ts. o_seek ob ts us) vss (map R (layers_from l))"
    unfolding InternalTripleObjectIterator_seek_object_def InternalTripleObjectIterator_from_layer_def objects_wf_def
    by blast
  have srt: "key_sorted object_key xss" if "list_all2 (\<lambda>us ts. o_seek ob ts us) xss tss" for xss tss
    using that by (auto simp: key_sorted_def o_seek_def list_all2_conv_all_nth in_set_conv_nth)
  have cut: "list_all2 (\<lambda>us ts. t \<in> set us \<longleftrightarrow> t \<in> set ts \<and> it_object t = ob) xss tss"
    if "it_object t \<le> ob" "list_all2 (\<lambda>us ts. o_seek ob ts us) xss tss" for t xss tss
    by (rule list_all2_mono [OF that(2)]) (use that(1) in \<open>auto simp: o_seek_def\<close>)
  have len: "length uss = length vss" using uss [THEN list_all2_lengthD] by simp
  have down: "it_object x \<le> ob" if "it_object y \<le> ob" "object_key x \<le> object_key y" for x y
    using that by (auto simp: object_key_def)
  note M = merged_cut [where B = "\<lambda>t. it_object t \<le> ob" and key = object_key, OF wf(2) cut [OF _ uss(1)] cut [OF _ uss(2)]
      srt [OF uss(1)] srt [OF uss(2)] len inj_object_key down]
  let ?m = "takeWhile (\<lambda>t. it_object t = ob) (merged object_key uss vss)"
  have "sorted_wrt (<) ?m"
    by (rule sorted_wrt_mono_rel [OF _ M(1)]) (auto dest: set_takeWhileD intro: same_object_less)
  then have m: "?m = filter (\<lambda>t. it_object t = ob) (all_triples l A R)"
    using M(2) by (intro filter_all_triplesI [OF wf(1,2)]) auto
  have "iter_collect (InternalTripleObjectIterator_next bo) it = Some (merged object_key uss vss)"
    unfolding InternalTripleObjectIterator_next_def
    using it(2,3) len by (intro si_collect otoi.stack_next_merged) (auto dest!: list_all2_lengthD)
  from iter_collect_take_while [OF this, of "\<lambda>t. it_object t = ob"] show ?thesis
    using it(1) by (simp add: InternalLayer_triples_o_def boxed_while_def m)
qed

end

section \<open>The triples of a predicate\<close>

definition occs :: "'a \<Rightarrow> 'a list \<Rightarrow> nat list" where
  "occs b xs = filter (\<lambda>j. xs ! j = b) [0..<length xs]"

lemma occs_snoc: "occs b (xs @ [x]) = occs b xs @ (if x = b then [length xs] else [])"
proof -
  have "filter (\<lambda>j. (xs @ [x]) ! j = b) [0..<length xs] = filter (\<lambda>j. xs ! j = b) [0..<length xs]"
    by (rule filter_cong) (auto simp: nth_append)
  then show ?thesis by (simp add: occs_def)
qed

lemma length_occs: "length (occs b xs) = occ b xs"
proof (induction xs rule: rev_induct)
  case (snoc x xs)
  then show ?case by (simp add: occs_snoc)
qed (simp add: occs_def)

lemma select_occs: "k < length (occs b xs) \<Longrightarrow> select_of b xs (Suc k) = Some (occs b xs ! k)"
proof (induction xs rule: rev_induct)
  case (snoc x xs)
  show ?case
  proof (cases "k < length (occs b xs)")
    case True
    then show ?thesis using snoc.IH by (simp add: occs_snoc nth_append select_append length_occs)
  next
    case False
    then have "x = b" "k = length (occs b xs)" using snoc.prems by (auto simp: occs_snoc split: if_splits)
    then show ?thesis by (simp add: occs_snoc nth_append select_append length_occs)
  qed
qed (simp add: occs_def)

lemma occs_unat: "occs (unat p) (map unat ps) = occs (p :: u64) ps"
  by (auto simp: occs_def word_unat_eq_iff intro!: filter_cong)

definition sp_of :: "IdTriple \<Rightarrow> u64 \<times> u64" where
  "sp_of t = (it_subject t, it_predicate t)"

definition block :: "MonotonicLogArray option \<Rightarrow> u64 list list \<Rightarrow> u64 list list \<Rightarrow> nat \<Rightarrow> IdTriple list" where
  "block subjects ss oss j = map (IdTriple (subject_at subjects (seg_of ss j)) (concat ss ! j)) (oss ! j)"

text \<open>Every pair of a subject and a predicate has an object.\<close>

definition full_pairs :: "u64 list list \<Rightarrow> u64 list list \<Rightarrow> bool" where
  "full_pairs ss oss \<longleftrightarrow> (\<forall>j<length oss. concat ss ! j \<noteq> 0 \<longrightarrow> 0 \<notin> set (oss ! j))"

lemma rows_block:
  assumes wf: "tidx_wf subjects sp spo ss oss" and full: "full_pairs ss oss" and j: "j < length oss"
  shows "rows_from subjects ss oss (offset_of oss j) =
    (if concat ss ! j = 0 then [] else block subjects ss oss j) @ rows_from subjects ss oss (offset_of oss (Suc j))"
proof -
  note D = tidx_wfD [OF wf]
  let ?a = "offset_of oss j" and ?n = "length (oss ! j)"
  have "offset_of oss (Suc j) = ?a + ?n" "?a + ?n \<le> length (concat oss)"
    using offset_Suc [OF j] offset_le [of oss "Suc j"] by simp_all
  then have upt: "[?a..<length (concat oss)] = [?a..<?a + ?n] @ [offset_of oss (Suc j)..<length (concat oss)]"
    by (metis le_add1 le_add_diff_inverse upt_add_eq_append)
  have "row_at subjects ss oss (?a + k) = IdTriple (subject_at subjects (seg_of ss j)) (concat ss ! j) (oss ! j ! k)"
    if "k < ?n" for k
    using seg_of_segment [OF D(9) j that] nth_segment [OF j that] by (simp add: row_at_def)
  then have blk: "map (row_at subjects ss oss) [?a..<?a + ?n] = block subjects ss oss j"
    by (intro nth_equalityI) (simp_all add: block_def)
  have "filter is_triple (block subjects ss oss j) = (if concat ss ! j = 0 then [] else block subjects ss oss j)"
    using full j by (auto simp: full_pairs_def block_def is_triple_def filter_empty_conv filter_id_conv)
  then show ?thesis by (simp add: rows_from_def upt blk del: upt_conv_Nil)
qed

lemma rows_blocks:
  assumes wf: "tidx_wf subjects sp spo ss oss" and full: "full_pairs ss oss" and j: "j \<le> length oss"
  shows "rows_from subjects ss oss (offset_of oss j) =
    concat (map (\<lambda>j. if concat ss ! j = 0 then [] else block subjects ss oss j) [j..<length oss])"
  using j
proof (induction "length oss - j" arbitrary: j)
  case 0
  then show ?case by (simp add: offset_all rows_from_end)
next
  case (Suc n)
  then have "j < length oss" by simp
  with Suc show ?case by (simp add: rows_block [OF wf full] upt_conv_Cons)
qed

lemma predicate_blocks:
  assumes wf: "tidx_wf subjects sp spo ss oss" and full: "full_pairs ss oss" and p: "p \<noteq> 0"
  shows "filter (\<lambda>t. it_predicate t = p) (idx_triples subjects ss oss) =
    concat (map (block subjects ss oss) (occs p (concat ss)))"
proof -
  have "filter (\<lambda>t. it_predicate t = p) (if concat ss ! j = 0 then [] else block subjects ss oss j) =
      (if concat ss ! j = p then block subjects ss oss j else [])" for j
    using p by (auto simp: block_def filter_empty_conv filter_id_conv)
  then have "filter (\<lambda>t. it_predicate t = p) (concat (map (\<lambda>j. if concat ss ! j = 0 then [] else block subjects ss oss j) js)) =
      concat (map (block subjects ss oss) (filter (\<lambda>j. concat ss ! j = p) js))" for js
    by (induction js) (simp_all del: filter_append add: filter_append)
  then show ?thesis using rows_blocks [OF wf full, of 0] tidx_wfD(3) [OF wf] by (simp add: occs_def offset_of_def)
qed

lemma later_pairs:
  assumes wf: "tidx_wf subjects sp spo ss oss" and j: "j < length oss"
    and t: "t \<in> set (rows_from subjects ss oss (offset_of oss (Suc j)))" and u: "u \<in> set (block subjects ss oss j)"
  shows "sp_of u \<noteq> sp_of t"
proof -
  note D = tidx_wfD [OF wf]
  from t obtain q where q: "offset_of oss (Suc j) \<le> q" "q < length (concat oss)" "t = row_at subjects ss oss q"
    by (auto simp: rows_from_def)
  have "\<not> seg_of oss q < Suc j" using seg_of_less_iff [OF D(9) q(2), of "Suc j"] q(1) by simp
  then have jq: "j < seg_of oss q" by simp
  let ?k = "seg_of oss q"
  have k: "?k < length (concat ss)" by (rule D(10) [OF q(2)])
  have "subject_at subjects (seg_of ss j) < subject_at subjects (seg_of ss ?k)" if "seg_of ss j \<noteq> seg_of ss ?k"
    using subject_at_less [OF D(7) _ D(11) [OF q(2)] D(14), of "seg_of ss j"] that seg_of_mono [of j ?k ss] jq by simp
  moreover have "concat ss ! j < concat ss ! ?k" if "seg_of ss j = seg_of ss ?k"
    using segment_sorted [OF D(8,4) jq k that] .
  ultimately have "(subject_at subjects (seg_of ss j), concat ss ! j) \<noteq>
      (subject_at subjects (seg_of ss ?k), concat ss ! ?k)"
    by (metis less_irrefl prod.inject)
  then show ?thesis using u q(3) by (auto simp: sp_of_def block_def row_at_def)
qed

definition pair_run :: "IdTriple list \<Rightarrow> IdTriple list \<Rightarrow> bool" where
  "pair_run cur rest \<longleftrightarrow> (\<forall>t\<in>set cur. \<forall>u\<in>set cur. sp_of t = sp_of u) \<and> (\<forall>t\<in>set cur. \<forall>u\<in>set rest. sp_of t \<noteq> sp_of u)"

lemma pair_run_Cons:
  assumes "pair_run (x # cur) rest"
  shows "pair_run cur rest" "t \<in> set cur \<Longrightarrow> sp_of x = sp_of t" "t \<in> set rest \<Longrightarrow> sp_of x \<noteq> sp_of t"
  using assms unfolding pair_run_def by (meson list.set_intros)+

text \<open>
  What an iterator by predicate has left: the peeked triple, the rest of the current pair and
  the pairs of the predicate that follow.
\<close>

definition tpi_core ::
  "byteorder \<Rightarrow> u64 \<Rightarrow> InternalLayerTriplePredicateIterator \<Rightarrow> u64 list list \<Rightarrow> u64 list list \<Rightarrow> IdTriple list \<Rightarrow> bool" where
  "tpi_core bo p self ss oss xs \<longleftrightarrow>
    full_pairs ss oss \<and> p \<noteq> 0 \<and> tpi_len self = length (occs p (concat ss)) \<and>
    (\<forall>k<tpi_len self. WaveletLookup_entry bo (tpi_predicate_wavelet_lookup self) k = Some (of_nat (occs p (concat ss) ! k))) \<and>
    unat (tpi_predicate_pos self) \<le> tpi_len self \<and>
    (\<exists>cur rest. tsi_is (tpi_subject_iterator self) ss oss (cur @ rest) \<and> (tpi_sp_boundary self \<longleftrightarrow> cur = []) \<and>
      pair_run cur rest \<and>
      xs = cur @ concat (map (block (tsi_subjects (tpi_subject_iterator self)) ss oss)
          (drop (unat (tpi_predicate_pos self)) (occs p (concat ss)))))"

definition tpi_holds :: "byteorder \<Rightarrow> u64 \<Rightarrow> InternalLayerTriplePredicateIterator \<Rightarrow> IdTriple list \<Rightarrow> bool" where
  "tpi_holds bo p self xs \<longleftrightarrow> (\<exists>ss oss ys. tpi_core bo p self ss oss ys \<and>
    xs = (case tpi_peeked self of None \<Rightarrow> [] | Some t \<Rightarrow> [t]) @ ys)"

lemma tpi_core_peeked [simp]: "tpi_core bo p (self\<lparr>tpi_peeked := x\<rparr>) ss oss xs = tpi_core bo p self ss oss xs"
  by (simp add: tpi_core_def)

lemma tpi_coreD:
  assumes "tpi_core bo p self ss oss xs"
  shows "full_pairs ss oss" "p \<noteq> 0" "tpi_len self = length (occs p (concat ss))"
    "\<forall>k<tpi_len self. WaveletLookup_entry bo (tpi_predicate_wavelet_lookup self) k = Some (of_nat (occs p (concat ss) ! k))"
    "unat (tpi_predicate_pos self) \<le> tpi_len self"
    "\<exists>cur rest. tsi_is (tpi_subject_iterator self) ss oss (cur @ rest) \<and> (tpi_sp_boundary self \<longleftrightarrow> cur = []) \<and>
      pair_run cur rest \<and>
      xs = cur @ concat (map (block (tsi_subjects (tpi_subject_iterator self)) ss oss)
          (drop (unat (tpi_predicate_pos self)) (occs p (concat ss))))"
  using assms unfolding tpi_core_def by simp_all

lemma tpi_coreI:
  assumes "full_pairs ss oss" "p \<noteq> 0" "tpi_len self = length (occs p (concat ss))"
    "\<forall>k<tpi_len self. WaveletLookup_entry bo (tpi_predicate_wavelet_lookup self) k = Some (of_nat (occs p (concat ss) ! k))"
    "unat (tpi_predicate_pos self) \<le> tpi_len self"
    "tsi_is (tpi_subject_iterator self) ss oss (cur @ rest)" "tpi_sp_boundary self \<longleftrightarrow> cur = []" "pair_run cur rest"
    "xs = cur @ concat (map (block (tsi_subjects (tpi_subject_iterator self)) ss oss)
          (drop (unat (tpi_predicate_pos self)) (occs p (concat ss))))"
  shows "tpi_core bo p self ss oss xs"
  using assms unfolding tpi_core_def by metis

lemma tpi_core_no_boundary: "\<not> tpi_sp_boundary self \<Longrightarrow> self\<lparr>tpi_sp_boundary := False\<rparr> = self"
  by simp

lemma same_s_p_iff: "same_s_p (Some t) (Some u) \<longleftrightarrow> sp_of t = sp_of u"
  by (simp add: same_s_p_def sp_of_def)

context big_endian
begin

lemma tpi_take:
  assumes it: "tsi_is it ss oss (x # cur @ rest)"
    and same: "\<And>t. t \<in> set cur \<Longrightarrow> sp_of x = sp_of t" and other: "\<And>t. t \<in> set rest \<Longrightarrow> sp_of x \<noteq> sp_of t"
  shows "\<exists>it1 it2. InternalLayerTripleSubjectIterator_next bo it = Some (Some x, it1) \<and>
    InternalLayerTripleSubjectIterator_peek bo it1 = Some (peek (cur @ rest), it2) \<and> tsi_is it2 ss oss (cur @ rest) \<and>
    tsi_subjects it2 = tsi_subjects it \<and>
    (peek (cur @ rest) = None \<or> \<not> same_s_p (peek (cur @ rest)) (Some x) \<longleftrightarrow> cur = [])"
proof -
  from tsi_next_is [OF it] obtain it1 where it1: "InternalLayerTripleSubjectIterator_next bo it = Some (Some x, it1)"
    "tsi_is it1 ss oss (cur @ rest)" "tsi_subjects it1 = tsi_subjects it" by (auto simp: peek_def)
  from tsi_peek_is [OF it1(2)] obtain it2 where "InternalLayerTripleSubjectIterator_peek bo it1 = Some (peek (cur @ rest), it2)"
    "tsi_is it2 ss oss (cur @ rest)" "tsi_subjects it2 = tsi_subjects it1" by blast
  moreover have "peek (cur @ rest) = None \<or> \<not> same_s_p (peek (cur @ rest)) (Some x) \<longleftrightarrow> cur = []"
  proof (cases cur)
    case Nil
    then show ?thesis using other [symmetric] by (cases rest) (auto simp: peek_def same_s_p_iff)
  next
    case (Cons y ys)
    then show ?thesis using same [of y] by (simp add: peek_def same_s_p_iff)
  qed
  ultimately show ?thesis using it1 by auto
qed

lemma tpi_next_pos:
  assumes h: "tpi_core bo p self ss oss xs" and "tpi_sp_boundary self"
  shows "(xs = [] \<longrightarrow> InternalLayerTriplePredicateIterator_next_pos bo self = Some (False, self)) \<and>
    (xs \<noteq> [] \<longrightarrow> (\<exists>self'. InternalLayerTriplePredicateIterator_next_pos bo self = Some (True, self') \<and>
      tpi_core bo p (self'\<lparr>tpi_sp_boundary := False\<rparr>) ss oss xs \<and> tpi_peeked self' = tpi_peeked self))"
proof -
  let ?os = "occs p (concat ss)" and ?k = "unat (tpi_predicate_pos self)" and ?it = "tpi_subject_iterator self"
  let ?subs = "tsi_subjects ?it"
  note C = tpi_coreD [OF h]
  have T: "full_pairs ss oss" "p \<noteq> 0" "tpi_len self = length ?os"
    "\<And>k. k < length ?os \<Longrightarrow> WaveletLookup_entry bo (tpi_predicate_wavelet_lookup self) k = Some (of_nat (?os ! k))"
    "?k \<le> length ?os" using C(1-5) by simp_all
  from C(6) obtain cur rest where cr: "tsi_is ?it ss oss (cur @ rest)" "tpi_sp_boundary self \<longleftrightarrow> cur = []" "pair_run cur rest"
    "xs = cur @ concat (map (block ?subs ss oss) (drop ?k ?os))" by (elim exE conjE)
  have src0: "tsi_is ?it ss oss rest" and xs: "xs = concat (map (block ?subs ss oss) (drop ?k ?os))"
    using cr(1,2,4) assms(2) by simp_all
  from src0 obtain q where wf: "tsi_wf ?it ss oss q" by (auto simp: tsi_is_def)
  then have ti: "tidx_wf ?subs (tsi_s_p_adjacency_list ?it) (tsi_sp_o_adjacency_list ?it) ss oss" by (simp add: tsi_wf_def)
  note D = tidx_wfD [OF ti]
  have len: "length ?os < 2 ^ 32" using length_occs [of p "concat ss"] occ_le_length [of p "concat ss"] D(13) by simp
  have unlen: "unat (of_nat (length ?os) :: u64) = length ?os" using len by (intro unat_of_nat_u64) simp
  show ?thesis
  proof (cases "?k < length ?os")
    case False
    then have "drop ?k ?os = []" using T(5) by simp
    then show ?thesis using False T(3) unlen xs
      by (simp add: InternalLayerTriplePredicateIterator_next_pos_def word_le_nat_alt)
  next
    case True
    let ?j = "?os ! ?k"
    have "?j \<in> set ?os" using True by simp
    then have j: "?j < length (concat ss)" "concat ss ! ?j = p" by (auto simp: occs_def)
    have jo: "?j < length oss" using j(1) D(3) by simp
    have unj: "unat (of_nat ?j :: u64) = ?j" using j(1) D(13) by (intro unat_of_nat_u64) simp
    from seek_s_p_pos_eq [OF wf, of "of_nat ?j"] j(1) unj obtain it where
      it: "InternalLayerTripleSubjectIterator_seek_s_p_pos bo ?it (of_nat ?j) = Some it"
        "tsi_wf it ss oss (offset_of oss ?j)" "tsi_subjects it = ?subs" "tsi_peeked it = None" by auto
    let ?cur = "block ?subs ss oss ?j" and ?rest = "rows_from ?subs ss oss (offset_of oss (Suc ?j))"
    have src: "tsi_is it ss oss (?cur @ ?rest)" unfolding tsi_is_def
      by (intro exI [of _ "offset_of oss ?j"]) (use it rows_block [OF ti T(1) jo] j(2) T(2) in simp)
    have "oss ! ?j \<noteq> []" using D(9) jo by (metis nth_mem)
    then have ne: "?cur \<noteq> []" by (simp add: block_def)
    have dr: "drop ?k ?os = ?j # drop (Suc ?k) ?os" using True by (simp add: Cons_nth_drop_Suc)
    have pos: "unat (tpi_predicate_pos self + 1) = Suc ?k"
      by (rule unat_succ [of _ "2 ^ 32"]) (use True len in \<open>simp add: word_less_nat_alt\<close>)
    let ?self = "self\<lparr>tpi_subject_iterator := it, tpi_predicate_pos := tpi_predicate_pos self + 1\<rparr>"
    have step: "InternalLayerTriplePredicateIterator_next_pos bo self = Some (True, ?self)"
      using True T(3) T(4) [OF True] unlen it(1)
      by (simp add: InternalLayerTriplePredicateIterator_next_pos_def word_le_nat_alt)
    have "sp_of t = (subject_at ?subs (seg_of ss ?j), concat ss ! ?j)" if "t \<in> set ?cur" for t
      using that by (auto simp: block_def sp_of_def)
    then have run: "pair_run ?cur ?rest" using later_pairs [OF ti jo] unfolding pair_run_def by metis
    have "tpi_core bo p (?self\<lparr>tpi_sp_boundary := False\<rparr>) ss oss xs"
    proof (rule tpi_coreI [where cur = ?cur and rest = ?rest])
      show "xs = ?cur @ concat (map (block (tsi_subjects (tpi_subject_iterator (?self\<lparr>tpi_sp_boundary := False\<rparr>))) ss oss)
          (drop (unat (tpi_predicate_pos (?self\<lparr>tpi_sp_boundary := False\<rparr>))) ?os))"
        using xs dr pos it(3) by simp
    qed (use C(4) T(1-3) True pos src ne run in simp_all)
    moreover have "xs \<noteq> []" using xs dr ne by simp
    ultimately show ?thesis using step by simp
  qed
qed

lemma tpi_run:
  assumes h: "tpi_core bo p (self\<lparr>tpi_sp_boundary := False\<rparr>) ss oss xs"
  shows "\<exists>it1 it2 nxt. xs \<noteq> [] \<and> InternalLayerTripleSubjectIterator_next bo (tpi_subject_iterator self) = Some (peek xs, it1) \<and>
    InternalLayerTripleSubjectIterator_peek bo it1 = Some (nxt, it2) \<and>
    tpi_core bo p (self\<lparr>tpi_subject_iterator := it2, tpi_sp_boundary := (nxt = None \<or> \<not> same_s_p nxt (peek xs))\<rparr>) ss oss (tl xs)"
proof -
  let ?it = "tpi_subject_iterator self"
  note C = tpi_coreD [OF h, simplified]
  from C(6) obtain cur rest where c: "tsi_is ?it ss oss (cur @ rest)" "cur \<noteq> []" "pair_run cur rest"
    and xs: "xs = cur @ concat (map (block (tsi_subjects ?it) ss oss) (drop (unat (tpi_predicate_pos self)) (occs p (concat ss))))"
    by (elim exE conjE)
  note T = C(1-5)
  obtain x cur' where x: "cur = x # cur'" using c(2) by (cases cur) auto
  note run = pair_run_Cons [OF c(3) [unfolded x]]
  have "tsi_is ?it ss oss (x # cur' @ rest)" using c(1) x by simp
  from tpi_take [OF this run(2,3)] obtain it1 it2 where t: "InternalLayerTripleSubjectIterator_next bo ?it = Some (Some x, it1)"
    "InternalLayerTripleSubjectIterator_peek bo it1 = Some (peek (cur' @ rest), it2)" "tsi_is it2 ss oss (cur' @ rest)"
    "tsi_subjects it2 = tsi_subjects ?it"
    and bd: "(peek (cur' @ rest) = None \<or> \<not> same_s_p (peek (cur' @ rest)) (Some x)) = (cur' = [])" by blast
  have px: "peek xs = Some x" using xs x by (simp add: peek_def)
  have "tpi_core bo p (self\<lparr>tpi_subject_iterator := it2, tpi_sp_boundary := (cur' = [])\<rparr>) ss oss (tl xs)"
    by (rule tpi_coreI [where cur = cur' and rest = rest]) (use T t(3,4) x xs run(1) in simp_all)
  then have "tpi_core bo p (self\<lparr>tpi_subject_iterator := it2,
      tpi_sp_boundary := (peek (cur' @ rest) = None \<or> \<not> same_s_p (peek (cur' @ rest)) (peek xs))\<rparr>) ss oss (tl xs)"
    by (simp only: px bd)
  moreover have "xs \<noteq> []" using xs x by simp
  ultimately show ?thesis using t(1,2) unfolding px by blast
qed

lemma tpi_next_core:
  assumes h: "tpi_core bo p self ss oss xs" and n: "tpi_peeked self = None"
  shows "\<exists>self'. InternalLayerTriplePredicateIterator_next bo self = Some (peek xs, self') \<and>
    tpi_core bo p self' ss oss (tl xs) \<and> tpi_peeked self' = None"
proof (cases "tpi_sp_boundary self")
  case False
  then have "tpi_core bo p (self\<lparr>tpi_sp_boundary := False\<rparr>) ss oss xs" using h by (simp add: tpi_core_no_boundary)
  from tpi_run [OF this] obtain it1 it2 nxt where
    "InternalLayerTripleSubjectIterator_next bo (tpi_subject_iterator self) = Some (peek xs, it1)"
    "InternalLayerTripleSubjectIterator_peek bo it1 = Some (nxt, it2)"
    "tpi_core bo p (self\<lparr>tpi_subject_iterator := it2, tpi_sp_boundary := (nxt = None \<or> \<not> same_s_p nxt (peek xs))\<rparr>) ss oss (tl xs)"
    by blast
  then show ?thesis using False n by (simp add: InternalLayerTriplePredicateIterator_next_def)
next
  case True
  show ?thesis
  proof (cases "xs = []")
    case xs: True
    then have "InternalLayerTriplePredicateIterator_next_pos bo self = Some (False, self)"
      using tpi_next_pos [OF h True] by simp
    then show ?thesis using xs h n True by (simp add: InternalLayerTriplePredicateIterator_next_def peek_def)
  next
    case False
    then obtain self' where s': "InternalLayerTriplePredicateIterator_next_pos bo self = Some (True, self')"
      "tpi_core bo p (self'\<lparr>tpi_sp_boundary := False\<rparr>) ss oss xs" "tpi_peeked self' = None"
      using tpi_next_pos [OF h True] n by auto
    from tpi_run [OF s'(2)] obtain it1 it2 nxt where
      "InternalLayerTripleSubjectIterator_next bo (tpi_subject_iterator self') = Some (peek xs, it1)"
      "InternalLayerTripleSubjectIterator_peek bo it1 = Some (nxt, it2)"
      "tpi_core bo p (self'\<lparr>tpi_subject_iterator := it2, tpi_sp_boundary := (nxt = None \<or> \<not> same_s_p nxt (peek xs))\<rparr>) ss oss (tl xs)"
      by blast
    then show ?thesis using True n s'(1,3) by (simp add: InternalLayerTriplePredicateIterator_next_def)
  qed
qed

lemma tpi_next_holds:
  assumes "tpi_holds bo p s xs"
  shows "\<exists>s' ss oss. InternalLayerTriplePredicateIterator_next bo s = Some (peek xs, s') \<and>
    tpi_core bo p s' ss oss (tl xs) \<and> tpi_peeked s' = None"
proof -
  from assms obtain ss oss ys where c: "tpi_core bo p s ss oss ys"
    and xs: "xs = (case tpi_peeked s of None \<Rightarrow> [] | Some t \<Rightarrow> [t]) @ ys" by (auto simp: tpi_holds_def)
  show ?thesis
  proof (cases "tpi_peeked s")
    case None
    then show ?thesis using tpi_next_core [OF c None] xs by auto
  next
    case (Some t)
    then have "tpi_core bo p (s\<lparr>tpi_peeked := None\<rparr>) ss oss (tl xs)" using c xs by simp
    then show ?thesis using Some xs
      by (intro exI [of _ "s\<lparr>tpi_peeked := None\<rparr>"]) (auto simp: InternalLayerTriplePredicateIterator_next_def peek_def)
  qed
qed

sublocale tpi: peekable "InternalLayerTriplePredicateIterator_peek bo" "InternalLayerTriplePredicateIterator_next bo"
  "tpi_holds bo p" for p
proof
  fix s xs assume "tpi_holds bo p s xs"
  from tpi_next_holds [OF this] obtain s' ss oss where n: "InternalLayerTriplePredicateIterator_next bo s = Some (peek xs, s')"
    "tpi_core bo p s' ss oss (tl xs)" "tpi_peeked s' = None" by blast
  then have "tpi_holds bo p s' (tl xs)" by (auto simp: tpi_holds_def)
  then show "\<exists>s'. InternalLayerTriplePredicateIterator_next bo s = Some (peek xs, s') \<and> tpi_holds bo p s' (tl xs)"
    using n(1) by blast
  have "tpi_holds bo p (s'\<lparr>tpi_peeked := peek xs\<rparr>) xs" unfolding tpi_holds_def
    by (intro exI [of _ ss] exI [of _ oss] exI [of _ "tl xs"]) (use n peek_tl [of xs] in simp)
  then show "\<exists>s'. InternalLayerTriplePredicateIterator_peek bo s = Some (peek xs, s') \<and> tpi_holds bo p s' xs"
    using n(1) by (simp add: InternalLayerTriplePredicateIterator_peek_def)
qed

sublocale otpi: peekable "OptInternalLayerTriplePredicateIterator_peek bo" "OptInternalLayerTriplePredicateIterator_next bo"
  "opt_holds (tpi_holds bo p)" for p
  unfolding OptInternalLayerTriplePredicateIterator_peek_def OptInternalLayerTriplePredicateIterator_next_def
  by (rule tpi.opt_peekable)

end

text \<open>The index of a layer together with the wavelet tree over its predicates.\<close>

definition pidx_of ::
  "MonotonicLogArray option \<Rightarrow> AdjacencyList \<Rightarrow> AdjacencyList \<Rightarrow> WaveletTree \<Rightarrow> IdTriple list \<Rightarrow> bool" where
  "pidx_of subjects sp spo tree ts \<longleftrightarrow> (\<exists>ss oss. tidx_wf subjects sp spo ss oss \<and> full_pairs ss oss \<and>
    wt_wf tree (map unat (concat ss)) \<and> ts = idx_triples subjects ss oss)"

definition layer_predicates :: "InternalLayer \<Rightarrow> IdTriple list \<Rightarrow> IdTriple list \<Rightarrow> bool" where
  "layer_predicates l A R \<longleftrightarrow>
    pidx_of (InternalLayer_pos_subjects l) (InternalLayer_pos_s_p_adjacency_list l)
      (InternalLayer_pos_sp_o_adjacency_list l) (InternalLayer_pos_predicate_wavelet_tree l) A \<and>
    (case (InternalLayer_neg_s_p_adjacency_list l, InternalLayer_neg_sp_o_adjacency_list l,
        InternalLayer_neg_predicate_wavelet_tree l) of
       (Some sp, Some spo, Some tree) \<Rightarrow> pidx_of (InternalLayer_neg_subjects l) sp spo tree R
     | (None, None, None) \<Rightarrow> R = []
     | _ \<Rightarrow> False)"

definition predicates_wf ::
  "InternalLayer \<Rightarrow> (InternalLayer \<Rightarrow> IdTriple list) \<Rightarrow> (InternalLayer \<Rightarrow> IdTriple list) \<Rightarrow> bool" where
  "predicates_wf l A R \<longleftrightarrow> (\<forall>x\<in>set (layers_from l). layer_predicates x (A x) (R x))"

lemma predicates_stack_wf: "predicates_wf l A R \<Longrightarrow> stack_wf l A R"
  by (fastforce simp: predicates_wf_def layer_predicates_def pidx_of_def stack_wf_def layer_changes_def idx_of_def
      split: option.splits)

lemma removals_None:
  assumes "layer_predicates l A R" "InternalLayer_neg_sp_o_adjacency_list l = None"
  shows "R = []" "InternalLayer_neg_s_p_adjacency_list l = None" "InternalLayer_neg_predicate_wavelet_tree l = None"
  using assms by (auto simp: layer_predicates_def split: option.splits)

lemma removals_Some:
  assumes "layer_predicates l A R" "InternalLayer_neg_sp_o_adjacency_list l = Some spo"
  obtains sp tree where "InternalLayer_neg_s_p_adjacency_list l = Some sp"
    "InternalLayer_neg_predicate_wavelet_tree l = Some tree" "pidx_of (InternalLayer_neg_subjects l) sp spo tree R"
  using assms by (auto simp: layer_predicates_def split: option.splits)

context big_endian
begin

lemma predicate_lookup:
  assumes "pidx_of subjects sp spo tree ts" and p: "p \<noteq> 0"
  shows "\<exists>it. Option.bind (WaveletTree_lookup bo tree p)
      (omap (\<lambda>lookup. InternalLayerTriplePredicateIterator_new bo lookup subjects sp spo)) = Some it \<and>
    opt_holds (tpi_holds bo p) it (filter (\<lambda>t. it_predicate t = p) ts)"
proof -
  from assms(1) obtain ss oss where wf: "tidx_wf subjects sp spo ss oss" "full_pairs ss oss"
    "wt_wf tree (map unat (concat ss))" and ts: "ts = idx_triples subjects ss oss" by (auto simp: pidx_of_def)
  let ?os = "occs p (concat ss)"
  note L = WaveletTree_lookup_eq [OF wf(3), of p]
  note B = predicate_blocks [OF wf(1,2) p]
  have occ: "occ (unat p) (map unat (concat ss)) = length ?os" using length_occs occs_unat by metis
  show ?thesis
  proof (cases "unat p \<in> set (map unat (concat ss))")
    case False
    then have "p \<notin> set (concat ss)" by (metis image_eqI list.set_map)
    then have "?os = []" using nth_mem by (auto simp: occs_def filter_empty_conv simp del: set_concat)
    then show ?thesis using False L B by (simp add: omap_def opt_holds_def ts)
  next
    case True
    let ?w = "unat (wt_num_layers tree)"
    have v: "unat p < 2 ^ ?w" using True wt_wfD(4) [OF wf(3)] by blast
    have ne: "map unat (concat ss) \<noteq> []" using True by (metis empty_iff list.set(1))
    define lk where "lk = \<lparr>wl_entry = p, wl_tree = tree,
      wl_slices = map (slice_at ?w (map unat (concat ss)) (unat p)) [0..<?w]\<rparr>"
    have len: "WaveletLookup_len bo lk = Some (length ?os)"
      using WaveletLookup_len_eq [OF wf(3) v ne] occ by (simp add: lk_def)
    have ent: "WaveletLookup_entry bo lk k = Some (of_nat (?os ! k))" if "k < length ?os" for k
      using WaveletLookup_entry_eq [OF wf(3) v ne lk_def, of k] select_occs [of k "unat p" "map unat (concat ss)"] that
      by (simp only: occs_unat) simp
    let ?it = "\<lparr>tpi_len = length ?os, tpi_predicate_wavelet_lookup = lk,
      tpi_subject_iterator = InternalLayerTripleSubjectIterator_new subjects sp spo,
      tpi_predicate_pos = 0, tpi_sp_boundary = True, tpi_peeked = None\<rparr>"
    have sub: "tsi_subjects (InternalLayerTripleSubjectIterator_new subjects sp spo) = subjects"
      "tsi_peeked (InternalLayerTripleSubjectIterator_new subjects sp spo) = None"
      by (simp_all add: InternalLayerTripleSubjectIterator_new_def)
    have it: "tsi_is (InternalLayerTripleSubjectIterator_new subjects sp spo) ss oss (idx_triples subjects ss oss)"
      unfolding tsi_is_def using tsi_new_wf [OF wf(1)] sub by (intro exI [of _ 0]) simp
    have "tpi_core bo p ?it ss oss (filter (\<lambda>t. it_predicate t = p) ts)"
      by (rule tpi_coreI [where cur = "[]" and rest = "idx_triples subjects ss oss"])
        (use wf(2) p ent sub B ts it in \<open>simp_all add: pair_run_def\<close>)
    then have "tpi_holds bo p ?it (filter (\<lambda>t. it_predicate t = p) ts)" by (auto simp: tpi_holds_def)
    then show ?thesis using True L len
      by (simp add: lk_def [symmetric] omap_def opt_holds_def InternalLayerTriplePredicateIterator_new_def)
  qed
qed

lemma predicate_sources:
  assumes wf: "layer_predicates x A R" and p: "p \<noteq> 0"
  shows "\<exists>it. InternalLayer_internal_triple_additions_p bo x p = Some it \<and>
      opt_holds (tpi_holds bo p) it (filter (\<lambda>t. it_predicate t = p) A)"
    "\<exists>it. InternalLayer_internal_triple_removals_p bo x p = Some it \<and>
      opt_holds (tpi_holds bo p) it (filter (\<lambda>t. it_predicate t = p) R)"
proof -
  show "\<exists>it. InternalLayer_internal_triple_additions_p bo x p = Some it \<and>
      opt_holds (tpi_holds bo p) it (filter (\<lambda>t. it_predicate t = p) A)"
    using wf predicate_lookup [OF _ p] by (simp add: layer_predicates_def InternalLayer_internal_triple_additions_p_def)
  show "\<exists>it. InternalLayer_internal_triple_removals_p bo x p = Some it \<and>
      opt_holds (tpi_holds bo p) it (filter (\<lambda>t. it_predicate t = p) R)"
  proof (cases "InternalLayer_neg_sp_o_adjacency_list x")
    case None
    then show ?thesis using removals_None [OF wf None]
      by (simp add: InternalLayer_internal_triple_removals_p_def opt_holds_def)
  next
    case (Some spo)
    from removals_Some [OF wf Some] obtain sp tree where n: "InternalLayer_neg_s_p_adjacency_list x = Some sp"
      "InternalLayer_neg_predicate_wavelet_tree x = Some tree" "pidx_of (InternalLayer_neg_subjects x) sp spo tree R" .
    from predicate_lookup [OF n(3) p] n(1,2) Some show ?thesis
      by (auto simp: InternalLayer_internal_triple_removals_p_def omap_def split: bind_splits option.splits)
  qed
qed

lemma triples_p_eq:
  assumes wf: "predicates_wf l A R" "history_ok l A R" and p: "p \<noteq> 0"
  shows "InternalLayer_triples_p bo l p = Some (filter (\<lambda>t. it_predicate t = p) (all_triples l A R))"
proof -
  let ?Q = "\<lambda>t. it_predicate t = p" and ?ls = "layers_from l"
  note S = predicates_stack_wf [OF wf(1)]
  let ?ps = "map (\<lambda>x. filter ?Q (A x)) ?ls" and ?ns = "map (\<lambda>x. filter ?Q (R x)) ?ls"
  have src: "\<exists>its. those (map f ?ls) = Some its \<and> list_all2 (opt_holds (tpi_holds bo p)) its (map g ?ls)"
    if "\<And>x. x \<in> set ?ls \<Longrightarrow> \<exists>it. f x = Some it \<and> opt_holds (tpi_holds bo p) it (g x)" for f g
  proof -
    from that obtain h where "\<forall>x\<in>set ?ls. f x = Some (h x) \<and> opt_holds (tpi_holds bo p) (h x) (g x)" by metis
    then show ?thesis by (intro exI [of _ "map h ?ls"] conjI those_map_Some list_all2_mapI) auto
  qed
  have lp: "layer_predicates x (A x) (R x)" if "x \<in> set ?ls" for x using wf(1) that by (simp add: predicates_wf_def)
  have "\<exists>its. those (map (\<lambda>x. InternalLayer_internal_triple_additions_p bo x p) ?ls) = Some its \<and>
      list_all2 (opt_holds (tpi_holds bo p)) its ?ps" by (rule src) (rule predicate_sources(1) [OF lp p])
  then obtain its where
    its: "those (map (\<lambda>x. InternalLayer_internal_triple_additions_p bo x p) ?ls) = Some its"
      "list_all2 (opt_holds (tpi_holds bo p)) its ?ps" by blast
  have "\<exists>its. those (map (\<lambda>x. InternalLayer_internal_triple_removals_p bo x p) ?ls) = Some its \<and>
      list_all2 (opt_holds (tpi_holds bo p)) its ?ns" by (rule src) (rule predicate_sources(2) [OF lp p])
  then obtain nts where
    nts: "those (map (\<lambda>x. InternalLayer_internal_triple_removals_p bo x p) ?ls) = Some nts"
      "list_all2 (opt_holds (tpi_holds bo p)) nts ?ns" by blast
  have key: "key_sorted (\<lambda>t. t) ?ps" "key_sorted (\<lambda>t. t) ?ns"
    using stack_key_sorted [of ?ls A R] S by (auto simp: key_sorted_def stack_wf_def intro: sorted_wrt_filter)
  have cut: "list_all2 (\<lambda>us ts. t \<in> set us \<longleftrightarrow> t \<in> set ts \<and> ?Q t) ?ps (map A ?ls)"
    "list_all2 (\<lambda>us ts. t \<in> set us \<longleftrightarrow> t \<in> set ts \<and> ?Q t) ?ns (map R ?ls)" for t
    by (auto intro!: list_all2_mapI)
  have ev: "alternating False (events t ?ps ?ns)" "added False (events t ?ps ?ns) \<longleftrightarrow> ?Q t \<and> holds_triple l A R t" for t
    using wf(2) unfolding cut_events [OF cut]
    by (simp_all add: history_ok_def stack_events_def holds_triple_def alternating_none)
  have "sorted_wrt (<) (merged (\<lambda>t. t) ?ps ?ns)" "set (merged (\<lambda>t. t) ?ps ?ns) = {t. ?Q t \<and> holds_triple l A R t}"
    using merged_all [OF _ key] ev by simp_all
  then have m: "merged (\<lambda>t. t) ?ps ?ns = filter ?Q (all_triples l A R)" by (rule filter_all_triplesI [OF S wf(2)])
  have "iter_collect (stack_next (OptInternalLayerTriplePredicateIterator_peek bo)
      (OptInternalLayerTriplePredicateIterator_next bo) (\<lambda>t. t)) (its, nts) = Some (merged (\<lambda>t. t) ?ps ?ns)"
    by (rule otpi.stack_next_merged) (use its(2) nts(2) in \<open>auto dest!: list_all2_lengthD\<close>)
  then have "iter_collect (InternalTriplePredicateIterator_next bo)
      \<lparr>si_positives = its, si_negatives = nts, pi_predicate = p\<rparr> = Some (merged (\<lambda>t. t) ?ps ?ns)"
    by (intro iter_collect_lift [where g = "\<lambda>it. (si_positives it, si_negatives it)"])
      (auto simp: InternalTriplePredicateIterator_next_def)
  then show ?thesis
    using its(1) nts(1) m by (simp add: InternalLayer_triples_p_def InternalTriplePredicateIterator_from_layer_def)
qed

end

section \<open>How many triples\<close>

lemma sum_length_holes:
  assumes "length ns = length xss" "\<And>j. j < length xss \<Longrightarrow> ns ! j = (0 :: nat) \<Longrightarrow> length (xss ! j) = 1"
  shows "length (concat xss) =
    (\<Sum>j\<leftarrow>[0..<length xss]. if ns ! j = 0 then 0 else length (xss ! j)) + occ 0 ns"
  using assms
proof (induction ns xss rule: list_induct2)
  case (Cons n ns xs xss)
  have "length (concat xss) = (\<Sum>j\<leftarrow>[0..<length xss]. if ns ! j = 0 then 0 else length (xss ! j)) + occ 0 ns"
    by (rule Cons.IH) (use Cons.prems [of "Suc j" for j] in simp)
  moreover have "[0..<length (xs # xss)] = 0 # map Suc [0..<length xss]"
    by (metis length_Cons map_Suc_upt upt_conv_Cons zero_less_Suc)
  ultimately show ?case using Cons.prems [of 0] by (simp add: occ_def o_def del: upt_Suc cong: if_cong)
qed (simp add: occ_def)

lemma length_idx_triples:
  assumes wf: "tidx_wf subjects sp spo ss oss" and full: "full_pairs ss oss"
  shows "length (concat oss) = length (idx_triples subjects ss oss) + occ 0 (map unat (concat ss))"
proof -
  note D = tidx_wfD [OF wf]
  have "idx_triples subjects ss oss =
      concat (map (\<lambda>j. if concat ss ! j = 0 then [] else block subjects ss oss j) [0..<length oss])"
    using rows_blocks [OF wf full, of 0] by (simp add: offset_of_def)
  then have "length (idx_triples subjects ss oss) =
      (\<Sum>j\<leftarrow>[0..<length oss]. length (if concat ss ! j = 0 then [] else block subjects ss oss j))"
    by (simp add: length_concat o_def)
  also have "\<dots> = (\<Sum>j\<leftarrow>[0..<length oss]. if map unat (concat ss) ! j = 0 then 0 else length (oss ! j))"
    by (intro arg_cong [where f = sum_list] map_cong) (use D(3) in \<open>auto simp: block_def unat_eq_zero\<close>)
  finally show ?thesis
    using sum_length_holes [of "map unat (concat ss)" oss] D(3,6) by (simp add: unat_eq_zero)
qed

context big_endian
begin

lemma layer_count:
  assumes "pidx_of subjects sp spo tree ts"
  shows "\<exists>holes. holes_count bo tree = Some holes \<and> usub (AdjacencyList_right_count spo) holes = Some (length ts)"
proof -
  from assms obtain ss oss where wf: "tidx_wf subjects sp spo ss oss" "full_pairs ss oss"
    "wt_wf tree (map unat (concat ss))" and ts: "ts = idx_triples subjects ss oss" by (auto simp: pidx_of_def)
  note D = tidx_wfD [OF wf(1)]
  let ?ns = "map unat (concat ss)"
  have "holes_count bo tree = Some (occ 0 ?ns)"
  proof (cases "0 \<in> set ?ns")
    case True
    have "0 < (2 :: nat) ^ unat (wt_num_layers tree)" by simp
    moreover have "?ns \<noteq> []" using True by (metis empty_iff list.set(1))
    ultimately show ?thesis using WaveletLookup_len_eq [OF wf(3)] WaveletTree_lookup_eq [OF wf(3), of 0] True
      by (simp add: holes_count_def)
  next
    case False
    then have "occ 0 ?ns = 0" unfolding occ_def by (metis (mono_tags, lifting) filter_False length_0_conv)
    then show ?thesis using False WaveletTree_lookup_eq [OF wf(3), of 0] by (simp add: holes_count_def)
  qed
  moreover have "AdjacencyList_right_count spo = length (concat oss)"
    using al_wfD [OF D(2)] by (simp add: AdjacencyList_right_count_def)
  ultimately show ?thesis using length_idx_triples [OF wf(1,2)] ts by (simp add: usub_def)
qed

lemma layer_counts:
  assumes wf: "layer_predicates x A R"
  shows "InternalLayer_internal_triple_layer_addition_count bo x = Some (length A)"
    "InternalLayer_internal_triple_layer_removal_count bo x = Some (length R)"
proof -
  show "InternalLayer_internal_triple_layer_addition_count bo x = Some (length A)"
    using wf layer_count by (fastforce simp: layer_predicates_def InternalLayer_internal_triple_layer_addition_count_def)
  show "InternalLayer_internal_triple_layer_removal_count bo x = Some (length R)"
  proof (cases "InternalLayer_neg_sp_o_adjacency_list x")
    case None
    then show ?thesis using removals_None(1) [OF wf None]
      by (simp add: InternalLayer_internal_triple_layer_removal_count_def)
  next
    case (Some spo)
    from removals_Some [OF wf Some] obtain sp tree where
      "InternalLayer_neg_predicate_wavelet_tree x = Some tree" "pidx_of (InternalLayer_neg_subjects x) sp spo tree R" .
    then show ?thesis using layer_count Some
      by (fastforce simp: InternalLayer_internal_triple_layer_removal_count_def)
  qed
qed

lemma sum_layers_eq:
  "(\<And>x. x \<in> set (layers_from l) \<Longrightarrow> f x = Some (g x)) \<Longrightarrow> sum_layers f l = Some (\<Sum>x\<leftarrow>layers_from l. g x)"
  by (simp add: sum_layers_def those_map_Some)

lemma addition_count_eq:
  "predicates_wf l A R \<Longrightarrow> InternalLayer_triple_addition_count bo l = Some (\<Sum>x\<leftarrow>layers_from l. length (A x))"
  "predicates_wf l A R \<Longrightarrow> InternalLayer_triple_removal_count bo l = Some (\<Sum>x\<leftarrow>layers_from l. length (R x))"
  unfolding InternalLayer_triple_addition_count_def InternalLayer_triple_removal_count_def predicates_wf_def
  by (rule sum_layers_eq, rule layer_counts, erule (1) bspec)+

lemma triple_count_eq:
  assumes wf: "predicates_wf l A R" "history_ok l A R"
  shows "Layer_triple_count bo l = Some (length (all_triples l A R))"
proof -
  let ?ls = "layers_from l"
  note S = predicates_stack_wf [OF wf(1)]
  have key: "key_sorted (\<lambda>t. t) (map A ?ls)" "key_sorted (\<lambda>t. t) (map R ?ls)"
    using stack_key_sorted [of ?ls A R] S by (simp_all add: stack_wf_def)
  note T = all_triples [OF S wf(2)]
  have "distinct (all_triples l A R)" using T(1) strict_sorted_iff by blast
  then have one: "count (mset (all_triples l A R)) t = of_bool (holds_triple l A R t)" for t
    using T(2) by (simp add: distinct_count_atmost_1 del: count_mset)
  have "count (mset (concat (map A ?ls))) t = count (mset (concat (map R ?ls)) + mset (all_triples l A R)) t" for t
    using alternating_count [of False "stack_events A R ?ls t"] wf(2) count_concat_sorted [OF key(1), of t]
      count_concat_sorted [OF key(2), of t] events_filter [of "map A ?ls" "map R ?ls" t] one [of t]
    by (simp add: history_ok_def stack_events_def holds_triple_def del: count_mset map_map)
  then have "mset (concat (map A ?ls)) = mset (concat (map R ?ls)) + mset (all_triples l A R)"
    by (rule multiset_eqI)
  then have "length (concat (map A ?ls)) = length (concat (map R ?ls)) + length (all_triples l A R)"
    by (metis size_mset size_union)
  then show ?thesis using addition_count_eq [OF wf(1)] by (simp add: Layer_triple_count_def usub_def length_concat o_def)
qed

end

end
