(* ===== verification/TripleBuilder.thy ===== *)
theory TripleBuilder
  imports IndexQueries
begin

text \<open>
  The builders of \<open>src/layer/builder.rs\<close>: the dictionaries of a layer, the two adjacency
  lists of its triples with the optional list of subjects, and the indexes by object and by
  predicate that are derived from their files.

  The writers start empty and a file is its content. What the code calls outside the
  repository is collected in the record \<open>env\<close>: the byte order of the \<open>byteorder\<close> crate, the
  framed streams of \<open>tokio_util\<close>, the chunks of a bit stream, the precision of \<open>f32::log2\<close>
  and the parallel sort of \<open>rayon\<close>. The last field tells a debug build from a release build.
\<close>

section \<open>Model\<close>

record env =
  env_order :: byteorder
  env_blocks :: framed_blocks
  env_entries :: framed_entries
  env_chunks :: block_chunks
  env_log2 :: "nat \<Rightarrow> rat"
  env_sort :: "(u64 \<times> u64) list \<Rightarrow> (u64 \<times> u64) list"
  env_debug :: bool

type_synonym 'a io_result = "(io_error + 'a) panics"

text \<open>The operator \<open>?\<close>: an error returns at once.\<close>

definition try_bind :: "'a io_result \<Rightarrow> ('a \<Rightarrow> 'b io_result) \<Rightarrow> 'b io_result" where
  "try_bind r f = Option.bind r (\<lambda>x. case x of Inl e \<Rightarrow> Some (Inl e) | Inr y \<Rightarrow> f y)"

text \<open>
  A task that was spawned and awaited: a panic of the task comes back as the error that
  \<open>JoinError\<close> is converted to.
\<close>

definition spawned :: "'a io_result \<Rightarrow> 'a io_result" where
  "spawned r = (case r of None \<Rightarrow> Some (Inl Other) | Some x \<Rightarrow> Some x)"

subsection \<open>Dictionaries\<close>

type_synonym dict_files = "bytes \<times> bytes"

record DictionarySetFileBuilder =
  ds_node_dictionary_builder :: PfcDictFileBuilder
  ds_predicate_dictionary_builder :: PfcDictFileBuilder
  ds_value_dictionary_builder :: PfcDictFileBuilder

definition DictionarySetFileBuilder_from_files :: DictionarySetFileBuilder where
  "DictionarySetFileBuilder_from_files =
    \<lparr>ds_node_dictionary_builder = PfcDictFileBuilder_new [] [],
     ds_predicate_dictionary_builder = PfcDictFileBuilder_new [] [],
     ds_value_dictionary_builder = PfcDictFileBuilder_new [] []\<rparr>"

definition DictionarySetFileBuilder_add_node ::
  "DictionarySetFileBuilder \<Rightarrow> bytes \<Rightarrow> (u64 \<times> DictionarySetFileBuilder) panics" where
  "DictionarySetFileBuilder_add_node self nd =
    do { (i, b) \<leftarrow> PfcDictFileBuilder_add (ds_node_dictionary_builder self) nd;
         Some (i, self\<lparr>ds_node_dictionary_builder := b\<rparr>) }"

definition DictionarySetFileBuilder_add_predicate ::
  "DictionarySetFileBuilder \<Rightarrow> bytes \<Rightarrow> (u64 \<times> DictionarySetFileBuilder) panics" where
  "DictionarySetFileBuilder_add_predicate self predicate =
    do { (i, b) \<leftarrow> PfcDictFileBuilder_add (ds_predicate_dictionary_builder self) predicate;
         Some (i, self\<lparr>ds_predicate_dictionary_builder := b\<rparr>) }"

definition DictionarySetFileBuilder_add_value ::
  "DictionarySetFileBuilder \<Rightarrow> bytes \<Rightarrow> (u64 \<times> DictionarySetFileBuilder) panics" where
  "DictionarySetFileBuilder_add_value self v =
    do { (i, b) \<leftarrow> PfcDictFileBuilder_add (ds_value_dictionary_builder self) v;
         Some (i, self\<lparr>ds_value_dictionary_builder := b\<rparr>) }"

text \<open>The loops of \<open>add_nodes\<close>, \<open>add_predicates\<close> and \<open>add_values\<close>.\<close>

fun add_strings :: "('s \<Rightarrow> bytes \<Rightarrow> (u64 \<times> 's) panics) \<Rightarrow> 's \<Rightarrow> bytes list \<Rightarrow> (u64 list \<times> 's) panics" where
  "add_strings add self [] = Some ([], self)"
| "add_strings add self (s # ss) =
    do { (i, self) \<leftarrow> add self s;
         (ids, self) \<leftarrow> add_strings add self ss;
         Some (i # ids, self) }"

definition DictionarySetFileBuilder_add_nodes ::
  "DictionarySetFileBuilder \<Rightarrow> bytes list \<Rightarrow> (u64 list \<times> DictionarySetFileBuilder) panics" where
  "DictionarySetFileBuilder_add_nodes = add_strings DictionarySetFileBuilder_add_node"

definition DictionarySetFileBuilder_add_predicates ::
  "DictionarySetFileBuilder \<Rightarrow> bytes list \<Rightarrow> (u64 list \<times> DictionarySetFileBuilder) panics" where
  "DictionarySetFileBuilder_add_predicates = add_strings DictionarySetFileBuilder_add_predicate"

definition DictionarySetFileBuilder_add_values ::
  "DictionarySetFileBuilder \<Rightarrow> bytes list \<Rightarrow> (u64 list \<times> DictionarySetFileBuilder) panics" where
  "DictionarySetFileBuilder_add_values = add_strings DictionarySetFileBuilder_add_value"

definition DictionarySetFileBuilder_finalize ::
  "env \<Rightarrow> DictionarySetFileBuilder \<Rightarrow> (dict_files \<times> dict_files \<times> dict_files) io_result" where
  "DictionarySetFileBuilder_finalize e self =
    try_bind (PfcDictFileBuilder_finalize (env_order e) (ds_node_dictionary_builder self)) (\<lambda>node_files.
    try_bind (PfcDictFileBuilder_finalize (env_order e) (ds_predicate_dictionary_builder self)) (\<lambda>predicate_files.
    try_bind (PfcDictFileBuilder_finalize (env_order e) (ds_value_dictionary_builder self)) (\<lambda>value_files.
    Some (Inr (node_files, predicate_files, value_files)))))"

subsection \<open>Triples\<close>

text \<open>The files of an adjacency list: the numbers, the bits and the two files of the bit index.\<close>

type_synonym al_files = "bytes \<times> bytes \<times> bytes \<times> bytes"

record TripleFileBuilder =
  tfb_subjects :: "u64 list option"
  tfb_s_p_adjacency_list_builder :: AdjacencyListBuilder
  tfb_sp_o_adjacency_list_builder :: AdjacencyListBuilder
  tfb_last_subject :: u64
  tfb_last_predicate :: u64

text \<open>The flag tells whether there is a file for the subjects.\<close>

definition TripleFileBuilder_new :: "env \<Rightarrow> usize \<Rightarrow> usize \<Rightarrow> usize \<Rightarrow> bool \<Rightarrow> TripleFileBuilder" where
  "TripleFileBuilder_new e num_nodes num_predicates num_values subjects_file =
    \<lparr>tfb_subjects = (if subjects_file then Some [] else None),
     tfb_s_p_adjacency_list_builder =
       AdjacencyListBuilder_new [] [] (calculate_width (env_log2 e) (of_nat num_predicates)),
     tfb_sp_o_adjacency_list_builder =
       AdjacencyListBuilder_new [] [] (calculate_width (env_log2 e) (of_nat (num_nodes + num_values))),
     tfb_last_subject = 0, tfb_last_predicate = 0\<rparr>"

definition TripleFileBuilder_add_triple ::
  "TripleFileBuilder \<Rightarrow> u64 \<Rightarrow> u64 \<Rightarrow> u64 \<Rightarrow> TripleFileBuilder io_result" where
  "TripleFileBuilder_add_triple self subject predicate object =
    (if subject = 0 \<or> predicate = 0 \<or> object = 0 then Some (Inr self)
     else if subject < tfb_last_subject self then None
     else try_bind
       (if tfb_last_subject self = subject \<and> tfb_last_predicate self = predicate
        then (let count = AdjacencyListBuilder_count (tfb_s_p_adjacency_list_builder self) + 1
              in try_bind (AdjacencyListBuilder_push (tfb_sp_o_adjacency_list_builder self) count object) (\<lambda>b.
                 Some (Inr (self\<lparr>tfb_sp_o_adjacency_list_builder := b\<rparr>))))
        else (let subjects = (case tfb_subjects self of None \<Rightarrow> None
                 | Some s \<Rightarrow> Some (if subject \<noteq> tfb_last_subject self then s @ [subject] else s));
                  mapped_subject = (case subjects of None \<Rightarrow> subject | Some s \<Rightarrow> of_nat (length s))
              in try_bind (AdjacencyListBuilder_push (tfb_s_p_adjacency_list_builder self) mapped_subject predicate) (\<lambda>a.
                 let count = AdjacencyListBuilder_count a + 1
                 in try_bind (AdjacencyListBuilder_push (tfb_sp_o_adjacency_list_builder self) count object) (\<lambda>b.
                    Some (Inr (self\<lparr>tfb_subjects := subjects, tfb_s_p_adjacency_list_builder := a,
                                    tfb_sp_o_adjacency_list_builder := b\<rparr>))))))
       (\<lambda>self. Some (Inr (self\<lparr>tfb_last_subject := subject, tfb_last_predicate := predicate\<rparr>))))"

fun TripleFileBuilder_add_id_triples :: "TripleFileBuilder \<Rightarrow> IdTriple list \<Rightarrow> TripleFileBuilder io_result" where
  "TripleFileBuilder_add_id_triples self [] = Some (Inr self)"
| "TripleFileBuilder_add_id_triples self (t # ts) =
    try_bind (TripleFileBuilder_add_triple self (it_subject t) (it_predicate t) (it_object t)) (\<lambda>self.
    TripleFileBuilder_add_id_triples self ts)"

definition write_logarray :: "env \<Rightarrow> u8 \<Rightarrow> u64 list \<Rightarrow> bytes io_result" where
  "write_logarray e width vals =
    (case LogArrayFileBuilder_push_vec (LogArrayFileBuilder_new [] width) vals of
       Inl err \<Rightarrow> Some (Inl err)
     | Inr b \<Rightarrow> map_option Inr (LogArrayFileBuilder_finalize (env_order e) b))"

definition TripleFileBuilder_finalize ::
  "env \<Rightarrow> TripleFileBuilder \<Rightarrow> (al_files \<times> al_files \<times> bytes option) io_result" where
  "TripleFileBuilder_finalize e self =
    try_bind (AdjacencyListBuilder_finalize (env_order e) (env_blocks e) (env_chunks e)
      (tfb_s_p_adjacency_list_builder self)) (\<lambda>s_p.
    try_bind (AdjacencyListBuilder_finalize (env_order e) (env_blocks e) (env_chunks e)
      (tfb_sp_o_adjacency_list_builder self)) (\<lambda>sp_o.
    case tfb_subjects self of
      None \<Rightarrow> Some (Inr (s_p, sp_o, None))
    | Some subjects \<Rightarrow>
        let max_subject = (if subjects = [] then 0 else subjects ! (length subjects - 1));
            subjects_width = calculate_width (env_log2 e) max_subject
        in try_bind (write_logarray e subjects_width subjects) (\<lambda>f. Some (Inr (s_p, sp_o, Some f)))))"

subsection \<open>Indexes\<close>

text \<open>Gathering the pairs of the stream: the first error ends the loop.\<close>

fun gather_pairs ::
  "u64 \<Rightarrow> (u64 \<times> u64) list \<Rightarrow> (io_error + u64 \<times> u64) list \<Rightarrow> io_error + u64 \<times> (u64 \<times> u64) list" where
  "gather_pairs greatest_sp pairs [] = Inr (greatest_sp, pairs)"
| "gather_pairs greatest_sp pairs (Inl err # aj_stream) = Inl err"
| "gather_pairs greatest_sp pairs (Inr (sp, object) # aj_stream) =
    gather_pairs sp (pairs @ [(object, sp)]) aj_stream"

fun push_sparse ::
  "AdjacencyListBuilder \<Rightarrow> u64 list \<Rightarrow> u64 \<Rightarrow> u64 \<Rightarrow> (u64 \<times> u64) list \<Rightarrow>
    (AdjacencyListBuilder \<times> u64 list \<times> u64) io_result" where
  "push_sparse b objects last_object object_ix [] = Some (Inr (b, objects, last_object))"
| "push_sparse b objects last_object object_ix ((object, sp) # pairs) =
    (let (objects, last_object, object_ix) =
       (if object > last_object then (objects @ [object], object, object_ix + 1)
        else (objects, last_object, object_ix))
     in try_bind (AdjacencyListBuilder_push b object_ix sp) (\<lambda>b.
        push_sparse b objects last_object object_ix pairs))"

definition build_object_index :: "env \<Rightarrow> al_files \<Rightarrow> bool \<Rightarrow> (al_files \<times> bytes option) io_result" where
  "build_object_index e sp_o_files objects_file =
    (case sp_o_files of (nums_file, bits_file, _, _) \<Rightarrow>
     try_bind (adjacency_list_stream_pairs (env_order e) (env_blocks e) (env_entries e) bits_file nums_file) (\<lambda>aj_stream.
     try_bind (Some (gather_pairs 0 [] aj_stream)) (\<lambda>(greatest_sp, pairs).
     let pairs = env_sort e pairs;
         builder = AdjacencyListBuilder_new [] [] (calculate_width (env_log2 e) greatest_sp)
     in if objects_file
        then try_bind (push_sparse builder [] 0 0 pairs) (\<lambda>(builder, objects, last_object).
             try_bind (write_logarray e (calculate_width (env_log2 e) last_object) objects) (\<lambda>f.
             try_bind (AdjacencyListBuilder_finalize (env_order e) (env_blocks e) (env_chunks e) builder) (\<lambda>o_ps.
             Some (Inr (o_ps, Some f)))))
        else try_bind (AdjacencyListBuilder_push_all builder (map Inr pairs)) (\<lambda>builder.
             try_bind (AdjacencyListBuilder_finalize (env_order e) (env_blocks e) (env_chunks e) builder) (\<lambda>o_ps.
             Some (Inr (o_ps, None)))))))"

definition build_predicate_index :: "env \<Rightarrow> bytes \<Rightarrow> (bytes \<times> bytes \<times> bytes) io_result" where
  "build_predicate_index e source =
    build_wavelet_tree_from_logarray (env_order e) (env_blocks e) (env_chunks e) source"

definition build_indexes ::
  "env \<Rightarrow> al_files \<Rightarrow> al_files \<Rightarrow> bool \<Rightarrow> (al_files \<times> bytes option \<times> bytes \<times> bytes \<times> bytes) io_result" where
  "build_indexes e s_p_files sp_o_files objects_file =
    try_bind (spawned (build_object_index e sp_o_files objects_file)) (\<lambda>(o_ps, objects).
    try_bind (spawned (build_predicate_index e (fst s_p_files))) (\<lambda>wavelet.
    Some (Inr (o_ps, objects, wavelet))))"

subsection \<open>Loading\<close>

definition load_adjacency_list :: "env \<Rightarrow> al_files \<Rightarrow> AdjacencyList panics" where
  "load_adjacency_list e files =
    (case files of (nums_map, bits_map, blocks_map, sblocks_map) \<Rightarrow>
       AdjacencyList_parse (env_debug e) (env_order e) nums_map bits_map blocks_map sblocks_map)"

definition load_monotonic :: "env \<Rightarrow> bytes \<Rightarrow> MonotonicLogArray panics" where
  "load_monotonic e file =
    do { a \<leftarrow> LogArray_parse (env_order e) file \<bind> unwrap;
         MonotonicLogArray_from_logarray (env_debug e) (env_order e) a }"

definition load_wavelet_tree :: "env \<Rightarrow> bytes \<times> bytes \<times> bytes \<Rightarrow> u8 \<Rightarrow> WaveletTree panics" where
  "load_wavelet_tree e maps width =
    (case maps of (bits_map, blocks_map, sblocks_map) \<Rightarrow>
       do { i \<leftarrow> BitIndex_from_maps (env_order e) bits_map blocks_map sblocks_map;
            WaveletTree_from_parts i width })"

end
