(* ===== verification/TripleIndex.thy ===== *)
theory TripleIndex
  imports TripleBuilder
begin

text \<open>
  What the builders of a layer leave behind: the two adjacency lists of a
  \<open>TripleFileBuilder\<close> form an index of exactly the triples that were added, and the object
  and predicate indexes derived from their files list the same triples. \<open>tfb_inv\<close> is the
  invariant of the builder.
\<close>

section \<open>The rows of two adjacency lists\<close>

lemma length_pairs_from [simp]: "length (pairs_from l ss) = length (concat ss)"
  by (induction ss arbitrary: l) simp_all

lemma nth_pairs_from:
  assumes "[] \<notin> set ss" "j < length (concat ss)"
  shows "pairs_from l ss ! j = (l + of_nat (seg_of ss j), concat ss ! j)"
proof -
  from assms(2) obtain i k where j: "i < length ss" "k < length (ss ! i)" "j = offset_of ss i + k"
    by (rule segment_cases)
  have "pairs_from l ss = pairs_from l (take i ss) @ map (Pair (l + of_nat i)) (ss ! i) @
      pairs_from (l + of_nat i + 1) (drop (Suc i) ss)"
    by (subst segment_split [OF j(1)]) (simp only: pairs_from_append pairs_from.simps length_take j(1) min_absorb2 less_imp_le)
  moreover have "length (pairs_from l (take i ss)) = offset_of ss i" by (simp add: offset_of_def)
  ultimately show ?thesis
    using j assms(1) by (simp add: nth_append seg_of_segment nth_segment)
qed

definition left_rows :: "u64 list list \<Rightarrow> u64 list list \<Rightarrow> (u64 \<times> u64 \<times> u64) list" where
  "left_rows ss oss = concat (map (\<lambda>((l, p), os). if p = 0 then [] else map (\<lambda>ob. (l, p, ob)) os)
    (zip (pairs_from 1 ss) oss))"

lemma idx_left_rows:
  assumes wf: "tidx_wf subjects sp spo ss oss" and full: "full_pairs ss oss"
  shows "idx_triples subjects ss oss =
    map (\<lambda>(l, p, ob). IdTriple (subject_at subjects (unat l - 1)) p ob) (left_rows ss oss)"
proof -
  note D = tidx_wfD [OF wf]
  have u: "unat (1 + of_nat (seg_of ss j) :: u64) = Suc (seg_of ss j)" if "j < length (concat ss)" for j
    using seg_of_less [OF D(8) that] D(14) unat_of_nat_u64 [of "Suc (seg_of ss j)"] by simp
  have z: "zip (pairs_from 1 ss) oss = map (\<lambda>j. (pairs_from 1 ss ! j, oss ! j)) [0..<length oss]"
    by (rule nth_equalityI) (use D(3) in simp_all)
  have "map (\<lambda>(l, p, ob). IdTriple (subject_at subjects (unat l - 1)) p ob) (left_rows ss oss) =
      concat (map (\<lambda>j. if concat ss ! j = 0 then [] else block subjects ss oss j) [0..<length oss])"
    unfolding left_rows_def z map_concat map_map
    by (intro arg_cong [where f = concat] map_cong refl)
      (use D(3) in \<open>auto simp: nth_pairs_from [OF D(8)] u block_def\<close>)
  then show ?thesis using rows_blocks [OF wf full, of 0] by (simp add: offset_of_def)
qed

section \<open>Adding a pair\<close>

definition next_left :: "u64 list list \<Rightarrow> nat \<Rightarrow> u64 \<Rightarrow> bool" where
  "next_left ss left right \<longleftrightarrow>
    length ss < left \<or> left = length ss \<and> ss \<noteq> [] \<and> last (last ss) < right"

definition new_holes :: "u64 list list \<Rightarrow> nat \<Rightarrow> nat" where
  "new_holes ss left = (if left = length ss then 0 else left - length ss - 1)"

lemma add_pair_list:
  assumes "[] \<notin> set ss" "next_left ss left right" "right \<noteq> 0"
  shows "concat (add_pair ss left right) = concat ss @ replicate (new_holes ss left) 0 @ [right]"
    "length (add_pair ss left right) = left" "[] \<notin> set (add_pair ss left right)"
    "\<exists>H. pairs_from 1 (add_pair ss left right) = pairs_from 1 ss @ H @ [(of_nat left, right)] \<and>
      length H = new_holes ss left \<and> (\<forall>h\<in>set H. snd h = 0)"
proof -
  show cc: "concat (add_pair ss left right) = concat ss @ replicate (new_holes ss left) 0 @ [right]"
    and ll: "length (add_pair ss left right) = left" and ne: "[] \<notin> set (add_pair ss left right)"
    using add_pair_same [OF assms(1) _ assms(3)] add_pair_skip [OF assms(1) _ assms(3), of left] assms(2)
    by (auto simp: next_left_def new_holes_def)
  show "\<exists>H. pairs_from 1 (add_pair ss left right) = pairs_from 1 ss @ H @ [(of_nat left, right)] \<and>
      length H = new_holes ss left \<and> (\<forall>h\<in>set H. snd h = 0)"
  proof (cases "left = length ss")
    case True
    then obtain ts s where ss: "ss = ts @ [s]"
      using assms(2) by (cases ss rule: rev_cases) (auto simp: next_left_def)
    have "add_pair ss left right = ts @ [s @ [right]]" using True ss by (simp add: add_pair_def)
    then show ?thesis using True ss by (simp add: pairs_from_append new_holes_def)
  next
    case False
    let ?n = "left - length ss - 1"
    have lt: "length ss < left" using False assms(2) by (auto simp: next_left_def)
    have "add_pair ss left right = ss @ replicate ?n [0] @ [[right]]" using False by (simp add: add_pair_def)
    moreover have "1 + length ss + ?n = left" using lt by simp
    then have "(1 + of_nat (length ss) + of_nat ?n :: u64) = of_nat left" by (metis of_nat_1 of_nat_add)
    moreover have "\<forall>h\<in>set (pairs_from l (replicate n [0])). snd h = 0" for l n
      by (induction n arbitrary: l) auto
    moreover have "length (concat (replicate n [0 :: u64])) = n" for n by (induction n) simp_all
    ultimately show ?thesis using False by (simp add: pairs_from_append new_holes_def)
  qed
qed

lemma add_pair_sorted:
  assumes "\<forall>s\<in>set ss. sorted_wrt (<) s" "next_left ss left right"
  shows "\<forall>s\<in>set (add_pair ss left right). sorted_wrt (<) s"
proof (cases "left = length ss")
  case True
  then obtain ts s where ss: "ss = ts @ [s]"
    using assms(2) by (cases ss rule: rev_cases) (auto simp: next_left_def)
  have "last s < right" using True assms(2) ss by (auto simp: next_left_def)
  moreover have "x \<le> last s" if "x \<in> set s" for x
    using assms(1) ss that by (cases s rule: rev_cases) (auto simp: sorted_wrt_append)
  ultimately have "sorted_wrt (<) (s @ [right])"
    using assms(1) ss by (auto simp: sorted_wrt_append intro: order_le_less_trans)
  then show ?thesis using True assms(1) ss by (simp add: add_pair_def)
next
  case False
  then show ?thesis using assms(1) by (auto simp: add_pair_def)
qed

section \<open>The invariant of the triple builder\<close>

text \<open>The subject that a left id stands for.\<close>

definition subject_for :: "u64 list option \<Rightarrow> u64 \<Rightarrow> u64" where
  "subject_for subjects l = (case subjects of None \<Rightarrow> l | Some subs \<Rightarrow> subs ! (unat l - 1))"

definition row_triple :: "u64 list option \<Rightarrow> u64 \<times> u64 \<times> u64 \<Rightarrow> IdTriple" where
  "row_triple subjects r = (case r of (l, p, ob) \<Rightarrow> IdTriple (subject_for subjects l) p ob)"

text \<open>A hole has the single entry 0, a pair has only proper objects.\<close>

definition pair_objects :: "u64 \<Rightarrow> u64 list \<Rightarrow> bool" where
  "pair_objects p os \<longleftrightarrow> (if p = 0 then os = [0] else 0 \<notin> set os)"

definition rows_inv :: "u64 list option \<Rightarrow> u64 list list \<Rightarrow> u64 list list \<Rightarrow> IdTriple list \<Rightarrow> bool" where
  "rows_inv subjects ss oss ts \<longleftrightarrow>
    (\<forall>s\<in>set ss. sorted_wrt (<) s) \<and> (\<forall>s\<in>set oss. sorted_wrt (<) s) \<and>
    list_all2 pair_objects (concat ss) oss \<and> ts = map (row_triple subjects) (left_rows ss oss) \<and>
    (case subjects of None \<Rightarrow> True
     | Some subs \<Rightarrow> length subs = length ss \<and> sorted_wrt (<) subs \<and> 0 \<notin> set subs)"

definition tfb_inv :: "TripleFileBuilder \<Rightarrow> nat \<Rightarrow> nat \<Rightarrow> u64 list list \<Rightarrow> u64 list list \<Rightarrow> IdTriple list \<Rightarrow> bool" where
  "tfb_inv b w1 w2 ss oss ts \<longleftrightarrow>
    (\<exists>sps ops. alb_inv (tfb_s_p_adjacency_list_builder b) w1 sps ss \<and> length sps \<le> length ts \<and>
      alb_inv (tfb_sp_o_adjacency_list_builder b) w2 ops oss \<and> length ops = length ts) \<and>
    rows_inv (tfb_subjects b) ss oss ts \<and> (ts = [] \<longleftrightarrow> ss = []) \<and>
    length ss \<le> length ts + unat (tfb_last_subject b) \<and>
    (if ts = [] then tfb_last_subject b = 0
     else tfb_last_subject b = it_subject (last ts) \<and> tfb_last_predicate b = it_predicate (last ts) \<and>
       last (last ss) = it_predicate (last ts) \<and> last (last oss) = it_object (last ts) \<and>
       subject_for (tfb_subjects b) (of_nat (length ss)) = it_subject (last ts))"

lemma pairs_from_last:
  assumes "[] \<notin> set ss" "ss \<noteq> []"
  shows "\<exists>ps. pairs_from 1 ss = ps @ [(of_nat (length ss), last (last ss))]"
proof -
  obtain ts s where ss: "ss = ts @ [s]" using assms(2) by (cases ss rule: rev_cases) auto
  moreover obtain xs x where "s = xs @ [x]" using assms(1) ss by (cases s rule: rev_cases) auto
  ultimately show ?thesis by (simp add: pairs_from_append)
qed

lemma left_rows_same:
  assumes "[] \<notin> set ss" "ss \<noteq> []" "length oss = length (concat ss)" "last (last ss) \<noteq> 0"
  shows "left_rows ss (add_pair oss (length oss) ob) = left_rows ss oss @ [(of_nat (length ss), last (last ss), ob)]"
proof -
  from pairs_from_last [OF assms(1,2)] obtain ps where ps: "pairs_from 1 ss = ps @ [(of_nat (length ss), last (last ss))]" ..
  have "length (pairs_from 1 ss) = length oss" using assms(3) by simp
  then have len: "length oss = Suc (length ps)" by (simp add: ps)
  then obtain os x where oss: "oss = os @ [x]" by (cases oss rule: rev_cases) auto
  with len have "length os = length ps" by simp
  then show ?thesis using assms(4) by (simp add: left_rows_def add_pair_def ps oss)
qed

lemma left_rows_new:
  assumes "pairs_from 1 ss' = pairs_from 1 ss @ H @ [(m, p)]" "\<forall>h\<in>set H. snd h = 0" "p \<noteq> 0"
    and "length oss = length (concat ss)"
  shows "left_rows ss' (oss @ replicate (length H) [0] @ [[ob]]) = left_rows ss oss @ [(m, p, ob)]"
proof -
  have "concat (map (\<lambda>((l, p), os). if p = 0 then [] else map (\<lambda>ob. (l, p, ob)) os) (zip H xs)) = []" for xs
    using assms(2) by (auto simp: concat_eq_Nil_conv dest!: set_zip_leftD)
  then show ?thesis using assms(1,3,4) by (simp add: left_rows_def)
qed

lemma left_rows_left:
  assumes "(l, p, ob) \<in> set (left_rows ss oss)" "length ss < 2 ^ 64"
  shows "0 < unat l" "unat l \<le> length ss"
proof -
  from assms(1) obtain os where "((l, p), os) \<in> set (zip (pairs_from 1 ss) oss)" by (auto simp: left_rows_def split: if_splits)
  then have "(l, p) \<in> set (pairs_from 1 ss)" by (rule set_zip_leftD)
  from pairs_from_fst [OF this] obtain j where j: "j < length ss" "l = 1 + of_nat j" by auto
  then have "unat l = Suc j" using unat_of_nat_u64 [of "Suc j"] assms(2) by simp
  then show "0 < unat l" "unat l \<le> length ss" using j(1) by simp_all
qed

lemma add_pair_next:
  assumes "length xs = length oss"
  shows "add_pair oss (length (xs @ replicate n 0 @ [p])) ob = oss @ replicate n [0] @ [[ob]]"
  using assms by (simp add: add_pair_def)

lemma row_triple_subjects:
  assumes "length ss < 2 ^ 64" "length subs = length ss"
  shows "map (row_triple (Some (subs @ ext))) (left_rows ss oss) = map (row_triple (Some subs)) (left_rows ss oss)"
proof (rule map_cong [OF refl])
  fix r assume r: "r \<in> set (left_rows ss oss)"
  obtain l p ob where lpo: "r = (l, p, ob)" by (cases r) auto
  with left_rows_left [OF _ assms(1)] r have "0 < unat l" "unat l \<le> length subs" using assms(2) by metis+
  then have "unat l - 1 < length subs" by linarith
  then show "row_triple (Some (subs @ ext)) r = row_triple (Some subs) r"
    by (simp add: lpo row_triple_def subject_for_def nth_append)
qed

lemma rows_inv_same:
  assumes inv: "rows_inv subjects ss oss ts" and ne: "[] \<notin> set ss" "ss \<noteq> []" and p: "last (last ss) \<noteq> 0"
    and ob: "next_left oss (length oss) ob" "ob \<noteq> 0"
  shows "rows_inv subjects ss (add_pair oss (length oss) ob)
    (ts @ [IdTriple (subject_for subjects (of_nat (length ss))) (last (last ss)) ob])"
proof -
  from inv have R: "\<forall>s\<in>set ss. sorted_wrt (<) s" "\<forall>s\<in>set oss. sorted_wrt (<) s"
    "list_all2 pair_objects (concat ss) oss" "ts = map (row_triple subjects) (left_rows ss oss)"
    "case subjects of None \<Rightarrow> True | Some subs \<Rightarrow> length subs = length ss \<and> sorted_wrt (<) subs \<and> 0 \<notin> set subs"
    by (simp_all add: rows_inv_def)
  have len: "length oss = length (concat ss)" using list_all2_lengthD [OF R(3)] by simp
  obtain xs x where ss: "ss = xs @ [x]" using ne(2) by (cases ss rule: rev_cases) auto
  obtain ys y where x: "x = ys @ [y]" using ne(1) ss by (cases x rule: rev_cases) auto
  obtain os z where oss: "oss = os @ [z]" using len ss x by (cases oss rule: rev_cases) auto
  have "list_all2 pair_objects (concat xs @ ys) os \<and> pair_objects y z"
    using R(3) len list_all2_append [of "concat xs @ ys" os pair_objects "[y]" "[z]"] by (simp add: ss x oss)
  then have "list_all2 pair_objects (concat ss) (add_pair oss (length oss) ob)"
    using p ob(2) list_all2_appendI [of pair_objects "concat xs @ ys" os "[y]" "[z @ [ob]]"]
    by (simp add: ss x oss add_pair_def pair_objects_def)
  then show ?thesis
    unfolding rows_inv_def using R(1,4,5) add_pair_sorted [OF R(2) ob(1)] left_rows_same [OF ne len p]
    by (simp add: row_triple_def)
qed

lemma rows_inv_new:
  assumes inv: "rows_inv subjects ss oss ts" and ne: "[] \<notin> set ss" and p: "next_left ss left p" "p \<noteq> 0" and ob: "ob \<noteq> 0"
    and len64: "length ss < 2 ^ 64"
    and subs: "subjects' = subjects \<and> (left = length ss \<or> subjects = None) \<or>
      (\<exists>xs s. subjects = Some xs \<and> subjects' = Some (xs @ [s]) \<and> left = Suc (length ss) \<and>
        (\<forall>x\<in>set xs. x < s) \<and> s \<noteq> 0)"
  defines "ss' \<equiv> add_pair ss left p"
  shows "rows_inv subjects' ss' (add_pair oss (length (concat ss')) ob)
    (ts @ [IdTriple (subject_for subjects' (of_nat left)) p ob])"
proof -
  from inv have R: "\<forall>s\<in>set ss. sorted_wrt (<) s" "\<forall>s\<in>set oss. sorted_wrt (<) s"
    "list_all2 pair_objects (concat ss) oss" "ts = map (row_triple subjects) (left_rows ss oss)"
    "case subjects of None \<Rightarrow> True | Some subs \<Rightarrow> length subs = length ss \<and> sorted_wrt (<) subs \<and> 0 \<notin> set subs"
    by (simp_all add: rows_inv_def)
  have len: "length oss = length (concat ss)" using list_all2_lengthD [OF R(3)] by simp
  note A = add_pair_list [OF ne p, folded ss'_def]
  from A(4) obtain H where H: "pairs_from 1 ss' = pairs_from 1 ss @ H @ [(of_nat left, p)]"
    "length H = new_holes ss left" "\<forall>h\<in>set H. snd h = 0" by blast
  have oss': "add_pair oss (length (concat ss')) ob = oss @ replicate (length H) [0] @ [[ob]]"
    unfolding A(1) H(2) using len by (intro add_pair_next) simp
  have objs: "list_all2 pair_objects (concat ss') (oss @ replicate (length H) [0] @ [[ob]])"
    unfolding A(1) H(2) using R(3) p(2) ob
    by (intro list_all2_appendI) (simp_all add: pair_objects_def list_all2_conv_all_nth)
  have rows: "map (row_triple subjects') (left_rows ss oss) = map (row_triple subjects) (left_rows ss oss)"
    using subs R(5) row_triple_subjects [OF len64] by (auto split: option.splits)
  have "case subjects' of None \<Rightarrow> True | Some subs \<Rightarrow> length subs = length ss' \<and> sorted_wrt (<) subs \<and> 0 \<notin> set subs"
    using subs R(5) A(2) by (auto simp: sorted_wrt_append split: option.splits)
  moreover have "\<forall>s\<in>set (oss @ replicate (length H) [0] @ [[ob]]). sorted_wrt (<) s" using R(2) by auto
  moreover have "\<forall>s\<in>set ss'. sorted_wrt (<) s" unfolding ss'_def by (rule add_pair_sorted [OF R(1) p(1)])
  ultimately show ?thesis
    unfolding rows_inv_def oss' using objs R(4) rows left_rows_new [OF H(1,3) p(2) len, of ob]
    by (simp add: row_triple_def)
qed

section \<open>Adding a triple\<close>

lemma alb_inv_count:
  assumes "alb_inv b w ps ss" "ss \<noteq> []" "length (concat ss) < 2 ^ 64"
  shows "AdjacencyListBuilder_count b + 1 = of_nat (length (concat ss))"
proof -
  from assms(1) have c: "unat (bab_count (alb_bitarray b)) = length (butlast (segs_bits ss))" and ne: "[] \<notin> set ss"
    by (simp_all add: alb_inv_def bab_inv_def)
  have "concat ss \<noteq> []" using ne assms(2) by (cases ss) auto
  then have "Suc (length (butlast (segs_bits ss))) = length (concat ss)" using ne by simp
  then have "of_nat (length (concat ss)) = (of_nat (Suc (unat (bab_count (alb_bitarray b)))) :: u64)" using c by simp
  then show ?thesis by (simp add: AdjacencyListBuilder_count_def add.commute)
qed

lemma alb_push_next:
  assumes inv: "alb_inv b w ps ss" and r: "right \<noteq> 0" "unat right < 2 ^ w" and nl: "next_left ss left right"
    and len: "length ps + left + 1 < 2 ^ 32"
  shows "\<exists>b'. AdjacencyListBuilder_push b (of_nat left) right = Some (Inr b') \<and>
    alb_inv b' w (ps @ [(of_nat left, right)]) (add_pair ss left right)"
proof -
  have u: "unat (of_nat left :: u64) = left" using len by (intro unat_of_nat_u64) simp
  have ll: "unat (alb_last_left b) = length ss" and lr: "alb_last_right b = (if ss = [] then 0 else last (last ss))"
    using inv by (simp_all add: alb_inv_def)
  have "alb_last_left b < of_nat left \<or> alb_last_left b = of_nat left \<and> 0 < (of_nat left :: u64) \<and> alb_last_right b < right"
  proof (cases "length ss < left")
    case True
    then show ?thesis using ll u by (simp add: word_less_nat_alt)
  next
    case False
    then have e: "left = length ss" "ss \<noteq> []" "last (last ss) < right" using nl by (auto simp: next_left_def)
    then have "alb_last_left b = of_nat left" using ll u by (simp add: word_unat_eq_iff)
    then show ?thesis using e lr u by (simp add: word_less_nat_alt)
  qed
  from alb_push_ok [OF inv r this] len u show ?thesis by auto
qed

definition triple_ok :: "nat \<Rightarrow> nat \<Rightarrow> IdTriple \<Rightarrow> bool" where
  "triple_ok w1 w2 t \<longleftrightarrow> it_subject t \<noteq> 0 \<and> it_predicate t \<noteq> 0 \<and> it_object t \<noteq> 0 \<and>
    unat (it_predicate t) < 2 ^ w1 \<and> unat (it_object t) < 2 ^ w2"

text \<open>The left id of a subject.\<close>

definition mapped_subject :: "u64 list option \<Rightarrow> u64 \<Rightarrow> nat" where
  "mapped_subject subjects s = (case subjects of None \<Rightarrow> unat s | Some subs \<Rightarrow> length subs)"

lemma try_bind_simps [simp]:
  "try_bind None f = None" "try_bind (Some (Inl e)) f = Some (Inl e)" "try_bind (Some (Inr x)) f = f x"
  by (simp_all add: try_bind_def)

lemma try_bind_return: "try_bind r (\<lambda>x. Some (Inr x)) = r"
  by (cases r) (auto simp: try_bind_def split: sum.split)

lemma try_bind_assoc: "try_bind (try_bind r f) g = try_bind r (\<lambda>x. try_bind (f x) g)"
  by (cases r) (auto simp: try_bind_def split: sum.split)

lemma add_triple_same:
  assumes inv: "tfb_inv b w1 w2 ss oss ts" and t: "triple_ok w1 w2 t" and ts: "ts \<noteq> []" "last ts < t"
    and same: "it_subject t = it_subject (last ts)" "it_predicate t = it_predicate (last ts)"
    and len: "5 * length ts + 5 * unat (it_subject t) + 10 < 2 ^ 32"
  shows "\<exists>b' oss'. TripleFileBuilder_add_triple b (it_subject t) (it_predicate t) (it_object t) = Some (Inr b') \<and>
    tfb_inv b' w1 w2 ss oss' (ts @ [t]) \<and> tfb_subjects b' = tfb_subjects b"
proof -
  from inv obtain sps ops where A: "alb_inv (tfb_s_p_adjacency_list_builder b) w1 sps ss" "length sps \<le> length ts"
      "alb_inv (tfb_sp_o_adjacency_list_builder b) w2 ops oss" "length ops = length ts"
    by (auto simp: tfb_inv_def)
  have lss: "length ss \<le> length ts + unat (it_subject t)" using inv ts(1) same by (auto simp: tfb_inv_def)
  from inv ts(1) have R: "rows_inv (tfb_subjects b) ss oss ts" "ss \<noteq> []" and L: "tfb_last_subject b = it_subject (last ts)"
      "tfb_last_predicate b = it_predicate (last ts)" "last (last ss) = it_predicate (last ts)"
      "last (last oss) = it_object (last ts)" "subject_for (tfb_subjects b) (of_nat (length ss)) = it_subject (last ts)"
    by (simp_all add: tfb_inv_def)
  have ne: "[] \<notin> set ss" "length (concat ss) \<le> length sps + length ss" using A(1) by (simp_all add: alb_inv_def)
  have lo: "length oss = length (concat ss)" using R(1) by (auto simp: rows_inv_def dest: list_all2_lengthD)
  have co: "concat ss \<noteq> []" using ne R(2) by (cases ss) auto
  have ob: "it_object (last ts) < it_object t" using ts(2) same by (simp add: less_IdTriple_def)
  have nl: "next_left oss (length oss) (it_object t)" using lo co L(4) ob by (auto simp: next_left_def)
  have cnt: "AdjacencyListBuilder_count (tfb_s_p_adjacency_list_builder b) + 1 = of_nat (length oss)"
    using alb_inv_count [OF A(1) R(2)] lo ne(2) A(2) len lss by simp
  have "length ops + length oss + 1 < 2 ^ 32" using A(2,4) lo ne(2) len lss by simp
  from alb_push_next [OF A(3) _ _ nl this] t obtain b' where
    b': "AdjacencyListBuilder_push (tfb_sp_o_adjacency_list_builder b) (of_nat (length oss)) (it_object t) = Some (Inr b')"
      "alb_inv b' w2 (ops @ [(of_nat (length oss), it_object t)]) (add_pair oss (length oss) (it_object t))"
    by (auto simp: triple_ok_def)
  let ?b = "b\<lparr>tfb_sp_o_adjacency_list_builder := b', tfb_last_subject := it_subject t, tfb_last_predicate := it_predicate t\<rparr>"
  have "TripleFileBuilder_add_triple b (it_subject t) (it_predicate t) (it_object t) = Some (Inr ?b)"
    using t L(1,2) same b'(1) cnt by (simp add: TripleFileBuilder_add_triple_def triple_ok_def Let_def)
  moreover have rows: "rows_inv (tfb_subjects b) ss (add_pair oss (length oss) (it_object t)) (ts @ [t])"
    using rows_inv_same [OF R(1) ne(1) R(2) _ nl] L(3,5) t same [symmetric] by (simp add: triple_ok_def)
  moreover have "last (last (add_pair oss (length oss) (it_object t))) = it_object t" by (simp add: add_pair_def)
  moreover have "\<exists>sps ops. alb_inv (tfb_s_p_adjacency_list_builder ?b) w1 sps ss \<and> length sps \<le> length (ts @ [t]) \<and>
      alb_inv (tfb_sp_o_adjacency_list_builder ?b) w2 ops (add_pair oss (length oss) (it_object t)) \<and>
      length ops = length (ts @ [t])"
    using A(1,2,4) b'(2) by (intro exI [of _ sps] exI [of _ "ops @ [(of_nat (length oss), it_object t)]"]) simp
  ultimately show ?thesis using L same R(2) lss unfolding tfb_inv_def
    by (intro exI [of _ ?b] exI [of _ "add_pair oss (length oss) (it_object t)"]) simp
qed

lemma add_triple_new:
  assumes inv: "tfb_inv b w1 w2 ss oss ts" and t: "triple_ok w1 w2 t" and ts: "ts = [] \<or> last ts < t"
    and new: "ts = [] \<or> (it_subject t, it_predicate t) \<noteq> (it_subject (last ts), it_predicate (last ts))"
    and len: "5 * length ts + 5 * unat (it_subject t) + 10 < 2 ^ 32"
  shows "\<exists>b' ss' oss'. TripleFileBuilder_add_triple b (it_subject t) (it_predicate t) (it_object t) = Some (Inr b') \<and>
    tfb_inv b' w1 w2 ss' oss' (ts @ [t]) \<and> (tfb_subjects b' = None \<longleftrightarrow> tfb_subjects b = None)"
proof -
  from inv obtain sps ops where A: "alb_inv (tfb_s_p_adjacency_list_builder b) w1 sps ss" "length sps \<le> length ts"
      "alb_inv (tfb_sp_o_adjacency_list_builder b) w2 ops oss" "length ops = length ts"
    by (auto simp: tfb_inv_def)
  from inv have R: "rows_inv (tfb_subjects b) ss oss ts" "ts = [] \<longleftrightarrow> ss = []"
      "ts = [] \<Longrightarrow> tfb_last_subject b = 0" by (simp_all add: tfb_inv_def)
  have L: "tfb_last_subject b = it_subject (last ts)" "tfb_last_predicate b = it_predicate (last ts)"
      "last (last ss) = it_predicate (last ts)" "subject_for (tfb_subjects b) (of_nat (length ss)) = it_subject (last ts)"
    if "ts \<noteq> []" using inv that by (simp_all add: tfb_inv_def)
  have nz: "it_subject t \<noteq> 0" "it_predicate t \<noteq> 0" "it_object t \<noteq> 0" using t by (simp_all add: triple_ok_def)
  have ne: "[] \<notin> set ss" "length (concat ss) \<le> length sps + length ss" using A(1) by (simp_all add: alb_inv_def)
  have lo: "length oss = length (concat ss)" using R(1) by (auto simp: rows_inv_def dest: list_all2_lengthD)
  have ord: "tfb_last_subject b < it_subject t \<or>
      tfb_last_subject b = it_subject t \<and> ts \<noteq> [] \<and> it_predicate (last ts) < it_predicate t"
    using ts new R(3) L(1) nz(1) by (cases "ts = []") (auto simp: less_IdTriple_def word_gt_0)
  define subs' where "subs' = (case tfb_subjects b of None \<Rightarrow> None
    | Some s \<Rightarrow> Some (if it_subject t \<noteq> tfb_last_subject b then s @ [it_subject t] else s))"
  define left where "left = mapped_subject subs' (it_subject t)"
  have S: "case tfb_subjects b of None \<Rightarrow> True | Some subs \<Rightarrow> length subs = length ss \<and> sorted_wrt (<) subs \<and> 0 \<notin> set subs"
    using R(1) by (simp add: rows_inv_def)
  have lss: "length ss \<le> length ts + unat (tfb_last_subject b)" using inv by (simp add: tfb_inv_def)
  have le: "unat (tfb_last_subject b) \<le> unat (it_subject t)" using ord by (auto simp: word_less_nat_alt)
  have u: "unat (of_nat (length ss) :: u64) = length ss" using lss le len by (intro unat_of_nat_u64) simp
  have below: "x < it_subject t" if xs: "tfb_subjects b = Some xs" "it_subject t \<noteq> tfb_last_subject b" "x \<in> set xs" for x xs
  proof -
    have l: "length xs = length ss" "sorted_wrt (<) xs" using S xs(1) by simp_all
    then have "xs \<noteq> []" "ts \<noteq> []" using xs(3) R(2) by auto
    then have "last xs = tfb_last_subject b" using L(1,4) xs(1) u l(1) by (simp add: subject_for_def last_conv_nth)
    moreover have "x \<le> last xs" using l(2) xs(3) by (cases xs rule: rev_cases) (auto simp: sorted_wrt_append)
    ultimately show ?thesis using ord xs(2) by (metis order_le_less_trans)
  qed
  have lN: "length ss = unat (tfb_last_subject b)" if "tfb_subjects b = None"
    using that L(1,4) R(2,3) u by (cases "ts = []") (auto simp: subject_for_def)
  have nl: "next_left ss left (it_predicate t)"
  proof (cases "tfb_last_subject b = it_subject t")
    case True
    then have "ts \<noteq> []" "it_predicate (last ts) < it_predicate t" using ord by auto
    moreover have "left = length ss"
      using True S lN by (auto simp: left_def mapped_subject_def subs'_def split: option.splits)
    ultimately show ?thesis using R(2) L(3) by (simp add: next_left_def)
  next
    case False
    then have "length ss < left"
      using S lN ord by (auto simp: left_def mapped_subject_def subs'_def word_less_nat_alt split: option.splits)
    then show ?thesis by (simp add: next_left_def)
  qed
  have subs: "subs' = tfb_subjects b \<and> (left = length ss \<or> tfb_subjects b = None) \<or>
      (\<exists>xs s. tfb_subjects b = Some xs \<and> subs' = Some (xs @ [s]) \<and> left = Suc (length ss) \<and>
        (\<forall>x\<in>set xs. x < s) \<and> s \<noteq> 0)"
    using S below nz(1) by (auto simp: subs'_def left_def mapped_subject_def split: option.splits if_splits)
  have lle: "left \<le> length (ts @ [t]) + unat (it_subject t)"
    using S lss le by (auto simp: left_def mapped_subject_def subs'_def split: option.splits)
  let ?p = "it_predicate t" and ?o = "it_object t"
  let ?ss = "add_pair ss left ?p"
  note N = add_pair_list [OF ne(1) nl nz(2)]
  have "length sps + left + 1 < 2 ^ 32" using A(2) lle len by simp
  from alb_push_next [OF A(1) nz(2) _ nl this] t obtain a where
    a: "AdjacencyListBuilder_push (tfb_s_p_adjacency_list_builder b) (of_nat left) ?p = Some (Inr a)"
      "alb_inv a w1 (sps @ [(of_nat left, ?p)]) ?ss" by (auto simp: triple_ok_def)
  have lcc: "length (concat ?ss) \<le> length (concat ss) + left + 1" "length (concat ss) < length (concat ?ss)"
    unfolding N(1) by (simp_all add: new_holes_def)
  have ssne: "?ss \<noteq> []" using N(2) nl by (auto simp: next_left_def)
  have cnt: "AdjacencyListBuilder_count a + 1 = of_nat (length (concat ?ss))"
    by (rule alb_inv_count [OF a(2) ssne]) (use lcc ne(2) A(2) lss le lle len in simp)
  have nlo: "next_left oss (length (concat ?ss)) ?o" using lcc(2) lo by (simp add: next_left_def)
  have "length ops + length (concat ?ss) + 1 < 2 ^ 32" using A(2,4) lcc ne(2) lss le lle len by simp
  from alb_push_next [OF A(3) nz(3) _ nlo this] t obtain b' where
    b': "AdjacencyListBuilder_push (tfb_sp_o_adjacency_list_builder b) (of_nat (length (concat ?ss))) ?o = Some (Inr b')"
      "alb_inv b' w2 (ops @ [(of_nat (length (concat ?ss)), ?o)]) (add_pair oss (length (concat ?ss)) ?o)"
    by (auto simp: triple_ok_def)
  have ul: "unat (of_nat left :: u64) = left" using lle len by (intro unat_of_nat_u64) simp
  have sfor: "subject_for subs' (of_nat left) = it_subject t"
  proof (cases "tfb_subjects b")
    case None
    then show ?thesis by (simp add: subs'_def left_def mapped_subject_def subject_for_def)
  next
    case (Some xs)
    show ?thesis
    proof (cases "it_subject t = tfb_last_subject b")
      case True
      then have "ts \<noteq> []" "left = length ss"
        using ord Some S by (auto simp: subs'_def left_def mapped_subject_def)
      then show ?thesis using L(1,4) True Some by (simp add: subs'_def)
    next
      case False
      then show ?thesis using Some ul by (simp add: subs'_def left_def mapped_subject_def subject_for_def nth_append)
    qed
  qed
  have m: "(case subs' of None \<Rightarrow> it_subject t | Some s \<Rightarrow> of_nat (length s)) = (of_nat left :: u64)"
    by (auto simp: left_def mapped_subject_def split: option.splits)
  let ?b = "b\<lparr>tfb_subjects := subs', tfb_s_p_adjacency_list_builder := a, tfb_sp_o_adjacency_list_builder := b',
    tfb_last_subject := it_subject t, tfb_last_predicate := ?p\<rparr>"
  have "\<not> (tfb_last_subject b = it_subject t \<and> tfb_last_predicate b = ?p)" "\<not> it_subject t < tfb_last_subject b"
    using ord L(2) by auto
  then have "TripleFileBuilder_add_triple b (it_subject t) ?p ?o = Some (Inr ?b)"
    using nz a(1) b'(1) cnt m
    by (auto simp: TripleFileBuilder_add_triple_def Let_def simp flip: subs'_def)
  moreover have "rows_inv subs' ?ss (add_pair oss (length (concat ?ss)) ?o) (ts @ [t])"
    using rows_inv_new [OF R(1) ne(1) nl nz(2,3) _ subs] u sfor lss le len by simp
  moreover have "\<exists>sps ops. alb_inv a w1 sps ?ss \<and> length sps \<le> length (ts @ [t]) \<and>
      alb_inv b' w2 ops (add_pair oss (length (concat ?ss)) ?o) \<and> length ops = length (ts @ [t])"
    using A(2,4) a(2) b'(2)
    by (intro exI [of _ "sps @ [(of_nat left, ?p)]"] exI [of _ "ops @ [(of_nat (length (concat ?ss)), ?o)]"]) simp
  moreover have "last (last ?ss) = ?p" "last (last (add_pair oss (length (concat ?ss)) ?o)) = ?o"
    by (simp_all add: add_pair_def)
  ultimately show ?thesis using ssne N(2) sfor lle unfolding tfb_inv_def
    by (intro exI [of _ ?b] exI [of _ ?ss] exI [of _ "add_pair oss (length (concat ?ss)) ?o"])
      (simp add: subs'_def split: option.splits)
qed

definition triples_ok :: "nat \<Rightarrow> nat \<Rightarrow> IdTriple list \<Rightarrow> bool" where
  "triples_ok w1 w2 ts \<longleftrightarrow> sorted_wrt (<) ts \<and>
    (\<forall>t\<in>set ts. triple_ok w1 w2 t \<and> 5 * length ts + 5 * unat (it_subject t) + 10 < 2 ^ 32)"

lemma add_id_triples_snoc:
  "TripleFileBuilder_add_id_triples b (ts @ [t]) = try_bind (TripleFileBuilder_add_id_triples b ts) (\<lambda>b.
    TripleFileBuilder_add_triple b (it_subject t) (it_predicate t) (it_object t))"
proof (induction ts arbitrary: b)
  case Nil
  show ?case by (simp add: try_bind_return)
next
  case (Cons a ts)
  then show ?case by (simp add: try_bind_assoc)
qed

lemma add_id_triples_ok:
  assumes new: "alb_inv (tfb_s_p_adjacency_list_builder b) w1 [] []" "alb_inv (tfb_sp_o_adjacency_list_builder b) w2 [] []"
      "tfb_subjects b = None \<or> tfb_subjects b = Some []" "tfb_last_subject b = 0"
    and "triples_ok w1 w2 ts"
  shows "\<exists>b' ss oss. TripleFileBuilder_add_id_triples b ts = Some (Inr b') \<and> tfb_inv b' w1 w2 ss oss ts \<and>
    (tfb_subjects b' = None \<longleftrightarrow> tfb_subjects b = None)"
  using assms(5)
proof (induction ts rule: rev_induct)
  case Nil
  have "tfb_inv b w1 w2 [] [] []"
    using new unfolding tfb_inv_def
    by (auto simp: rows_inv_def left_rows_def intro!: exI [of _ "[]"])
  then show ?case by auto
next
  case (snoc t ts)
  have ok: "triples_ok w1 w2 ts" and t: "triple_ok w1 w2 t" and len: "5 * length ts + 5 * unat (it_subject t) + 10 < 2 ^ 32"
    and lt: "\<forall>x\<in>set ts. x < t"
    using snoc.prems by (auto simp: triples_ok_def sorted_wrt_append)
  from snoc.IH [OF ok] obtain b' ss oss where b': "TripleFileBuilder_add_id_triples b ts = Some (Inr b')"
    "tfb_inv b' w1 w2 ss oss ts" "(tfb_subjects b' = None) = (tfb_subjects b = None)" by (elim exE conjE)
  have last: "ts = [] \<or> last ts < t" using lt by (cases "ts = []") simp_all
  show ?case
  proof (cases "ts \<noteq> [] \<and> it_subject t = it_subject (last ts) \<and> it_predicate t = it_predicate (last ts)")
    case True
    with add_triple_same [OF b'(2) t _ _ _ _ len] last b' show ?thesis by (fastforce simp: add_id_triples_snoc)
  next
    case False
    with add_triple_new [OF b'(2) t last _ len] b' show ?thesis by (fastforce simp: add_id_triples_snoc)
  qed
qed

section \<open>The files of the triples\<close>

text \<open>What the code relies on of the parameters.\<close>

definition sort_ok :: "((u64 \<times> u64) list \<Rightarrow> (u64 \<times> u64) list) \<Rightarrow> bool" where
  "sort_ok srt \<longleftrightarrow> (\<forall>ps. mset (srt ps) = mset ps \<and>
    sorted_wrt (\<lambda>p q. fst p < fst q \<or> fst p = fst q \<and> snd p \<le> snd q) (srt ps))"

definition env_ok :: "env \<Rightarrow> bool" where
  "env_ok e \<longleftrightarrow> big_endian (env_order e) \<and> framed_blocks_ok (env_order e) (env_blocks e) \<and>
    framed_entries_ok (env_order e) (env_entries e) \<and> chunks_ok (env_chunks e) \<and> log2_ok (env_log2 e) \<and>
    sort_ok (env_sort e)"

text \<open>Triples in order, with ids in range, and few enough of them for the widths.\<close>

definition ids_ok :: "nat \<Rightarrow> nat \<Rightarrow> IdTriple list \<Rightarrow> bool" where
  "ids_ok nodes_and_values predicates ts \<longleftrightarrow> sorted_wrt (<) ts \<and>
    predicates < 2 ^ 21 \<and> nodes_and_values < 2 ^ 21 \<and>
    (\<forall>t\<in>set ts. it_subject t \<noteq> 0 \<and> it_predicate t \<noteq> 0 \<and> it_object t \<noteq> 0 \<and>
      unat (it_predicate t) \<le> predicates \<and> unat (it_object t) \<le> nodes_and_values \<and>
      2 * length ts + unat (it_subject t) < 2 ^ 21)"

definition triples_size :: "IdTriple list \<Rightarrow> bool" where
  "triples_size ts \<longleftrightarrow> (\<forall>t\<in>set ts. 2 * length ts + unat (it_subject t) < 2 ^ 21)"

locale build_env =
  fixes e :: env
  assumes env: "env_ok e"

sublocale build_env \<subseteq> big_endian "env_order e"
  using env by (simp add: env_ok_def)

context build_env
begin

lemma env_parts:
  "framed_blocks_ok (env_order e) (env_blocks e)" "framed_entries_ok (env_order e) (env_entries e)"
  "chunks_ok (env_chunks e)" "log2_ok (env_log2 e)" "sort_ok (env_sort e)"
  using env by (simp_all add: env_ok_def)

lemma write_logarray_ok:
  assumes "unat width \<le> 64" "0 < unat width \<or> vals = []" "length vals < 2 ^ 32" "\<forall>v\<in>set vals. unat v < 2 ^ unat width"
  obtains f a where "write_logarray e width vals = Some (Inr f)" "LogArray_parse (env_order e) f = Some (Inr a)"
    "la_wf a" "la_elems a = vals"
proof -
  from LogArray_build [OF assms(1,3,4)] obtain b data where
    b: "LogArrayFileBuilder_push_vec (LogArrayFileBuilder_new [] width) vals = Inr b"
      "LogArrayFileBuilder_finalize (env_order e) b = Some (data @ control_word (of_nat (length vals)) width)"
      "elems_data (unat width) vals data" by metis
  note P = LogArray_parse_data [OF b(3) assms(1,3)]
  show ?thesis using that [OF _ P(1) P(3) P(4)] b assms by (simp add: write_logarray_def)
qed

lemma monotonic_walk_sorted: "sorted_wrt (<) (x # xs) \<Longrightarrow> monotonic_walk x xs = Some ()"
  by (induction xs arbitrary: x) (auto simp: rust_assert_def)

lemma load_monotonic_ok:
  assumes "LogArray_parse (env_order e) f = Some (Inr a)" "la_wf a" "sorted_wrt (<) (la_elems a)"
  shows "load_monotonic e f = Some (MonotonicLogArray a)"
proof -
  have "those (map (LogArray_entry (env_order e) a) [0..<LogArray_len a]) = Some (map (\<lambda>i. la_elems a ! i) [0..<LogArray_len a])"
    by (rule those_map_Some) (simp add: LogArray_entry_eq [OF assms(2)] LogArray_len_def nth_la_elems)
  also have "map (\<lambda>i. la_elems a ! i) [0..<LogArray_len a] = la_elems a"
    by (rule nth_equalityI) (simp_all add: LogArray_len_def)
  finally have "those (map (LogArray_entry (env_order e) a) [0..<LogArray_len a]) = Some (la_elems a)" .
  moreover have "(case la_elems a of [] \<Rightarrow> Some () | pred # rest \<Rightarrow> monotonic_walk pred rest) = Some ()"
    using assms(3) monotonic_walk_sorted by (cases "la_elems a") auto
  ultimately show ?thesis
    using assms(1) by (simp add: load_monotonic_def MonotonicLogArray_from_logarray_def unwrap_def)
qed

lemma sorted_list_written:
  assumes "sorted_wrt (<) vals" "0 \<notin> set vals" "length vals < 2 ^ 32" "vals \<noteq> [] \<Longrightarrow> unat (last vals) < 2 ^ 21"
  obtains f m where "write_logarray e (calculate_width (env_log2 e) (if vals = [] then 0 else last vals)) vals = Some (Inr f)"
    "load_monotonic e f = Some m" "subjects_wf (Some m) (length vals)" "la_elems (mla_array m) = vals"
proof -
  let ?mx = "if vals = [] then 0 else last vals"
  have mx: "unat ?mx < 2 ^ 21" using assms(4) by simp
  note W = calculate_width_fits [OF env_parts(4) mx]
  have "v \<le> ?mx" if "v \<in> set vals" for v
    using assms(1) that by (cases vals rule: rev_cases) (auto simp: sorted_wrt_append)
  then have fits: "\<forall>v\<in>set vals. unat v < 2 ^ unat (calculate_width (env_log2 e) ?mx)" using W(1) by blast
  have "0 < unat (calculate_width (env_log2 e) ?mx) \<or> vals = []"
    using W(3) assms(2) by (metis last_in_set)
  moreover have "unat (calculate_width (env_log2 e) ?mx) \<le> 64" using W(2) by simp
  ultimately obtain f a where f: "write_logarray e (calculate_width (env_log2 e) ?mx) vals = Some (Inr f)"
    "LogArray_parse (env_order e) f = Some (Inr a)" "la_wf a" "la_elems a = vals"
    using write_logarray_ok [OF _ _ assms(3) fits] by metis
  show ?thesis
    by (rule that [OF f(1) load_monotonic_ok [OF f(2,3)]]) (use f assms in \<open>simp_all add: subjects_wf_def\<close>)
qed


text \<open>The files of the triples and the lists they load to.\<close>

lemma subject_for_at:
  assumes "subjects = None \<and> subs = None \<or> subjects = Some m \<and> subs = Some (la_elems (mla_array m))"
    and "0 < unat l"
  shows "subject_at subjects (unat l - 1) = subject_for subs l"
  using assms
proof (elim disjE conjE)
  assume "subjects = None" "subs = None"
  moreover have "of_nat (unat l - 1) + 1 = l" using assms(2) by (simp add: of_nat_diff)
  ultimately show ?thesis by (simp add: subject_at_def subject_for_def)
qed (simp add: subject_at_def subject_for_def)

lemma rows_inv_idx:
  assumes inv: "rows_inv subs ss oss ts" and al: "al_wf sp ss" "al_wf spo oss"
    and subs: "subjects = None \<and> subs = None \<or>
      (\<exists>m. subjects = Some m \<and> subs = Some (la_elems (mla_array m)) \<and> subjects_wf subjects (length ss))"
  shows "tidx_wf subjects sp spo ss oss" "full_pairs ss oss" "idx_triples subjects ss oss = ts"
proof -
  from inv have R: "\<forall>s\<in>set ss. sorted_wrt (<) s" "\<forall>s\<in>set oss. sorted_wrt (<) s"
    "list_all2 pair_objects (concat ss) oss" "ts = map (row_triple subs) (left_rows ss oss)"
    by (simp_all add: rows_inv_def)
  have len: "length oss = length (concat ss)" using list_all2_lengthD [OF R(3)] by simp
  have po: "pair_objects (concat ss ! j) (oss ! j)" if "j < length oss" for j
    using R(3) that len by (simp add: list_all2_conv_all_nth)
  show wf: "tidx_wf subjects sp spo ss oss"
    using al len R(1,2) po subs by (auto simp: tidx_wf_def pair_objects_def subjects_wf_def)
  show full: "full_pairs ss oss" using po by (auto simp: full_pairs_def pair_objects_def split: if_splits)
  have "subject_at subjects (unat l - 1) = subject_for subs l" if "(l, p, ob) \<in> set (left_rows ss oss)" for l p ob
    using subject_for_at [of subjects subs _ l] left_rows_left(1) [OF that] tidx_wfD(14) [OF wf] subs by fastforce
  then show "idx_triples subjects ss oss = ts"
    unfolding idx_left_rows [OF wf full] R(4) by (auto simp: row_triple_def)
qed

lemma finalize_triples:
  assumes inv: "tfb_inv b w1 w2 ss oss ts" and w: "0 < w1 \<or> ts = []" "0 < w2 \<or> ts = []" and sz: "triples_size ts"
  obtains s_p sp_o f sp spo subjects where "TripleFileBuilder_finalize e b = Some (Inr (s_p, sp_o, f))"
    "load_adjacency_list e s_p = Some sp" "load_adjacency_list e sp_o = Some spo"
    "(case f of None \<Rightarrow> Some None | Some f \<Rightarrow> map_option Some (load_monotonic e f)) = Some subjects"
    "f = None \<longleftrightarrow> tfb_subjects b = None"
    "tidx_wf subjects sp spo ss oss" "full_pairs ss oss" "idx_triples subjects ss oss = ts"
    "adjacency_list_stream_pairs (env_order e) (env_blocks e) (env_entries e) (fst (snd sp_o)) (fst sp_o) =
      Some (Inr (map Inr (filter (\<lambda>p. snd p \<noteq> 0) (pairs_from 1 oss))))"
    "LogArray_parse (env_order e) (fst s_p) = Some (Inr (al_nums sp))" "unat (la_width (al_nums sp)) = w1"
    "length (concat ss) < 2 ^ 21"
proof -
  from inv obtain sps ops where A: "alb_inv (tfb_s_p_adjacency_list_builder b) w1 sps ss" "length sps \<le> length ts"
      "alb_inv (tfb_sp_o_adjacency_list_builder b) w2 ops oss" "length ops = length ts"
    and R: "rows_inv (tfb_subjects b) ss oss ts" "ts = [] \<longleftrightarrow> ss = []" "length ss \<le> length ts + unat (tfb_last_subject b)"
    and L: "ts \<noteq> [] \<Longrightarrow> tfb_last_subject b = it_subject (last ts)" by (auto simp: tfb_inv_def)
  have len: "length oss = length (concat ss)" using R(1) by (auto simp: rows_inv_def dest: list_all2_lengthD)
  have oe: "oss = [] \<longleftrightarrow> ts = []"
  proof -
    have "[] \<notin> set ss" using A(1) by (simp add: alb_inv_def)
    then have "concat ss = [] \<longleftrightarrow> ss = []" by (cases ss) auto
    then show ?thesis using len R(2) by auto
  qed
  have last: "2 * length ts + unat (tfb_last_subject b) < 2 ^ 21" if "ts \<noteq> []"
    using sz L that by (simp add: triples_size_def)
  have cl: "length (concat ss) < 2 ^ 21" "length (concat oss) < 2 ^ 32"
    using A R(2,3) last len by (cases "ts = []"; simp add: alb_inv_def)+
  obtain nums1 bits1 blocks1 sblocks1 sp where
    s1: "AdjacencyListBuilder_finalize (env_order e) (env_blocks e) (env_chunks e) (tfb_s_p_adjacency_list_builder b) =
        Some (Inr (nums1, bits1, blocks1, sblocks1))"
      "AdjacencyList_parse (env_debug e) (env_order e) nums1 bits1 blocks1 sblocks1 = Some sp" "al_wf sp ss"
      "LogArray_parse (env_order e) nums1 = Some (Inr (al_nums sp))" "unat (la_width (al_nums sp)) = w1"
    by (rule AdjacencyListBuilder_finalize_ok [OF A(1) _ _ env_parts(1,3,2), where dbg = "env_debug e"])
      (use w(1) R(2) cl in auto)
  obtain nums2 bits2 blocks2 sblocks2 spo where
    s2: "AdjacencyListBuilder_finalize (env_order e) (env_blocks e) (env_chunks e) (tfb_sp_o_adjacency_list_builder b) =
        Some (Inr (nums2, bits2, blocks2, sblocks2))"
      "AdjacencyList_parse (env_debug e) (env_order e) nums2 bits2 blocks2 sblocks2 = Some spo" "al_wf spo oss"
      "adjacency_list_stream_pairs (env_order e) (env_blocks e) (env_entries e) bits2 nums2 =
        Some (Inr (map Inr (filter (\<lambda>p. snd p \<noteq> 0) (pairs_from 1 oss))))"
    by (rule AdjacencyListBuilder_finalize_ok [OF A(3) _ _ env_parts(1,3,2), where dbg = "env_debug e"])
      (use w(2) oe cl in auto)
  let ?s_p = "(nums1, bits1, blocks1, sblocks1)" and ?sp_o = "(nums2, bits2, blocks2, sblocks2)"
  have loads: "load_adjacency_list e ?s_p = Some sp" "load_adjacency_list e ?sp_o = Some spo"
    using s1(2) s2(2) by (simp_all add: load_adjacency_list_def)
  show ?thesis
  proof (cases "tfb_subjects b")
    case None
    have "TripleFileBuilder_finalize e b = Some (Inr (?s_p, ?sp_o, None))"
      using s1(1) s2(1) None by (simp add: TripleFileBuilder_finalize_def)
    from that [OF this loads, of None] rows_inv_idx [OF R(1) s1(3) s2(3), of None] None s1(4,5) s2(4) cl(1)
    show ?thesis by simp
  next
    case (Some subs)
    with R(1) have S: "length subs = length ss" "sorted_wrt (<) subs" "0 \<notin> set subs" by (simp_all add: rows_inv_def)
    have "unat (last subs) < 2 ^ 21" if "subs \<noteq> []"
    proof -
      have "ts \<noteq> []" "0 < length ss" using that S(1) R(2) by auto
      moreover from this have "unat (of_nat (length ss) :: u64) = length ss"
        using cl(1) A(1) R(3) last by (intro unat_of_nat_u64) simp
      ultimately have "last subs = it_subject (last ts)"
        using inv that Some S(1) by (simp add: tfb_inv_def subject_for_def last_conv_nth)
      then show ?thesis using last L \<open>ts \<noteq> []\<close> by simp
    qed
    moreover have "length subs < 2 ^ 32" using S(1) R(2,3) last by (cases "ts = []") simp_all
    ultimately obtain f m where f: "write_logarray e (calculate_width (env_log2 e) (if subs = [] then 0 else last subs)) subs = Some (Inr f)"
      "load_monotonic e f = Some m" "subjects_wf (Some m) (length subs)" "la_elems (mla_array m) = subs"
      using sorted_list_written [OF S(2,3)] by metis
    have "TripleFileBuilder_finalize e b = Some (Inr (?s_p, ?sp_o, Some f))"
      using s1(1) s2(1) Some f(1) by (simp add: TripleFileBuilder_finalize_def last_conv_nth Let_def split: if_splits)
    from that [OF this loads, of "Some m"] rows_inv_idx [OF R(1) s1(3) s2(3), of "Some m"] Some f S(1) s1(4,5) s2(4) cl(1)
    show ?thesis by simp
  qed
qed

end

section \<open>The pairs of positions and objects\<close>

lemma pairs_from_sorted:
  assumes "[] \<notin> set ss" "\<forall>s\<in>set ss. sorted_wrt (<) s" "length ss < 2 ^ 32"
  shows "sorted_wrt pair_lt (pairs_from 1 ss)"
proof -
  have "pair_lt (pairs_from 1 ss ! i) (pairs_from 1 ss ! j)" if ij: "i < j" "j < length (concat ss)" for i j
  proof -
    have s: "seg_of ss i \<le> seg_of ss j" "seg_of ss j < length ss"
      using ij seg_of_less [OF assms(1) ij(2)] by (simp_all add: seg_of_mono)
    have u: "unat (1 + of_nat k :: u64) = Suc k" if "k \<le> seg_of ss j" for k
      using that s(2) assms(3) unat_of_nat_u64 [of "Suc k"] by simp
    show ?thesis
    proof (cases "seg_of ss i = seg_of ss j")
      case True
      then show ?thesis using segment_sorted [OF assms(1,2) ij True] ij by (simp add: nth_pairs_from [OF assms(1)] pair_lt_def)
    next
      case False
      then have "(1 + of_nat (seg_of ss i) :: u64) < 1 + of_nat (seg_of ss j)"
        using s(1) u [of "seg_of ss i"] u [of "seg_of ss j"] by (simp add: word_less_nat_alt)
      then show ?thesis using ij by (simp add: nth_pairs_from [OF assms(1)] pair_lt_def)
    qed
  qed
  then show ?thesis by (simp add: sorted_wrt_iff_nth_less)
qed

lemma mem_pairs_from:
  assumes "length ss < 2 ^ 32"
  shows "(l, r) \<in> set (pairs_from 1 ss) \<longleftrightarrow> (\<exists>j<length ss. l = of_nat (Suc j) \<and> r \<in> set (ss ! j))"
proof -
  have "(l, r) \<in> set (pairs_from a ss) \<longleftrightarrow> (\<exists>j<length ss. l = a + of_nat j \<and> r \<in> set (ss ! j))" for a
  proof (induction ss arbitrary: a)
    case (Cons s ss)
    have "(\<exists>j<length (s # ss). l = a + of_nat j \<and> r \<in> set ((s # ss) ! j)) \<longleftrightarrow>
        l = a \<and> r \<in> set s \<or> (\<exists>j<length ss. l = a + 1 + of_nat j \<and> r \<in> set (ss ! j))"
      by (simp add: Ex_less_Suc2 add.assoc)
    then show ?case by (auto simp: Cons.IH)
  qed simp
  then show ?thesis by (simp add: add.commute)
qed

lemma gather_pairs_eq:
  "gather_pairs g acc (map Inr ps) = Inr (if ps = [] then g else fst (last ps), acc @ map prod.swap ps)"
proof (induction ps arbitrary: g acc)
  case (Cons p ps)
  then show ?case by (cases p) (simp add: prod.swap_def)
qed simp

lemma sort_strict:
  assumes "sort_ok srt" "distinct ps"
  shows "sorted_wrt pair_lt (srt ps)" "set (srt ps) = set ps" "length (srt ps) = length ps"
proof -
  have m: "mset (srt ps) = mset ps"
    and s: "sorted_wrt (\<lambda>p q. fst p < fst q \<or> fst p = fst q \<and> snd p \<le> snd q) (srt ps)"
    using assms(1) by (simp_all add: sort_ok_def)
  show "set (srt ps) = set ps" "length (srt ps) = length ps"
    using m by (metis set_mset_mset, metis size_mset)
  have d: "distinct (srt ps)" using m assms(2) by (metis mset_eq_imp_distinct_iff)
  have "pair_lt (srt ps ! i) (srt ps ! j)" if "i < j" "j < length (srt ps)" for i j
    using sorted_wrt_nth_less [OF s that] d that
    by (auto simp: pair_lt_def distinct_conv_nth prod_eq_iff order_le_less)
  then show "sorted_wrt pair_lt (srt ps)" by (simp add: sorted_wrt_iff_nth_less)
qed

text \<open>The pairs with objects numbered in the order in which they appear.\<close>

fun compress :: "u64 list \<Rightarrow> (u64 \<times> u64) list \<Rightarrow> (u64 \<times> u64) list \<times> u64 list" where
  "compress objs [] = ([], objs)"
| "compress objs ((ob, sp) # ps) =
    (let objs' = (if ob > (if objs = [] then 0 else last objs) then objs @ [ob] else objs);
         (qs, os) = compress objs' ps
     in ((of_nat (length objs'), sp) # qs, os))"

lemma try_bind_case: "try_bind (Option.bind r (case_sum (\<lambda>e. Some (Inl e)) f)) g = try_bind r (\<lambda>b. try_bind (f b) g)"
  by (cases r) (auto simp: try_bind_def split: sum.split)

lemma push_sparse_eq:
  assumes "length objs + length ps < 2 ^ 64"
  shows "push_sparse b objs (if objs = [] then 0 else last objs) (of_nat (length objs)) ps =
    try_bind (AdjacencyListBuilder_push_all b (map Inr (fst (compress objs ps)))) (\<lambda>b.
      Some (Inr (b, snd (compress objs ps), let os = snd (compress objs ps) in if os = [] then 0 else last os)))"
  using assms
proof (induction objs ps arbitrary: b rule: compress.induct)
  case (2 objs ob sp ps)
  define objs' where "objs' = (if ob > (if objs = [] then 0 else last objs) then objs @ [ob] else objs)"
  have len: "length objs' + length ps < 2 ^ 64" using 2(2) by (auto simp: objs'_def)
  have "push_sparse b objs (if objs = [] then 0 else last objs) (of_nat (length objs)) ((ob, sp) # ps) =
      try_bind (AdjacencyListBuilder_push b (of_nat (length objs')) sp) (\<lambda>b.
        push_sparse b objs' (if objs' = [] then 0 else last objs') (of_nat (length objs')) ps)"
    by (simp add: objs'_def add.commute)
  moreover note IH = 2(1) [OF objs'_def len]
  ultimately show ?case by (simp add: Let_def objs'_def [symmetric] try_bind_case split: prod.split)
qed simp

definition numbered :: "u64 list \<Rightarrow> u64 \<times> u64 \<Rightarrow> u64 \<times> u64 \<Rightarrow> bool" where
  "numbered os p q \<longleftrightarrow> snd q = snd p \<and> 0 < unat (fst q) \<and> unat (fst q) \<le> length os \<and> os ! (unat (fst q) - 1) = fst p"

lemma numbered_append: "numbered os p q \<Longrightarrow> numbered (os @ ext) p q"
  by (auto simp: numbered_def nth_append)

lemma compress_numbered:
  assumes "compress objs ps = (qs, os)" "sorted_wrt (<) objs" "0 \<notin> set objs" "length objs + length ps < 2 ^ 64"
    and "sorted_wrt pair_lt ps" "\<forall>p\<in>set ps. fst p \<noteq> 0" "objs \<noteq> [] \<Longrightarrow> \<forall>p\<in>set ps. last objs \<le> fst p"
  shows "(\<exists>ext. os = objs @ ext) \<and> sorted_wrt (<) os \<and> 0 \<notin> set os \<and> list_all2 (numbered os) ps qs \<and>
    (qs \<noteq> [] \<longrightarrow> unat (fst (last qs)) = length os) \<and> length os \<le> length objs + length ps \<and>
    (ps \<noteq> [] \<longrightarrow> last os = fst (last ps))"
  using assms
proof (induction objs ps arbitrary: qs os rule: compress.induct)
  case (2 objs ob sp ps)
  define objs' where "objs' = (if ob > (if objs = [] then 0 else last objs) then objs @ [ob] else objs)"
  obtain qs' os' where r: "compress objs' ps = (qs', os')" by (cases "compress objs' ps")
  have out: "qs = (of_nat (length objs'), sp) # qs'" "os = os'"
    using 2(2) r by (simp_all add: Let_def objs'_def [symmetric])
  have ob0: "0 < ob" using 2(7) by (simp add: word_gt_0)
  have o: "objs' \<noteq> []" "last objs' = ob"
    using ob0 2(8) by (auto simp: objs'_def not_less split: if_splits)
  have le: "x \<le> last objs" if "x \<in> set objs" for x
    using 2(3) that by (cases objs rule: rev_cases) (auto simp: sorted_wrt_append)
  have srt: "sorted_wrt (<) objs'" "0 \<notin> set objs'"
    using 2(3,4) ob0 le by (auto simp: objs'_def sorted_wrt_append intro: order_le_less_trans split: if_splits)
  have len: "length objs' + length ps < 2 ^ 64" "length objs' \<le> Suc (length objs)" using 2(5) by (auto simp: objs'_def)
  have ge: "\<forall>p\<in>set ps. last objs' \<le> fst p" using 2(6) o(2) by (auto simp: pair_lt_def)
  from 2(1) [OF objs'_def r srt len(1)] 2(6,7) ge obtain ext where IH: "os' = objs' @ ext" "sorted_wrt (<) os'" "0 \<notin> set os'"
    "list_all2 (numbered os') ps qs'" "qs' \<noteq> [] \<longrightarrow> unat (fst (last qs')) = length os'" "length os' \<le> length objs' + length ps"
    "ps \<noteq> [] \<longrightarrow> last os' = fst (last ps)" by auto
  have u: "unat (of_nat (length objs') :: u64) = length objs'" using len(1) by (intro unat_of_nat_u64) simp
  have "os' ! (length objs' - 1) = ob" using IH(1) o by (simp add: nth_append last_conv_nth)
  then have "numbered os' (ob, sp) (of_nat (length objs'), sp)" using u o(1) IH(1) by (simp add: numbered_def)
  moreover have "\<exists>ext. os' = objs @ ext" using IH(1) by (auto simp: objs'_def split: if_splits)
  moreover have "unat (fst (last qs)) = length os'"
  proof (cases "qs' = []")
    case True
    then have "ps = []" using IH(4) by simp
    then have "os' = objs'" using r by simp
    then show ?thesis using True u out by simp
  qed (use IH(5) out in simp)
  moreover have "last os' = fst (last ((ob, sp) # ps))"
  proof (cases "ps = []")
    case True
    then show ?thesis using r o(2) by simp
  qed (use IH(7) in simp)
  ultimately show ?case using IH(2,3,4,6) len(2) out by auto
qed auto

lemma numbered_sorted:
  assumes "list_all2 (numbered os) ps qs" "sorted_wrt (<) os" "sorted_wrt pair_lt ps"
  shows "sorted_wrt pair_lt qs"
proof -
  have "pair_lt (qs ! i) (qs ! j)" if ij: "i < j" "j < length qs" for i j
  proof -
    have n: "numbered os (ps ! i) (qs ! i)" "numbered os (ps ! j) (qs ! j)" "length ps = length qs"
      using assms(1) ij by (simp_all add: list_all2_conv_all_nth)
    have lt: "pair_lt (ps ! i) (ps ! j)" using assms(3) ij n(3) by (simp add: sorted_wrt_nth_less)
    let ?a = "unat (fst (qs ! i)) - 1" and ?b = "unat (fst (qs ! j)) - 1"
    have b: "?a < length os" "?b < length os" using n by (auto simp: numbered_def)
    have pos: "0 < unat (fst (qs ! i))" "0 < unat (fst (qs ! j))" and sn: "snd (qs ! i) = snd (ps ! i)" "snd (qs ! j) = snd (ps ! j)"
      and at: "os ! ?a = fst (ps ! i)" "os ! ?b = fst (ps ! j)" using n by (simp_all add: numbered_def)
    show ?thesis
    proof (cases "?a" "?b" rule: linorder_cases)
      case less
      then have "unat (fst (qs ! i)) < unat (fst (qs ! j))" using pos by linarith
      then show ?thesis by (simp add: pair_lt_def word_less_nat_alt)
    next
      case equal
      then have "unat (fst (qs ! i)) = unat (fst (qs ! j))" using pos by linarith
      then have "fst (qs ! i) = fst (qs ! j)" by (simp add: word_unat_eq_iff)
      then show ?thesis using lt at equal sn by (simp add: pair_lt_def)
    next
      case greater
      then have "fst (ps ! j) < fst (ps ! i)" using sorted_wrt_nth_less [OF assms(2), of ?b ?a] b at by simp
      then show ?thesis using lt by (auto simp: pair_lt_def)
    qed
  qed
  then show ?thesis by (simp add: sorted_wrt_iff_nth_less)
qed

section \<open>The object index\<close>

text \<open>
  An adjacency list of pairs of an object, perhaps by its number, and a position: it stands for
  the triples of these pairs.
\<close>

definition position_triple :: "MonotonicLogArray option \<Rightarrow> u64 list list \<Rightarrow> u64 \<Rightarrow> u64 \<Rightarrow> IdTriple" where
  "position_triple subjects ss ob sp =
    IdTriple (subject_at subjects (seg_of ss (unat sp - 1))) (concat ss ! (unat sp - 1)) ob"

lemma pair_segs_sorted:
  assumes inv: "alb_inv b w ps pss" and srt: "sorted_wrt pair_lt ps" and len: "length pss < 2 ^ 64"
  shows "\<forall>s\<in>set pss. sorted_wrt (<) s"
proof
  fix s assume "s \<in> set pss"
  then obtain i where i: "i < length pss" "s = pss ! i" by (auto simp: in_set_conv_nth)
  have u: "unat (of_nat (Suc i) :: u64) = Suc i" using i(1) len by (intro unat_of_nat_u64) simp
  then have s: "s = rights ps (of_nat (Suc i))"
    using alb_inv_segment [OF inv, of "of_nat (Suc i)"] i len by simp
  have "sorted_wrt pair_lt (filter (\<lambda>p. fst p = l) ps)" for l using srt by (rule sorted_wrt_filter)
  then have "sorted_wrt (<) (map snd (filter (\<lambda>p. fst p = l) ps))" for l
    unfolding sorted_wrt_map by (rule sorted_wrt_mono_rel [rotated]) (auto simp: pair_lt_def)
  then show "sorted_wrt (<) s" unfolding s rights_def Let_def by simp
qed

lemma obj_rows_pairs:
  assumes wf: "oidx_wf subjects objects ops sp pss ss"
  shows "obj_rows_from subjects objects pss ss 0 =
    map (\<lambda>(l, p). position_triple subjects ss (subject_at objects (unat l - 1)) p)
      (filter (\<lambda>p. snd p \<noteq> 0) (pairs_from 1 pss))"
proof -
  note D = oidx_wfD [OF wf]
  have u: "unat (1 + of_nat (seg_of pss q) :: u64) = Suc (seg_of pss q)" if "q < length (concat pss)" for q
    using seg_of_less [OF D(7) that] D(12) unat_of_nat_u64 [of "Suc (seg_of pss q)"] by simp
  have "pairs_from 1 pss = map (\<lambda>q. (1 + of_nat (seg_of pss q), concat pss ! q)) [0..<length (concat pss)]"
    by (rule nth_equalityI) (simp_all add: nth_pairs_from [OF D(7)])
  then show ?thesis
    by (auto simp: obj_rows_from_def filter_map o_def obj_row_def position_triple_def u Let_def intro!: map_cong)
qed

lemma object_index_rows:
  assumes al: "al_wf ops pss" "al_wf sp ss" and inv: "alb_inv b w ps pss" and srt: "sorted_wrt pair_lt ps"
    and subs: "subjects_wf subjects (length ss)" "\<forall>s\<in>set ss. sorted_wrt (<) s" "subjects_wf objects (length pss)"
    and pos: "\<forall>p\<in>set ps. unat (snd p) \<le> length (concat ss)"
  shows "oidx_of subjects objects ops sp
    (map (\<lambda>(l, p). position_triple subjects ss (subject_at objects (unat l - 1)) p) ps)"
proof -
  have ps: "filter (\<lambda>p. snd p \<noteq> 0) (pairs_from 1 pss) = ps" using inv by (simp add: alb_inv_def)
  have len: "length pss < 2 ^ 32" using al_wfD(8,9) [OF al(1)] by simp
  have "unat n \<le> length (concat ss)" if n: "n \<in> set (concat pss)" for n
  proof (cases "n = 0")
    case False
    from n obtain x where "x \<in> set pss" "n \<in> set x" by auto
    then obtain j where "j < length pss" "n \<in> set (pss ! j)" by (metis in_set_conv_nth)
    then have "(of_nat (Suc j), n) \<in> set (pairs_from 1 pss)" using mem_pairs_from [OF len] by blast
    then have "(of_nat (Suc j), n) \<in> set ps" using False by (simp add: ps [symmetric])
    then show ?thesis using pos by auto
  qed simp
  then have "oidx_wf subjects objects ops sp pss ss"
    using al subs pair_segs_sorted [OF inv srt] len by (simp add: oidx_wf_def)
  from this obj_rows_pairs [OF this] show ?thesis unfolding oidx_of_def ps by metis
qed

lemma idx_positions:
  assumes wf: "tidx_wf subjects sp spo ss oss" and full: "full_pairs ss oss"
  shows "set (idx_triples subjects ss oss) =
    (\<lambda>(p, ob). position_triple subjects ss ob p) ` set (filter (\<lambda>p. snd p \<noteq> 0) (pairs_from 1 oss))"
proof -
  note D = tidx_wfD [OF wf]
  have lo: "length oss < 2 ^ 32" using D(3,13) by simp
  have pt: "position_triple subjects ss ob (of_nat (Suc j)) = IdTriple (subject_at subjects (seg_of ss j)) (concat ss ! j) ob"
    if "j < length oss" for j ob
    using unat_of_nat_u64 [of "Suc j"] that lo by (simp add: position_triple_def del: of_nat_Suc)
  have "set (idx_triples subjects ss oss) = {position_triple subjects ss ob (of_nat (Suc j)) | j ob.
      j < length oss \<and> concat ss ! j \<noteq> 0 \<and> ob \<in> set (oss ! j)}"
    using rows_blocks [OF wf full, of 0]
    by (auto simp: offset_of_def block_def pt simp del: of_nat_Suc split: if_splits)
      (metis (no_types, lifting) image_eqI pt)
  also have "\<dots> = {position_triple subjects ss ob (of_nat (Suc j)) | j ob. j < length oss \<and> ob \<in> set (oss ! j) \<and> ob \<noteq> 0}"
    using full D(6) unfolding full_pairs_def by (metis (no_types, lifting) empty_iff empty_set set_ConsD)
  also have "\<dots> = (\<lambda>(p, ob). position_triple subjects ss ob p) ` set (filter (\<lambda>p. snd p \<noteq> 0) (pairs_from 1 oss))"
    using mem_pairs_from [OF lo] by (auto simp: image_iff simp del: of_nat_Suc) blast+
  finally show ?thesis .
qed

lemma stream_pairs_facts:
  assumes wf: "tidx_wf subjects sp spo ss oss" and cl: "length (concat ss) < 2 ^ 21"
  defines "P \<equiv> filter (\<lambda>p. snd p \<noteq> 0) (pairs_from 1 oss)"
  shows "distinct P" "length P \<le> length (concat oss)"
    "\<And>p. p \<in> set P \<Longrightarrow> fst p \<noteq> 0 \<and> snd p \<noteq> 0 \<and> snd p \<in> set (concat oss) \<and> unat (fst p) \<le> length (concat ss)"
    "P \<noteq> [] \<Longrightarrow> p \<in> set P \<Longrightarrow> fst p \<le> fst (last P)"
proof -
  note D = tidx_wfD [OF wf]
  have lo: "length oss < 2 ^ 32" using D(3,13) by simp
  have srt: "sorted_wrt pair_lt P" unfolding P_def by (intro sorted_wrt_filter pairs_from_sorted D(9,5) lo)
  have "P ! i \<noteq> P ! j" if "i < j" "j < length P" for i j
    using sorted_wrt_nth_less [OF srt that] by (auto simp: pair_lt_def)
  then show "distinct P" unfolding distinct_conv_nth by (metis linorder_neqE_nat)
  show "length P \<le> length (concat oss)" unfolding P_def by (metis length_filter_le length_pairs_from)
  show "fst p \<noteq> 0 \<and> snd p \<noteq> 0 \<and> snd p \<in> set (concat oss) \<and> unat (fst p) \<le> length (concat ss)" if "p \<in> set P" for p
  proof -
    obtain l r where p: "p = (l, r)" by (cases p)
    with that have "(l, r) \<in> set (pairs_from 1 oss)" and r: "r \<noteq> 0" by (auto simp: P_def)
    then obtain j where j: "j < length oss" "l = of_nat (Suc j)" "r \<in> set (oss ! j)" using mem_pairs_from [OF lo] by blast
    moreover from this have "unat l = Suc j" using lo unat_of_nat_u64 [of "Suc j"] by (simp del: of_nat_Suc)
    ultimately show ?thesis using p r D(3) nth_mem [OF j(1)] by auto
  qed
  show "fst p \<le> fst (last P)" if "P \<noteq> []" "p \<in> set P"
    using srt that by (cases P rule: rev_cases) (auto simp: sorted_wrt_append pair_lt_def)
qed

context build_env
begin

lemma pushed_files:
  assumes ps: "pairs_ok (unat w) ps" "0 < unat w \<or> ps = []" "unat w \<le> 64"
  obtains b o_ps ops where "AdjacencyListBuilder_push_all (AdjacencyListBuilder_new [] [] w) (map Inr ps) = Some (Inr b)"
    "AdjacencyListBuilder_finalize (env_order e) (env_blocks e) (env_chunks e) b = Some (Inr o_ps)"
    "load_adjacency_list e o_ps = Some ops" "al_wf ops (pair_segs ps)" "alb_inv b (unat w) ps (pair_segs ps)"
    "length (pair_segs ps) = (if ps = [] then 0 else unat (fst (last ps)))"
  by (rule AdjacencyList_built [OF big_endian_axioms env_parts(1,2,3) ps(2,3,1), where dbg = "env_debug e"])
    (rule that, auto simp: load_adjacency_list_def)

lemma object_index_built:
  assumes wf: "tidx_wf subjects sp spo ss oss" "full_pairs ss oss" and cl: "length (concat ss) < 2 ^ 21"
    and obs: "\<forall>ob\<in>set (concat oss). unat ob < 2 ^ 21" and lo: "length (concat oss) < 2 ^ 30"
    and st: "adjacency_list_stream_pairs (env_order e) (env_blocks e) (env_entries e) (fst (snd sp_o)) (fst sp_o) =
      Some (Inr (map Inr (filter (\<lambda>p. snd p \<noteq> 0) (pairs_from 1 oss))))"
  obtains o_ps f ops objects rows where "build_object_index e sp_o sparse = Some (Inr (o_ps, f))"
    "load_adjacency_list e o_ps = Some ops" "f = None \<longleftrightarrow> \<not> sparse"
    "(case f of None \<Rightarrow> Some None | Some f \<Rightarrow> map_option Some (load_monotonic e f)) = Some objects"
    "oidx_of subjects objects ops sp rows" "set rows = set (idx_triples subjects ss oss)"
proof -
  define P where "P = filter (\<lambda>p. snd p \<noteq> 0) (pairs_from 1 oss)"
  define g where "g = (if P = [] then 0 else fst (last P))"
  define Q where "Q = env_sort e (map prod.swap P)"
  define w where "w = calculate_width (env_log2 e) g"
  note F = stream_pairs_facts [OF wf(1) cl, folded P_def]
  note D = tidx_wfD [OF wf(1)]
  have dist: "distinct (map prod.swap P)" using F(1) by (simp add: distinct_map)
  note S = sort_strict [OF env_parts(5) dist, folded Q_def]
  have lQ: "length Q < 2 ^ 30" using S(3) F(2) lo by simp
  have Qm: "fst q \<noteq> 0" "snd q \<noteq> 0" "unat (fst q) < 2 ^ 21" "unat (snd q) \<le> length (concat ss)" "snd q \<le> g" if "q \<in> set Q" for q
  proof -
    from that S(2) obtain p where p: "p \<in> set P" "q = prod.swap p" by auto
    then have "P \<noteq> []" by auto
    then show "fst q \<noteq> 0" "snd q \<noteq> 0" "unat (fst q) < 2 ^ 21" "unat (snd q) \<le> length (concat ss)" "snd q \<le> g"
      using F(3) [OF p(1)] F(4) [OF _ p(1)] p(2) obs by (auto simp: g_def)
  qed
  have g21: "unat g < 2 ^ 21"
    using F(3) [of "last P"] last_in_set [of P] cl by (cases "P = []") (auto simp: g_def)
  note W = calculate_width_fits [OF env_parts(4) g21, folded w_def]
  have w: "unat w \<le> 64" "\<And>q. q \<in> set Q \<Longrightarrow> unat (snd q) < 2 ^ unat w" "0 < unat w \<or> Q = []"
    using W Qm(5) Qm(2) by (simp_all, metis W(3) hd_in_set word_le_0_iff Qm(2,5))
  obtain nums bits blocks sblocks where files: "sp_o = (nums, bits, blocks, sblocks)" by (cases sp_o) auto
  have start: "build_object_index e sp_o sparse =
    (if sparse
     then try_bind (push_sparse (AdjacencyListBuilder_new [] [] w) [] 0 0 Q) (\<lambda>(builder, objects, last_object).
          try_bind (write_logarray e (calculate_width (env_log2 e) last_object) objects) (\<lambda>f.
          try_bind (AdjacencyListBuilder_finalize (env_order e) (env_blocks e) (env_chunks e) builder) (\<lambda>o_ps.
          Some (Inr (o_ps, Some f)))))
     else try_bind (AdjacencyListBuilder_push_all (AdjacencyListBuilder_new [] [] w) (map Inr Q)) (\<lambda>builder.
          try_bind (AdjacencyListBuilder_finalize (env_order e) (env_blocks e) (env_chunks e) builder) (\<lambda>o_ps.
          Some (Inr (o_ps, None)))))"
    using st by (simp add: build_object_index_def files gather_pairs_eq P_def [symmetric] g_def [symmetric]
        Q_def [symmetric] w_def [symmetric] Let_def)
  have idx: "set (idx_triples subjects ss oss) = (\<lambda>(ob, p). position_triple subjects ss ob p) ` set Q"
    using idx_positions [OF wf, folded P_def] S(2) by (auto simp: image_image split_beta prod.swap_def)
  have pos: "\<forall>q\<in>set Q. unat (snd q) \<le> length (concat ss)" using Qm(4) by blast
  show ?thesis
  proof (cases sparse)
    case False
    have "pairs_ok (unat w) Q"
      unfolding pairs_ok_def
    proof (intro conjI S(1) ballI)
      fix q assume "q \<in> set Q"
      note q = Qm [OF this] w(2) [OF this]
      show "fst q \<noteq> 0" "snd q \<noteq> 0" "unat (snd q) < 2 ^ unat w" "length Q + unat (fst q) + 1 < 2 ^ 32"
        using q(1,2,3,6) lQ by simp_all
    qed
    from pushed_files [OF this w(3,1)] obtain b o_ps ops where
      b: "AdjacencyListBuilder_push_all (AdjacencyListBuilder_new [] [] w) (map Inr Q) = Some (Inr b)"
        "AdjacencyListBuilder_finalize (env_order e) (env_blocks e) (env_chunks e) b = Some (Inr o_ps)"
        "load_adjacency_list e o_ps = Some ops" "al_wf ops (pair_segs Q)" "alb_inv b (unat w) Q (pair_segs Q)" .
    have "oidx_of subjects None ops sp (map (\<lambda>(l, p). position_triple subjects ss (subject_at None (unat l - 1)) p) Q)"
      by (rule object_index_rows [OF b(4) D(1) b(5) S(1) D(7,4) _ pos]) (simp add: subjects_wf_def)
    moreover have "subject_at None (unat l - 1) = l" if "(l, p) \<in> set Q" for l p
      using subject_for_at [of None None undefined l] Qm(1) [OF that] by (simp add: subject_for_def unat_gt_0)
    then have "map (\<lambda>(l, p). position_triple subjects ss (subject_at None (unat l - 1)) p) Q =
        map (\<lambda>(ob, p). position_triple subjects ss ob p) Q" by (auto intro!: map_cong)
    ultimately have "oidx_of subjects None ops sp (map (\<lambda>(ob, p). position_triple subjects ss ob p) Q)" by (simp only:)
    then show ?thesis
      using that [of o_ps None ops None "map (\<lambda>(ob, p). position_triple subjects ss ob p) Q"] start False b idx by simp
  next
    case True
    obtain R os where co: "compress [] Q = (R, os)" by (cases "compress [] Q")
    have C: "sorted_wrt (<) os" "0 \<notin> set os" "list_all2 (numbered os) Q R" "R \<noteq> [] \<longrightarrow> unat (fst (last R)) = length os"
        "length os \<le> length Q" "Q \<noteq> [] \<longrightarrow> last os = fst (last Q)"
      using compress_numbered [OF co] S(1) Qm(1) lQ by auto
    have RQ: "length R = length Q" "\<And>i. i < length Q \<Longrightarrow> numbered os (Q ! i) (R ! i)"
      using C(3) by (simp_all add: list_all2_conv_all_nth)
    have Rm: "\<exists>q\<in>set Q. numbered os q r" if "r \<in> set R" for r
      using that RQ by (metis in_set_conv_nth)
    have srt: "sorted_wrt pair_lt R" by (rule numbered_sorted [OF C(3,1) S(1)])
    have "pairs_ok (unat w) R"
      unfolding pairs_ok_def
    proof (intro conjI srt ballI)
      fix r assume "r \<in> set R"
      from Rm [OF this] obtain q where q: "q \<in> set Q" "numbered os q r" by blast
      then show "fst r \<noteq> 0" "snd r \<noteq> 0" "unat (snd r) < 2 ^ unat w" "length R + unat (fst r) + 1 < 2 ^ 32"
        using Qm(2) [OF q(1)] w(2) [OF q(1)] RQ(1) C(5) lQ by (auto simp: numbered_def)
    qed
    moreover have "0 < unat w \<or> R = []" using w(3) RQ(1) by auto
    ultimately obtain b o_ps ops where
      b: "AdjacencyListBuilder_push_all (AdjacencyListBuilder_new [] [] w) (map Inr R) = Some (Inr b)"
        "AdjacencyListBuilder_finalize (env_order e) (env_blocks e) (env_chunks e) b = Some (Inr o_ps)"
        "load_adjacency_list e o_ps = Some ops" "al_wf ops (pair_segs R)" "alb_inv b (unat w) R (pair_segs R)"
        "length (pair_segs R) = (if R = [] then 0 else unat (fst (last R)))"
      using pushed_files [OF _ _ w(1)] by metis
    have los: "length (pair_segs R) = length os"
    proof (cases "R = []")
      case True
      then have "Q = []" using RQ(1) by simp
      then show ?thesis using b(6) True co by simp
    qed (use b(6) C(4) in simp)
    have "unat (last os) < 2 ^ 21" if "os \<noteq> []"
    proof -
      have "Q \<noteq> []" using that co by auto
      then show ?thesis using C(6) Qm(3) by simp
    qed
    moreover have "length os < 2 ^ 32" using C(5) lQ by simp
    ultimately obtain f m where f: "write_logarray e (calculate_width (env_log2 e) (if os = [] then 0 else last os)) os = Some (Inr f)"
      "load_monotonic e f = Some m" "subjects_wf (Some m) (length os)" "la_elems (mla_array m) = os"
      using sorted_list_written [OF C(1,2)] by metis
    have "oidx_of subjects (Some m) ops sp
        (map (\<lambda>(l, p). position_triple subjects ss (subject_at (Some m) (unat l - 1)) p) R)"
    proof (rule object_index_rows [OF b(4) D(1) b(5) srt D(7,4)])
      show "subjects_wf (Some m) (length (pair_segs R))" using f(3) los by simp
      show "\<forall>r\<in>set R. unat (snd r) \<le> length (concat ss)" using Rm Qm(4) by (fastforce simp: numbered_def)
    qed
    moreover have "map (\<lambda>(l, p). position_triple subjects ss (subject_at (Some m) (unat l - 1)) p) R =
        map (\<lambda>(ob, p). position_triple subjects ss ob p) Q"
      by (rule nth_equalityI) (use RQ f(4) in \<open>auto simp: numbered_def subject_at_def split_beta\<close>)
    ultimately have "oidx_of subjects (Some m) ops sp (map (\<lambda>(ob, p). position_triple subjects ss ob p) Q)" by (simp only:)
    moreover have "build_object_index e sp_o sparse = Some (Inr (o_ps, Some f))"
      using start True push_sparse_eq [of "[]" Q] co b(1,2) f(1) lQ by (simp add: Let_def)
    ultimately show ?thesis
      using that [of o_ps "Some f" ops "Some m" "map (\<lambda>(ob, p). position_triple subjects ss ob p) Q"] True b(3) f(2) idx by simp
  qed
qed


section \<open>All indexes of a list of triples\<close>

lemma predicate_index_built:
  assumes nums: "LogArray_parse (env_order e) (fst s_p) = Some (Inr (al_nums sp))" and al: "al_wf sp ss"
    and w: "concat ss = [] \<or> 0 < unat (la_width (al_nums sp))" "unat (la_width (al_nums sp)) \<le> 21"
    and v: "\<forall>v\<in>set (concat ss). unat v < 2 ^ unat (la_width (al_nums sp))" and cl: "length (concat ss) < 2 ^ 21"
  obtains wav tree where "build_predicate_index e (fst s_p) = Some (Inr wav)"
    "load_wavelet_tree e wav (la_width (al_nums sp)) = Some tree" "wt_wf tree (map unat (concat ss))"
proof -
  note A = al_wfD [OF al]
  have "unat (la_width (al_nums sp)) * length (concat ss) \<le> 21 * 2 ^ 21" using w cl by (intro mult_le_mono) simp_all
  then have big: "unat (la_width (al_nums sp)) * length (concat ss) + 63 < 2 ^ 38" by simp
  obtain bits blocks sblocks i t where
    "build_wavelet_tree_from_iter (env_order e) (env_blocks e) (env_chunks e) (la_width (al_nums sp)) (concat ss) =
      Some (Inr (bits, blocks, sblocks))"
    "BitIndex_from_maps (env_order e) bits blocks sblocks = Some i" "WaveletTree_from_parts i (la_width (al_nums sp)) = Some t"
    "wt_wf t (map unat (concat ss))"
    by (rule build_wavelet_tree_ok [OF env_parts(1,3) w(1) _ v big]) (use w in simp_all)
  then show ?thesis
    using that [of "(bits, blocks, sblocks)" t] build_wavelet_tree_from_logarray_eq [OF nums A(1)] A(4)
    by (simp add: build_predicate_index_def load_wavelet_tree_def)
qed

lemma width_of_nat:
  assumes "n < 2 ^ 21"
  shows "unat (calculate_width (env_log2 e) (of_nat n)) \<le> 21"
    "0 < n \<Longrightarrow> 0 < unat (calculate_width (env_log2 e) (of_nat n))"
    "unat (v :: u64) \<le> n \<Longrightarrow> unat v < 2 ^ unat (calculate_width (env_log2 e) (of_nat n))"
proof -
  have u: "unat (of_nat n :: u64) = n" using assms by (intro unat_of_nat_u64) simp
  then have "unat (of_nat n :: u64) < 2 ^ 21" using assms by simp
  note W = calculate_width_fits [OF env_parts(4) this]
  show "unat (calculate_width (env_log2 e) (of_nat n)) \<le> 21" by (rule W(2))
  show "0 < unat (calculate_width (env_log2 e) (of_nat n))" if "0 < n"
    by (rule W(3)) (metis that less_not_refl u unat_0)
  show "unat v < 2 ^ unat (calculate_width (env_log2 e) (of_nat n))" if "unat v \<le> n"
    by (rule W(1)) (use that u in \<open>simp add: word_le_nat_alt\<close>)
qed

lemma tfb_inv_bounds:
  assumes "tfb_inv b w1 w2 ss oss ts" "length (concat ss) < 2 ^ 21" "w2 \<le> 21" "ts \<noteq> [] \<Longrightarrow> 2 * length ts < 2 ^ 21"
  shows "\<forall>v\<in>set (concat ss). unat v < 2 ^ w1" "\<forall>v\<in>set (concat oss). unat v < 2 ^ 21" "length (concat oss) < 2 ^ 30"
proof -
  from assms(1) obtain sps ops where A: "alb_inv (tfb_s_p_adjacency_list_builder b) w1 sps ss"
      "alb_inv (tfb_sp_o_adjacency_list_builder b) w2 ops oss" "length ops = length ts"
    and R: "rows_inv (tfb_subjects b) ss oss ts" by (auto simp: tfb_inv_def)
  show "\<forall>v\<in>set (concat ss). unat v < 2 ^ w1" using A(1) by (simp add: alb_inv_def)
  have "(2 :: nat) ^ w2 \<le> 2 ^ 21" using assms(3) by (intro power_increasing) simp_all
  then show "\<forall>v\<in>set (concat oss). unat v < 2 ^ 21" using A(2) unfolding alb_inv_def by (meson order_less_le_trans)
  have "length oss = length (concat ss)" using R by (auto simp: rows_inv_def dest: list_all2_lengthD)
  moreover have "length (concat oss) \<le> length ops + length oss" using A(2) by (simp add: alb_inv_def)
  ultimately show "length (concat oss) < 2 ^ 30" using A(3) assms(2,4) by (cases "ts = []") simp_all
qed

theorem triples_built:
  assumes ok: "ids_ok (num_nodes + num_values) num_predicates ts"
  obtains b s_p sp_o f o_ps g wav sp spo ops tree subjects objects rows where
    "TripleFileBuilder_add_id_triples (TripleFileBuilder_new e num_nodes num_predicates num_values sparse) ts = Some (Inr b)"
    "TripleFileBuilder_finalize e b = Some (Inr (s_p, sp_o, f))"
    "build_indexes e s_p sp_o sparse = Some (Inr (o_ps, g, wav))"
    "load_adjacency_list e s_p = Some sp" "load_adjacency_list e sp_o = Some spo" "load_adjacency_list e o_ps = Some ops"
    "load_wavelet_tree e wav (la_width (al_nums sp)) = Some tree"
    "(case f of None \<Rightarrow> Some None | Some f \<Rightarrow> map_option Some (load_monotonic e f)) = Some subjects"
    "(case g of None \<Rightarrow> Some None | Some g \<Rightarrow> map_option Some (load_monotonic e g)) = Some objects"
    "f = None \<longleftrightarrow> \<not> sparse" "g = None \<longleftrightarrow> \<not> sparse"
    "pidx_of subjects sp spo tree ts" "oidx_of subjects objects ops sp rows" "set rows = set ts"
proof -
  let ?w1 = "unat (calculate_width (env_log2 e) (of_nat num_predicates))"
    and ?w2 = "unat (calculate_width (env_log2 e) (of_nat (num_nodes + num_values)))"
  let ?new = "TripleFileBuilder_new e num_nodes num_predicates num_values sparse"
  from ok have srt: "sorted_wrt (<) ts" and np: "num_predicates < 2 ^ 21"
    and nv: "num_nodes + num_values < 2 ^ 21" by (simp_all add: ids_ok_def)
  note W1 = width_of_nat [OF np] and W2 = width_of_nat [OF nv]
  have "0 < num_predicates \<and> 0 < num_nodes + num_values" if "ts \<noteq> []"
    using ok that last_in_set [of ts] unfolding ids_ok_def by (metis le_zero_eq neq0_conv unat_eq_zero)
  then have w: "0 < ?w1 \<or> ts = []" "0 < ?w2 \<or> ts = []" using W1(2) W2(2) by blast+
  have tok: "triples_ok ?w1 ?w2 ts" and sz: "triples_size ts"
    using ok W1(3) W2(3) by (auto simp: triples_ok_def triple_ok_def triples_size_def ids_ok_def)
  have "alb_inv (tfb_s_p_adjacency_list_builder ?new) ?w1 [] []" "alb_inv (tfb_sp_o_adjacency_list_builder ?new) ?w2 [] []"
    using W1(1) W2(1) by (simp_all add: TripleFileBuilder_new_def alb_inv_new)
  moreover have "tfb_subjects ?new = None \<or> tfb_subjects ?new = Some []" "tfb_last_subject ?new = 0"
    "tfb_subjects ?new = None \<longleftrightarrow> \<not> sparse" by (simp_all add: TripleFileBuilder_new_def)
  ultimately obtain b ss oss where
    b: "TripleFileBuilder_add_id_triples ?new ts = Some (Inr b)" "tfb_inv b ?w1 ?w2 ss oss ts"
      "tfb_subjects b = None \<longleftrightarrow> \<not> sparse"
    using add_id_triples_ok [OF _ _ _ _ tok] by metis
  obtain s_p sp_o f sp spo subjects where F: "TripleFileBuilder_finalize e b = Some (Inr (s_p, sp_o, f))"
    "load_adjacency_list e s_p = Some sp" "load_adjacency_list e sp_o = Some spo"
    "(case f of None \<Rightarrow> Some None | Some f \<Rightarrow> map_option Some (load_monotonic e f)) = Some subjects"
    "f = None \<longleftrightarrow> tfb_subjects b = None"
    "tidx_wf subjects sp spo ss oss" "full_pairs ss oss" "idx_triples subjects ss oss = ts"
    "adjacency_list_stream_pairs (env_order e) (env_blocks e) (env_entries e) (fst (snd sp_o)) (fst sp_o) =
      Some (Inr (map Inr (filter (\<lambda>p. snd p \<noteq> 0) (pairs_from 1 oss))))"
    "LogArray_parse (env_order e) (fst s_p) = Some (Inr (al_nums sp))" "unat (la_width (al_nums sp)) = ?w1"
    "length (concat ss) < 2 ^ 21"
    by (rule finalize_triples [OF b(2) w sz])
  have "2 * length ts < 2 ^ 21" if "ts \<noteq> []" using sz that by (cases ts) (auto simp: triples_size_def)
  note B = tfb_inv_bounds [OF b(2) F(12) W2(1) this]
  obtain o_ps g ops objects rows where O: "build_object_index e sp_o sparse = Some (Inr (o_ps, g))"
    "load_adjacency_list e o_ps = Some ops" "g = None \<longleftrightarrow> \<not> sparse"
    "(case g of None \<Rightarrow> Some None | Some g \<Rightarrow> map_option Some (load_monotonic e g)) = Some objects"
    "oidx_of subjects objects ops sp rows" "set rows = set (idx_triples subjects ss oss)"
    by (rule object_index_built [OF F(6,7,12) B(2,3) F(9)])
  have ss0: "ss = []" if "ts = []" using b(2) that by (simp add: tfb_inv_def)
  obtain wav tree where P: "build_predicate_index e (fst s_p) = Some (Inr wav)"
    "load_wavelet_tree e wav (la_width (al_nums sp)) = Some tree" "wt_wf tree (map unat (concat ss))"
    by (rule predicate_index_built [OF F(10) tidx_wfD(1) [OF F(6)]]) (use F(11,12) W1(1) w(1) B(1) ss0 in auto)
  have "pidx_of subjects sp spo tree ts" using F(6,7,8) P(3) by (auto simp: pidx_of_def)
  moreover have "build_indexes e s_p sp_o sparse = Some (Inr (o_ps, g, wav))"
    using O(1) P(1) by (simp add: build_indexes_def spawned_def)
  ultimately show ?thesis using that b(1,3) F(1-5,8) O(2-6) P(2) by metis
qed

end

end
