(* ===== verification/LayerBuilder.thy ===== *)
theory LayerBuilder
  imports TripleBuilder
begin

text \<open>
  Building and loading layers: the file builders, the loading and the triple streams of
  \<open>src/layer/internal/base.rs\<close> and \<open>src/layer/internal/child.rs\<close>, with the records of
  mapped files of \<open>src/storage/file.rs\<close>. A builder keeps the files it writes; finalizing
  returns them, in the record that loading takes. The first phase takes the strings of the
  dictionaries, the second the triples.
\<close>

section \<open>Model\<close>

subsection \<open>The mapped files of a layer\<close>

type_synonym bitindex_maps = "bytes \<times> bytes \<times> bytes"

record BaseLayerMaps =
  bm_node_dictionary_maps :: dict_files
  bm_predicate_dictionary_maps :: dict_files
  bm_value_dictionary_maps :: dict_files
  bm_node_value_idmap_maps :: "bitindex_maps option"
  bm_predicate_idmap_maps :: "bitindex_maps option"
  bm_subjects_map :: "bytes option"
  bm_objects_map :: "bytes option"
  bm_s_p_adjacency_list_maps :: al_files
  bm_sp_o_adjacency_list_maps :: al_files
  bm_o_ps_adjacency_list_maps :: al_files
  bm_predicate_wavelet_tree_maps :: bitindex_maps

record ChildLayerMaps =
  cm_node_dictionary_maps :: dict_files
  cm_predicate_dictionary_maps :: dict_files
  cm_value_dictionary_maps :: dict_files
  cm_node_value_idmap_maps :: "bitindex_maps option"
  cm_predicate_idmap_maps :: "bitindex_maps option"
  cm_pos_subjects_map :: bytes
  cm_pos_objects_map :: bytes
  cm_neg_subjects_map :: bytes
  cm_neg_objects_map :: bytes
  cm_pos_s_p_adjacency_list_maps :: al_files
  cm_pos_sp_o_adjacency_list_maps :: al_files
  cm_pos_o_ps_adjacency_list_maps :: al_files
  cm_neg_s_p_adjacency_list_maps :: al_files
  cm_neg_sp_o_adjacency_list_maps :: al_files
  cm_neg_o_ps_adjacency_list_maps :: al_files
  cm_pos_predicate_wavelet_tree_maps :: bitindex_maps
  cm_neg_predicate_wavelet_tree_maps :: bitindex_maps

subsection \<open>Loading a layer\<close>

definition load_dictionary :: "env \<Rightarrow> dict_files \<Rightarrow> PfcDict panics" where
  "load_dictionary e maps = PfcDict_parse (env_order e) (fst maps) (snd maps) \<bind> unwrap"

definition load_idmap :: "env \<Rightarrow> bitindex_maps option \<Rightarrow> usize \<Rightarrow> IdMap panics" where
  "load_idmap e maps len =
    (case maps of
       None \<Rightarrow> Some IdMap_default
     | Some maps \<Rightarrow> IdMap_from_maps (env_order e) maps (calculate_width (env_log2 e) (of_nat len)))"

definition BaseLayer_load :: "env \<Rightarrow> layer_name \<Rightarrow> BaseLayerMaps \<Rightarrow> InternalLayer panics" where
  "BaseLayer_load e name maps =
    do { node_dictionary \<leftarrow> load_dictionary e (bm_node_dictionary_maps maps);
         predicate_dictionary \<leftarrow> load_dictionary e (bm_predicate_dictionary_maps maps);
         value_dictionary \<leftarrow> load_dictionary e (bm_value_dictionary_maps maps);
         node_value_idmap \<leftarrow> load_idmap e (bm_node_value_idmap_maps maps)
           (PfcDict_len node_dictionary + PfcDict_len value_dictionary);
         predicate_idmap \<leftarrow> load_idmap e (bm_predicate_idmap_maps maps) (PfcDict_len predicate_dictionary);
         subjects \<leftarrow> omap (load_monotonic e) (bm_subjects_map maps);
         objects \<leftarrow> omap (load_monotonic e) (bm_objects_map maps);
         s_p_adjacency_list \<leftarrow> load_adjacency_list e (bm_s_p_adjacency_list_maps maps);
         sp_o_adjacency_list \<leftarrow> load_adjacency_list e (bm_sp_o_adjacency_list_maps maps);
         o_ps_adjacency_list \<leftarrow> load_adjacency_list e (bm_o_ps_adjacency_list_maps maps);
         predicate_wavelet_tree \<leftarrow> load_wavelet_tree e (bm_predicate_wavelet_tree_maps maps)
           (la_width (al_nums s_p_adjacency_list));
         Some (Base \<lparr>bl_name = name, bl_node_dictionary = node_dictionary,
           bl_predicate_dictionary = predicate_dictionary, bl_value_dictionary = value_dictionary,
           bl_node_value_idmap = node_value_idmap, bl_predicate_idmap = predicate_idmap,
           bl_subjects = subjects, bl_objects = objects, bl_s_p_adjacency_list = s_p_adjacency_list,
           bl_sp_o_adjacency_list = sp_o_adjacency_list, bl_o_ps_adjacency_list = o_ps_adjacency_list,
           bl_predicate_wavelet_tree = predicate_wavelet_tree\<rparr>) }"

definition ChildLayer_load :: "env \<Rightarrow> layer_name \<Rightarrow> InternalLayer \<Rightarrow> ChildLayerMaps \<Rightarrow> InternalLayer panics" where
  "ChildLayer_load e name parent maps =
    do { node_dictionary \<leftarrow> load_dictionary e (cm_node_dictionary_maps maps);
         predicate_dictionary \<leftarrow> load_dictionary e (cm_predicate_dictionary_maps maps);
         value_dictionary \<leftarrow> load_dictionary e (cm_value_dictionary_maps maps);
         let parent_node_value_count = InternalLayer_node_and_value_count parent;
         let parent_predicate_count = InternalLayer_predicate_count parent;
         node_value_idmap \<leftarrow> load_idmap e (cm_node_value_idmap_maps maps)
           (PfcDict_len node_dictionary + PfcDict_len value_dictionary);
         predicate_idmap \<leftarrow> load_idmap e (cm_predicate_idmap_maps maps) (PfcDict_len predicate_dictionary);
         pos_subjects \<leftarrow> load_monotonic e (cm_pos_subjects_map maps);
         pos_objects \<leftarrow> load_monotonic e (cm_pos_objects_map maps);
         neg_subjects \<leftarrow> load_monotonic e (cm_neg_subjects_map maps);
         neg_objects \<leftarrow> load_monotonic e (cm_neg_objects_map maps);
         pos_s_p \<leftarrow> load_adjacency_list e (cm_pos_s_p_adjacency_list_maps maps);
         pos_sp_o \<leftarrow> load_adjacency_list e (cm_pos_sp_o_adjacency_list_maps maps);
         pos_o_ps \<leftarrow> load_adjacency_list e (cm_pos_o_ps_adjacency_list_maps maps);
         neg_s_p \<leftarrow> load_adjacency_list e (cm_neg_s_p_adjacency_list_maps maps);
         neg_sp_o \<leftarrow> load_adjacency_list e (cm_neg_sp_o_adjacency_list_maps maps);
         neg_o_ps \<leftarrow> load_adjacency_list e (cm_neg_o_ps_adjacency_list_maps maps);
         pos_tree \<leftarrow> load_wavelet_tree e (cm_pos_predicate_wavelet_tree_maps maps) (la_width (al_nums pos_s_p));
         neg_tree \<leftarrow> load_wavelet_tree e (cm_neg_predicate_wavelet_tree_maps maps) (la_width (al_nums neg_s_p));
         Some (Child (ChildLayer name parent node_dictionary predicate_dictionary value_dictionary
           node_value_idmap predicate_idmap parent_node_value_count parent_predicate_count
           pos_subjects pos_objects pos_s_p pos_sp_o pos_o_ps
           neg_subjects neg_objects neg_s_p neg_sp_o neg_o_ps pos_tree neg_tree)) }"

subsection \<open>Building a base layer\<close>

record BaseLayerFileBuilder =
  bfb_builder :: DictionarySetFileBuilder

definition BaseLayerFileBuilder_from_files :: BaseLayerFileBuilder where
  "BaseLayerFileBuilder_from_files = \<lparr>bfb_builder = DictionarySetFileBuilder_from_files\<rparr>"

definition bfb_add ::
  "(DictionarySetFileBuilder \<Rightarrow> 'a \<Rightarrow> ('b \<times> DictionarySetFileBuilder) panics) \<Rightarrow>
    BaseLayerFileBuilder \<Rightarrow> 'a \<Rightarrow> ('b \<times> BaseLayerFileBuilder) panics" where
  "bfb_add add self x =
    do { (i, b) \<leftarrow> add (bfb_builder self) x; Some (i, self\<lparr>bfb_builder := b\<rparr>) }"

definition BaseLayerFileBuilder_add_node ::
  "BaseLayerFileBuilder \<Rightarrow> bytes \<Rightarrow> (u64 \<times> BaseLayerFileBuilder) panics" where
  "BaseLayerFileBuilder_add_node = bfb_add DictionarySetFileBuilder_add_node"

definition BaseLayerFileBuilder_add_predicate ::
  "BaseLayerFileBuilder \<Rightarrow> bytes \<Rightarrow> (u64 \<times> BaseLayerFileBuilder) panics" where
  "BaseLayerFileBuilder_add_predicate = bfb_add DictionarySetFileBuilder_add_predicate"

definition BaseLayerFileBuilder_add_value ::
  "BaseLayerFileBuilder \<Rightarrow> bytes \<Rightarrow> (u64 \<times> BaseLayerFileBuilder) panics" where
  "BaseLayerFileBuilder_add_value = bfb_add DictionarySetFileBuilder_add_value"

definition BaseLayerFileBuilder_add_nodes ::
  "BaseLayerFileBuilder \<Rightarrow> bytes list \<Rightarrow> (u64 list \<times> BaseLayerFileBuilder) panics" where
  "BaseLayerFileBuilder_add_nodes = bfb_add DictionarySetFileBuilder_add_nodes"

definition BaseLayerFileBuilder_add_predicates ::
  "BaseLayerFileBuilder \<Rightarrow> bytes list \<Rightarrow> (u64 list \<times> BaseLayerFileBuilder) panics" where
  "BaseLayerFileBuilder_add_predicates = bfb_add DictionarySetFileBuilder_add_predicates"

definition BaseLayerFileBuilder_add_values ::
  "BaseLayerFileBuilder \<Rightarrow> bytes list \<Rightarrow> (u64 list \<times> BaseLayerFileBuilder) panics" where
  "BaseLayerFileBuilder_add_values = bfb_add DictionarySetFileBuilder_add_values"

record BaseLayerFileBuilderPhase2 =
  bfb2_dictionary_files :: "dict_files \<times> dict_files \<times> dict_files"
  bfb2_builder :: TripleFileBuilder

text \<open>The dictionaries are parsed again for their lengths, with \<open>?\<close>.\<close>

definition dictionary_len :: "env \<Rightarrow> dict_files \<Rightarrow> usize io_result" where
  "dictionary_len e files =
    do { r \<leftarrow> PfcDict_parse (env_order e) (fst files) (snd files);
         Some (case r of Inl err \<Rightarrow> Inl (PfcError_to_io err) | Inr d \<Rightarrow> Inr (PfcDict_len d)) }"

definition dictionary_lens ::
  "env \<Rightarrow> dict_files \<times> dict_files \<times> dict_files \<Rightarrow> (usize \<times> usize \<times> usize) io_result" where
  "dictionary_lens e files =
    (case files of (node_files, predicate_files, value_files) \<Rightarrow>
     try_bind (dictionary_len e node_files) (\<lambda>num_nodes.
     try_bind (dictionary_len e predicate_files) (\<lambda>num_predicates.
     try_bind (dictionary_len e value_files) (\<lambda>num_values.
     Some (Inr (num_nodes, num_predicates, num_values))))))"

definition BaseLayerFileBuilderPhase2_new ::
  "env \<Rightarrow> dict_files \<times> dict_files \<times> dict_files \<Rightarrow> usize \<Rightarrow> usize \<Rightarrow> usize \<Rightarrow> BaseLayerFileBuilderPhase2" where
  "BaseLayerFileBuilderPhase2_new e files num_nodes num_predicates num_values =
    \<lparr>bfb2_dictionary_files = files,
     bfb2_builder = TripleFileBuilder_new e num_nodes num_predicates num_values False\<rparr>"

definition BaseLayerFileBuilder_into_phase2 ::
  "env \<Rightarrow> BaseLayerFileBuilder \<Rightarrow> BaseLayerFileBuilderPhase2 io_result" where
  "BaseLayerFileBuilder_into_phase2 e self =
    try_bind (DictionarySetFileBuilder_finalize e (bfb_builder self)) (\<lambda>files.
    try_bind (dictionary_lens e files) (\<lambda>(num_nodes, num_predicates, num_values).
    Some (Inr (BaseLayerFileBuilderPhase2_new e files num_nodes num_predicates num_values))))"

definition BaseLayerFileBuilderPhase2_add_triple ::
  "BaseLayerFileBuilderPhase2 \<Rightarrow> u64 \<Rightarrow> u64 \<Rightarrow> u64 \<Rightarrow> BaseLayerFileBuilderPhase2 io_result" where
  "BaseLayerFileBuilderPhase2_add_triple self subject predicate object =
    try_bind (TripleFileBuilder_add_triple (bfb2_builder self) subject predicate object) (\<lambda>b.
    Some (Inr (self\<lparr>bfb2_builder := b\<rparr>)))"

definition BaseLayerFileBuilderPhase2_add_id_triples ::
  "BaseLayerFileBuilderPhase2 \<Rightarrow> IdTriple list \<Rightarrow> BaseLayerFileBuilderPhase2 io_result" where
  "BaseLayerFileBuilderPhase2_add_id_triples self triples =
    try_bind (TripleFileBuilder_add_id_triples (bfb2_builder self) triples) (\<lambda>b.
    Some (Inr (self\<lparr>bfb2_builder := b\<rparr>)))"

definition BaseLayerFileBuilderPhase2_finalize ::
  "env \<Rightarrow> BaseLayerFileBuilderPhase2 \<Rightarrow> BaseLayerMaps io_result" where
  "BaseLayerFileBuilderPhase2_finalize e self =
    try_bind (TripleFileBuilder_finalize e (bfb2_builder self)) (\<lambda>(s_p, sp_o, subjects).
    try_bind (build_indexes e s_p sp_o False) (\<lambda>(o_ps, objects, wavelet_tree).
    case bfb2_dictionary_files self of (node_files, predicate_files, value_files) \<Rightarrow>
    Some (Inr \<lparr>bm_node_dictionary_maps = node_files, bm_predicate_dictionary_maps = predicate_files,
      bm_value_dictionary_maps = value_files, bm_node_value_idmap_maps = None, bm_predicate_idmap_maps = None,
      bm_subjects_map = subjects, bm_objects_map = objects, bm_s_p_adjacency_list_maps = s_p,
      bm_sp_o_adjacency_list_maps = sp_o, bm_o_ps_adjacency_list_maps = o_ps,
      bm_predicate_wavelet_tree_maps = wavelet_tree\<rparr>)))"

subsection \<open>Building a child layer\<close>

record ChildLayerFileBuilder =
  cfb_parent :: InternalLayer
  cfb_builder :: DictionarySetFileBuilder

definition ChildLayerFileBuilder_from_files :: "InternalLayer \<Rightarrow> ChildLayerFileBuilder" where
  "ChildLayerFileBuilder_from_files parent =
    \<lparr>cfb_parent = parent, cfb_builder = DictionarySetFileBuilder_from_files\<rparr>"

text \<open>A string that the parent knows keeps its id.\<close>

definition cfb_add ::
  "(InternalLayer \<Rightarrow> bytes \<Rightarrow> u64 option panics) \<Rightarrow>
    (DictionarySetFileBuilder \<Rightarrow> bytes \<Rightarrow> (u64 \<times> DictionarySetFileBuilder) panics) \<Rightarrow>
    ChildLayerFileBuilder \<Rightarrow> bytes \<Rightarrow> (u64 \<times> ChildLayerFileBuilder) panics" where
  "cfb_add lookup add self s =
    do { r \<leftarrow> lookup (cfb_parent self) s;
         case r of
           None \<Rightarrow> do { (i, b) \<leftarrow> add (cfb_builder self) s; Some (i, self\<lparr>cfb_builder := b\<rparr>) }
         | Some i \<Rightarrow> Some (i, self) }"

definition ChildLayerFileBuilder_add_node ::
  "env \<Rightarrow> usize \<Rightarrow> ChildLayerFileBuilder \<Rightarrow> bytes \<Rightarrow> (u64 \<times> ChildLayerFileBuilder) panics" where
  "ChildLayerFileBuilder_add_node e sz =
    cfb_add (InternalLayer_subject_id (env_order e) sz) DictionarySetFileBuilder_add_node"

definition ChildLayerFileBuilder_add_predicate ::
  "env \<Rightarrow> usize \<Rightarrow> ChildLayerFileBuilder \<Rightarrow> bytes \<Rightarrow> (u64 \<times> ChildLayerFileBuilder) panics" where
  "ChildLayerFileBuilder_add_predicate e sz =
    cfb_add (InternalLayer_predicate_id (env_order e) sz) DictionarySetFileBuilder_add_predicate"

definition ChildLayerFileBuilder_add_value ::
  "env \<Rightarrow> usize \<Rightarrow> ChildLayerFileBuilder \<Rightarrow> bytes \<Rightarrow> (u64 \<times> ChildLayerFileBuilder) panics" where
  "ChildLayerFileBuilder_add_value e sz =
    cfb_add (InternalLayer_object_value_id (env_order e) sz) DictionarySetFileBuilder_add_value"

definition ChildLayerFileBuilder_add_nodes ::
  "env \<Rightarrow> usize \<Rightarrow> ChildLayerFileBuilder \<Rightarrow> bytes list \<Rightarrow> (u64 list \<times> ChildLayerFileBuilder) panics" where
  "ChildLayerFileBuilder_add_nodes e sz = add_strings (ChildLayerFileBuilder_add_node e sz)"

definition ChildLayerFileBuilder_add_predicates ::
  "env \<Rightarrow> usize \<Rightarrow> ChildLayerFileBuilder \<Rightarrow> bytes list \<Rightarrow> (u64 list \<times> ChildLayerFileBuilder) panics" where
  "ChildLayerFileBuilder_add_predicates e sz = add_strings (ChildLayerFileBuilder_add_predicate e sz)"

definition ChildLayerFileBuilder_add_values ::
  "env \<Rightarrow> usize \<Rightarrow> ChildLayerFileBuilder \<Rightarrow> bytes list \<Rightarrow> (u64 list \<times> ChildLayerFileBuilder) panics" where
  "ChildLayerFileBuilder_add_values e sz = add_strings (ChildLayerFileBuilder_add_value e sz)"

record ChildLayerFileBuilderPhase2 =
  cfb2_parent :: InternalLayer
  cfb2_dictionary_files :: "dict_files \<times> dict_files \<times> dict_files"
  cfb2_pos_builder :: TripleFileBuilder
  cfb2_neg_builder :: TripleFileBuilder

definition ChildLayerFileBuilderPhase2_new ::
  "env \<Rightarrow> InternalLayer \<Rightarrow> dict_files \<times> dict_files \<times> dict_files \<Rightarrow> usize \<Rightarrow> usize \<Rightarrow> usize \<Rightarrow>
    ChildLayerFileBuilderPhase2" where
  "ChildLayerFileBuilderPhase2_new e parent files num_nodes num_predicates num_values =
    (let parent_counts = InternalLayer_all_counts parent;
         builder = TripleFileBuilder_new e (num_nodes + lc_node_count parent_counts)
           (num_predicates + lc_predicate_count parent_counts) (num_values + lc_value_count parent_counts) True
     in \<lparr>cfb2_parent = parent, cfb2_dictionary_files = files, cfb2_pos_builder = builder,
         cfb2_neg_builder = builder\<rparr>)"

definition ChildLayerFileBuilder_into_phase2 ::
  "env \<Rightarrow> ChildLayerFileBuilder \<Rightarrow> ChildLayerFileBuilderPhase2 io_result" where
  "ChildLayerFileBuilder_into_phase2 e self =
    try_bind (DictionarySetFileBuilder_finalize e (cfb_builder self)) (\<lambda>files.
    try_bind (dictionary_lens e files) (\<lambda>(num_nodes, num_predicates, num_values).
    Some (Inr (ChildLayerFileBuilderPhase2_new e (cfb_parent self) files num_nodes num_predicates num_values))))"

definition ChildLayerFileBuilderPhase2_add_triple_unchecked ::
  "ChildLayerFileBuilderPhase2 \<Rightarrow> u64 \<Rightarrow> u64 \<Rightarrow> u64 \<Rightarrow> ChildLayerFileBuilderPhase2 io_result" where
  "ChildLayerFileBuilderPhase2_add_triple_unchecked self subject predicate object =
    try_bind (TripleFileBuilder_add_triple (cfb2_pos_builder self) subject predicate object) (\<lambda>b.
    Some (Inr (self\<lparr>cfb2_pos_builder := b\<rparr>)))"

definition ChildLayerFileBuilderPhase2_remove_triple_unchecked ::
  "ChildLayerFileBuilderPhase2 \<Rightarrow> u64 \<Rightarrow> u64 \<Rightarrow> u64 \<Rightarrow> ChildLayerFileBuilderPhase2 io_result" where
  "ChildLayerFileBuilderPhase2_remove_triple_unchecked self subject predicate object =
    try_bind (TripleFileBuilder_add_triple (cfb2_neg_builder self) subject predicate object) (\<lambda>b.
    Some (Inr (self\<lparr>cfb2_neg_builder := b\<rparr>)))"

definition ChildLayerFileBuilderPhase2_add_triple ::
  "env \<Rightarrow> ChildLayerFileBuilderPhase2 \<Rightarrow> u64 \<Rightarrow> u64 \<Rightarrow> u64 \<Rightarrow> ChildLayerFileBuilderPhase2 io_result" where
  "ChildLayerFileBuilderPhase2_add_triple e self subject predicate object =
    do { x \<leftarrow> InternalLayer_triple_exists (env_order e) (cfb2_parent self) subject predicate object;
         if \<not> x then ChildLayerFileBuilderPhase2_add_triple_unchecked self subject predicate object
         else Some (Inr self) }"

definition ChildLayerFileBuilderPhase2_remove_triple ::
  "env \<Rightarrow> ChildLayerFileBuilderPhase2 \<Rightarrow> u64 \<Rightarrow> u64 \<Rightarrow> u64 \<Rightarrow> ChildLayerFileBuilderPhase2 io_result" where
  "ChildLayerFileBuilderPhase2_remove_triple e self subject predicate object =
    do { x \<leftarrow> InternalLayer_triple_exists (env_order e) (cfb2_parent self) subject predicate object;
         if x then ChildLayerFileBuilderPhase2_remove_triple_unchecked self subject predicate object
         else Some (Inr self) }"

text \<open>
  The filter in parallel keeps the order; a panic in it is a panic of the call. The flag tells
  which triples are kept: those the parent has, or those it does not have.
\<close>

definition filter_existing :: "env \<Rightarrow> InternalLayer \<Rightarrow> bool \<Rightarrow> IdTriple list \<Rightarrow> IdTriple list panics" where
  "filter_existing e parent existing ts =
    do { xs \<leftarrow> those (map (\<lambda>t. InternalLayer_triple_exists (env_order e) parent (it_subject t) (it_predicate t) (it_object t)) ts);
         Some (map fst (filter (\<lambda>(t, x). x = existing) (zip ts xs))) }"

fun fold_triples ::
  "('s \<Rightarrow> u64 \<Rightarrow> u64 \<Rightarrow> u64 \<Rightarrow> 's io_result) \<Rightarrow> 's \<Rightarrow> IdTriple list \<Rightarrow> 's io_result" where
  "fold_triples f self [] = Some (Inr self)"
| "fold_triples f self (t # ts) =
    try_bind (f self (it_subject t) (it_predicate t) (it_object t)) (\<lambda>self. fold_triples f self ts)"

definition ChildLayerFileBuilderPhase2_add_id_triples ::
  "env \<Rightarrow> ChildLayerFileBuilderPhase2 \<Rightarrow> IdTriple list \<Rightarrow> ChildLayerFileBuilderPhase2 io_result" where
  "ChildLayerFileBuilderPhase2_add_id_triples e self triples =
    do { filtered \<leftarrow> filter_existing e (cfb2_parent self) False triples;
         fold_triples ChildLayerFileBuilderPhase2_add_triple_unchecked self filtered }"

definition ChildLayerFileBuilderPhase2_remove_id_triples ::
  "env \<Rightarrow> ChildLayerFileBuilderPhase2 \<Rightarrow> IdTriple list \<Rightarrow> ChildLayerFileBuilderPhase2 io_result" where
  "ChildLayerFileBuilderPhase2_remove_id_triples e self triples =
    do { filtered \<leftarrow> filter_existing e (cfb2_parent self) True triples;
         fold_triples ChildLayerFileBuilderPhase2_remove_triple_unchecked self filtered }"

text \<open>The list of subjects is there, since the builders of a child layer have a file for it.\<close>

definition ChildLayerFileBuilderPhase2_finalize ::
  "env \<Rightarrow> ChildLayerFileBuilderPhase2 \<Rightarrow> ChildLayerMaps io_result" where
  "ChildLayerFileBuilderPhase2_finalize e self =
    try_bind (spawned (TripleFileBuilder_finalize e (cfb2_pos_builder self))) (\<lambda>(pos_s_p, pos_sp_o, pos_subjects).
    try_bind (spawned (TripleFileBuilder_finalize e (cfb2_neg_builder self))) (\<lambda>(neg_s_p, neg_sp_o, neg_subjects).
    try_bind (spawned (build_indexes e pos_s_p pos_sp_o True)) (\<lambda>(pos_o_ps, pos_objects, pos_wavelet_tree).
    try_bind (spawned (build_indexes e neg_s_p neg_sp_o True)) (\<lambda>(neg_o_ps, neg_objects, neg_wavelet_tree).
    case cfb2_dictionary_files self of (node_files, predicate_files, value_files) \<Rightarrow>
    do { pos_subjects \<leftarrow> pos_subjects;
         neg_subjects \<leftarrow> neg_subjects;
         pos_objects \<leftarrow> pos_objects;
         neg_objects \<leftarrow> neg_objects;
         Some (Inr \<lparr>cm_node_dictionary_maps = node_files, cm_predicate_dictionary_maps = predicate_files,
           cm_value_dictionary_maps = value_files, cm_node_value_idmap_maps = None, cm_predicate_idmap_maps = None,
           cm_pos_subjects_map = pos_subjects, cm_pos_objects_map = pos_objects,
           cm_neg_subjects_map = neg_subjects, cm_neg_objects_map = neg_objects,
           cm_pos_s_p_adjacency_list_maps = pos_s_p, cm_pos_sp_o_adjacency_list_maps = pos_sp_o,
           cm_pos_o_ps_adjacency_list_maps = pos_o_ps,
           cm_neg_s_p_adjacency_list_maps = neg_s_p, cm_neg_sp_o_adjacency_list_maps = neg_sp_o,
           cm_neg_o_ps_adjacency_list_maps = neg_o_ps,
           cm_pos_predicate_wavelet_tree_maps = pos_wavelet_tree,
           cm_neg_predicate_wavelet_tree_maps = neg_wavelet_tree\<rparr>) }))))"

subsection \<open>Triple streams\<close>

text \<open>
  The streams of the triples of a layer, read from the files of its adjacency lists. A stream
  is the list of the items it has left; a poll that is not ready is left out.
\<close>

type_synonym pair_stream = "(io_error + u64 \<times> u64) list"

record BaseTripleStream =
  bts_s_p_stream :: pair_stream
  bts_sp_o_stream :: pair_stream
  bts_last_s_p :: "u64 \<times> u64"
  bts_last_sp :: u64

definition BaseTripleStream_new :: "pair_stream \<Rightarrow> pair_stream \<Rightarrow> BaseTripleStream" where
  "BaseTripleStream_new s_p_stream sp_o_stream =
    \<lparr>bts_s_p_stream = s_p_stream, bts_sp_o_stream = sp_o_stream, bts_last_s_p = (0, 0), bts_last_sp = 0\<rparr>"

definition BaseTripleStream_poll_next ::
  "BaseTripleStream \<Rightarrow> (io_error + u64 \<times> u64 \<times> u64) option \<times> BaseTripleStream" where
  "BaseTripleStream_poll_next self =
    (case bts_sp_o_stream self of
       [] \<Rightarrow> (None, self)
     | Inl err # sp_o_stream \<Rightarrow> (Some (Inl err), self\<lparr>bts_sp_o_stream := sp_o_stream\<rparr>)
     | Inr (sp, ob) # sp_o_stream \<Rightarrow>
         if sp > bts_last_sp self then
           (case bts_s_p_stream self of
              [] \<Rightarrow> (Some (Inl UnexpectedEof), self)
            | Inl err # s_p_stream \<Rightarrow> (Some (Inl err), self\<lparr>bts_s_p_stream := s_p_stream\<rparr>)
            | Inr (s, p) # s_p_stream \<Rightarrow>
                (Some (Inr (s, p, ob)),
                 \<lparr>bts_s_p_stream = s_p_stream, bts_sp_o_stream = sp_o_stream, bts_last_s_p = (s, p), bts_last_sp = sp\<rparr>))
         else (Some (Inr (fst (bts_last_s_p self), snd (bts_last_s_p self), ob)),
               self\<lparr>bts_sp_o_stream := sp_o_stream\<rparr>))"

text \<open>Reading a stream to its end or to the first error.\<close>

function BaseTripleStream_collect :: "BaseTripleStream \<Rightarrow> io_error + (u64 \<times> u64 \<times> u64) list" where
  "BaseTripleStream_collect self =
    (case BaseTripleStream_poll_next self of
       (None, _) \<Rightarrow> Inr []
     | (Some (Inl err), _) \<Rightarrow> Inl err
     | (Some (Inr t), self) \<Rightarrow> map_sum id ((#) t) (BaseTripleStream_collect self))"
  by pat_completeness auto
termination
  by (relation "measure (\<lambda>self. length (bts_sp_o_stream self))")
    (auto simp: BaseTripleStream_poll_next_def split: list.splits sum.splits if_splits)

declare BaseTripleStream_collect.simps [simp del]

definition open_base_triple_stream :: "env \<Rightarrow> al_files \<Rightarrow> al_files \<Rightarrow> BaseTripleStream io_result" where
  "open_base_triple_stream e s_p_files sp_o_files =
    try_bind (adjacency_list_stream_pairs (env_order e) (env_blocks e) (env_entries e)
      (fst (snd s_p_files)) (fst s_p_files)) (\<lambda>s_p_stream.
    try_bind (adjacency_list_stream_pairs (env_order e) (env_blocks e) (env_entries e)
      (fst (snd sp_o_files)) (fst sp_o_files)) (\<lambda>sp_o_stream.
    Some (Inr (BaseTripleStream_new s_p_stream sp_o_stream))))"

record ChildTripleStream =
  cts_subjects_stream :: "(io_error + u64) list"
  cts_s_p_stream :: pair_stream
  cts_sp_o_stream :: pair_stream
  cts_last_mapped_s :: u64
  cts_last_s_p :: "u64 \<times> u64"
  cts_last_sp :: u64

definition ChildTripleStream_new ::
  "(io_error + u64) list \<Rightarrow> pair_stream \<Rightarrow> pair_stream \<Rightarrow> ChildTripleStream" where
  "ChildTripleStream_new subjects_stream s_p_stream sp_o_stream =
    \<lparr>cts_subjects_stream = subjects_stream, cts_s_p_stream = s_p_stream, cts_sp_o_stream = sp_o_stream,
     cts_last_mapped_s = 0, cts_last_s_p = (0, 0), cts_last_sp = 0\<rparr>"

definition ChildTripleStream_poll_next ::
  "ChildTripleStream \<Rightarrow> (io_error + u64 \<times> u64 \<times> u64) option \<times> ChildTripleStream" where
  "ChildTripleStream_poll_next self =
    (case cts_sp_o_stream self of
       [] \<Rightarrow> (None, self)
     | Inl err # sp_o_stream \<Rightarrow> (Some (Inl err), self\<lparr>cts_sp_o_stream := sp_o_stream\<rparr>)
     | Inr (sp, ob) # sp_o_stream \<Rightarrow>
         if sp > cts_last_sp self then
           (case cts_s_p_stream self of
              [] \<Rightarrow> (Some (Inl UnexpectedEof), self)
            | Inl err # s_p_stream \<Rightarrow> (Some (Inl err), self\<lparr>cts_s_p_stream := s_p_stream\<rparr>)
            | Inr (s, p) # s_p_stream \<Rightarrow>
                if s > fst (cts_last_s_p self) then
                  (case cts_subjects_stream self of
                     [] \<Rightarrow> (Some (Inl UnexpectedEof), self)
                   | Inl err # subjects_stream \<Rightarrow>
                       (Some (Inl err), self\<lparr>cts_subjects_stream := subjects_stream\<rparr>)
                   | Inr mapped_s # subjects_stream \<Rightarrow>
                       (Some (Inr (mapped_s, p, ob)),
                        \<lparr>cts_subjects_stream = subjects_stream, cts_s_p_stream = s_p_stream,
                         cts_sp_o_stream = sp_o_stream, cts_last_mapped_s = mapped_s,
                         cts_last_s_p = (s, p), cts_last_sp = sp\<rparr>))
                else (Some (Inr (cts_last_mapped_s self, p, ob)),
                      self\<lparr>cts_s_p_stream := s_p_stream, cts_sp_o_stream := sp_o_stream,
                           cts_last_s_p := (s, p), cts_last_sp := sp\<rparr>))
         else (Some (Inr (cts_last_mapped_s self, snd (cts_last_s_p self), ob)),
               self\<lparr>cts_sp_o_stream := sp_o_stream\<rparr>))"

function ChildTripleStream_collect :: "ChildTripleStream \<Rightarrow> io_error + (u64 \<times> u64 \<times> u64) list" where
  "ChildTripleStream_collect self =
    (case ChildTripleStream_poll_next self of
       (None, _) \<Rightarrow> Inr []
     | (Some (Inl err), _) \<Rightarrow> Inl err
     | (Some (Inr t), self) \<Rightarrow> map_sum id ((#) t) (ChildTripleStream_collect self))"
  by pat_completeness auto
termination
  by (relation "measure (\<lambda>self. length (cts_sp_o_stream self))")
    (auto simp: ChildTripleStream_poll_next_def split: list.splits sum.splits if_splits)

declare ChildTripleStream_collect.simps [simp del]

definition open_child_triple_stream :: "env \<Rightarrow> bytes \<Rightarrow> al_files \<Rightarrow> al_files \<Rightarrow> ChildTripleStream io_result" where
  "open_child_triple_stream e subjects_file s_p_files sp_o_files =
    try_bind (logarray_stream_entries (env_order e) (env_entries e) subjects_file) (\<lambda>subjects_stream.
    try_bind (adjacency_list_stream_pairs (env_order e) (env_blocks e) (env_entries e)
      (fst (snd s_p_files)) (fst s_p_files)) (\<lambda>s_p_stream.
    try_bind (adjacency_list_stream_pairs (env_order e) (env_blocks e) (env_entries e)
      (fst (snd sp_o_files)) (fst sp_o_files)) (\<lambda>sp_o_stream.
    Some (Inr (ChildTripleStream_new subjects_stream s_p_stream sp_o_stream)))))"

end
