(* ===== verification/BuiltLayers.thy ===== *)
theory BuiltLayers
  imports LayerBuilder TripleIndex
begin

text \<open>
  The layers that the builders produce. A base layer holds the triples that were added to its
  builder; a child layer holds what the abstract change of a set of triples says: the triples
  of its parent that were not removed, and the added ones that the parent did not have. The
  relation \<open>built\<close> lists the stacks of layers that come from the builders together with the
  set of triples they stand for; its invariant is that the queries of the stack are those of
  the set.
\<close>

section \<open>A base layer\<close>

text \<open>The builders take a triple with a zero id for no operation.\<close>

definition effective :: "IdTriple list \<Rightarrow> IdTriple list" where
  "effective ts = filter (\<lambda>t. it_subject t \<noteq> 0 \<and> it_predicate t \<noteq> 0 \<and> it_object t \<noteq> 0) ts"

lemma add_id_triples_effective:
  "TripleFileBuilder_add_id_triples b ts = TripleFileBuilder_add_id_triples b (effective ts)"
proof (induction ts arbitrary: b)
  case (Cons t ts)
  have IH: "(\<lambda>b. TripleFileBuilder_add_id_triples b ts) = (\<lambda>b. TripleFileBuilder_add_id_triples b (effective ts))"
    by (rule ext) (rule Cons.IH)
  show ?case
  proof (cases "it_subject t = 0 \<or> it_predicate t = 0 \<or> it_object t = 0")
    case True
    then have "effective (t # ts) = effective ts" by (auto simp: effective_def)
    moreover have "TripleFileBuilder_add_triple b (it_subject t) (it_predicate t) (it_object t) = Some (Inr b)"
      using True by (simp add: TripleFileBuilder_add_triple_def)
    ultimately show ?thesis using Cons.IH by simp
  next
    case False
    then have "effective (t # ts) = t # effective ts" by (simp add: effective_def)
    then show ?thesis by (simp only: TripleFileBuilder_add_id_triples.simps IH)
  qed
qed (simp add: effective_def)

text \<open>The dictionaries of a new layer are those of its files, and it has no id maps.\<close>

definition own_dictionaries :: "env \<Rightarrow> dict_files \<times> dict_files \<times> dict_files \<Rightarrow> InternalLayer \<Rightarrow> bool" where
  "own_dictionaries e files l \<longleftrightarrow>
    load_dictionary e (fst files) = Some (InternalLayer_node_dictionary l) \<and>
    load_dictionary e (fst (snd files)) = Some (InternalLayer_predicate_dictionary l) \<and>
    load_dictionary e (snd (snd files)) = Some (InternalLayer_value_dictionary l) \<and>
    InternalLayer_node_value_id_map l = IdMap_default \<and> InternalLayer_predicate_id_map l = IdMap_default \<and>
    parent_counts_ok l"

context build_env
begin

lemma base_layer_built:
  assumes lens: "dictionary_lens e files = Some (Inr (num_nodes, num_predicates, num_values))"
    and ok: "ids_ok (num_nodes + num_values) num_predicates (effective ts)"
  obtains p maps l where
    "BaseLayerFileBuilderPhase2_add_id_triples (BaseLayerFileBuilderPhase2_new e files num_nodes num_predicates num_values) ts =
      Some (Inr p)"
    "BaseLayerFileBuilderPhase2_finalize e p = Some (Inr maps)" "BaseLayer_load e name maps = Some l"
    "layers_from l = [l]" "layer_predicates l (effective ts) []" "layer_objects l (effective ts) []" "InternalLayer_name l = name"
    "own_dictionaries e files l"
proof -
  obtain b s_p sp_o f o_ps g wav sp spo ops tree subjects objects rows where
    B: "TripleFileBuilder_add_id_triples (TripleFileBuilder_new e num_nodes num_predicates num_values False) (effective ts) = Some (Inr b)"
    "TripleFileBuilder_finalize e b = Some (Inr (s_p, sp_o, f))"
    "build_indexes e s_p sp_o False = Some (Inr (o_ps, g, wav))"
    "load_adjacency_list e s_p = Some sp" "load_adjacency_list e sp_o = Some spo" "load_adjacency_list e o_ps = Some ops"
    "load_wavelet_tree e wav (la_width (al_nums sp)) = Some tree"
    "(case f of None \<Rightarrow> Some None | Some f \<Rightarrow> map_option Some (load_monotonic e f)) = Some subjects"
    "(case g of None \<Rightarrow> Some None | Some g \<Rightarrow> map_option Some (load_monotonic e g)) = Some objects"
    "f = None \<longleftrightarrow> \<not> False" "g = None \<longleftrightarrow> \<not> False"
    "pidx_of subjects sp spo tree (effective ts)" "oidx_of subjects objects ops sp rows" "set rows = set (effective ts)"
    by (rule triples_built [OF ok, where sparse = False])
  obtain nf pf vf where files: "files = (nf, pf, vf)" by (cases files) auto
  from lens obtain nd pd vd where D: "load_dictionary e nf = Some nd" "load_dictionary e pf = Some pd" "load_dictionary e vf = Some vd"
    by (auto simp: files dictionary_lens_def dictionary_len_def load_dictionary_def try_bind_def unwrap_def
        split: bind_splits sum.splits)
  let ?p = "\<lparr>bfb2_dictionary_files = files, bfb2_builder = b\<rparr>"
  define maps where "maps = \<lparr>bm_node_dictionary_maps = nf, bm_predicate_dictionary_maps = pf,
      bm_value_dictionary_maps = vf, bm_node_value_idmap_maps = None, bm_predicate_idmap_maps = None,
      bm_subjects_map = None, bm_objects_map = None, bm_s_p_adjacency_list_maps = s_p,
      bm_sp_o_adjacency_list_maps = sp_o, bm_o_ps_adjacency_list_maps = o_ps,
      bm_predicate_wavelet_tree_maps = wav\<rparr>"
  define l where "l = Base \<lparr>bl_name = name, bl_node_dictionary = nd,
           bl_predicate_dictionary = pd, bl_value_dictionary = vd,
           bl_node_value_idmap = IdMap_default, bl_predicate_idmap = IdMap_default,
           bl_subjects = None, bl_objects = None, bl_s_p_adjacency_list = sp,
           bl_sp_o_adjacency_list = spo, bl_o_ps_adjacency_list = ops,
           bl_predicate_wavelet_tree = tree\<rparr>"
  have s: "subjects = None" "objects = None" "f = None" "g = None" using B(8-11) by auto
  have "BaseLayerFileBuilderPhase2_add_id_triples (BaseLayerFileBuilderPhase2_new e files num_nodes num_predicates num_values) ts =
      Some (Inr ?p)"
    using B(1) by (simp add: BaseLayerFileBuilderPhase2_add_id_triples_def BaseLayerFileBuilderPhase2_new_def
        add_id_triples_effective [of _ ts])
  moreover have "BaseLayerFileBuilderPhase2_finalize e ?p = Some (Inr maps)"
    using B(2,3) s by (simp add: BaseLayerFileBuilderPhase2_finalize_def files maps_def)
  moreover have "BaseLayer_load e name maps = Some l"
    using B(4-7) D by (simp add: BaseLayer_load_def maps_def l_def load_idmap_def omap_def)
  moreover have "layers_from l = [l]" by (subst layers_from.simps) (simp add: l_def)
  moreover have "layer_predicates l (effective ts) []" using B(12) s by (simp add: layer_predicates_def l_def)
  moreover have "layer_objects l (effective ts) []" using B(13,14) s by (auto simp: layer_objects_def l_def)
  moreover have "own_dictionaries e files l" using D by (simp add: own_dictionaries_def files l_def parent_counts_ok_def)
  ultimately show ?thesis using that by (simp add: l_def)
qed

end

section \<open>A child layer\<close>

lemma fold_add_triples:
  "fold_triples ChildLayerFileBuilderPhase2_add_triple_unchecked p ts =
    try_bind (TripleFileBuilder_add_id_triples (cfb2_pos_builder p) ts) (\<lambda>b. Some (Inr (p\<lparr>cfb2_pos_builder := b\<rparr>)))"
proof (induction ts arbitrary: p)
  case (Cons t ts)
  then show ?case by (simp add: ChildLayerFileBuilderPhase2_add_triple_unchecked_def try_bind_assoc)
qed simp

lemma fold_remove_triples:
  "fold_triples ChildLayerFileBuilderPhase2_remove_triple_unchecked p ts =
    try_bind (TripleFileBuilder_add_id_triples (cfb2_neg_builder p) ts) (\<lambda>b. Some (Inr (p\<lparr>cfb2_neg_builder := b\<rparr>)))"
proof (induction ts arbitrary: p)
  case (Cons t ts)
  then show ?case by (simp add: ChildLayerFileBuilderPhase2_remove_triple_unchecked_def try_bind_assoc)
qed simp

lemma ids_ok_filter:
  assumes "ids_ok n p ts"
  shows "ids_ok n p (filter P ts)"
proof -
  have "length (filter P ts) \<le> length ts" by simp
  then have "2 * length (filter P ts) + k < 2 ^ 21" if "2 * length ts + k < 2 ^ 21" for k using that by linarith
  then show ?thesis using assms by (simp add: ids_ok_def sorted_wrt_filter)
qed

context build_env
begin

lemma filter_existing_eq:
  assumes "stack_wf l A R"
  shows "filter_existing e l x ts = Some (filter (\<lambda>t. holds_triple l A R t = x) ts)"
proof -
  have "InternalLayer_triple_exists (env_order e) l (it_subject t) (it_predicate t) (it_object t) =
      Some (holds_triple l A R t)" for t
    using triple_exists_eq [OF assms, of "it_subject t" "it_predicate t" "it_object t"] by simp
  then have "those (map (\<lambda>t. InternalLayer_triple_exists (env_order e) l (it_subject t) (it_predicate t) (it_object t)) ts) =
      Some (map (holds_triple l A R) ts)" by (simp add: those_map_Some)
  moreover have "map fst (filter (\<lambda>(t, y). y = x) (zip ts (map f ts))) = filter (\<lambda>t. f t = x) ts" for f
    by (induction ts) auto
  ultimately show ?thesis by (simp add: filter_existing_def)
qed

lemma child_layer_built:
  assumes lens: "dictionary_lens e files = Some (Inr (num_nodes, num_predicates, num_values))"
    and wf: "stack_wf parent A R"
    and cts: "c = InternalLayer_all_counts parent"
    and ok: "ids_ok (num_nodes + lc_node_count c + (num_values + lc_value_count c)) (num_predicates + lc_predicate_count c) (effective adds)"
      "ids_ok (num_nodes + lc_node_count c + (num_values + lc_value_count c)) (num_predicates + lc_predicate_count c)
        (filter (holds_triple parent A R) rems)"
  defines "as \<equiv> filter (\<lambda>t. \<not> holds_triple parent A R t) (effective adds)" and "rs \<equiv> filter (holds_triple parent A R) rems"
  obtains p q maps l where
    "ChildLayerFileBuilderPhase2_add_id_triples e
      (ChildLayerFileBuilderPhase2_new e parent files num_nodes num_predicates num_values) adds = Some (Inr p)"
    "ChildLayerFileBuilderPhase2_remove_id_triples e p rems = Some (Inr q)"
    "ChildLayerFileBuilderPhase2_finalize e q = Some (Inr maps)" "ChildLayer_load e name parent maps = Some l"
    "InternalLayer_immediate_parent l = Some parent" "layer_predicates l as rs" "layer_objects l as rs"
    "InternalLayer_name l = name" "own_dictionaries e files l"
proof -
  let ?nn = "num_nodes + lc_node_count c" and ?np = "num_predicates + lc_predicate_count c" and ?nv = "num_values + lc_value_count c"
  let ?tfb = "TripleFileBuilder_new e ?nn ?np ?nv True"
  have "ids_ok (?nn + ?nv) ?np as" "ids_ok (?nn + ?nv) ?np rs" unfolding as_def rs_def using ok ids_ok_filter by blast+
  note ok' = this
  obtain b s_p sp_o f o_ps g wav sp spo ops tree subjects objects rows where
    B: "TripleFileBuilder_add_id_triples ?tfb as = Some (Inr b)"
    "TripleFileBuilder_finalize e b = Some (Inr (s_p, sp_o, f))"
    "build_indexes e s_p sp_o True = Some (Inr (o_ps, g, wav))"
    "load_adjacency_list e s_p = Some sp" "load_adjacency_list e sp_o = Some spo" "load_adjacency_list e o_ps = Some ops"
    "load_wavelet_tree e wav (la_width (al_nums sp)) = Some tree"
    "(case f of None \<Rightarrow> Some None | Some f \<Rightarrow> map_option Some (load_monotonic e f)) = Some subjects"
    "(case g of None \<Rightarrow> Some None | Some g \<Rightarrow> map_option Some (load_monotonic e g)) = Some objects"
    "f = None \<longleftrightarrow> \<not> True" "g = None \<longleftrightarrow> \<not> True"
    "pidx_of subjects sp spo tree as" "oidx_of subjects objects ops sp rows" "set rows = set as"
    by (rule triples_built [OF ok'(1), where sparse = True])
  obtain b' s_p' sp_o' f' o_ps' g' wav' sp' spo' ops' tree' subjects' objects' rows' where
    B': "TripleFileBuilder_add_id_triples ?tfb rs = Some (Inr b')"
    "TripleFileBuilder_finalize e b' = Some (Inr (s_p', sp_o', f'))"
    "build_indexes e s_p' sp_o' True = Some (Inr (o_ps', g', wav'))"
    "load_adjacency_list e s_p' = Some sp'" "load_adjacency_list e sp_o' = Some spo'" "load_adjacency_list e o_ps' = Some ops'"
    "load_wavelet_tree e wav' (la_width (al_nums sp')) = Some tree'"
    "(case f' of None \<Rightarrow> Some None | Some f \<Rightarrow> map_option Some (load_monotonic e f)) = Some subjects'"
    "(case g' of None \<Rightarrow> Some None | Some g \<Rightarrow> map_option Some (load_monotonic e g)) = Some objects'"
    "f' = None \<longleftrightarrow> \<not> True" "g' = None \<longleftrightarrow> \<not> True"
    "pidx_of subjects' sp' spo' tree' rs" "oidx_of subjects' objects' ops' sp' rows'" "set rows' = set rs"
    by (rule triples_built [OF ok'(2), where sparse = True])
  obtain fs gs ms mo where s: "f = Some fs" "g = Some gs" "subjects = Some ms" "objects = Some mo"
      "load_monotonic e fs = Some ms" "load_monotonic e gs = Some mo" using B(8-11) by auto
  obtain fs' gs' ms' mo' where s': "f' = Some fs'" "g' = Some gs'" "subjects' = Some ms'" "objects' = Some mo'"
      "load_monotonic e fs' = Some ms'" "load_monotonic e gs' = Some mo'" using B'(8-11) by auto
  obtain nf pf vf where files: "files = (nf, pf, vf)" by (cases files) auto
  from lens obtain nd pd vd where D: "load_dictionary e nf = Some nd" "load_dictionary e pf = Some pd" "load_dictionary e vf = Some vd"
    by (auto simp: files dictionary_lens_def dictionary_len_def load_dictionary_def try_bind_def unwrap_def
        split: bind_splits sum.splits)
  let ?p = "\<lparr>cfb2_parent = parent, cfb2_dictionary_files = files, cfb2_pos_builder = b, cfb2_neg_builder = ?tfb\<rparr>"
  let ?q = "?p\<lparr>cfb2_neg_builder := b'\<rparr>"
  define maps where "maps = \<lparr>cm_node_dictionary_maps = nf, cm_predicate_dictionary_maps = pf,
           cm_value_dictionary_maps = vf, cm_node_value_idmap_maps = None, cm_predicate_idmap_maps = None,
           cm_pos_subjects_map = fs, cm_pos_objects_map = gs, cm_neg_subjects_map = fs', cm_neg_objects_map = gs',
           cm_pos_s_p_adjacency_list_maps = s_p, cm_pos_sp_o_adjacency_list_maps = sp_o,
           cm_pos_o_ps_adjacency_list_maps = o_ps,
           cm_neg_s_p_adjacency_list_maps = s_p', cm_neg_sp_o_adjacency_list_maps = sp_o',
           cm_neg_o_ps_adjacency_list_maps = o_ps',
           cm_pos_predicate_wavelet_tree_maps = wav, cm_neg_predicate_wavelet_tree_maps = wav'\<rparr>"
  define l where "l = Child (ChildLayer name parent nd pd vd IdMap_default IdMap_default
      (InternalLayer_node_and_value_count parent) (InternalLayer_predicate_count parent)
      ms mo sp spo ops ms' mo' sp' spo' ops' tree tree')"
  have new: "ChildLayerFileBuilderPhase2_new e parent files num_nodes num_predicates num_values =
      \<lparr>cfb2_parent = parent, cfb2_dictionary_files = files, cfb2_pos_builder = ?tfb, cfb2_neg_builder = ?tfb\<rparr>"
    by (simp add: ChildLayerFileBuilderPhase2_new_def Let_def cts)
  have "ChildLayerFileBuilderPhase2_add_id_triples e
      (ChildLayerFileBuilderPhase2_new e parent files num_nodes num_predicates num_values) adds = Some (Inr ?p)"
    using B(1) filter_existing_eq [OF wf, of False adds] add_id_triples_effective [of ?tfb "filter (\<lambda>t. \<not> holds_triple parent A R t) adds"]
    by (simp add: ChildLayerFileBuilderPhase2_add_id_triples_def new fold_add_triples as_def effective_def conj_commute)
  moreover have "ChildLayerFileBuilderPhase2_remove_id_triples e ?p rems = Some (Inr ?q)"
    using B'(1) filter_existing_eq [OF wf, of True rems]
    by (simp add: ChildLayerFileBuilderPhase2_remove_id_triples_def fold_remove_triples rs_def)
  moreover have "ChildLayerFileBuilderPhase2_finalize e ?q = Some (Inr maps)"
    using B(2,3) B'(2,3) s(1,2) s'(1,2)
    by (simp add: ChildLayerFileBuilderPhase2_finalize_def files maps_def spawned_def)
  moreover have "ChildLayer_load e name parent maps = Some l"
    using B(4-7) B'(4-7) D s(5,6) s'(5,6) by (simp add: ChildLayer_load_def maps_def l_def load_idmap_def Let_def)
  moreover have "InternalLayer_immediate_parent l = Some parent" "InternalLayer_name l = name" by (simp_all add: l_def)
  moreover have "layer_predicates l as rs"
    using B(12) B'(12) s(3) s'(3) by (simp add: layer_predicates_def l_def)
  moreover have "layer_objects l as rs"
    using B(13,14) B'(13,14) s(3,4) s'(3,4) by (auto simp: layer_objects_def l_def)
  moreover have "own_dictionaries e files l" using D by (simp add: own_dictionaries_def files l_def parent_counts_ok_def)
  ultimately show ?thesis using that by metis
qed

end

section \<open>Built stacks\<close>

inductive built :: "env \<Rightarrow> InternalLayer \<Rightarrow> IdTriple set \<Rightarrow> bool" for e where
  base: "dictionary_lens e files = Some (Inr (num_nodes, num_predicates, num_values)) \<Longrightarrow>
    ids_ok (num_nodes + num_values) num_predicates (effective ts) \<Longrightarrow>
    BaseLayerFileBuilderPhase2_add_id_triples
      (BaseLayerFileBuilderPhase2_new e files num_nodes num_predicates num_values) ts = Some (Inr p) \<Longrightarrow>
    BaseLayerFileBuilderPhase2_finalize e p = Some (Inr maps) \<Longrightarrow> BaseLayer_load e name maps = Some l \<Longrightarrow>
    built e l (set (effective ts))"
| child: "built e parent T \<Longrightarrow>
    dictionary_lens e files = Some (Inr (num_nodes, num_predicates, num_values)) \<Longrightarrow>
    c = InternalLayer_all_counts parent \<Longrightarrow>
    ids_ok (num_nodes + lc_node_count c + (num_values + lc_value_count c)) (num_predicates + lc_predicate_count c) (effective adds) \<Longrightarrow>
    ids_ok (num_nodes + lc_node_count c + (num_values + lc_value_count c)) (num_predicates + lc_predicate_count c)
      (filter (\<lambda>t. t \<in> T) rems) \<Longrightarrow>
    ChildLayerFileBuilderPhase2_add_id_triples e
      (ChildLayerFileBuilderPhase2_new e parent files num_nodes num_predicates num_values) adds = Some (Inr p) \<Longrightarrow>
    ChildLayerFileBuilderPhase2_remove_id_triples e p rems = Some (Inr q) \<Longrightarrow>
    ChildLayerFileBuilderPhase2_finalize e q = Some (Inr maps) \<Longrightarrow> ChildLayer_load e name parent maps = Some l \<Longrightarrow>
    built e l (T - set rems \<union> (set (effective adds) - T))"

text \<open>The set of triples that a well-formed stack stands for.\<close>

definition stands_for ::
  "InternalLayer \<Rightarrow> (InternalLayer \<Rightarrow> IdTriple list) \<Rightarrow> (InternalLayer \<Rightarrow> IdTriple list) \<Rightarrow> IdTriple set \<Rightarrow> bool" where
  "stands_for l A R T \<longleftrightarrow> predicates_wf l A R \<and> objects_wf l A R \<and> history_ok l A R \<and> (\<forall>t. holds_triple l A R t \<longleftrightarrow> t \<in> T)"

lemma layers_from_size: "x \<in> set (layers_from l) \<Longrightarrow> size x \<le> size l"
proof (induction l rule: layer_induct)
  case (layer l)
  have "x = l \<or> (\<exists>p. InternalLayer_immediate_parent l = Some p \<and> x \<in> set (layers_from p))"
    using layer.prems layers_from_Cons [of l] by (auto split: option.splits)
  then show ?case using layer.IH immediate_parent_size [of l] by fastforce
qed

lemma not_own_ancestor:
  assumes "InternalLayer_immediate_parent l = Some p"
  shows "l \<notin> set (layers_from p)"
  using layers_from_size [of l p] immediate_parent_size [OF assms] by auto

lemma stands_for_base:
  assumes "layers_from l = [l]" "layer_predicates l ts []" "layer_objects l ts []"
  shows "stands_for l (\<lambda>_. ts) (\<lambda>_. []) (set ts)"
  using assms
  by (auto simp: stands_for_def predicates_wf_def objects_wf_def history_ok_def holds_triple_def stack_events_def events_def)

lemma stands_for_child:
  assumes S: "stands_for p A R T" and par: "InternalLayer_immediate_parent l = Some p"
    and lp: "layer_predicates l as rs" "layer_objects l as rs"
    and as: "as = filter (\<lambda>t. \<not> holds_triple p A R t) adds" and rs: "rs = filter (holds_triple p A R) rems"
  shows "stands_for l (A(l := as)) (R(l := rs)) (T - set rems \<union> (set adds - T))"
proof -
  have ls: "layers_from l = l # layers_from p" using par by (subst layers_from.simps) simp
  have old: "(A(l := as)) x = A x" "(R(l := rs)) x = R x" if "x \<in> set (layers_from p)" for x
    using that not_own_ancestor [OF par] by auto
  have ev: "stack_events (A(l := as)) (R(l := rs)) (layers_from l) t =
      (t \<in> set as, t \<in> set rs) # stack_events A R (layers_from p) t" for t
  proof -
    have "map (A(l := as)) (layers_from p) = map A (layers_from p)" "map (R(l := rs)) (layers_from p) = map R (layers_from p)"
      using old by (auto intro!: map_cong)
    then show ?thesis unfolding stack_events_def ls by (simp only: list.map) (simp add: events_def)
  qed
  have hold: "holds_triple p A R t \<longleftrightarrow> t \<in> T" for t using S by (simp add: stands_for_def)
  show ?thesis
    unfolding stands_for_def
  proof (intro conjI allI)
    show "predicates_wf l (A(l := as)) (R(l := rs))" "objects_wf l (A(l := as)) (R(l := rs))"
      using S lp old by (auto simp: stands_for_def predicates_wf_def objects_wf_def ls)
    show "history_ok l (A(l := as)) (R(l := rs))"
      using S unfolding history_ok_def ev by (auto simp: stands_for_def history_ok_def as rs holds_triple_def)
    show "holds_triple l (A(l := as)) (R(l := rs)) t \<longleftrightarrow> t \<in> T - set rems \<union> (set adds - T)" for t
      using hold [of t] unfolding holds_triple_def [of l] ev
      by (auto simp: as rs holds_triple_def [symmetric])
  qed
qed

context build_env
begin

lemma built_stands_for: "built e l T \<Longrightarrow> \<exists>A R. stands_for l A R T"
proof (induction rule: built.induct)
  case (base files num_nodes num_predicates num_values ts p maps name l)
  obtain p' maps' l' where
    "BaseLayerFileBuilderPhase2_add_id_triples (BaseLayerFileBuilderPhase2_new e files num_nodes num_predicates num_values) ts =
      Some (Inr p')"
    "BaseLayerFileBuilderPhase2_finalize e p' = Some (Inr maps')" "BaseLayer_load e name maps' = Some l'"
    and l': "layers_from l' = [l']" "layer_predicates l' (effective ts) []" "layer_objects l' (effective ts) []"
    by (rule base_layer_built [OF base(1,2), where name = name])
  with base(3-5) have "l' = l" by simp
  with stands_for_base [OF l'] show ?case by blast
next
  case (child parent T files num_nodes num_predicates num_values c adds rems p q maps name l)
  then obtain A R where S: "stands_for parent A R T" by blast
  then have wf: "stack_wf parent A R" by (auto simp: stands_for_def intro: predicates_stack_wf)
  have "holds_triple parent A R = (\<lambda>t. t \<in> T)" using S by (auto simp: stands_for_def)
  with child(5) have rems: "ids_ok (num_nodes + lc_node_count c + (num_values + lc_value_count c))
      (num_predicates + lc_predicate_count c) (filter (holds_triple parent A R) rems)" by simp
  obtain p' q' maps' l' where
    "ChildLayerFileBuilderPhase2_add_id_triples e
      (ChildLayerFileBuilderPhase2_new e parent files num_nodes num_predicates num_values) adds = Some (Inr p')"
    "ChildLayerFileBuilderPhase2_remove_id_triples e p' rems = Some (Inr q')"
    "ChildLayerFileBuilderPhase2_finalize e q' = Some (Inr maps')" "ChildLayer_load e name parent maps' = Some l'"
    and l': "InternalLayer_immediate_parent l' = Some parent"
      "layer_predicates l' (filter (\<lambda>t. \<not> holds_triple parent A R t) (effective adds)) (filter (holds_triple parent A R) rems)"
      "layer_objects l' (filter (\<lambda>t. \<not> holds_triple parent A R t) (effective adds)) (filter (holds_triple parent A R) rems)"
    by (rule child_layer_built [OF child(2) wf child(3,4) rems, where name = name])
  with child(6-9) have "l' = l" by simp
  with stands_for_child [OF S l' refl refl] show ?case by blast
qed


text \<open>What the queries return on a stack that stands for a set.\<close>

lemma stands_for_queries:
  assumes S: "stands_for l A R T"
  shows "\<exists>ts. sorted_wrt (<) ts \<and> set ts = T \<and> InternalLayer_triples (env_order e) l = Some ts \<and>
    (\<forall>s. InternalLayer_triples_s (env_order e) l s = Some (filter (\<lambda>t. it_subject t = s) ts)) \<and>
    (\<forall>s p. InternalLayer_triples_sp (env_order e) l s p = Some (filter (\<lambda>t. it_subject t = s \<and> it_predicate t = p) ts)) \<and>
    (\<forall>p. p \<noteq> 0 \<longrightarrow> InternalLayer_triples_p (env_order e) l p = Some (filter (\<lambda>t. it_predicate t = p) ts)) \<and>
    (\<forall>ob. InternalLayer_triples_o (env_order e) l ob = Some (filter (\<lambda>t. it_object t = ob) ts)) \<and>
    Layer_triple_count (env_order e) l = Some (length ts)"
proof -
  from S have wf: "predicates_wf l A R" "objects_wf l A R" "history_ok l A R" and T: "\<And>t. holds_triple l A R t \<longleftrightarrow> t \<in> T"
    by (simp_all add: stands_for_def)
  note sw = predicates_stack_wf [OF wf(1)]
  note at = all_triples [OF sw wf(3)]
  have nz: "it_subject t \<noteq> 0 \<and> it_predicate t \<noteq> 0" if "t \<in> set (all_triples l A R)" for t
  proof (rule ccontr)
    assume "\<not> (it_subject t \<noteq> 0 \<and> it_predicate t \<noteq> 0)"
    then have "InternalLayer_triple_exists (env_order e) l (it_subject t) (it_predicate t) (it_object t) = Some False"
      by (auto simp: InternalLayer_triple_exists_def)
    then show False using triple_exists_eq [OF sw, of "it_subject t" "it_predicate t" "it_object t"] that at(2) by simp
  qed
  have sp: "InternalLayer_triples_sp (env_order e) l s p =
      Some (filter (\<lambda>t. it_subject t = s \<and> it_predicate t = p) (all_triples l A R))" for s p
  proof (cases "s = 0 \<or> p = 0")
    case True
    then have "filter (\<lambda>t. it_subject t = s \<and> it_predicate t = p) (all_triples l A R) = []"
      using nz by (fastforce simp: filter_empty_conv)
    then show ?thesis using triples_sp_zero [OF sw True] by simp
  next
    case False
    then show ?thesis using triples_sp_nonzero [OF sw wf(3)] by blast
  qed
  show ?thesis
    using at T triples_eq [OF sw] triples_s_eq [OF sw wf(3)] sp triples_p_eq [OF wf(1,3)] triples_o_eq [OF sw wf(3,2)]
      triple_count_eq [OF wf(1,3)]
    by (intro exI [of _ "all_triples l A R"]) auto
qed

end

section \<open>An environment\<close>

text \<open>An environment with the documented behaviour, in a release build.\<close>

definition env_std :: env where
  "env_std = \<lparr>env_order = byteorder_std, env_blocks = framed_blocks_std, env_entries = framed_entries_std,
    env_chunks = chunks_std, env_log2 = log2_std, env_sort = sort, env_debug = False\<rparr>"

lemma sort_std_ok: "sort_ok sort"
  unfolding sort_ok_def
proof (intro allI conjI)
  fix ps :: "(u64 \<times> u64) list"
  show "mset (sort ps) = mset ps" by simp
  have "sorted_wrt (\<le>) (sort ps)" by (rule sorted_sort)
  then show "sorted_wrt (\<lambda>p q. fst p < fst q \<or> fst p = fst q \<and> snd p \<le> snd q) (sort ps)"
    by (rule sorted_wrt_mono_rel [rotated]) (auto simp: less_eq_prod_def)
qed

lemma env_std_ok: "env_ok env_std"
  using framed_blocks_std_ok framed_entries_std_ok chunks_std_ok log2_std_ok sort_std_ok std.big_endian_axioms
  by (simp add: env_ok_def env_std_def)

interpretation std_env: build_env env_std
  by unfold_locales (rule env_std_ok)

end
