(* ===== verification/SimpleBuilder.thy ===== *)
theory SimpleBuilder
  imports LayerBuilder "HOL-Library.AList"
begin

text \<open>
  The builder frontend of \<open>src/layer/simple_builder.rs\<close>: it collects triples of strings and of
  ids in any order and, on commit, resolves, sorts and numbers them and drives the file
  builders of a base or a child layer.

  The parallel sorts of \<open>rayon\<close> are the fields of the record \<open>sorters\<close>, one for each type
  that is sorted. The files of the builder are those of a base layer exactly when it has no
  parent, as its two constructors make them; committing returns the files that it writes. A
  \<open>HashMap\<close> is an association list with distinct keys, a \<open>HashSet\<close> the list of its elements
  without repetitions, which is sorted before it is used.
\<close>

section \<open>Model\<close>

subsection \<open>The derived orders\<close>

instantiation ObjectType :: linorder
begin

definition less_eq_ObjectType :: "ObjectType \<Rightarrow> ObjectType \<Rightarrow> bool" where
  "x \<le> y \<longleftrightarrow> (case (x, y) of
     (Node a, Node b) \<Rightarrow> a \<le> b | (Node a, Value b) \<Rightarrow> True
   | (Value a, Node b) \<Rightarrow> False | (Value a, Value b) \<Rightarrow> a \<le> b)"

definition less_ObjectType :: "ObjectType \<Rightarrow> ObjectType \<Rightarrow> bool" where
  "x < y \<longleftrightarrow> (case (x, y) of
     (Node a, Node b) \<Rightarrow> a < b | (Node a, Value b) \<Rightarrow> True
   | (Value a, Node b) \<Rightarrow> False | (Value a, Value b) \<Rightarrow> a < b)"

instance
  by standard (auto simp: less_eq_ObjectType_def less_ObjectType_def split: ObjectType.splits)

end

instantiation PossiblyResolved :: (linorder) linorder
begin

definition less_eq_PossiblyResolved :: "'a PossiblyResolved \<Rightarrow> 'a PossiblyResolved \<Rightarrow> bool" where
  "x \<le> y \<longleftrightarrow> (case (x, y) of
     (Unresolved a, Unresolved b) \<Rightarrow> a \<le> b | (Unresolved a, Resolved b) \<Rightarrow> True
   | (Resolved a, Unresolved b) \<Rightarrow> False | (Resolved a, Resolved b) \<Rightarrow> a \<le> b)"

definition less_PossiblyResolved :: "'a PossiblyResolved \<Rightarrow> 'a PossiblyResolved \<Rightarrow> bool" where
  "x < y \<longleftrightarrow> (case (x, y) of
     (Unresolved a, Unresolved b) \<Rightarrow> a < b | (Unresolved a, Resolved b) \<Rightarrow> True
   | (Resolved a, Unresolved b) \<Rightarrow> False | (Resolved a, Resolved b) \<Rightarrow> a < b)"

instance
  by standard (auto simp: less_eq_PossiblyResolved_def less_PossiblyResolved_def split: PossiblyResolved.splits)

end

instantiation PartiallyResolvedTriple :: linorder
begin

definition less_eq_PartiallyResolvedTriple :: "PartiallyResolvedTriple \<Rightarrow> PartiallyResolvedTriple \<Rightarrow> bool" where
  "s \<le> t \<longleftrightarrow> pr_subject s < pr_subject t \<or> pr_subject s = pr_subject t \<and>
    (pr_predicate s < pr_predicate t \<or> pr_predicate s = pr_predicate t \<and> pr_object s \<le> pr_object t)"

definition less_PartiallyResolvedTriple :: "PartiallyResolvedTriple \<Rightarrow> PartiallyResolvedTriple \<Rightarrow> bool" where
  "s < t \<longleftrightarrow> pr_subject s < pr_subject t \<or> pr_subject s = pr_subject t \<and>
    (pr_predicate s < pr_predicate t \<or> pr_predicate s = pr_predicate t \<and> pr_object s < pr_object t)"

instance
  by standard (auto simp: less_eq_PartiallyResolvedTriple_def less_PartiallyResolvedTriple_def
      PartiallyResolvedTriple.expand)

end

subsection \<open>The builder\<close>

record sorters =
  so_partial :: "PartiallyResolvedTriple list \<Rightarrow> PartiallyResolvedTriple list"
  so_ids :: "IdTriple list \<Rightarrow> IdTriple list"
  so_strings :: "bytes list \<Rightarrow> bytes list"

datatype LayerMaps = BaseMaps BaseLayerMaps | ChildMaps ChildLayerMaps

record SimpleLayerBuilder =
  sb_name :: layer_name
  sb_parent :: "InternalLayer option"
  sb_additions :: "StringTriple list"
  sb_id_additions :: "IdTriple list"
  sb_removals :: "StringTriple list"
  sb_id_removals :: "IdTriple list"

definition SimpleLayerBuilder_new :: "layer_name \<Rightarrow> SimpleLayerBuilder" where
  "SimpleLayerBuilder_new name =
    \<lparr>sb_name = name, sb_parent = None, sb_additions = [], sb_id_additions = [],
     sb_removals = [], sb_id_removals = []\<rparr>"

definition SimpleLayerBuilder_from_parent :: "layer_name \<Rightarrow> InternalLayer \<Rightarrow> SimpleLayerBuilder" where
  "SimpleLayerBuilder_from_parent name parent =
    \<lparr>sb_name = name, sb_parent = Some parent, sb_additions = [], sb_id_additions = [],
     sb_removals = [], sb_id_removals = []\<rparr>"

definition SimpleLayerBuilder_add_string_triple :: "SimpleLayerBuilder \<Rightarrow> StringTriple \<Rightarrow> SimpleLayerBuilder" where
  "SimpleLayerBuilder_add_string_triple self triple = self\<lparr>sb_additions := sb_additions self @ [triple]\<rparr>"

definition SimpleLayerBuilder_add_id_triple :: "SimpleLayerBuilder \<Rightarrow> IdTriple \<Rightarrow> SimpleLayerBuilder" where
  "SimpleLayerBuilder_add_id_triple self triple = self\<lparr>sb_id_additions := sb_id_additions self @ [triple]\<rparr>"

definition SimpleLayerBuilder_remove_string_triple :: "SimpleLayerBuilder \<Rightarrow> StringTriple \<Rightarrow> SimpleLayerBuilder" where
  "SimpleLayerBuilder_remove_string_triple self triple = self\<lparr>sb_removals := sb_removals self @ [triple]\<rparr>"

definition SimpleLayerBuilder_remove_id_triple :: "SimpleLayerBuilder \<Rightarrow> IdTriple \<Rightarrow> SimpleLayerBuilder" where
  "SimpleLayerBuilder_remove_id_triple self triple = self\<lparr>sb_id_removals := sb_id_removals self @ [triple]\<rparr>"

subsection \<open>Commit\<close>

text \<open>The additions or the removals, resolved as far as the parent can, sorted and without repetitions.\<close>

definition partially_resolved ::
  "env \<Rightarrow> sorters \<Rightarrow> usize \<Rightarrow> InternalLayer option \<Rightarrow> StringTriple list \<Rightarrow> IdTriple list \<Rightarrow>
    PartiallyResolvedTriple list panics" where
  "partially_resolved e so sz parent triples id_triples =
    do { resolved \<leftarrow>
           (case parent of
              None \<Rightarrow> Some (map StringTriple_to_unresolved triples)
            | Some parent \<Rightarrow>
                those (map (Layer_string_triple_to_partially_resolved (env_order e) sz parent) triples));
         Some (remdups_adj (so_partial so (resolved @ map IdTriple_to_resolved id_triples))) }"

abbreviation zero_triple :: PartiallyResolvedTriple where
  "zero_triple \<equiv> PartiallyResolvedTriple (Resolved 0) (Resolved 0) (Resolved 0)"

text \<open>
  The inner loop skips the removals below the addition; when none are left, the outer loop
  ends with the remaining additions unchanged.
\<close>

fun zero_equivalents ::
  "PartiallyResolvedTriple list \<Rightarrow> PartiallyResolvedTriple list \<Rightarrow>
    PartiallyResolvedTriple list \<times> PartiallyResolvedTriple list" where
  "zero_equivalents [] removals = ([], removals)"
| "zero_equivalents (addition # additions) removals =
    (let skipped = takeWhile (\<lambda>r. r < addition) removals
     in case dropWhile (\<lambda>r. r < addition) removals of
          [] \<Rightarrow> (addition # additions, removals)
        | removal # rest \<Rightarrow>
            if removal = addition
            then let (additions, rest) = zero_equivalents additions rest
                 in (zero_triple # additions, skipped @ zero_triple # rest)
            else let (additions, rest) = zero_equivalents additions (removal # rest)
                 in (addition # additions, skipped @ rest))"

definition unresolved_nodes_of :: "PartiallyResolvedTriple \<Rightarrow> bytes list" where
  "unresolved_nodes_of t =
    (case pr_subject t of Unresolved s \<Rightarrow> [s] | Resolved _ \<Rightarrow> []) @
    (case pr_object t of Unresolved (Node n) \<Rightarrow> [n] | _ \<Rightarrow> [])"

definition unresolved_predicates_of :: "PartiallyResolvedTriple \<Rightarrow> bytes list" where
  "unresolved_predicates_of t = (case pr_predicate t of Unresolved p \<Rightarrow> [p] | Resolved _ \<Rightarrow> [])"

definition unresolved_values_of :: "PartiallyResolvedTriple \<Rightarrow> bytes list" where
  "unresolved_values_of t = (case pr_object t of Unresolved (Value v) \<Rightarrow> [v] | _ \<Rightarrow> [])"

definition collect_unresolved_strings ::
  "sorters \<Rightarrow> PartiallyResolvedTriple list \<Rightarrow> bytes list \<times> bytes list \<times> bytes list" where
  "collect_unresolved_strings so triples =
    (so_strings so (remdups (concat (map unresolved_nodes_of triples))),
     so_strings so (remdups (concat (map unresolved_predicates_of triples))),
     so_strings so (remdups (concat (map unresolved_values_of triples))))"

text \<open>The map from the new strings to their ids.\<close>

definition id_table :: "bytes list \<Rightarrow> u64 list \<Rightarrow> u64 \<Rightarrow> (bytes \<times> u64) list" where
  "id_table strings ids offset =
    fold (\<lambda>(s, i) m. AList.update s (i + offset) m) (zip strings ids) []"

text \<open>Resolving the additions; one that cannot be resolved is a panic.\<close>

definition resolve_additions ::
  "sorters \<Rightarrow> PartiallyResolvedTriple list \<Rightarrow> (bytes \<times> u64) list \<Rightarrow> (bytes \<times> u64) list \<Rightarrow> (bytes \<times> u64) list \<Rightarrow>
    IdTriple list panics" where
  "resolve_additions so additions node_map predicate_map value_map =
    do { add_triples \<leftarrow> those (map (\<lambda>t. PartiallyResolvedTriple_resolve_with t
           (map_of node_map) (map_of predicate_map) (map_of value_map)) additions);
         Some (so_ids so add_triples) }"

definition commit_child ::
  "env \<Rightarrow> sorters \<Rightarrow> usize \<Rightarrow> InternalLayer \<Rightarrow> PartiallyResolvedTriple list \<Rightarrow> PartiallyResolvedTriple list \<Rightarrow>
    bytes list \<times> bytes list \<times> bytes list \<Rightarrow> ChildLayerMaps io_result" where
  "commit_child e so sz parent additions removals unresolved =
    (case unresolved of (unresolved_nodes, unresolved_predicates, unresolved_values) \<Rightarrow>
     do { let builder = ChildLayerFileBuilder_from_files parent;
          (node_ids, builder) \<leftarrow> ChildLayerFileBuilder_add_nodes e sz builder unresolved_nodes;
          (predicate_ids, builder) \<leftarrow> ChildLayerFileBuilder_add_predicates e sz builder unresolved_predicates;
          (value_ids, builder) \<leftarrow> ChildLayerFileBuilder_add_values e sz builder unresolved_values;
          try_bind (ChildLayerFileBuilder_into_phase2 e builder) (\<lambda>builder.
            let counts = InternalLayer_all_counts parent;
                parent_node_offset = of_nat (lc_node_count counts) + of_nat (lc_value_count counts);
                parent_predicate_offset = of_nat (lc_predicate_count counts);
                node_map = id_table unresolved_nodes node_ids parent_node_offset;
                predicate_map = id_table unresolved_predicates predicate_ids parent_predicate_offset;
                value_map = id_table unresolved_values value_ids (parent_node_offset + of_nat (length node_map))
            in do { add_triples \<leftarrow> resolve_additions so additions node_map predicate_map value_map;
                    remove_triples \<leftarrow> map_option (List.map_filter id) (those (map PartiallyResolvedTriple_as_resolved removals));
                    try_bind (ChildLayerFileBuilderPhase2_add_id_triples e builder add_triples) (\<lambda>builder.
                    try_bind (ChildLayerFileBuilderPhase2_remove_id_triples e builder remove_triples) (\<lambda>builder.
                    ChildLayerFileBuilderPhase2_finalize e builder)) }) })"

definition commit_base ::
  "env \<Rightarrow> sorters \<Rightarrow> PartiallyResolvedTriple list \<Rightarrow> bytes list \<times> bytes list \<times> bytes list \<Rightarrow>
    BaseLayerMaps io_result" where
  "commit_base e so additions unresolved =
    (case unresolved of (unresolved_nodes, unresolved_predicates, unresolved_values) \<Rightarrow>
     do { let builder = BaseLayerFileBuilder_from_files;
          (node_ids, builder) \<leftarrow> BaseLayerFileBuilder_add_nodes builder unresolved_nodes;
          (predicate_ids, builder) \<leftarrow> BaseLayerFileBuilder_add_predicates builder unresolved_predicates;
          (value_ids, builder) \<leftarrow> BaseLayerFileBuilder_add_values builder unresolved_values;
          try_bind (BaseLayerFileBuilder_into_phase2 e builder) (\<lambda>builder.
            let node_map = id_table unresolved_nodes node_ids 0;
                predicate_map = id_table unresolved_predicates predicate_ids 0;
                value_map = id_table unresolved_values value_ids (of_nat (length node_map))
            in do { add_triples \<leftarrow> resolve_additions so additions node_map predicate_map value_map;
                    try_bind (BaseLayerFileBuilderPhase2_add_id_triples builder add_triples) (\<lambda>builder.
                    BaseLayerFileBuilderPhase2_finalize e builder) }) })"

definition SimpleLayerBuilder_commit ::
  "env \<Rightarrow> sorters \<Rightarrow> usize \<Rightarrow> SimpleLayerBuilder \<Rightarrow> LayerMaps io_result" where
  "SimpleLayerBuilder_commit e so sz self =
    do { additions \<leftarrow> partially_resolved e so sz (sb_parent self) (sb_additions self) (sb_id_additions self);
         removals \<leftarrow> partially_resolved e so sz (sb_parent self) (sb_removals self) (sb_id_removals self);
         let (additions, removals) = zero_equivalents additions removals;
         let removals = (if sb_parent self \<noteq> None
           then map PartiallyResolvedTriple_make_resolved_or_zero removals else removals);
         let unresolved = collect_unresolved_strings so additions;
         case sb_parent self of
           Some parent \<Rightarrow>
             try_bind (commit_child e so sz parent additions removals unresolved) (\<lambda>maps. Some (Inr (ChildMaps maps)))
         | None \<Rightarrow> try_bind (commit_base e so additions unresolved) (\<lambda>maps. Some (Inr (BaseMaps maps))) }"

end
