(* ===== verification/CommitChanges.thy ===== *)
theory CommitChanges
  imports SimpleBuilder BuiltLayers
begin

text \<open>
  The steps of a commit: the cancelling of equal additions and removals, the dictionaries of
  the new strings, the lookups in a layer with new dictionaries over its parent, and the
  sorted ids of the additions and the removals.
\<close>

section \<open>Cancelling additions and removals\<close>

lemma sorted_wrt_takeWhile: "sorted_wrt P xs \<Longrightarrow> sorted_wrt P (takeWhile Q xs)"
  using sorted_wrt_append [of P "takeWhile Q xs" "dropWhile Q xs"] by simp

lemma sorted_wrt_dropWhile: "sorted_wrt P xs \<Longrightarrow> sorted_wrt P (dropWhile Q xs)"
  using sorted_wrt_append [of P "takeWhile Q xs" "dropWhile Q xs"] by simp

lemma zero_equivalents_eq:
  assumes "sorted_wrt (<) adds" "sorted_wrt (<) rems"
  shows "zero_equivalents adds rems =
    (map (\<lambda>t. if t \<in> set rems then zero_triple else t) adds,
     map (\<lambda>t. if t \<in> set adds then zero_triple else t) rems)"
  using assms
proof (induction adds rems rule: zero_equivalents.induct)
  case (2 a as rems)
  define sk where "sk = takeWhile (\<lambda>r. r < a) rems"
  define rest where "rest = dropWhile (\<lambda>r. r < a) rems"
  have rems: "rems = sk @ rest" by (simp add: sk_def rest_def)
  have sk: "\<forall>r\<in>set sk. r < a" unfolding sk_def using set_takeWhileD by fastforce
  have as: "\<forall>b\<in>set as. a < b" "sorted_wrt (<) as" using "2.prems"(1) by simp_all
  have sk': "map (\<lambda>t. if t \<in> set (a # as) then zero_triple else t) sk = sk"
    using sk as(1) by (intro map_idI) (auto dest: order.strict_trans)
  have srest: "sorted_wrt (<) rest" using "2.prems"(2) unfolding rest_def by (rule sorted_wrt_dropWhile)
  show ?case
  proof (cases rest)
    case Nil
    then have "\<forall>t\<in>set (a # as). t \<notin> set rems" using rems sk as(1) by (auto dest: order.strict_trans)
    then have "map (\<lambda>t. if t \<in> set rems then zero_triple else t) (a # as) = a # as" by (intro map_idI) auto
    moreover have "map (\<lambda>t. if t \<in> set (a # as) then zero_triple else t) rems = rems" using sk' rems Nil by simp
    moreover have "zero_equivalents (a # as) rems = (a # as, rems)"
      using Nil by (simp add: rest_def [symmetric])
    ultimately show ?thesis by (simp only:)
  next
    case (Cons r rs)
    have ra: "\<not> r < a" using Cons unfolding rest_def by (metis hd_dropWhile list.distinct(1) list.sel(1))
    have rs: "\<forall>x\<in>set rs. r < x" "sorted_wrt (<) rs" using srest Cons by simp_all
    have insk: "t \<in> set rems \<longleftrightarrow> t \<in> set rest" if "a \<le> t" for t using rems sk that by auto
    show ?thesis
    proof (cases "r = a")
      case True
      have as': "map (\<lambda>t. if t \<in> set rs then zero_triple else t) as = map (\<lambda>t. if t \<in> set rems then zero_triple else t) as"
        using as(1) insk Cons True by (auto intro!: map_cong dest: less_imp_le)
      have rs': "map (\<lambda>t. if t \<in> set as then zero_triple else t) rs = map (\<lambda>t. if t \<in> set (a # as) then zero_triple else t) rs"
        using rs(1) True by (auto intro!: map_cong)
      have "a \<in> set rems" using rems Cons True by simp
      moreover have "zero_equivalents as rs = (map (\<lambda>t. if t \<in> set rs then zero_triple else t) as,
          map (\<lambda>t. if t \<in> set as then zero_triple else t) rs)"
        using "2.IH"(1) [OF sk_def _ True as(2) rs(2)] Cons by (simp add: rest_def)
      ultimately show ?thesis
        using Cons True sk' as' rs' unfolding rems [symmetric]
        by (simp add: sk_def [symmetric] rest_def [symmetric]) (simp add: rems Cons)
    next
      case False
      then have "a < r" using ra by simp
      then have a: "a \<notin> set rems" using insk [of a] Cons rs(1) by (auto dest: order.strict_trans)
      have as': "map (\<lambda>t. if t \<in> set (r # rs) then zero_triple else t) as = map (\<lambda>t. if t \<in> set rems then zero_triple else t) as"
        using as(1) insk Cons by (auto intro!: map_cong dest: less_imp_le)
      have rs': "map (\<lambda>t. if t \<in> set as then zero_triple else t) (r # rs) = map (\<lambda>t. if t \<in> set (a # as) then zero_triple else t) (r # rs)"
        using rs(1) \<open>a < r\<close> by (auto intro!: map_cong)
      have "zero_equivalents as (r # rs) = (map (\<lambda>t. if t \<in> set (r # rs) then zero_triple else t) as,
          map (\<lambda>t. if t \<in> set as then zero_triple else t) (r # rs))"
        using "2.IH"(2) [OF sk_def _ False as(2)] srest Cons by (simp add: rest_def)
      then show ?thesis
        using Cons False sk' a unfolding as' rs'
        by (simp add: sk_def [symmetric] rest_def [symmetric]) (simp add: rems Cons)
    qed
  qed
qed simp

section \<open>The dictionaries of the new strings\<close>

text \<open>Adding strings to one of the dictionaries of a builder is adding them to that dictionary.\<close>

lemma add_strings_lift:
  assumes add: "\<And>self s. P s \<Longrightarrow> Q self \<Longrightarrow>
      add self s = do { (i, b) \<leftarrow> PfcDictFileBuilder_add (get self) s; Some (i, put b self) }"
    and "\<And>self. Q self \<Longrightarrow> put (get self) self = self" "\<And>b self. get (put b self) = b"
    and "\<And>b b' self. put b' (put b self) = put b' self" "\<And>b self. Q self \<Longrightarrow> Q (put b self)"
    and "\<forall>s\<in>set ss. P s" "Q self"
  shows "add_strings add self ss =
    do { (ids, b) \<leftarrow> PfcDictFileBuilder_add_all (get self) ss; Some (ids, put b self) }"
  using assms(6,7)
proof (induction ss arbitrary: self)
  case (Cons s ss)
  then show ?case by (auto simp: add assms(3-5) split: bind_splits)
qed (simp add: assms(2))

lemma add_strings_new:
  assumes "\<And>self s. P s \<Longrightarrow> Q self \<Longrightarrow>
      add self s = do { (i, b) \<leftarrow> PfcDictFileBuilder_add (get self) s; Some (i, put b self) }"
    and "\<And>self. Q self \<Longrightarrow> put (get self) self = self" "\<And>b self. get (put b self) = b"
    and "\<And>b b' self. put b' (put b self) = put b' self" "\<And>b self. Q self \<Longrightarrow> Q (put b self)"
    and "\<forall>s\<in>set ss. P s" "Q self" and new: "get self = PfcDictFileBuilder_new [] []" and ok: "dict_ok ss"
  shows "\<exists>b. pfb_inv b ss \<and> add_strings add self ss = Some (map of_nat [1..<length ss + 1], put b self)"
proof -
  obtain b where "PfcDictFileBuilder_add_all (PfcDictFileBuilder_new [] []) ss = Some (map of_nat [1..<length ss + 1], b)"
    "pfb_inv b ss" by (rule add_all_new [OF dict_ok_str_ok [OF ok]])
  then show ?thesis using add_strings_lift [where P = P, OF assms(1-7)] new by auto
qed

context build_env
begin

lemma dictionary_finalized:
  assumes inv: "pfb_inv b ss" and ok: "dict_ok ss"
  obtains files d where "PfcDictFileBuilder_finalize (env_order e) b = Some (Inr files)"
    "dictionary_len e files = Some (Inr (length ss))" "load_dictionary e files = Some d" "pd_wf d ss"
proof -
  obtain pad offsets d where
    "PfcDictFileBuilder_finalize (env_order e) b =
      Some (Inr (enc_from ss 0 @ replicate pad 0 @ to_be_bytes (of_nat (length ss)), offsets))"
    "PfcDict_parse (env_order e) (enc_from ss 0 @ replicate pad 0 @ to_be_bytes (of_nat (length ss))) offsets =
      Some (Inr d)" "pd_wf d ss" by (rule finalize_parse [OF inv ok])
  then show ?thesis
    using that pd_wf_length(2) [of d ss]
    by (simp add: dictionary_len_def load_dictionary_def unwrap_def PfcDict_len_def)
qed

lemma dictionaries_finalized:
  assumes ds: "ds = \<lparr>ds_node_dictionary_builder = bn, ds_predicate_dictionary_builder = bp, ds_value_dictionary_builder = bv\<rparr>"
    and inv: "pfb_inv bn N" "pfb_inv bp P" "pfb_inv bv W" and ok: "dict_ok N" "dict_ok P" "dict_ok W"
  obtains nf pf vf nd pd vd where "DictionarySetFileBuilder_finalize e ds = Some (Inr (nf, pf, vf))"
    "dictionary_lens e (nf, pf, vf) = Some (Inr (length N, length P, length W))"
    "load_dictionary e nf = Some nd" "load_dictionary e pf = Some pd" "load_dictionary e vf = Some vd"
    "pd_wf nd N" "pd_wf pd P" "pd_wf vd W"
proof -
  obtain nf nd where n: "PfcDictFileBuilder_finalize (env_order e) bn = Some (Inr nf)"
    "dictionary_len e nf = Some (Inr (length N))" "load_dictionary e nf = Some nd" "pd_wf nd N"
    by (rule dictionary_finalized [OF inv(1) ok(1)])
  obtain pf pd where p: "PfcDictFileBuilder_finalize (env_order e) bp = Some (Inr pf)"
    "dictionary_len e pf = Some (Inr (length P))" "load_dictionary e pf = Some pd" "pd_wf pd P"
    by (rule dictionary_finalized [OF inv(2) ok(2)])
  obtain vf vd where v: "PfcDictFileBuilder_finalize (env_order e) bv = Some (Inr vf)"
    "dictionary_len e vf = Some (Inr (length W))" "load_dictionary e vf = Some vd" "pd_wf vd W"
    by (rule dictionary_finalized [OF inv(3) ok(3)])
  show ?thesis
    by (rule that [of nf pf vf nd pd vd])
      (use n p v in \<open>simp_all add: DictionarySetFileBuilder_finalize_def ds dictionary_lens_def\<close>)
qed

text \<open>The first phase of a base layer.\<close>

lemma base_dictionaries:
  assumes ok: "dict_ok N" "dict_ok P" "dict_ok W"
  obtains b1 b2 b3 nf pf vf nd pd vd where
    "BaseLayerFileBuilder_add_nodes BaseLayerFileBuilder_from_files N = Some (map of_nat [1..<length N + 1], b1)"
    "BaseLayerFileBuilder_add_predicates b1 P = Some (map of_nat [1..<length P + 1], b2)"
    "BaseLayerFileBuilder_add_values b2 W = Some (map of_nat [1..<length W + 1], b3)"
    "BaseLayerFileBuilder_into_phase2 e b3 =
      Some (Inr (BaseLayerFileBuilderPhase2_new e (nf, pf, vf) (length N) (length P) (length W)))"
    "dictionary_lens e (nf, pf, vf) = Some (Inr (length N, length P, length W))"
    "load_dictionary e nf = Some nd" "load_dictionary e pf = Some pd" "load_dictionary e vf = Some vd"
    "pd_wf nd N" "pd_wf pd P" "pd_wf vd W"
proof -
  let ?d0 = DictionarySetFileBuilder_from_files
  obtain bn where bn: "pfb_inv bn N" "add_strings DictionarySetFileBuilder_add_node ?d0 N =
      Some (map of_nat [1..<length N + 1], ?d0\<lparr>ds_node_dictionary_builder := bn\<rparr>)"
    using add_strings_new [where P = "\<lambda>_. True" and Q = "\<lambda>_. True" and get = ds_node_dictionary_builder
        and put = "\<lambda>b self. self\<lparr>ds_node_dictionary_builder := b\<rparr>" and add = DictionarySetFileBuilder_add_node
        and self = ?d0, OF _ _ _ _ _ _ _ _ ok(1)]
    by (auto simp: DictionarySetFileBuilder_add_node_def DictionarySetFileBuilder_from_files_def)
  let ?d1 = "?d0\<lparr>ds_node_dictionary_builder := bn\<rparr>"
  obtain bp where bp: "pfb_inv bp P" "add_strings DictionarySetFileBuilder_add_predicate ?d1 P =
      Some (map of_nat [1..<length P + 1], ?d1\<lparr>ds_predicate_dictionary_builder := bp\<rparr>)"
    using add_strings_new [where P = "\<lambda>_. True" and Q = "\<lambda>_. True" and get = ds_predicate_dictionary_builder
        and put = "\<lambda>b self. self\<lparr>ds_predicate_dictionary_builder := b\<rparr>" and add = DictionarySetFileBuilder_add_predicate
        and self = ?d1, OF _ _ _ _ _ _ _ _ ok(2)]
    by (auto simp: DictionarySetFileBuilder_add_predicate_def DictionarySetFileBuilder_from_files_def)
  let ?d2 = "?d1\<lparr>ds_predicate_dictionary_builder := bp\<rparr>"
  obtain bv where bv: "pfb_inv bv W" "add_strings DictionarySetFileBuilder_add_value ?d2 W =
      Some (map of_nat [1..<length W + 1], ?d2\<lparr>ds_value_dictionary_builder := bv\<rparr>)"
    using add_strings_new [where P = "\<lambda>_. True" and Q = "\<lambda>_. True" and get = ds_value_dictionary_builder
        and put = "\<lambda>b self. self\<lparr>ds_value_dictionary_builder := b\<rparr>" and add = DictionarySetFileBuilder_add_value
        and self = ?d2, OF _ _ _ _ _ _ _ _ ok(3)]
    by (auto simp: DictionarySetFileBuilder_add_value_def DictionarySetFileBuilder_from_files_def)
  let ?d3 = "?d2\<lparr>ds_value_dictionary_builder := bv\<rparr>"
  have "?d3 = \<lparr>ds_node_dictionary_builder = bn, ds_predicate_dictionary_builder = bp, ds_value_dictionary_builder = bv\<rparr>"
    by simp
  from dictionaries_finalized [OF this bn(1) bp(1) bv(1) ok] obtain nf pf vf nd pd vd where
    F: "DictionarySetFileBuilder_finalize e ?d3 = Some (Inr (nf, pf, vf))"
    "dictionary_lens e (nf, pf, vf) = Some (Inr (length N, length P, length W))"
    "load_dictionary e nf = Some nd" "load_dictionary e pf = Some pd" "load_dictionary e vf = Some vd"
    "pd_wf nd N" "pd_wf pd P" "pd_wf vd W" .
  show ?thesis
  proof (rule that [OF _ _ _ _ F(2-8)])
    show "BaseLayerFileBuilder_add_nodes BaseLayerFileBuilder_from_files N =
        Some (map of_nat [1..<length N + 1], \<lparr>bfb_builder = ?d1\<rparr>)"
      "BaseLayerFileBuilder_add_predicates \<lparr>bfb_builder = ?d1\<rparr> P = Some (map of_nat [1..<length P + 1], \<lparr>bfb_builder = ?d2\<rparr>)"
      "BaseLayerFileBuilder_add_values \<lparr>bfb_builder = ?d2\<rparr> W = Some (map of_nat [1..<length W + 1], \<lparr>bfb_builder = ?d3\<rparr>)"
      using bn(2) bp(2) bv(2)
      by (simp_all add: BaseLayerFileBuilder_add_nodes_def BaseLayerFileBuilder_add_predicates_def
          BaseLayerFileBuilder_add_values_def bfb_add_def BaseLayerFileBuilder_from_files_def
          DictionarySetFileBuilder_add_nodes_def DictionarySetFileBuilder_add_predicates_def
          DictionarySetFileBuilder_add_values_def)
    show "BaseLayerFileBuilder_into_phase2 e \<lparr>bfb_builder = ?d3\<rparr> =
        Some (Inr (BaseLayerFileBuilderPhase2_new e (nf, pf, vf) (length N) (length P) (length W)))"
      using F(1,2) by (simp add: BaseLayerFileBuilder_into_phase2_def)
  qed
qed

end

text \<open>The first phase of a child layer, for strings that the parent does not know.\<close>

context build_env
begin

lemma child_dictionaries:
  assumes ok: "dict_ok N" "dict_ok P" "dict_ok W"
    and N: "\<forall>s\<in>set N. InternalLayer_subject_id (env_order e) sz parent s = Some None"
    and P: "\<forall>s\<in>set P. InternalLayer_predicate_id (env_order e) sz parent s = Some None"
    and W: "\<forall>s\<in>set W. InternalLayer_object_value_id (env_order e) sz parent s = Some None"
  obtains b1 b2 b3 nf pf vf nd pd vd where
    "ChildLayerFileBuilder_add_nodes e sz (ChildLayerFileBuilder_from_files parent) N = Some (map of_nat [1..<length N + 1], b1)"
    "ChildLayerFileBuilder_add_predicates e sz b1 P = Some (map of_nat [1..<length P + 1], b2)"
    "ChildLayerFileBuilder_add_values e sz b2 W = Some (map of_nat [1..<length W + 1], b3)"
    "ChildLayerFileBuilder_into_phase2 e b3 =
      Some (Inr (ChildLayerFileBuilderPhase2_new e parent (nf, pf, vf) (length N) (length P) (length W)))"
    "dictionary_lens e (nf, pf, vf) = Some (Inr (length N, length P, length W))"
    "load_dictionary e nf = Some nd" "load_dictionary e pf = Some pd" "load_dictionary e vf = Some vd"
    "pd_wf nd N" "pd_wf pd P" "pd_wf vd W"
proof -
  let ?d0 = "ChildLayerFileBuilder_from_files parent"
  define putn where "putn = (\<lambda>b (self :: ChildLayerFileBuilder). self\<lparr>cfb_builder := (cfb_builder self)\<lparr>ds_node_dictionary_builder := b\<rparr>\<rparr>)"
  define putp where "putp = (\<lambda>b (self :: ChildLayerFileBuilder). self\<lparr>cfb_builder := (cfb_builder self)\<lparr>ds_predicate_dictionary_builder := b\<rparr>\<rparr>)"
  define putv where "putv = (\<lambda>b (self :: ChildLayerFileBuilder). self\<lparr>cfb_builder := (cfb_builder self)\<lparr>ds_value_dictionary_builder := b\<rparr>\<rparr>)"
  note put = putn_def putp_def putv_def
  have par: "cfb_parent ?d0 = parent" "\<And>b self. cfb_parent (putn b self) = cfb_parent self"
    "\<And>b self. cfb_parent (putp b self) = cfb_parent self"
    by (simp_all add: ChildLayerFileBuilder_from_files_def put)
  have "\<exists>b. pfb_inv b N \<and> add_strings (ChildLayerFileBuilder_add_node e sz) ?d0 N = Some (map of_nat [1..<length N + 1], putn b ?d0)"
    by (rule add_strings_new [where P = "\<lambda>s. InternalLayer_subject_id (env_order e) sz parent s = Some None"
        and Q = "\<lambda>self. cfb_parent self = parent" and get = "\<lambda>self. ds_node_dictionary_builder (cfb_builder self)"])
      (simp_all add: put par N ok ChildLayerFileBuilder_add_node_def cfb_add_def DictionarySetFileBuilder_add_node_def
        ChildLayerFileBuilder_from_files_def DictionarySetFileBuilder_from_files_def split: bind_splits)
  then obtain bn where bn: "pfb_inv bn N"
    "add_strings (ChildLayerFileBuilder_add_node e sz) ?d0 N = Some (map of_nat [1..<length N + 1], putn bn ?d0)" by blast
  let ?d1 = "putn bn ?d0"
  have "\<exists>b. pfb_inv b P \<and> add_strings (ChildLayerFileBuilder_add_predicate e sz) ?d1 P = Some (map of_nat [1..<length P + 1], putp b ?d1)"
    by (rule add_strings_new [where P = "\<lambda>s. InternalLayer_predicate_id (env_order e) sz parent s = Some None"
        and Q = "\<lambda>self. cfb_parent self = parent" and get = "\<lambda>self. ds_predicate_dictionary_builder (cfb_builder self)"])
      (simp_all add: put par P ok ChildLayerFileBuilder_add_predicate_def cfb_add_def DictionarySetFileBuilder_add_predicate_def
        ChildLayerFileBuilder_from_files_def DictionarySetFileBuilder_from_files_def split: bind_splits)
  then obtain bp where bp: "pfb_inv bp P"
    "add_strings (ChildLayerFileBuilder_add_predicate e sz) ?d1 P = Some (map of_nat [1..<length P + 1], putp bp ?d1)" by blast
  let ?d2 = "putp bp ?d1"
  have "\<exists>b. pfb_inv b W \<and> add_strings (ChildLayerFileBuilder_add_value e sz) ?d2 W = Some (map of_nat [1..<length W + 1], putv b ?d2)"
    by (rule add_strings_new [where P = "\<lambda>s. InternalLayer_object_value_id (env_order e) sz parent s = Some None"
        and Q = "\<lambda>self. cfb_parent self = parent" and get = "\<lambda>self. ds_value_dictionary_builder (cfb_builder self)"])
      (simp_all add: put par W ok ChildLayerFileBuilder_add_value_def cfb_add_def DictionarySetFileBuilder_add_value_def
        ChildLayerFileBuilder_from_files_def DictionarySetFileBuilder_from_files_def split: bind_splits)
  then obtain bv where bv: "pfb_inv bv W"
    "add_strings (ChildLayerFileBuilder_add_value e sz) ?d2 W = Some (map of_nat [1..<length W + 1], putv bv ?d2)" by blast
  let ?d3 = "putv bv ?d2"
  have "cfb_builder ?d3 = \<lparr>ds_node_dictionary_builder = bn, ds_predicate_dictionary_builder = bp, ds_value_dictionary_builder = bv\<rparr>"
    by (simp add: put)
  from dictionaries_finalized [OF this bn(1) bp(1) bv(1) ok] obtain nf pf vf nd pd vd where
    F: "DictionarySetFileBuilder_finalize e (cfb_builder ?d3) = Some (Inr (nf, pf, vf))"
    "dictionary_lens e (nf, pf, vf) = Some (Inr (length N, length P, length W))"
    "load_dictionary e nf = Some nd" "load_dictionary e pf = Some pd" "load_dictionary e vf = Some vd"
    "pd_wf nd N" "pd_wf pd P" "pd_wf vd W" .
  show ?thesis
  proof (rule that [OF _ _ _ _ F(2-8)])
    show "ChildLayerFileBuilder_add_nodes e sz ?d0 N = Some (map of_nat [1..<length N + 1], ?d1)"
      "ChildLayerFileBuilder_add_predicates e sz ?d1 P = Some (map of_nat [1..<length P + 1], ?d2)"
      "ChildLayerFileBuilder_add_values e sz ?d2 W = Some (map of_nat [1..<length W + 1], ?d3)"
      using bn(2) bp(2) bv(2) by (simp_all add: ChildLayerFileBuilder_add_nodes_def
          ChildLayerFileBuilder_add_predicates_def ChildLayerFileBuilder_add_values_def)
    show "ChildLayerFileBuilder_into_phase2 e ?d3 =
        Some (Inr (ChildLayerFileBuilderPhase2_new e parent (nf, pf, vf) (length N) (length P) (length W)))"
      using F(1,2) par by (simp add: ChildLayerFileBuilder_into_phase2_def put)
  qed
qed

end

section \<open>The ids in the new layer\<close>

lemma fold_update_new:
  "distinct (map fst xs) \<Longrightarrow> set (map fst xs) \<inter> fst ` set m = {} \<Longrightarrow>
    fold (\<lambda>(s, i) m. AList.update s (f i) m) xs m = m @ map (\<lambda>(s, i). (s, f i)) xs"
proof (induction xs arbitrary: m)
  case (Cons x xs)
  obtain s i where x: "x = (s, i)" by (cases x)
  have "AList.update s v m = m @ [(s, v)]" if "s \<notin> fst ` set m" for v
    using that by (induction m) auto
  then show ?case using Cons x by auto
qed simp

lemma map_of_zip_position:
  "map_of (zip ss (map f [a..<a + length ss])) s = map_option (\<lambda>k. f (a + k)) (position (\<lambda>t. t = s) ss)"
proof (induction ss arbitrary: a)
  case (Cons x ss)
  have "[a..<a + length (x # ss)] = a # [Suc a..<Suc a + length ss]" by (simp add: upt_conv_Cons del: upt_Suc)
  then show ?case using Cons.IH [of "Suc a"] by (auto simp: option.map_comp comp_def simp del: upt_Suc)
qed simp

lemma id_table_eq:
  assumes "distinct ss"
  shows "map_of (id_table ss (map of_nat [1..<length ss + 1]) off) s =
      map_option (\<lambda>k. of_nat k + 1 + off) (position (\<lambda>t. t = s) ss)"
    and "length (id_table ss (map of_nat [1..<length ss + 1]) off) = length ss"
proof -
  let ?z = "zip ss (map (of_nat :: nat \<Rightarrow> u64) [1..<length ss + 1])"
  have "map fst ?z = ss" by (rule map_fst_zip) (simp del: upt_Suc)
  then have t: "id_table ss (map of_nat [1..<length ss + 1]) off = map (\<lambda>(s, i). (s, i + off)) ?z"
    unfolding id_table_def using fold_update_new [of ?z "[]" "\<lambda>i. i + off"] assms by simp
  have "map (\<lambda>(s, i). (s, i + off)) ?z = zip ss (map (\<lambda>k. of_nat k + off) [1..<1 + length ss])"
    by (simp add: zip_map2 split_def comp_def del: upt_Suc)
  with map_of_zip_position [of ss "\<lambda>k. of_nat k + off" 1 s]
  show "map_of (id_table ss (map of_nat [1..<length ss + 1]) off) s =
      map_option (\<lambda>k. of_nat k + 1 + off) (position (\<lambda>t. t = s) ss)"
    unfolding t by (simp add: algebra_simps)
  show "length (id_table ss (map of_nat [1..<length ss + 1]) off) = length ss" unfolding t by (simp del: upt_Suc)
qed

lemma id_above_parent_walk:
  assumes "look l = Some r"
  shows "id_above_parent cnt (lookup_walk look l) =
    (case r of
       Some i \<Rightarrow> Some (Some (1 + i + (case InternalLayer_immediate_parent l of None \<Rightarrow> 0 | Some p \<Rightarrow> of_nat (cnt p))))
     | None \<Rightarrow> (case InternalLayer_immediate_parent l of None \<Rightarrow> Some None
         | Some p \<Rightarrow> id_above_parent cnt (lookup_walk look p)))"
  using assms
  by (subst lookup_walk.simps) (auto simp: id_above_parent_def split: option.splits)

text \<open>A layer with new dictionaries and no id maps.\<close>

definition fresh_view :: "bytes list \<Rightarrow> bytes list \<Rightarrow> bytes list \<Rightarrow> layer_view" where
  "fresh_view N P W = \<lparr>lv_nodes = N, lv_predicates = P, lv_values = W,
    lv_node_value_perm = [0..<length N + length W], lv_predicate_perm = [0..<length P]\<rparr>"

definition fresh_layer :: "InternalLayer \<Rightarrow> bytes list \<Rightarrow> bytes list \<Rightarrow> bytes list \<Rightarrow> bool" where
  "fresh_layer l N P W \<longleftrightarrow> own_wf l (fresh_view N P W) \<and> parent_counts_ok l \<and>
    InternalLayer_node_value_id_map l = IdMap_default \<and> InternalLayer_predicate_id_map l = IdMap_default"

text \<open>A lookup in the parent, if there is one.\<close>

definition parent_lookup :: "InternalLayer option \<Rightarrow> (InternalLayer \<Rightarrow> u64 option panics) \<Rightarrow> u64 option panics" where
  "parent_lookup par f = (case par of None \<Rightarrow> Some None | Some p \<Rightarrow> f p)"

lemma fresh_layerI:
  assumes "own_dictionaries e (nf, pf, vf) l" "load_dictionary e nf = Some nd" "load_dictionary e pf = Some pd"
    "load_dictionary e vf = Some vd" "pd_wf nd N" "pd_wf pd P" "pd_wf vd W"
    "strictly_sorted N" "strictly_sorted P" "strictly_sorted W"
  shows "fresh_layer l N P W"
  using assms by (simp add: own_dictionaries_def fresh_layer_def own_wf_def fresh_view_def idmap_default_wf)

lemma fresh_layerD:
  assumes "fresh_layer l N P W"
  shows "pd_wf (InternalLayer_node_dictionary l) N" "pd_wf (InternalLayer_predicate_dictionary l) P"
    "pd_wf (InternalLayer_value_dictionary l) W" "strictly_sorted N" "strictly_sorted P" "strictly_sorted W"
    "InternalLayer_node_dict_len l = length N" "InternalLayer_predicate_dict_len l = length P"
    "InternalLayer_value_dict_len l = length W"
    "InternalLayer_node_value_id_map l = IdMap_default" "InternalLayer_predicate_id_map l = IdMap_default"
    "parent_counts_ok l"
proof -
  from assms have own: "own_wf l (fresh_view N P W)" by (simp add: fresh_layer_def)
  from own_wf_lens(1-3) [OF own] show "InternalLayer_node_dict_len l = length N"
    "InternalLayer_predicate_dict_len l = length P" "InternalLayer_value_dict_len l = length W"
    by (simp_all add: fresh_view_def)
qed (use assms in \<open>simp_all add: fresh_layer_def own_wf_def fresh_view_def\<close>)

context big_endian
begin

lemma fresh_lookups:
  assumes f: "fresh_layer l N P W" and s: "s \<noteq> []"
  shows "InternalLayer_subject_id bo sz l s =
      (case position (\<lambda>t. t = s) N of Some k \<Rightarrow> Some (Some (of_nat k + 1 + of_nat (InternalLayer_parent_node_value_count l)))
       | None \<Rightarrow> parent_lookup (InternalLayer_immediate_parent l) (\<lambda>p. InternalLayer_subject_id bo sz p s))"
    and "InternalLayer_object_node_id bo sz l s =
      (case position (\<lambda>t. t = s) N of Some k \<Rightarrow> Some (Some (of_nat k + 1 + of_nat (InternalLayer_parent_node_value_count l)))
       | None \<Rightarrow> parent_lookup (InternalLayer_immediate_parent l) (\<lambda>p. InternalLayer_object_node_id bo sz p s))"
    and "InternalLayer_predicate_id bo sz l s =
      (case position (\<lambda>t. t = s) P of Some k \<Rightarrow> Some (Some (of_nat k + 1 + of_nat (InternalLayer_parent_predicate_count l)))
       | None \<Rightarrow> parent_lookup (InternalLayer_immediate_parent l) (\<lambda>p. InternalLayer_predicate_id bo sz p s))"
    and "InternalLayer_object_value_id bo sz l s =
      (case position (\<lambda>t. t = s) W of
         Some k \<Rightarrow> Some (Some (of_nat k + 1 + (of_nat (InternalLayer_parent_node_value_count l) + of_nat (length N))))
       | None \<Rightarrow> parent_lookup (InternalLayer_immediate_parent l) (\<lambda>p. InternalLayer_object_value_id bo sz p s))"
proof -
  note D = fresh_layerD [OF f]
  have par: "InternalLayer_parent_node_value_count l =
      (case InternalLayer_immediate_parent l of None \<Rightarrow> 0 | Some p \<Rightarrow> InternalLayer_node_and_value_count p)"
    "InternalLayer_parent_predicate_count l =
      (case InternalLayer_immediate_parent l of None \<Rightarrow> 0 | Some p \<Rightarrow> InternalLayer_predicate_count p)"
    using D(12) by (simp_all add: parent_counts_ok_def)
  have id: "IdMap_inner_to_outer bo IdMap_default i = Some i" for i
    by (simp add: IdMap_inner_to_outer_def IdMap_default_def)
  note look = dict_id_position [OF D(1,4) s] dict_id_position [OF D(2,5) s] dict_id_position [OF D(3,6) s]
  show "InternalLayer_subject_id bo sz l s =
      (case position (\<lambda>t. t = s) N of Some k \<Rightarrow> Some (Some (of_nat k + 1 + of_nat (InternalLayer_parent_node_value_count l)))
       | None \<Rightarrow> parent_lookup (InternalLayer_immediate_parent l) (\<lambda>p. InternalLayer_subject_id bo sz p s))"
    unfolding InternalLayer_subject_id_def
    by (subst id_above_parent_walk [where r = "map_option of_nat (position (\<lambda>t. t = s) N)"])
      (auto simp: InternalLayer_node_dict_id_def look D(10) omap_def id parent_lookup_def par split: option.split)
  show "InternalLayer_object_node_id bo sz l s =
      (case position (\<lambda>t. t = s) N of Some k \<Rightarrow> Some (Some (of_nat k + 1 + of_nat (InternalLayer_parent_node_value_count l)))
       | None \<Rightarrow> parent_lookup (InternalLayer_immediate_parent l) (\<lambda>p. InternalLayer_object_node_id bo sz p s))"
    unfolding InternalLayer_object_node_id_def
    by (subst id_above_parent_walk [where r = "map_option of_nat (position (\<lambda>t. t = s) N)"])
      (auto simp: InternalLayer_node_dict_id_def look D(10) omap_def id parent_lookup_def par split: option.split)
  show "InternalLayer_predicate_id bo sz l s =
      (case position (\<lambda>t. t = s) P of Some k \<Rightarrow> Some (Some (of_nat k + 1 + of_nat (InternalLayer_parent_predicate_count l)))
       | None \<Rightarrow> parent_lookup (InternalLayer_immediate_parent l) (\<lambda>p. InternalLayer_predicate_id bo sz p s))"
    unfolding InternalLayer_predicate_id_def
    by (subst id_above_parent_walk [where r = "map_option of_nat (position (\<lambda>t. t = s) P)"])
      (auto simp: InternalLayer_predicate_dict_id_def look D(11) omap_def id parent_lookup_def par split: option.split)
  show "InternalLayer_object_value_id bo sz l s =
      (case position (\<lambda>t. t = s) W of
         Some k \<Rightarrow> Some (Some (of_nat k + 1 + (of_nat (InternalLayer_parent_node_value_count l) + of_nat (length N))))
       | None \<Rightarrow> parent_lookup (InternalLayer_immediate_parent l) (\<lambda>p. InternalLayer_object_value_id bo sz p s))"
    unfolding InternalLayer_object_value_id_def
    by (subst id_above_parent_walk [where r = "map_option (\<lambda>k. of_nat k + of_nat (length N)) (position (\<lambda>t. t = s) W)"])
      (auto simp: InternalLayer_value_dict_id_def look D(7,10) omap_def id parent_lookup_def par algebra_simps split: option.split)
qed

end

text \<open>Triples of strings the dictionaries can hold.\<close>

definition string_ok :: "bytes \<Rightarrow> bool" where
  "string_ok s \<longleftrightarrow> s \<noteq> [] \<and> 0 \<notin> set s \<and> utf8_valid s \<and> length s < 2 ^ 40"

definition triple_strings_ok :: "StringTriple \<Rightarrow> bool" where
  "triple_strings_ok t \<longleftrightarrow> string_ok (st_subject t) \<and> string_ok (st_predicate t) \<and> string_ok (object_string (st_object t))"

text \<open>A triple resolved as far as the parent can.\<close>

definition partial_in :: "byteorder \<Rightarrow> usize \<Rightarrow> InternalLayer option \<Rightarrow> StringTriple \<Rightarrow> PartiallyResolvedTriple panics" where
  "partial_in bo sz par t =
    do { s \<leftarrow> parent_lookup par (\<lambda>p. InternalLayer_subject_id bo sz p (st_subject t));
         pr \<leftarrow> parent_lookup par (\<lambda>p. InternalLayer_predicate_id bo sz p (st_predicate t));
         ob \<leftarrow> parent_lookup par (\<lambda>p. object_id bo sz p (st_object t));
         Some (PartiallyResolvedTriple (resolve_or (st_subject t) s) (resolve_or (st_predicate t) pr)
           (resolve_or (st_object t) ob)) }"

lemma partial_in_simps:
  "partial_in bo sz None t = Some (StringTriple_to_unresolved t)"
  "partial_in bo sz (Some p) t = Layer_string_triple_to_partially_resolved bo sz p t"
  by (simp_all add: partial_in_def parent_lookup_def StringTriple_to_unresolved_def resolve_or_def
      Layer_string_triple_to_partially_resolved_def)

definition parent_wf :: "InternalLayer option \<Rightarrow> (InternalLayer \<Rightarrow> layer_view) \<Rightarrow> bool" where
  "parent_wf par V \<longleftrightarrow> (\<forall>p. par = Some p \<longrightarrow> layer_wf p V)"

lemma resolve_or_eq_iff: "resolve_or x r = resolve_or x' r' \<longleftrightarrow> (case (r, r') of
    (None, None) \<Rightarrow> x = x' | (Some i, Some i') \<Rightarrow> i = i' | _ \<Rightarrow> False)"
  by (simp add: resolve_or_def split: option.split)

context big_endian
begin

lemma parent_lookups:
  assumes wf: "parent_wf par V" and t: "triple_strings_ok t"
  obtains s pr ob where
    "parent_lookup par (\<lambda>p. InternalLayer_subject_id bo sz p (st_subject t)) = Some s"
    "parent_lookup par (\<lambda>p. InternalLayer_predicate_id bo sz p (st_predicate t)) = Some pr"
    "parent_lookup par (\<lambda>p. object_id bo sz p (st_object t)) = Some ob"
    "\<And>i. s = Some i \<Longrightarrow> \<exists>p. par = Some p \<and> InternalLayer_id_subject bo sz p i = Some (Some (st_subject t)) \<and>
      i \<noteq> 0 \<and> unat i \<le> InternalLayer_node_and_value_count p"
    "\<And>i. pr = Some i \<Longrightarrow> \<exists>p. par = Some p \<and> InternalLayer_id_predicate bo sz p i = Some (Some (st_predicate t)) \<and>
      i \<noteq> 0 \<and> unat i \<le> InternalLayer_predicate_count p"
    "\<And>i. ob = Some i \<Longrightarrow> \<exists>p. par = Some p \<and> InternalLayer_id_object bo sz p i = Some (Some (st_object t)) \<and>
      i \<noteq> 0 \<and> unat i \<le> InternalLayer_node_and_value_count p"
proof (cases par)
  case None
  then show ?thesis using that by (simp add: parent_lookup_def)
next
  case (Some p)
  with wf have l: "layer_wf p V" by (simp add: parent_wf_def)
  from t have ne: "st_subject t \<noteq> []" "st_predicate t \<noteq> []" "object_string (st_object t) \<noteq> []"
    by (simp_all add: triple_strings_ok_def string_ok_def)
  from subject_id_roundtrip [OF l ne(1), of sz] obtain s where s: "InternalLayer_subject_id bo sz p (st_subject t) = Some s"
    "\<And>i. s = Some i \<Longrightarrow> i \<noteq> 0 \<and> unat i \<le> InternalLayer_node_and_value_count p \<and>
      InternalLayer_id_subject bo sz p i = Some (Some (st_subject t))" by blast
  from predicate_id_roundtrip [OF l ne(2), of sz] obtain pr where pr: "InternalLayer_predicate_id bo sz p (st_predicate t) = Some pr"
    "\<And>i. pr = Some i \<Longrightarrow> i \<noteq> 0 \<and> unat i \<le> InternalLayer_predicate_count p \<and>
      InternalLayer_id_predicate bo sz p i = Some (Some (st_predicate t))" by blast
  obtain ob where ob: "object_id bo sz p (st_object t) = Some ob"
    "\<And>i. ob = Some i \<Longrightarrow> i \<noteq> 0 \<and> unat i \<le> InternalLayer_node_and_value_count p \<and>
      InternalLayer_id_object bo sz p i = Some (Some (st_object t))"
  proof (cases "st_object t")
    case (Node n)
    then show ?thesis using that subject_id_roundtrip [OF l, of n sz] ne(3) by (auto simp: object_id_def)
  next
    case (Value v)
    then show ?thesis using that object_value_id_roundtrip [OF l, of v sz] ne(3) by (auto simp: object_id_def)
  qed
  show ?thesis by (rule that [of s pr ob]) (use s pr ob Some in \<open>auto simp: parent_lookup_def\<close>)
qed

lemma partial_in_total:
  assumes "parent_wf par V" "triple_strings_ok t"
  shows "partial_in bo sz par t = Some (the (partial_in bo sz par t))"
proof -
  obtain s pr ob where "parent_lookup par (\<lambda>p. InternalLayer_subject_id bo sz p (st_subject t)) = Some s"
    "parent_lookup par (\<lambda>p. InternalLayer_predicate_id bo sz p (st_predicate t)) = Some pr"
    "parent_lookup par (\<lambda>p. object_id bo sz p (st_object t)) = Some ob"
    by (rule parent_lookups [OF assms, of sz])
  then show ?thesis by (simp add: partial_in_def)
qed

lemma partial_in_inj:
  assumes wf: "parent_wf par V" and t: "triple_strings_ok t" "triple_strings_ok t'"
    and eq: "partial_in bo sz par t = partial_in bo sz par t'"
  shows "t = t'"
proof -
  obtain s pr ob where a: "parent_lookup par (\<lambda>p. InternalLayer_subject_id bo sz p (st_subject t)) = Some s"
    "parent_lookup par (\<lambda>p. InternalLayer_predicate_id bo sz p (st_predicate t)) = Some pr"
    "parent_lookup par (\<lambda>p. object_id bo sz p (st_object t)) = Some ob"
    and A: "\<And>i. s = Some i \<Longrightarrow> \<exists>p. par = Some p \<and> InternalLayer_id_subject bo sz p i = Some (Some (st_subject t))"
    "\<And>i. pr = Some i \<Longrightarrow> \<exists>p. par = Some p \<and> InternalLayer_id_predicate bo sz p i = Some (Some (st_predicate t))"
    "\<And>i. ob = Some i \<Longrightarrow> \<exists>p. par = Some p \<and> InternalLayer_id_object bo sz p i = Some (Some (st_object t))"
    by (rule parent_lookups [OF wf t(1), of sz]) blast
  obtain s' pr' ob' where b: "parent_lookup par (\<lambda>p. InternalLayer_subject_id bo sz p (st_subject t')) = Some s'"
    "parent_lookup par (\<lambda>p. InternalLayer_predicate_id bo sz p (st_predicate t')) = Some pr'"
    "parent_lookup par (\<lambda>p. object_id bo sz p (st_object t')) = Some ob'"
    and B: "\<And>i. s' = Some i \<Longrightarrow> \<exists>p. par = Some p \<and> InternalLayer_id_subject bo sz p i = Some (Some (st_subject t'))"
    "\<And>i. pr' = Some i \<Longrightarrow> \<exists>p. par = Some p \<and> InternalLayer_id_predicate bo sz p i = Some (Some (st_predicate t'))"
    "\<And>i. ob' = Some i \<Longrightarrow> \<exists>p. par = Some p \<and> InternalLayer_id_object bo sz p i = Some (Some (st_object t'))"
    by (rule parent_lookups [OF wf t(2), of sz]) blast
  from eq have "resolve_or (st_subject t) s = resolve_or (st_subject t') s'"
    "resolve_or (st_predicate t) pr = resolve_or (st_predicate t') pr'"
    "resolve_or (st_object t) ob = resolve_or (st_object t') ob'"
    by (simp_all add: partial_in_def a b)
  then have "st_subject t = st_subject t'" "st_predicate t = st_predicate t'" "st_object t = st_object t'"
    using A B unfolding resolve_or_eq_iff by (fastforce split: option.splits)+
  then show ?thesis by (simp add: StringTriple.expand)
qed

lemma partial_in_image:
  assumes wf: "parent_wf par V" and t: "triple_strings_ok t" and R: "\<forall>u\<in>R. triple_strings_ok u"
  shows "the (partial_in bo sz par t) \<in> (\<lambda>t. the (partial_in bo sz par t)) ` R \<longleftrightarrow> t \<in> R"
proof
  assume "the (partial_in bo sz par t) \<in> (\<lambda>t. the (partial_in bo sz par t)) ` R"
  then obtain u where u: "u \<in> R" "the (partial_in bo sz par t) = the (partial_in bo sz par u)" by blast
  have "partial_in bo sz par t = partial_in bo sz par u"
    using partial_in_total [OF wf t, of sz] partial_in_total [OF wf, of u sz] u R by simp
  then show "t \<in> R" using partial_in_inj [OF wf t, of u sz] u R by simp
qed simp

end

text \<open>
  The tables of the commit give the new strings the ids that the lookups of the new layer find,
  so that resolving a triple is looking it up in the new layer.
\<close>

definition new_strings :: "byteorder \<Rightarrow> usize \<Rightarrow> InternalLayer option \<Rightarrow> bytes list \<Rightarrow> bytes list \<Rightarrow> bytes list \<Rightarrow> bool" where
  "new_strings bo sz par N P W \<longleftrightarrow>
    (\<forall>s\<in>set N. parent_lookup par (\<lambda>p. InternalLayer_subject_id bo sz p s) = Some None) \<and>
    (\<forall>s\<in>set P. parent_lookup par (\<lambda>p. InternalLayer_predicate_id bo sz p s) = Some None) \<and>
    (\<forall>s\<in>set W. parent_lookup par (\<lambda>p. InternalLayer_object_value_id bo sz p s) = Some None)"

definition new_ids :: "bytes list \<Rightarrow> u64 \<Rightarrow> bytes \<rightharpoonup> u64" where
  "new_ids ss off = map_of (id_table ss (map of_nat [1..<length ss + 1]) off)"

lemma object_node_id_eq: "InternalLayer_object_node_id = InternalLayer_subject_id"
  by (simp add: fun_eq_iff InternalLayer_object_node_id_def InternalLayer_subject_id_def)

lemma resolve_component:
  assumes "distinct ss" "s \<in> set ss \<Longrightarrow> look = Some None" "look = Some r"
  shows "(case position (\<lambda>t. t = s) ss of Some k \<Rightarrow> Some (Some (of_nat k + 1 + off)) | None \<Rightarrow> look) =
    Some (case resolve_or x r of Unresolved _ \<Rightarrow> new_ids ss off s | Resolved i \<Rightarrow> Some i)"
proof (cases "s \<in> set ss")
  case True
  then obtain k where "position (\<lambda>t. t = s) ss = Some k" using position_distinct [OF assms(1)] by (metis in_set_conv_nth)
  moreover have "r = None" using assms(2,3) True by simp
  ultimately show ?thesis using id_table_eq(1) [OF assms(1), of off s] by (simp add: new_ids_def resolve_or_def del: upt_Suc)
next
  case False
  then show ?thesis
    using assms(3) id_table_eq(1) [OF assms(1), of off s] position_absent [of s ss]
    by (simp add: new_ids_def resolve_or_def del: upt_Suc split: option.split)
qed

context big_endian
begin

lemma resolve_fresh:
  assumes f: "fresh_layer l N P W" and par: "par = InternalLayer_immediate_parent l" and wf: "parent_wf par V"
    and t: "triple_strings_ok t" and new: "new_strings bo sz par N P W"
    and off: "off = of_nat (InternalLayer_parent_node_value_count l)" "poff = of_nat (InternalLayer_parent_predicate_count l)"
  shows "Layer_string_triple_to_id bo sz l t =
    Some (PartiallyResolvedTriple_resolve_with (the (partial_in bo sz par t)) (new_ids N off) (new_ids P poff)
      (new_ids W (off + of_nat (length N))))"
proof -
  note D = fresh_layerD [OF f]
  from t have ne: "st_subject t \<noteq> []" "st_predicate t \<noteq> []" "object_string (st_object t) \<noteq> []"
    by (simp_all add: triple_strings_ok_def string_ok_def)
  obtain s pr ob where a: "parent_lookup par (\<lambda>p. InternalLayer_subject_id bo sz p (st_subject t)) = Some s"
    "parent_lookup par (\<lambda>p. InternalLayer_predicate_id bo sz p (st_predicate t)) = Some pr"
    "parent_lookup par (\<lambda>p. object_id bo sz p (st_object t)) = Some ob"
    by (rule parent_lookups [OF wf t, of sz])
  note L = fresh_lookups [OF f, of _ sz, folded par off]
  note dist = D(4-6) [THEN strictly_sorted_distinct]
  have "InternalLayer_subject_id bo sz l (st_subject t) =
      Some (case resolve_or (st_subject t) s of Unresolved _ \<Rightarrow> new_ids N off (st_subject t) | Resolved i \<Rightarrow> Some i)"
    unfolding L(1) [OF ne(1)] by (rule resolve_component [OF dist(1) _ a(1)]) (use new in \<open>simp add: new_strings_def\<close>)
  moreover have "InternalLayer_predicate_id bo sz l (st_predicate t) =
      Some (case resolve_or (st_predicate t) pr of Unresolved _ \<Rightarrow> new_ids P poff (st_predicate t) | Resolved i \<Rightarrow> Some i)"
    unfolding L(3) [OF ne(2)] by (rule resolve_component [OF dist(2) _ a(2)]) (use new in \<open>simp add: new_strings_def\<close>)
  moreover have "object_id bo sz l (st_object t) =
      Some (case resolve_or (st_object t) ob of
          Unresolved (Node n) \<Rightarrow> new_ids N off n
        | Unresolved (Value v) \<Rightarrow> new_ids W (off + of_nat (length N)) v
        | Resolved i \<Rightarrow> Some i)"
  proof (cases "st_object t")
    case (Node n)
    with a(3) ne(3) have n: "n \<noteq> []" "parent_lookup par (\<lambda>p. InternalLayer_subject_id bo sz p n) = Some ob"
      by (simp_all add: object_id_def object_node_id_eq)
    have "InternalLayer_subject_id bo sz l n =
        Some (case resolve_or (Node n) ob of Unresolved _ \<Rightarrow> new_ids N off n | Resolved i \<Rightarrow> Some i)"
      unfolding L(1) [OF n(1)] by (rule resolve_component [OF dist(1) _ n(2)]) (use new in \<open>simp add: new_strings_def\<close>)
    then show ?thesis using Node by (simp add: object_id_def object_node_id_eq resolve_or_def split: option.split)
  next
    case (Value v)
    with a(3) ne(3) have v: "v \<noteq> []" "parent_lookup par (\<lambda>p. InternalLayer_object_value_id bo sz p v) = Some ob"
      by (simp_all add: object_id_def)
    have "InternalLayer_object_value_id bo sz l v =
        Some (case resolve_or (Value v) ob of Unresolved _ \<Rightarrow> new_ids W (off + of_nat (length N)) v | Resolved i \<Rightarrow> Some i)"
      unfolding L(4) [OF v(1)] by (rule resolve_component [OF dist(3) _ v(2)]) (use new in \<open>simp add: new_strings_def\<close>)
    then show ?thesis using Value by (simp add: object_id_def resolve_or_def split: option.split)
  qed
  moreover have "the (partial_in bo sz par t) =
      PartiallyResolvedTriple (resolve_or (st_subject t) s) (resolve_or (st_predicate t) pr) (resolve_or (st_object t) ob)"
    by (simp add: partial_in_def a)
  ultimately show ?thesis
    unfolding Layer_string_triple_to_id_def PartiallyResolvedTriple_resolve_with_def
    by (auto simp: resolve_or_def split: option.splits bind_splits)
qed

end

section \<open>The new layer over its parent\<close>

lemma counts_from_eq:
  assumes "\<And>p k. par = Some p \<Longrightarrow> k \<in> set (layers_from p) \<Longrightarrow> parent_counts_ok k"
  shows "lc_node_count (counts_from par c) + lc_value_count (counts_from par c) =
      lc_node_count c + lc_value_count c + (case par of None \<Rightarrow> 0 | Some p \<Rightarrow> InternalLayer_node_and_value_count p) \<and>
    lc_predicate_count (counts_from par c) =
      lc_predicate_count c + (case par of None \<Rightarrow> 0 | Some p \<Rightarrow> InternalLayer_predicate_count p)"
  using assms
proof (induction par c rule: counts_from.induct)
  case (2 p c)
  have "parent_counts_ok p" using "2.prems" self_in_layers_from by blast
  moreover have "parent_counts_ok k" if "InternalLayer_immediate_parent p = Some q" "k \<in> set (layers_from q)" for q k
    using "2.prems" [of p k] that layers_from_parent [of p q] by simp
  note IH = "2.IH" [OF this]
  ultimately show ?case
    using IH by (simp add: parent_counts_ok_def InternalLayer_node_and_value_count_def [of p] InternalLayer_predicate_count_def [of p]
        InternalLayer_node_dict_len_def InternalLayer_value_dict_len_def InternalLayer_predicate_dict_len_def)
qed simp

lemma all_counts_eq:
  assumes wf: "layer_wf l V"
  shows "lc_node_count (InternalLayer_all_counts l) + lc_value_count (InternalLayer_all_counts l) =
      InternalLayer_node_and_value_count l"
    and "lc_predicate_count (InternalLayer_all_counts l) = InternalLayer_predicate_count l"
proof -
  have ok: "parent_counts_ok k" if "k \<in> set (layers_from l)" for k using wf that by (simp add: layer_wf_def)
  have "parent_counts_ok k" if "InternalLayer_immediate_parent l = Some p" "k \<in> set (layers_from p)" for p k
    using ok that layers_from_parent [of l p] by simp
  from counts_from_eq [OF this] ok [OF self_in_layers_from]
  show "lc_node_count (InternalLayer_all_counts l) + lc_value_count (InternalLayer_all_counts l) =
      InternalLayer_node_and_value_count l"
    "lc_predicate_count (InternalLayer_all_counts l) = InternalLayer_predicate_count l"
    by (simp_all add: InternalLayer_all_counts_def parent_counts_ok_def InternalLayer_node_and_value_count_def [of l]
        InternalLayer_predicate_count_def [of l] InternalLayer_node_dict_len_def InternalLayer_value_dict_len_def
        InternalLayer_predicate_dict_len_def)
qed

definition parent_nv :: "InternalLayer option \<Rightarrow> nat" where
  "parent_nv par = (case par of None \<Rightarrow> 0 | Some p \<Rightarrow> InternalLayer_node_and_value_count p)"

definition parent_pc :: "InternalLayer option \<Rightarrow> nat" where
  "parent_pc par = (case par of None \<Rightarrow> 0 | Some p \<Rightarrow> InternalLayer_predicate_count p)"

lemma fresh_counts:
  assumes f: "fresh_layer l N P W" and par: "par = InternalLayer_immediate_parent l"
  shows "InternalLayer_parent_node_value_count l = parent_nv par" "InternalLayer_parent_predicate_count l = parent_pc par"
    "InternalLayer_node_and_value_count l = parent_nv par + length N + length W"
    "InternalLayer_predicate_count l = parent_pc par + length P"
proof -
  note D = fresh_layerD [OF f]
  show p: "InternalLayer_parent_node_value_count l = parent_nv par" "InternalLayer_parent_predicate_count l = parent_pc par"
    using D(12) by (simp_all add: par parent_counts_ok_def parent_nv_def parent_pc_def)
  show "InternalLayer_node_and_value_count l = parent_nv par + length N + length W"
    "InternalLayer_predicate_count l = parent_pc par + length P"
    using D(7-9) p by (simp_all add: InternalLayer_node_and_value_count_def InternalLayer_predicate_count_def
        InternalLayer_node_dict_len_def InternalLayer_value_dict_len_def InternalLayer_predicate_dict_len_def)
qed

lemma fresh_layer_wf:
  assumes f: "fresh_layer l N P W" and par: "par = InternalLayer_immediate_parent l" and wf: "parent_wf par V"
    and sz: "parent_nv par + length N + length W < 2 ^ 64" "parent_pc par + length P < 2 ^ 64"
  shows "layer_wf l (V(l := fresh_view N P W))"
proof -
  note C = fresh_counts [OF f par]
  have own: "own_wf l (fresh_view N P W)" "parent_counts_ok l" using f by (simp_all add: fresh_layer_def)
  have "own_wf k ((V(l := fresh_view N P W)) k) \<and> parent_counts_ok k" if k: "k \<in> set (layers_from l)" for k
  proof (cases "k = l")
    case True
    with own show ?thesis by simp
  next
    case False
    obtain p where p: "par = Some p" "k \<in> set (layers_from p)"
      using k False layers_from_Cons [of l] unfolding par by (auto split: option.splits)
    then show ?thesis using wf False by (simp add: parent_wf_def layer_wf_def)
  qed
  then show ?thesis using C(3,4) sz by (simp add: layer_wf_def)
qed

context big_endian
begin

lemma to_id_parts:
  assumes wf: "layer_wf l V" and t: "triple_strings_ok t"
  obtains r where "Layer_string_triple_to_id bo sz l t = Some r"
    "\<And>it. r = Some it \<Longrightarrow> Layer_id_triple_to_string bo sz l it = Some (Some t)"
    "\<And>it. r = Some it \<Longrightarrow> it_subject it \<noteq> 0 \<and> it_predicate it \<noteq> 0 \<and> it_object it \<noteq> 0 \<and>
      unat (it_subject it) \<le> InternalLayer_node_and_value_count l \<and>
      unat (it_predicate it) \<le> InternalLayer_predicate_count l \<and>
      unat (it_object it) \<le> InternalLayer_node_and_value_count l"
    "PartiallyResolvedTriple_as_resolved (the (partial_in bo sz (Some l) t)) = Some r"
    "\<And>it. r = Some it \<longleftrightarrow> the (partial_in bo sz (Some l) t) = IdTriple_to_resolved it"
proof -
  have pw: "parent_wf (Some l) V" using wf by (simp add: parent_wf_def)
  obtain s pr ob where a: "InternalLayer_subject_id bo sz l (st_subject t) = Some s"
    "InternalLayer_predicate_id bo sz l (st_predicate t) = Some pr"
    "object_id bo sz l (st_object t) = Some ob"
    and A: "\<And>i. s = Some i \<Longrightarrow> InternalLayer_id_subject bo sz l i = Some (Some (st_subject t)) \<and>
      i \<noteq> 0 \<and> unat i \<le> InternalLayer_node_and_value_count l"
    "\<And>i. pr = Some i \<Longrightarrow> InternalLayer_id_predicate bo sz l i = Some (Some (st_predicate t)) \<and>
      i \<noteq> 0 \<and> unat i \<le> InternalLayer_predicate_count l"
    "\<And>i. ob = Some i \<Longrightarrow> InternalLayer_id_object bo sz l i = Some (Some (st_object t)) \<and>
      i \<noteq> 0 \<and> unat i \<le> InternalLayer_node_and_value_count l"
    by (rule parent_lookups [OF pw t, of sz]) (simp add: parent_lookup_def)
  have pt: "the (partial_in bo sz (Some l) t) =
      PartiallyResolvedTriple (resolve_or (st_subject t) s) (resolve_or (st_predicate t) pr) (resolve_or (st_object t) ob)"
    by (simp add: partial_in_def parent_lookup_def a)
  define r where "r = do { i \<leftarrow> s; j \<leftarrow> pr; k \<leftarrow> ob; Some (IdTriple i j k) }"
  have r: "r = Some it \<longleftrightarrow> s = Some (it_subject it) \<and> pr = Some (it_predicate it) \<and> ob = Some (it_object it)" for it
    by (cases it; cases s; cases pr; cases ob) (auto simp: r_def)
  show ?thesis
  proof (rule that [of r])
    show "Layer_string_triple_to_id bo sz l t = Some r"
      using a by (cases s; cases pr; cases ob) (simp_all add: Layer_string_triple_to_id_def r_def)
    show "Layer_id_triple_to_string bo sz l it = Some (Some t)" if "r = Some it" for it
      using that A unfolding r by (simp add: Layer_id_triple_to_string_def)
    show "it_subject it \<noteq> 0 \<and> it_predicate it \<noteq> 0 \<and> it_object it \<noteq> 0 \<and>
      unat (it_subject it) \<le> InternalLayer_node_and_value_count l \<and>
      unat (it_predicate it) \<le> InternalLayer_predicate_count l \<and>
      unat (it_object it) \<le> InternalLayer_node_and_value_count l" if "r = Some it" for it
      using that A unfolding r by simp
    show "PartiallyResolvedTriple_as_resolved (the (partial_in bo sz (Some l) t)) = Some r"
      unfolding pt by (cases s; cases pr; cases ob)
        (simp_all add: PartiallyResolvedTriple_as_resolved_def resolve_or_def r_def)
    show "r = Some it \<longleftrightarrow> the (partial_in bo sz (Some l) t) = IdTriple_to_resolved it" for it
      unfolding pt r by (cases s; cases pr; cases ob) (auto simp: resolve_or_def IdTriple_to_resolved_def)
  qed
qed

lemma to_id_bounds:
  assumes "layer_wf l V" "triple_strings_ok t" "Layer_string_triple_to_id bo sz l t = Some (Some it)"
  shows "it_subject it \<noteq> 0 \<and> it_predicate it \<noteq> 0 \<and> it_object it \<noteq> 0 \<and>
    unat (it_subject it) \<le> InternalLayer_node_and_value_count l \<and>
    unat (it_predicate it) \<le> InternalLayer_predicate_count l \<and>
    unat (it_object it) \<le> InternalLayer_node_and_value_count l"
proof (rule to_id_parts [OF assms(1,2), of sz])
  fix r assume "Layer_string_triple_to_id bo sz l t = Some r"
    and b: "\<And>it. r = Some it \<Longrightarrow> it_subject it \<noteq> 0 \<and> it_predicate it \<noteq> 0 \<and> it_object it \<noteq> 0 \<and>
      unat (it_subject it) \<le> InternalLayer_node_and_value_count l \<and>
      unat (it_predicate it) \<le> InternalLayer_predicate_count l \<and>
      unat (it_object it) \<le> InternalLayer_node_and_value_count l"
  then show ?thesis using assms(3) by simp
qed

lemma to_id_inj:
  assumes "layer_wf l V" "triple_strings_ok t" "triple_strings_ok t'"
    and "Layer_string_triple_to_id bo sz l t = Some (Some it)" "Layer_string_triple_to_id bo sz l t' = Some (Some it)"
  shows "t = t'"
  using to_id_parts [OF assms(1,2), of sz] to_id_parts [OF assms(1,3), of sz] assms(4,5)
  by (metis option.inject)

lemma resolve_resolved: "PartiallyResolvedTriple_resolve_with (IdTriple_to_resolved it) nm pm vm = Some it"
  by (simp add: PartiallyResolvedTriple_resolve_with_def IdTriple_to_resolved_def)

lemma to_id_mono:
  assumes f: "fresh_layer l N P W" and par: "InternalLayer_immediate_parent l = Some p" and wf: "layer_wf p V"
    and t: "triple_strings_ok t" and new: "new_strings bo sz (Some p) N P W"
    and known: "Layer_string_triple_to_id bo sz p t = Some (Some it)"
  shows "Layer_string_triple_to_id bo sz l t = Some (Some it)"
proof -
  have pw: "parent_wf (Some p) V" using wf by (simp add: parent_wf_def)
  have "the (partial_in bo sz (Some p) t) = IdTriple_to_resolved it"
    using to_id_parts [OF wf t, of sz] known by (metis option.inject)
  then show ?thesis
    using resolve_fresh [OF f par [symmetric] pw t new refl refl] by (simp add: resolve_resolved)
qed

end

section \<open>The sorted changes\<close>

text \<open>What the code relies on of the parallel sorts.\<close>

definition sorters_ok :: "sorters \<Rightarrow> bool" where
  "sorters_ok so \<longleftrightarrow>
    (\<forall>xs. mset (so_partial so xs) = mset xs \<and> sorted (so_partial so xs)) \<and>
    (\<forall>xs. mset (so_ids so xs) = mset xs \<and> sorted (so_ids so xs)) \<and>
    (\<forall>xs. mset (so_strings so xs) = mset xs \<and> sorted (so_strings so xs))"

lemma sorters_okD:
  assumes "sorters_ok so"
  shows "so_partial so xs = sort xs" "so_ids so ys = sort ys" "so_strings so zs = sort zs"
  using assms by (auto simp: sorters_ok_def intro!: properties_for_sort [symmetric])

lemma sorted_remdups_adj_strict: "sorted xs \<Longrightarrow> sorted_wrt (<) (remdups_adj xs)"
  by (induction xs rule: remdups_adj.induct) (auto simp: order_less_le)

lemma sorted_distinct_strict: "sorted xs \<Longrightarrow> distinct xs \<Longrightarrow> sorted_wrt (<) xs"
  by (simp add: strict_sorted_iff)

text \<open>The string triples that a list of string triples and a list of known id triples name.\<close>

definition changed :: "byteorder \<Rightarrow> usize \<Rightarrow> InternalLayer option \<Rightarrow> StringTriple list \<Rightarrow> IdTriple list \<Rightarrow> StringTriple set" where
  "changed bo sz par ts its = set ts \<union> {t. triple_strings_ok t \<and>
    (\<exists>p it. par = Some p \<and> it \<in> set its \<and> Layer_string_triple_to_id bo sz p t = Some (Some it))}"

definition ids_known :: "byteorder \<Rightarrow> usize \<Rightarrow> InternalLayer option \<Rightarrow> IdTriple list \<Rightarrow> bool" where
  "ids_known bo sz par its \<longleftrightarrow> (\<forall>it\<in>set its. \<exists>p t. par = Some p \<and> triple_strings_ok t \<and>
    Layer_string_triple_to_id bo sz p t = Some (Some it))"

context build_env
begin

lemma partially_resolved_eq:
  assumes so: "sorters_ok so" and wf: "parent_wf par V" and ts: "\<forall>t\<in>set ts. triple_strings_ok t"
    and its: "ids_known (env_order e) sz par its"
  obtains L where "partially_resolved e so sz par ts its = Some L" "sorted_wrt (<) L"
    "set L = (\<lambda>t. the (partial_in (env_order e) sz par t)) ` changed (env_order e) sz par ts its"
    "length L \<le> length ts + length its"
proof -
  let ?pt = "\<lambda>t. the (partial_in (env_order e) sz par t)"
  have "those (map (partial_in (env_order e) sz par) ts) = Some (map ?pt ts)"
    by (rule those_map_Some) (use ts partial_in_total [OF wf] in blast)
  then have "(case par of None \<Rightarrow> Some (map StringTriple_to_unresolved ts)
      | Some parent \<Rightarrow> those (map (Layer_string_triple_to_partially_resolved (env_order e) sz parent) ts)) = Some (map ?pt ts)"
    by (cases par) (simp_all add: partial_in_simps cong: map_cong)
  then have eq: "partially_resolved e so sz par ts its = Some (remdups_adj (sort (map ?pt ts @ map IdTriple_to_resolved its)))"
    by (simp add: partially_resolved_def sorters_okD [OF so])
  have id: "(?pt t = IdTriple_to_resolved it) = (Layer_string_triple_to_id (env_order e) sz p t = Some (Some it))"
    if "par = Some p" "triple_strings_ok t" for p t it
    using to_id_parts [of p V t sz] that wf by (metis option.inject parent_wf_def)
  have "IdTriple_to_resolved ` set its = ?pt ` {t. triple_strings_ok t \<and>
      (\<exists>p it. par = Some p \<and> it \<in> set its \<and> Layer_string_triple_to_id (env_order e) sz p t = Some (Some it))}" (is "_ = ?pt ` ?K")
  proof (intro equalityI subsetI)
    fix x assume "x \<in> IdTriple_to_resolved ` set its"
    then obtain it where it: "it \<in> set its" "x = IdTriple_to_resolved it" by blast
    with its obtain p t where "par = Some p" "triple_strings_ok t" "Layer_string_triple_to_id (env_order e) sz p t = Some (Some it)"
      unfolding ids_known_def by blast
    with id [of p t it] it show "x \<in> ?pt ` ?K" by (intro image_eqI [of _ _ t]) auto
  next
    fix x assume "x \<in> ?pt ` ?K"
    with id show "x \<in> IdTriple_to_resolved ` set its" by blast
  qed
  then have "set (remdups_adj (sort (map ?pt ts @ map IdTriple_to_resolved its))) = ?pt ` changed (env_order e) sz par ts its"
    by (simp add: changed_def image_Un)
  moreover have "length (remdups_adj (sort (map ?pt ts @ map IdTriple_to_resolved its))) \<le> length ts + length its"
    by (rule order_trans [OF remdups_adj_length]) simp
  ultimately show ?thesis using that eq sorted_remdups_adj_strict [OF sorted_sort] by blast
qed

end

text \<open>The strings that a triple leaves unresolved.\<close>

lemma set_sort_remdups: "set (sort (remdups xs)) = set xs" by simp

lemma length_concat_le: "(\<And>x. x \<in> set xs \<Longrightarrow> length (f x) \<le> n) \<Longrightarrow> length (concat (map f xs)) \<le> n * length xs"
  by (induction xs) force+

lemma sorted_concat_le: "(\<And>x. length (f x) \<le> n) \<Longrightarrow> length (sort (remdups (concat (map f xs)))) \<le> n * length xs"
  using order_trans [OF length_remdups_leq length_concat_le] by (metis length_sort)

lemma unresolved_lengths: "length (unresolved_nodes_of t) \<le> 2" "length (unresolved_predicates_of t) \<le> 1"
  "length (unresolved_values_of t) \<le> 1"
  by (simp_all add: unresolved_nodes_of_def unresolved_predicates_of_def unresolved_values_of_def
      split: PossiblyResolved.split ObjectType.split)

lemma dict_okI:
  assumes "\<forall>s\<in>set ss. string_ok s" "length ss < 2 ^ 22"
  shows "dict_ok ss"
proof -
  have "sum_list (map length ss) \<le> sum_list (map (\<lambda>_. 2 ^ 40) ss)"
    by (rule sum_list_mono) (use assms(1) in \<open>auto simp: string_ok_def less_imp_le\<close>)
  also have "\<dots> = length ss * 2 ^ 40" by (simp add: sum_list_triv)
  also have "\<dots> \<le> 2 ^ 22 * 2 ^ 40" using assms(2) by (intro mult_le_mono) simp_all
  finally show ?thesis using assms by (simp add: dict_ok_def string_ok_def)
qed

context big_endian
begin

lemma unresolved_strings:
  assumes wf: "parent_wf par V" and t: "triple_strings_ok t"
  shows "s \<in> set (unresolved_nodes_of (the (partial_in bo sz par t))) \<Longrightarrow>
      string_ok s \<and> parent_lookup par (\<lambda>p. InternalLayer_subject_id bo sz p s) = Some None"
    and "s \<in> set (unresolved_predicates_of (the (partial_in bo sz par t))) \<Longrightarrow>
      string_ok s \<and> parent_lookup par (\<lambda>p. InternalLayer_predicate_id bo sz p s) = Some None"
    and "s \<in> set (unresolved_values_of (the (partial_in bo sz par t))) \<Longrightarrow>
      string_ok s \<and> parent_lookup par (\<lambda>p. InternalLayer_object_value_id bo sz p s) = Some None"
proof -
  obtain x pr ob where a: "parent_lookup par (\<lambda>p. InternalLayer_subject_id bo sz p (st_subject t)) = Some x"
    "parent_lookup par (\<lambda>p. InternalLayer_predicate_id bo sz p (st_predicate t)) = Some pr"
    "parent_lookup par (\<lambda>p. object_id bo sz p (st_object t)) = Some ob"
    by (rule parent_lookups [OF wf t, of sz])
  have pt: "the (partial_in bo sz par t) =
      PartiallyResolvedTriple (resolve_or (st_subject t) x) (resolve_or (st_predicate t) pr) (resolve_or (st_object t) ob)"
    by (simp add: partial_in_def a)
  show "string_ok s \<and> parent_lookup par (\<lambda>p. InternalLayer_subject_id bo sz p s) = Some None"
    if "s \<in> set (unresolved_nodes_of (the (partial_in bo sz par t)))"
    using that a t unfolding pt
    by (cases "st_object t") (auto simp: unresolved_nodes_of_def resolve_or_def triple_strings_ok_def object_id_def
        object_node_id_eq split: option.splits)
  show "string_ok s \<and> parent_lookup par (\<lambda>p. InternalLayer_predicate_id bo sz p s) = Some None"
    if "s \<in> set (unresolved_predicates_of (the (partial_in bo sz par t)))"
    using that a t unfolding pt
    by (auto simp: unresolved_predicates_of_def resolve_or_def triple_strings_ok_def split: option.splits)
  show "string_ok s \<and> parent_lookup par (\<lambda>p. InternalLayer_object_value_id bo sz p s) = Some None"
    if "s \<in> set (unresolved_values_of (the (partial_in bo sz par t)))"
    using that a t unfolding pt
    by (cases "st_object t") (auto simp: unresolved_values_of_def resolve_or_def triple_strings_ok_def object_id_def
        split: option.splits)
qed

end

lemma new_ids_found: "distinct ss \<Longrightarrow> s \<in> set ss \<Longrightarrow> \<exists>i. new_ids ss off s = Some i"
  using id_table_eq(1) [of ss off s] position_distinct [of ss _ s]
  by (auto simp: new_ids_def in_set_conv_nth simp del: upt_Suc)

lemma resolve_with_found:
  assumes "distinct N" "distinct P" "distinct W" "set (unresolved_nodes_of x) \<subseteq> set N"
    "set (unresolved_predicates_of x) \<subseteq> set P" "set (unresolved_values_of x) \<subseteq> set W"
  shows "\<exists>it. PartiallyResolvedTriple_resolve_with x (new_ids N off) (new_ids P poff) (new_ids W voff) = Some it"
proof -
  have "\<exists>i. (case pr_subject x of Unresolved s \<Rightarrow> new_ids N off s | Resolved i \<Rightarrow> Some i) = Some i"
    using new_ids_found [OF assms(1)] assms(4) by (auto simp: unresolved_nodes_of_def split: PossiblyResolved.splits)
  moreover have "\<exists>i. (case pr_predicate x of Unresolved p \<Rightarrow> new_ids P poff p | Resolved i \<Rightarrow> Some i) = Some i"
    using new_ids_found [OF assms(2)] assms(5) by (auto simp: unresolved_predicates_of_def split: PossiblyResolved.splits)
  moreover have "\<exists>i. (case pr_object x of Unresolved (Node n) \<Rightarrow> new_ids N off n
      | Unresolved (Value v) \<Rightarrow> new_ids W voff v | Resolved i \<Rightarrow> Some i) = Some i"
    using new_ids_found [OF assms(1)] new_ids_found [OF assms(3)] assms(4,6)
    by (auto simp: unresolved_nodes_of_def unresolved_values_of_def split: PossiblyResolved.splits ObjectType.splits)
  ultimately show ?thesis by (auto simp: PartiallyResolvedTriple_resolve_with_def)
qed

text \<open>The changes after the cancelling, and the new strings.\<close>

definition cancelled :: "PartiallyResolvedTriple list \<Rightarrow> PartiallyResolvedTriple list \<Rightarrow> PartiallyResolvedTriple list" where
  "cancelled xs ys = map (\<lambda>x. if x \<in> set ys then zero_triple else x) xs"

lemma zero_triple_unresolved [simp]:
  "unresolved_nodes_of zero_triple = []" "unresolved_predicates_of zero_triple = []" "unresolved_values_of zero_triple = []"
  by (simp_all add: unresolved_nodes_of_def unresolved_predicates_of_def unresolved_values_of_def)

lemma collect_cancelled:
  assumes so: "sorters_ok so" and c: "collect_unresolved_strings so (cancelled AL RL) = (N, P, W)"
  shows "strictly_sorted N" "strictly_sorted P" "strictly_sorted W"
    "length N \<le> 2 * length AL" "length P \<le> length AL" "length W \<le> length AL"
    "\<And>x. x \<in> set (cancelled AL RL) \<Longrightarrow> set (unresolved_nodes_of x) \<subseteq> set N \<and>
      set (unresolved_predicates_of x) \<subseteq> set P \<and> set (unresolved_values_of x) \<subseteq> set W"
    "\<And>s. s \<in> set N \<Longrightarrow> \<exists>x\<in>set AL. s \<in> set (unresolved_nodes_of x)"
    "\<And>s. s \<in> set P \<Longrightarrow> \<exists>x\<in>set AL. s \<in> set (unresolved_predicates_of x)"
    "\<And>s. s \<in> set W \<Longrightarrow> \<exists>x\<in>set AL. s \<in> set (unresolved_values_of x)"
proof -
  let ?L = "cancelled AL RL"
  have eq: "N = sort (remdups (concat (map unresolved_nodes_of ?L)))"
    "P = sort (remdups (concat (map unresolved_predicates_of ?L)))"
    "W = sort (remdups (concat (map unresolved_values_of ?L)))"
    using c by (simp_all add: collect_unresolved_strings_def sorters_okD [OF so])
  show "strictly_sorted N" "strictly_sorted P" "strictly_sorted W" unfolding eq by (simp_all add: strict_sorted_iff)
  have len: "length ?L = length AL" by (simp add: cancelled_def)
  show "length N \<le> 2 * length AL" "length P \<le> length AL" "length W \<le> length AL"
    using sorted_concat_le [of unresolved_nodes_of 2 ?L] sorted_concat_le [of unresolved_predicates_of 1 ?L]
      sorted_concat_le [of unresolved_values_of 1 ?L] unresolved_lengths len unfolding eq by (simp_all only: mult_1)
  show "set (unresolved_nodes_of x) \<subseteq> set N \<and> set (unresolved_predicates_of x) \<subseteq> set P \<and>
      set (unresolved_values_of x) \<subseteq> set W" if "x \<in> set ?L" for x
    using that unfolding eq by auto
  show "\<exists>x\<in>set AL. s \<in> set (unresolved_nodes_of x)" if "s \<in> set N" for s
    using that unfolding eq by (auto simp: cancelled_def split: if_splits)
  show "\<exists>x\<in>set AL. s \<in> set (unresolved_predicates_of x)" if "s \<in> set P" for s
    using that unfolding eq by (auto simp: cancelled_def split: if_splits)
  show "\<exists>x\<in>set AL. s \<in> set (unresolved_values_of x)" if "s \<in> set W" for s
    using that unfolding eq by (auto simp: cancelled_def split: if_splits)
qed

text \<open>The ids of the additions, over a layer with the new dictionaries.\<close>

lemma effective_sort: "effective (sort xs) = sort (effective xs)"
  by (simp add: effective_def filter_sort)

lemma sorted_strict_map_inj:
  fixes f :: "'a \<Rightarrow> 'b :: linorder"
  assumes "inj_on f (set xs)" "distinct xs"
  shows "sorted_wrt (<) (sort (map f xs))"
  using assms by (simp add: strict_sorted_iff distinct_map)

context build_env
begin

lemma added_ids:
  assumes so: "sorters_ok so" and f: "fresh_layer l N P W" and par: "par = InternalLayer_immediate_parent l"
    and wf: "parent_wf par V" and new: "new_strings (env_order e) sz par N P W"
    and c: "collect_unresolved_strings so (cancelled AL RL) = (N, P, W)"
    and off: "off = of_nat (parent_nv par)" "poff = of_nat (parent_pc par)"
    and size: "parent_nv par + length N + length W < 2 ^ 21" "parent_pc par + length P < 2 ^ 21"
      "2 * length AL + (parent_nv par + length N + length W) < 2 ^ 21"
    and A: "\<forall>t\<in>A. triple_strings_ok t" "set AL = (\<lambda>t. the (partial_in (env_order e) sz par t)) ` A" "distinct AL"
    and R: "\<forall>t\<in>R. triple_strings_ok t" "set RL = (\<lambda>t. the (partial_in (env_order e) sz par t)) ` R"
  obtains ts where
    "resolve_additions so (cancelled AL RL) (id_table N (map of_nat [1..<length N + 1]) off)
      (id_table P (map of_nat [1..<length P + 1]) poff)
      (id_table W (map of_nat [1..<length W + 1]) (off + of_nat (length N))) = Some ts"
    "ids_ok (parent_nv par + length N + length W) (parent_pc par + length P) (effective ts)"
    "set (effective ts) = {it. \<exists>t\<in>A - R. Layer_string_triple_to_id (env_order e) sz l t = Some (Some it)}"
    "\<forall>t\<in>A - R. \<exists>it. Layer_string_triple_to_id (env_order e) sz l t = Some (Some it)"
proof -
  let ?bo = "env_order e"
  let ?pt = "\<lambda>t. the (partial_in ?bo sz par t)"
  let ?res = "\<lambda>x. PartiallyResolvedTriple_resolve_with x (new_ids N off) (new_ids P poff) (new_ids W (off + of_nat (length N)))"
  define fid where "fid = the \<circ> ?res"
  note C = collect_cancelled [OF so c] and FC = fresh_counts [OF f par]
  have lw: "layer_wf l (V(l := fresh_view N P W))" by (rule fresh_layer_wf [OF f par wf]) (use size in simp_all)
  have res: "?res x = Some (fid x)" if "x \<in> set (cancelled AL RL)" for x
    using resolve_with_found [OF C(1-3) [THEN strictly_sorted_distinct]] C(7) [OF that] by (fastforce simp: fid_def)
  have toid: "Layer_string_triple_to_id ?bo sz l t = Some (?res (?pt t))" if "t \<in> A" for t
    by (rule resolve_fresh [OF f par wf _ new]) (use that A(1) FC off in simp_all)
  have inR: "?pt t \<in> set RL \<longleftrightarrow> t \<in> R" if "t \<in> A" for t
    using partial_in_image [OF wf _ R(1), of t sz] that A(1) R(2) by simp
  have kept: "?pt t \<in> set (cancelled AL RL)" if "t \<in> A - R" for t
    using that inR A(2) by (force simp: cancelled_def)
  have known: "Layer_string_triple_to_id ?bo sz l t = Some (Some (fid (?pt t)))" if "t \<in> A - R" for t
    using toid res [OF kept [OF that]] that by simp
  have bnd: "it_subject it \<noteq> 0 \<and> it_predicate it \<noteq> 0 \<and> it_object it \<noteq> 0 \<and>
      unat (it_subject it) \<le> parent_nv par + length N + length W \<and>
      unat (it_predicate it) \<le> parent_pc par + length P \<and> unat (it_object it) \<le> parent_nv par + length N + length W"
    if "Layer_string_triple_to_id ?bo sz l t = Some (Some it)" "t \<in> A" for t it
    using to_id_bounds [OF lw _ that(1)] that(2) A(1) FC(3,4) by simp
  define E where "E = filter (\<lambda>x. x \<notin> set RL) AL"
  have E: "set E = ?pt ` (A - R)" using A(2) inR by (auto simp: E_def)
  have zero: "fid zero_triple = IdTriple 0 0 0" by (simp add: fid_def PartiallyResolvedTriple_resolve_with_def)
  have "effective (map fid (cancelled AL RL)) = map fid E"
  proof -
    have nz: "it_subject (fid x) \<noteq> 0 \<and> it_predicate (fid x) \<noteq> 0 \<and> it_object (fid x) \<noteq> 0" if x: "x \<in> set AL" "x \<notin> set RL" for x
    proof -
      obtain t where t: "t \<in> A" "x = ?pt t" using x(1) A(2) by auto
      then have "t \<in> A - R" using x(2) inR by auto
      with known t bnd show ?thesis by blast
    qed
    have "effective (map fid (map (\<lambda>x. if x \<in> set RL then zero_triple else x) xs)) = map fid (filter (\<lambda>x. x \<notin> set RL) xs)"
      if "set xs \<subseteq> set AL" for xs
      using that nz by (induction xs) (auto simp: effective_def zero)
    then show ?thesis by (simp add: cancelled_def E_def)
  qed
  then have eff: "effective (sort (map fid (cancelled AL RL))) = sort (map fid E)" by (simp add: effective_sort)
  have inj: "inj_on fid (set E)"
  proof (rule inj_onI)
    fix x y assume "x \<in> set E" "y \<in> set E" and eq: "fid x = fid y"
    then obtain t u where tu: "t \<in> A - R" "x = ?pt t" "u \<in> A - R" "y = ?pt u" using E by blast
    with known eq to_id_inj [OF lw, of t u sz] A(1) show "x = y" by auto
  qed
  have set: "set (sort (map fid E)) = {it. \<exists>t\<in>A - R. Layer_string_triple_to_id ?bo sz l t = Some (Some it)}"
    using known E by auto
  have "resolve_additions so (cancelled AL RL) (id_table N (map of_nat [1..<length N + 1]) off)
      (id_table P (map of_nat [1..<length P + 1]) poff)
      (id_table W (map of_nat [1..<length W + 1]) (off + of_nat (length N))) = Some (sort (map fid (cancelled AL RL)))"
    using those_map_Some [of "cancelled AL RL" ?res fid] res
    by (simp add: resolve_additions_def new_ids_def sorters_okD [OF so] del: upt_Suc)
  moreover have "ids_ok (parent_nv par + length N + length W) (parent_pc par + length P) (sort (map fid E))"
    unfolding ids_ok_def
  proof (intro conjI ballI)
    show "sorted_wrt (<) (sort (map fid E))" by (rule sorted_strict_map_inj [OF inj]) (simp add: E_def A(3))
    fix it assume "it \<in> set (sort (map fid E))"
    then obtain t where t: "t \<in> A" "Layer_string_triple_to_id ?bo sz l t = Some (Some it)" unfolding set by blast
    note b = bnd [OF t(2,1)]
    show "it_subject it \<noteq> 0" "it_predicate it \<noteq> 0" "it_object it \<noteq> 0" "unat (it_predicate it) \<le> parent_pc par + length P"
      "unat (it_object it) \<le> parent_nv par + length N + length W" using b by simp_all
    have "length E \<le> length AL" by (simp add: E_def)
    then show "2 * length (sort (map fid E)) + unat (it_subject it) < 2 ^ 21" using b size(3) by simp
  qed (use size in simp_all)
  ultimately show ?thesis using that known set eff by (metis (mono_tags, lifting))
qed

end

text \<open>The ids of the removals, over the parent.\<close>

lemma to_resolved_less: "IdTriple_to_resolved a < IdTriple_to_resolved b \<longleftrightarrow> a < b"
  by (simp add: IdTriple_to_resolved_def less_PartiallyResolvedTriple_def less_PossiblyResolved_def less_IdTriple_def)

definition removed_id :: "PartiallyResolvedTriple \<Rightarrow> IdTriple" where
  "removed_id x = (case (pr_subject x, pr_predicate x, pr_object x) of
     (Resolved s, Resolved p, Resolved ob) \<Rightarrow> IdTriple s p ob | _ \<Rightarrow> IdTriple 0 0 0)"

lemma removed_id_eq:
  "PartiallyResolvedTriple_as_resolved (PartiallyResolvedTriple_make_resolved_or_zero x) = Some (Some (removed_id x))"
  by (simp add: PartiallyResolvedTriple_as_resolved_def PartiallyResolvedTriple_make_resolved_or_zero_def removed_id_def
      split: PossiblyResolved.split)

lemma removed_id_resolved: "removed_id (IdTriple_to_resolved it) = it"
  by (simp add: removed_id_def IdTriple_to_resolved_def)

lemma removed_id_nonzero: "it_subject (removed_id x) \<noteq> 0 \<Longrightarrow> x = IdTriple_to_resolved (removed_id x)"
  by (cases x) (auto simp: removed_id_def IdTriple_to_resolved_def split: PossiblyResolved.splits)

lemma removed_ids_eq:
  "map_option (List.map_filter id) (those (map PartiallyResolvedTriple_as_resolved
      (map PartiallyResolvedTriple_make_resolved_or_zero xs))) = Some (map removed_id xs)"
proof -
  have "those (map PartiallyResolvedTriple_as_resolved (map PartiallyResolvedTriple_make_resolved_or_zero xs)) =
      Some (map (\<lambda>x. Some (removed_id x)) xs)"
    using those_map_Some [of xs _ "\<lambda>x. Some (removed_id x)"] removed_id_eq by (simp add: comp_def)
  moreover have "List.map_filter id (map (\<lambda>x. Some (removed_id x)) xs) = map removed_id xs"
    by (induction xs) (simp_all add: List.map_filter_def)
  ultimately show ?thesis by simp
qed

lemma filter_cancelled: "\<not> Q zero_triple \<Longrightarrow> filter Q (cancelled xs ys) = filter (\<lambda>x. x \<notin> set ys \<and> Q x) xs"
  unfolding cancelled_def by (induction xs) auto

context build_env
begin

lemma removed_ids:
  assumes wf: "layer_wf p V" and S: "\<forall>t\<in>S. triple_strings_ok t"
    and T: "T = {it. \<exists>t\<in>S. Layer_string_triple_to_id (env_order e) sz p t = Some (Some it)}"
    and R: "\<forall>t\<in>R. triple_strings_ok t" "set RL = (\<lambda>t. the (partial_in (env_order e) sz (Some p) t)) ` R" "sorted_wrt (<) RL"
    and A: "\<forall>t\<in>A. triple_strings_ok t" "set AL = (\<lambda>t. the (partial_in (env_order e) sz (Some p) t)) ` A"
    and size: "InternalLayer_node_and_value_count p \<le> nv" "nv < 2 ^ 21" "InternalLayer_predicate_count p \<le> pc" "pc < 2 ^ 21"
      "2 * length RL + InternalLayer_node_and_value_count p < 2 ^ 21"
  shows "ids_ok nv pc (filter (\<lambda>t. t \<in> T) (map removed_id (cancelled RL AL)))"
    and "T - set (map removed_id (cancelled RL AL)) =
      {it. \<exists>t\<in>S - (R - A). Layer_string_triple_to_id (env_order e) sz p t = Some (Some it)}"
proof -
  let ?bo = "env_order e"
  let ?pt = "\<lambda>t. the (partial_in ?bo sz (Some p) t)"
  have pw: "parent_wf (Some p) V" using wf by (simp add: parent_wf_def)
  have bnd: "it_subject it \<noteq> 0 \<and> it_predicate it \<noteq> 0 \<and> it_object it \<noteq> 0 \<and>
      unat (it_subject it) \<le> InternalLayer_node_and_value_count p \<and>
      unat (it_predicate it) \<le> InternalLayer_predicate_count p \<and> unat (it_object it) \<le> InternalLayer_node_and_value_count p"
    if it: "it \<in> T" for it
  proof -
    obtain t where "t \<in> S" "Layer_string_triple_to_id ?bo sz p t = Some (Some it)" using it T by blast
    then show ?thesis using to_id_bounds [OF wf, of t sz it] S by simp
  qed
  have id: "?pt t = IdTriple_to_resolved it \<longleftrightarrow> Layer_string_triple_to_id ?bo sz p t = Some (Some it)"
    if "triple_strings_ok t" for t it using to_id_parts [OF wf that, of sz] by (metis option.inject)
  have inA: "?pt t \<in> set AL \<longleftrightarrow> t \<in> A" if "triple_strings_ok t" for t
    using partial_in_image [OF pw that A(1), of sz] A(2) by simp
  define Q where "Q = (\<lambda>x. removed_id x \<in> T)"
  have z: "\<not> Q zero_triple"
  proof
    assume "Q zero_triple"
    then have "IdTriple 0 0 0 \<in> T" by (simp add: Q_def removed_id_def)
    from bnd [OF this] show False by simp
  qed
  have Qres: "x = IdTriple_to_resolved (removed_id x)" if "Q x" for x
    using that bnd removed_id_nonzero by (auto simp: Q_def)
  let ?L = "filter (\<lambda>x. x \<notin> set AL \<and> Q x) RL"
  have fl: "filter (\<lambda>t. t \<in> T) (map removed_id (cancelled RL AL)) = map removed_id ?L"
    using filter_cancelled [of Q, OF z] by (simp add: filter_map comp_def Q_def)
  show "ids_ok nv pc (filter (\<lambda>t. t \<in> T) (map removed_id (cancelled RL AL)))"
    unfolding fl ids_ok_def
  proof (intro conjI ballI)
    have "sorted_wrt (<) ?L" using R(3) by (rule sorted_wrt_filter)
    then show "sorted_wrt (<) (map removed_id ?L)"
      unfolding sorted_wrt_map
    proof (rule sorted_wrt_mono_rel [rotated])
      fix x y assume "x \<in> set ?L" "y \<in> set ?L" and xy: "x < y"
      then have "x = IdTriple_to_resolved (removed_id x)" "y = IdTriple_to_resolved (removed_id y)" using Qres by simp_all
      with xy show "removed_id x < removed_id y" by (metis to_resolved_less)
    qed
    fix it assume "it \<in> set (map removed_id ?L)"
    then have "it \<in> T" by (auto simp: Q_def)
    note b = bnd [OF this]
    show "it_subject it \<noteq> 0" "it_predicate it \<noteq> 0" "it_object it \<noteq> 0" "unat (it_predicate it) \<le> pc" "unat (it_object it) \<le> nv"
      using b size by simp_all
    have "length ?L \<le> length RL" by simp
    then have "2 * length (map removed_id ?L) + unat (it_subject it) \<le> 2 * length RL + InternalLayer_node_and_value_count p"
      using b by (simp del: length_filter_le)
    then show "2 * length (map removed_id ?L) + unat (it_subject it) < 2 ^ 21" using size(5) by linarith
  qed (use size in simp_all)
  have rem: "it \<in> set (map removed_id (cancelled RL AL)) \<longleftrightarrow> t \<in> R - A"
    if t: "t \<in> S" "Layer_string_triple_to_id ?bo sz p t = Some (Some it)" for t it
  proof -
    have ok: "triple_strings_ok t" and iT: "it \<in> T" using t S T by blast+
    have "it \<in> set (map removed_id (cancelled RL AL)) \<longleftrightarrow> it \<in> set (map removed_id ?L)"
      using iT unfolding fl [symmetric] by simp
    also have "\<dots> \<longleftrightarrow> IdTriple_to_resolved it \<in> set RL \<and> IdTriple_to_resolved it \<notin> set AL"
    proof
      assume "it \<in> set (map removed_id ?L)"
      then obtain x where x: "x \<in> set RL" "x \<notin> set AL" "Q x" "it = removed_id x" by auto
      then show "IdTriple_to_resolved it \<in> set RL \<and> IdTriple_to_resolved it \<notin> set AL" using Qres [OF x(3)] by metis
    next
      assume "IdTriple_to_resolved it \<in> set RL \<and> IdTriple_to_resolved it \<notin> set AL"
      then have "IdTriple_to_resolved it \<in> set ?L" using iT by (simp add: Q_def removed_id_resolved)
      then show "it \<in> set (map removed_id ?L)" using removed_id_resolved [of it] by (metis image_eqI set_map)
    qed
    also have "\<dots> \<longleftrightarrow> ?pt t \<in> set RL \<and> ?pt t \<notin> set AL" using id [OF ok, of it] t(2) by metis
    also have "\<dots> \<longleftrightarrow> t \<in> R - A"
      using inA [OF ok] partial_in_image [OF pw ok R(1), of sz] R(2) by simp
    finally show ?thesis .
  qed
  show "T - set (map removed_id (cancelled RL AL)) =
      {it. \<exists>t\<in>S - (R - A). Layer_string_triple_to_id ?bo sz p t = Some (Some it)}"
    using rem T by blast
qed

end

end
