(* ===== verification/CommittedLayers.thy ===== *)
theory CommittedLayers
  imports CommitChanges
begin

text \<open>
  What committing a builder means. A stack of layers that results from commits stands for a
  set of string triples, and a commit changes that set: it adds the triples that were added
  and not also removed, and takes away the triples that were removed and not also added.
  Committing never fails, and the queries of the new layer, translated to strings, are those
  of the new set.
\<close>

section \<open>Sets of string triples\<close>

text \<open>The stack \<open>l\<close> was built by the file builders and holds the ids of exactly the triples of \<open>S\<close>.\<close>

definition represents :: "env \<Rightarrow> usize \<Rightarrow> InternalLayer \<Rightarrow> (InternalLayer \<Rightarrow> layer_view) \<Rightarrow> StringTriple set \<Rightarrow> bool" where
  "represents e sz l V S \<longleftrightarrow> layer_wf l V \<and>
    (\<forall>t\<in>S. triple_strings_ok t \<and> (\<exists>it. Layer_string_triple_to_id (env_order e) sz l t = Some (Some it))) \<and>
    built e l {it. \<exists>t\<in>S. Layer_string_triple_to_id (env_order e) sz l t = Some (Some it)}"

text \<open>The abstract effect of a commit: adding and removing the same triple is no operation.\<close>

definition apply_changes :: "StringTriple set \<Rightarrow> StringTriple set \<Rightarrow> StringTriple set \<Rightarrow> StringTriple set" where
  "apply_changes S A R = (S - (R - A)) \<union> (A - R)"

definition sb_added :: "env \<Rightarrow> usize \<Rightarrow> SimpleLayerBuilder \<Rightarrow> StringTriple set" where
  "sb_added e sz b = changed (env_order e) sz (sb_parent b) (sb_additions b) (sb_id_additions b)"

definition sb_removed :: "env \<Rightarrow> usize \<Rightarrow> SimpleLayerBuilder \<Rightarrow> StringTriple set" where
  "sb_removed e sz b = changed (env_order e) sz (sb_parent b) (sb_removals b) (sb_id_removals b)"

definition sb_added_count :: "SimpleLayerBuilder \<Rightarrow> nat" where
  "sb_added_count b = length (sb_additions b) + length (sb_id_additions b)"

text \<open>
  The strings fit the dictionaries, the id triples are ids of the parent, and there are few
  enough changes for the widths of the numbers.
\<close>

definition changes_ok :: "env \<Rightarrow> usize \<Rightarrow> SimpleLayerBuilder \<Rightarrow> bool" where
  "changes_ok e sz b \<longleftrightarrow>
    (\<forall>t\<in>set (sb_additions b) \<union> set (sb_removals b). triple_strings_ok t) \<and>
    ids_known (env_order e) sz (sb_parent b) (sb_id_additions b) \<and>
    ids_known (env_order e) sz (sb_parent b) (sb_id_removals b) \<and>
    parent_nv (sb_parent b) + 5 * (length (sb_additions b) + length (sb_id_additions b)) +
      2 * (length (sb_removals b) + length (sb_id_removals b)) < 2 ^ 21 \<and>
    parent_pc (sb_parent b) + length (sb_additions b) + length (sb_id_additions b) < 2 ^ 21"

text \<open>Loading the files of a commit.\<close>

definition load_committed :: "env \<Rightarrow> layer_name \<Rightarrow> InternalLayer option \<Rightarrow> LayerMaps \<Rightarrow> InternalLayer panics" where
  "load_committed e name parent maps =
    (case maps of
       BaseMaps m \<Rightarrow> BaseLayer_load e name m
     | ChildMaps m \<Rightarrow> do { p \<leftarrow> parent; ChildLayer_load e name p m })"

lemma changed_ok: "\<forall>t\<in>set ts. triple_strings_ok t \<Longrightarrow> t \<in> changed bo sz par ts its \<Longrightarrow> triple_strings_ok t"
  by (auto simp: changed_def)

context build_env
begin

text \<open>The part of a commit that base and child layers share.\<close>

lemma changes_prepared:
  assumes so: "sorters_ok so" and ok: "changes_ok e sz b" and wf: "parent_wf (sb_parent b) V"
  obtains AL RL N P W where
    "partially_resolved e so sz (sb_parent b) (sb_additions b) (sb_id_additions b) = Some AL"
    "partially_resolved e so sz (sb_parent b) (sb_removals b) (sb_id_removals b) = Some RL"
    "zero_equivalents AL RL = (cancelled AL RL, cancelled RL AL)"
    "collect_unresolved_strings so (cancelled AL RL) = (N, P, W)"
    "set AL = (\<lambda>t. the (partial_in (env_order e) sz (sb_parent b) t)) ` sb_added e sz b"
    "set RL = (\<lambda>t. the (partial_in (env_order e) sz (sb_parent b) t)) ` sb_removed e sz b"
    "sorted_wrt (<) AL" "sorted_wrt (<) RL"
    "dict_ok N" "dict_ok P" "dict_ok W" "new_strings (env_order e) sz (sb_parent b) N P W"
    "parent_nv (sb_parent b) + length N + length W < 2 ^ 21" "parent_pc (sb_parent b) + length P < 2 ^ 21"
    "2 * length AL + (parent_nv (sb_parent b) + length N + length W) < 2 ^ 21"
    "2 * length RL + parent_nv (sb_parent b) < 2 ^ 21"
    "length N + length W \<le> 3 * sb_added_count b" "length P \<le> sb_added_count b"
proof -
  let ?par = "sb_parent b"
  from ok have st: "\<forall>t\<in>set (sb_additions b). triple_strings_ok t" "\<forall>t\<in>set (sb_removals b). triple_strings_ok t"
    and ids: "ids_known (env_order e) sz ?par (sb_id_additions b)" "ids_known (env_order e) sz ?par (sb_id_removals b)"
    and size: "parent_nv ?par + 5 * (length (sb_additions b) + length (sb_id_additions b)) +
      2 * (length (sb_removals b) + length (sb_id_removals b)) < 2 ^ 21"
      "parent_pc ?par + length (sb_additions b) + length (sb_id_additions b) < 2 ^ 21"
    by (simp_all add: changes_ok_def)
  obtain AL where AL: "partially_resolved e so sz ?par (sb_additions b) (sb_id_additions b) = Some AL" "sorted_wrt (<) AL"
    "set AL = (\<lambda>t. the (partial_in (env_order e) sz ?par t)) ` sb_added e sz b"
    "length AL \<le> length (sb_additions b) + length (sb_id_additions b)"
    by (rule partially_resolved_eq [OF so wf st(1) ids(1)]) (simp add: sb_added_def)
  obtain RL where RL: "partially_resolved e so sz ?par (sb_removals b) (sb_id_removals b) = Some RL" "sorted_wrt (<) RL"
    "set RL = (\<lambda>t. the (partial_in (env_order e) sz ?par t)) ` sb_removed e sz b"
    "length RL \<le> length (sb_removals b) + length (sb_id_removals b)"
    by (rule partially_resolved_eq [OF so wf st(2) ids(2)]) (simp add: sb_removed_def)
  obtain N P W where c: "collect_unresolved_strings so (cancelled AL RL) = (N, P, W)" by (cases "collect_unresolved_strings so (cancelled AL RL)") auto
  note C = collect_cancelled [OF so c]
  have pt: "\<exists>t. triple_strings_ok t \<and> x = the (partial_in (env_order e) sz ?par t)" if "x \<in> set AL" for x
    using that AL(3) changed_ok [OF st(1)] unfolding sb_added_def by blast
  have u: "s \<in> set N \<Longrightarrow> string_ok s \<and> parent_lookup ?par (\<lambda>p. InternalLayer_subject_id (env_order e) sz p s) = Some None"
    "s \<in> set P \<Longrightarrow> string_ok s \<and> parent_lookup ?par (\<lambda>p. InternalLayer_predicate_id (env_order e) sz p s) = Some None"
    "s \<in> set W \<Longrightarrow> string_ok s \<and> parent_lookup ?par (\<lambda>p. InternalLayer_object_value_id (env_order e) sz p s) = Some None" for s
    using C(8-10) [of s] pt unresolved_strings [OF wf, of _ s sz] by blast+
  have "length N \<le> 2 * length AL" "length P \<le> length AL" "length W \<le> length AL" by (rule C(4-6))+
  note len = this AL(4) RL(4) size
  have d: "dict_ok N" "dict_ok P" "dict_ok W" by (rule dict_okI; use u len in simp)+
  have "new_strings (env_order e) sz ?par N P W" using u by (simp add: new_strings_def)
  then show ?thesis
    using that [OF AL(1) RL(1) _ c AL(3) RL(3) AL(2) RL(2) d] zero_equivalents_eq [OF AL(2) RL(2)] len
    by (simp add: cancelled_def sb_added_count_def)
qed

end

section \<open>Committing a base layer\<close>

context build_env
begin

lemma commit_base_ok:
  assumes so: "sorters_ok so" and ok: "changes_ok e sz b" and par: "sb_parent b = None"
  shows "\<exists>maps l V. SimpleLayerBuilder_commit e so sz b = Some (Inr (BaseMaps maps)) \<and>
    BaseLayer_load e name maps = Some l \<and> InternalLayer_name l = name \<and> InternalLayer_immediate_parent l = None \<and>
    InternalLayer_node_and_value_count l \<le> 3 * sb_added_count b \<and>
    InternalLayer_predicate_count l \<le> sb_added_count b \<and>
    represents e sz l V (apply_changes {} (sb_added e sz b) (sb_removed e sz b))"
proof -
  define V :: "InternalLayer \<Rightarrow> layer_view" where "V = (\<lambda>_. fresh_view [] [] [])"
  have wf: "parent_wf (sb_parent b) V" by (simp add: par parent_wf_def)
  let ?A = "sb_added e sz b" and ?R = "sb_removed e sz b"
  obtain AL RL N P W where
    pr: "partially_resolved e so sz (sb_parent b) (sb_additions b) (sb_id_additions b) = Some AL"
    "partially_resolved e so sz (sb_parent b) (sb_removals b) (sb_id_removals b) = Some RL"
    "zero_equivalents AL RL = (cancelled AL RL, cancelled RL AL)"
    and c: "collect_unresolved_strings so (cancelled AL RL) = (N, P, W)"
    and AL: "set AL = (\<lambda>t. the (partial_in (env_order e) sz (sb_parent b) t)) ` ?A"
    and RL: "set RL = (\<lambda>t. the (partial_in (env_order e) sz (sb_parent b) t)) ` ?R"
    and srt: "sorted_wrt (<) AL" "sorted_wrt (<) RL"
    and d: "dict_ok N" "dict_ok P" "dict_ok W" and new: "new_strings (env_order e) sz (sb_parent b) N P W"
    and size: "parent_nv (sb_parent b) + length N + length W < 2 ^ 21" "parent_pc (sb_parent b) + length P < 2 ^ 21"
      "2 * length AL + (parent_nv (sb_parent b) + length N + length W) < 2 ^ 21"
    and few: "length N + length W \<le> 3 * sb_added_count b" "length P \<le> sb_added_count b"
    by (rule changes_prepared [OF so ok wf])
  obtain b1 b2 b3 nf pf vf nd pd vd where
    D: "BaseLayerFileBuilder_add_nodes BaseLayerFileBuilder_from_files N = Some (map of_nat [1..<length N + 1], b1)"
    "BaseLayerFileBuilder_add_predicates b1 P = Some (map of_nat [1..<length P + 1], b2)"
    "BaseLayerFileBuilder_add_values b2 W = Some (map of_nat [1..<length W + 1], b3)"
    "BaseLayerFileBuilder_into_phase2 e b3 =
      Some (Inr (BaseLayerFileBuilderPhase2_new e (nf, pf, vf) (length N) (length P) (length W)))"
    and lens: "dictionary_lens e (nf, pf, vf) = Some (Inr (length N, length P, length W))"
    and F: "load_dictionary e nf = Some nd" "load_dictionary e pf = Some pd" "load_dictionary e vf = Some vd"
    "pd_wf nd N" "pd_wf pd P" "pd_wf vd W" by (rule base_dictionaries [OF d])
  note C = collect_cancelled [OF so c]
  have z: "parent_nv (sb_parent b) = 0" "parent_pc (sb_parent b) = 0" by (simp_all add: par parent_nv_def parent_pc_def)
  note fr = fresh_layerI [OF _ F C(1-3)]
  have aok: "\<forall>t\<in>?A. triple_strings_ok t" "\<forall>t\<in>?R. triple_strings_ok t"
    using ok changed_ok unfolding changes_ok_def sb_added_def sb_removed_def by blast+
  have ids0: "ids_ok (length N + length W) (length P) (effective [])" using size z by (simp add: ids_ok_def effective_def)
  obtain l0 where l0: "layers_from l0 = [l0]" "own_dictionaries e (nf, pf, vf) l0"
    by (rule base_layer_built [OF lens ids0])
  have p0: "InternalLayer_immediate_parent l = None" if "layers_from l = [l]" for l
    using that layers_from_Cons [of l] layers_from_Cons by (auto split: option.splits)
  have dist: "distinct AL" using srt(1) by (simp add: strict_sorted_iff)
  note added = added_ids [OF so fr _ wf new c refl refl size aok(1) AL dist aok(2) RL]
  have par0: "sb_parent b = InternalLayer_immediate_parent l" if "layers_from l = [l]" for l using p0 [OF that] par by simp
  obtain ts where ts: "resolve_additions so (cancelled AL RL) (id_table N (map of_nat [1..<length N + 1]) (of_nat (parent_nv (sb_parent b))))
      (id_table P (map of_nat [1..<length P + 1]) (of_nat (parent_pc (sb_parent b))))
      (id_table W (map of_nat [1..<length W + 1]) (of_nat (parent_nv (sb_parent b)) + of_nat (length N))) = Some ts"
    "ids_ok (parent_nv (sb_parent b) + length N + length W) (parent_pc (sb_parent b) + length P) (effective ts)"
    by (rule added [OF l0(2) par0 [OF l0(1)]])
  then have ids: "ids_ok (length N + length W) (length P) (effective ts)" by (simp add: z)
  obtain ph maps l where B: "BaseLayerFileBuilderPhase2_add_id_triples
        (BaseLayerFileBuilderPhase2_new e (nf, pf, vf) (length N) (length P) (length W)) ts = Some (Inr ph)"
    "BaseLayerFileBuilderPhase2_finalize e ph = Some (Inr maps)" "BaseLayer_load e name maps = Some l"
    "layers_from l = [l]" "InternalLayer_name l = name" "own_dictionaries e (nf, pf, vf) l"
    by (rule base_layer_built [OF lens ids, where name = name])
  obtain ts' where "resolve_additions so (cancelled AL RL) (id_table N (map of_nat [1..<length N + 1]) (of_nat (parent_nv (sb_parent b))))
      (id_table P (map of_nat [1..<length P + 1]) (of_nat (parent_pc (sb_parent b))))
      (id_table W (map of_nat [1..<length W + 1]) (of_nat (parent_nv (sb_parent b)) + of_nat (length N))) = Some ts'"
    and ts': "set (effective ts') = {it. \<exists>t\<in>?A - ?R. Layer_string_triple_to_id (env_order e) sz l t = Some (Some it)}"
    "\<forall>t\<in>?A - ?R. \<exists>it. Layer_string_triple_to_id (env_order e) sz l t = Some (Some it)"
    by (rule added [OF B(6) par0 [OF B(4)]])
  then have "ts' = ts" using ts(1) by simp
  have "length (id_table N (map of_nat [1..<length N + 1]) 0) = length N"
    by (rule id_table_eq(2)) (rule strictly_sorted_distinct [OF C(1)])
  then have "commit_base e so (cancelled AL RL) (N, P, W) = Some (Inr maps)"
    using D B(1,2) ts(1) z by (simp add: commit_base_def Let_def del: upt_Suc)
  then have "SimpleLayerBuilder_commit e so sz b = Some (Inr (BaseMaps maps))"
    using pr c par by (simp add: SimpleLayerBuilder_commit_def Let_def)
  moreover have "represents e sz l (V(l := fresh_view N P W)) (apply_changes {} ?A ?R)"
    unfolding represents_def
  proof (intro conjI)
    show "layer_wf l (V(l := fresh_view N P W))"
      by (rule fresh_layer_wf [OF fr [OF B(6)] par0 [OF B(4)] wf]) (use size in simp_all)
    show "built e l {it. \<exists>t\<in>apply_changes {} ?A ?R. Layer_string_triple_to_id (env_order e) sz l t = Some (Some it)}"
      using built.base [OF lens ids B(1-3)] ts'(1) \<open>ts' = ts\<close> by (simp add: apply_changes_def)
  qed (use ts'(2) aok in \<open>auto simp: apply_changes_def\<close>)
  moreover have "InternalLayer_node_and_value_count l \<le> 3 * sb_added_count b" "InternalLayer_predicate_count l \<le> sb_added_count b"
    using fresh_counts(3,4) [OF fr [OF B(6)] par0 [OF B(4)]] few z by simp_all
  ultimately show ?thesis using B(3,5) p0 [OF B(4)] by blast
qed

end

section \<open>Committing a child layer\<close>

context build_env
begin

lemma commit_child_ok:
  assumes so: "sorters_ok so" and ok: "changes_ok e sz b" and par: "sb_parent b = Some p" and rep: "represents e sz p V S"
  shows "\<exists>maps l V'. SimpleLayerBuilder_commit e so sz b = Some (Inr (ChildMaps maps)) \<and>
    ChildLayer_load e name p maps = Some l \<and> InternalLayer_name l = name \<and> InternalLayer_immediate_parent l = Some p \<and>
    InternalLayer_node_and_value_count l \<le> InternalLayer_node_and_value_count p + 3 * sb_added_count b \<and>
    InternalLayer_predicate_count l \<le> InternalLayer_predicate_count p + sb_added_count b \<and>
    represents e sz l V' (apply_changes S (sb_added e sz b) (sb_removed e sz b))"
proof -
  from rep have lw: "layer_wf p V" and S: "\<forall>t\<in>S. triple_strings_ok t"
    "\<forall>t\<in>S. \<exists>it. Layer_string_triple_to_id (env_order e) sz p t = Some (Some it)" by (simp_all add: represents_def)
  define T where "T = {it. \<exists>t\<in>S. Layer_string_triple_to_id (env_order e) sz p t = Some (Some it)}"
  have bT: "built e p T" using rep by (simp add: represents_def T_def)
  then obtain A0 R0 where "stands_for p A0 R0 T" using built_stands_for by blast
  then have sw: "stack_wf p A0 R0" and hT: "holds_triple p A0 R0 = (\<lambda>t. t \<in> T)"
    by (auto simp: stands_for_def intro: predicates_stack_wf)
  have wf: "parent_wf (sb_parent b) V" using lw by (simp add: par parent_wf_def)
  let ?A = "sb_added e sz b" and ?R = "sb_removed e sz b" and ?c = "InternalLayer_all_counts p"
  obtain AL RL N P W where
    pr: "partially_resolved e so sz (Some p) (sb_additions b) (sb_id_additions b) = Some AL"
    "partially_resolved e so sz (Some p) (sb_removals b) (sb_id_removals b) = Some RL"
    "zero_equivalents AL RL = (cancelled AL RL, cancelled RL AL)"
    and c: "collect_unresolved_strings so (cancelled AL RL) = (N, P, W)"
    and AL: "set AL = (\<lambda>t. the (partial_in (env_order e) sz (Some p) t)) ` ?A"
    and RL: "set RL = (\<lambda>t. the (partial_in (env_order e) sz (Some p) t)) ` ?R"
    and srt: "sorted_wrt (<) AL" "sorted_wrt (<) RL"
    and d: "dict_ok N" "dict_ok P" "dict_ok W" and new: "new_strings (env_order e) sz (Some p) N P W"
    and size: "parent_nv (Some p) + length N + length W < 2 ^ 21" "parent_pc (Some p) + length P < 2 ^ 21"
      "2 * length AL + (parent_nv (Some p) + length N + length W) < 2 ^ 21" "2 * length RL + parent_nv (Some p) < 2 ^ 21"
    and few: "length N + length W \<le> 3 * sb_added_count b" "length P \<le> sb_added_count b"
    by (rule changes_prepared [OF so ok wf, unfolded par])
  have z: "parent_nv (Some p) = InternalLayer_node_and_value_count p" "parent_pc (Some p) = InternalLayer_predicate_count p"
    by (simp_all add: parent_nv_def parent_pc_def)
  note ac = all_counts_eq [OF lw]
  have cnt: "length N + lc_node_count ?c + (length W + lc_value_count ?c) = parent_nv (Some p) + length N + length W"
    "length P + lc_predicate_count ?c = parent_pc (Some p) + length P" using ac by (simp_all add: z)
  have wc: "(of_nat (lc_node_count ?c) + of_nat (lc_value_count ?c) :: u64) = of_nat (parent_nv (Some p))"
    "(of_nat (lc_predicate_count ?c) :: u64) = of_nat (parent_pc (Some p))"
    using ac by (simp_all add: z flip: of_nat_add)
  obtain b1 b2 b3 nf pf vf nd pd vd where
    D: "ChildLayerFileBuilder_add_nodes e sz (ChildLayerFileBuilder_from_files p) N = Some (map of_nat [1..<length N + 1], b1)"
    "ChildLayerFileBuilder_add_predicates e sz b1 P = Some (map of_nat [1..<length P + 1], b2)"
    "ChildLayerFileBuilder_add_values e sz b2 W = Some (map of_nat [1..<length W + 1], b3)"
    "ChildLayerFileBuilder_into_phase2 e b3 =
      Some (Inr (ChildLayerFileBuilderPhase2_new e p (nf, pf, vf) (length N) (length P) (length W)))"
    and lens: "dictionary_lens e (nf, pf, vf) = Some (Inr (length N, length P, length W))"
    and F: "load_dictionary e nf = Some nd" "load_dictionary e pf = Some pd" "load_dictionary e vf = Some vd"
    "pd_wf nd N" "pd_wf pd P" "pd_wf vd W"
    by (rule child_dictionaries [OF d, where parent = p and sz = sz]) (use new in \<open>simp_all add: new_strings_def parent_lookup_def\<close>)
  note C = collect_cancelled [OF so c]
  note fr = fresh_layerI [OF _ F C(1-3)]
  have aok: "\<forall>t\<in>?A. triple_strings_ok t" "\<forall>t\<in>?R. triple_strings_ok t"
    using ok changed_ok unfolding changes_ok_def sb_added_def sb_removed_def by blast+
  have ids0: "ids_ok (length N + lc_node_count ?c + (length W + lc_value_count ?c)) (length P + lc_predicate_count ?c) (effective [])"
    "ids_ok (length N + lc_node_count ?c + (length W + lc_value_count ?c)) (length P + lc_predicate_count ?c)
      (filter (holds_triple p A0 R0) [])"
    using size unfolding cnt by (simp_all add: ids_ok_def effective_def)
  obtain l0 where l0: "InternalLayer_immediate_parent l0 = Some p" "own_dictionaries e (nf, pf, vf) l0"
    by (rule child_layer_built [OF lens sw refl ids0])
  have dist: "distinct AL" using srt(1) by (simp add: strict_sorted_iff)
  have wfp: "parent_wf (Some p) V" using wf par by simp
  note added = added_ids [OF so fr _ wfp new c refl refl size(1-3) aok(1) AL dist aok(2) RL]
  obtain ts where ts: "resolve_additions so (cancelled AL RL) (id_table N (map of_nat [1..<length N + 1]) (of_nat (parent_nv (Some p))))
      (id_table P (map of_nat [1..<length P + 1]) (of_nat (parent_pc (Some p))))
      (id_table W (map of_nat [1..<length W + 1]) (of_nat (parent_nv (Some p)) + of_nat (length N))) = Some ts"
    "ids_ok (parent_nv (Some p) + length N + length W) (parent_pc (Some p) + length P) (effective ts)"
    by (rule added [OF l0(2) l0(1) [symmetric]])
  define rs where "rs = map removed_id (cancelled RL AL)"
  have rs: "ids_ok (parent_nv (Some p) + length N + length W) (parent_pc (Some p) + length P) (filter (\<lambda>t. t \<in> T) rs)"
    "T - set rs = {it. \<exists>t\<in>S - (?R - ?A). Layer_string_triple_to_id (env_order e) sz p t = Some (Some it)}"
    unfolding rs_def by (rule removed_ids [OF lw S(1) T_def aok(2) RL srt(2) aok(1) AL]; use size in \<open>simp add: z\<close>)+
  have ids: "ids_ok (length N + lc_node_count ?c + (length W + lc_value_count ?c)) (length P + lc_predicate_count ?c) (effective ts)"
    "ids_ok (length N + lc_node_count ?c + (length W + lc_value_count ?c)) (length P + lc_predicate_count ?c) (filter (\<lambda>t. t \<in> T) rs)"
    unfolding cnt by (rule ts(2), rule rs(1))
  obtain ph q maps l where B: "ChildLayerFileBuilderPhase2_add_id_triples e
        (ChildLayerFileBuilderPhase2_new e p (nf, pf, vf) (length N) (length P) (length W)) ts = Some (Inr ph)"
    "ChildLayerFileBuilderPhase2_remove_id_triples e ph rs = Some (Inr q)"
    "ChildLayerFileBuilderPhase2_finalize e q = Some (Inr maps)" "ChildLayer_load e name p maps = Some l"
    "InternalLayer_immediate_parent l = Some p" "InternalLayer_name l = name" "own_dictionaries e (nf, pf, vf) l"
    by (rule child_layer_built [OF lens sw refl ids [folded hT], where name = name])
  obtain ts' where "resolve_additions so (cancelled AL RL) (id_table N (map of_nat [1..<length N + 1]) (of_nat (parent_nv (Some p))))
      (id_table P (map of_nat [1..<length P + 1]) (of_nat (parent_pc (Some p))))
      (id_table W (map of_nat [1..<length W + 1]) (of_nat (parent_nv (Some p)) + of_nat (length N))) = Some ts'"
    and ts': "set (effective ts') = {it. \<exists>t\<in>?A - ?R. Layer_string_triple_to_id (env_order e) sz l t = Some (Some it)}"
    "\<forall>t\<in>?A - ?R. \<exists>it. Layer_string_triple_to_id (env_order e) sz l t = Some (Some it)"
    by (rule added [OF B(7) B(5) [symmetric]])
  then have ts_eq: "ts' = ts" using ts(1) by simp
  have "length (id_table N (map of_nat [1..<length N + 1]) (of_nat (parent_nv (Some p)))) = length N"
    by (rule id_table_eq(2)) (rule strictly_sorted_distinct [OF C(1)])
  then have "commit_child e so sz p (cancelled AL RL) (map PartiallyResolvedTriple_make_resolved_or_zero (cancelled RL AL)) (N, P, W) =
      Some (Inr maps)"
    using D B(1-3) ts(1)
    by (simp add: commit_child_def Let_def wc removed_ids_eq [of "cancelled RL AL", folded rs_def]
        del: upt_Suc map_map)
  then have "SimpleLayerBuilder_commit e so sz b = Some (Inr (ChildMaps maps))"
    using pr c par by (simp add: SimpleLayerBuilder_commit_def Let_def)
  moreover have "represents e sz l (V(l := fresh_view N P W)) (apply_changes S ?A ?R)"
  proof -
    note mono = to_id_mono [OF fr [OF B(7)] B(5) lw _ new]
    have lwl: "layer_wf l (V(l := fresh_view N P W))"
      by (rule fresh_layer_wf [OF fr [OF B(7)] B(5) [symmetric] wfp]) (use size in simp_all)
    have old: "Layer_string_triple_to_id (env_order e) sz l t = Layer_string_triple_to_id (env_order e) sz p t" if "t \<in> S" for t
      using mono S that by (metis option.inject)
    have Tl: "T = {it. \<exists>t\<in>S. Layer_string_triple_to_id (env_order e) sz l t = Some (Some it)}" using old by (auto simp: T_def)
    have rl: "T - set rs = {it. \<exists>t\<in>S - (?R - ?A). Layer_string_triple_to_id (env_order e) sz l t = Some (Some it)}"
      unfolding rs(2) using old by auto
    have "T - set rs \<union> (set (effective ts) - T) =
        {it. \<exists>t\<in>apply_changes S ?A ?R. Layer_string_triple_to_id (env_order e) sz l t = Some (Some it)}" (is "?lhs = ?rhs")
    proof (intro equalityI subsetI)
      fix it assume "it \<in> ?lhs"
      then show "it \<in> ?rhs" unfolding rl using ts'(1) ts_eq by (auto simp: apply_changes_def)
    next
      fix it assume "it \<in> ?rhs"
      then obtain t where t: "t \<in> apply_changes S ?A ?R" "Layer_string_triple_to_id (env_order e) sz l t = Some (Some it)" by blast
      show "it \<in> ?lhs"
      proof (cases "it \<in> T")
        case True
        then obtain t' where t': "t' \<in> S" "Layer_string_triple_to_id (env_order e) sz l t' = Some (Some it)" unfolding Tl by blast
        have "t' = t" by (rule to_id_inj [OF lwl _ _ t'(2) t(2)]) (use t(1) t'(1) S aok in \<open>auto simp: apply_changes_def\<close>)
        then have "t \<in> S - (?R - ?A)" using t(1) t'(1) by (auto simp: apply_changes_def)
        then show ?thesis using rl t(2) by blast
      next
        case False
        then have "t \<notin> S" using t(2) unfolding Tl by blast
        then have "t \<in> ?A - ?R" using t(1) by (auto simp: apply_changes_def)
        then show ?thesis using ts'(1) ts_eq t(2) False by blast
      qed
    qed
    then have bl: "built e l {it. \<exists>t\<in>apply_changes S ?A ?R. Layer_string_triple_to_id (env_order e) sz l t = Some (Some it)}"
      using built.child [OF bT lens refl ids B(1-4)] by simp
    have "\<forall>t\<in>apply_changes S ?A ?R. triple_strings_ok t \<and> (\<exists>it. Layer_string_triple_to_id (env_order e) sz l t = Some (Some it))"
      using S old ts'(2) aok by (auto simp: apply_changes_def)
    with lwl bl show ?thesis by (simp add: represents_def)
  qed
  moreover have "InternalLayer_node_and_value_count l \<le> InternalLayer_node_and_value_count p + 3 * sb_added_count b"
    "InternalLayer_predicate_count l \<le> InternalLayer_predicate_count p + sb_added_count b"
    using fresh_counts(3,4) [OF fr [OF B(7)] B(5) [symmetric]] few z by simp_all
  ultimately show ?thesis using B(4-6) by blast
qed

end

section \<open>Committed stacks\<close>

text \<open>The stacks that come from commits, with the set of string triples they should stand for.\<close>

inductive committed :: "env \<Rightarrow> sorters \<Rightarrow> usize \<Rightarrow> InternalLayer \<Rightarrow> StringTriple set \<Rightarrow> bool" for e so sz where
  base: "sb_parent b = None \<Longrightarrow> changes_ok e sz b \<Longrightarrow> SimpleLayerBuilder_commit e so sz b = Some (Inr maps) \<Longrightarrow>
    load_committed e (sb_name b) None maps = Some l \<Longrightarrow>
    committed e so sz l (apply_changes {} (sb_added e sz b) (sb_removed e sz b))"
| child: "committed e so sz p S \<Longrightarrow> sb_parent b = Some p \<Longrightarrow> changes_ok e sz b \<Longrightarrow>
    SimpleLayerBuilder_commit e so sz b = Some (Inr maps) \<Longrightarrow> load_committed e (sb_name b) (Some p) maps = Some l \<Longrightarrow>
    committed e so sz l (apply_changes S (sb_added e sz b) (sb_removed e sz b))"

context big_endian
begin

lemma to_id_string:
  assumes "layer_wf l V" "triple_strings_ok t" "Layer_string_triple_to_id bo sz l t = Some (Some it)"
  shows "Layer_id_triple_to_string bo sz l it = Some (Some t)"
proof (rule to_id_parts [OF assms(1,2), of sz])
  fix r assume "Layer_string_triple_to_id bo sz l t = Some r"
    and "\<And>it. r = Some it \<Longrightarrow> Layer_id_triple_to_string bo sz l it = Some (Some t)"
  then show ?thesis using assms(3) by simp
qed

end

lemma layers_from_sub: "p \<in> set (layers_from l) \<Longrightarrow> set (layers_from p) \<subseteq> set (layers_from l)"
proof (induction l rule: layer_induct)
  case (layer l)
  then show ?case using layers_from_Cons [of l] by (cases "InternalLayer_immediate_parent l") auto
qed

context build_env
begin

lemma committed_represents:
  assumes so: "sorters_ok so"
  shows "committed e so sz l S \<Longrightarrow> \<exists>V. represents e sz l V S"
proof (induction rule: committed.induct)
  case (base b maps l)
  from commit_base_ok [OF so base(2,1), of "sb_name b"] base(3,4) show ?case by (auto simp: load_committed_def)
next
  case (child p S b maps l)
  from child.IH obtain V where "represents e sz p V S" by blast
  from commit_child_ok [OF so child(3,2) this, of "sb_name b"] child(4,5) show ?case by (auto simp: load_committed_def)
qed

text \<open>A stack together with the changes of each of its layers.\<close>

lemma committed_stands_for:
  assumes "sorters_ok so" "committed e so sz l S"
  obtains V A R where "layer_wf l V" "\<forall>t\<in>S. triple_strings_ok t \<and> (\<exists>it. Layer_string_triple_to_id (env_order e) sz l t = Some (Some it))"
    "stands_for l A R {it. \<exists>t\<in>S. Layer_string_triple_to_id (env_order e) sz l t = Some (Some it)}"
proof -
  obtain V where V: "represents e sz l V S" using committed_represents [OF assms] by blast
  then have "built e l {it. \<exists>t\<in>S. Layer_string_triple_to_id (env_order e) sz l t = Some (Some it)}" by (simp add: represents_def)
  from built_stands_for [OF this] obtain A R where
    "stands_for l A R {it. \<exists>t\<in>S. Layer_string_triple_to_id (env_order e) sz l t = Some (Some it)}" by blast
  with V show ?thesis by (intro that [of V A R]) (simp_all add: represents_def)
qed

text \<open>Two views of the triples of a stack: the translated list of its ids, and the test of one triple.\<close>

lemma stack_strings:
  assumes wf: "layer_wf l V"
    and S: "\<forall>t\<in>S. triple_strings_ok t \<and> (\<exists>it. Layer_string_triple_to_id (env_order e) sz l t = Some (Some it))"
    and ids: "distinct ids" "set ids = {it. \<exists>t\<in>S. Layer_string_triple_to_id (env_order e) sz l t = Some (Some it)}"
  shows "\<exists>xs. map (Layer_id_triple_to_string (env_order e) sz l) ids = map (\<lambda>t. Some (Some t)) xs \<and> distinct xs \<and> set xs = S"
proof -
  let ?bo = "env_order e"
  define g where "g = (\<lambda>it. the (the (Layer_id_triple_to_string ?bo sz l it)))"
  have g: "Layer_id_triple_to_string ?bo sz l it = Some (Some (g it)) \<and> g it \<in> S \<and>
      Layer_string_triple_to_id ?bo sz l (g it) = Some (Some it)" if "it \<in> set ids" for it
    using that S to_id_string [OF wf] unfolding ids(2) g_def by auto
  have "inj_on g (set ids)" by (rule inj_onI) (metis g option.inject)
  then have "distinct (map g ids)" using ids(1) by (simp add: distinct_map)
  moreover have "set (map g ids) = S"
  proof
    show "set (map g ids) \<subseteq> S" using g by auto
    show "S \<subseteq> set (map g ids)"
    proof
      fix t assume t: "t \<in> S"
      then obtain it where it: "triple_strings_ok t" "Layer_string_triple_to_id ?bo sz l t = Some (Some it)" using S by blast
      then have "it \<in> set ids" "g it = t" using t ids(2) to_id_string [OF wf it] by (auto simp: g_def)
      then show "t \<in> set (map g ids)" by auto
    qed
  qed
  moreover have "map (Layer_id_triple_to_string ?bo sz l) ids = map (\<lambda>t. Some (Some t)) (map g ids)" using g by simp
  ultimately show ?thesis by blast
qed

lemma stack_exists:
  assumes wf: "layer_wf l V" and t: "triple_strings_ok t"
    and S: "\<forall>t\<in>S. triple_strings_ok t \<and> (\<exists>it. Layer_string_triple_to_id (env_order e) sz l t = Some (Some it))"
    and st: "stands_for l A R {it. \<exists>t\<in>S. Layer_string_triple_to_id (env_order e) sz l t = Some (Some it)}"
  shows "\<exists>r. Layer_string_triple_to_id (env_order e) sz l t = Some r \<and> (case r of None \<Rightarrow> t \<notin> S
       | Some it \<Rightarrow> InternalLayer_triple_exists (env_order e) l (it_subject it) (it_predicate it) (it_object it) = Some (t \<in> S))"
proof -
  let ?bo = "env_order e"
  obtain r where r: "Layer_string_triple_to_id ?bo sz l t = Some r" by (rule to_id_parts [OF wf t, of sz])
  have "InternalLayer_triple_exists ?bo l (it_subject it) (it_predicate it) (it_object it) = Some (t \<in> S)" if it: "r = Some it" for it
  proof -
    have "stack_wf l A R" using st by (auto simp: stands_for_def intro: predicates_stack_wf)
    then have "InternalLayer_triple_exists ?bo l (it_subject it) (it_predicate it) (it_object it) = Some (holds_triple l A R it)"
      using triple_exists_eq [of l A R "it_subject it" "it_predicate it" "it_object it"] by simp
    moreover have "holds_triple l A R it \<longleftrightarrow> t \<in> S"
    proof
      assume "holds_triple l A R it"
      then have "it \<in> {it. \<exists>t\<in>S. Layer_string_triple_to_id ?bo sz l t = Some (Some it)}" using st unfolding stands_for_def by blast
      then obtain t' where t': "t' \<in> S" "Layer_string_triple_to_id ?bo sz l t' = Some (Some it)" by blast
      moreover have "t = t'" by (rule to_id_inj [OF wf t _ _ t'(2)]) (use r it S t'(1) in simp_all)
      ultimately show "t \<in> S" by simp
    next
      assume "t \<in> S"
      then show "holds_triple l A R it" using st r it unfolding stands_for_def by blast
    qed
    ultimately show ?thesis by simp
  qed
  moreover have "t \<notin> S" if "r = None" using that r S by auto
  ultimately show ?thesis using r by (auto split: option.split)
qed

lemma committed_strings:
  assumes "sorters_ok so" "committed e so sz l S"
  shows "\<exists>ids xs. InternalLayer_triples (env_order e) l = Some ids \<and>
      map (Layer_id_triple_to_string (env_order e) sz l) ids = map (\<lambda>t. Some (Some t)) xs \<and> distinct xs \<and> set xs = S \<and>
    (\<forall>t. triple_strings_ok t \<longrightarrow> (\<exists>r. Layer_string_triple_to_id (env_order e) sz l t = Some r \<and>
      (case r of None \<Rightarrow> t \<notin> S
       | Some it \<Rightarrow> InternalLayer_triple_exists (env_order e) l (it_subject it) (it_predicate it) (it_object it) = Some (t \<in> S))))"
proof -
  obtain V A R where wf: "layer_wf l V"
    and S: "\<forall>t\<in>S. triple_strings_ok t \<and> (\<exists>it. Layer_string_triple_to_id (env_order e) sz l t = Some (Some it))"
    and st: "stands_for l A R {it. \<exists>t\<in>S. Layer_string_triple_to_id (env_order e) sz l t = Some (Some it)}"
    by (rule committed_stands_for [OF assms])
  from stands_for_queries [OF st] obtain ids where
    ids: "sorted_wrt (<) ids" "set ids = {it. \<exists>t\<in>S. Layer_string_triple_to_id (env_order e) sz l t = Some (Some it)}"
      "InternalLayer_triples (env_order e) l = Some ids" by blast
  have "distinct ids" using ids(1) by (simp add: strict_sorted_iff)
  from stack_strings [OF wf S this ids(2)] ids(3) stack_exists [OF wf _ S st]
  show ?thesis by blast
qed

lemma commit_ok:
  assumes "sorters_ok so" "changes_ok e sz b"
    and "case sb_parent b of None \<Rightarrow> S = {} | Some p \<Rightarrow> committed e so sz p S"
  shows "\<exists>maps l. SimpleLayerBuilder_commit e so sz b = Some (Inr maps) \<and>
    load_committed e (sb_name b) (sb_parent b) maps = Some l \<and> InternalLayer_name l = sb_name b \<and>
    InternalLayer_immediate_parent l = sb_parent b \<and>
    InternalLayer_node_and_value_count l \<le> parent_nv (sb_parent b) + 3 * sb_added_count b \<and>
    InternalLayer_predicate_count l \<le> parent_pc (sb_parent b) + sb_added_count b \<and>
    committed e so sz l (apply_changes S (sb_added e sz b) (sb_removed e sz b))"
proof (cases "sb_parent b")
  case None
  obtain maps l where "SimpleLayerBuilder_commit e so sz b = Some (Inr (BaseMaps maps))"
    "BaseLayer_load e (sb_name b) maps = Some l" "InternalLayer_name l = sb_name b" "InternalLayer_immediate_parent l = None"
    "InternalLayer_node_and_value_count l \<le> 3 * sb_added_count b" "InternalLayer_predicate_count l \<le> sb_added_count b"
    using commit_base_ok [OF assms(1,2) None] by blast
  with None assms(3) committed.base [OF None assms(2)] show ?thesis
    by (auto simp: load_committed_def parent_nv_def parent_pc_def)
next
  case (Some p)
  with assms(3) have p: "committed e so sz p S" by simp
  from committed_represents [OF assms(1) this] obtain V where "represents e sz p V S" by blast
  from commit_child_ok [OF assms(1,2) Some this] obtain maps l where
    "SimpleLayerBuilder_commit e so sz b = Some (Inr (ChildMaps maps))" "ChildLayer_load e (sb_name b) p maps = Some l"
    "InternalLayer_name l = sb_name b" "InternalLayer_immediate_parent l = Some p"
    "InternalLayer_node_and_value_count l \<le> InternalLayer_node_and_value_count p + 3 * sb_added_count b"
    "InternalLayer_predicate_count l \<le> InternalLayer_predicate_count p + sb_added_count b" by blast
  with Some committed.child [OF p Some assms(2)] show ?thesis
    by (auto simp: load_committed_def parent_nv_def parent_pc_def)
qed

end

definition sorters_std :: sorters where
  "sorters_std = \<lparr>so_partial = sort, so_ids = sort, so_strings = sort\<rparr>"

lemma sorters_std_ok: "sorters_ok sorters_std"
  by (simp add: sorters_ok_def sorters_std_def)

text \<open>A builder with one triple, and its base layer.\<close>

definition sample_triple :: StringTriple where
  "sample_triple = StringTriple [99] [115] (Value [109])"

definition sample_builder :: SimpleLayerBuilder where
  "sample_builder = SimpleLayerBuilder_add_string_triple (SimpleLayerBuilder_new (1, 2, 3, 4, 5)) sample_triple"

lemma sample_ok_triple: "triple_strings_ok sample_triple"
  by (simp add: sample_triple_def triple_strings_ok_def string_ok_def)

lemma sample_builder_ok: "changes_ok e sz sample_builder" "sb_parent sample_builder = None"
  "sb_added e sz sample_builder = {sample_triple}" "sb_removed e sz sample_builder = {}"
  by (simp_all add: changes_ok_def sample_builder_def SimpleLayerBuilder_add_string_triple_def SimpleLayerBuilder_new_def
      ids_known_def parent_nv_def parent_pc_def sb_added_def sb_removed_def changed_def sample_ok_triple)

text \<open>The builder of a child that adds a triple and removes the one of the base layer.\<close>

definition sample_child :: "InternalLayer \<Rightarrow> SimpleLayerBuilder" where
  "sample_child p = SimpleLayerBuilder_remove_string_triple
    (SimpleLayerBuilder_add_string_triple (SimpleLayerBuilder_from_parent (5, 4, 3, 2, 1) p) (StringTriple [99] [115] (Node [100])))
    sample_triple"

section \<open>Properties\<close>

text \<open>
  C1. A commit refines the change of a set of string triples. Let a stack of layers come from
  commits, starting with an empty set \<open>S\<close>, where each commit removes what was removed and not
  also added and adds what was added and not also removed. Then iterating over the triples of
  the stack and translating them to strings never panics and yields every triple of \<open>S\<close>
  exactly once, and looking up any triple of strings and asking whether it exists answers
  whether it is in \<open>S\<close>.
\<close>

theorem committed_queries:
  assumes "env_ok e" "sorters_ok so" "committed e so sz l S"
  shows "\<exists>ids xs. InternalLayer_triples (env_order e) l = Some ids \<and>
      map (Layer_id_triple_to_string (env_order e) sz l) ids = map (\<lambda>t. Some (Some t)) xs \<and> distinct xs \<and> set xs = S \<and>
    (\<forall>t. triple_strings_ok t \<longrightarrow> (\<exists>r. Layer_string_triple_to_id (env_order e) sz l t = Some r \<and>
      (case r of None \<Rightarrow> t \<notin> S
       | Some it \<Rightarrow> InternalLayer_triple_exists (env_order e) l (it_subject it) (it_predicate it) (it_object it) = Some (t \<in> S))))"
proof -
  have env: "build_env e" using assms(1) by unfold_locales
  show ?thesis by (rule build_env.committed_strings [OF env assms(2,3)])
qed

lemma sample_committed:
  "\<exists>l. committed env_std sorters_std 32 l {sample_triple} \<and> InternalLayer_node_and_value_count l \<le> 3 \<and>
    InternalLayer_predicate_count l \<le> 1 \<and> InternalLayer_name l = (1, 2, 3, 4, 5)"
proof -
  obtain maps l where c: "SimpleLayerBuilder_commit env_std sorters_std 32 sample_builder = Some (Inr (BaseMaps maps))"
    "BaseLayer_load env_std (sb_name sample_builder) maps = Some l" "InternalLayer_name l = sb_name sample_builder"
    "InternalLayer_node_and_value_count l \<le> 3 * sb_added_count sample_builder"
    "InternalLayer_predicate_count l \<le> sb_added_count sample_builder"
    using std_env.commit_base_ok [OF sorters_std_ok sample_builder_ok(1,2)] by blast
  have "sb_added_count sample_builder = 1" "sb_name sample_builder = (1, 2, 3, 4, 5)"
    by (simp_all add: sb_added_count_def sample_builder_def SimpleLayerBuilder_add_string_triple_def SimpleLayerBuilder_new_def)
  with committed.base [OF sample_builder_ok(2,1) c(1)] c(2-5) show ?thesis
    by (auto simp: load_committed_def sample_builder_ok apply_changes_def)
qed

lemma sample_child_ok:
  assumes "InternalLayer_node_and_value_count p \<le> 3" "InternalLayer_predicate_count p \<le> 1"
  shows "changes_ok e sz (sample_child p)" "sb_parent (sample_child p) = Some p" "sb_name (sample_child p) = (5, 4, 3, 2, 1)"
    "sb_added e sz (sample_child p) = {StringTriple [99] [115] (Node [100])}" "sb_removed e sz (sample_child p) = {sample_triple}"
  using assms sample_ok_triple
  by (simp_all add: changes_ok_def sample_child_def SimpleLayerBuilder_add_string_triple_def SimpleLayerBuilder_from_parent_def
      SimpleLayerBuilder_remove_string_triple_def ids_known_def parent_nv_def parent_pc_def sb_added_def sb_removed_def
      changed_def triple_strings_ok_def string_ok_def)

lemma sample_child_committed:
  "\<exists>p l. committed env_std sorters_std 32 p {sample_triple} \<and> InternalLayer_name p = (1, 2, 3, 4, 5) \<and>
    InternalLayer_immediate_parent l = Some p \<and> InternalLayer_name l = (5, 4, 3, 2, 1) \<and>
    committed env_std sorters_std 32 l {StringTriple [99] [115] (Node [100])}"
proof -
  obtain p where p: "committed env_std sorters_std 32 p {sample_triple}" "InternalLayer_node_and_value_count p \<le> 3"
    "InternalLayer_predicate_count p \<le> 1" "InternalLayer_name p = (1, 2, 3, 4, 5)" using sample_committed by blast
  note ok = sample_child_ok [OF p(2,3)]
  from std_env.committed_represents [OF sorters_std_ok p(1)] obtain V where "represents env_std 32 p V {sample_triple}" by blast
  from std_env.commit_child_ok [OF sorters_std_ok ok(1,2) this, of "(5, 4, 3, 2, 1)"] obtain maps l where
    c: "SimpleLayerBuilder_commit env_std sorters_std 32 (sample_child p) = Some (Inr (ChildMaps maps))"
      "ChildLayer_load env_std (5, 4, 3, 2, 1) p maps = Some l" "InternalLayer_name l = (5, 4, 3, 2, 1)"
      "InternalLayer_immediate_parent l = Some p" by blast
  have "committed env_std sorters_std 32 l (apply_changes {sample_triple} {StringTriple [99] [115] (Node [100])} {sample_triple})"
    using committed.child [OF p(1) ok(2,1) c(1)] c(2) ok(3-5) by (auto simp: load_committed_def)
  with p c show ?thesis by (auto simp: apply_changes_def sample_triple_def)
qed

theorem committed_queries_witness:
  "\<exists>l ids xs. InternalLayer_triples byteorder_std l = Some ids \<and>
    map (Layer_id_triple_to_string byteorder_std 32 l) ids = map (\<lambda>t. Some (Some t)) xs \<and> distinct xs \<and> set xs = {sample_triple}"
proof -
  obtain l where "committed env_std sorters_std 32 l {sample_triple}" using sample_committed by blast
  from committed_queries [OF env_std_ok sorters_std_ok this] show ?thesis by (auto simp: env_std_def)
qed

text \<open>
  C2. Committing succeeds. For a builder over a committed parent, or without a parent, whose
  strings are non-empty valid UTF-8 without null bytes, whose id triples are known to the
  parent and that stays within the sizes, \<open>commit\<close> neither panics nor returns an error, the
  files it leaves load into a layer with the parent and the name of the builder, and that
  layer is a committed stack for the changed set. The counts of the layer grow by at most
  three nodes and values and one predicate for each addition.
\<close>

theorem commit_succeeds:
  assumes "env_ok e" "sorters_ok so" "changes_ok e sz b"
    and "case sb_parent b of None \<Rightarrow> S = {} | Some p \<Rightarrow> committed e so sz p S"
  shows "\<exists>maps l. SimpleLayerBuilder_commit e so sz b = Some (Inr maps) \<and>
    load_committed e (sb_name b) (sb_parent b) maps = Some l \<and> InternalLayer_name l = sb_name b \<and>
    InternalLayer_immediate_parent l = sb_parent b \<and>
    InternalLayer_node_and_value_count l \<le> parent_nv (sb_parent b) + 3 * sb_added_count b \<and>
    InternalLayer_predicate_count l \<le> parent_pc (sb_parent b) + sb_added_count b \<and>
    committed e so sz l (apply_changes S (sb_added e sz b) (sb_removed e sz b))"
proof -
  have env: "build_env e" using assms(1) by unfold_locales
  show ?thesis by (rule build_env.commit_ok [OF env assms(2,3,4)])
qed

theorem commit_succeeds_witness:
  "\<exists>maps l. SimpleLayerBuilder_commit env_std sorters_std 32 sample_builder = Some (Inr maps) \<and>
    load_committed env_std (1, 2, 3, 4, 5) None maps = Some l \<and> committed env_std sorters_std 32 l {sample_triple}"
  using commit_succeeds [OF env_std_ok sorters_std_ok sample_builder_ok(1), of "{}" 32] sample_builder_ok(2-4)
  by (auto simp: apply_changes_def sample_builder_def SimpleLayerBuilder_add_string_triple_def SimpleLayerBuilder_new_def)



text \<open>
  C4. The changes between a committed stack and one of its ancestors: the iterator over a
  stack of layers reports \<open>ParentNotFound\<close> exactly when no proper ancestor has the name, and
  otherwise yields, in the order of the triples, an addition for every triple that the layer
  has and the ancestor has not, a removal for every triple that the ancestor has and the
  layer has not, and nothing else, whatever happened in the layers between.
\<close>

theorem committed_stack_changes:
  assumes "env_ok e" "sorters_ok so" "committed e so sz l S"
  shows "case InternalTripleStackIterator_from_layer_stack l pid of
      Inl err \<Rightarrow> err = ParentNotFound \<and> (\<forall>p\<in>set (tl (layers_from l)). InternalLayer_name p \<noteq> pid)
    | Inr it \<Rightarrow> \<exists>p cs. InternalLayer_name p = pid \<and> p \<in> set (tl (layers_from l)) \<and>
        iter_collect (InternalTripleStackIterator_next (env_order e)) it = Some cs \<and> sorted_wrt (<) (map snd cs) \<and>
        (\<forall>c s pr ob. (c, IdTriple s pr ob) \<in> set cs \<longleftrightarrow>
          InternalLayer_triple_exists (env_order e) l s pr ob = Some (c = Addition) \<and>
          InternalLayer_triple_exists (env_order e) p s pr ob = Some (c = Removal))"
proof -
  have env: "build_env e" using assms(1) by unfold_locales
  have be: "big_endian (env_order e)" using assms(1) by (simp add: env_ok_def)
  obtain V A R T where st: "stands_for l A R T"
    by (rule build_env.committed_stands_for [OF env assms(2,3)])
  then have wf: "stack_wf l A R" "history_ok l A R" by (auto simp: stands_for_def intro: predicates_stack_wf)
  show ?thesis
  proof (cases "InternalTripleStackIterator_from_layer_stack l pid")
    case (Inl err)
    then have "parents_upto (InternalLayer_immediate_parent l) pid = None" "err = ParentNotFound"
      by (auto simp: InternalTripleStackIterator_from_layer_stack_def split: option.splits)
    then show ?thesis using Inl by (simp add: parents_upto_None layers_from_Cons [of l] split: option.splits)
  next
    case (Inr it)
    from big_endian.stack_changes_eq [OF be wf Inr] obtain p cs where p: "InternalLayer_name p = pid" "p \<in> set (tl (layers_from l))"
      "iter_collect (InternalTripleStackIterator_next (env_order e)) it = Some cs" "sorted_wrt (<) (map snd cs)"
      and cs: "\<And>t. (Addition, t) \<in> set cs \<longleftrightarrow> holds_triple l A R t \<and> \<not> holds_triple p A R t"
      "\<And>t. (Removal, t) \<in> set cs \<longleftrightarrow> \<not> holds_triple l A R t \<and> holds_triple p A R t" by blast
    have "p \<in> set (layers_from l)" using p(2) by (simp add: list.set_sel(2) layers_from_Cons [of l])
    then have "stack_wf p A R" using wf(1) layers_from_sub [of p l] by (auto simp: stack_wf_def)
    note ex = big_endian.triple_exists_eq [OF be wf(1)] big_endian.triple_exists_eq [OF be this]
    have "(c, IdTriple s pr ob) \<in> set cs \<longleftrightarrow>
          InternalLayer_triple_exists (env_order e) l s pr ob = Some (c = Addition) \<and>
          InternalLayer_triple_exists (env_order e) p s pr ob = Some (c = Removal)" for c s pr ob
      using cs [of "IdTriple s pr ob"] unfolding ex by (cases c) simp_all
    with Inr p show ?thesis by auto
  qed
qed

theorem committed_stack_changes_witness:
  "\<exists>p l it cs. InternalLayer_name p = (1, 2, 3, 4, 5) \<and> InternalTripleStackIterator_from_layer_stack l (1, 2, 3, 4, 5) = Inr it \<and>
    iter_collect (InternalTripleStackIterator_next byteorder_std) it = Some cs \<and> sorted_wrt (<) (map snd cs)"
proof -
  obtain p l where l: "committed env_std sorters_std 32 l {StringTriple [99] [115] (Node [100])}"
    "InternalLayer_immediate_parent l = Some p" "InternalLayer_name p = (1, 2, 3, 4, 5)" using sample_child_committed by blast
  have "parents_upto (InternalLayer_immediate_parent l) (1, 2, 3, 4, 5) = Some []" using l(2,3) by simp
  then obtain it where "InternalTripleStackIterator_from_layer_stack l (1, 2, 3, 4, 5) = Inr it"
    by (simp add: InternalTripleStackIterator_from_layer_stack_def)
  with committed_stack_changes [OF env_std_ok sorters_std_ok l(1), of "(1, 2, 3, 4, 5)"] show ?thesis
    by (auto simp: env_std_def)
qed

text \<open>
  C5. The id queries of a committed stack agree with a reference: there is one list of id
  triples, in strictly increasing order, such that the iterator over all triples yields it and
  the queries by subject, by subject and predicate, by predicate other than 0 and by object
  yield exactly its triples with those ids, in its order, and the count of the triples, made
  from the counts of additions and removals, is its length.
\<close>

theorem committed_id_queries:
  assumes "env_ok e" "sorters_ok so" "committed e so sz l S"
  shows "\<exists>ts. sorted_wrt (<) ts \<and> InternalLayer_triples (env_order e) l = Some ts \<and>
    (\<forall>s. InternalLayer_triples_s (env_order e) l s = Some (filter (\<lambda>t. it_subject t = s) ts)) \<and>
    (\<forall>s p. InternalLayer_triples_sp (env_order e) l s p = Some (filter (\<lambda>t. it_subject t = s \<and> it_predicate t = p) ts)) \<and>
    (\<forall>p. p \<noteq> 0 \<longrightarrow> InternalLayer_triples_p (env_order e) l p = Some (filter (\<lambda>t. it_predicate t = p) ts)) \<and>
    (\<forall>ob. InternalLayer_triples_o (env_order e) l ob = Some (filter (\<lambda>t. it_object t = ob) ts)) \<and>
    Layer_triple_count (env_order e) l = Some (length ts) \<and> length ts = card S"
proof -
  have env: "build_env e" using assms(1) by unfold_locales
  obtain V A R where wf: "layer_wf l V"
    and S: "\<forall>t\<in>S. triple_strings_ok t \<and> (\<exists>it. Layer_string_triple_to_id (env_order e) sz l t = Some (Some it))"
    and st: "stands_for l A R {it. \<exists>t\<in>S. Layer_string_triple_to_id (env_order e) sz l t = Some (Some it)}"
    by (rule build_env.committed_stands_for [OF env assms(2,3)])
  from build_env.stands_for_queries [OF env st] obtain ts where
    ts: "sorted_wrt (<) ts" "set ts = {it. \<exists>t\<in>S. Layer_string_triple_to_id (env_order e) sz l t = Some (Some it)}"
      "InternalLayer_triples (env_order e) l = Some ts \<and>
    (\<forall>s. InternalLayer_triples_s (env_order e) l s = Some (filter (\<lambda>t. it_subject t = s) ts)) \<and>
    (\<forall>s p. InternalLayer_triples_sp (env_order e) l s p = Some (filter (\<lambda>t. it_subject t = s \<and> it_predicate t = p) ts)) \<and>
    (\<forall>p. p \<noteq> 0 \<longrightarrow> InternalLayer_triples_p (env_order e) l p = Some (filter (\<lambda>t. it_predicate t = p) ts)) \<and>
    (\<forall>ob. InternalLayer_triples_o (env_order e) l ob = Some (filter (\<lambda>t. it_object t = ob) ts)) \<and>
    Layer_triple_count (env_order e) l = Some (length ts)" by blast
  have "distinct ts" using ts(1) by (simp add: strict_sorted_iff)
  from build_env.stack_strings [OF env wf S this ts(2)] obtain xs where
    "map (Layer_id_triple_to_string (env_order e) sz l) ts = map (\<lambda>t. Some (Some t)) xs" "distinct xs" "set xs = S" by blast
  then have "length ts = card S" using distinct_card [of xs] by (metis length_map)
  with ts(1,3) show ?thesis by (intro exI [of _ ts]) simp
qed

theorem committed_id_queries_witness:
  "\<exists>l ts. InternalLayer_triples byteorder_std l = Some ts \<and> Layer_triple_count byteorder_std l = Some 1 \<and>
    (\<forall>s. InternalLayer_triples_s byteorder_std l s = Some (filter (\<lambda>t. it_subject t = s) ts))"
proof -
  obtain l where "committed env_std sorters_std 32 l {sample_triple}" using sample_committed by blast
  from committed_id_queries [OF env_std_ok sorters_std_ok this] show ?thesis
    by (intro exI [of _ l]) (auto simp: env_std_def)
qed

end
