(* ===== verification/LayerNames.thy ===== *)
theory LayerNames
  imports LayerBuilder
begin

text \<open>
  The text form of the names of layers, \<open>name_to_string\<close>, \<open>string_to_name\<close> and
  \<open>bytes_to_name\<close> of \<open>src/storage/layer.rs\<close>, with what they and the readers of label and
  rollup files use of the standard library: integers printed and parsed in a radix, the lines
  of a string, slices of a string at character boundaries and \<open>String::from_utf8_lossy\<close>.
\<close>

section \<open>Model\<close>

subsection \<open>The standard library\<close>

text \<open>\<open>char::to_digit\<close> and its inverse, on bytes.\<close>

definition to_digit :: "nat \<Rightarrow> u8 \<Rightarrow> nat option" where
  "to_digit radix b =
    (let n = unat b;
         d = (if 48 \<le> n \<and> n \<le> 57 then n - 48
              else if 97 \<le> n \<and> n \<le> 122 then n - 87
              else if 65 \<le> n \<and> n \<le> 90 then n - 55
              else radix)
     in if d < radix then Some d else None)"

definition digit_byte :: "nat \<Rightarrow> u8" where
  "digit_byte d = (if d < 10 then of_nat (48 + d) else of_nat (87 + d))"

text \<open>\<open>from_str_radix\<close> of an unsigned type whose values are below \<open>bound\<close>; \<open>None\<close> is the error.\<close>

fun radix_loop :: "nat \<Rightarrow> nat \<Rightarrow> nat \<Rightarrow> bytes \<Rightarrow> nat option" where
  "radix_loop bound radix result [] = Some result"
| "radix_loop bound radix result (c # cs) =
    (case to_digit radix c of None \<Rightarrow> None
     | Some d \<Rightarrow>
         if result * radix + d < bound then radix_loop bound radix (result * radix + d) cs else None)"

definition from_str_radix :: "nat \<Rightarrow> nat \<Rightarrow> bytes \<Rightarrow> nat option" where
  "from_str_radix bound radix src =
    (case src of [] \<Rightarrow> None
     | c # cs \<Rightarrow>
         if cs = [] \<and> (c = 43 \<or> c = 45) then None
         else radix_loop bound radix 0 (if c = 43 then cs else src))"

text \<open>The formats \<open>{:0kx}\<close> of a number below \<open>16 ^ k\<close>, and \<open>{}\<close>.\<close>

fun format_hex :: "nat \<Rightarrow> nat \<Rightarrow> bytes" where
  "format_hex 0 n = []"
| "format_hex (Suc k) n = format_hex k (n div 16) @ [digit_byte (n mod 16)]"

fun format_dec :: "nat \<Rightarrow> bytes" where
  "format_dec n = (if n < 10 then [digit_byte n] else format_dec (n div 10) @ [digit_byte (n mod 10)])"

declare format_dec.simps [simp del]

text \<open>\<open>str::lines\<close>: a line ends with a line feed, or a carriage return and a line feed; what follows the last one is a line unless it is empty.\<close>

definition strip_cr :: "bytes \<Rightarrow> bytes" where
  "strip_cr l = (if l \<noteq> [] \<and> last l = 13 then butlast l else l)"

fun lines_from :: "bytes \<Rightarrow> bytes \<Rightarrow> bytes list" where
  "lines_from l [] = (if l = [] then [] else [l])"
| "lines_from l (c # cs) = (if c = 10 then strip_cr l # lines_from [] cs else lines_from (l @ [c]) cs)"

abbreviation str_lines :: "bytes \<Rightarrow> bytes list" where
  "str_lines \<equiv> lines_from []"

text \<open>Slicing a string panics outside of it and inside a character.\<close>

definition is_char_boundary :: "bytes \<Rightarrow> usize \<Rightarrow> bool" where
  "is_char_boundary s i \<longleftrightarrow> i = 0 \<or> i = length s \<or> i < length s \<and> \<not> in_range 0x80 0xBF (s ! i)"

definition str_slice :: "bytes \<Rightarrow> usize \<Rightarrow> usize \<Rightarrow> bytes panics" where
  "str_slice s i j = do { rust_assert (is_char_boundary s i \<and> is_char_boundary s j); slice s i j }"

text \<open>
  The first chunk of \<open>String::from_utf8_lossy\<close>: whether it is a character, and its length. A
  sequence that breaks off is a chunk up to the byte that does not belong to it.
\<close>

definition byte_at :: "bytes \<Rightarrow> nat \<Rightarrow> u8" where
  "byte_at bs i = (if i < length bs then bs ! i else 0)"

definition utf8_chunk :: "bytes \<Rightarrow> bool \<times> nat" where
  "utf8_chunk bs =
    (let a = byte_at bs 0; b = byte_at bs 1; c = byte_at bs 2; d = byte_at bs 3;
         cont = in_range 0x80 0xBF
     in if unat a < 0x80 then (True, 1)
        else if in_range 0xC2 0xDF a then (if cont b then (True, 2) else (False, 1))
        else if in_range 0xE0 0xEF a
        then (if \<not> in_range (if unat a = 0xE0 then 0xA0 else 0x80) (if unat a = 0xED then 0x9F else 0xBF) b
              then (False, 1) else if \<not> cont c then (False, 2) else (True, 3))
        else if in_range 0xF0 0xF4 a
        then (if \<not> in_range (if unat a = 0xF0 then 0x90 else 0x80) (if unat a = 0xF4 then 0x8F else 0xBF) b
              then (False, 1) else if \<not> cont c then (False, 2) else if \<not> cont d then (False, 3) else (True, 4))
        else (False, 1))"

lemma utf8_chunk_pos: "0 < snd (utf8_chunk bs)"
  by (auto simp: utf8_chunk_def Let_def)

function from_utf8_lossy :: "bytes \<Rightarrow> bytes" where
  "from_utf8_lossy bs =
    (if bs = [] then []
     else let (valid, n) = utf8_chunk bs
          in (if valid then take n bs else [0xEF, 0xBF, 0xBD]) @ from_utf8_lossy (drop n bs))"
  by auto
termination
proof (relation "measure length")
  fix bs :: bytes and x valid n
  assume "bs \<noteq> []" "x = utf8_chunk bs" "(valid, n) = x"
  then show "(drop n bs, bs) \<in> measure length" using utf8_chunk_pos [of bs] by (cases "utf8_chunk bs") simp
qed simp

declare from_utf8_lossy.simps [simp del]

subsection \<open>Names\<close>

fun name_to_string :: "layer_name \<Rightarrow> bytes" where
  "name_to_string (n1, n2, n3, n4, n5) =
    format_hex 8 (unat n1) @ format_hex 8 (unat n2) @ format_hex 8 (unat n3) @
    format_hex 8 (unat n4) @ format_hex 8 (unat n5)"

declare name_to_string.simps [simp del]

text \<open>One of the five parts of a name.\<close>

definition name_part :: "bytes \<Rightarrow> usize \<Rightarrow> usize \<Rightarrow> u32 io_result" where
  "name_part s i j =
    do { part \<leftarrow> str_slice s i j;
         Some (case from_str_radix (2 ^ 32) 16 part of
                 None \<Rightarrow> Inl InvalidData | Some n \<Rightarrow> Inr (of_nat n)) }"

definition string_to_name :: "bytes \<Rightarrow> layer_name io_result" where
  "string_to_name s =
    (if length s \<noteq> 40 then Some (Inl Other)
     else try_bind (name_part s 0 8) (\<lambda>n1.
          try_bind (name_part s 8 16) (\<lambda>n2.
          try_bind (name_part s 16 24) (\<lambda>n3.
          try_bind (name_part s 24 32) (\<lambda>n4.
          try_bind (name_part s 32 40) (\<lambda>n5.
          Some (Inr (n1, n2, n3, n4, n5))))))))"

definition bytes_to_name :: "bytes \<Rightarrow> layer_name io_result" where
  "bytes_to_name bytes =
    (if length bytes \<noteq> 40 then Some (Inl Other) else string_to_name (from_utf8_lossy bytes))"

lemma try_bind_Inr_iff: "try_bind r f = Some (Inr y) \<longleftrightarrow> (\<exists>x. r = Some (Inr x) \<and> f x = Some (Inr y))"
proof (cases r)
  case (Some s)
  then show ?thesis by (cases s) (auto simp: try_bind_def)
qed (simp add: try_bind_def)

section \<open>Digits\<close>

lemma unat_digit_byte: "d < 16 \<Longrightarrow> unat (digit_byte d) = (if d < 10 then 48 + d else 87 + d)"
  unfolding digit_byte_def by (cases "d < 10") (simp_all add: unat_of_nat take_bit_nat_eq_self del: of_nat_add)

lemma to_digit_byte: "d < 16 \<Longrightarrow> to_digit 16 (digit_byte d) = Some d"
  by (simp add: to_digit_def unat_digit_byte)

lemma to_digit_byte10: "d < 10 \<Longrightarrow> to_digit 10 (digit_byte d) = Some d"
  by (simp add: to_digit_def unat_digit_byte)

text \<open>The bytes of printed numbers: neither a sign nor the end of a line, and all in one byte.\<close>

definition plain :: "u8 \<Rightarrow> bool" where
  "plain b \<longleftrightarrow> 48 \<le> unat b \<and> unat b < 0x80"

lemma plain_digit: "d < 16 \<Longrightarrow> plain (digit_byte d)"
  by (simp add: plain_def unat_digit_byte)

lemma plainD: "plain b \<Longrightarrow> b \<noteq> 10 \<and> b \<noteq> 13 \<and> b \<noteq> 43 \<and> b \<noteq> 45 \<and> \<not> in_range 0x80 0xBF b \<and> unat b < 0x80"
  by (auto simp: plain_def in_range_def)

lemma format_hex_plain: "b \<in> set (format_hex k n) \<Longrightarrow> plain b"
  by (induction k arbitrary: n) (auto simp: plain_digit)

lemma length_format_hex [simp]: "length (format_hex k n) = k"
  by (induction k arbitrary: n) auto

lemma format_dec_plain: "b \<in> set (format_dec n) \<Longrightarrow> plain b"
proof (induction n rule: format_dec.induct)
  case (1 n)
  then show ?case by (subst (asm) (2) format_dec.simps) (auto simp: plain_digit split: if_splits)
qed

lemma format_dec_Nil [simp]: "format_dec n \<noteq> []"
  by (subst format_dec.simps) simp

lemma radix_loop_append:
  "radix_loop bound radix r (xs @ ys) = Option.bind (radix_loop bound radix r xs) (\<lambda>r. radix_loop bound radix r ys)"
  by (induction xs arbitrary: r) (auto split: option.splits)

lemma radix_loop_hex: "n < 16 ^ k \<Longrightarrow> 16 ^ k \<le> bound \<Longrightarrow> radix_loop bound 16 0 (format_hex k n) = Some n"
proof (induction k arbitrary: n)
  case (Suc k)
  have "n div 16 < 16 ^ k" using Suc.prems by (simp add: less_mult_imp_div_less mult.commute)
  then have "radix_loop bound 16 0 (format_hex k (n div 16)) = Some (n div 16)"
    using Suc by simp
  moreover have "n div 16 * 16 + n mod 16 = n" by simp
  ultimately show ?case using Suc.prems by (simp add: radix_loop_append to_digit_byte)
qed simp

lemma radix_loop_dec: "n < bound \<Longrightarrow> radix_loop bound 10 0 (format_dec n) = Some n"
proof (induction n rule: format_dec.induct)
  case (1 n)
  have e: "n div 10 * 10 + n mod 10 = n" by simp
  show ?case
  proof (cases "n < 10")
    case True
    then show ?thesis using 1 by (subst format_dec.simps) (simp add: to_digit_byte10)
  next
    case False
    then have "radix_loop bound 10 0 (format_dec (n div 10)) = Some (n div 10)" using 1 by simp
    then show ?thesis using False 1(2) e by (subst format_dec.simps) (simp add: radix_loop_append to_digit_byte10)
  qed
qed

lemma from_str_radix_plain:
  assumes "src \<noteq> []" "\<And>b. b \<in> set src \<Longrightarrow> plain b"
  shows "from_str_radix bound radix src = radix_loop bound radix 0 src"
  using assms plainD by (auto simp: from_str_radix_def split: list.splits)

lemma from_str_radix_hex: "0 < k \<Longrightarrow> n < 16 ^ k \<Longrightarrow> 16 ^ k \<le> bound \<Longrightarrow> from_str_radix bound 16 (format_hex k n) = Some n"
  using from_str_radix_plain [of "format_hex k n"] format_hex_plain radix_loop_hex
  by (metis length_format_hex list.size(3) less_numeral_extra(3))

lemma from_str_radix_dec: "n < bound \<Longrightarrow> from_str_radix bound 10 (format_dec n) = Some n"
  using from_str_radix_plain [of "format_dec n"] format_dec_plain radix_loop_dec by simp

section \<open>Lines and text\<close>

lemma lines_from_plain: "\<forall>c\<in>set cs. plain c \<Longrightarrow> lines_from l (cs @ ds) = lines_from (l @ cs) ds"
  by (induction cs arbitrary: l) (auto dest: plainD)

lemma strip_cr_plain: "\<forall>c\<in>set l. plain c \<Longrightarrow> strip_cr l = l"
  by (auto simp: strip_cr_def dest: plainD last_in_set)

lemma str_lines_plain:
  assumes "\<forall>c\<in>set xs. plain c" "\<forall>c\<in>set ys. plain c"
  shows "str_lines (xs @ [10] @ ys @ [10]) = [xs, ys]"
  using assms by (simp add: lines_from_plain strip_cr_plain)

lemma from_utf8_lossy_ascii: "\<forall>b\<in>set bs. unat b < 0x80 \<Longrightarrow> from_utf8_lossy bs = bs"
proof (induction bs)
  case (Cons b bs)
  then have "utf8_chunk (b # bs) = (True, 1)" by (simp add: utf8_chunk_def byte_at_def)
  with Cons show ?case by (subst from_utf8_lossy.simps) simp
qed (simp add: from_utf8_lossy.simps)

lemma is_char_boundary_ascii: "\<forall>b\<in>set s. unat b < 0x80 \<Longrightarrow> i \<le> length s \<Longrightarrow> is_char_boundary s i"
  using nth_mem [of i s] by (fastforce simp: is_char_boundary_def in_range_def)

lemma str_slice_ascii:
  "\<forall>b\<in>set s. unat b < 0x80 \<Longrightarrow> i \<le> j \<Longrightarrow> j \<le> length s \<Longrightarrow> str_slice s i j = Some (take (j - i) (drop i s))"
  by (simp add: str_slice_def is_char_boundary_ascii slice_def)

section \<open>Names\<close>

lemma name_to_string_plain: "b \<in> set (name_to_string n) \<Longrightarrow> plain b"
  by (cases n) (auto simp: name_to_string.simps dest: format_hex_plain)

lemma name_to_string_ascii: "\<forall>b\<in>set (name_to_string n). unat b < 0x80"
  using name_to_string_plain plainD by blast

lemma length_name_to_string [simp]: "length (name_to_string n) = 40"
  by (cases n) (simp add: name_to_string.simps)

lemma name_to_string_nonempty [simp]: "name_to_string n \<noteq> []"
  by (metis length_name_to_string list.size(3) zero_neq_numeral)

lemma string_to_name_string [simp]: "string_to_name (name_to_string n) = Some (Inr n)"
proof -
  obtain n1 n2 n3 n4 n5 where n: "n = (n1, n2, n3, n4, n5)" by (metis prod_cases5)
  have p: "from_str_radix (2 ^ 32) 16 (format_hex 8 (unat x)) = Some (unat x)" for x :: u32
    using unsigned_less [of x] by (intro from_str_radix_hex) auto
  show ?thesis
    using name_to_string_ascii [of n] p
    by (simp add: string_to_name_def name_part_def str_slice_ascii try_bind_def n name_to_string.simps)
qed

lemma bytes_to_name_string [simp]: "bytes_to_name (name_to_string n) = Some (Inr n)"
  by (simp add: bytes_to_name_def from_utf8_lossy_ascii name_to_string_ascii)

lemma name_to_string_inj: "name_to_string m = name_to_string n \<longleftrightarrow> m = n"
  by (metis string_to_name_string option.inject sum.inject(2))

end
