(* ===== verification/Labels.thy ===== *)
theory Labels
  imports LayerNames "HOL-Library.AList"
begin

text \<open>
  The labels of \<open>src/storage/label.rs\<close> and their two stores, the one in memory of
  \<open>src/storage/memory.rs\<close> and the one in a directory of \<open>src/storage/directory.rs\<close>.

  The trait \<open>LabelStore\<close> is the record of its operations on a state: the map of the store in
  memory, and the files of the directory. Reading and setting a label hold the
  lock of the map or of the file while they work on the state; every operation is one step
  here, although creating a label file is visible before its contents are. An operation leaves
  the state as it is when it returns an error. The interface \<open>label_store\<close> states what both
  stores promise, over the map from names to labels that a state stands for.
\<close>

section \<open>Model\<close>

subsection \<open>Labels\<close>

record Label =
  lb_name :: bytes
  lb_layer :: "layer_name option"
  lb_version :: u64

definition Label_new_empty :: "bytes \<Rightarrow> Label" where
  "Label_new_empty name = \<lparr>lb_name = name, lb_layer = None, lb_version = 0\<rparr>"

definition Label_new :: "bytes \<Rightarrow> layer_name \<Rightarrow> Label" where
  "Label_new name l = \<lparr>lb_name = name, lb_layer = Some l, lb_version = 0\<rparr>"

definition Label_with_updated_layer :: "Label \<Rightarrow> layer_name option \<Rightarrow> Label" where
  "Label_with_updated_layer self l = \<lparr>lb_name = lb_name self, lb_layer = l, lb_version = lb_version self + 1\<rparr>"

record 's LabelStore =
  ls_create_label :: "'s \<Rightarrow> bytes \<Rightarrow> (Label \<times> 's) io_result"
  ls_get_label :: "'s \<Rightarrow> bytes \<Rightarrow> Label option io_result"
  ls_set_label_option :: "'s \<Rightarrow> Label \<Rightarrow> layer_name option \<Rightarrow> (Label option \<times> 's) io_result"
  ls_delete_label :: "'s \<Rightarrow> bytes \<Rightarrow> (bool \<times> 's) io_result"

definition LabelStore_set_label :: "'s LabelStore \<Rightarrow> 's \<Rightarrow> Label \<Rightarrow> layer_name \<Rightarrow> (Label option \<times> 's) io_result" where
  "LabelStore_set_label ops s label l = ls_set_label_option ops s label (Some l)"

definition LabelStore_clear_label :: "'s LabelStore \<Rightarrow> 's \<Rightarrow> Label \<Rightarrow> (Label option \<times> 's) io_result" where
  "LabelStore_clear_label ops s label = ls_set_label_option ops s label None"

subsection \<open>Labels in memory\<close>

type_synonym MemoryLabelStore = "(bytes \<times> Label) list"

definition MemoryLabelStore_labels :: "MemoryLabelStore \<Rightarrow> Label list io_result" where
  "MemoryLabelStore_labels labels = Some (Inr (map snd labels))"

definition MemoryLabelStore_create_label :: "MemoryLabelStore \<Rightarrow> bytes \<Rightarrow> (Label \<times> MemoryLabelStore) io_result" where
  "MemoryLabelStore_create_label labels name =
    (let label = Label_new_empty name
     in if map_of labels (lb_name label) \<noteq> None then Some (Inl InvalidInput)
        else Some (Inr (label, AList.update (lb_name label) label labels)))"

definition MemoryLabelStore_get_label :: "MemoryLabelStore \<Rightarrow> bytes \<Rightarrow> Label option io_result" where
  "MemoryLabelStore_get_label labels name = Some (Inr (map_of labels name))"

definition MemoryLabelStore_set_label_option ::
  "MemoryLabelStore \<Rightarrow> Label \<Rightarrow> layer_name option \<Rightarrow> (Label option \<times> MemoryLabelStore) io_result" where
  "MemoryLabelStore_set_label_option labels label l =
    (let new_label = Label_with_updated_layer label l
     in case map_of labels (lb_name new_label) of
          None \<Rightarrow> Some (Inl InvalidInput)
        | Some old_label \<Rightarrow>
            if lb_version old_label + 1 \<noteq> lb_version new_label then Some (Inr (None, labels))
            else Some (Inr (Some new_label, AList.update (lb_name new_label) new_label labels)))"

definition MemoryLabelStore_delete_label :: "MemoryLabelStore \<Rightarrow> bytes \<Rightarrow> (bool \<times> MemoryLabelStore) io_result" where
  "MemoryLabelStore_delete_label labels name =
    Some (Inr (map_of labels name \<noteq> None, AList.delete name labels))"

definition memory_label_store :: "MemoryLabelStore LabelStore" where
  "memory_label_store =
    \<lparr>ls_create_label = MemoryLabelStore_create_label, ls_get_label = MemoryLabelStore_get_label,
     ls_set_label_option = MemoryLabelStore_set_label_option, ls_delete_label = MemoryLabelStore_delete_label\<rparr>"

subsection \<open>Labels in a directory\<close>

text \<open>The files of a directory, by their path in it, in the order in which \<open>read_dir\<close> lists them.\<close>

type_synonym directory = "(bytes \<times> bytes) list"

abbreviation dot_label :: bytes where
  "dot_label \<equiv> [46, 108, 97, 98, 101, 108]"

text \<open>\<open>Path::file_stem\<close> of a path that ends in \<open>.label\<close>.\<close>

definition file_stem :: "bytes \<Rightarrow> bytes" where
  "file_stem p =
    (let n = takeWhile (\<lambda>b. b \<noteq> 47) (rev p)
     in case dropWhile (\<lambda>b. b \<noteq> 46) n of
          _ # x # xs \<Rightarrow> rev (x # xs)
        | _ \<Rightarrow> rev n)"

definition get_label_from_data :: "bytes \<Rightarrow> bytes \<Rightarrow> Label io_result" where
  "get_label_from_data name data =
    (let ls = str_lines (from_utf8_lossy data)
     in if length ls \<noteq> 2 then Some (Inl InvalidData)
        else let version_str = ls ! 0; layer_str = ls ! 1
             in case from_str_radix (2 ^ 64) 10 version_str of
                  None \<Rightarrow> Some (Inl InvalidData)
                | Some version \<Rightarrow>
                    if layer_str = []
                    then Some (Inr \<lparr>lb_name = name, lb_layer = None, lb_version = of_nat version\<rparr>)
                    else try_bind (string_to_name layer_str) (\<lambda>l.
                         Some (Inr \<lparr>lb_name = name, lb_layer = Some l, lb_version = of_nat version\<rparr>)))"

text \<open>Both readers of a label file: the second one keeps the file locked for its caller.\<close>

definition get_label_from_file :: "directory \<Rightarrow> bytes \<Rightarrow> Label io_result" where
  "get_label_from_file files path =
    (case map_of files path of None \<Rightarrow> Some (Inl NotFound)
     | Some data \<Rightarrow> get_label_from_data (file_stem path) data)"

text \<open>
  Listing the labels opens the files by their bare names, which are relative to the working
  directory \<open>cwd\<close> of the process and not to the directory of the store.
\<close>

definition DirectoryLabelStore_labels :: "directory \<Rightarrow> directory \<Rightarrow> Label list io_result" where
  "DirectoryLabelStore_labels cwd files =
    fold (\<lambda>name acc. try_bind acc (\<lambda>result.
        if drop (length name - 6) name = dot_label
        then try_bind (get_label_from_file cwd name) (\<lambda>label. Some (Inr (result @ [label])))
        else Some (Inr result)))
      (map fst files) (Some (Inr []))"

definition DirectoryLabelStore_create_label :: "directory \<Rightarrow> bytes \<Rightarrow> (Label \<times> directory) io_result" where
  "DirectoryLabelStore_create_label files label =
    (let p = label @ dot_label
     in if map_of files p \<noteq> None then Some (Inl InvalidInput)
        else Some (Inr (Label_new_empty label, AList.update p [48, 10, 10] files)))"

definition DirectoryLabelStore_get_label :: "directory \<Rightarrow> bytes \<Rightarrow> Label option io_result" where
  "DirectoryLabelStore_get_label files label =
    do { r \<leftarrow> get_label_from_file files (label @ dot_label);
         Some (case r of Inr label \<Rightarrow> Inr (Some label)
               | Inl e \<Rightarrow> if e = NotFound then Inr None else Inl e) }"

definition label_contents :: "Label \<Rightarrow> bytes" where
  "label_contents label =
    (case lb_layer label of
       None \<Rightarrow> format_dec (unat (lb_version label)) @ [10, 10]
     | Some l \<Rightarrow> format_dec (unat (lb_version label)) @ [10] @ name_to_string l @ [10])"

definition DirectoryLabelStore_set_label_option ::
  "directory \<Rightarrow> Label \<Rightarrow> layer_name option \<Rightarrow> (Label option \<times> directory) io_result" where
  "DirectoryLabelStore_set_label_option files label l =
    (let new_label = Label_with_updated_layer label l;
         p = lb_name label @ dot_label
     in try_bind (get_label_from_file files p) (\<lambda>retrieved_label.
          if retrieved_label = label
          then Some (Inr (Some new_label, AList.update p (label_contents new_label) files))
          else Some (Inr (None, files))))"

definition DirectoryLabelStore_delete_label :: "directory \<Rightarrow> bytes \<Rightarrow> (bool \<times> directory) io_result" where
  "DirectoryLabelStore_delete_label files name =
    (let p = name @ dot_label
     in Some (Inr (map_of files p \<noteq> None, AList.delete p files)))"

definition directory_label_store :: "directory LabelStore" where
  "directory_label_store =
    \<lparr>ls_create_label = DirectoryLabelStore_create_label, ls_get_label = DirectoryLabelStore_get_label,
     ls_set_label_option = DirectoryLabelStore_set_label_option, ls_delete_label = DirectoryLabelStore_delete_label\<rparr>"

section \<open>What a label store promises\<close>

lemma with_updated_layer_simps [simp]:
  "lb_name (Label_with_updated_layer l x) = lb_name l" "lb_layer (Label_with_updated_layer l x) = x"
  "lb_version (Label_with_updated_layer l x) = lb_version l + 1"
  by (simp_all add: Label_with_updated_layer_def)

lemma new_empty_simps [simp]:
  "lb_name (Label_new_empty n) = n" "lb_layer (Label_new_empty n) = None" "lb_version (Label_new_empty n) = 0"
  by (simp_all add: Label_new_empty_def)

text \<open>
  \<open>lookup s\<close> is the map from names to labels that the state \<open>s\<close> stands for. A label is
  accepted by \<open>set_label_option\<close> when it is the one in the store, and refused when its version
  is not the one in the store; between the two the stores differ.
\<close>

locale label_store =
  fixes ops :: "'s LabelStore" and inv :: "'s \<Rightarrow> bool" and lookup :: "'s \<Rightarrow> bytes \<Rightarrow> Label option"
    and name_ok :: "bytes \<Rightarrow> bool"
  assumes lookup_name: "inv s \<Longrightarrow> lookup s n = Some l \<Longrightarrow> lb_name l = n"
    and get_label: "inv s \<Longrightarrow> name_ok n \<Longrightarrow> ls_get_label ops s n = Some (Inr (lookup s n))"
    and create_new: "inv s \<Longrightarrow> name_ok n \<Longrightarrow> lookup s n = None \<Longrightarrow>
      \<exists>s'. ls_create_label ops s n = Some (Inr (Label_new_empty n, s')) \<and> inv s' \<and>
        lookup s' = (lookup s)(n \<mapsto> Label_new_empty n)"
    and create_existing: "inv s \<Longrightarrow> name_ok n \<Longrightarrow> lookup s n = Some l \<Longrightarrow> ls_create_label ops s n = Some (Inl InvalidInput)"
    and set_current: "inv s \<Longrightarrow> name_ok (lb_name l) \<Longrightarrow> lookup s (lb_name l) = Some l \<Longrightarrow>
      \<exists>s'. ls_set_label_option ops s l x = Some (Inr (Some (Label_with_updated_layer l x), s')) \<and> inv s' \<and>
        lookup s' = (lookup s)(lb_name l \<mapsto> Label_with_updated_layer l x)"
    and set_stale: "inv s \<Longrightarrow> name_ok (lb_name l) \<Longrightarrow> lookup s (lb_name l) = Some c \<Longrightarrow> lb_version c \<noteq> lb_version l \<Longrightarrow>
      ls_set_label_option ops s l x = Some (Inr (None, s))"
    and set_missing: "inv s \<Longrightarrow> name_ok (lb_name l) \<Longrightarrow> lookup s (lb_name l) = None \<Longrightarrow>
      \<exists>e. ls_set_label_option ops s l x = Some (Inl e)"
    and delete_label: "inv s \<Longrightarrow> name_ok n \<Longrightarrow>
      \<exists>s'. ls_delete_label ops s n = Some (Inr (lookup s n \<noteq> None, s')) \<and> inv s' \<and> lookup s' = (lookup s)(n := None)"
begin

text \<open>Of two updates that start from the same label at most one is carried out.\<close>

lemma set_label_once:
  assumes "inv s" "name_ok (lb_name l)" "lookup s (lb_name l) = Some l"
  shows "\<exists>s'. ls_set_label_option ops s l x = Some (Inr (Some (Label_with_updated_layer l x), s')) \<and>
    ls_get_label ops s' (lb_name l) = Some (Inr (Some (Label_with_updated_layer l x))) \<and>
    ls_set_label_option ops s' l y = Some (Inr (None, s'))"
proof -
  from set_current [OF assms] obtain s' where
    s': "ls_set_label_option ops s l x = Some (Inr (Some (Label_with_updated_layer l x), s'))" "inv s'"
      "lookup s' = (lookup s)(lb_name l \<mapsto> Label_with_updated_layer l x)" by blast
  then show ?thesis using get_label [OF s'(2) assms(2)] set_stale [OF s'(2) assms(2)] by auto
qed

text \<open>A label that was deleted and created again is empty and has version 0.\<close>

lemma recreated_label:
  assumes "inv s" "name_ok n"
  shows "\<exists>b s1 s2. ls_delete_label ops s n = Some (Inr (b, s1)) \<and>
    ls_create_label ops s1 n = Some (Inr (Label_new_empty n, s2)) \<and> ls_get_label ops s2 n = Some (Inr (Some (Label_new_empty n)))"
proof -
  from delete_label [OF assms] obtain s1 where s1: "ls_delete_label ops s n = Some (Inr (lookup s n \<noteq> None, s1))" "inv s1"
    "lookup s1 = (lookup s)(n := None)" by blast
  then show ?thesis using create_new [OF s1(2) assms(2)] get_label assms(2) by fastforce
qed

end

section \<open>The store in memory\<close>

definition memory_labels_ok :: "MemoryLabelStore \<Rightarrow> bool" where
  "memory_labels_ok labels \<longleftrightarrow> (\<forall>n l. map_of labels n = Some l \<longrightarrow> lb_name l = n) \<and> distinct (map fst labels)"

lemma memory_labels_ok_update: "memory_labels_ok s \<Longrightarrow> memory_labels_ok (AList.update (lb_name l) l s)"
  by (simp add: memory_labels_ok_def update_conv' distinct_update)

lemma memory_labels_ok_delete: "memory_labels_ok s \<Longrightarrow> memory_labels_ok (AList.delete n s)"
  by (simp add: memory_labels_ok_def delete_conv' distinct_delete)

lemmas memory_label_defs = memory_label_store_def MemoryLabelStore_create_label_def MemoryLabelStore_get_label_def
  MemoryLabelStore_set_label_option_def MemoryLabelStore_delete_label_def

interpretation memory_labels: label_store memory_label_store memory_labels_ok map_of "\<lambda>_. True"
proof unfold_locales
  fix s n l x
  assume s: "memory_labels_ok s"
  show "lb_name l = n" if "map_of s n = Some l"
    using s that by (simp add: memory_labels_ok_def)
  show "\<exists>s'. ls_create_label memory_label_store s n = Some (Inr (Label_new_empty n, s')) \<and> memory_labels_ok s' \<and>
        map_of s' = (map_of s)(n \<mapsto> Label_new_empty n)" if "map_of s n = None"
    using that memory_labels_ok_update [OF s, of "Label_new_empty n"] by (simp add: memory_label_defs update_conv' Let_def)
  show "\<exists>s'. ls_set_label_option memory_label_store s l x = Some (Inr (Some (Label_with_updated_layer l x), s')) \<and>
      memory_labels_ok s' \<and> map_of s' = (map_of s)(lb_name l \<mapsto> Label_with_updated_layer l x)"
    if "map_of s (lb_name l) = Some l"
    using that memory_labels_ok_update [OF s, of "Label_with_updated_layer l x"]
    by (simp add: memory_label_defs update_conv' Let_def)
  show "\<exists>s'. ls_delete_label memory_label_store s n = Some (Inr (map_of s n \<noteq> None, s')) \<and> memory_labels_ok s' \<and>
      map_of s' = (map_of s)(n := None)"
    using memory_labels_ok_delete [OF s] by (simp add: memory_label_defs delete_conv')
qed (simp_all add: memory_label_defs)

section \<open>The store in a directory\<close>

text \<open>The names of labels that are the stem of their file.\<close>

definition label_name_ok :: "bytes \<Rightarrow> bool" where
  "label_name_ok n \<longleftrightarrow> n \<noteq> [] \<and> 47 \<notin> set n"

lemma file_stem_label: "label_name_ok n \<Longrightarrow> file_stem (n @ dot_label) = n"
proof -
  assume n: "label_name_ok n"
  obtain xs x where [simp]: "n = xs @ [x]" using n by (metis label_name_ok_def rev_exhaust)
  have "x \<noteq> 47" "takeWhile (\<lambda>b. b \<noteq> 47) (rev xs) = rev xs"
    using n by (auto simp: label_name_ok_def takeWhile_eq_all_conv)
  then show ?thesis by (simp add: file_stem_def del: takeWhile_eq_all_conv)
qed

text \<open>A written label is read back.\<close>

lemma get_label_contents:
  assumes "lb_name l = n"
  shows "get_label_from_data n (label_contents l) = Some (Inr l)"
proof -
  have v: "\<forall>c\<in>set (format_dec (unat (lb_version l))). plain c" by (simp add: format_dec_plain)
  have ver: "from_str_radix (2 ^ 64) 10 (format_dec (unat (lb_version l))) = Some (unat (lb_version l))"
    using unsigned_less [of "lb_version l"] by (intro from_str_radix_dec) simp
  define second where "second = (case lb_layer l of None \<Rightarrow> [] | Some x \<Rightarrow> name_to_string x)"
  have s: "\<forall>c\<in>set second. plain c" by (auto simp: second_def name_to_string_plain split: option.splits)
  have c: "label_contents l = format_dec (unat (lb_version l)) @ [10] @ second @ [10]"
    by (simp add: label_contents_def second_def split: option.splits)
  have "\<forall>b\<in>set (label_contents l). unat b < 0x80" using v s plainD by (auto simp: c)
  then have "str_lines (from_utf8_lossy (label_contents l)) = [format_dec (unat (lb_version l)), second]"
    using str_lines_plain [OF v s] by (simp add: from_utf8_lossy_ascii c)
  moreover have "second = [] \<longleftrightarrow> lb_layer l = None"
    by (auto simp: second_def split: option.splits)
  ultimately show ?thesis
    using assms ver by (auto simp: get_label_from_data_def second_def try_bind_def split: option.splits)
qed

lemma get_label_created: "get_label_from_data n [48, 10, 10] = Some (Inr (Label_new_empty n))"
proof -
  have "label_contents (Label_new_empty n) = [48, 10, 10]"
    by (simp add: label_contents_def format_dec.simps digit_byte_def)
  with get_label_contents [of "Label_new_empty n" n] show ?thesis by simp
qed

definition directory_lookup :: "directory \<Rightarrow> bytes \<Rightarrow> Label option" where
  "directory_lookup files n =
    (if label_name_ok n then (case get_label_from_file files (n @ dot_label) of Some (Inr l) \<Rightarrow> Some l | _ \<Rightarrow> None) else None)"

text \<open>Every label file of the directory can be read.\<close>

definition directory_labels_ok :: "directory \<Rightarrow> bool" where
  "directory_labels_ok files \<longleftrightarrow> distinct (map fst files) \<and>
    (\<forall>n data. label_name_ok n \<longrightarrow> map_of files (n @ dot_label) = Some data \<longrightarrow> (\<exists>l. get_label_from_data n data = Some (Inr l)))"

lemma get_label_name: "get_label_from_data n data = Some (Inr l) \<Longrightarrow> lb_name l = n"
  by (cases "string_to_name (str_lines (from_utf8_lossy data) ! 1)")
    (auto simp: get_label_from_data_def try_bind_def Let_def split: if_splits option.splits sum.splits)

lemma directory_lookup_iff:
  assumes "directory_labels_ok files" "label_name_ok n"
  shows "directory_lookup files n = None \<longleftrightarrow> map_of files (n @ dot_label) = None"
    "directory_lookup files n = Some l \<longleftrightarrow> get_label_from_file files (n @ dot_label) = Some (Inr l)"
proof -
  show "directory_lookup files n = None \<longleftrightarrow> map_of files (n @ dot_label) = None"
    using assms by (auto simp: directory_lookup_def get_label_from_file_def directory_labels_ok_def file_stem_label
        split: option.splits sum.splits) fastforce+
  show "directory_lookup files n = Some l \<longleftrightarrow> get_label_from_file files (n @ dot_label) = Some (Inr l)"
    using assms by (auto simp: directory_lookup_def split: option.splits sum.splits)
qed

lemma directory_update:
  assumes "directory_labels_ok files" "label_name_ok n" "get_label_from_data n data = Some (Inr l)"
  shows "directory_labels_ok (AList.update (n @ dot_label) data files)"
    "directory_lookup (AList.update (n @ dot_label) data files) = (directory_lookup files)(n \<mapsto> l)"
proof -
  show "directory_labels_ok (AList.update (n @ dot_label) data files)"
    using assms by (auto simp: directory_labels_ok_def distinct_update update_conv')
  show "directory_lookup (AList.update (n @ dot_label) data files) = (directory_lookup files)(n \<mapsto> l)"
    using assms by (auto simp: directory_lookup_def get_label_from_file_def update_conv' file_stem_label fun_eq_iff)
qed

lemma directory_delete:
  assumes "directory_labels_ok files" "label_name_ok n"
  shows "directory_labels_ok (AList.delete (n @ dot_label) files)"
    "directory_lookup (AList.delete (n @ dot_label) files) = (directory_lookup files)(n := None)"
  using assms by (auto simp: directory_labels_ok_def distinct_delete delete_conv' directory_lookup_def
      get_label_from_file_def fun_eq_iff)

lemmas directory_label_defs = directory_label_store_def DirectoryLabelStore_create_label_def DirectoryLabelStore_get_label_def
  DirectoryLabelStore_set_label_option_def DirectoryLabelStore_delete_label_def

interpretation directory_labels: label_store directory_label_store directory_labels_ok directory_lookup label_name_ok
proof unfold_locales
  fix s n l x c
  assume s: "directory_labels_ok s"
  show "lb_name l = n" if "directory_lookup s n = Some l"
    using that by (auto simp: directory_lookup_def get_label_from_file_def file_stem_label dest: get_label_name
        split: if_splits option.splits sum.splits)
  show "ls_get_label directory_label_store s n = Some (Inr (directory_lookup s n))" if n: "label_name_ok n"
  proof (cases "directory_lookup s n")
    case None
    then show ?thesis using directory_lookup_iff [OF s n] by (simp add: directory_label_defs get_label_from_file_def)
  next
    case (Some l)
    then show ?thesis using directory_lookup_iff(2) [OF s n, of l] by (simp add: directory_label_defs)
  qed
  show "\<exists>s'. ls_create_label directory_label_store s n = Some (Inr (Label_new_empty n, s')) \<and> directory_labels_ok s' \<and>
        directory_lookup s' = (directory_lookup s)(n \<mapsto> Label_new_empty n)" if "label_name_ok n" "directory_lookup s n = None"
    using that directory_lookup_iff [OF s] directory_update [OF s _ get_label_created] by (simp add: directory_label_defs)
  show "ls_create_label directory_label_store s n = Some (Inl InvalidInput)" if "label_name_ok n" "directory_lookup s n = Some l"
    using that directory_lookup_iff(1) [OF s that(1)] by (auto simp: directory_label_defs)
  show "\<exists>s'. ls_set_label_option directory_label_store s l x = Some (Inr (Some (Label_with_updated_layer l x), s')) \<and>
      directory_labels_ok s' \<and> directory_lookup s' = (directory_lookup s)(lb_name l \<mapsto> Label_with_updated_layer l x)"
    if "label_name_ok (lb_name l)" "directory_lookup s (lb_name l) = Some l"
    using that directory_lookup_iff(2) [OF s that(1)] directory_update [OF s that(1) get_label_contents [of "Label_with_updated_layer l x"]]
    by (simp add: directory_label_defs try_bind_def Let_def)
  show "ls_set_label_option directory_label_store s l x = Some (Inr (None, s))"
    if "label_name_ok (lb_name l)" "directory_lookup s (lb_name l) = Some c" "lb_version c \<noteq> lb_version l"
    using that directory_lookup_iff(2) [OF s that(1)] by (auto simp: directory_label_defs try_bind_def Let_def)
  show "\<exists>e. ls_set_label_option directory_label_store s l x = Some (Inl e)"
    if "label_name_ok (lb_name l)" "directory_lookup s (lb_name l) = None"
    using that directory_lookup_iff(1) [OF s that(1)] by (simp add: directory_label_defs try_bind_def get_label_from_file_def)
  show "\<exists>s'. ls_delete_label directory_label_store s n = Some (Inr (directory_lookup s n \<noteq> None, s')) \<and> directory_labels_ok s' \<and>
      directory_lookup s' = (directory_lookup s)(n := None)" if "label_name_ok n"
    using directory_delete [OF s that] directory_lookup_iff(1) [OF s that] by (simp add: directory_label_defs Let_def)
qed

end
