(* ===== verification/LayerStorage.thy ===== *)
theory LayerStorage
  imports LayerNames SimpleBuilder
begin

text \<open>
  The layer store of \<open>src/storage/layer.rs\<close> over the directories in memory of
  \<open>src/storage/memory.rs\<close>: the names of the files of \<open>src/storage/consts.rs\<close>, the mapping of
  the files of a layer of \<open>src/storage/file.rs\<close>, the parent and rollup files, loading a layer
  with its ancestors and rollups through a cache, and the walks along the parents.

  A store maps the name of a directory to its files. \<open>get_file\<close> makes an entry without
  contents, which no other operation tells from a file that is not there: the state holds only
  the files with contents. A random name is an argument of the operations that draw one.
\<close>

section \<open>Model\<close>

subsection \<open>File names\<close>

datatype dict_kind = NodeDictionary | PredicateDictionary | ValueDictionary
datatype idmap_kind = NodeValueIdmap | PredicateIdmap
datatype polarity = BaseTriples | PosTriples | NegTriples
datatype al_kind = S_P | SP_O | O_PS
datatype bitindex_part = Bits | IndexBlocks | IndexSblocks

datatype filename =
  DictionaryBlocks dict_kind
| DictionaryOffsets dict_kind
| IdmapFile idmap_kind bitindex_part
| SubjectsFile polarity
| ObjectsFile polarity
| AdjacencyListNums polarity al_kind
| AdjacencyListIndex polarity al_kind bitindex_part
| WaveletTreeFile polarity bitindex_part
| ParentFile
| RollupFile

fun dict_prefix :: "dict_kind \<Rightarrow> string" where
  "dict_prefix NodeDictionary = ''node''"
| "dict_prefix PredicateDictionary = ''predicate''"
| "dict_prefix ValueDictionary = ''value''"

fun polarity_prefix :: "polarity \<Rightarrow> string" where
  "polarity_prefix BaseTriples = ''base''"
| "polarity_prefix PosTriples = ''pos''"
| "polarity_prefix NegTriples = ''neg''"

fun list_prefix :: "polarity \<Rightarrow> string" where
  "list_prefix BaseTriples = ''base''"
| "list_prefix PosTriples = ''child_pos''"
| "list_prefix NegTriples = ''child_neg''"

fun al_infix :: "al_kind \<Rightarrow> string" where
  "al_infix S_P = ''s_p''"
| "al_infix SP_O = ''sp_o''"
| "al_infix O_PS = ''o_ps''"

fun bitindex_suffix :: "string \<Rightarrow> bitindex_part \<Rightarrow> string" where
  "bitindex_suffix ext Bits = ''bits.bitarray''"
| "bitindex_suffix ext IndexBlocks = ''bit_index_blocks.'' @ ext"
| "bitindex_suffix ext IndexSblocks = ''bit_index_sblocks.'' @ ext"

fun FILENAMES :: "filename \<Rightarrow> string" where
  "FILENAMES (DictionaryBlocks d) = dict_prefix d @ ''_dictionary_blocks.pfc''"
| "FILENAMES (DictionaryOffsets d) = dict_prefix d @ ''_dictionary_offsets.logarray''"
| "FILENAMES (IdmapFile NodeValueIdmap i) = ''node_value_idmap_'' @ bitindex_suffix ''bitarray'' i"
| "FILENAMES (IdmapFile PredicateIdmap i) = ''predicate_idmap_'' @ bitindex_suffix ''bitarray'' i"
| "FILENAMES (SubjectsFile p) = list_prefix p @ ''_subjects.logarray''"
| "FILENAMES (ObjectsFile p) = list_prefix p @ ''_objects.logarray''"
| "FILENAMES (AdjacencyListNums p a) = polarity_prefix p @ ''_'' @ al_infix a @ ''_adjacency_list_nums.logarray''"
| "FILENAMES (AdjacencyListIndex p a i) =
    polarity_prefix p @ ''_'' @ al_infix a @ ''_adjacency_list_'' @ bitindex_suffix ''logarray'' i"
| "FILENAMES (WaveletTreeFile p i) = polarity_prefix p @ ''_predicate_wavelet_tree_'' @ bitindex_suffix ''logarray'' i"
| "FILENAMES ParentFile = ''parent.hex''"
| "FILENAMES RollupFile = ''rollup.hex''"

declare FILENAMES.simps [simp del]

subsection \<open>Directories\<close>

type_synonym files = "string \<rightharpoonup> bytes"
type_synonym MemoryLayerStore = "layer_name \<rightharpoonup> files"

definition MemoryLayerStore_create_named_directory :: "MemoryLayerStore \<Rightarrow> layer_name \<Rightarrow> MemoryLayerStore" where
  "MemoryLayerStore_create_named_directory st name = st(name \<mapsto> Map.empty)"

definition MemoryLayerStore_directory_exists :: "MemoryLayerStore \<Rightarrow> layer_name \<Rightarrow> bool" where
  "MemoryLayerStore_directory_exists st name \<longleftrightarrow> st name \<noteq> None"

definition MemoryLayerStore_file_exists :: "MemoryLayerStore \<Rightarrow> layer_name \<Rightarrow> filename \<Rightarrow> bool" where
  "MemoryLayerStore_file_exists st name f \<longleftrightarrow>
    (case st name of None \<Rightarrow> False | Some fs \<Rightarrow> fs (FILENAMES f) \<noteq> None)"

text \<open>\<open>get_file\<close> and then \<open>map\<close>, \<open>open_read\<close> with a read of the whole file, or a write with \<open>sync_all\<close>.\<close>

definition file_map :: "MemoryLayerStore \<Rightarrow> layer_name \<Rightarrow> filename \<Rightarrow> bytes io_result" where
  "file_map st name f =
    Some (case st name of None \<Rightarrow> Inl NotFound
          | Some fs \<Rightarrow> (case fs (FILENAMES f) of None \<Rightarrow> Inl NotFound | Some b \<Rightarrow> Inr b))"

definition file_read :: "MemoryLayerStore \<Rightarrow> layer_name \<Rightarrow> filename \<Rightarrow> bytes io_result" where
  "file_read st name f =
    (case st name of None \<Rightarrow> Some (Inl NotFound)
     | Some fs \<Rightarrow> (case fs (FILENAMES f) of None \<Rightarrow> None | Some b \<Rightarrow> Some (Inr b)))"

definition file_write :: "MemoryLayerStore \<Rightarrow> layer_name \<Rightarrow> filename \<Rightarrow> bytes \<Rightarrow> MemoryLayerStore io_result" where
  "file_write st name f b =
    Some (case st name of None \<Rightarrow> Inl NotFound | Some fs \<Rightarrow> Inr (st(name \<mapsto> fs(FILENAMES f \<mapsto> b))))"

definition file_map_if_exists :: "MemoryLayerStore \<Rightarrow> layer_name \<Rightarrow> filename \<Rightarrow> bytes option io_result" where
  "file_map_if_exists st name f =
    (if MemoryLayerStore_file_exists st name f
     then try_bind (file_map st name f) (\<lambda>b. Some (Inr (Some b))) else Some (Inr None))"

subsection \<open>The files of a layer\<close>

definition DictionaryFiles_map_all :: "MemoryLayerStore \<Rightarrow> layer_name \<Rightarrow> dict_kind \<Rightarrow> dict_files io_result" where
  "DictionaryFiles_map_all st name d =
    try_bind (file_map st name (DictionaryBlocks d)) (\<lambda>blocks_map.
    try_bind (file_map st name (DictionaryOffsets d)) (\<lambda>offsets_map.
    Some (Inr (blocks_map, offsets_map))))"

definition BitIndexFiles_map_all :: "MemoryLayerStore \<Rightarrow> layer_name \<Rightarrow> (bitindex_part \<Rightarrow> filename) \<Rightarrow> bitindex_maps io_result" where
  "BitIndexFiles_map_all st name file =
    try_bind (file_map st name (file Bits)) (\<lambda>bits_map.
    try_bind (file_map st name (file IndexBlocks)) (\<lambda>blocks_map.
    try_bind (file_map st name (file IndexSblocks)) (\<lambda>sblocks_map.
    Some (Inr (bits_map, blocks_map, sblocks_map)))))"

definition BitIndexFiles_map_all_if_exists ::
  "MemoryLayerStore \<Rightarrow> layer_name \<Rightarrow> (bitindex_part \<Rightarrow> filename) \<Rightarrow> bitindex_maps option io_result" where
  "BitIndexFiles_map_all_if_exists st name file =
    (if MemoryLayerStore_file_exists st name (file Bits)
     then try_bind (BitIndexFiles_map_all st name file) (\<lambda>maps. Some (Inr (Some maps))) else Some (Inr None))"

definition AdjacencyListFiles_map_all :: "MemoryLayerStore \<Rightarrow> layer_name \<Rightarrow> polarity \<Rightarrow> al_kind \<Rightarrow> al_files io_result" where
  "AdjacencyListFiles_map_all st name p a =
    try_bind (BitIndexFiles_map_all st name (AdjacencyListIndex p a)) (\<lambda>(bits_map, blocks_map, sblocks_map).
    try_bind (file_map st name (AdjacencyListNums p a)) (\<lambda>nums_map.
    Some (Inr (nums_map, bits_map, blocks_map, sblocks_map))))"

definition IdMapFiles_map_all ::
  "MemoryLayerStore \<Rightarrow> layer_name \<Rightarrow> (bitindex_maps option \<times> bitindex_maps option) io_result" where
  "IdMapFiles_map_all st name =
    try_bind (BitIndexFiles_map_all_if_exists st name (IdmapFile NodeValueIdmap)) (\<lambda>node_value_idmap_maps.
    try_bind (BitIndexFiles_map_all_if_exists st name (IdmapFile PredicateIdmap)) (\<lambda>predicate_idmap_maps.
    Some (Inr (node_value_idmap_maps, predicate_idmap_maps))))"

definition BaseLayerFiles_map_all :: "MemoryLayerStore \<Rightarrow> layer_name \<Rightarrow> BaseLayerMaps io_result" where
  "BaseLayerFiles_map_all st name =
    try_bind (DictionaryFiles_map_all st name NodeDictionary) (\<lambda>node_dictionary_maps.
    try_bind (DictionaryFiles_map_all st name PredicateDictionary) (\<lambda>predicate_dictionary_maps.
    try_bind (DictionaryFiles_map_all st name ValueDictionary) (\<lambda>value_dictionary_maps.
    try_bind (IdMapFiles_map_all st name) (\<lambda>(node_value_idmap_maps, predicate_idmap_maps).
    try_bind (file_map_if_exists st name (SubjectsFile BaseTriples)) (\<lambda>subjects_map.
    try_bind (file_map_if_exists st name (ObjectsFile BaseTriples)) (\<lambda>objects_map.
    try_bind (AdjacencyListFiles_map_all st name BaseTriples S_P) (\<lambda>s_p_adjacency_list_maps.
    try_bind (AdjacencyListFiles_map_all st name BaseTriples SP_O) (\<lambda>sp_o_adjacency_list_maps.
    try_bind (AdjacencyListFiles_map_all st name BaseTriples O_PS) (\<lambda>o_ps_adjacency_list_maps.
    try_bind (BitIndexFiles_map_all st name (WaveletTreeFile BaseTriples)) (\<lambda>predicate_wavelet_tree_maps.
    Some (Inr \<lparr>bm_node_dictionary_maps = node_dictionary_maps,
      bm_predicate_dictionary_maps = predicate_dictionary_maps,
      bm_value_dictionary_maps = value_dictionary_maps,
      bm_node_value_idmap_maps = node_value_idmap_maps, bm_predicate_idmap_maps = predicate_idmap_maps,
      bm_subjects_map = subjects_map, bm_objects_map = objects_map,
      bm_s_p_adjacency_list_maps = s_p_adjacency_list_maps,
      bm_sp_o_adjacency_list_maps = sp_o_adjacency_list_maps,
      bm_o_ps_adjacency_list_maps = o_ps_adjacency_list_maps,
      bm_predicate_wavelet_tree_maps = predicate_wavelet_tree_maps\<rparr>)))))))))))"

definition ChildLayerFiles_map_all :: "MemoryLayerStore \<Rightarrow> layer_name \<Rightarrow> ChildLayerMaps io_result" where
  "ChildLayerFiles_map_all st name =
    try_bind (DictionaryFiles_map_all st name NodeDictionary) (\<lambda>node_dictionary_maps.
    try_bind (DictionaryFiles_map_all st name PredicateDictionary) (\<lambda>predicate_dictionary_maps.
    try_bind (DictionaryFiles_map_all st name ValueDictionary) (\<lambda>value_dictionary_maps.
    try_bind (IdMapFiles_map_all st name) (\<lambda>(node_value_idmap_maps, predicate_idmap_maps).
    try_bind (file_map st name (SubjectsFile PosTriples)) (\<lambda>pos_subjects_map.
    try_bind (file_map st name (SubjectsFile NegTriples)) (\<lambda>neg_subjects_map.
    try_bind (file_map st name (ObjectsFile PosTriples)) (\<lambda>pos_objects_map.
    try_bind (file_map st name (ObjectsFile NegTriples)) (\<lambda>neg_objects_map.
    try_bind (AdjacencyListFiles_map_all st name PosTriples S_P) (\<lambda>pos_s_p_adjacency_list_maps.
    try_bind (AdjacencyListFiles_map_all st name PosTriples SP_O) (\<lambda>pos_sp_o_adjacency_list_maps.
    try_bind (AdjacencyListFiles_map_all st name PosTriples O_PS) (\<lambda>pos_o_ps_adjacency_list_maps.
    try_bind (AdjacencyListFiles_map_all st name NegTriples S_P) (\<lambda>neg_s_p_adjacency_list_maps.
    try_bind (AdjacencyListFiles_map_all st name NegTriples SP_O) (\<lambda>neg_sp_o_adjacency_list_maps.
    try_bind (AdjacencyListFiles_map_all st name NegTriples O_PS) (\<lambda>neg_o_ps_adjacency_list_maps.
    try_bind (BitIndexFiles_map_all st name (WaveletTreeFile PosTriples)) (\<lambda>pos_predicate_wavelet_tree_maps.
    try_bind (BitIndexFiles_map_all st name (WaveletTreeFile NegTriples)) (\<lambda>neg_predicate_wavelet_tree_maps.
    Some (Inr \<lparr>cm_node_dictionary_maps = node_dictionary_maps,
      cm_predicate_dictionary_maps = predicate_dictionary_maps,
      cm_value_dictionary_maps = value_dictionary_maps,
      cm_node_value_idmap_maps = node_value_idmap_maps, cm_predicate_idmap_maps = predicate_idmap_maps,
      cm_pos_subjects_map = pos_subjects_map, cm_pos_objects_map = pos_objects_map,
      cm_neg_subjects_map = neg_subjects_map, cm_neg_objects_map = neg_objects_map,
      cm_pos_s_p_adjacency_list_maps = pos_s_p_adjacency_list_maps,
      cm_pos_sp_o_adjacency_list_maps = pos_sp_o_adjacency_list_maps,
      cm_pos_o_ps_adjacency_list_maps = pos_o_ps_adjacency_list_maps,
      cm_neg_s_p_adjacency_list_maps = neg_s_p_adjacency_list_maps,
      cm_neg_sp_o_adjacency_list_maps = neg_sp_o_adjacency_list_maps,
      cm_neg_o_ps_adjacency_list_maps = neg_o_ps_adjacency_list_maps,
      cm_pos_predicate_wavelet_tree_maps = pos_predicate_wavelet_tree_maps,
      cm_neg_predicate_wavelet_tree_maps = neg_predicate_wavelet_tree_maps\<rparr>)))))))))))))))))"

definition BaseLayer_load_from_files :: "env \<Rightarrow> MemoryLayerStore \<Rightarrow> layer_name \<Rightarrow> InternalLayer io_result" where
  "BaseLayer_load_from_files e st name =
    try_bind (BaseLayerFiles_map_all st name) (\<lambda>maps. map_option Inr (BaseLayer_load e name maps))"

definition ChildLayer_load_from_files ::
  "env \<Rightarrow> MemoryLayerStore \<Rightarrow> layer_name \<Rightarrow> InternalLayer \<Rightarrow> InternalLayer io_result" where
  "ChildLayer_load_from_files e st name parent =
    try_bind (ChildLayerFiles_map_all st name) (\<lambda>maps. map_option Inr (ChildLayer_load e name parent maps))"

text \<open>What the builders write: the contents of the files of a base or a child layer.\<close>

fun part_of :: "bitindex_maps \<Rightarrow> bitindex_part \<Rightarrow> bytes" where
  "part_of (bits, blocks, sblocks) Bits = bits"
| "part_of (bits, blocks, sblocks) IndexBlocks = blocks"
| "part_of (bits, blocks, sblocks) IndexSblocks = sblocks"

definition base_dictionary :: "BaseLayerMaps \<Rightarrow> dict_kind \<Rightarrow> dict_files" where
  "base_dictionary m d = (case d of NodeDictionary \<Rightarrow> bm_node_dictionary_maps m
     | PredicateDictionary \<Rightarrow> bm_predicate_dictionary_maps m | ValueDictionary \<Rightarrow> bm_value_dictionary_maps m)"

definition base_adjacency_list :: "BaseLayerMaps \<Rightarrow> al_kind \<Rightarrow> al_files" where
  "base_adjacency_list m a = (case a of S_P \<Rightarrow> bm_s_p_adjacency_list_maps m
     | SP_O \<Rightarrow> bm_sp_o_adjacency_list_maps m | O_PS \<Rightarrow> bm_o_ps_adjacency_list_maps m)"

fun base_contents :: "BaseLayerMaps \<Rightarrow> filename \<Rightarrow> bytes option" where
  "base_contents m (DictionaryBlocks d) = Some (fst (base_dictionary m d))"
| "base_contents m (DictionaryOffsets d) = Some (snd (base_dictionary m d))"
| "base_contents m (IdmapFile NodeValueIdmap i) = map_option (\<lambda>x. part_of x i) (bm_node_value_idmap_maps m)"
| "base_contents m (IdmapFile PredicateIdmap i) = map_option (\<lambda>x. part_of x i) (bm_predicate_idmap_maps m)"
| "base_contents m (SubjectsFile BaseTriples) = bm_subjects_map m"
| "base_contents m (ObjectsFile BaseTriples) = bm_objects_map m"
| "base_contents m (AdjacencyListNums BaseTriples a) = Some (fst (base_adjacency_list m a))"
| "base_contents m (AdjacencyListIndex BaseTriples a i) = Some (part_of (snd (base_adjacency_list m a)) i)"
| "base_contents m (WaveletTreeFile BaseTriples i) = Some (part_of (bm_predicate_wavelet_tree_maps m) i)"
| "base_contents m _ = None"

definition child_dictionary :: "ChildLayerMaps \<Rightarrow> dict_kind \<Rightarrow> dict_files" where
  "child_dictionary m d = (case d of NodeDictionary \<Rightarrow> cm_node_dictionary_maps m
     | PredicateDictionary \<Rightarrow> cm_predicate_dictionary_maps m | ValueDictionary \<Rightarrow> cm_value_dictionary_maps m)"

definition pos_adjacency_list :: "ChildLayerMaps \<Rightarrow> al_kind \<Rightarrow> al_files" where
  "pos_adjacency_list m a = (case a of S_P \<Rightarrow> cm_pos_s_p_adjacency_list_maps m
     | SP_O \<Rightarrow> cm_pos_sp_o_adjacency_list_maps m | O_PS \<Rightarrow> cm_pos_o_ps_adjacency_list_maps m)"

definition neg_adjacency_list :: "ChildLayerMaps \<Rightarrow> al_kind \<Rightarrow> al_files" where
  "neg_adjacency_list m a = (case a of S_P \<Rightarrow> cm_neg_s_p_adjacency_list_maps m
     | SP_O \<Rightarrow> cm_neg_sp_o_adjacency_list_maps m | O_PS \<Rightarrow> cm_neg_o_ps_adjacency_list_maps m)"

fun child_contents :: "ChildLayerMaps \<Rightarrow> filename \<Rightarrow> bytes option" where
  "child_contents m (DictionaryBlocks d) = Some (fst (child_dictionary m d))"
| "child_contents m (DictionaryOffsets d) = Some (snd (child_dictionary m d))"
| "child_contents m (IdmapFile NodeValueIdmap i) = map_option (\<lambda>x. part_of x i) (cm_node_value_idmap_maps m)"
| "child_contents m (IdmapFile PredicateIdmap i) = map_option (\<lambda>x. part_of x i) (cm_predicate_idmap_maps m)"
| "child_contents m (SubjectsFile PosTriples) = Some (cm_pos_subjects_map m)"
| "child_contents m (SubjectsFile NegTriples) = Some (cm_neg_subjects_map m)"
| "child_contents m (ObjectsFile PosTriples) = Some (cm_pos_objects_map m)"
| "child_contents m (ObjectsFile NegTriples) = Some (cm_neg_objects_map m)"
| "child_contents m (AdjacencyListNums PosTriples a) = Some (fst (pos_adjacency_list m a))"
| "child_contents m (AdjacencyListNums NegTriples a) = Some (fst (neg_adjacency_list m a))"
| "child_contents m (AdjacencyListIndex PosTriples a i) = Some (part_of (snd (pos_adjacency_list m a)) i)"
| "child_contents m (AdjacencyListIndex NegTriples a i) = Some (part_of (snd (neg_adjacency_list m a)) i)"
| "child_contents m (WaveletTreeFile PosTriples i) = Some (part_of (cm_pos_predicate_wavelet_tree_maps m) i)"
| "child_contents m (WaveletTreeFile NegTriples i) = Some (part_of (cm_neg_predicate_wavelet_tree_maps m) i)"
| "child_contents m _ = None"

fun layer_contents :: "LayerMaps \<Rightarrow> filename \<Rightarrow> bytes option" where
  "layer_contents (BaseMaps m) = base_contents m"
| "layer_contents (ChildMaps m) = child_contents m"

definition all_files :: "filename list" where
  "all_files =
    (let ds = [NodeDictionary, PredicateDictionary, ValueDictionary]; is = [Bits, IndexBlocks, IndexSblocks];
         ps = [BaseTriples, PosTriples, NegTriples]; as = [S_P, SP_O, O_PS]
     in map DictionaryBlocks ds @ map DictionaryOffsets ds @
        concat (map (\<lambda>k. map (IdmapFile k) is) [NodeValueIdmap, PredicateIdmap]) @
        map SubjectsFile ps @ map ObjectsFile ps @
        concat (map (\<lambda>p. concat (map (\<lambda>a. AdjacencyListNums p a # map (AdjacencyListIndex p a) is) as) @
          map (WaveletTreeFile p) is) ps) @ [ParentFile, RollupFile])"

definition write_files :: "(filename \<Rightarrow> bytes option) \<Rightarrow> files \<Rightarrow> files" where
  "write_files contents fs =
    fold (\<lambda>f fs. case contents f of None \<Rightarrow> fs | Some b \<Rightarrow> fs(FILENAMES f \<mapsto> b)) all_files fs"

subsection \<open>Parents and rollups\<close>

definition layer_has_rollup :: "MemoryLayerStore \<Rightarrow> layer_name \<Rightarrow> bool" where
  "layer_has_rollup st name = MemoryLayerStore_file_exists st name RollupFile"

definition layer_has_parent :: "MemoryLayerStore \<Rightarrow> layer_name \<Rightarrow> bool" where
  "layer_has_parent st name = MemoryLayerStore_file_exists st name ParentFile"

definition write_parent_file :: "MemoryLayerStore \<Rightarrow> layer_name \<Rightarrow> layer_name \<Rightarrow> MemoryLayerStore io_result" where
  "write_parent_file st dir_name parent_name = file_write st dir_name ParentFile (name_to_string parent_name)"

definition read_parent_file :: "MemoryLayerStore \<Rightarrow> layer_name \<Rightarrow> layer_name io_result" where
  "read_parent_file st dir_name =
    try_bind (file_read st dir_name ParentFile) (\<lambda>data.
      if length data < 40 then Some (Inl UnexpectedEof) else bytes_to_name (take 40 data))"

definition write_rollup_file :: "MemoryLayerStore \<Rightarrow> layer_name \<Rightarrow> layer_name \<Rightarrow> MemoryLayerStore io_result" where
  "write_rollup_file st dir_name rollup_name =
    file_write st dir_name RollupFile ([49, 10] @ name_to_string rollup_name @ [10])"

definition read_rollup_file :: "MemoryLayerStore \<Rightarrow> layer_name \<Rightarrow> layer_name io_result" where
  "read_rollup_file st dir_name =
    try_bind (file_read st dir_name RollupFile) (\<lambda>data.
      let ls = str_lines (from_utf8_lossy data)
      in if length ls \<noteq> 2 then Some (Inl InvalidData) else string_to_name (ls ! 1))"

subsection \<open>Loading a layer\<close>

text \<open>
  The cache is what \<open>get_layer_from_cache\<close> returns during the call: layers are put into it
  only after the last lookup. The layers to load are listed from the last one pushed to the
  first; an entry is the name of a layer and, for a rollup, the name of the rollup and of the
  parent of the layer. Parent files that form a cycle make the search run forever, which like a panic is
  \<open>None\<close>.
\<close>

type_synonym layer_cache = "layer_name \<rightharpoonup> InternalLayer"
type_synonym load_entry = "layer_name \<times> (layer_name \<times> layer_name option) option"

lemma try_bind_mono [partial_function_mono]:
  assumes "mono_option B" "\<And>y. mono_option (\<lambda>f. C y f)"
  shows "mono_option (\<lambda>f. try_bind (B f) (\<lambda>y. C y f))"
proof -
  have "mono_option (\<lambda>f. case x of Inl e \<Rightarrow> Some (Inl e) | Inr y \<Rightarrow> C y f)" for x
    using assms(2) by (cases x) (auto simp: monotone_def option.leq_refl)
  then show ?thesis unfolding try_bind_def by (intro bind_mono assms(1))
qed

definition current_of :: "load_entry \<Rightarrow> layer_name" where
  "current_of entry = (case snd entry of Some (rollup, _) \<Rightarrow> rollup | None \<Rightarrow> fst entry)"

definition optional_parent :: "MemoryLayerStore \<Rightarrow> layer_name \<Rightarrow> layer_name option io_result" where
  "optional_parent st name =
    (if layer_has_parent st name
     then try_bind (read_parent_file st name) (\<lambda>p. Some (Inr (Some p))) else Some (Inr None))"

definition wrap_cached :: "load_entry \<Rightarrow> InternalLayer \<Rightarrow> InternalLayer panics" where
  "wrap_cached entry l =
    (case entry of
       (original_layer, Some (_, original_parent)) \<Rightarrow>
         if InternalLayer_immediate_parent l \<noteq> None
         then do { p \<leftarrow> original_parent; Some (Rollup (RollupLayer_from_child_layer l original_layer p)) }
         else Some (Rollup (RollupLayer_from_base_layer l original_layer original_parent))
     | (_, None) \<Rightarrow> Some l)"

partial_function (option) find_ancestor ::
  "MemoryLayerStore \<Rightarrow> layer_cache \<Rightarrow> load_entry \<Rightarrow> load_entry list \<Rightarrow>
    (InternalLayer option \<times> load_entry list) io_result" where
  "find_ancestor st cache entry rest =
    (let current_layer = current_of entry
     in case cache current_layer of
          Some l \<Rightarrow> do { a \<leftarrow> wrap_cached entry l; Some (Inr (Some a, rest)) }
        | None \<Rightarrow>
            if layer_has_rollup st current_layer
            then try_bind (read_rollup_file st current_layer) (\<lambda>rollup.
              if rollup = current_layer then None
              else try_bind (optional_parent st current_layer) (\<lambda>original_parent.
                find_ancestor st cache (current_layer, Some (rollup, original_parent)) rest))
            else if layer_has_parent st current_layer
            then try_bind (read_parent_file st current_layer) (\<lambda>parent.
              find_ancestor st cache (parent, None) (entry # rest))
            else Some (Inr (None, entry # rest)))"

text \<open>Loading the base layer and the child layers above it; with the layers that are put into the cache, in order.\<close>

definition load_base :: "env \<Rightarrow> MemoryLayerStore \<Rightarrow> load_entry \<Rightarrow> (InternalLayer \<times> InternalLayer list) io_result" where
  "load_base e st entry =
    (case entry of
       (base_id, None) \<Rightarrow>
         try_bind (BaseLayer_load_from_files e st base_id) (\<lambda>l. Some (Inr (l, [l])))
     | (base_id, Some (rollup_id, original_parent_id)) \<Rightarrow>
         try_bind (BaseLayer_load_from_files e st rollup_id) (\<lambda>base_layer.
           let l = Rollup (RollupLayer_from_base_layer base_layer base_id original_parent_id)
           in Some (Inr (l, [base_layer, l]))))"

definition load_child :: "env \<Rightarrow> MemoryLayerStore \<Rightarrow> InternalLayer \<Rightarrow> load_entry \<Rightarrow> (InternalLayer \<times> InternalLayer list) io_result" where
  "load_child e st ancestor entry =
    (case entry of
       (layer_id, None) \<Rightarrow>
         try_bind (ChildLayer_load_from_files e st layer_id ancestor) (\<lambda>l. Some (Inr (l, [l])))
     | (layer_id, Some (rollup_id, original_parent_id)) \<Rightarrow>
         do { original_parent_id \<leftarrow> original_parent_id;
              try_bind (ChildLayer_load_from_files e st rollup_id ancestor) (\<lambda>child_layer.
                let l = Rollup (RollupLayer_from_child_layer child_layer layer_id original_parent_id)
                in Some (Inr (l, [child_layer, l]))) })"

fun load_children ::
  "env \<Rightarrow> MemoryLayerStore \<Rightarrow> InternalLayer \<Rightarrow> InternalLayer list \<Rightarrow> load_entry list \<Rightarrow>
    (InternalLayer \<times> InternalLayer list) io_result" where
  "load_children e st ancestor cached [] = Some (Inr (ancestor, cached))"
| "load_children e st ancestor cached (entry # entries) =
    try_bind (load_child e st ancestor entry) (\<lambda>(l, new). load_children e st l (cached @ new) entries)"

definition load_found ::
  "env \<Rightarrow> MemoryLayerStore \<Rightarrow> InternalLayer option \<Rightarrow> load_entry list \<Rightarrow> (InternalLayer \<times> InternalLayer list) io_result" where
  "load_found e st ancestor layers_to_load =
    (case ancestor of
       Some a \<Rightarrow> load_children e st a [] layers_to_load
     | None \<Rightarrow> (case layers_to_load of
           [] \<Rightarrow> None
         | entry # entries \<Rightarrow>
             try_bind (load_base e st entry) (\<lambda>(l, new). load_children e st l new entries)))"

definition get_layer_with_cache ::
  "env \<Rightarrow> MemoryLayerStore \<Rightarrow> layer_cache \<Rightarrow> layer_name \<Rightarrow> (InternalLayer option \<times> InternalLayer list) io_result" where
  "get_layer_with_cache e st cache name =
    (case cache name of
       Some l \<Rightarrow> Some (Inr (Some l, []))
     | None \<Rightarrow>
         if \<not> MemoryLayerStore_directory_exists st name then Some (Inr (None, []))
         else try_bind (find_ancestor st cache (name, None) []) (\<lambda>(ancestor, layers_to_load).
           try_bind (load_found e st ancestor layers_to_load) (\<lambda>(l, new). Some (Inr (Some l, new)))))"

definition get_layer :: "env \<Rightarrow> MemoryLayerStore \<Rightarrow> layer_name \<Rightarrow> InternalLayer option io_result" where
  "get_layer e st name =
    try_bind (get_layer_with_cache e st Map.empty name) (\<lambda>(l, _). Some (Inr l))"

text \<open>The cache of weak references; an entry lives as long as a layer keeps it.\<close>

definition LayerCache_cache_layer :: "layer_cache \<Rightarrow> InternalLayer \<Rightarrow> layer_cache" where
  "LayerCache_cache_layer cache l = cache(InternalLayer_name l \<mapsto> l)"

definition LayerCache_invalidate :: "layer_cache \<Rightarrow> layer_name \<Rightarrow> layer_cache" where
  "LayerCache_invalidate cache name = cache(name := None)"

definition CachedLayerStore_get_layer ::
  "env \<Rightarrow> MemoryLayerStore \<Rightarrow> layer_cache \<Rightarrow> layer_name \<Rightarrow> (InternalLayer option \<times> layer_cache) io_result" where
  "CachedLayerStore_get_layer e st cache name =
    try_bind (get_layer_with_cache e st cache name) (\<lambda>(l, new).
      Some (Inr (l, fold (\<lambda>l c. LayerCache_cache_layer c l) new cache)))"

subsection \<open>Creating layers\<close>

definition create_base_layer :: "MemoryLayerStore \<Rightarrow> layer_name \<Rightarrow> SimpleLayerBuilder \<times> MemoryLayerStore" where
  "create_base_layer st random_name =
    (SimpleLayerBuilder_new random_name, MemoryLayerStore_create_named_directory st random_name)"

definition create_child_layer_files_with_cache ::
  "env \<Rightarrow> MemoryLayerStore \<Rightarrow> layer_cache \<Rightarrow> layer_name \<Rightarrow> layer_name \<Rightarrow>
    (layer_name \<times> InternalLayer \<times> MemoryLayerStore \<times> InternalLayer list) io_result" where
  "create_child_layer_files_with_cache e st cache parent random_name =
    try_bind (get_layer_with_cache e st cache parent) (\<lambda>(parent_layer, new).
      case parent_layer of
        None \<Rightarrow> Some (Inl NotFound)
      | Some parent_layer \<Rightarrow>
          try_bind (write_parent_file (MemoryLayerStore_create_named_directory st random_name) random_name parent) (\<lambda>st.
          Some (Inr (random_name, parent_layer, st, new))))"

definition create_child_layer_with_cache ::
  "env \<Rightarrow> MemoryLayerStore \<Rightarrow> layer_cache \<Rightarrow> layer_name \<Rightarrow> layer_name \<Rightarrow>
    (SimpleLayerBuilder \<times> MemoryLayerStore \<times> InternalLayer list) io_result" where
  "create_child_layer_with_cache e st cache parent random_name =
    try_bind (create_child_layer_files_with_cache e st cache parent random_name) (\<lambda>(layer_dir, parent_layer, st, new).
      Some (Inr (SimpleLayerBuilder_from_parent layer_dir parent_layer, st, new)))"

text \<open>Committing a builder into the directory that was created for it.\<close>

definition commit_boxed ::
  "env \<Rightarrow> sorters \<Rightarrow> usize \<Rightarrow> MemoryLayerStore \<Rightarrow> SimpleLayerBuilder \<Rightarrow> MemoryLayerStore io_result" where
  "commit_boxed e so sz st builder =
    try_bind (SimpleLayerBuilder_commit e so sz builder) (\<lambda>maps.
      Some (case st (sb_name builder) of
              None \<Rightarrow> Inl NotFound
            | Some fs \<Rightarrow> Inr (st(sb_name builder \<mapsto> write_files (layer_contents maps) fs))))"

subsection \<open>Walking along the parents\<close>

definition get_layer_parent_name :: "MemoryLayerStore \<Rightarrow> layer_name \<Rightarrow> layer_name option io_result" where
  "get_layer_parent_name st name =
    (if MemoryLayerStore_directory_exists st name then optional_parent st name else Some (Inl NotFound))"

partial_function (option) layer_is_ancestor_of :: "MemoryLayerStore \<Rightarrow> layer_name \<Rightarrow> layer_name \<Rightarrow> bool io_result" where
  "layer_is_ancestor_of st descendant ancestor =
    (if ancestor = descendant then Some (Inr True)
     else if layer_has_parent st descendant
     then try_bind (read_parent_file st descendant) (\<lambda>parent. layer_is_ancestor_of st parent ancestor)
     else Some (Inr False))"

text \<open>The names of a stack, from the base layer upward; \<open>names\<close> are those found so far.\<close>

partial_function (option) stack_names :: "MemoryLayerStore \<Rightarrow> layer_name \<Rightarrow> layer_name list \<Rightarrow> layer_name list io_result" where
  "stack_names st name names =
    (if layer_has_parent st name
     then try_bind (read_parent_file st name) (\<lambda>parent. stack_names st parent (parent # names))
     else Some (Inr names))"

definition retrieve_layer_stack_names :: "MemoryLayerStore \<Rightarrow> layer_name \<Rightarrow> layer_name list io_result" where
  "retrieve_layer_stack_names st name = stack_names st name [name]"

partial_function (option) stack_names_upto ::
  "MemoryLayerStore \<Rightarrow> layer_name \<Rightarrow> layer_name \<Rightarrow> layer_name list \<Rightarrow> layer_name list io_result" where
  "stack_names_upto st upto_name name names =
    (if layer_has_parent st name
     then try_bind (read_parent_file st name) (\<lambda>parent.
       if parent = upto_name then Some (Inr names) else stack_names_upto st upto_name parent (parent # names))
     else Some (Inl NotFound))"

definition retrieve_layer_stack_names_upto :: "MemoryLayerStore \<Rightarrow> layer_name \<Rightarrow> layer_name \<Rightarrow> layer_name list io_result" where
  "retrieve_layer_stack_names_upto st name upto_name = stack_names_upto st upto_name name [name]"

end
