(* ===== verification/StoredLayers.thy ===== *)
theory StoredLayers
  imports LayerStorage CommittedLayers
begin

text \<open>
  Layers in a store: the files that the builders write are mapped back to what was written,
  and loading a layer by its name, through its parents and rollups and through a cache, gives
  the layer that the files of the store describe.
\<close>

section \<open>Files\<close>

lemma all_files_complete: "f \<in> set all_files"
proof -
  have d: "set [NodeDictionary, PredicateDictionary, ValueDictionary] = UNIV" using dict_kind.exhaust by auto
  have i: "set [Bits, IndexBlocks, IndexSblocks] = UNIV" using bitindex_part.exhaust by auto
  have k: "set [NodeValueIdmap, PredicateIdmap] = UNIV" using idmap_kind.exhaust by auto
  have p: "set [BaseTriples, PosTriples, NegTriples] = UNIV" using polarity.exhaust by auto
  have a: "set [S_P, SP_O, O_PS] = UNIV" using al_kind.exhaust by auto
  have "f \<in> set (map DictionaryBlocks ds @ map DictionaryOffsets ds @ concat (map (\<lambda>k. map (IdmapFile k) is) ks) @
        map SubjectsFile ps @ map ObjectsFile ps @
        concat (map (\<lambda>p. concat (map (\<lambda>a. AdjacencyListNums p a # map (AdjacencyListIndex p a) is) as) @
          map (WaveletTreeFile p) is) ps) @ [ParentFile, RollupFile])"
    if "set ds = UNIV" "set is = UNIV" "set ks = UNIV" "set ps = UNIV" "set as = UNIV" for ds "is" ks ps as
    using that by (cases f) (simp_all add: image_iff)
  from this [OF d i k p a] show ?thesis unfolding all_files_def Let_def .
qed

lemma filenames_distinct: "distinct (map FILENAMES all_files)"
  by code_simp

lemma FILENAMES_eq [simp]: "FILENAMES f = FILENAMES g \<longleftrightarrow> f = g"
  using filenames_distinct all_files_complete by (auto simp: distinct_map inj_on_def)

text \<open>The file \<open>f\<close> of the layer \<open>n\<close>.\<close>

definition file_of :: "MemoryLayerStore \<Rightarrow> layer_name \<Rightarrow> filename \<Rightarrow> bytes option" where
  "file_of st n f = Option.bind (st n) (\<lambda>fs. fs (FILENAMES f))"

lemma write_files_of: "write_files c fs (FILENAMES f) = (case c f of None \<Rightarrow> fs (FILENAMES f) | Some b \<Rightarrow> Some b)"
proof -
  have "fold (\<lambda>f fs. case c f of None \<Rightarrow> fs | Some b \<Rightarrow> fs(FILENAMES f \<mapsto> b)) xs fs (FILENAMES f) =
      (if f \<in> set xs then case c f of None \<Rightarrow> fs (FILENAMES f) | Some b \<Rightarrow> Some b else fs (FILENAMES f))" for xs
    by (induction xs arbitrary: fs) (auto split: option.splits)
  then show ?thesis by (simp add: write_files_def all_files_complete)
qed

lemma file_of_update: "file_of (st(n \<mapsto> fs)) m f = (if m = n then fs (FILENAMES f) else file_of st m f)"
  by (simp add: file_of_def)

lemma file_ops_of:
  "MemoryLayerStore_file_exists st n f \<longleftrightarrow> file_of st n f \<noteq> None"
  "file_map st n f = Some (case file_of st n f of None \<Rightarrow> Inl NotFound | Some b \<Rightarrow> Inr b)"
  "st n \<noteq> None \<Longrightarrow> file_read st n f = (case file_of st n f of None \<Rightarrow> None | Some b \<Rightarrow> Some (Inr b))"
  by (auto simp: MemoryLayerStore_file_exists_def file_map_def file_read_def file_of_def split: option.splits)

lemma base_map_all:
  assumes "\<And>f. file_of st n f = base_contents m f"
  shows "BaseLayerFiles_map_all st n = Some (Inr m)"
proof -
  note fo = file_ops_of(1,2) assms
  have d: "DictionaryFiles_map_all st n d = Some (Inr (base_dictionary m d))" for d
    by (simp add: DictionaryFiles_map_all_def fo)
  have a: "AdjacencyListFiles_map_all st n BaseTriples a = Some (Inr (base_adjacency_list m a))" for a
    by (cases "base_adjacency_list m a") (simp add: AdjacencyListFiles_map_all_def BitIndexFiles_map_all_def fo)
  have i: "IdMapFiles_map_all st n = Some (Inr (bm_node_value_idmap_maps m, bm_predicate_idmap_maps m))"
    by (auto simp: IdMapFiles_map_all_def BitIndexFiles_map_all_if_exists_def BitIndexFiles_map_all_def fo
        split: option.splits)
  have w: "BitIndexFiles_map_all st n (WaveletTreeFile BaseTriples) = Some (Inr (bm_predicate_wavelet_tree_maps m))"
    by (cases "bm_predicate_wavelet_tree_maps m") (simp add: BitIndexFiles_map_all_def fo)
  have o: "file_map_if_exists st n (SubjectsFile BaseTriples) = Some (Inr (bm_subjects_map m))"
    "file_map_if_exists st n (ObjectsFile BaseTriples) = Some (Inr (bm_objects_map m))"
    by (auto simp: file_map_if_exists_def fo split: option.splits)
  show ?thesis by (simp add: BaseLayerFiles_map_all_def d a i w o base_dictionary_def base_adjacency_list_def)
qed

lemma child_map_all:
  assumes "\<And>f. f \<noteq> ParentFile \<Longrightarrow> file_of st n f = child_contents m f"
  shows "ChildLayerFiles_map_all st n = Some (Inr m)"
proof -
  note fo = file_ops_of(1,2) assms
  have d: "DictionaryFiles_map_all st n d = Some (Inr (child_dictionary m d))" for d
    by (simp add: DictionaryFiles_map_all_def fo)
  have a: "AdjacencyListFiles_map_all st n PosTriples a = Some (Inr (pos_adjacency_list m a))"
    "AdjacencyListFiles_map_all st n NegTriples a = Some (Inr (neg_adjacency_list m a))" for a
    by (cases "pos_adjacency_list m a", simp add: AdjacencyListFiles_map_all_def BitIndexFiles_map_all_def fo,
        cases "neg_adjacency_list m a", simp add: AdjacencyListFiles_map_all_def BitIndexFiles_map_all_def fo)
  have i: "IdMapFiles_map_all st n = Some (Inr (cm_node_value_idmap_maps m, cm_predicate_idmap_maps m))"
    by (auto simp: IdMapFiles_map_all_def BitIndexFiles_map_all_if_exists_def BitIndexFiles_map_all_def fo
        split: option.splits)
  have w: "BitIndexFiles_map_all st n (WaveletTreeFile PosTriples) = Some (Inr (cm_pos_predicate_wavelet_tree_maps m))"
    "BitIndexFiles_map_all st n (WaveletTreeFile NegTriples) = Some (Inr (cm_neg_predicate_wavelet_tree_maps m))"
    by (cases "cm_pos_predicate_wavelet_tree_maps m", simp add: BitIndexFiles_map_all_def fo,
        cases "cm_neg_predicate_wavelet_tree_maps m", simp add: BitIndexFiles_map_all_def fo)
  have f: "file_map st n (SubjectsFile PosTriples) = Some (Inr (cm_pos_subjects_map m))"
    "file_map st n (SubjectsFile NegTriples) = Some (Inr (cm_neg_subjects_map m))"
    "file_map st n (ObjectsFile PosTriples) = Some (Inr (cm_pos_objects_map m))"
    "file_map st n (ObjectsFile NegTriples) = Some (Inr (cm_neg_objects_map m))" by (simp_all add: fo)
  show ?thesis
    by (simp add: ChildLayerFiles_map_all_def d a i w f child_dictionary_def pos_adjacency_list_def neg_adjacency_list_def)
qed

section \<open>Parent and rollup files\<close>

text \<open>The parent and the rollup that the files of a layer name.\<close>

lemma has_parent_of: "layer_has_parent st n \<longleftrightarrow> file_of st n ParentFile \<noteq> None"
  and has_rollup_of: "layer_has_rollup st n \<longleftrightarrow> file_of st n RollupFile \<noteq> None"
  by (simp_all add: layer_has_parent_def layer_has_rollup_def file_ops_of)

lemma file_of_dir: "file_of st n f = Some b \<Longrightarrow> st n \<noteq> None"
  by (auto simp: file_of_def bind_eq_Some_conv)

lemma read_parent_name: "file_of st n ParentFile = Some (name_to_string p) \<Longrightarrow> read_parent_file st n = Some (Inr p)"
  by (simp add: read_parent_file_def file_ops_of(3) [OF file_of_dir])

lemma optional_parent_of:
  "optional_parent st n = (if layer_has_parent st n then try_bind (read_parent_file st n) (\<lambda>p. Some (Inr (Some p)))
    else Some (Inr None))"
  by (simp add: optional_parent_def)

lemma read_rollup_name:
  assumes "file_of st n RollupFile = Some ([49, 10] @ name_to_string r @ [10])"
  shows "read_rollup_file st n = Some (Inr r)"
proof -
  have p: "\<forall>c\<in>set [49 :: u8]. plain c" "\<forall>c\<in>set (name_to_string r). plain c"
    by (simp add: plain_def) (blast dest: name_to_string_plain)
  have "from_utf8_lossy ([49, 10] @ name_to_string r @ [10]) = [49, 10] @ name_to_string r @ [10]"
    using name_to_string_ascii [of r] by (intro from_utf8_lossy_ascii) auto
  then show ?thesis
    using str_lines_plain [OF p] assms file_of_dir [OF assms] by (simp add: read_rollup_file_def file_ops_of(3))
qed

section \<open>Stored layers\<close>

text \<open>The layer that the files of a store describe under a name.\<close>

inductive stored :: "env \<Rightarrow> MemoryLayerStore \<Rightarrow> layer_name \<Rightarrow> InternalLayer \<Rightarrow> bool" for e st where
  base: "st n \<noteq> None \<Longrightarrow> \<not> layer_has_rollup st n \<Longrightarrow> \<not> layer_has_parent st n \<Longrightarrow>
    BaseLayer_load_from_files e st n = Some (Inr l) \<Longrightarrow> stored e st n l"
| child: "st n \<noteq> None \<Longrightarrow> \<not> layer_has_rollup st n \<Longrightarrow> layer_has_parent st n \<Longrightarrow> read_parent_file st n = Some (Inr p) \<Longrightarrow>
    stored e st p lp \<Longrightarrow> ChildLayer_load_from_files e st n lp = Some (Inr l) \<Longrightarrow> stored e st n l"
| rollup: "st n \<noteq> None \<Longrightarrow> layer_has_rollup st n \<Longrightarrow> read_rollup_file st n = Some (Inr r) \<Longrightarrow> r \<noteq> n \<Longrightarrow>
    \<not> layer_has_rollup st r \<Longrightarrow> optional_parent st n = Some (Inr op) \<Longrightarrow> stored e st r lr \<Longrightarrow>
    InternalLayer_immediate_parent lr \<noteq> None \<longrightarrow> op \<noteq> None \<Longrightarrow> l = Rollup (RollupLayer lr n op) \<Longrightarrow> stored e st n l"

lemma stored_dir: "stored e st n l \<Longrightarrow> st n \<noteq> None"
  by (cases rule: stored.cases)

lemma load_from_files_name:
  "BaseLayer_load_from_files e st n = Some (Inr l) \<Longrightarrow> InternalLayer_name l = n \<and> InternalLayer_immediate_parent l = None"
  "ChildLayer_load_from_files e st n p = Some (Inr l) \<Longrightarrow> InternalLayer_name l = n \<and> InternalLayer_immediate_parent l = Some p"
  by (auto simp: BaseLayer_load_from_files_def BaseLayer_load_def ChildLayer_load_from_files_def ChildLayer_load_def
      try_bind_Inr_iff bind_eq_Some_conv Let_def)

lemma stored_name: "stored e st n l \<Longrightarrow> InternalLayer_name l = n"
  by (cases rule: stored.cases) (auto dest: load_from_files_name)

lemma stored_unique: "stored e st n l \<Longrightarrow> stored e st n l' \<Longrightarrow> l = l'"
proof (induction arbitrary: l' rule: stored.induct)
  case (base n l)
  from base.prems show ?case by (cases rule: stored.cases) (use base.hyps in simp_all)
next
  case (child n p lp l)
  from child.prems show ?case
  proof (cases rule: stored.cases)
    case (child p' lp')
    then show ?thesis using child.hyps child.IH [of lp'] by simp
  qed (use child.hyps in simp_all)
next
  case (rollup n r op lr l)
  from rollup.prems show ?case
  proof (cases rule: stored.cases)
    case (rollup r' op' lr')
    then show ?thesis using rollup.hyps rollup.IH [of lr'] by simp
  qed (use rollup.hyps in simp_all)
qed

text \<open>What is read of a layer depends on its directory only.\<close>

lemma same_dir:
  assumes "st' n = st n"
  shows "layer_has_rollup st' n = layer_has_rollup st n" "layer_has_parent st' n = layer_has_parent st n"
    "read_parent_file st' n = read_parent_file st n" "read_rollup_file st' n = read_rollup_file st n"
    "optional_parent st' n = optional_parent st n"
    "BaseLayer_load_from_files e st' n = BaseLayer_load_from_files e st n"
    "ChildLayer_load_from_files e st' n = ChildLayer_load_from_files e st n"
proof -
  have f: "file_map st' n = file_map st n" "MemoryLayerStore_file_exists st' n = MemoryLayerStore_file_exists st n"
    "file_read st' n = file_read st n"
    using assms by (simp_all add: fun_eq_iff file_map_def MemoryLayerStore_file_exists_def file_read_def)
  show h: "layer_has_rollup st' n = layer_has_rollup st n" "layer_has_parent st' n = layer_has_parent st n"
    "read_parent_file st' n = read_parent_file st n" "read_rollup_file st' n = read_rollup_file st n"
    by (simp_all add: layer_has_rollup_def layer_has_parent_def read_parent_file_def read_rollup_file_def f)
  then show "optional_parent st' n = optional_parent st n" by (simp add: optional_parent_def)
  have b: "BitIndexFiles_map_all st' n = BitIndexFiles_map_all st n"
    by (simp add: BitIndexFiles_map_all_def f fun_eq_iff)
  then have g: "DictionaryFiles_map_all st' n = DictionaryFiles_map_all st n" "IdMapFiles_map_all st' n = IdMapFiles_map_all st n"
    "AdjacencyListFiles_map_all st' n = AdjacencyListFiles_map_all st n" "file_map_if_exists st' n = file_map_if_exists st n"
    by (simp_all add: DictionaryFiles_map_all_def IdMapFiles_map_all_def BitIndexFiles_map_all_if_exists_def
        AdjacencyListFiles_map_all_def file_map_if_exists_def f fun_eq_iff)
  have "BaseLayerFiles_map_all st' n = BaseLayerFiles_map_all st n" "ChildLayerFiles_map_all st' n = ChildLayerFiles_map_all st n"
    unfolding BaseLayerFiles_map_all_def ChildLayerFiles_map_all_def b g f by (rule refl)+
  then show "BaseLayer_load_from_files e st' n = BaseLayer_load_from_files e st n"
    "ChildLayer_load_from_files e st' n = ChildLayer_load_from_files e st n"
    by (simp_all add: fun_eq_iff BaseLayer_load_from_files_def ChildLayer_load_from_files_def)
qed

text \<open>Changing other directories keeps a stored layer: only the directories of stored layers count.\<close>

lemma stored_mono:
  assumes "stored e st n l" "\<And>m lm. stored e st m lm \<Longrightarrow> st' m = st m"
  shows "stored e st' n l"
  using assms(1)
proof (induction rule: stored.induct)
  case (base n l)
  have "st' n = st n" by (rule assms(2), rule stored.base [OF base.hyps])
  with base show ?case using same_dir [of st' n st] by (intro stored.base) simp_all
next
  case (child n p lp l)
  have "st' n = st n" by (rule assms(2), rule stored.child [OF child.hyps])
  with child show ?case using same_dir [of st' n st] by (intro stored.child [of st' n p e lp]) simp_all
next
  case (rollup n r op lr l)
  have "st' n = st n" by (rule assms(2), rule stored.rollup [OF rollup.hyps])
  moreover have "st' r = st r" by (rule assms(2) [OF rollup.hyps(7)])
  ultimately show ?case using rollup same_dir [of st' n st] same_dir [of st' r st]
    by (intro stored.rollup [of st' n r op e lr]) simp_all
qed

section \<open>Loading\<close>

text \<open>A cache is coherent when every layer in it is the one the store has under its name.\<close>

definition coherent :: "env \<Rightarrow> MemoryLayerStore \<Rightarrow> layer_cache \<Rightarrow> bool" where
  "coherent e st cache \<longleftrightarrow> (\<forall>n l. cache n = Some l \<longrightarrow> stored e st n l)"

lemma coherentD: "coherent e st cache \<Longrightarrow> cache n = Some l \<Longrightarrow> stored e st n l"
  unfolding coherent_def by blast

lemma coherent_unique: "coherent e st cache \<Longrightarrow> stored e st n l \<Longrightarrow> cache n = Some c \<Longrightarrow> c = l"
  using coherentD stored_unique by blast

lemma coherent_cache_layer:
  "coherent e st cache \<Longrightarrow> stored e st (InternalLayer_name l) l \<Longrightarrow> coherent e st (LayerCache_cache_layer cache l)"
  unfolding coherent_def LayerCache_cache_layer_def by (metis fun_upd_apply option.inject)

lemma load_children_append:
  "load_children e st a c (xs @ ys) = try_bind (load_children e st a c xs) (\<lambda>(l, c). load_children e st l c ys)"
  by (induction xs arbitrary: a c) (auto simp: try_bind_assoc intro!: arg_cong [where f = "try_bind _"])

lemma load_found_append:
  "ancestor \<noteq> None \<or> xs \<noteq> [] \<Longrightarrow>
    load_found e st ancestor (xs @ ys) = try_bind (load_found e st ancestor xs) (\<lambda>(l, c). load_children e st l c ys)"
  by (cases xs; cases ancestor)
    (auto simp: load_found_def load_children_append try_bind_assoc intro!: arg_cong [where f = "try_bind _"])

lemma wrap_cached_rollup:
  "wrap_cached (o', Some (r, op)) l = Some l' \<longleftrightarrow>
    (InternalLayer_immediate_parent l \<noteq> None \<longrightarrow> op \<noteq> None) \<and> l' = Rollup (RollupLayer l o' op)"
  by (auto simp: wrap_cached_def RollupLayer_from_child_layer_def RollupLayer_from_base_layer_def bind_eq_Some_conv)

text \<open>The layers that \<open>load\<close> puts into the cache belong there.\<close>

abbreviation all_stored :: "env \<Rightarrow> MemoryLayerStore \<Rightarrow> InternalLayer list \<Rightarrow> bool" where
  "all_stored e st ls \<equiv> \<forall>x\<in>set ls. stored e st (InternalLayer_name x) x"

lemma load_entry_child:
  assumes "ChildLayer_load_from_files e st n lp = Some (Inr l)" "stored e st n l" "current_of entry = n"
    "wrap_cached entry l = Some l'" "stored e st (fst entry) l'"
  shows "\<exists>new. load_child e st lp entry = Some (Inr (l', new)) \<and> all_stored e st new"
proof -
  have im: "InternalLayer_immediate_parent l = Some lp" using load_from_files_name(2) [OF assms(1)] by simp
  show ?thesis
  proof (cases entry)
    case (Pair m ro)
    then show ?thesis using assms im stored_name [OF assms(2)] stored_name [OF assms(5)]
      by (cases ro) (auto simp: load_child_def current_of_def wrap_cached_def bind_eq_Some_conv Let_def
          RollupLayer_from_child_layer_def)
  qed
qed

lemma load_entry_base:
  assumes "BaseLayer_load_from_files e st n = Some (Inr l)" "stored e st n l" "current_of entry = n"
    "wrap_cached entry l = Some l'" "stored e st (fst entry) l'"
  shows "\<exists>new. load_base e st entry = Some (Inr (l', new)) \<and> all_stored e st new"
proof -
  have im: "InternalLayer_immediate_parent l = None" using load_from_files_name(1) [OF assms(1)] by simp
  show ?thesis
  proof (cases entry)
    case (Pair m ro)
    then show ?thesis using assms im stored_name [OF assms(2)] stored_name [OF assms(5)]
      by (cases ro) (auto simp: load_base_def current_of_def wrap_cached_def Let_def RollupLayer_from_base_layer_def)
  qed
qed

lemma find_stored:
  assumes "stored e st n l" "coherent e st cache" "current_of entry = n" "wrap_cached entry l = Some l'"
    "stored e st (fst entry) l'" "snd entry = None \<or> \<not> layer_has_rollup st n"
  shows "\<exists>anc ups new. find_ancestor st cache entry rest = Some (Inr (anc, ups @ rest)) \<and> (anc \<noteq> None \<or> ups \<noteq> []) \<and>
    load_found e st anc ups = Some (Inr (l', new)) \<and> all_stored e st new"
  using assms
proof (induction arbitrary: entry l' rest rule: stored.induct)
  case (base n l)
  have s: "stored e st n l" by (rule stored.base [OF base.hyps])
  show ?case
  proof (cases "cache n")
    case None
    then have "find_ancestor st cache entry rest = Some (Inr (None, [entry] @ rest))"
      using base.hyps base.prems(2) by (subst find_ancestor.simps) simp
    moreover obtain new where "load_base e st entry = Some (Inr (l', new))" "all_stored e st new"
      using load_entry_base [OF base.hyps(4) s base.prems(2,3,4)] by blast
    then have "load_found e st None [entry] = Some (Inr (l', new))" "all_stored e st new" by (simp_all add: load_found_def)
    ultimately show ?thesis by (intro exI [of _ None] exI [of _ "[entry]"]) auto
  next
    case (Some c)
    then have "c = l" using coherent_unique [OF base.prems(1) s] by simp
    then have "find_ancestor st cache entry rest = Some (Inr (Some l', [] @ rest))"
      using Some base.prems by (subst find_ancestor.simps) simp
    then show ?thesis by (intro exI [of _ "Some l'"] exI [of _ "[]"]) (simp add: load_found_def)
  qed
next
  case (child n p lp l)
  have s: "stored e st n l" by (rule stored.child [OF child.hyps])
  show ?case
  proof (cases "cache n")
    case None
    have w: "current_of (p, None) = p" "wrap_cached (p, None) lp = Some lp" "stored e st (fst (p, None :: (layer_name \<times> layer_name option) option)) lp"
      using child.hyps by (simp_all add: current_of_def wrap_cached_def)
    obtain anc ups new where f: "find_ancestor st cache (p, None) (entry # rest) = Some (Inr (anc, ups @ entry # rest))"
      "anc \<noteq> None \<or> ups \<noteq> []" "load_found e st anc ups = Some (Inr (lp, new))" "all_stored e st new"
      using child.IH [OF child.prems(1) w] by (metis snd_conv)
    obtain new' where c: "load_child e st lp entry = Some (Inr (l', new'))" "all_stored e st new'"
      using load_entry_child [OF child.hyps(6) s child.prems(2,3,4)] by blast
    have "find_ancestor st cache entry rest = Some (Inr (anc, (ups @ [entry]) @ rest))"
      using None child.hyps child.prems(2) f(1) by (subst find_ancestor.simps) simp
    moreover have "load_found e st anc (ups @ [entry]) = Some (Inr (l', new @ new'))"
      using load_found_append [OF f(2)] f(3) c(1) by simp
    moreover have "all_stored e st (new @ new')" using f(4) c(2) by auto
    ultimately show ?thesis by (intro exI [of _ anc] exI [of _ "ups @ [entry]"]) auto
  next
    case (Some c)
    then have "c = l" using coherent_unique [OF child.prems(1) s] by simp
    then have "find_ancestor st cache entry rest = Some (Inr (Some l', [] @ rest))"
      using Some child.prems by (subst find_ancestor.simps) simp
    then show ?thesis by (intro exI [of _ "Some l'"] exI [of _ "[]"]) (simp add: load_found_def)
  qed
next
  case (rollup n r op lr l)
  have s: "stored e st n l" by (rule stored.rollup [OF rollup.hyps])
  have en: "entry = (n, None)" "l' = l"
    using rollup.hyps(2) rollup.prems(2,3,5) by (cases entry; auto simp: current_of_def wrap_cached_def)+
  show ?case
  proof (cases "cache n")
    case None
    have w: "current_of (n, Some (r, op)) = r" "wrap_cached (n, Some (r, op)) lr = Some l" "stored e st (fst (n, Some (r, op))) l"
      using rollup.hyps s by (simp_all add: current_of_def wrap_cached_rollup)
    then show ?thesis
      using rollup.IH [OF rollup.prems(1) w disjI2 [OF rollup.hyps(5)], of rest] None rollup.hyps rollup.prems(2) en
      by (subst find_ancestor.simps) simp
  next
    case (Some c)
    then have "c = l" using coherent_unique [OF rollup.prems(1) s] by simp
    then have "find_ancestor st cache entry rest = Some (Inr (Some l', [] @ rest))"
      using Some rollup.prems by (subst find_ancestor.simps) simp
    then show ?thesis by (intro exI [of _ "Some l'"] exI [of _ "[]"]) (simp add: load_found_def)
  qed
qed

lemma get_layer_stored:
  assumes "stored e st n l" "coherent e st cache"
  shows "\<exists>new. get_layer_with_cache e st cache n = Some (Inr (Some l, new)) \<and> all_stored e st new"
proof (cases "cache n")
  case None
  obtain anc ups new where "find_ancestor st cache (n, None) [] = Some (Inr (anc, ups))"
    "load_found e st anc ups = Some (Inr (l, new))" "all_stored e st new"
    using find_stored [OF assms, of "(n, None)" l "[]"] assms(1) by (auto simp: current_of_def wrap_cached_def)
  then show ?thesis
    using None stored_dir [OF assms(1)] by (simp add: get_layer_with_cache_def MemoryLayerStore_directory_exists_def)
next
  case (Some c)
  then show ?thesis using coherent_unique [OF assms(2,1)] by (simp add: get_layer_with_cache_def)
qed

lemma coherent_empty: "coherent e st Map.empty"
  by (simp add: coherent_def)

lemma get_layer_stored_eq: "stored e st n l \<Longrightarrow> get_layer e st n = Some (Inr (Some l))"
  using get_layer_stored [OF _ coherent_empty] by (fastforce simp: get_layer_def)

lemma coherent_cached:
  assumes "coherent e st cache" "all_stored e st new"
  shows "coherent e st (fold (\<lambda>l c. LayerCache_cache_layer c l) new cache)"
  using assms by (induction new arbitrary: cache) (simp_all add: coherent_cache_layer)

end
