(* ===== verification/Store.thy ===== *)
theory Store
  imports Labels LayerStorage
begin

text \<open>
  The store of \<open>src/store/mod.rs\<close>, over a label store and the cached layer store: the shared
  layer builder that can be committed once, squashing a layer, applying the difference to
  another layer, and named graphs, which are labels that point to layers.

  The label store is the record of its operations. The threads of \<open>rayon\<close> visit the elements
  of an iterator in any order: the argument \<open>par\<close> is that order.
\<close>

section \<open>Model\<close>

record 's StoreState =
  ss_labels :: 's
  ss_layers :: MemoryLayerStore
  ss_cache :: layer_cache

definition Store_get_layer :: "env \<Rightarrow> 's StoreState \<Rightarrow> layer_name \<Rightarrow> (InternalLayer option \<times> 's StoreState) io_result" where
  "Store_get_layer e ss name =
    try_bind (CachedLayerStore_get_layer e (ss_layers ss) (ss_cache ss) name) (\<lambda>(l, cache).
      Some (Inr (l, ss\<lparr>ss_cache := cache\<rparr>)))"

subsection \<open>The shared layer builder\<close>

record StoreLayerBuilder =
  slb_parent :: "InternalLayer option"
  slb_builder :: "SimpleLayerBuilder option"
  slb_name :: layer_name

definition StoreLayerBuilder_wrap :: "SimpleLayerBuilder \<Rightarrow> StoreLayerBuilder" where
  "StoreLayerBuilder_wrap builder =
    \<lparr>slb_parent = sb_parent builder, slb_builder = Some builder, slb_name = sb_name builder\<rparr>"

definition StoreLayerBuilder_new :: "'s StoreState \<Rightarrow> layer_name \<Rightarrow> StoreLayerBuilder \<times> 's StoreState" where
  "StoreLayerBuilder_new ss random_name =
    (let (builder, st) = create_base_layer (ss_layers ss) random_name
     in (\<lparr>slb_parent = sb_parent builder, slb_builder = Some builder, slb_name = sb_name builder\<rparr>, ss\<lparr>ss_layers := st\<rparr>))"

definition StoreLayerBuilder_with_builder ::
  "StoreLayerBuilder \<Rightarrow> (SimpleLayerBuilder \<Rightarrow> SimpleLayerBuilder) \<Rightarrow> io_error + StoreLayerBuilder" where
  "StoreLayerBuilder_with_builder self f =
    (case slb_builder self of
       None \<Rightarrow> Inl InvalidData
     | Some builder \<Rightarrow> Inr (self\<lparr>slb_builder := Some (f builder)\<rparr>))"

definition StoreLayerBuilder_add_string_triple :: "StoreLayerBuilder \<Rightarrow> StringTriple \<Rightarrow> io_error + StoreLayerBuilder" where
  "StoreLayerBuilder_add_string_triple self triple =
    StoreLayerBuilder_with_builder self (\<lambda>b. SimpleLayerBuilder_add_string_triple b triple)"

definition StoreLayerBuilder_add_id_triple :: "StoreLayerBuilder \<Rightarrow> IdTriple \<Rightarrow> io_error + StoreLayerBuilder" where
  "StoreLayerBuilder_add_id_triple self triple =
    StoreLayerBuilder_with_builder self (\<lambda>b. SimpleLayerBuilder_add_id_triple b triple)"

definition StoreLayerBuilder_remove_string_triple :: "StoreLayerBuilder \<Rightarrow> StringTriple \<Rightarrow> io_error + StoreLayerBuilder" where
  "StoreLayerBuilder_remove_string_triple self triple =
    StoreLayerBuilder_with_builder self (\<lambda>b. SimpleLayerBuilder_remove_string_triple b triple)"

definition StoreLayerBuilder_remove_id_triple :: "StoreLayerBuilder \<Rightarrow> IdTriple \<Rightarrow> io_error + StoreLayerBuilder" where
  "StoreLayerBuilder_remove_id_triple self triple =
    StoreLayerBuilder_with_builder self (\<lambda>b. SimpleLayerBuilder_remove_id_triple b triple)"

definition StoreLayerBuilder_committed :: "StoreLayerBuilder \<Rightarrow> bool" where
  "StoreLayerBuilder_committed self \<longleftrightarrow> slb_builder self = None"

text \<open>The builder is taken out before it is committed, so that it counts as committed also when the commit fails.\<close>

definition StoreLayerBuilder_commit_no_load ::
  "env \<Rightarrow> sorters \<Rightarrow> usize \<Rightarrow> 's StoreState \<Rightarrow> StoreLayerBuilder \<Rightarrow>
    ((io_error + 's StoreState) \<times> StoreLayerBuilder) panics" where
  "StoreLayerBuilder_commit_no_load e so sz ss self =
    (case slb_builder self of
       None \<Rightarrow> Some (Inl InvalidData, self)
     | Some builder \<Rightarrow>
         do { r \<leftarrow> commit_boxed e so sz (ss_layers ss) builder;
              Some (map_sum id (\<lambda>st. ss\<lparr>ss_layers := st\<rparr>) r, self\<lparr>slb_builder := None\<rparr>) })"

definition StoreLayerBuilder_commit ::
  "env \<Rightarrow> sorters \<Rightarrow> usize \<Rightarrow> 's StoreState \<Rightarrow> StoreLayerBuilder \<Rightarrow> (InternalLayer \<times> 's StoreState) io_result" where
  "StoreLayerBuilder_commit e so sz ss self =
    do { (r, _) \<leftarrow> StoreLayerBuilder_commit_no_load e so sz ss self;
         try_bind (Some r) (\<lambda>ss.
         try_bind (Store_get_layer e ss (slb_name self)) (\<lambda>(l, ss).
           do { l \<leftarrow> l; Some (Inr (l, ss)) })) }"

text \<open>The string triples of a layer that are not in another one.\<close>

fun missing_triples :: "env \<Rightarrow> usize \<Rightarrow> InternalLayer \<Rightarrow> InternalLayer option \<Rightarrow> IdTriple list \<Rightarrow> StringTriple list panics" where
  "missing_triples e sz this other [] = Some []"
| "missing_triples e sz this other (t # ts) =
    do { st \<leftarrow> Layer_id_triple_to_string (env_order e) sz this t;
         found \<leftarrow> (case st of
             None \<Rightarrow> Some []
           | Some st \<Rightarrow>
               (case other of
                  None \<Rightarrow> Some [st]
                | Some other \<Rightarrow> do { ex \<leftarrow> Layer_string_triple_exists (env_order e) sz other st; Some (if ex then [] else [st]) }));
         rest \<leftarrow> missing_triples e sz this other ts;
         Some (found @ rest) }"

fun with_triples ::
  "(StoreLayerBuilder \<Rightarrow> StringTriple \<Rightarrow> io_error + StoreLayerBuilder) \<Rightarrow> StoreLayerBuilder \<Rightarrow> StringTriple list \<Rightarrow>
    StoreLayerBuilder panics" where
  "with_triples f self [] = Some self"
| "with_triples f self (t # ts) = do { self \<leftarrow> unwrap (f self t); with_triples f self ts }"

definition StoreLayerBuilder_apply_diff ::
  "env \<Rightarrow> usize \<Rightarrow> (IdTriple list \<Rightarrow> IdTriple list) \<Rightarrow> StoreLayerBuilder \<Rightarrow> InternalLayer \<Rightarrow> StoreLayerBuilder panics" where
  "StoreLayerBuilder_apply_diff e sz par self other =
    do { removed \<leftarrow> (case slb_parent self of
             None \<Rightarrow> Some []
           | Some this \<Rightarrow>
               do { ts \<leftarrow> InternalLayer_triples (env_order e) this; missing_triples e sz this (Some other) (par ts) });
         self \<leftarrow> with_triples StoreLayerBuilder_remove_string_triple self removed;
         ts \<leftarrow> InternalLayer_triples (env_order e) other;
         added \<leftarrow> missing_triples e sz other (slb_parent self) (par ts);
         with_triples StoreLayerBuilder_add_string_triple self added }"

subsection \<open>Layers of the store\<close>

definition StoreLayer_open_write ::
  "env \<Rightarrow> 's StoreState \<Rightarrow> InternalLayer \<Rightarrow> layer_name \<Rightarrow> (StoreLayerBuilder \<times> 's StoreState) io_result" where
  "StoreLayer_open_write e ss self random_name =
    try_bind (create_child_layer_with_cache e (ss_layers ss) (ss_cache ss) (InternalLayer_name self) random_name)
      (\<lambda>(builder, st, new).
        Some (Inr (StoreLayerBuilder_wrap builder,
          ss\<lparr>ss_layers := st, ss_cache := fold (\<lambda>l c. LayerCache_cache_layer c l) new (ss_cache ss)\<rparr>)))"

definition StoreLayer_parent :: "env \<Rightarrow> 's StoreState \<Rightarrow> InternalLayer \<Rightarrow> (InternalLayer option \<times> 's StoreState) io_result" where
  "StoreLayer_parent e ss self =
    (case InternalLayer_parent_name self of
       None \<Rightarrow> Some (Inr (None, ss))
     | Some parent_name \<Rightarrow>
         try_bind (Store_get_layer e ss parent_name) (\<lambda>(l, ss).
           case l of None \<Rightarrow> Some (Inl NotFound) | Some l \<Rightarrow> Some (Inr (Some l, ss))))"

definition StoreLayer_squash ::
  "env \<Rightarrow> sorters \<Rightarrow> usize \<Rightarrow> (IdTriple list \<Rightarrow> IdTriple list) \<Rightarrow> 's StoreState \<Rightarrow> InternalLayer \<Rightarrow> layer_name \<Rightarrow>
    (InternalLayer \<times> 's StoreState) io_result" where
  "StoreLayer_squash e so sz par ss self random_name =
    (let (new_builder, ss) = StoreLayerBuilder_new ss random_name
     in do { ts \<leftarrow> InternalLayer_triples (env_order e) self;
             sts \<leftarrow> those (map (\<lambda>t. do { st \<leftarrow> Layer_id_triple_to_string (env_order e) sz self t; st }) (par ts));
             new_builder \<leftarrow> with_triples StoreLayerBuilder_add_string_triple new_builder sts;
             StoreLayerBuilder_commit e so sz ss new_builder })"

subsection \<open>Named graphs\<close>

text \<open>A named graph is the name of its label.\<close>

definition NamedGraph_head_version ::
  "'s LabelStore \<Rightarrow> env \<Rightarrow> 's StoreState \<Rightarrow> bytes \<Rightarrow> ((InternalLayer option \<times> u64) \<times> 's StoreState) io_result" where
  "NamedGraph_head_version ops e ss label =
    try_bind (ls_get_label ops (ss_labels ss) label) (\<lambda>new_label.
      case new_label of
        None \<Rightarrow> Some (Inl NotFound)
      | Some new_label \<Rightarrow>
          (case lb_layer new_label of
             None \<Rightarrow> Some (Inr ((None, lb_version new_label), ss))
           | Some l \<Rightarrow>
               try_bind (Store_get_layer e ss l) (\<lambda>(l, ss).
                 case l of
                   None \<Rightarrow> Some (Inl NotFound)
                 | Some l \<Rightarrow> Some (Inr ((Some l, lb_version new_label), ss)))))"

definition NamedGraph_head ::
  "'s LabelStore \<Rightarrow> env \<Rightarrow> 's StoreState \<Rightarrow> bytes \<Rightarrow> (InternalLayer option \<times> 's StoreState) io_result" where
  "NamedGraph_head ops e ss label =
    try_bind (NamedGraph_head_version ops e ss label) (\<lambda>((l, _), ss). Some (Inr (l, ss)))"

text \<open>
  \<open>set_head\<close> reads the label, checks the ancestry, and then writes the label; other processes
  may work on the label store between the two halves. What \<open>set_label\<close> returns is dropped.
\<close>

definition set_head_read ::
  "'s LabelStore \<Rightarrow> (layer_name \<Rightarrow> layer_name \<Rightarrow> bool io_result) \<Rightarrow> 's \<Rightarrow> bytes \<Rightarrow> layer_name \<Rightarrow> (Label \<times> bool) io_result" where
  "set_head_read ops is_ancestor s label layer_name =
    try_bind (ls_get_label ops s label) (\<lambda>label.
      case label of
        None \<Rightarrow> Some (Inl NotFound)
      | Some label \<Rightarrow>
          try_bind (case lb_layer label of
                      None \<Rightarrow> Some (Inr True)
                    | Some retrieved_layer_name \<Rightarrow> is_ancestor layer_name retrieved_layer_name)
            (\<lambda>set_is_ok. Some (Inr (label, set_is_ok))))"

definition set_head_write ::
  "'s LabelStore \<Rightarrow> 's \<Rightarrow> Label \<times> bool \<Rightarrow> layer_name \<Rightarrow> (bool \<times> 's) io_result" where
  "set_head_write ops s found layer_name =
    (case found of (label, set_is_ok) \<Rightarrow>
       if set_is_ok
       then try_bind (LabelStore_set_label ops s label layer_name) (\<lambda>(_, s). Some (Inr (set_is_ok, s)))
       else Some (Inr (set_is_ok, s)))"

definition NamedGraph_set_head ::
  "'s LabelStore \<Rightarrow> 's StoreState \<Rightarrow> bytes \<Rightarrow> InternalLayer \<Rightarrow> (bool \<times> 's StoreState) io_result" where
  "NamedGraph_set_head ops ss label l =
    try_bind (set_head_read ops (layer_is_ancestor_of (ss_layers ss)) (ss_labels ss) label (InternalLayer_name l)) (\<lambda>found.
    try_bind (set_head_write ops (ss_labels ss) found (InternalLayer_name l)) (\<lambda>(r, s).
    Some (Inr (r, ss\<lparr>ss_labels := s\<rparr>))))"

definition NamedGraph_force_set_head ::
  "'s LabelStore \<Rightarrow> 's StoreState \<Rightarrow> bytes \<Rightarrow> InternalLayer \<Rightarrow> 's StoreState io_result" where
  "NamedGraph_force_set_head ops ss label l =
    try_bind (ls_get_label ops (ss_labels ss) label) (\<lambda>label.
      case label of
        None \<Rightarrow> Some (Inl NotFound)
      | Some label \<Rightarrow>
          try_bind (LabelStore_set_label ops (ss_labels ss) label (InternalLayer_name l)) (\<lambda>(_, s).
          Some (Inr (ss\<lparr>ss_labels := s\<rparr>))))"

definition NamedGraph_force_set_head_version ::
  "'s LabelStore \<Rightarrow> 's StoreState \<Rightarrow> bytes \<Rightarrow> InternalLayer \<Rightarrow> u64 \<Rightarrow> (bool \<times> 's StoreState) io_result" where
  "NamedGraph_force_set_head_version ops ss label l version =
    try_bind (ls_get_label ops (ss_labels ss) label) (\<lambda>label.
      case label of
        None \<Rightarrow> Some (Inl NotFound)
      | Some label \<Rightarrow>
          if lb_version label \<noteq> version then Some (Inr (False, ss))
          else try_bind (LabelStore_set_label ops (ss_labels ss) label (InternalLayer_name l)) (\<lambda>(_, s).
               Some (Inr (True, ss\<lparr>ss_labels := s\<rparr>))))"

definition Store_create :: "'s LabelStore \<Rightarrow> 's StoreState \<Rightarrow> bytes \<Rightarrow> (bytes \<times> 's StoreState) io_result" where
  "Store_create ops ss label =
    try_bind (ls_create_label ops (ss_labels ss) label) (\<lambda>(label, s).
      Some (Inr (lb_name label, ss\<lparr>ss_labels := s\<rparr>)))"

definition Store_open :: "'s LabelStore \<Rightarrow> 's StoreState \<Rightarrow> bytes \<Rightarrow> bytes option io_result" where
  "Store_open ops ss label =
    try_bind (ls_get_label ops (ss_labels ss) label) (\<lambda>label. Some (Inr (map_option lb_name label)))"

definition Store_delete :: "'s LabelStore \<Rightarrow> 's StoreState \<Rightarrow> bytes \<Rightarrow> (bool \<times> 's StoreState) io_result" where
  "Store_delete ops ss label =
    try_bind (ls_delete_label ops (ss_labels ss) label) (\<lambda>(r, s). Some (Inr (r, ss\<lparr>ss_labels := s\<rparr>)))"

definition NamedGraph_delete :: "'s LabelStore \<Rightarrow> 's StoreState \<Rightarrow> bytes \<Rightarrow> 's StoreState io_result" where
  "NamedGraph_delete ops ss label = try_bind (Store_delete ops ss label) (\<lambda>(_, ss). Some (Inr ss))"

definition open_memory_store :: "MemoryLabelStore StoreState" where
  "open_memory_store = \<lparr>ss_labels = [], ss_layers = Map.empty, ss_cache = Map.empty\<rparr>"

end
