(* ===== verification/StoreRuns.thy ===== *)
theory StoreRuns
  imports StoredLayers Store
begin

text \<open>
  Runs of the store: layers are created and committed in any order, with any number of
  builders open at a time. Every committed layer loads again and stands for the set of string
  triples that the commits on its way have made, whatever else happens in the store.
\<close>

section \<open>Builders and their directories\<close>

text \<open>The directory of a builder that was not committed yet: empty, or with the name of the parent only.\<close>

definition awaits :: "env \<Rightarrow> MemoryLayerStore \<Rightarrow> SimpleLayerBuilder \<Rightarrow> bool" where
  "awaits e st b \<longleftrightarrow>
    (case sb_parent b of
       None \<Rightarrow> st (sb_name b) = Some Map.empty
     | Some lp \<Rightarrow> \<exists>p. st (sb_name b) = Some [FILENAMES ParentFile \<mapsto> name_to_string p] \<and> stored e st p lp)"

lemma awaits_parentI:
  "sb_parent b = Some lp \<Longrightarrow> st (sb_name b) = Some [FILENAMES ParentFile \<mapsto> name_to_string p] \<Longrightarrow> stored e st p lp \<Longrightarrow>
    awaits e st b"
  unfolding awaits_def option.case by (simp only: option.case) blast

lemma awaits_files:
  assumes "awaits e st b"
  shows "\<exists>fs. st (sb_name b) = Some fs \<and> (\<forall>f. f \<noteq> ParentFile \<longrightarrow> fs (FILENAMES f) = None) \<and>
    (sb_parent b = None \<longleftrightarrow> fs (FILENAMES ParentFile) = None)"
proof (cases "sb_parent b")
  case (Some lp)
  then obtain p where "st (sb_name b) = Some [FILENAMES ParentFile \<mapsto> name_to_string p]"
    using assms by (auto simp: awaits_def)
  then show ?thesis using Some by simp
qed (use assms in \<open>simp add: awaits_def\<close>)

lemma not_stored_without_files:
  assumes "\<forall>f. f \<noteq> ParentFile \<longrightarrow> file_of st n f = None"
  shows "\<not> stored e st n l"
proof
  assume "stored e st n l"
  then show False
  proof (cases rule: stored.cases)
    case base
    have "BaseLayerFiles_map_all st n = Some (Inl NotFound)"
      using assms by (simp add: BaseLayerFiles_map_all_def DictionaryFiles_map_all_def file_ops_of)
    with base show ?thesis by (simp add: BaseLayer_load_from_files_def)
  next
    case (child p lp)
    have "ChildLayerFiles_map_all st n = Some (Inl NotFound)"
      using assms by (simp add: ChildLayerFiles_map_all_def DictionaryFiles_map_all_def file_ops_of)
    with child show ?thesis by (simp add: ChildLayer_load_from_files_def)
  qed (use assms in \<open>simp add: has_rollup_of\<close>)
qed

lemma awaits_not_stored: "awaits e st b \<Longrightarrow> \<not> stored e st (sb_name b) l"
  using awaits_files by (intro not_stored_without_files) (fastforce simp: file_of_def)

text \<open>Stored layers and waiting builders are kept when a directory that no stored layer uses changes.\<close>

lemma stored_update:
  "stored e st n l \<Longrightarrow> (\<And>lm. \<not> stored e st m lm) \<Longrightarrow> stored e (st(m := fs)) n l"
  by (erule stored_mono) auto

lemma coherent_update:
  "coherent e st cache \<Longrightarrow> (\<And>lm. \<not> stored e st m lm) \<Longrightarrow> coherent e (st(m := fs)) cache"
  unfolding coherent_def using stored_update by blast

lemma awaits_update:
  assumes "awaits e st b" "sb_name b \<noteq> m" "\<And>lm. \<not> stored e st m lm"
  shows "awaits e (st(m := fs)) b"
proof (cases "sb_parent b")
  case (Some lp)
  then obtain p where "st (sb_name b) = Some [FILENAMES ParentFile \<mapsto> name_to_string p]" "stored e st p lp"
    using assms(1) by (auto simp: awaits_def)
  moreover have "stored e (st(m := fs)) p lp" by (rule stored_update [OF calculation(2) assms(3)])
  moreover have "(st(m := fs)) (sb_name b) = st (sb_name b)" using assms(2) by simp
  ultimately show ?thesis by (intro awaits_parentI [OF Some]) simp_all
qed (use assms in \<open>simp add: awaits_def\<close>)

section \<open>Committing into the store\<close>

lemma commit_maps_kind:
  "SimpleLayerBuilder_commit e so sz b = Some (Inr maps) \<Longrightarrow>
    (case sb_parent b of None \<Rightarrow> \<exists>m. maps = BaseMaps m | Some _ \<Rightarrow> \<exists>m. maps = ChildMaps m)"
  by (cases "sb_parent b") (auto simp: SimpleLayerBuilder_commit_def bind_eq_Some_conv Let_def try_bind_Inr_iff case_prod_beta)

context build_env
begin

lemma commit_stored:
  assumes so: "sorters_ok so" and ok: "changes_ok e sz b" and aw: "awaits e st b"
    and S: "case sb_parent b of None \<Rightarrow> S = {} | Some p \<Rightarrow> committed e so sz p S"
  shows "\<exists>fs l. commit_boxed e so sz st b = Some (Inr (st(sb_name b \<mapsto> fs))) \<and>
    stored e (st(sb_name b \<mapsto> fs)) (sb_name b) l \<and> InternalLayer_immediate_parent l = sb_parent b \<and>
    InternalLayer_node_and_value_count l \<le> parent_nv (sb_parent b) + 3 * sb_added_count b \<and>
    InternalLayer_predicate_count l \<le> parent_pc (sb_parent b) + sb_added_count b \<and>
    committed e so sz l (apply_changes S (sb_added e sz b) (sb_removed e sz b))"
proof -
  obtain maps l where c: "SimpleLayerBuilder_commit e so sz b = Some (Inr maps)"
    "load_committed e (sb_name b) (sb_parent b) maps = Some l" "InternalLayer_immediate_parent l = sb_parent b"
    "committed e so sz l (apply_changes S (sb_added e sz b) (sb_removed e sz b))"
    "InternalLayer_node_and_value_count l \<le> parent_nv (sb_parent b) + 3 * sb_added_count b"
    "InternalLayer_predicate_count l \<le> parent_pc (sb_parent b) + sb_added_count b"
    using commit_ok [OF so ok S] by blast
  obtain fs0 where fs0: "st (sb_name b) = Some fs0" "\<And>f. f \<noteq> ParentFile \<Longrightarrow> fs0 (FILENAMES f) = None"
    "sb_parent b = None \<longleftrightarrow> fs0 (FILENAMES ParentFile) = None"
    using awaits_files [OF aw] by (elim exE conjE) simp
  define fs where "fs = write_files (layer_contents maps) fs0"
  let ?st = "st(sb_name b \<mapsto> fs)"
  have cb: "commit_boxed e so sz st b = Some (Inr ?st)" using c(1) fs0(1) by (simp add: commit_boxed_def fs_def)
  have fo: "file_of ?st (sb_name b) f = (case layer_contents maps f of None \<Rightarrow> fs0 (FILENAMES f) | Some x \<Rightarrow> Some x)" for f
    by (simp add: file_of_update fs_def write_files_of)
  have nr: "\<not> layer_has_rollup ?st (sb_name b)"
    using fo [of RollupFile] fs0(2) [of RollupFile] by (cases maps) (simp_all add: has_rollup_of)
  have "stored e ?st (sb_name b) l"
  proof (cases "sb_parent b")
    case None
    then obtain m where m: "maps = BaseMaps m" using commit_maps_kind [OF c(1)] by auto
    have f: "file_of ?st (sb_name b) f = base_contents m f" for f
      using fo [of f] fs0(2) [of f] fs0(3) None m by (cases "f = ParentFile") (auto split: option.split)
    have "BaseLayer_load_from_files e ?st (sb_name b) = Some (Inr l)"
      using base_map_all [OF f] c(2) m by (simp add: BaseLayer_load_from_files_def load_committed_def)
    then show ?thesis using nr f [of ParentFile] by (intro stored.base) (simp_all add: has_parent_of)
  next
    case (Some lp)
    then obtain m where m: "maps = ChildMaps m" using commit_maps_kind [OF c(1)] by auto
    obtain p where p: "st (sb_name b) = Some [FILENAMES ParentFile \<mapsto> name_to_string p]" "stored e st p lp"
      using aw Some by (auto simp: awaits_def)
    have par: "file_of ?st (sb_name b) ParentFile = Some (name_to_string p)" using fo [of ParentFile] m p(1) fs0(1) by simp
    have "file_of ?st (sb_name b) f = child_contents m f" if "f \<noteq> ParentFile" for f
      using fo [of f] fs0(2) [OF that] m by (simp split: option.split)
    then have "ChildLayer_load_from_files e ?st (sb_name b) lp = Some (Inr l)"
      using child_map_all c(2) m Some by (simp add: ChildLayer_load_from_files_def load_committed_def)
    moreover have "stored e ?st p lp" by (rule stored_update [OF p(2) awaits_not_stored [OF aw]])
    ultimately show ?thesis using nr par
      by (intro stored.child [of ?st "sb_name b" p e lp]) (simp_all add: has_parent_of read_parent_name)
  qed
  with cb c(3-6) show ?thesis by blast
qed

end

section \<open>Runs\<close>

definition parent_set :: "(layer_name \<rightharpoonup> StringTriple set) \<Rightarrow> SimpleLayerBuilder \<Rightarrow> StringTriple set" where
  "parent_set M b = (case sb_parent b of None \<Rightarrow> {} | Some lp \<Rightarrow> the (M (InternalLayer_name lp)))"

text \<open>
  A run of the layer store, with the open builders \<open>B\<close>, and the set of triples \<open>M n\<close> that every
  committed layer \<open>n\<close> should stand for. Names are drawn that no directory has. A child layer is
  created on a committed layer, through any cache that is coherent with the store.
\<close>

inductive store_run ::
  "env \<Rightarrow> sorters \<Rightarrow> usize \<Rightarrow> MemoryLayerStore \<Rightarrow> (layer_name \<rightharpoonup> SimpleLayerBuilder) \<Rightarrow> (layer_name \<rightharpoonup> StringTriple set) \<Rightarrow> bool"
  for e so sz where
  start: "store_run e so sz Map.empty Map.empty Map.empty"
| base: "store_run e so sz st B M \<Longrightarrow> st n = None \<Longrightarrow> create_base_layer st n = (b, st') \<Longrightarrow>
    store_run e so sz st' (B(n \<mapsto> b)) M"
| child: "store_run e so sz st B M \<Longrightarrow> st n = None \<Longrightarrow> M p \<noteq> None \<Longrightarrow> coherent e st cache \<Longrightarrow>
    create_child_layer_with_cache e st cache p n = Some (Inr (b, st', new)) \<Longrightarrow> store_run e so sz st' (B(n \<mapsto> b)) M"
| change: "store_run e so sz st B M \<Longrightarrow> B n = Some b \<Longrightarrow>
    b' \<in> {SimpleLayerBuilder_add_string_triple b t, SimpleLayerBuilder_remove_string_triple b t,
      SimpleLayerBuilder_add_id_triple b it, SimpleLayerBuilder_remove_id_triple b it} \<Longrightarrow>
    store_run e so sz st (B(n \<mapsto> b')) M"
| commit: "store_run e so sz st B M \<Longrightarrow> B n = Some b \<Longrightarrow> changes_ok e sz b \<Longrightarrow>
    commit_boxed e so sz st b = Some (Inr st') \<Longrightarrow>
    store_run e so sz st' (B(n := None)) (M(n \<mapsto> apply_changes (parent_set M b) (sb_added e sz b) (sb_removed e sz b)))"

definition layers_ok :: "env \<Rightarrow> sorters \<Rightarrow> usize \<Rightarrow> MemoryLayerStore \<Rightarrow> (layer_name \<rightharpoonup> StringTriple set) \<Rightarrow> bool" where
  "layers_ok e so sz st M \<longleftrightarrow> (\<forall>n S. M n = Some S \<longrightarrow> (\<exists>l. stored e st n l \<and> committed e so sz l S))"

definition builder_ok ::
  "env \<Rightarrow> MemoryLayerStore \<Rightarrow> (layer_name \<rightharpoonup> StringTriple set) \<Rightarrow> layer_name \<Rightarrow> SimpleLayerBuilder \<Rightarrow> bool" where
  "builder_ok e st M n b \<longleftrightarrow> sb_name b = n \<and> awaits e st b \<and>
    (\<forall>lp. sb_parent b = Some lp \<longrightarrow> M (InternalLayer_name lp) \<noteq> None)"

definition builders_ok ::
  "env \<Rightarrow> MemoryLayerStore \<Rightarrow> (layer_name \<rightharpoonup> SimpleLayerBuilder) \<Rightarrow> (layer_name \<rightharpoonup> StringTriple set) \<Rightarrow> bool" where
  "builders_ok e st B M \<longleftrightarrow> (\<forall>n b. B n = Some b \<longrightarrow> builder_ok e st M n b)"

lemma layers_okD: "layers_ok e so sz st M \<Longrightarrow> M n = Some S \<Longrightarrow> \<exists>l. stored e st n l \<and> committed e so sz l S"
  unfolding layers_ok_def by blast

lemma builders_okD: "builders_ok e st B M \<Longrightarrow> B n = Some b \<Longrightarrow> builder_ok e st M n b"
  unfolding builders_ok_def by blast

lemma layers_ok_update:
  assumes "layers_ok e so sz st M" "\<And>lm. \<not> stored e st m lm"
  shows "layers_ok e so sz (st(m := fs)) M"
  unfolding layers_ok_def
proof (intro allI impI)
  fix n S assume "M n = Some S"
  then obtain l where "stored e st n l" "committed e so sz l S" using layers_okD [OF assms(1)] by blast
  with stored_update [OF this(1) assms(2)] show "\<exists>l. stored e (st(m := fs)) n l \<and> committed e so sz l S" by blast
qed

lemma builder_ok_update:
  "builder_ok e st M n b \<Longrightarrow> n \<noteq> m \<Longrightarrow> (\<And>lm. \<not> stored e st m lm) \<Longrightarrow> builder_ok e (st(m := fs)) M n b"
  unfolding builder_ok_def using awaits_update by blast

lemma builders_ok_new:
  assumes "builders_ok e st B M" "\<And>lm. \<not> stored e st m lm" "builder_ok e (st(m := fs)) M m b"
  shows "builders_ok e (st(m := fs)) (B(m \<mapsto> b)) M"
  unfolding builders_ok_def
proof (intro allI impI)
  fix n b' assume "(B(m \<mapsto> b)) n = Some b'"
  then show "builder_ok e (st(m := fs)) M n b'"
    using assms(3) builder_ok_update [OF builders_okD [OF assms(1)] _ assms(2)] by (cases "n = m") simp_all
qed

lemma fresh_not_stored: "st n = None \<Longrightarrow> \<not> stored e st n l"
  using stored_dir by blast

context build_env
begin

lemma create_child_stored:
  assumes "stored e st p lp" "coherent e st cache" "st n = None"
  shows "\<exists>new. create_child_layer_with_cache e st cache p n =
      Some (Inr (SimpleLayerBuilder_from_parent n lp, st(n \<mapsto> [FILENAMES ParentFile \<mapsto> name_to_string p]), new)) \<and> all_stored e st new"
  using get_layer_stored [OF assms(1,2)]
  by (auto simp: create_child_layer_with_cache_def create_child_layer_files_with_cache_def write_parent_file_def
      file_write_def MemoryLayerStore_create_named_directory_def)

lemma parent_committed:
  assumes "layers_ok e so sz st M" "builder_ok e st M n b"
  shows "case sb_parent b of None \<Rightarrow> parent_set M b = {} | Some p \<Rightarrow> committed e so sz p (parent_set M b)"
proof (cases "sb_parent b")
  case (Some lp)
  then obtain p where p: "stored e st p lp" "M (InternalLayer_name lp) \<noteq> None"
    using assms(2) by (auto simp: builder_ok_def awaits_def)
  then obtain S where S: "M p = Some S" using stored_name [OF p(1)] by auto
  then have "committed e so sz lp S" using layers_okD [OF assms(1) S] stored_unique [OF p(1)] by blast
  then show ?thesis using Some S stored_name [OF p(1)] by (simp add: parent_set_def)
qed (simp add: parent_set_def)

lemma store_run_ok:
  assumes so: "sorters_ok so"
  shows "store_run e so sz st B M \<Longrightarrow> layers_ok e so sz st M \<and> builders_ok e st B M"
proof (induction rule: store_run.induct)
  case start
  then show ?case by (simp add: layers_ok_def builders_ok_def)
next
  case (base st B M n b st')
  have ns: "\<not> stored e st n lm" for lm by (rule fresh_not_stored [of st n, OF base.hyps(2)])
  have st': "st' = st(n := Some Map.empty)" and b: "b = SimpleLayerBuilder_new n"
    using base.hyps(3) by (simp_all add: create_base_layer_def MemoryLayerStore_create_named_directory_def)
  have "builder_ok e st' M n b" by (simp add: builder_ok_def awaits_def b st' SimpleLayerBuilder_new_def)
  then show ?case
    using layers_ok_update [OF conjunct1 [OF base.IH] ns] builders_ok_new [OF conjunct2 [OF base.IH] ns] unfolding st' by blast
next
  case (child st B M n p cache b st' new)
  have ns: "\<not> stored e st n lm" for lm by (rule fresh_not_stored [of st n, OF child.hyps(2)])
  obtain S lp where lp: "M p = Some S" "stored e st p lp" using child.hyps(3) layers_okD [OF conjunct1 [OF child.IH]] by blast
  from create_child_stored [OF lp(2) child.hyps(4,2)] child.hyps(5)
  have st': "st' = st(n := Some [FILENAMES ParentFile \<mapsto> name_to_string p])" and b: "b = SimpleLayerBuilder_from_parent n lp" by auto
  have "stored e st' p lp" unfolding st' by (rule stored_update [OF lp(2) ns])
  moreover have "st' n = Some [FILENAMES ParentFile \<mapsto> name_to_string p]" by (simp add: st')
  ultimately have "awaits e st' b" by (intro awaits_parentI) (simp_all add: b SimpleLayerBuilder_from_parent_def)
  then have "builder_ok e st' M n b"
    using lp stored_name [OF lp(2)] by (simp add: builder_ok_def b SimpleLayerBuilder_from_parent_def)
  then show ?case
    using layers_ok_update [OF conjunct1 [OF child.IH] ns] builders_ok_new [OF conjunct2 [OF child.IH] ns] unfolding st' by blast
next
  case (change st B M n b b' t it)
  have "sb_name b' = sb_name b" "sb_parent b' = sb_parent b"
    using change.hyps(3) by (auto simp: SimpleLayerBuilder_add_string_triple_def SimpleLayerBuilder_remove_string_triple_def
        SimpleLayerBuilder_add_id_triple_def SimpleLayerBuilder_remove_id_triple_def)
  then have "builder_ok e st M n b'"
    using builders_okD [OF conjunct2 [OF change.IH] change.hyps(2)] unfolding builder_ok_def awaits_def by metis
  then have "builders_ok e st (B(n \<mapsto> b')) M"
    using change.IH unfolding builders_ok_def by (metis fun_upd_apply option.inject)
  then show ?case using change.IH by blast
next
  case (commit st B M n b st')
  note lok = conjunct1 [OF commit.IH] and bok = builders_okD [OF conjunct2 [OF commit.IH] commit.hyps(2)]
  have nm: "sb_name b = n" and aw: "awaits e st b" using bok by (simp_all add: builder_ok_def)
  obtain fs l where c: "st' = st(n := Some fs)" "stored e st' n l"
    "committed e so sz l (apply_changes (parent_set M b) (sb_added e sz b) (sb_removed e sz b))"
    using commit_stored [OF so commit.hyps(3) aw parent_committed [OF lok bok]] commit.hyps(4) nm by auto
  have ns: "\<not> stored e st n lm" for lm using awaits_not_stored [OF aw] nm by simp
  have lok': "layers_ok e so sz st' M" unfolding c(1) by (rule layers_ok_update [OF lok ns])
  let ?M = "M(n \<mapsto> apply_changes (parent_set M b) (sb_added e sz b) (sb_removed e sz b))"
  have "layers_ok e so sz st' ?M"
    unfolding layers_ok_def using layers_okD [OF lok'] c(2,3) by (metis fun_upd_apply option.inject)
  moreover have "builder_ok e st' ?M m b'" if "(B(n := None)) m = Some b'" for m b'
  proof -
    have "m \<noteq> n" "B m = Some b'" using that by (auto split: if_splits)
    then have "builder_ok e st' M m b'"
      unfolding c(1) using builder_ok_update [OF builders_okD [OF conjunct2 [OF commit.IH]] _ ns] by blast
    then show ?thesis by (simp add: builder_ok_def)
  qed
  ultimately show ?case unfolding builders_ok_def by blast
qed

end

end
