(* ===== verification/StoreProperties.thy ===== *)
theory StoreProperties
  imports StoreRuns
begin

text \<open>
  What the store does for its user: committed layers are found again, by name and through the
  cache, a squashed layer has the triples of the stack it replaces, and applying the difference
  to another layer makes a layer with the triples of the other one.
\<close>

section \<open>The triples of committed layers\<close>

text \<open>A parallel iteration visits every element once.\<close>

definition par_ok :: "(IdTriple list \<Rightarrow> IdTriple list) \<Rightarrow> bool" where
  "par_ok par \<longleftrightarrow> (\<forall>ts. mset (par ts) = mset ts)"

context build_env
begin

lemma committed_exists:
  assumes "sorters_ok so" "committed e so sz l S" "triple_strings_ok t"
  shows "Layer_string_triple_exists (env_order e) sz l t = Some (t \<in> S)"
  using committed_strings [OF assms(1,2)] assms(3)
  by (fastforce simp: Layer_string_triple_exists_def Layer_id_triple_exists_def split: option.splits)

lemma committed_triples_ok: "sorters_ok so \<Longrightarrow> committed e so sz l S \<Longrightarrow> t \<in> S \<Longrightarrow> triple_strings_ok t"
  by (rule committed_stands_for) blast+

text \<open>The string triples of a committed layer, visited in any order.\<close>

lemma committed_visit:
  assumes "sorters_ok so" "committed e so sz l S" "par_ok par"
  obtains ids f where "InternalLayer_triples (env_order e) l = Some ids"
    "\<forall>it\<in>set (par ids). Layer_id_triple_to_string (env_order e) sz l it = Some (Some (f it))"
    "distinct (map f (par ids))" "set (map f (par ids)) = S"
proof -
  obtain ids xs where i: "InternalLayer_triples (env_order e) l = Some ids"
    "map (Layer_id_triple_to_string (env_order e) sz l) ids = map (\<lambda>t. Some (Some t)) xs" "distinct xs" "set xs = S"
    using committed_strings [OF assms(1,2)] by blast
  define f where "f = (\<lambda>it. the (the (Layer_id_triple_to_string (env_order e) sz l it)))"
  have "map (the \<circ> the \<circ> Layer_id_triple_to_string (env_order e) sz l) ids = map (the \<circ> the) (map (\<lambda>t. Some (Some t)) xs)"
    unfolding i(2) [symmetric] by simp
  then have xs: "map f ids = xs" by (simp add: f_def comp_def)
  have ms: "mset (par ids) = mset ids" using assms(3) by (simp add: par_ok_def)
  have "Layer_id_triple_to_string (env_order e) sz l it = Some (Some (f it))" if "it \<in> set ids" for it
  proof -
    have "Layer_id_triple_to_string (env_order e) sz l it \<in> set (map (\<lambda>t. Some (Some t)) xs)"
      using that unfolding i(2) [symmetric] by simp
    then show ?thesis by (auto simp: f_def)
  qed
  then have "\<forall>it\<in>set (par ids). Layer_id_triple_to_string (env_order e) sz l it = Some (Some (f it))"
    using mset_eq_setD [OF ms] by simp
  moreover have "mset (map f (par ids)) = mset xs" using ms xs by (metis mset_map)
  then have "distinct (map f (par ids))" "set (map f (par ids)) = S"
    using i(3,4) mset_eq_imp_distinct_iff mset_eq_setD by blast+
  ultimately show ?thesis using i(1) that by blast
qed

end

section \<open>Changing a builder\<close>

lemma with_triples_add:
  "slb_builder self = Some b \<Longrightarrow> with_triples StoreLayerBuilder_add_string_triple self ts =
    Some (self\<lparr>slb_builder := Some (b\<lparr>sb_additions := sb_additions b @ ts\<rparr>)\<rparr>)"
  by (induction ts arbitrary: self b)
    (simp_all add: StoreLayerBuilder_add_string_triple_def StoreLayerBuilder_with_builder_def unwrap_def
      SimpleLayerBuilder_add_string_triple_def)

lemma with_triples_remove:
  "slb_builder self = Some b \<Longrightarrow> with_triples StoreLayerBuilder_remove_string_triple self ts =
    Some (self\<lparr>slb_builder := Some (b\<lparr>sb_removals := sb_removals b @ ts\<rparr>)\<rparr>)"
  by (induction ts arbitrary: self b)
    (simp_all add: StoreLayerBuilder_remove_string_triple_def StoreLayerBuilder_with_builder_def unwrap_def
      SimpleLayerBuilder_remove_string_triple_def)

lemma missing_triples_eq:
  assumes "\<forall>it\<in>set its. Layer_id_triple_to_string (env_order e) sz this it = Some (Some (f it))"
    and "\<forall>it\<in>set its. case other of None \<Rightarrow> P (f it) | Some ol \<Rightarrow> Layer_string_triple_exists (env_order e) sz ol (f it) = Some (\<not> P (f it))"
  shows "missing_triples e sz this other its = Some (filter P (map f its))"
  using assms by (induction its) (auto split: option.splits)

context build_env
begin

text \<open>Committing the shared builder and loading the new layer.\<close>

lemma store_builder_commit:
  assumes so: "sorters_ok so" and ok: "changes_ok e sz b" and aw: "awaits e (ss_layers ss) b"
    and co: "coherent e (ss_layers ss) (ss_cache ss)"
    and S: "case sb_parent b of None \<Rightarrow> S = {} | Some p \<Rightarrow> committed e so sz p S"
    and self: "slb_builder self = Some b" "slb_name self = sb_name b"
  shows "\<exists>l ss'. StoreLayerBuilder_commit e so sz ss self = Some (Inr (l, ss')) \<and>
    stored e (ss_layers ss') (sb_name b) l \<and> InternalLayer_immediate_parent l = sb_parent b \<and>
    committed e so sz l (apply_changes S (sb_added e sz b) (sb_removed e sz b))"
proof -
  let ?st = "ss_layers ss"
  obtain fs l where c: "commit_boxed e so sz ?st b = Some (Inr (?st(sb_name b \<mapsto> fs)))"
    "stored e (?st(sb_name b \<mapsto> fs)) (sb_name b) l" "InternalLayer_immediate_parent l = sb_parent b"
    "committed e so sz l (apply_changes S (sb_added e sz b) (sb_removed e sz b))"
    using commit_stored [OF so ok aw S] by blast
  have "coherent e (?st(sb_name b \<mapsto> fs)) (ss_cache ss)" by (rule coherent_update [OF co awaits_not_stored [OF aw]])
  from get_layer_stored [OF c(2) this] obtain new where
    "get_layer_with_cache e (?st(sb_name b \<mapsto> fs)) (ss_cache ss) (sb_name b) = Some (Inr (Some l, new))" by blast
  then show ?thesis using c self
    by (auto simp: StoreLayerBuilder_commit_def StoreLayerBuilder_commit_no_load_def Store_get_layer_def
        CachedLayerStore_get_layer_def)
qed

end

context build_env
begin

text \<open>A builder opened on a stored layer.\<close>

lemma open_write_stored:
  assumes "stored e (ss_layers ss) p lp" "ss_layers ss n = None" "coherent e (ss_layers ss) (ss_cache ss)"
  shows "\<exists>ss1. StoreLayer_open_write e ss lp n = Some (Inr (StoreLayerBuilder_wrap (SimpleLayerBuilder_from_parent n lp), ss1)) \<and>
    ss_layers ss1 n = Some [FILENAMES ParentFile \<mapsto> name_to_string p] \<and> stored e (ss_layers ss1) p lp \<and>
    coherent e (ss_layers ss1) (ss_cache ss1)"
proof -
  note ns = fresh_not_stored [of "ss_layers ss" n, OF assms(2)]
  let ?st = "(ss_layers ss)(n \<mapsto> [FILENAMES ParentFile \<mapsto> name_to_string p])"
  obtain new where new: "create_child_layer_with_cache e (ss_layers ss) (ss_cache ss) p n =
      Some (Inr (SimpleLayerBuilder_from_parent n lp, ?st, new))" "all_stored e (ss_layers ss) new"
    using create_child_stored [OF assms(1,3,2)] by blast
  let ?ss = "ss\<lparr>ss_layers := ?st, ss_cache := fold (\<lambda>l c. LayerCache_cache_layer c l) new (ss_cache ss)\<rparr>"
  have "StoreLayer_open_write e ss lp n = Some (Inr (StoreLayerBuilder_wrap (SimpleLayerBuilder_from_parent n lp), ?ss))"
    using new(1) stored_name [OF assms(1)] by (simp add: StoreLayer_open_write_def)
  moreover have "coherent e (ss_layers ?ss) (ss_cache ?ss)"
    using coherent_update [OF coherent_cached [OF assms(3) new(2)] ns] by simp
  moreover have "stored e (ss_layers ?ss) p lp" using stored_update [OF assms(1) ns] by simp
  ultimately show ?thesis by (intro exI [of _ ?ss]) simp
qed

text \<open>The changes that the difference between two committed layers makes.\<close>

lemma apply_diff_changes:
  assumes so: "sorters_ok so" and par: "par_ok par" and cp: "committed e so sz lp Sp" and co: "committed e so sz other So"
    and self: "slb_parent self = Some lp" "slb_builder self = Some b" "sb_additions b = []" "sb_removals b = []"
  shows "\<exists>as rs. StoreLayerBuilder_apply_diff e sz par self other =
      Some (self\<lparr>slb_builder := Some (b\<lparr>sb_additions := as, sb_removals := rs\<rparr>)\<rparr>) \<and>
    set as = So - Sp \<and> set rs = Sp - So \<and> length as \<le> card So \<and> length rs \<le> card Sp"
proof -
  obtain ids f where v: "InternalLayer_triples (env_order e) lp = Some ids"
    "\<forall>it\<in>set (par ids). Layer_id_triple_to_string (env_order e) sz lp it = Some (Some (f it))"
    "distinct (map f (par ids))" "set (map f (par ids)) = Sp" by (rule committed_visit [OF so cp par])
  obtain ids' f' where w: "InternalLayer_triples (env_order e) other = Some ids'"
    "\<forall>it\<in>set (par ids'). Layer_id_triple_to_string (env_order e) sz other it = Some (Some (f' it))"
    "distinct (map f' (par ids'))" "set (map f' (par ids')) = So" by (rule committed_visit [OF so co par])
  let ?rs = "filter (\<lambda>t. t \<notin> So) (map f (par ids))" and ?as = "filter (\<lambda>t. t \<notin> Sp) (map f' (par ids'))"
  have "missing_triples e sz lp (Some other) (par ids) = Some ?rs"
    using committed_exists [OF so co] committed_triples_ok [OF so cp] v(4) by (intro missing_triples_eq v(2)) auto
  moreover have "missing_triples e sz other (Some lp) (par ids') = Some ?as"
    using committed_exists [OF so cp] committed_triples_ok [OF so co] w(4) by (intro missing_triples_eq w(2)) auto
  ultimately have "StoreLayerBuilder_apply_diff e sz par self other =
      Some (self\<lparr>slb_builder := Some (b\<lparr>sb_additions := ?as, sb_removals := ?rs\<rparr>)\<rparr>)"
    by (simp add: StoreLayerBuilder_apply_diff_def self v(1) w(1) with_triples_remove with_triples_add)
  moreover have "length ?as \<le> card So" "length ?rs \<le> card Sp"
    using distinct_card [OF v(3)] distinct_card [OF w(3)] v(4) w(4) length_filter_le by (metis length_map)+
  moreover have "set ?as = So - Sp" "set ?rs = Sp - So" using v(4) w(4) by auto
  ultimately show ?thesis by blast
qed

end

section \<open>Walking along the parents\<close>

abbreviation stack_of :: "InternalLayer \<Rightarrow> layer_name list" where
  "stack_of l \<equiv> map InternalLayer_name (layers_from l)"

definition no_rollups :: "MemoryLayerStore \<Rightarrow> bool" where
  "no_rollups st \<longleftrightarrow> (\<forall>m. \<not> layer_has_rollup st m)"

lemma stored_walks:
  assumes "stored e st n l" "no_rollups st"
  shows "layer_is_ancestor_of st n a = Some (Inr (a \<in> set (stack_of l)))"
    "stack_names st n names = Some (Inr (rev (tl (stack_of l)) @ names))"
    "stack_names_upto st a n names = Some (if a \<in> set (tl (stack_of l))
      then Inr (rev (takeWhile (\<lambda>x. x \<noteq> a) (tl (stack_of l))) @ names) else Inl NotFound)"
  using assms
proof (induction arbitrary: names rule: stored.induct)
  case (base n l)
  have ls: "layers_from l = [l]" and nm: "InternalLayer_name l = n"
    using load_from_files_name(1) [OF base.hyps(4)] by (simp_all add: layers_from_Cons [of l])
  {
    case 1 then show ?case using base.hyps ls nm by (subst layer_is_ancestor_of.simps) simp
  next
    case 2 then show ?case using base.hyps ls by (subst stack_names.simps) simp
  next
    case 3 then show ?case using base.hyps ls by (subst stack_names_upto.simps) simp
  }
next
  case (child n p lp l)
  have ls: "layers_from l = l # layers_from lp" and nm: "InternalLayer_name l = n"
    using load_from_files_name(2) [OF child.hyps(6)] by (simp_all add: layers_from_Cons [of l])
  have lsp: "stack_of lp = p # tl (stack_of lp)" using stored_name [OF child.hyps(5)] by (simp add: layers_from_Cons [of lp])
  {
    case 1 then show ?case using child ls nm by (subst layer_is_ancestor_of.simps) simp
  next
    case 2
    have "rev (stack_of lp) = rev (tl (stack_of lp)) @ [p]" by (subst lsp) simp
    with 2 show ?case using child ls by (subst stack_names.simps) simp
  next
    case 3
    have "set (stack_of lp) = insert p (set (tl (stack_of lp)))" "takeWhile (\<lambda>x. x \<noteq> a) (stack_of lp) =
        (if p = a then [] else p # takeWhile (\<lambda>x. x \<noteq> a) (tl (stack_of lp)))" by (subst lsp, simp)+
    with 3 show ?case using child.hyps child.IH(3) ls by (subst stack_names_upto.simps) auto
  }
next
  case (rollup n r op lr l)
  {
    case 1 then show ?case using rollup.hyps(2) unfolding no_rollups_def by blast
  next
    case 2 then show ?case using rollup.hyps(2) unfolding no_rollups_def by blast
  next
    case 3 then show ?case using rollup.hyps(2) unfolding no_rollups_def by blast
  }
qed

lemma no_rollups_update: "no_rollups st \<Longrightarrow> fs (FILENAMES RollupFile) = None \<Longrightarrow> no_rollups (st(n \<mapsto> fs))"
  by (simp add: no_rollups_def has_rollup_of file_of_update)

lemma store_run_no_rollups: "store_run e so sz st B M \<Longrightarrow> no_rollups st"
proof (induction rule: store_run.induct)
  case start
  then show ?case by (simp add: no_rollups_def has_rollup_of file_of_def)
next
  case (base st B M n b st')
  then show ?case by (auto simp: create_base_layer_def MemoryLayerStore_create_named_directory_def intro: no_rollups_update)
next
  case (child st B M n p cache b st' new)
  then have st': "st' = st(n \<mapsto> [FILENAMES ParentFile \<mapsto> name_to_string p])"
    by (auto simp: create_child_layer_with_cache_def create_child_layer_files_with_cache_def try_bind_Inr_iff
        write_parent_file_def file_write_def MemoryLayerStore_create_named_directory_def split: option.splits)
  show ?case unfolding st' by (rule no_rollups_update [OF child.IH]) simp
next
  case (commit st B M n b st')
  then obtain maps fs where st': "st' = st(sb_name b \<mapsto> write_files (layer_contents maps) fs)" and fs: "st (sb_name b) = Some fs"
    by (auto simp: commit_boxed_def try_bind_Inr_iff split: option.splits)
  have "layer_contents maps RollupFile = None" by (cases maps) simp_all
  moreover note fs
  moreover have "file_of st (sb_name b) RollupFile = None" using commit.IH unfolding no_rollups_def has_rollup_of by blast
  ultimately have "write_files (layer_contents maps) fs (FILENAMES RollupFile) = None" by (simp add: write_files_of file_of_def)
  then show ?case unfolding st' by (rule no_rollups_update [OF commit.IH])
qed

section \<open>A small store\<close>

lemma env_std_order: "env_order env_std = byteorder_std"
  by (simp add: env_std_def)

text \<open>One base layer with one triple, committed into an empty store.\<close>

lemma sample_run:
  "\<exists>st M l. store_run env_std sorters_std 32 st Map.empty M \<and> M (1, 2, 3, 4, 5) = Some {sample_triple} \<and>
    st (5, 4, 3, 2, 1) = None \<and> stored env_std st (1, 2, 3, 4, 5) l \<and> committed env_std sorters_std 32 l {sample_triple} \<and>
    InternalLayer_node_and_value_count l \<le> 3 \<and> InternalLayer_predicate_count l \<le> 1"
proof -
  let ?n = "(1, 2, 3, 4, 5) :: layer_name" and ?st = "[(1, 2, 3, 4, 5) \<mapsto> Map.empty] :: MemoryLayerStore"
  have r1: "store_run env_std sorters_std 32 ?st [?n \<mapsto> SimpleLayerBuilder_new ?n] Map.empty"
    using store_run.base [OF store_run.start, where n = ?n]
    by (simp add: create_base_layer_def MemoryLayerStore_create_named_directory_def)
  have r2: "store_run env_std sorters_std 32 ?st [?n \<mapsto> sample_builder] Map.empty"
    using store_run.change [OF r1, where n = ?n and b' = sample_builder and t = sample_triple]
    by (simp add: sample_builder_def)
  have b: "sb_name sample_builder = ?n" "sb_parent sample_builder = None" "sb_added_count sample_builder = 1"
    by (simp_all add: sample_builder_def SimpleLayerBuilder_add_string_triple_def SimpleLayerBuilder_new_def sb_added_count_def)
  then have aw: "awaits env_std ?st sample_builder" by (simp add: awaits_def)
  obtain fs l where c: "commit_boxed env_std sorters_std 32 ?st sample_builder = Some (Inr (?st(?n \<mapsto> fs)))"
    "stored env_std (?st(?n \<mapsto> fs)) ?n l" "committed env_std sorters_std 32 l {sample_triple}"
    "InternalLayer_node_and_value_count l \<le> 3" "InternalLayer_predicate_count l \<le> 1"
    using std_env.commit_stored [OF sorters_std_ok sample_builder_ok(1) aw, of "{}" 32] sample_builder_ok(2-4) b
    by (auto simp: apply_changes_def parent_nv_def parent_pc_def)
  have "store_run env_std sorters_std 32 (?st(?n \<mapsto> fs)) Map.empty [?n \<mapsto> {sample_triple}]"
    using store_run.commit [OF r2 _ sample_builder_ok(1) c(1), of ?n] sample_builder_ok(2-4)
    by (simp add: parent_set_def apply_changes_def)
  with c show ?thesis by (intro exI [of _ "?st(?n \<mapsto> fs)"] exI [of _ "[?n \<mapsto> {sample_triple}]"] exI [of _ l]) simp
qed

section \<open>Properties\<close>

text \<open>
  C6. The layer store as a map from names to sets of string triples. Whatever builders were
  created, changed and committed before, and whatever a coherent cache holds, loading a
  committed layer by its name succeeds, with and without the cache, and gives the layer of that
  name. It has exactly the string triples that its commits have made, and the cache stays
  coherent.
\<close>

theorem store_layers:
  assumes "env_ok e" "sorters_ok so" "store_run e so sz st B M" "M n = Some S" "coherent e st cache"
  shows "\<exists>l cache'. CachedLayerStore_get_layer e st cache n = Some (Inr (Some l, cache')) \<and>
    get_layer e st n = Some (Inr (Some l)) \<and> InternalLayer_name l = n \<and> coherent e st cache' \<and>
    (\<forall>t. triple_strings_ok t \<longrightarrow> Layer_string_triple_exists (env_order e) sz l t = Some (t \<in> S))"
proof -
  have env: "build_env e" using assms(1) by unfold_locales
  obtain l where l: "stored e st n l" "committed e so sz l S"
    using layers_okD [OF conjunct1 [OF build_env.store_run_ok [OF env assms(2,3)]] assms(4)] by blast
  obtain new where "get_layer_with_cache e st cache n = Some (Inr (Some l, new))" "all_stored e st new"
    using get_layer_stored [OF l(1) assms(5)] by blast
  then show ?thesis
    using coherent_cached [OF assms(5)] get_layer_stored_eq [OF l(1)] stored_name [OF l(1)]
      build_env.committed_exists [OF env assms(2) l(2)]
    by (auto simp: CachedLayerStore_get_layer_def)
qed

theorem store_layers_witness:
  "\<exists>st l. get_layer env_std st (1, 2, 3, 4, 5) = Some (Inr (Some l)) \<and>
    Layer_string_triple_exists byteorder_std 32 l sample_triple = Some True"
proof -
  obtain st M where r: "store_run env_std sorters_std 32 st Map.empty M" "M (1, 2, 3, 4, 5) = Some {sample_triple}"
    using sample_run by blast
  from store_layers [OF env_std_ok sorters_std_ok r coherent_empty] sample_ok_triple show ?thesis
    unfolding env_std_order by (metis singletonI)
qed

text \<open>
  C7. Squashing a layer makes a base layer with the same string triples, in whatever order the
  threads visit them; it never fails within the sizes, and the new layer is in the store under
  the drawn name.
\<close>

theorem squash_keeps_triples:
  assumes "env_ok e" "sorters_ok so" "par_ok par" "committed e so sz l S" "5 * card S < 2 ^ 21"
    and "ss_layers ss n = None" "coherent e (ss_layers ss) (ss_cache ss)"
  shows "\<exists>l' ss'. StoreLayer_squash e so sz par ss l n = Some (Inr (l', ss')) \<and>
    InternalLayer_name l' = n \<and> InternalLayer_immediate_parent l' = None \<and> get_layer e (ss_layers ss') n = Some (Inr (Some l')) \<and>
    (\<forall>t. triple_strings_ok t \<longrightarrow> Layer_string_triple_exists (env_order e) sz l' t = Some (t \<in> S))"
proof -
  have env: "build_env e" using assms(1) by unfold_locales
  obtain ids f where v: "InternalLayer_triples (env_order e) l = Some ids"
    "\<forall>it\<in>set (par ids). Layer_id_triple_to_string (env_order e) sz l it = Some (Some (f it))"
    "distinct (map f (par ids))" "set (map f (par ids)) = S"
    by (rule build_env.committed_visit [OF env assms(2,4,3)])
  let ?ts = "map f (par ids)"
  define b where "b = (SimpleLayerBuilder_new n)\<lparr>sb_additions := ?ts\<rparr>"
  define ss1 where "ss1 = ss\<lparr>ss_layers := (ss_layers ss)(n \<mapsto> Map.empty)\<rparr>"
  define self where "self = \<lparr>slb_parent = None, slb_builder = Some b, slb_name = n\<rparr>"
  have sq: "StoreLayer_squash e so sz par ss l n = StoreLayerBuilder_commit e so sz ss1 self"
  proof -
    have "those (map (\<lambda>t. do { st \<leftarrow> Layer_id_triple_to_string (env_order e) sz l t; st }) (par ids)) = Some ?ts"
      using v(2) by (intro those_map_Some) simp
    then show ?thesis
      by (simp add: StoreLayer_squash_def StoreLayerBuilder_new_def create_base_layer_def SimpleLayerBuilder_new_def
          MemoryLayerStore_create_named_directory_def v(1) with_triples_add b_def ss1_def self_def)
  qed
  have "length ?ts = card S" using distinct_card [OF v(3)] v(4) by simp
  then have ok: "changes_ok e sz b"
    using assms(5) v(4) build_env.committed_triples_ok [OF env assms(2,4)]
    by (auto simp: changes_ok_def b_def SimpleLayerBuilder_new_def ids_known_def parent_nv_def parent_pc_def)
  have aw: "awaits e (ss_layers ss1) b" by (simp add: awaits_def b_def ss1_def SimpleLayerBuilder_new_def)
  have co: "coherent e (ss_layers ss1) (ss_cache ss1)"
    using coherent_update [OF assms(7) fresh_not_stored [of "ss_layers ss" n, OF assms(6)]] by (simp add: ss1_def)
  have "sb_parent b = None" "sb_name b = n" by (simp_all add: b_def SimpleLayerBuilder_new_def)
  moreover have "apply_changes {} (sb_added e sz b) (sb_removed e sz b) = S"
    using v(4) by (simp add: apply_changes_def sb_added_def sb_removed_def changed_def b_def SimpleLayerBuilder_new_def)
  ultimately obtain l' ss' where c: "StoreLayerBuilder_commit e so sz ss1 self = Some (Inr (l', ss'))"
    "stored e (ss_layers ss') n l'" "InternalLayer_immediate_parent l' = None" "committed e so sz l' S"
    using build_env.store_builder_commit [OF env assms(2) ok aw co, of "{}" self] by (auto simp: self_def)
  show ?thesis
    using c sq stored_name [OF c(2)] get_layer_stored_eq [OF c(2)] build_env.committed_exists [OF env assms(2) c(4)] by auto
qed

theorem squash_keeps_triples_witness:
  "\<exists>l l' ss'. StoreLayer_squash env_std sorters_std 32 rev open_memory_store l (5, 4, 3, 2, 1) = Some (Inr (l', ss')) \<and>
    Layer_string_triple_exists byteorder_std 32 l' sample_triple = Some True"
proof -
  obtain l where l: "committed env_std sorters_std 32 l {sample_triple}" using sample_committed by blast
  have "par_ok rev" by (simp add: par_ok_def)
  moreover have "ss_layers open_memory_store (5, 4, 3, 2, 1) = None"
    "coherent env_std (ss_layers open_memory_store) (ss_cache open_memory_store)"
    by (simp_all add: open_memory_store_def coherent_empty)
  ultimately show ?thesis
    using squash_keeps_triples [OF env_std_ok sorters_std_ok _ l, of rev open_memory_store "(5, 4, 3, 2, 1)"] sample_ok_triple
    unfolding env_std_order by fastforce
qed

text \<open>
  C8. Applying a difference: a builder on a committed layer of the store, to which the
  difference to another committed layer is applied, commits to a layer that has the string
  triples of the other one, in whatever order the threads visit the triples.
\<close>

theorem apply_diff_reaches:
  assumes "env_ok e" "sorters_ok so" "par_ok par"
    and stored: "stored e (ss_layers ss) p this_layer" and com: "committed e so sz this_layer Sp"
    and other: "committed e so sz other So"
    and st: "ss_layers ss n = None" "coherent e (ss_layers ss) (ss_cache ss)"
    and sizes: "InternalLayer_node_and_value_count this_layer + 5 * card So + 2 * card Sp < 2 ^ 21"
      "InternalLayer_predicate_count this_layer + card So < 2 ^ 21"
  shows "\<exists>self ss1 self' l ss'. StoreLayer_open_write e ss this_layer n = Some (Inr (self, ss1)) \<and>
    StoreLayerBuilder_apply_diff e sz par self other = Some self' \<and>
    StoreLayerBuilder_commit e so sz ss1 self' = Some (Inr (l, ss')) \<and>
    InternalLayer_name l = n \<and> InternalLayer_immediate_parent l = Some this_layer \<and>
    (\<forall>t. triple_strings_ok t \<longrightarrow> Layer_string_triple_exists (env_order e) sz l t = Some (t \<in> So))"
proof -
  have env: "build_env e" using assms(1) by unfold_locales
  let ?b0 = "SimpleLayerBuilder_from_parent n this_layer"
  let ?self = "StoreLayerBuilder_wrap ?b0"
  obtain ss1 where ss1: "StoreLayer_open_write e ss this_layer n = Some (Inr (?self, ss1))"
    "ss_layers ss1 n = Some [FILENAMES ParentFile \<mapsto> name_to_string p]" "stored e (ss_layers ss1) p this_layer"
    "coherent e (ss_layers ss1) (ss_cache ss1)"
    using build_env.open_write_stored [OF env stored st] by blast
  obtain as rs where ad: "StoreLayerBuilder_apply_diff e sz par ?self other =
      Some (?self\<lparr>slb_builder := Some (?b0\<lparr>sb_additions := as, sb_removals := rs\<rparr>)\<rparr>)"
    "set as = So - Sp" "set rs = Sp - So" "length as \<le> card So" "length rs \<le> card Sp"
    using build_env.apply_diff_changes [OF env assms(2,3) com other, of ?self ?b0]
    by (auto simp: StoreLayerBuilder_wrap_def SimpleLayerBuilder_from_parent_def)
  define b where "b = ?b0\<lparr>sb_additions := as, sb_removals := rs\<rparr>"
  have b: "sb_parent b = Some this_layer" "sb_name b = n" "sb_additions b = as" "sb_removals b = rs"
    "sb_id_additions b = []" "sb_id_removals b = []"
    by (simp_all add: b_def SimpleLayerBuilder_from_parent_def)
  have ok: "changes_ok e sz b"
    using sizes ad(2-5) build_env.committed_triples_ok [OF env assms(2) com] build_env.committed_triples_ok [OF env assms(2) other]
    by (auto simp: changes_ok_def b ids_known_def parent_nv_def parent_pc_def)
  have aw: "awaits e (ss_layers ss1) b" using ss1(2,3) by (intro awaits_parentI [of b this_layer]) (simp_all add: b)
  have "apply_changes Sp (sb_added e sz b) (sb_removed e sz b) = So"
    using ad(2,3) by (auto simp: apply_changes_def sb_added_def sb_removed_def changed_def b)
  then obtain l ss' where c: "StoreLayerBuilder_commit e so sz ss1 (?self\<lparr>slb_builder := Some b\<rparr>) = Some (Inr (l, ss'))"
    "stored e (ss_layers ss') n l" "InternalLayer_immediate_parent l = Some this_layer" "committed e so sz l So"
    using build_env.store_builder_commit [OF env assms(2) ok aw ss1(4), of Sp "?self\<lparr>slb_builder := Some b\<rparr>"] com
    by (auto simp: b StoreLayerBuilder_wrap_def SimpleLayerBuilder_from_parent_def)
  then show ?thesis
    using ss1(1) ad(1) stored_name [OF c(2)] build_env.committed_exists [OF env assms(2) c(4)] unfolding b_def by blast
qed

theorem apply_diff_reaches_witness:
  "\<exists>(ss :: MemoryLabelStore StoreState) this_layer self ss1 self' l ss'.
    StoreLayer_open_write env_std ss this_layer (5, 4, 3, 2, 1) = Some (Inr (self, ss1)) \<and>
    StoreLayerBuilder_apply_diff env_std 32 rev self this_layer = Some self' \<and>
    StoreLayerBuilder_commit env_std sorters_std 32 ss1 self' = Some (Inr (l, ss')) \<and>
    Layer_string_triple_exists byteorder_std 32 l sample_triple = Some True"
proof -
  obtain st l where l: "st (5, 4, 3, 2, 1) = None" "stored env_std st (1, 2, 3, 4, 5) l"
    "committed env_std sorters_std 32 l {sample_triple}"
    "InternalLayer_node_and_value_count l \<le> 3" "InternalLayer_predicate_count l \<le> 1" using sample_run by blast
  have "par_ok rev" by (simp add: par_ok_def)
  moreover let ?ss = "open_memory_store\<lparr>ss_layers := st\<rparr>"
  have "coherent env_std (ss_layers ?ss) (ss_cache ?ss)" by (simp add: open_memory_store_def coherent_empty)
  ultimately show ?thesis
    using apply_diff_reaches [OF env_std_ok sorters_std_ok _ _ l(3,3), of rev ?ss "(1, 2, 3, 4, 5)" "(5, 4, 3, 2, 1)"] l sample_ok_triple
    unfolding env_std_order by fastforce
qed

text \<open>
  C9. The walks along the parent files end. For a committed layer of a run, asking whether a
  name is an ancestor, listing the names of the stack, and listing them up to a name all
  return, and their answers are those of the loaded stack: the first is whether a layer of the
  stack has the name, the second are the names from the base layer upward, and the third are
  the names above the given one, or \<open>NotFound\<close> when no proper ancestor has it.
\<close>

theorem parent_walks_end:
  assumes "env_ok e" "sorters_ok so" "store_run e so sz st B M" "M n = Some S"
  shows "\<exists>l. get_layer e st n = Some (Inr (Some l)) \<and>
    layer_is_ancestor_of st n a = Some (Inr (a \<in> InternalLayer_name ` set (layers_from l))) \<and>
    retrieve_layer_stack_names st n = Some (Inr (rev (map InternalLayer_name (layers_from l)))) \<and>
    retrieve_layer_stack_names_upto st n a =
      Some (if a \<in> set (tl (map InternalLayer_name (layers_from l)))
            then Inr (rev (n # takeWhile (\<lambda>x. x \<noteq> a) (tl (map InternalLayer_name (layers_from l)))))
            else Inl NotFound)"
proof -
  have env: "build_env e" using assms(1) by unfold_locales
  obtain l where l: "stored e st n l"
    using layers_okD [OF conjunct1 [OF build_env.store_run_ok [OF env assms(2,3)]] assms(4)] by blast
  have "stack_of l = n # tl (stack_of l)" using stored_name [OF l] by (simp add: layers_from_Cons [of l])
  then have "rev (stack_of l) = rev (tl (stack_of l)) @ [n]" by (metis rev.simps(2))
  then show ?thesis
    using stored_walks [OF l store_run_no_rollups [OF assms(3)]] get_layer_stored_eq [OF l]
    by (simp add: retrieve_layer_stack_names_def retrieve_layer_stack_names_upto_def)
qed

theorem parent_walks_end_witness:
  "\<exists>st l. layer_is_ancestor_of st (1, 2, 3, 4, 5) (5, 4, 3, 2, 1) =
      Some (Inr ((5, 4, 3, 2, 1) \<in> InternalLayer_name ` set (layers_from l)))"
proof -
  obtain st M where r: "store_run env_std sorters_std 32 st Map.empty M" "M (1, 2, 3, 4, 5) = Some {sample_triple}"
    using sample_run by blast
  from parent_walks_end [OF env_std_ok sorters_std_ok r] show ?thesis by blast
qed

end
