(* ===== verification/NamedGraphs.thy ===== *)
theory NamedGraphs
  imports Store
begin

text \<open>
  Several processes that move the heads of named graphs at the same time. Each of them reads a
  label, checks the ancestry of its layer, and later writes the label; the steps of the
  processes interleave in any way. The lemmas are proved over the interface \<open>label_store\<close> and
  hold for the labels in memory and in a directory.
\<close>

section \<open>Interleaved calls of set\_head\<close>

text \<open>
  What each process \<open>c\<close> has read: the label, whether the layer may become the head, and the
  layer. Labels may also be created meanwhile; \<open>ok\<close> are the names that are used.
\<close>

type_synonym pending = "nat \<rightharpoonup> (Label \<times> bool) \<times> layer_name"

inductive graph_step ::
  "'s LabelStore \<Rightarrow> (bytes \<Rightarrow> bool) \<Rightarrow> (layer_name \<Rightarrow> layer_name \<Rightarrow> bool io_result) \<Rightarrow> 's \<times> pending \<Rightarrow> 's \<times> pending \<Rightarrow> bool"
  for ops ok anc where
  read: "ok name \<Longrightarrow> set_head_read ops anc s name l = Some (Inr found) \<Longrightarrow>
    graph_step ops ok anc (s, p) (s, p(c \<mapsto> (found, l)))"
| put: "p c = Some (found, l) \<Longrightarrow> set_head_write ops s found l = Some (Inr (r, s')) \<Longrightarrow>
    graph_step ops ok anc (s, p) (s', p(c := None))"
| new: "ok name \<Longrightarrow> ls_create_label ops s name = Some (Inr (label, s')) \<Longrightarrow> graph_step ops ok anc (s, p) (s', p)"

inductive_cases graph_stepE: "graph_step ops ok anc (s, p) (s', p')"

lemmas graph_step_cases = graph_stepE [consumes 1, case_names read put new]

inductive graph_run ::
  "'s LabelStore \<Rightarrow> (bytes \<Rightarrow> bool) \<Rightarrow> (layer_name \<Rightarrow> layer_name \<Rightarrow> bool io_result) \<Rightarrow> 's \<Rightarrow> nat \<Rightarrow> 's \<times> pending \<Rightarrow> bool"
  for ops ok anc s0 where
  start: "graph_run ops ok anc s0 0 (s0, Map.empty)"
| step: "graph_run ops ok anc s0 k w \<Longrightarrow> graph_step ops ok anc w w' \<Longrightarrow> graph_run ops ok anc s0 (Suc k) w'"

text \<open>A label that was moved: the new layer is a descendant of the old one.\<close>

definition moved :: "(layer_name \<Rightarrow> layer_name \<Rightarrow> bool io_result) \<Rightarrow> Label \<Rightarrow> Label \<Rightarrow> bool" where
  "moved anc l l' \<longleftrightarrow> lb_version l' = lb_version l + 1 \<and> (\<exists>y. lb_layer l' = Some y \<and>
    (\<forall>x. lb_layer l = Some x \<longrightarrow> anc y x = Some (Inr True)))"

lemma movedI:
  "(\<And>x. lb_layer l = Some x \<Longrightarrow> anc y x = Some (Inr True)) \<Longrightarrow> moved anc l (Label_with_updated_layer l (Some y))"
  unfolding moved_def with_updated_layer_simps by blast

text \<open>
  The labels \<open>H\<close> that a name has had, with versions that count up from the first one; what the
  processes have read are labels of the history, checked against their layers.
\<close>

definition counts_up :: "Label list \<Rightarrow> bool" where
  "counts_up h \<longleftrightarrow> (\<forall>i<length h. lb_version (h ! i) = lb_version (hd h) + of_nat i)"

definition history_of :: "('s \<Rightarrow> bytes \<Rightarrow> Label option) \<Rightarrow> 's \<Rightarrow> nat \<Rightarrow> (bytes \<Rightarrow> Label list) \<Rightarrow> bool" where
  "history_of lookup s k H \<longleftrightarrow> (\<forall>n. length (H n) \<le> Suc k \<and> lookup s n = (if H n = [] then None else Some (last (H n))) \<and>
    counts_up (H n))"

definition pending_ok ::
  "(bytes \<Rightarrow> bool) \<Rightarrow> (layer_name \<Rightarrow> layer_name \<Rightarrow> bool io_result) \<Rightarrow> (bytes \<Rightarrow> Label list) \<Rightarrow> pending \<Rightarrow> bool" where
  "pending_ok ok anc H p \<longleftrightarrow> (\<forall>c label b l. p c = Some ((label, b), l) \<longrightarrow> ok (lb_name label) \<and> label \<in> set (H (lb_name label)) \<and>
    (b \<longrightarrow> (\<forall>x. lb_layer label = Some x \<longrightarrow> anc l x = Some (Inr True))))"

lemma counts_upD: "counts_up h \<Longrightarrow> i < length h \<Longrightarrow> lb_version (h ! i) = lb_version (hd h) + of_nat i"
  by (simp add: counts_up_def)

lemma counts_up_snoc:
  assumes "counts_up h" "h = [] \<or> lb_version l = lb_version (last h) + 1"
  shows "counts_up (h @ [l])"
proof (cases "h = []")
  case False
  then have "lb_version (last h) = lb_version (hd h) + of_nat (length h - 1)"
    using counts_upD [OF assms(1), of "length h - 1"] by (simp add: last_conv_nth)
  moreover have "of_nat (length h) = (of_nat (length h - 1) :: u64) + 1"
    using False by (metis add.commute length_greater_0_conv of_nat_Suc Suc_diff_1)
  ultimately have "lb_version l = lb_version (hd h) + of_nat (length h)" using assms(2) False by simp
  then show ?thesis
    using False counts_upD [OF assms(1)] unfolding counts_up_def by (auto simp: nth_append less_Suc_eq)
qed (simp add: counts_up_def)

lemma history_lookup: "history_of lookup s k H \<Longrightarrow> lookup s n = Some l \<Longrightarrow> H n \<noteq> [] \<and> l = last (H n) \<and> l \<in> set (H n)"
  unfolding history_of_def by (metis last_in_set option.distinct(1) option.inject)

lemma history_grow:
  assumes "history_of lookup s k H" "lookup s' = (lookup s)(n \<mapsto> l)" "H n = [] \<or> lb_version l = lb_version (last (H n)) + 1"
  shows "history_of lookup s' (Suc k) (H(n := H n @ [l]))"
  using assms counts_up_snoc [of "H n" l] by (simp add: history_of_def le_SucI)

lemma set_head_read_Inr:
  assumes "ls_get_label ops s name = Some (Inr lk)"
  shows "set_head_read ops anc s name l = Some (Inr (label, b)) \<longleftrightarrow>
    lk = Some label \<and> (case lb_layer label of None \<Rightarrow> b | Some x \<Rightarrow> anc l x = Some (Inr b))"
  using assms by (cases lk) (auto simp: set_head_read_def try_bind_Inr_iff split: option.splits)

context label_store
begin

lemma set_label_history:
  assumes h: "history_of lookup s k H" "inv s" "Suc k < 2 ^ 64"
    and l: "label \<in> set (H (lb_name label))" "name_ok (lb_name label)"
    and set: "LabelStore_set_label ops s label x = Some (Inr (r, s'))"
  shows "inv s' \<and> (lookup s' = lookup s \<or> label = last (H (lb_name label)) \<and>
    lookup s' = (lookup s)(lb_name label \<mapsto> Label_with_updated_layer label (Some x)))"
proof -
  let ?h = "H (lb_name label)"
  have cur: "lookup s (lb_name label) = Some (last ?h)" using h(1) l(1) by (auto simp: history_of_def)
  show ?thesis
  proof (cases "lb_version (last ?h) = lb_version label")
    case False
    then show ?thesis using set_stale [OF h(2) l(2) cur False] set h(2) by (simp add: LabelStore_set_label_def)
  next
    case True
    obtain i where i: "i < length ?h" "label = ?h ! i" using l(1) by (auto simp: in_set_conv_nth)
    have len: "length ?h \<le> Suc k" using h(1) by (simp add: history_of_def)
    have ne: "?h \<noteq> []" using l(1) by auto
    then have last: "last ?h = ?h ! (length ?h - 1)" by (simp add: last_conv_nth)
    have "counts_up ?h" using h(1) by (simp add: history_of_def)
    from counts_upD [OF this] have "lb_version (?h ! (length ?h - 1)) = lb_version (hd ?h) + of_nat (length ?h - 1)"
      "lb_version (?h ! i) = lb_version (hd ?h) + of_nat i" using i(1) by simp_all
    then have "of_nat (length ?h - 1) = (of_nat i :: u64)" using True i(2) last by simp
    moreover have "length ?h - 1 < 2 ^ 64" "i < 2 ^ 64" using len h(3) i(1) by linarith+
    ultimately have "length ?h - 1 = i" by (metis unat_of_nat_u64)
    then have eq: "label = last ?h" using i(2) last by simp
    have cur': "lookup s (lb_name label) = Some label" using cur eq by simp
    from set_current [OF h(2) l(2) cur', of "Some x"] set eq show ?thesis by (auto simp: LabelStore_set_label_def)
  qed
qed

lemma graph_step_ok:
  assumes h: "history_of lookup s k H" "inv s" "Suc k < 2 ^ 64" "pending_ok name_ok anc H p"
    and step: "graph_step ops name_ok anc (s, p) (s', p')"
  shows "\<exists>H'. history_of lookup s' (Suc k) H' \<and> inv s' \<and> pending_ok name_ok anc H' p' \<and>
    (\<forall>n l. lookup s n = Some l \<longrightarrow> (\<exists>l'. lookup s' n = Some l' \<and> (l' = l \<or> moved anc l l')))"
  using step
proof (cases rule: graph_step_cases)
  case (read name l found c)
  obtain label b where f: "found = (label, b)" by fastforce
  have "set_head_read ops anc s name l = Some (Inr (label, b))" using read(1,4) f by simp
  then have "lookup s name = Some label" "b \<longrightarrow> (\<forall>x. lb_layer label = Some x \<longrightarrow> anc l x = Some (Inr True))"
    unfolding set_head_read_Inr [OF get_label [OF h(2) read(3)]] by (auto split: option.splits)
  moreover from this have "lb_name label = name" using lookup_name [OF h(2)] by blast
  moreover from this calculation(1) have "label \<in> set (H (lb_name label))" using history_lookup [OF h(1)] by simp
  ultimately have "pending_ok name_ok anc H p'"
    using h(4) read(2,3) f unfolding pending_ok_def by (auto split: if_splits)
  moreover have "history_of lookup s (Suc k) H" using h(1) by (auto simp: history_of_def le_SucI)
  ultimately show ?thesis using h(2) read(1) by auto
next
  case (put c found l r)
  obtain label b where f: "found = (label, b)" by fastforce
  have pl: "name_ok (lb_name label)" "label \<in> set (H (lb_name label))"
    "b \<longrightarrow> (\<forall>x. lb_layer label = Some x \<longrightarrow> anc l x = Some (Inr True))"
    using h(4) put(2) f unfolding pending_ok_def by blast+
  have po: "pending_ok name_ok anc H' p'" if "\<forall>n. set (H n) \<subseteq> set (H' n)" for H'
    using h(4) that put(1) unfolding pending_ok_def by (auto split: if_splits) blast
  have same: ?thesis if "lookup s' = lookup s" "inv s'"
    using h(1) that po [of H] by (intro exI [of _ H]) (auto simp: history_of_def le_SucI)
  show ?thesis
  proof (cases b)
    case False
    then have "s' = s" using put(3) f by (simp add: set_head_write_def)
    then show ?thesis using same h(2) by simp
  next
    case True
    then obtain r' where "LabelStore_set_label ops s label l = Some (Inr (r', s'))"
      using put(3) f by (cases "LabelStore_set_label ops s label l")
        (auto simp: set_head_write_def try_bind_def split: sum.splits)
    from set_label_history [OF h(1-3) pl(2,1) this] consider (keep) "lookup s' = lookup s" "inv s'"
      | (set) "inv s'" "label = last (H (lb_name label))"
          "lookup s' = (lookup s)(lb_name label \<mapsto> Label_with_updated_layer label (Some l))" by blast
    then show ?thesis
    proof cases
      case keep
      then show ?thesis by (rule same)
    next
      case set
      let ?l = "Label_with_updated_layer label (Some l)"
      have "history_of lookup s' (Suc k) (H(lb_name label := H (lb_name label) @ [?l]))"
        using set(2) by (intro history_grow [OF h(1) set(3)]) simp
      note grown = this
      have "lookup s (lb_name label) = Some label" using h(1) pl(2) set(2) by (auto simp: history_of_def)
      moreover have "moved anc label ?l" by (rule movedI) (use pl(3) True in blast)
      ultimately have "\<forall>n l'. lookup s n = Some l' \<longrightarrow> (\<exists>l''. lookup s' n = Some l'' \<and> (l'' = l' \<or> moved anc l' l''))"
        using set(3) by auto
      moreover have "pending_ok name_ok anc (H(lb_name label := H (lb_name label) @ [?l])) p'" by (rule po) auto
      ultimately show ?thesis using grown set(1) by blast
    qed
  qed
next
  case (new name label)
  have none: "lookup s name = None" using new(2,3) create_existing [OF h(2) new(2)] by (cases "lookup s name") auto
  from create_new [OF h(2) new(2) none] new(3) have s': "inv s'" "lookup s' = (lookup s)(name \<mapsto> Label_new_empty name)" by auto
  have "H name = []" using none h(1) by (auto simp: history_of_def split: if_splits)
  then have "history_of lookup s' (Suc k) (H(name := H name @ [Label_new_empty name]))"
    by (intro history_grow [OF h(1) s'(2)]) simp
  moreover have "pending_ok name_ok anc (H(name := H name @ [Label_new_empty name])) p'"
    using h(4) new(1) unfolding pending_ok_def by auto
  moreover have "\<forall>n l. lookup s n = Some l \<longrightarrow> lookup s' n = Some l" using s'(2) none by auto
  ultimately show ?thesis using s'(1) by blast
qed

lemma graph_run_ok:
  assumes "inv s0"
  shows "graph_run ops name_ok anc s0 k w \<Longrightarrow> k < 2 ^ 64 \<Longrightarrow>
    \<exists>H. history_of lookup (fst w) k H \<and> inv (fst w) \<and> pending_ok name_ok anc H (snd w)"
proof (induction rule: graph_run.induct)
  case start
  let ?H = "\<lambda>n. case lookup s0 n of None \<Rightarrow> [] | Some l \<Rightarrow> [l]"
  have "history_of lookup s0 0 ?H" by (auto simp: history_of_def counts_up_def split: option.splits)
  then show ?case using assms by (intro exI [of _ ?H]) (simp add: pending_ok_def)
next
  case (step k w w')
  then obtain H where "history_of lookup (fst w) k H" "inv (fst w)" "pending_ok name_ok anc H (snd w)" by auto
  from graph_step_ok [OF this(1,2) step.prems this(3), of "fst w'" "snd w'"] step.hyps(2) show ?case by auto
qed

lemma heads_move_down:
  assumes "inv s0" "graph_run ops name_ok anc s0 k (s, p)" "Suc k < 2 ^ 64"
    "graph_step ops name_ok anc (s, p) (s', p')" "lookup s n = Some l"
  shows "\<exists>l'. lookup s' n = Some l' \<and> (l' = l \<or> moved anc l l')"
proof -
  obtain H where "history_of lookup s k H" "inv s" "pending_ok name_ok anc H p"
    using graph_run_ok [OF assms(1,2)] assms(3) by auto
  from graph_step_ok [OF this(1,2) assms(3) this(3) assms(4)] assms(5) show ?thesis by blast
qed

text \<open>Two processes that have read the same label: both are told that the head was set.\<close>

lemma second_write_lost:
  assumes s: "inv s" "name_ok n" "lookup s n = Some l"
    and anc: "\<And>x. lb_layer l = Some x \<Longrightarrow> anc a x = Some (Inr True) \<and> anc b x = Some (Inr True)"
  shows "\<exists>s'. set_head_read ops anc s n a = Some (Inr (l, True)) \<and> set_head_read ops anc s n b = Some (Inr (l, True)) \<and>
    set_head_write ops s (l, True) a = Some (Inr (True, s')) \<and> set_head_write ops s' (l, True) b = Some (Inr (True, s')) \<and>
    ls_get_label ops s' n = Some (Inr (Some (Label_with_updated_layer l (Some a))))"
proof -
  have n: "lb_name l = n" using lookup_name [OF s(1,3)] .
  have r: "set_head_read ops anc s n x = Some (Inr (l, True))" if "x = a \<or> x = b" for x
    unfolding set_head_read_Inr [OF get_label [OF s(1,2)]] using s(3) anc that by (auto split: option.split)
  from set_label_once [of s l "Some a" "Some b"] s n obtain s' where
    "ls_set_label_option ops s l (Some a) = Some (Inr (Some (Label_with_updated_layer l (Some a)), s'))"
    "ls_get_label ops s' n = Some (Inr (Some (Label_with_updated_layer l (Some a))))"
    "ls_set_label_option ops s' l (Some b) = Some (Inr (None, s'))" by auto
  then have "set_head_write ops s (l, True) a = Some (Inr (True, s'))" "set_head_write ops s' (l, True) b = Some (Inr (True, s'))"
    "ls_get_label ops s' n = Some (Inr (Some (Label_with_updated_layer l (Some a))))"
    by (simp_all add: set_head_write_def LabelStore_set_label_def try_bind_def)
  with r show ?thesis by blast
qed

end

section \<open>Properties\<close>

text \<open>The runs of the witnesses: a graph is created and one process moves its head twice.\<close>

abbreviation graph_name :: bytes where
  "graph_name \<equiv> [103]"

abbreviation first_head :: layer_name where
  "first_head \<equiv> (0, 0, 0, 0, 1)"

abbreviation second_head :: layer_name where
  "second_head \<equiv> (0, 0, 0, 0, 2)"

abbreviation ancestor_or_same :: "layer_name \<Rightarrow> layer_name \<Rightarrow> bool io_result" where
  "ancestor_or_same \<equiv> \<lambda>x y. Some (Inr (x = y \<or> x = second_head \<and> y = first_head))"

text \<open>
  C10. With the labels in memory, heads only move down the tree of layers. Whatever processes
  read labels, check the ancestry of their layers, write labels and create graphs, interleaved
  in any order from any store, every step of at most \<open>2 ^ 64\<close> leaves the label of a name as it
  is or sets it to a layer of which the previous head is an ancestor, with the next version: an
  update whose check was done on an older head is never carried out.
\<close>

theorem memory_heads_follow_ancestors:
  assumes "memory_labels_ok s0" "graph_run memory_label_store (\<lambda>_. True) anc s0 k (s, p)" "Suc k < 2 ^ 64"
    "graph_step memory_label_store (\<lambda>_. True) anc (s, p) (s', p')" "map_of s n = Some l"
  shows "\<exists>l'. map_of s' n = Some l' \<and> (l' = l \<or> lb_version l' = lb_version l + 1 \<and> (\<exists>y. lb_layer l' = Some y \<and>
    (\<forall>x. lb_layer l = Some x \<longrightarrow> anc y x = Some (Inr True))))"
  using memory_labels.heads_move_down [OF assms] unfolding moved_def .

theorem memory_heads_follow_ancestors_witness:
  "\<exists>l'. map_of [(graph_name, Label_with_updated_layer (Label_new graph_name first_head) (Some second_head))] graph_name = Some l' \<and>
    (l' = Label_new graph_name first_head \<or> lb_version l' = lb_version (Label_new graph_name first_head) + 1 \<and>
      (\<exists>y. lb_layer l' = Some y \<and> ancestor_or_same y first_head = Some (Inr True)))"
proof -
  let ?l = "Label_new graph_name first_head" and ?l' = "Label_with_updated_layer (Label_new graph_name first_head) (Some second_head)"
  let ?p = "[0 \<mapsto> ((?l, True), second_head)] :: pending"
  have ok: "memory_labels_ok [(graph_name, ?l)]" by (simp add: memory_labels_ok_def Label_new_def)
  have "graph_step memory_label_store (\<lambda>_. True) ancestor_or_same ([(graph_name, ?l)], Map.empty) ([(graph_name, ?l)], ?p)"
    by (intro graph_step.read [of _ graph_name]) (simp_all add: set_head_read_def memory_label_defs Label_new_def try_bind_def)
  from graph_run.step [OF graph_run.start this]
  have run: "graph_run memory_label_store (\<lambda>_. True) ancestor_or_same [(graph_name, ?l)] 1 ([(graph_name, ?l)], ?p)" by simp
  have "graph_step memory_label_store (\<lambda>_. True) ancestor_or_same ([(graph_name, ?l)], ?p) ([(graph_name, ?l')], ?p(0 := None))"
    by (intro graph_step.put [of _ _ "(?l, True)" second_head _ _ True])
      (simp_all add: set_head_write_def LabelStore_set_label_def memory_label_defs Label_new_def Label_with_updated_layer_def try_bind_def Let_def)
  from memory_heads_follow_ancestors [OF ok run _ this, of graph_name ?l] show ?thesis by (simp add: Label_new_def)
qed

text \<open>
  C11. With the labels in the files of a directory, heads only move down the tree of layers: the
  same as in memory, with each label written to its file as decimal version and hexadecimal
  layer name and parsed back by the next reader.
\<close>

theorem directory_heads_follow_ancestors:
  assumes "directory_labels_ok s0" "graph_run directory_label_store label_name_ok anc s0 k (s, p)" "Suc k < 2 ^ 64"
    "graph_step directory_label_store label_name_ok anc (s, p) (s', p')" "label_name_ok n"
    "DirectoryLabelStore_get_label s n = Some (Inr (Some l))"
  shows "\<exists>l'. DirectoryLabelStore_get_label s' n = Some (Inr (Some l')) \<and>
    (l' = l \<or> lb_version l' = lb_version l + 1 \<and> (\<exists>y. lb_layer l' = Some y \<and>
      (\<forall>x. lb_layer l = Some x \<longrightarrow> anc y x = Some (Inr True))))"
proof -
  have inv: "directory_labels_ok s" "directory_labels_ok s'"
    using directory_labels.graph_run_ok [OF assms(1,2)] directory_labels.graph_run_ok [OF assms(1) graph_run.step [OF assms(2,4)]]
      assms(3) by auto
  have get: "DirectoryLabelStore_get_label x n = Some (Inr (directory_lookup x n))" if "directory_labels_ok x" for x
    using directory_labels.get_label [OF that assms(5)] by (simp add: directory_label_store_def)
  then have "directory_lookup s n = Some l" using inv(1) assms(6) by simp
  from directory_labels.heads_move_down [OF assms(1-4) this] show ?thesis
    using get [OF inv(2)] unfolding moved_def by simp
qed

theorem directory_heads_follow_ancestors_witness:
  "\<exists>l'. DirectoryLabelStore_get_label
      [(graph_name @ dot_label, label_contents (Label_with_updated_layer (Label_new graph_name first_head) (Some second_head)))] graph_name =
      Some (Inr (Some l')) \<and>
    (l' = Label_new graph_name first_head \<or> lb_version l' = lb_version (Label_new graph_name first_head) + 1 \<and>
      (\<exists>y. lb_layer l' = Some y \<and> ancestor_or_same y first_head = Some (Inr True)))"
proof -
  let ?l = "Label_new graph_name first_head" and ?l' = "Label_with_updated_layer (Label_new graph_name first_head) (Some second_head)"
  let ?p = "[0 \<mapsto> ((?l, True), second_head)] :: pending"
  let ?s = "[(graph_name @ dot_label, label_contents ?l)]" and ?s' = "[(graph_name @ dot_label, label_contents ?l')]"
  have n: "label_name_ok graph_name" by (simp add: label_name_ok_def)
  have l: "lb_name ?l = graph_name" "lb_layer ?l = Some first_head" by (simp_all add: Label_new_def)
  have d: "get_label_from_data graph_name (label_contents ?l) = Some (Inr ?l)" by (rule get_label_contents [OF l(1)])
  then have f: "get_label_from_file ?s (graph_name @ dot_label) = Some (Inr ?l)"
    using file_stem_label [OF n] by (simp add: get_label_from_file_def)
  have ok: "directory_labels_ok ?s"
    using directory_update(1) [of "[]", OF _ n d] by (simp add: directory_labels_ok_def)
  have g: "DirectoryLabelStore_get_label ?s graph_name = Some (Inr (Some ?l))"
    using f by (simp add: DirectoryLabelStore_get_label_def)
  then have "set_head_read directory_label_store ancestor_or_same ?s graph_name second_head = Some (Inr (?l, True))"
    by (simp add: set_head_read_def directory_label_store_def l try_bind_def)
  from graph_run.step [OF graph_run.start graph_step.read [where p = Map.empty and c = 0 and name = graph_name and ok = label_name_ok, OF n this]]
  have run: "graph_run directory_label_store label_name_ok ancestor_or_same ?s 1 (?s, ?p)" by simp
  have "set_head_write directory_label_store ?s (?l, True) second_head = Some (Inr (True, ?s'))"
    using f by (simp add: set_head_write_def LabelStore_set_label_def directory_label_store_def
        DirectoryLabelStore_set_label_option_def l try_bind_def Let_def)
  from graph_step.put [where p = ?p and c = 0 and found = "(?l, True)" and l = second_head, OF _ this]
  have "graph_step directory_label_store label_name_ok ancestor_or_same (?s, ?p) (?s', ?p(0 := None))" by simp
  from directory_heads_follow_ancestors [OF ok run _ this n g] show ?thesis by (simp add: l)
qed

text \<open>
  C12. \<open>set_head\<close> returns true although another process has won: two processes that read the
  same label and whose layers both descend from its head both get true, but only the layer of
  the first write is the head, and the second write changes nothing.
\<close>

theorem set_head_lost_update:
  assumes "memory_labels_ok s" "map_of s n = Some l"
    and "\<And>x. lb_layer l = Some x \<Longrightarrow> anc a x = Some (Inr True) \<and> anc b x = Some (Inr True)"
  shows "\<exists>s'. set_head_read memory_label_store anc s n a = Some (Inr (l, True)) \<and>
    set_head_read memory_label_store anc s n b = Some (Inr (l, True)) \<and>
    set_head_write memory_label_store s (l, True) a = Some (Inr (True, s')) \<and>
    set_head_write memory_label_store s' (l, True) b = Some (Inr (True, s')) \<and>
    MemoryLabelStore_get_label s' n = Some (Inr (Some (Label_with_updated_layer l (Some a))))"
  using memory_labels.second_write_lost [OF assms(1) TrueI assms(2), of anc a b] assms(3)
  by (simp add: memory_label_store_def)

theorem set_head_lost_update_witness:
  "\<exists>s'. set_head_write memory_label_store [(graph_name, Label_new_empty graph_name)] (Label_new_empty graph_name, True) first_head =
      Some (Inr (True, s')) \<and>
    set_head_write memory_label_store s' (Label_new_empty graph_name, True) second_head = Some (Inr (True, s')) \<and>
    MemoryLabelStore_get_label s' graph_name = Some (Inr (Some (Label_new graph_name first_head\<lparr>lb_version := 1\<rparr>)))"
proof -
  have "memory_labels_ok [(graph_name, Label_new_empty graph_name)]" by (simp add: memory_labels_ok_def)
  from set_head_lost_update [OF this, of graph_name "Label_new_empty graph_name" ancestor_or_same first_head second_head]
  show ?thesis by (auto simp: Label_new_def Label_new_empty_def Label_with_updated_layer_def)
qed

end
