(* ===== verification/Spec2Isabelle.thy ===== *)
theory Spec2Isabelle
  imports Prelude Vbyte Util BitIter BitArray LogArray RankSelect BitIndex AdjacencyList WaveletTree Pfc PfcDictionary
    Layer LayerIds LayerTriples StackMerge LayerIterators StackTriples IndexQueries
    TripleBuilder TripleIndex LayerBuilder BuiltLayers SimpleBuilder CommitChanges CommittedLayers
    LayerNames Labels LayerStorage StoredLayers Store StoreRuns StoreProperties NamedGraphs
begin

text \<open>
  A verification of terminus-store, a store for immutable layers of triples.

  \<^bold>\<open>The program.\<close> A store (\<open>src/store/mod.rs\<close>) keeps layers and labels. A layer is a base layer,
  which holds triples, or a child layer, which holds triples added to and removed from its
  parent; a label is a name that points to a layer and counts its changes. A triple is made of
  ids: every layer has dictionaries for the strings it introduces, and numbers them after those
  of its parent (\<open>src/layer/\<close>). A layer is a directory of files (\<open>src/storage/\<close>) that hold
  succinct data structures (\<open>src/structure/\<close>), which the queries read in place. Layers are
  written once, by a builder that is committed; loading a layer loads its ancestors, through a
  cache.

  \<^bold>\<open>The theories\<close>, from the bottom up; each names its source file in its first block.

  \<^item> \<open>Prelude\<close>: machine integers, buffers, panics, and the interface \<open>big_endian\<close> of the crate
    that reads and writes big-endian words, with its interpretation on the words themselves.
  \<^item> Structures of \<open>src/structure/\<close>: \<open>Vbyte\<close> (variable-byte integers), \<open>Util\<close>, \<open>BitIter\<close>,
    \<open>BitArray\<close>, \<open>LogArray\<close> (integers of a fixed width), \<open>RankSelect\<close> (the specification of rank
    and select, and the interface \<open>rank_select\<close>), \<open>BitIndex\<close> (the index that implements it),
    \<open>AdjacencyList\<close>, \<open>WaveletTree\<close>, \<open>Pfc\<close> and \<open>PfcDictionary\<close> (front-coded dictionaries; the
    interface \<open>string_dictionary\<close>). A well-formedness predicate relates a structure to the
    list it stands for; the lemmas say that the builders establish it, that the reads return
    what the list says, and what happens on bad input and out of range.
  \<^item> Layers of \<open>src/layer/\<close>: \<open>Layer\<close> (layer types, id maps, translations), \<open>LayerIds\<close> (strings to
    ids and back through a stack), \<open>LayerTriples\<close> (the triples of one layer and the subject
    iterator with its seeks), \<open>LayerIterators\<close> (object, predicate and stack iterators),
    \<open>StackMerge\<close> (the interface \<open>peekable\<close> of the iterators and the merge of additions and
    removals), \<open>StackTriples\<close> and \<open>IndexQueries\<close> (the queries by subject, object and predicate
    are those of the set of triples that the stack stands for).
  \<^item> Building layers: \<open>TripleBuilder\<close> and \<open>LayerBuilder\<close> (the file builders), \<open>TripleIndex\<close> and
    \<open>BuiltLayers\<close> (built layers satisfy the well-formedness on which the queries rest),
    \<open>SimpleBuilder\<close> (collecting and committing changes), \<open>CommitChanges\<close> and \<open>CommittedLayers\<close>
    (a commit succeeds and applies its changes to the set of string triples).
  \<^item> Storage of \<open>src/storage/\<close>: \<open>LayerNames\<close> (names of layers as text), \<open>Labels\<close> (the interface
    \<open>label_store\<close> and the stores in memory and in a directory), \<open>LayerStorage\<close> (files, loading
    through a cache, creation, walks along the parents), \<open>StoredLayers\<close> (what is written is
    loaded again, with any coherent cache).
  \<^item> The store: \<open>Store\<close> (\<open>src/store/mod.rs\<close>), \<open>StoreRuns\<close> (runs of creating, changing and
    committing layers, as a relation), \<open>StoreProperties\<close> (the store as a map from names to sets
    of string triples; squash and difference), \<open>NamedGraphs\<close> (processes that move the heads of
    graphs at the same time, as a step relation).

  \<^bold>\<open>How the properties fit together.\<close> The chain of refinements goes from bytes to sets: files are
  lists (\<open>BitArray\<close> to \<open>PfcDictionary\<close>), lists are sets of id triples with their indexes
  (\<open>LayerTriples\<close>, \<open>TripleIndex\<close>), stacks of layers are sets of string triples (\<open>StackTriples\<close>,
  \<open>LayerIds\<close>, \<open>CommittedLayers\<close>), and the store is a map from names to such sets
  (\<open>StoreProperties\<close>). The theorems on committed and stored layers assume nothing of the files:
  they start from an empty store and the operations of the builder.

  \<^bold>\<open>Conventions and bounds.\<close>
  \<^item> \<open>None\<close> is a panic or a run that does not return; \<open>Inl\<close> is an error of the source. Loops that
    follow parent and rollup files are \<open>partial_function (option)\<close>, and that they return for the
    layers of a run is a theorem; all other loops are total functions.
  \<^item> Code outside the sources is a parameter: the words of \<open>byteorder\<close>, the framed readers of
    \<open>tokio_util\<close>, the chunks in which a file stream arrives, \<open>f32::log2\<close>, the parallel sorts
    and the order in which the threads of \<open>rayon\<close> visit elements, and the random names of
    layers. The records \<open>env\<close> and \<open>sorters\<close> bundle them, \<open>env_ok\<close>, \<open>sorters_ok\<close> and \<open>par_ok\<close> say
    what is documented of them, and \<open>env_std\<close>, \<open>sorters_std\<close> and \<open>rev\<close> are instances for the
    witnesses.
  \<^item> The theorems on committed layers bound the ids of a stack by \<open>2 ^ 21\<close>: up to there
    \<open>calculate_width\<close>, which goes through \<open>f32\<close>, is exact, and no offset overflows. Strings of
    triples are valid UTF-8, not empty, free of null bytes and shorter than \<open>2 ^ 40\<close> bytes: the
    dictionaries lose null bytes, and look up the empty string wrongly. The steps of processes
    are fewer than \<open>2 ^ 64\<close>, where the versions of labels wrap around.

  \<^bold>\<open>Not modelled.\<close> Rolling up layers and its id maps (\<open>src/storage/delta.rs\<close>, the constructors of
  \<open>id_map.rs\<close>) and the queries of additions and removals that read single files; reading
  through rollups that exist is modelled. Packs (\<open>pack.rs\<close>) are archives of third-party
  formats. Reading and writing files of a directory, file locks, asynchronous readers and
  writers are input and output: a file is its contents, and an operation on a label is one
  step. \<open>mapped_dict.rs\<close> and \<open>new_memory.rs\<close> are unused; \<open>sync.rs\<close> wraps \<open>mod.rs\<close>; logging
  writes text.
\<close>

end
